(* ===== verification/Prelude.thy ===== *)
theory Prelude
  imports Main "HOL-Library.Word" "HOL-Library.Signed_Division"
begin

text \<open>
  Shared vocabulary of the development: the types that name the program's
  scalar data, the error values that stand for the ways a C++ function gives
  up (\<open>assert\<close>, \<open>throw\<close>, \<open>return false\<close>, \<open>state.DoS\<close>), sequencing of
  fallible steps, 64-bit signed arithmetic with its wrap-around written out,
  and the generic lemmas on lists and maps that the components share.
\<close>

section \<open>Scalar types\<close>

type_synonym byte = "8 word"
type_synonym uint8 = "8 word"
type_synonym uint32 = "32 word"
type_synonym uint64 = "64 word"
type_synonym uint160 = "160 word"
type_synonym uint256 = "256 word"
type_synonym bytes = "byte list"

section \<open>Errors as values\<close>

datatype Code =
    OK | MALFORMED | INVALID | OBSOLETE | DUPLICATED | NONSTANDARD | DUST
  | INSUFFICIENT_FEE | CHECKPOINT | CHECKBLOCKATHEIGHT_NOT_FOUND | SCID_NOT_FOUND
  | INSUFFICIENT_SCID_FUNDS | ABSURDLY_HIGH_FEE | HAS_CONFLICTS | NO_COINS_FOR_INPUT
  | INVALID_PROOF | SC_CUM_COMM_TREE | ACTIVE_CERT_DATA_HASH | TOO_MANY_CSW_INPUTS_FOR_SC

text \<open>
  \<open>Assert\<close> is a failed \<open>assert\<close>, \<open>Throw\<close> a C++ exception, \<open>RetFalse\<close> a bare
  \<open>return false\<close>, and \<open>DoS level code reason\<close> the verdict \<open>state.DoS\<close> records
  before the check returns \<open>false\<close> (\<open>state.Invalid\<close> is level 0). \<open>Undefined\<close> is an
  access the language leaves undefined, such as an index beyond the end of a vector.
\<close>

datatype error = Assert | Throw string | RetFalse | DoS nat Code string | Undefined

type_synonym 'a result = "error + 'a"

text \<open>Sequencing and loops are the same for every type of errors.\<close>

definition bindR :: "'e + 'a \<Rightarrow> ('a \<Rightarrow> 'e + 'b) \<Rightarrow> 'e + 'b" where
  "bindR m k = (case m of Inl e \<Rightarrow> Inl e | Inr x \<Rightarrow> k x)"

fun foldR :: "('s \<Rightarrow> 'a \<Rightarrow> 'e + 's) \<Rightarrow> 's \<Rightarrow> 'a list \<Rightarrow> 'e + 's" where
  "foldR f s [] = Inr s"
| "foldR f s (x # xs) = (case f s x of Inl e \<Rightarrow> Inl e | Inr s' \<Rightarrow> foldR f s' xs)"

definition is_ok :: "'e + 'a \<Rightarrow> bool" where
  "is_ok r = (case r of Inl _ \<Rightarrow> False | Inr _ \<Rightarrow> True)"

named_theorems res_simps \<open>equations of the result type\<close>
named_theorems money_simps \<open>facts on money ranges and 64-bit sums\<close>

lemma bindR_simps [simp, res_simps]:
  "bindR (Inr x) k = k x" "bindR (Inl e) k = Inl e"
  by (simp_all add: bindR_def)

lemma bindR_eq_Inr [res_simps]:
  "bindR m k = Inr y \<longleftrightarrow> (\<exists>x. m = Inr x \<and> k x = Inr y)"
  by (cases m) simp_all

lemma bindR_assoc [res_simps]: "bindR (bindR m k) h = bindR m (\<lambda>x. bindR (k x) h)"
  by (cases m) simp_all

lemma is_ok_simps [simp, res_simps]: "is_ok (Inr x)" "\<not> is_ok (Inl e)"
  by (simp_all add: is_ok_def)

lemma is_ok_iff: "is_ok r \<longleftrightarrow> (\<exists>x. r = Inr x)"
  by (cases r) simp_all

lemma foldR_append:
  "foldR f s (xs @ ys) = bindR (foldR f s xs) (\<lambda>s'. foldR f s' ys)"
  by (induction xs arbitrary: s) (auto split: sum.splits)

lemma foldR_snoc_Inr:
  "foldR f s (xs @ [x]) = Inr s'' \<longleftrightarrow> (\<exists>s'. foldR f s xs = Inr s' \<and> f s' x = Inr s'')"
proof -
  have "foldR f s' [x] = f s' x" for s' by (cases "f s' x") simp_all
  then show ?thesis by (simp add: foldR_append bindR_eq_Inr)
qed

text \<open>An invariant of the loop body is an invariant of the loop.\<close>

lemma foldR_invariant:
  assumes "foldR f s xs = Inr s'" and "I s"
    and "\<And>t x t'. x \<in> set xs \<Longrightarrow> I t \<Longrightarrow> f t x = Inr t' \<Longrightarrow> I t'"
  shows "I s'"
  using assms
proof (induction xs arbitrary: s)
  case (Cons x xs)
  then obtain t where t: "f s x = Inr t" "foldR f t xs = Inr s'"
    by (auto split: sum.splits)
  moreover have "I t" using Cons.prems(3) [of x s t] Cons.prems(2) t(1) by simp
  ultimately show ?case using Cons.IH Cons.prems(3) by (metis list.set_intros(2))
qed simp

text \<open>A loop whose body never fails under the invariant does not fail.\<close>

lemma foldR_total:
  assumes "I s" and "\<And>t x. x \<in> set xs \<Longrightarrow> I t \<Longrightarrow> \<exists>t'. f t x = Inr t' \<and> I t'"
  shows "\<exists>s'. foldR f s xs = Inr s' \<and> I s'"
  using assms
proof (induction xs arbitrary: s)
  case (Cons x xs)
  then obtain t where "f s x = Inr t" "I t" by (meson list.set_intros(1))
  then show ?case using Cons.IH Cons.prems(2) by (metis foldR.simps(2) list.set_intros(2) sum.simps(6))
qed simp

text \<open>Two loops that undo one another step by step, the second run backwards.\<close>

lemma foldR_undo:
  assumes "foldR f s xs = Inr s'" and "I s"
    and "\<And>t x t'. x \<in> set xs \<Longrightarrow> I t \<Longrightarrow> f t x = Inr t' \<Longrightarrow> I t' \<and> g t' x = Inr t"
  shows "foldR g s' (rev xs) = Inr s"
  using assms
proof (induction xs arbitrary: s)
  case (Cons x xs)
  then obtain t where t: "f s x = Inr t" "foldR f t xs = Inr s'"
    by (auto split: sum.splits)
  have "I t" "g t x = Inr s" using Cons.prems(2,3) t(1) by (auto)
  moreover have "foldR g s' (rev xs) = Inr t"
    using Cons.IH [OF t(2)] \<open>I t\<close> Cons.prems(3) by (meson list.set_intros(2))
  ultimately show ?case by (simp add: foldR_append)
qed simp

text \<open>
  Two loops that undo one another when both run forwards: it is enough that a step undoes its
  counterpart and that undoing one element commutes with doing another.
\<close>

lemma foldR_push:
  assumes "foldR f t xs = Inr t'" and "I t" and "u t a = Inr t1"
    and "\<And>t x t'. x \<in> set xs \<Longrightarrow> I t \<Longrightarrow> f t x = Inr t' \<Longrightarrow> I t'"
    and "\<And>t b t1 t2. b \<in> set xs \<Longrightarrow> I t \<Longrightarrow> u t a = Inr t1 \<Longrightarrow> f t b = Inr t2 \<Longrightarrow> \<exists>t3. u t2 a = Inr t3 \<and> f t1 b = Inr t3"
  shows "\<exists>t1'. u t' a = Inr t1' \<and> foldR f t1 xs = Inr t1'"
  using assms
proof (induction xs arbitrary: t t1)
  case (Cons b xs)
  obtain t2 where t2: "f t b = Inr t2" "foldR f t2 xs = Inr t'" using Cons.prems(1) by (auto split: sum.splits)
  obtain t3 where t3: "u t2 a = Inr t3" "f t1 b = Inr t3"
    using Cons.prems(5) [of b t t1 t2] Cons.prems(2,3) t2(1) by auto
  have i2: "I t2" using Cons.prems(4) [of b t t2] Cons.prems(2) t2(1) by simp
  have "\<exists>t1'. u t' a = Inr t1' \<and> foldR f t3 xs = Inr t1'"
  proof (rule Cons.IH [OF t2(2) i2 t3(1)])
    show "I t'" if "x \<in> set xs" "I t" "f t x = Inr t'" for t x t' by (rule Cons.prems(4) [OF _ that(2,3)]) (simp add: that(1))
    show "\<exists>t3. u t2 a = Inr t3 \<and> f t1 b = Inr t3" if "b \<in> set xs" "I t" "u t a = Inr t1" "f t b = Inr t2" for t b t1 t2
      by (rule Cons.prems(5) [OF _ that(2-4)]) (simp add: that(1))
  qed
  then show ?case using t3(2) by simp
qed simp

lemma foldR_undo_forward:
  assumes "foldR f s xs = Inr s'" and "I s"
    and "\<And>t x t'. x \<in> set xs \<Longrightarrow> I t \<Longrightarrow> f t x = Inr t' \<Longrightarrow> I t' \<and> u t' x = Inr t"
    and "\<And>t a b t1 t2. a \<in> set xs \<Longrightarrow> b \<in> set xs \<Longrightarrow> I t \<Longrightarrow> u t a = Inr t1 \<Longrightarrow> f t b = Inr t2 \<Longrightarrow>
      \<exists>t3. u t2 a = Inr t3 \<and> f t1 b = Inr t3"
  shows "foldR u s' xs = Inr s"
  using assms
proof (induction xs arbitrary: s')
  case (Cons a xs)
  obtain t where t: "f s a = Inr t" "foldR f t xs = Inr s'" using Cons.prems(1) by (auto split: sum.splits)
  have a: "I t" "u t a = Inr s" using Cons.prems(3) [OF _ Cons.prems(2) t(1)] by simp_all
  have "\<exists>t1'. u s' a = Inr t1' \<and> foldR f s xs = Inr t1'"
  proof (rule foldR_push [where I = I and u = u and a = a, OF t(2) a])
    show "I t'" if "x \<in> set xs" "I t0" "f t0 x = Inr t'" for t0 x t'
      using Cons.prems(3) [of x t0 t'] that by simp
    show "\<exists>t3. u t2 a = Inr t3 \<and> f t1 b = Inr t3" if "b \<in> set xs" "I t0" "u t0 a = Inr t1" "f t0 b = Inr t2" for t0 b t1 t2
      using Cons.prems(4) [of a b t0 t1 t2] that by simp
  qed
  then obtain s1 where s1: "u s' a = Inr s1" "foldR f s xs = Inr s1" by blast
  have "foldR u s1 xs = Inr s"
  proof (rule Cons.IH [OF s1(2) Cons.prems(2)])
    show "I t' \<and> u t' x = Inr t" if "x \<in> set xs" "I t" "f t x = Inr t'" for t x t'
      by (rule Cons.prems(3) [OF _ that(2,3)]) (simp add: that(1))
    show "\<exists>t3. u t2 a = Inr t3 \<and> f t1 b = Inr t3"
      if "a \<in> set xs" "b \<in> set xs" "I t" "u t a = Inr t1" "f t b = Inr t2" for t a b t1 t2
      by (rule Cons.prems(4) [OF _ _ that(3-5)]) (simp_all add: that(1,2))
  qed
  then show ?case using s1(1) by simp
qed simp

lemma foldR_map: "foldR f s (map g xs) = foldR (\<lambda>s x. f s (g x)) s xs"
  by (induction xs arbitrary: s) (simp_all cong: sum.case_cong)

lemma fold_insert_eq: "fold (\<lambda>a. insert (g a)) xs M = M \<union> g ` set xs"
  by (induction xs arbitrary: M) auto

lemma fold_remove_eq: "fold (\<lambda>a M. M - {g a}) xs M = M - g ` set xs"
  by (induction xs arbitrary: M) auto

lemma fold_const_eq: "fold (\<lambda>_ M. M) xs M = M"
  by (induction xs) auto

section \<open>Signed 64-bit arithmetic\<close>

definition to_u64 :: "int \<Rightarrow> nat" where "to_u64 i = nat (i mod 2 ^ 64)"

definition wrap64 :: "int \<Rightarrow> int" where
  "wrap64 x = (x + 2 ^ 63) mod 2 ^ 64 - 2 ^ 63"

definition in_int64 :: "int \<Rightarrow> bool" where
  "in_int64 x \<longleftrightarrow> - (2 ^ 63) \<le> x \<and> x < 2 ^ 63"

definition in_int32 :: "int \<Rightarrow> bool" where
  "in_int32 x \<longleftrightarrow> - (2 ^ 31) \<le> x \<and> x < 2 ^ 31"

lemma wrap64_id [money_simps]: "in_int64 x \<Longrightarrow> wrap64 x = x"
  by (simp add: wrap64_def in_int64_def)

lemma wrap64_range: "in_int64 (wrap64 x)"
  by (simp add: wrap64_def in_int64_def)

text \<open>Integer division of the source language truncates towards zero.\<close>

lemma sdiv_nonneg: "(0::int) \<le> a \<Longrightarrow> 0 < b \<Longrightarrow> a sdiv b = a div b"
  by (cases "a = 0") (simp_all add: signed_divide_int_def)

section \<open>Lists and maps\<close>

lemma filter_upd_same: "filter P (xs[i := v]) = filter P xs"
  if "i < length xs" "\<not> P v" "\<not> P (xs ! i)" for xs
  using that by (simp add: upd_conv_take_nth_drop) (metis (no_types, lifting) filter.simps(2) filter_append id_take_nth_drop)

definition last_n :: "nat \<Rightarrow> 'a list \<Rightarrow> 'a list" where
  "last_n m xs = drop (length xs - m) xs"

lemma last_n_snoc:
  assumes "0 < m"
  shows "last_n m (last_n m xs @ [x]) = last_n m (xs @ [x])"
proof (cases "length xs < m")
  case False
  then have "Suc (length xs) - m = Suc (length xs - m)" by simp
  then show ?thesis using False assms by (simp add: last_n_def add.commute)
qed (simp add: last_n_def)

lemma map_upd_triv_swap: "k \<noteq> k' \<Longrightarrow> m(k \<mapsto> v, k' \<mapsto> v') = m(k' \<mapsto> v', k \<mapsto> v)"
  by (auto simp: fun_upd_def)

lemma fun_upd_None_id: "m k = None \<Longrightarrow> m(k := None) = m"
  by (auto simp: fun_upd_def)

lemma restore_map_upd: "m k = v \<Longrightarrow> (m(k := w))(k := v) = m"
  by auto

end
