(* ===== verification/TxTypes.thy ===== *)
theory TxTypes
  imports Prelude
begin

text \<open>
  The data of \<open>primitives/transaction.h\<close>, \<open>primitives/certificate.h\<close>,
  \<open>sc/sidechaintypes.h\<close> and \<open>amount.h\<close>: transparent inputs and outputs,
  cross-chain outputs, ceased-sidechain withdrawal inputs, joinsplits,
  transactions and certificates. Members the source marks "memory only" that
  hold a digest of the object (\<open>hash\<close>, \<open>generatedScId\<close>) are fields, so the
  digest functions themselves are not part of the model. Amounts are the
  \<open>int64_t\<close> values as integers; sums of them wrap with \<open>wrap64\<close>.
\<close>

section \<open>Amounts\<close>

type_synonym CAmount = int

definition COIN :: CAmount where "COIN = 100000000"

definition MAX_MONEY :: CAmount where "MAX_MONEY = 21000000 * COIN"

definition MoneyRange :: "CAmount \<Rightarrow> bool" where
  "MoneyRange nValue \<longleftrightarrow> 0 \<le> nValue \<and> nValue \<le> MAX_MONEY"

lemma MoneyRange_int64 [money_simps]: "MoneyRange x \<Longrightarrow> in_int64 x"
  by (simp add: MoneyRange_def MAX_MONEY_def COIN_def in_int64_def)

lemma MoneyRange_add_int64 [money_simps]:
  "MoneyRange x \<Longrightarrow> MoneyRange y \<Longrightarrow> wrap64 (x + y) = x + y"
  by (rule wrap64_id) (simp add: MoneyRange_def MAX_MONEY_def COIN_def in_int64_def)

lemma MoneyRange_diff_int64 [money_simps]:
  "MoneyRange x \<Longrightarrow> MoneyRange y \<Longrightarrow> wrap64 (x - y) = x - y"
  by (rule wrap64_id) (simp add: MoneyRange_def MAX_MONEY_def COIN_def in_int64_def)

lemma MoneyRange_0 [simp, money_simps]: "MoneyRange 0"
  by (simp add: MoneyRange_def MAX_MONEY_def COIN_def)

lemma MoneyRange_nonneg [dest]: "MoneyRange x \<Longrightarrow> 0 \<le> x"
  by (simp add: MoneyRange_def)

section \<open>Scripts\<close>

type_synonym CScript = bytes

definition OP_RETURN :: byte where "OP_RETURN = 0x6a"
definition MAX_SCRIPT_SIZE :: nat where "MAX_SCRIPT_SIZE = 10000"

definition IsUnspendable :: "CScript \<Rightarrow> bool" where
  "IsUnspendable s \<longleftrightarrow> (s \<noteq> [] \<and> hd s = OP_RETURN) \<or> length s > MAX_SCRIPT_SIZE"

section \<open>Transparent inputs and outputs\<close>

record COutPoint =
  op_hash :: uint256
  op_n :: uint32

definition outpoint_IsNull :: "COutPoint \<Rightarrow> bool" where
  "outpoint_IsNull p \<longleftrightarrow> op_hash p = 0 \<and> op_n p = - 1"

record CTxIn =
  prevout :: COutPoint
  scriptSig :: CScript
  nSequence :: uint32

record CTxOut =
  nValue :: CAmount
  scriptPubKey :: CScript

definition txout_SetNull :: CTxOut where
  "txout_SetNull = \<lparr>nValue = - 1, scriptPubKey = []\<rparr>"

definition txout_IsNull :: "CTxOut \<Rightarrow> bool" where
  "txout_IsNull o' \<longleftrightarrow> nValue o' = - 1"

lemma txout_SetNull_IsNull [simp]: "txout_IsNull txout_SetNull"
  by (simp add: txout_IsNull_def txout_SetNull_def)

section \<open>Objects of the cross-chain protocol library\<close>

text \<open>A \<open>CZendooCctpObject\<close> is the byte vector it wraps; it is null when empty.\<close>

type_synonym CFieldElement = bytes
type_synonym CScProof = bytes
type_synonym CScVKey = bytes

definition cctp_IsNull :: "bytes \<Rightarrow> bool" where "cctp_IsNull b \<longleftrightarrow> b = []"

record FieldElementCertificateFieldConfig =
  nBits :: uint8

record BitVectorCertificateFieldConfig =
  bitVectorSizeBits :: int
  maxCompressedSizeBytes :: int

type_synonym FieldElementCertificateField = bytes
type_synonym BitVectorCertificateField = bytes

record ScFixedParameters =
  version :: uint8
  withdrawalEpochLength :: int
  customData :: bytes
  sc_constant :: "CFieldElement option"
  wCertVk :: CScVKey
  wCeasedVk :: "CScVKey option"
  vFieldElementCertificateFieldConfig :: "FieldElementCertificateFieldConfig list"
  vBitVectorCertificateFieldConfig :: "BitVectorCertificateFieldConfig list"
  mainchainBackwardTransferRequestDataLength :: uint8

definition ScFixedParameters_null :: ScFixedParameters where
  "ScFixedParameters_null = \<lparr>version = 0xff, withdrawalEpochLength = - 1, customData = [],
     sc_constant = None, wCertVk = [], wCeasedVk = None,
     vFieldElementCertificateFieldConfig = [], vBitVectorCertificateFieldConfig = [],
     mainchainBackwardTransferRequestDataLength = 0\<rparr>"

definition ScFixedParameters_IsNull :: "ScFixedParameters \<Rightarrow> bool" where
  "ScFixedParameters_IsNull p \<longleftrightarrow>
     version p = 0xff \<and> withdrawalEpochLength p = - 1 \<and> customData p = [] \<and>
     sc_constant p = None \<and> cctp_IsNull (wCertVk p) \<and> wCeasedVk p = None \<and>
     vFieldElementCertificateFieldConfig p = [] \<and> vBitVectorCertificateFieldConfig p = [] \<and>
     mainchainBackwardTransferRequestDataLength p = 0"

datatype ScFeeCheckFlag = LATEST_VALUE | MINIMUM_IN_A_RANGE

record ScFeeData =
  forwardTxScFee :: CAmount
  mbtrTxScFee :: CAmount

section \<open>Cross-chain inputs and outputs\<close>

record CTxCeasedSidechainWithdrawalInput =
  csw_nValue :: CAmount
  csw_scId :: uint256
  nullifier :: CFieldElement
  csw_pubKeyHash :: uint160
  csw_scProof :: CScProof
  actCertDataHash :: CFieldElement
  ceasingCumScTxCommTree :: CFieldElement
  redeemScript :: CScript

record CTxForwardTransferOut =
  ft_nValue :: CAmount
  ft_address :: uint256
  ft_scId :: uint256
  mcReturnAddress :: uint160

text \<open>
  \<open>CTxScCreationOut\<close> repeats the members of \<open>ScFixedParameters\<close>; the model
  groups them in one field. \<open>generatedScId\<close> is the memory-only identifier.
\<close>

record CTxScCreationOut =
  cr_nValue :: CAmount
  cr_address :: uint256
  generatedScId :: uint256
  cr_params :: ScFixedParameters
  cr_forwardTransferScFee :: CAmount
  cr_mbtrScFee :: CAmount

record CBwtRequestOut =
  mbtr_scId :: uint256
  vScRequestData :: "CFieldElement list"
  mcDestinationAddress :: uint160
  scFee :: CAmount

datatype SproutProof = PHGRProof bytes | GrothProof bytes

record JSDescription =
  vpub_old :: CAmount
  vpub_new :: CAmount
  anchor :: uint256
  js_nullifiers :: "uint256 list"
  commitments :: "uint256 list"
  ephemeralKey :: uint256
  ciphertexts :: "bytes list"
  randomSeed :: uint256
  macs :: "uint256 list"
  js_proof :: SproutProof

section \<open>Transactions and certificates\<close>

definition SC_CERT_VERSION :: int where "SC_CERT_VERSION = - 5"
definition SC_TX_VERSION :: int where "SC_TX_VERSION = - 4"
definition GROTH_TX_VERSION :: int where "GROTH_TX_VERSION = - 3"
definition PHGR_TX_VERSION :: int where "PHGR_TX_VERSION = 2"
definition TRANSPARENT_TX_VERSION :: int where "TRANSPARENT_TX_VERSION = 1"

record CTransaction =
  tx_nVersion :: int
  tx_vin :: "CTxIn list"
  tx_vout :: "CTxOut list"
  tx_hash :: uint256
  vjoinsplit :: "JSDescription list"
  nLockTime :: uint32
  vcsw_ccin :: "CTxCeasedSidechainWithdrawalInput list"
  vsc_ccout :: "CTxScCreationOut list"
  vft_ccout :: "CTxForwardTransferOut list"
  vmbtr_out :: "CBwtRequestOut list"
  joinSplitPubKey :: uint256
  joinSplitSig :: bytes

definition EPOCH_NULL :: int where "EPOCH_NULL = - 1"
definition EPOCH_NOT_INITIALIZED :: int where "EPOCH_NOT_INITIALIZED = - 2"
definition QUALITY_NULL :: int where "QUALITY_NULL = - 1"
definition INT_NULL :: int where "INT_NULL = - 1"

record CScCertificate =
  cert_nVersion :: int
  cert_vin :: "CTxIn list"
  cert_vout :: "CTxOut list"
  cert_hash :: uint256
  cert_scId :: uint256
  epochNumber :: int
  quality :: int
  endEpochCumScTxCommTreeRoot :: CFieldElement
  cert_scProof :: CScProof
  vFieldElementCertificateField :: "FieldElementCertificateField list"
  vBitVectorCertificateField :: "BitVectorCertificateField list"
  cert_forwardTransferScFee :: CAmount
  cert_mbtrScFee :: CAmount
  cert_nFirstBwtPos :: int

definition IsScVersion :: "CTransaction \<Rightarrow> bool" where
  "IsScVersion tx \<longleftrightarrow> tx_nVersion tx = SC_TX_VERSION"

definition tx_IsCoinBase :: "CTransaction \<Rightarrow> bool" where
  "tx_IsCoinBase tx \<longleftrightarrow> length (tx_vin tx) = 1 \<and> outpoint_IsNull (prevout (tx_vin tx ! 0))"

definition ccOutIsNull :: "CTransaction \<Rightarrow> bool" where
  "ccOutIsNull tx \<longleftrightarrow> vsc_ccout tx = [] \<and> vft_ccout tx = [] \<and> vmbtr_out tx = []"

definition ccIsNull :: "CTransaction \<Rightarrow> bool" where
  "ccIsNull tx \<longleftrightarrow> vcsw_ccin tx = [] \<and> ccOutIsNull tx"

definition cert_IsBackwardTransfer :: "CScCertificate \<Rightarrow> int \<Rightarrow> bool result" where
  "cert_IsBackwardTransfer c pos =
     (if 0 \<le> pos \<and> pos < int (length (cert_vout c)) then Inr (pos \<ge> cert_nFirstBwtPos c)
      else Inl Assert)"

text \<open>The default-constructed transaction and certificate.\<close>

definition tx_null :: CTransaction where
  "tx_null = \<lparr>tx_nVersion = TRANSPARENT_TX_VERSION, tx_vin = [], tx_vout = [], tx_hash = 0,
     vjoinsplit = [], nLockTime = 0, vcsw_ccin = [], vsc_ccout = [], vft_ccout = [],
     vmbtr_out = [], joinSplitPubKey = 0, joinSplitSig = replicate 64 0\<rparr>"

definition cert_null :: CScCertificate where
  "cert_null = \<lparr>cert_nVersion = SC_CERT_VERSION, cert_vin = [], cert_vout = [], cert_hash = 0,
     cert_scId = 0, epochNumber = EPOCH_NOT_INITIALIZED, quality = QUALITY_NULL,
     endEpochCumScTxCommTreeRoot = [], cert_scProof = [],
     vFieldElementCertificateField = [], vBitVectorCertificateField = [],
     cert_forwardTransferScFee = INT_NULL, cert_mbtrScFee = INT_NULL, cert_nFirstBwtPos = 0\<rparr>"

definition cert_IsNull :: "CScCertificate \<Rightarrow> bool" where
  "cert_IsNull c \<longleftrightarrow>
     cert_scId c = 0 \<and> epochNumber c = EPOCH_NULL \<and> quality c = QUALITY_NULL \<and>
     cctp_IsNull (endEpochCumScTxCommTreeRoot c) \<and> cctp_IsNull (cert_scProof c) \<and>
     vFieldElementCertificateField c = [] \<and> vBitVectorCertificateField c = [] \<and>
     cert_vin c = [] \<and> cert_vout c = []"

definition tx_IsNull :: "CTransaction \<Rightarrow> bool" where
  "tx_IsNull tx \<longleftrightarrow>
     tx_vin tx = [] \<and> tx_vout tx = [] \<and> (IsScVersion tx \<longrightarrow> ccIsNull tx)"

lemmas version_defs = SC_CERT_VERSION_def SC_TX_VERSION_def GROTH_TX_VERSION_def
  PHGR_TX_VERSION_def TRANSPARENT_TX_VERSION_def

end
