(* ===== verification/Coins.thy ===== *)
theory Coins
  imports TxTypes
begin

text \<open>
  \<open>CCoins\<close> of \<open>coins.h\<close> and \<open>coins.cpp\<close>: the unspent outputs of one transaction
  or certificate. Output positions, \<open>uint32_t\<close> in the source, are natural
  numbers; a signed position compared with one is first read modulo \<open>2 ^ 32\<close>,
  as the language does.
\<close>

unbundle bit_operations_syntax

section \<open>State and operations\<close>

definition BWT_POS_UNSET :: int where "BWT_POS_UNSET = - 1"
definition COINBASE_MATURITY :: int where "COINBASE_MATURITY = 100"

definition to_u32 :: "int \<Rightarrow> nat" where "to_u32 i = nat (i mod 2 ^ 32)"

record CCoins =
  fCoinBase :: bool
  vout :: "CTxOut list"
  nHeight :: int
  nVersion :: int
  nFirstBwtPos :: int
  nBwtMaturityHeight :: int

definition CCoins_new :: CCoins where
  "CCoins_new = \<lparr>fCoinBase = False, vout = [], nHeight = 0, nVersion = 0,
     nFirstBwtPos = BWT_POS_UNSET, nBwtMaturityHeight = 0\<rparr>"

definition Clear :: "CCoins \<Rightarrow> CCoins" where
  "Clear c = c\<lparr>fCoinBase := False, vout := [], nHeight := 0, nVersion := 0,
     nFirstBwtPos := BWT_POS_UNSET, nBwtMaturityHeight := 0\<rparr>"

function pop_nulls :: "CTxOut list \<Rightarrow> CTxOut list" where
  "pop_nulls os = (if length os > 0 \<and> txout_IsNull (last os) then pop_nulls (butlast os) else os)"
  by auto
termination by (relation "measure length") auto

declare pop_nulls.simps [simp del]

definition Cleanup :: "CCoins \<Rightarrow> CCoins" where
  "Cleanup c = c\<lparr>vout := pop_nulls (vout c)\<rparr>"

definition ClearUnspendable :: "CCoins \<Rightarrow> CCoins" where
  "ClearUnspendable c =
     Cleanup (c\<lparr>vout := map (\<lambda>o'. if IsUnspendable (scriptPubKey o') then txout_SetNull else o') (vout c)\<rparr>)"

definition IsAvailable :: "CCoins \<Rightarrow> nat \<Rightarrow> bool" where
  "IsAvailable c nPos \<longleftrightarrow> nPos < length (vout c) \<and> \<not> txout_IsNull (vout c ! nPos)"

definition Spend :: "nat \<Rightarrow> CCoins \<Rightarrow> CCoins \<times> bool" where
  "Spend nPos c =
     (if nPos \<ge> length (vout c) \<or> txout_IsNull (vout c ! nPos) then (c, False)
      else (Cleanup (c\<lparr>vout := (vout c)[nPos := txout_SetNull]\<rparr>), True))"

definition IsPruned :: "CCoins \<Rightarrow> bool" where
  "IsPruned c \<longleftrightarrow> list_all txout_IsNull (vout c)"

definition CCoins_eq :: "CCoins \<Rightarrow> CCoins \<Rightarrow> bool" where
  "CCoins_eq a b \<longleftrightarrow> (IsPruned a \<and> IsPruned b) \<or>
     (fCoinBase a = fCoinBase b \<and> nHeight a = nHeight b \<and> nVersion a = nVersion b \<and> vout a = vout b \<and>
      nFirstBwtPos a = nFirstBwtPos b \<and> nBwtMaturityHeight a = nBwtMaturityHeight b)"

definition IsFromCert :: "CCoins \<Rightarrow> bool" where
  "IsFromCert c \<longleftrightarrow> nVersion c AND 0x7f = SC_CERT_VERSION AND 0x7f"

definition isOutputMature :: "CCoins \<Rightarrow> nat \<Rightarrow> int \<Rightarrow> bool" where
  "isOutputMature c outPos nSpendingHeight =
     (if \<not> fCoinBase c \<and> \<not> IsFromCert c then True
      else if fCoinBase c then nSpendingHeight \<ge> nHeight c + COINBASE_MATURITY
      else if outPos \<ge> to_u32 (nFirstBwtPos c) then nSpendingHeight \<ge> nBwtMaturityHeight c
      else True)"

definition From_tx :: "CTransaction \<Rightarrow> int \<Rightarrow> CCoins" where
  "From_tx tx nHeightIn = ClearUnspendable
     \<lparr>fCoinBase = tx_IsCoinBase tx, vout = tx_vout tx, nHeight = nHeightIn, nVersion = tx_nVersion tx,
      nFirstBwtPos = BWT_POS_UNSET, nBwtMaturityHeight = 0\<rparr>"

lemma pop_nulls_rev: "pop_nulls os = rev (dropWhile txout_IsNull (rev os))"
proof (induction os rule: rev_induct)
  case Nil
  show ?case by (simp add: pop_nulls.simps [of "[]"])
next
  case (snoc o' os)
  then show ?case by (simp add: pop_nulls.simps [of "os @ [o']"])
qed

lemma pop_nulls_prefix: "\<exists>zs. os = pop_nulls os @ zs \<and> list_all txout_IsNull zs"
proof -
  have "rev os = takeWhile txout_IsNull (rev os) @ dropWhile txout_IsNull (rev os)" by simp
  then have "os = pop_nulls os @ rev (takeWhile txout_IsNull (rev os))"
    by (metis pop_nulls_rev rev_append rev_rev_ident)
  moreover have "list_all txout_IsNull (rev (takeWhile txout_IsNull (rev os)))"
    by (auto simp: list_all_iff dest: set_takeWhileD)
  ultimately show ?thesis by blast
qed

lemma pop_nulls_last: "pop_nulls os \<noteq> [] \<Longrightarrow> \<not> txout_IsNull (last (pop_nulls os))"
  using hd_dropWhile [of txout_IsNull "rev os"] by (simp add: pop_nulls_rev last_rev)

lemma pop_nulls_length: "length (pop_nulls os) \<le> length os"
  using pop_nulls_prefix [of os] by (metis length_append le_add1)

lemma Spend_length: "length (vout (fst (Spend n c))) \<le> length (vout c)"
  by (simp add: Spend_def Cleanup_def) (metis length_list_update pop_nulls_length)

function spend_from :: "nat \<Rightarrow> CCoins \<Rightarrow> CCoins" where
  "spend_from bwtPos c =
     (if bwtPos < length (vout c) then spend_from (bwtPos + 1) (fst (Spend bwtPos c)) else c)"
  by auto
termination
proof (relation "measure (\<lambda>(p, c). length (vout c) - p)")
  show "((p + 1, fst (Spend p c)), p, c) \<in> measure (\<lambda>(p, c). length (vout c) - p)"
    if "p < length (vout c)" for p c
    using that Spend_length [of p c] by simp
qed simp

declare spend_from.simps [simp del]

definition From_cert :: "CScCertificate \<Rightarrow> int \<Rightarrow> int \<Rightarrow> bool \<Rightarrow> CCoins" where
  "From_cert cert nHeightIn bwtMaturityHeight isBlockTopQualityCert =
     (let c = \<lparr>fCoinBase = False, vout = cert_vout cert, nHeight = nHeightIn, nVersion = cert_nVersion cert,
               nFirstBwtPos = cert_nFirstBwtPos cert, nBwtMaturityHeight = bwtMaturityHeight\<rparr>;
          c' = (if \<not> isBlockTopQualityCert then spend_from (to_u32 (nFirstBwtPos c)) c else c)
      in ClearUnspendable c')"

section \<open>Canonical coins\<close>

text \<open>Trailing spent outputs are dropped, as the comment on \<open>vout\<close> promises.\<close>

definition canonical :: "CCoins \<Rightarrow> bool" where
  "canonical c \<longleftrightarrow> vout c = [] \<or> \<not> txout_IsNull (last (vout c))"

lemma Cleanup_canonical [simp, intro]: "canonical (Cleanup c)"
  using pop_nulls_last by (auto simp: canonical_def Cleanup_def)

lemma ClearUnspendable_canonical [simp, intro]: "canonical (ClearUnspendable c)"
  by (simp add: ClearUnspendable_def)

lemma From_tx_canonical [simp, intro]: "canonical (From_tx tx h)"
  by (simp add: From_tx_def)

lemma From_cert_canonical [simp, intro]: "canonical (From_cert cert h m t)"
  by (simp add: From_cert_def Let_def)

lemma Spend_canonical: "canonical c \<Longrightarrow> canonical (fst (Spend n c))"
  by (simp add: Spend_def)

lemma canonical_pruned: "canonical c \<Longrightarrow> IsPruned c \<longleftrightarrow> vout c = []"
  by (cases "vout c" rule: rev_cases) (simp_all add: canonical_def IsPruned_def)

lemma canonical_Cleanup_id: "canonical c \<Longrightarrow> Cleanup c = c"
  by (subst Cleanup_def, subst pop_nulls.simps) (auto simp: canonical_def)

lemma Cleanup_Available [simp]: "IsAvailable (Cleanup c) n = IsAvailable c n"
proof -
  obtain zs where zs: "vout c = pop_nulls (vout c) @ zs" "list_all txout_IsNull zs"
    using pop_nulls_prefix by blast
  let ?p = "pop_nulls (vout c)"
  have "IsAvailable c n \<longleftrightarrow> n < length (?p @ zs) \<and> \<not> txout_IsNull ((?p @ zs) ! n)"
    using zs(1) by (simp add: IsAvailable_def)
  also have "\<dots> \<longleftrightarrow> n < length ?p \<and> \<not> txout_IsNull (?p ! n)"
    using zs(2) by (auto simp: nth_append list_all_length)
  finally show ?thesis by (simp add: IsAvailable_def Cleanup_def)
qed

lemma IsPruned_iff: "IsPruned c \<longleftrightarrow> (\<forall>n. \<not> IsAvailable c n)"
  by (auto simp: IsPruned_def IsAvailable_def list_all_length)

lemma Cleanup_IsPruned [simp]: "IsPruned (Cleanup c) = IsPruned c"
  by (simp add: IsPruned_iff)

lemma Cleanup_nth: "IsAvailable c n \<Longrightarrow> vout (Cleanup c) ! n = vout c ! n"
  using pop_nulls_prefix [of "vout c"] Cleanup_Available [of c n]
  by (auto simp: Cleanup_def IsAvailable_def nth_append) (metis nth_append)

lemma Cleanup_fields [simp]:
  "fCoinBase (Cleanup c) = fCoinBase c" "nHeight (Cleanup c) = nHeight c" "nVersion (Cleanup c) = nVersion c"
  "nFirstBwtPos (Cleanup c) = nFirstBwtPos c" "nBwtMaturityHeight (Cleanup c) = nBwtMaturityHeight c"
  by (simp_all add: Cleanup_def)

lemma Spend_fields [simp]:
  "fCoinBase (fst (Spend n c)) = fCoinBase c" "nHeight (fst (Spend n c)) = nHeight c"
  "nVersion (fst (Spend n c)) = nVersion c" "nFirstBwtPos (fst (Spend n c)) = nFirstBwtPos c"
  "nBwtMaturityHeight (fst (Spend n c)) = nBwtMaturityHeight c"
  by (simp_all add: Spend_def)

lemma Spend_snd: "snd (Spend n c) = IsAvailable c n"
  by (simp add: Spend_def IsAvailable_def)

lemma upd_null_Available:
  "IsAvailable (c\<lparr>vout := (vout c)[n := txout_SetNull]\<rparr>) m \<longleftrightarrow> IsAvailable c m \<and> m \<noteq> n"
  by (cases "m = n") (auto simp: IsAvailable_def nth_list_update_eq)

lemma Spend_Available: "IsAvailable (fst (Spend n c)) m \<longleftrightarrow> IsAvailable c m \<and> m \<noteq> n"
proof (cases "IsAvailable c n")
  case True
  then have "fst (Spend n c) = Cleanup (c\<lparr>vout := (vout c)[n := txout_SetNull]\<rparr>)"
    by (simp add: Spend_def IsAvailable_def)
  then show ?thesis by (simp add: upd_null_Available)
next
  case False
  then show ?thesis by (auto simp: Spend_def IsAvailable_def)
qed

lemma spend_from_Available: "IsAvailable (spend_from p c) m \<longleftrightarrow> IsAvailable c m \<and> m < p"
proof (induction p c rule: spend_from.induct)
  case (1 p c)
  show ?case
  proof (cases "p < length (vout c)")
    case True
    then have "IsAvailable (spend_from p c) m = IsAvailable (spend_from (p + 1) (fst (Spend p c))) m"
      by (simp add: spend_from.simps [of p c])
    also have "\<dots> \<longleftrightarrow> IsAvailable c m \<and> m < p" using 1 [OF True] by (auto simp: Spend_Available)
    finally show ?thesis .
  next
    case False
    then show ?thesis by (subst spend_from.simps) (auto simp: IsAvailable_def)
  qed
qed

lemma ClearUnspendable_Available:
  "IsAvailable (ClearUnspendable c) m \<longleftrightarrow> IsAvailable c m \<and> \<not> IsUnspendable (scriptPubKey (vout c ! m))"
proof -
  let ?c = "c\<lparr>vout := map (\<lambda>o'. if IsUnspendable (scriptPubKey o') then txout_SetNull else o') (vout c)\<rparr>"
  have "IsAvailable (ClearUnspendable c) m = IsAvailable ?c m" by (simp add: ClearUnspendable_def)
  then show ?thesis
    by (cases "m < length (vout c)") (simp_all add: IsAvailable_def)
qed

lemma Spend_nth: "IsAvailable (fst (Spend n c)) m \<Longrightarrow> vout (fst (Spend n c)) ! m = vout c ! m"
proof -
  assume av: "IsAvailable (fst (Spend n c)) m"
  let ?c = "c\<lparr>vout := (vout c)[n := txout_SetNull]\<rparr>"
  have "m \<noteq> n" using av by (simp add: Spend_Available)
  moreover have "IsAvailable ?c m" using av by (simp add: Spend_Available upd_null_Available)
  ultimately show ?thesis using Cleanup_nth [of ?c m] by (simp add: Spend_def)
qed

lemma spend_from_nth: "IsAvailable (spend_from p c) m \<Longrightarrow> vout (spend_from p c) ! m = vout c ! m"
proof (induction p c rule: spend_from.induct)
  case (1 p c)
  show ?case
  proof (cases "p < length (vout c)")
    case True
    then have eq: "spend_from p c = spend_from (p + 1) (fst (Spend p c))"
      by (simp add: spend_from.simps [of p c])
    have "IsAvailable (fst (Spend p c)) m" using 1(2) eq by (simp add: spend_from_Available)
    then show ?thesis using 1 True eq by (simp add: Spend_nth)
  next
    case False
    then show ?thesis by (simp add: spend_from.simps [of p c])
  qed
qed

lemma ClearUnspendable_nth:
  "IsAvailable (ClearUnspendable c) m \<Longrightarrow> vout (ClearUnspendable c) ! m = vout c ! m"
proof -
  assume av: "IsAvailable (ClearUnspendable c) m"
  let ?c = "c\<lparr>vout := map (\<lambda>o'. if IsUnspendable (scriptPubKey o') then txout_SetNull else o') (vout c)\<rparr>"
  have "IsAvailable ?c m" using av by (simp add: ClearUnspendable_def)
  then have "vout (Cleanup ?c) ! m = vout ?c ! m" by (rule Cleanup_nth)
  then show ?thesis using av \<open>IsAvailable ?c m\<close>
    unfolding ClearUnspendable_Available by (simp add: ClearUnspendable_def IsAvailable_def)
qed

section \<open>Clean coins\<close>

text \<open>
  Canonical, with every spent output as \<open>SetNull\<close> leaves it, and no more outputs than an
  unsigned 32-bit position can name. The unspent outputs determine such a record.
\<close>

definition clean_coins :: "CCoins \<Rightarrow> bool" where
  "clean_coins c \<longleftrightarrow> canonical c \<and> (\<forall>x \<in> set (vout c). txout_IsNull x \<longrightarrow> x = txout_SetNull) \<and> length (vout c) < 2 ^ 32"

lemma canonical_length: "canonical c \<Longrightarrow> vout c \<noteq> [] \<Longrightarrow> IsAvailable c (length (vout c) - 1)"
  by (simp add: canonical_def IsAvailable_def last_conv_nth)

lemma canonical_length_le:
  assumes "canonical c" "\<And>n. IsAvailable c n \<Longrightarrow> IsAvailable d n" shows "length (vout c) \<le> length (vout d)"
proof (cases "vout c = []")
  case False
  then have "length (vout c) - 1 < length (vout d)" using canonical_length [OF assms(1)] assms(2) by (auto simp: IsAvailable_def)
  then show ?thesis by simp
qed simp

lemma clean_ext:
  assumes "clean_coins c" "clean_coins d" "\<And>n. IsAvailable c n = IsAvailable d n"
    and "\<And>n. IsAvailable c n \<Longrightarrow> vout c ! n = vout d ! n"
  shows "vout c = vout d"
proof (rule nth_equalityI)
  show len: "length (vout c) = length (vout d)"
    using canonical_length_le [of c d] canonical_length_le [of d c] assms by (simp add: clean_coins_def)
  show "vout c ! n = vout d ! n" if n: "n < length (vout c)" for n
  proof (cases "IsAvailable c n")
    case False
    then have "txout_IsNull (vout c ! n)" "txout_IsNull (vout d ! n)" using assms(3) n len by (auto simp: IsAvailable_def)
    then show ?thesis using assms(1,2) n len by (auto simp: clean_coins_def)
  qed (rule assms(4))
qed

lemma pop_nulls_set: "set (pop_nulls xs) \<subseteq> set xs"
  using set_dropWhileD by (fastforce simp: pop_nulls_rev)

lemma Cleanup_clean: "(\<forall>x \<in> set (vout c). txout_IsNull x \<longrightarrow> x = txout_SetNull) \<Longrightarrow> length (vout c) < 2 ^ 32 \<Longrightarrow> clean_coins (Cleanup c)"
  using pop_nulls_set [of "vout c"] pop_nulls_length [of "vout c"] by (auto simp: clean_coins_def Cleanup_def canonical_def pop_nulls_last)

lemma clean_Cleanup_id: "clean_coins c \<Longrightarrow> Cleanup c = c"
  by (simp add: clean_coins_def canonical_Cleanup_id)

lemma clean_pruned: "clean_coins c \<Longrightarrow> IsPruned c \<longleftrightarrow> vout c = []"
  by (simp add: clean_coins_def canonical_pruned)

lemma Spend_clean: "clean_coins c \<Longrightarrow> clean_coins (fst (Spend n c))"
  using Cleanup_clean [of "c\<lparr>vout := (vout c)[n := txout_SetNull]\<rparr>"] set_update_subset_insert [of "vout c" n txout_SetNull]
  by (auto simp: Spend_def clean_coins_def)

lemma clean_empty [simp]: "vout c = [] \<Longrightarrow> clean_coins c"
  by (simp add: clean_coins_def canonical_def)

section \<open>Properties\<close>

text \<open>Spending reports whether the output was there, removes exactly that output from the
  unspent ones, changes none of the others and keeps the coins free of trailing spent outputs, so
  that an empty output vector is the same as being fully spent.\<close>

lemma Spend_functional:
  assumes "canonical c" "Spend n c = (c', ok)"
  shows "ok = IsAvailable c n \<and> canonical c'
    \<and> (IsAvailable c' m \<longleftrightarrow> IsAvailable c m \<and> m \<noteq> n)
    \<and> (IsAvailable c' m \<longrightarrow> vout c' ! m = vout c ! m)
    \<and> (IsPruned c' \<longleftrightarrow> vout c' = [])"
proof -
  have c': "c' = fst (Spend n c)" "ok = snd (Spend n c)" using assms(2) by simp_all
  show ?thesis using Spend_canonical [OF assms(1)] canonical_pruned
    by (simp add: c' Spend_snd Spend_Available Spend_nth)
qed

text \<open>A certificate that is not the best of its block for its sidechain contributes only
  its ordinary outputs to the unspent set: none of its backward transfers can ever be spent. The
  best one contributes every spendable output.\<close>

lemma From_cert_outputs:
  "IsAvailable (From_cert cert h mh top) n \<longleftrightarrow>
     n < length (cert_vout cert) \<and> \<not> txout_IsNull (cert_vout cert ! n)
     \<and> \<not> IsUnspendable (scriptPubKey (cert_vout cert ! n)) \<and> (top \<or> n < to_u32 (cert_nFirstBwtPos cert))"
proof -
  let ?c = "\<lparr>fCoinBase = False, vout = cert_vout cert, nHeight = h, nVersion = cert_nVersion cert,
               nFirstBwtPos = cert_nFirstBwtPos cert, nBwtMaturityHeight = mh\<rparr>"
  let ?c' = "if \<not> top then spend_from (to_u32 (nFirstBwtPos ?c)) ?c else ?c"
  have av: "IsAvailable ?c' n \<longleftrightarrow> IsAvailable ?c n \<and> (top \<or> n < to_u32 (cert_nFirstBwtPos cert))"
    by (simp add: spend_from_Available)
  have nth: "IsAvailable ?c' n \<Longrightarrow> vout ?c' ! n = cert_vout cert ! n"
    using spend_from_nth [of "to_u32 (nFirstBwtPos ?c)" ?c n] by (auto split: if_splits)
  show ?thesis using av nth
    by (auto simp: From_cert_def Let_def ClearUnspendable_Available) (simp_all add: IsAvailable_def)
qed

text \<open>Among the versions a transaction or certificate may have, only the certificate version
  is recognised as such, also after the version went through the serialization that keeps its low
  seven bits; and a backward transfer cannot be spent before its maturity height.\<close>

lemma IsFromCert_versions:
  assumes "nVersion c \<in> {TRANSPARENT_TX_VERSION, PHGR_TX_VERSION, GROTH_TX_VERSION, SC_TX_VERSION, SC_CERT_VERSION}"
  shows "IsFromCert c = (nVersion c = SC_CERT_VERSION)
    \<and> IsFromCert (c\<lparr>nVersion := nVersion c AND 0x7f\<rparr>) = IsFromCert c
    \<and> (IsFromCert c \<longrightarrow> \<not> fCoinBase c \<longrightarrow> to_u32 (nFirstBwtPos c) \<le> pos \<longrightarrow>
         isOutputMature c pos h = (nBwtMaturityHeight c \<le> h))"
  using assms by (auto simp: IsFromCert_def version_defs isOutputMature_def and.assoc)

end
