(* ===== verification/Sidechain.thy ===== *)
theory Sidechain
  imports TxTypes
begin

text \<open>
  The sidechain object of \<open>sc/sidechain.h\<close> and \<open>sc/sidechain.cpp\<close>: its state,
  the arithmetic of withdrawal epochs and certificate submission windows, and
  the circular buffer of sidechain fees. Node-wide settings (\<open>Params()\<close> and the
  start-up option \<open>-blocksforscfeecheck\<close>) are a record passed to the operations
  that read them.
\<close>

section \<open>Network parameters\<close>

record CChainParams =
  NetworkIDString :: string
  ScCoinsMaturity :: int
  ScNumBlocksForScFeeCheck :: int
  ScMinWithdrawalEpochLength :: int
  ScMaxWithdrawalEpochLength :: int
  arg_blocksforscfeecheck :: "int option"
  arg_sccoinsmaturity :: "int option"

definition CMainParams :: CChainParams where
  "CMainParams = \<lparr>NetworkIDString = ''main'', ScCoinsMaturity = 10, ScNumBlocksForScFeeCheck = 200,
     ScMinWithdrawalEpochLength = 100, ScMaxWithdrawalEpochLength = 4032,
     arg_blocksforscfeecheck = None, arg_sccoinsmaturity = None\<rparr>"

definition CTestNetParams :: CChainParams where
  "CTestNetParams = \<lparr>NetworkIDString = ''test'', ScCoinsMaturity = 10, ScNumBlocksForScFeeCheck = 200,
     ScMinWithdrawalEpochLength = 100, ScMaxWithdrawalEpochLength = 4032,
     arg_blocksforscfeecheck = None, arg_sccoinsmaturity = None\<rparr>"

definition CRegTestParams :: CChainParams where
  "CRegTestParams = \<lparr>NetworkIDString = ''regtest'', ScCoinsMaturity = 3, ScNumBlocksForScFeeCheck = 10,
     ScMinWithdrawalEpochLength = 2, ScMaxWithdrawalEpochLength = 4032,
     arg_blocksforscfeecheck = None, arg_sccoinsmaturity = None\<rparr>"

section \<open>State\<close>

record CScCertificateView =
  certDataHash :: CFieldElement
  view_forwardTransferScFee :: CAmount
  view_mbtrScFee :: CAmount

definition certView_null :: CScCertificateView where
  "certView_null = \<lparr>certDataHash = [], view_forwardTransferScFee = INT_NULL, view_mbtrScFee = INT_NULL\<rparr>"

definition certView_IsNull :: "CScCertificateView \<Rightarrow> bool" where
  "certView_IsNull v \<longleftrightarrow> cctp_IsNull (certDataHash v) \<and> view_forwardTransferScFee v = INT_NULL
     \<and> view_mbtrScFee v = INT_NULL"

record CSidechainEvents =
  sidechainEventsVersion :: int
  ceasingScs :: "uint256 set"
  maturingScs :: "uint256 set"

definition events_null :: CSidechainEvents where
  "events_null = \<lparr>sidechainEventsVersion = 0, ceasingScs = {}, maturingScs = {}\<rparr>"

definition events_IsNull :: "CSidechainEvents \<Rightarrow> bool" where
  "events_IsNull e \<longleftrightarrow> ceasingScs e = {} \<and> maturingScs e = {}"

datatype State = NOT_APPLICABLE | UNCONFIRMED | ALIVE | CEASED

record CSidechain =
  creationBlockHeight :: int
  creationTxHash :: uint256
  pastEpochTopQualityCertView :: CScCertificateView
  lastTopQualityCertView :: CScCertificateView
  lastTopQualityCertHash :: uint256
  lastTopQualityCertReferencedEpoch :: int
  lastTopQualityCertQuality :: int
  lastTopQualityCertBwtAmount :: CAmount
  balance :: CAmount
  fixedParams :: ScFixedParameters
  mImmatureAmounts :: "int \<rightharpoonup> CAmount"
  maxSizeOfScFeesContainers :: int
  scFees :: "ScFeeData list"

definition CSidechain_null :: CSidechain where
  "CSidechain_null = \<lparr>creationBlockHeight = - 1, creationTxHash = 0,
     pastEpochTopQualityCertView = certView_null, lastTopQualityCertView = certView_null,
     lastTopQualityCertHash = 0, lastTopQualityCertReferencedEpoch = EPOCH_NULL,
     lastTopQualityCertQuality = QUALITY_NULL, lastTopQualityCertBwtAmount = 0, balance = 0,
     fixedParams = ScFixedParameters_null, mImmatureAmounts = Map.empty,
     maxSizeOfScFeesContainers = - 1, scFees = []\<rparr>"

definition CSidechain_IsNull :: "CSidechain \<Rightarrow> bool" where
  "CSidechain_IsNull sc \<longleftrightarrow>
     creationBlockHeight sc = - 1 \<and> creationTxHash sc = 0 \<and>
     certView_IsNull (pastEpochTopQualityCertView sc) \<and> certView_IsNull (lastTopQualityCertView sc) \<and>
     lastTopQualityCertHash sc = 0 \<and> lastTopQualityCertReferencedEpoch sc = EPOCH_NULL \<and>
     lastTopQualityCertQuality sc = QUALITY_NULL \<and> lastTopQualityCertBwtAmount sc = 0 \<and>
     balance sc = 0 \<and> ScFixedParameters_IsNull (fixedParams sc) \<and>
     mImmatureAmounts sc = Map.empty \<and> scFees sc = []"

section \<open>Epochs and submission windows\<close>

definition isCreationConfirmed :: "CSidechain \<Rightarrow> bool" where
  "isCreationConfirmed sc \<longleftrightarrow> creationBlockHeight sc \<noteq> - 1"

abbreviation epochLen :: "CSidechain \<Rightarrow> int" where
  "epochLen sc \<equiv> withdrawalEpochLength (fixedParams sc)"

definition EpochFor :: "CSidechain \<Rightarrow> int \<Rightarrow> int" where
  "EpochFor sc targetHeight =
     (if \<not> isCreationConfirmed sc then EPOCH_NULL
      else (targetHeight - creationBlockHeight sc) sdiv epochLen sc)"

definition GetStartHeightForEpoch :: "CSidechain \<Rightarrow> int \<Rightarrow> int" where
  "GetStartHeightForEpoch sc targetEpoch =
     (if \<not> isCreationConfirmed sc then - 1
      else creationBlockHeight sc + targetEpoch * epochLen sc)"

definition GetEndHeightForEpoch :: "CSidechain \<Rightarrow> int \<Rightarrow> int" where
  "GetEndHeightForEpoch sc targetEpoch =
     (if \<not> isCreationConfirmed sc then - 1
      else GetStartHeightForEpoch sc targetEpoch + epochLen sc - 1)"

definition GetCertSubmissionWindowStart :: "CSidechain \<Rightarrow> int \<Rightarrow> int" where
  "GetCertSubmissionWindowStart sc certEpoch =
     (if \<not> isCreationConfirmed sc then - 1 else GetStartHeightForEpoch sc (certEpoch + 1))"

definition GetCertSubmissionWindowLength :: "CSidechain \<Rightarrow> int" where
  "GetCertSubmissionWindowLength sc = max 2 (epochLen sc sdiv 5)"

definition GetCertSubmissionWindowEnd :: "CSidechain \<Rightarrow> int \<Rightarrow> int" where
  "GetCertSubmissionWindowEnd sc certEpoch =
     (if \<not> isCreationConfirmed sc then - 1
      else GetCertSubmissionWindowStart sc certEpoch + GetCertSubmissionWindowLength sc - 1)"

definition GetCertMaturityHeight :: "CSidechain \<Rightarrow> int \<Rightarrow> int" where
  "GetCertMaturityHeight sc certEpoch =
     (if \<not> isCreationConfirmed sc then - 1 else GetCertSubmissionWindowEnd sc (certEpoch + 1))"

definition GetScheduledCeasingHeight :: "CSidechain \<Rightarrow> int" where
  "GetScheduledCeasingHeight sc =
     GetCertSubmissionWindowEnd sc (lastTopQualityCertReferencedEpoch sc + 1)"

definition stateToString :: "State \<Rightarrow> string" where
  "stateToString s = (case s of UNCONFIRMED \<Rightarrow> ''UNCONFIRMED'' | ALIVE \<Rightarrow> ''ALIVE''
     | CEASED \<Rightarrow> ''CEASED'' | NOT_APPLICABLE \<Rightarrow> ''NOT_APPLICABLE'')"

section \<open>The fee buffer\<close>

definition getNumBlocksForScFeeCheck :: "CChainParams \<Rightarrow> int" where
  "getNumBlocksForScFeeCheck pr =
     (if NetworkIDString pr = ''regtest'' then
        (let val = (case arg_blocksforscfeecheck pr of None \<Rightarrow> ScNumBlocksForScFeeCheck pr | Some v \<Rightarrow> v)
         in if val \<ge> 0 then val else ScNumBlocksForScFeeCheck pr)
      else ScNumBlocksForScFeeCheck pr)"

definition getMaxSizeOfScFeesContainers :: "CChainParams \<Rightarrow> CSidechain \<Rightarrow> (CSidechain \<times> int) result" where
  "getMaxSizeOfScFeesContainers pr sc =
     (if \<not> epochLen sc > 0 then Inl Assert
      else let numBlocks = getNumBlocksForScFeeCheck pr;
               m = numBlocks sdiv epochLen sc;
               m' = (if m = 0 \<or> numBlocks smod epochLen sc \<noteq> 0 then m + 1 else m)
           in Inr (sc\<lparr>maxSizeOfScFeesContainers := m'\<rparr>, m'))"

definition InitScFees :: "CChainParams \<Rightarrow> CSidechain \<Rightarrow> CSidechain result" where
  "InitScFees pr sc =
     (if maxSizeOfScFeesContainers sc = - 1 then
        bindR (getMaxSizeOfScFeesContainers pr sc) (\<lambda>(sc', _).
          if scFees sc' \<noteq> [] then Inl Assert
          else Inr (sc'\<lparr>scFees := scFees sc' @
            [\<lparr>forwardTxScFee = view_forwardTransferScFee (lastTopQualityCertView sc'),
              mbtrTxScFee = view_mbtrScFee (lastTopQualityCertView sc')\<rparr>]\<rparr>))
      else Inr sc)"

fun pop_front_n :: "nat \<Rightarrow> 'a list \<Rightarrow> 'a list" where
  "pop_front_n (Suc d) (x # xs) = pop_front_n d xs"
| "pop_front_n (Suc d) [] = []"
| "pop_front_n 0 xs = xs"

definition UpdateScFees :: "CScCertificateView \<Rightarrow> CSidechain \<Rightarrow> CSidechain result" where
  "UpdateScFees certView sc =
     (if \<not> maxSizeOfScFeesContainers sc > 0 then Inl Assert
      else let fees = scFees sc @ [\<lparr>forwardTxScFee = view_forwardTransferScFee certView,
                                    mbtrTxScFee = view_mbtrScFee certView\<rparr>];
               delta = int (length fees) - maxSizeOfScFeesContainers sc
           in Inr (sc\<lparr>scFees := (if delta > 0 then pop_front_n (nat delta) fees else fees)\<rparr>))"

text \<open>\<open>std::min_element\<close>: the first element no later element is smaller than.\<close>

fun min_element :: "('a \<Rightarrow> int) \<Rightarrow> 'a \<Rightarrow> 'a list \<Rightarrow> 'a" where
  "min_element key best [] = best"
| "min_element key best (x # xs) = min_element key (if key x < key best then x else best) xs"

definition GetMinFtScFee :: "CSidechain \<Rightarrow> CAmount result" where
  "GetMinFtScFee sc = (case scFees sc of [] \<Rightarrow> Inl Assert
     | x # xs \<Rightarrow> Inr (forwardTxScFee (min_element forwardTxScFee x xs)))"

definition GetMinMbtrScFee :: "CSidechain \<Rightarrow> CAmount result" where
  "GetMinMbtrScFee sc = (case scFees sc of [] \<Rightarrow> Inl Assert
     | x # xs \<Rightarrow> Inr (mbtrTxScFee (min_element mbtrTxScFee x xs)))"

section \<open>Lemmas on epochs\<close>

lemmas epoch_defs = EpochFor_def GetStartHeightForEpoch_def GetEndHeightForEpoch_def
  GetCertSubmissionWindowStart_def GetCertSubmissionWindowEnd_def GetCertMaturityHeight_def
  GetScheduledCeasingHeight_def

lemma GetCertSubmissionWindowLength_eq:
  "0 \<le> epochLen sc \<Longrightarrow> GetCertSubmissionWindowLength sc = max 2 (epochLen sc div 5)"
  by (simp add: GetCertSubmissionWindowLength_def sdiv_nonneg)

lemma window_fits_epoch:
  "2 \<le> epochLen sc \<Longrightarrow> GetCertSubmissionWindowLength sc \<le> epochLen sc"
  by (simp add: GetCertSubmissionWindowLength_eq)

lemma window_length_ge2: "2 \<le> GetCertSubmissionWindowLength sc"
  by (simp add: GetCertSubmissionWindowLength_def)

lemma start_mono:
  assumes "isCreationConfirmed sc" "0 < epochLen sc" "e < e'"
  shows "GetEndHeightForEpoch sc e < GetStartHeightForEpoch sc e'"
proof -
  have "(e + 1) * epochLen sc \<le> e' * epochLen sc" using assms by (intro mult_right_mono) auto
  then show ?thesis using assms by (simp add: epoch_defs algebra_simps)
qed

lemma EpochFor_bounds:
  assumes "isCreationConfirmed sc" "0 < epochLen sc" "creationBlockHeight sc \<le> h"
  shows "GetStartHeightForEpoch sc (EpochFor sc h) \<le> h \<and> h \<le> GetEndHeightForEpoch sc (EpochFor sc h)"
proof -
  define q where "q = (h - creationBlockHeight sc) div epochLen sc"
  define r where "r = (h - creationBlockHeight sc) mod epochLen sc"
  have "q * epochLen sc + r = h - creationBlockHeight sc" by (simp add: q_def r_def)
  moreover have "0 \<le> r" "r < epochLen sc" using assms(2) by (simp_all add: r_def)
  ultimately show ?thesis using assms by (simp add: epoch_defs sdiv_nonneg flip: q_def)
qed

section \<open>Lemmas on the fee buffer\<close>

lemma pop_front_n_drop [simp]: "pop_front_n d xs = drop d xs"
  by (induction d xs rule: pop_front_n.induct) simp_all

lemma min_element_in: "min_element key b xs \<in> insert b (set xs)"
  by (induction xs arbitrary: b) (simp_all, blast)

lemma min_element_le: "x \<in> insert b (set xs) \<Longrightarrow> key (min_element key b xs) \<le> key x"
proof (induction xs arbitrary: b x)
  case (Cons y ys)
  let ?b = "if key y < key b then y else b"
  have le: "key (min_element key ?b ys) \<le> key ?b" by (rule Cons.IH) simp
  show ?case
  proof (cases "x \<in> set ys")
    case True
    then show ?thesis using Cons.IH [of x ?b] by simp
  next
    case False
    then show ?thesis using Cons.prems le by (auto split: if_splits)
  qed
qed simp

lemma min_element_Min: "key (min_element key b xs) = Min (key ` insert b (set xs))"
proof (rule Min_eqI [symmetric])
  show "key (min_element key b xs) \<in> key ` insert b (set xs)"
    using min_element_in [of key b xs] by blast
qed (auto dest: min_element_le intro: min_element_le)

definition fee_of_view :: "CScCertificateView \<Rightarrow> ScFeeData" where
  "fee_of_view v = \<lparr>forwardTxScFee = view_forwardTransferScFee v, mbtrTxScFee = view_mbtrScFee v\<rparr>"

lemma UpdateScFees_scFees:
  assumes "UpdateScFees v sc = Inr sc'"
  shows "scFees sc' = last_n (nat (maxSizeOfScFeesContainers sc)) (scFees sc @ [fee_of_view v])"
    and "maxSizeOfScFeesContainers sc' = maxSizeOfScFeesContainers sc"
    and "0 < maxSizeOfScFeesContainers sc"
proof -
  have "0 < maxSizeOfScFeesContainers sc"
    using assms by (auto simp: UpdateScFees_def split: if_splits)
  moreover have "nat (int (length (scFees sc)) + 1 - maxSizeOfScFeesContainers sc) =
        length (scFees sc) + 1 - nat (maxSizeOfScFeesContainers sc)"
    using calculation by (simp add: nat_diff_distrib' nat_add_distrib)
  ultimately show "scFees sc' = last_n (nat (maxSizeOfScFeesContainers sc)) (scFees sc @ [fee_of_view v])"
    "maxSizeOfScFeesContainers sc' = maxSizeOfScFeesContainers sc" "0 < maxSizeOfScFeesContainers sc"
    using assms by (auto simp: UpdateScFees_def Let_def last_n_def fee_of_view_def add.commute split: if_splits)
qed

lemma smod_nonneg: "(0::int) \<le> a \<Longrightarrow> 0 < b \<Longrightarrow> a smod b = a mod b"
  by (simp add: signed_modulo_int_def sdiv_nonneg minus_div_mult_eq_mod sgn_if signed_divide_int_def)

section \<open>Properties\<close>

text \<open>C15: every height from the creation of a sidechain on lies in exactly one withdrawal
  epoch, the one \<open>EpochFor\<close> computes: between its first and its last height.\<close>

theorem EpochFor_unique:
  assumes "isCreationConfirmed sc" "0 < epochLen sc" "creationBlockHeight sc \<le> h"
  shows "(GetStartHeightForEpoch sc e \<le> h \<and> h \<le> GetEndHeightForEpoch sc e) = (e = EpochFor sc h)"
proof
  assume e: "GetStartHeightForEpoch sc e \<le> h \<and> h \<le> GetEndHeightForEpoch sc e"
  show "e = EpochFor sc h"
    using EpochFor_bounds [OF assms] e start_mono [OF assms(1,2), of e "EpochFor sc h"]
      start_mono [OF assms(1,2), of "EpochFor sc h" e] by linarith
qed (use EpochFor_bounds [OF assms] in simp)

definition sc_example :: CSidechain where
  "sc_example = CSidechain_null\<lparr>creationBlockHeight := 420, creationTxHash := 7,
     fixedParams := ScFixedParameters_null\<lparr>version := 0, withdrawalEpochLength := 100\<rparr>,
     balance := 1000\<rparr>"

lemma sc_example_simps [simp]:
  "creationBlockHeight sc_example = 420" "epochLen sc_example = 100" "isCreationConfirmed sc_example"
  "lastTopQualityCertReferencedEpoch sc_example = - 1" "balance sc_example = 1000"
  by (simp_all add: sc_example_def isCreationConfirmed_def CSidechain_null_def EPOCH_NULL_def)

theorem EpochFor_unique_witness:
  "(GetStartHeightForEpoch sc_example 1 \<le> 555 \<and> 555 \<le> GetEndHeightForEpoch sc_example 1)
     = (1 = EpochFor sc_example 555)"
  by (rule EpochFor_unique) simp_all

text \<open>C16: the window in which certificates of an epoch are accepted opens after the epoch has
  ended and closes within the next epoch, before the window of the next epoch opens; the backward
  transfers of a certificate mature only when the window of the following epoch closes.\<close>

theorem submission_windows_ordered:
  assumes "isCreationConfirmed sc" "2 \<le> epochLen sc"
  shows "GetEndHeightForEpoch sc e < GetCertSubmissionWindowStart sc e
    \<and> GetCertSubmissionWindowStart sc e < GetCertSubmissionWindowEnd sc e
    \<and> GetCertSubmissionWindowEnd sc e \<le> GetEndHeightForEpoch sc (e + 1)
    \<and> GetCertSubmissionWindowEnd sc e < GetCertSubmissionWindowStart sc (e + 1)
    \<and> GetCertMaturityHeight sc e = GetCertSubmissionWindowEnd sc e + epochLen sc"
  using window_fits_epoch [OF assms(2)] window_length_ge2 [of sc] assms
  by (simp add: epoch_defs algebra_simps)

theorem submission_windows_ordered_witness:
  "GetEndHeightForEpoch sc_example 3 < GetCertSubmissionWindowStart sc_example 3
    \<and> GetCertSubmissionWindowStart sc_example 3 < GetCertSubmissionWindowEnd sc_example 3
    \<and> GetCertSubmissionWindowEnd sc_example 3 \<le> GetEndHeightForEpoch sc_example (3 + 1)
    \<and> GetCertSubmissionWindowEnd sc_example 3 < GetCertSubmissionWindowStart sc_example (3 + 1)
    \<and> GetCertMaturityHeight sc_example 3 = GetCertSubmissionWindowEnd sc_example 3 + epochLen sc_example"
  by (rule submission_windows_ordered) simp_all

text \<open>The fee buffer is a circular buffer. After any sequence of certificates it holds
  exactly the last \<open>maxSizeOfScFeesContainers\<close> entries of everything ever pushed, in order.\<close>

lemma scFees_circular:
  assumes "foldR (\<lambda>s v. UpdateScFees v s) sc vs = Inr sc'"
    and "int (length (scFees sc)) \<le> maxSizeOfScFeesContainers sc"
  shows "scFees sc' = last_n (nat (maxSizeOfScFeesContainers sc)) (scFees sc @ map fee_of_view vs)
    \<and> maxSizeOfScFeesContainers sc' = maxSizeOfScFeesContainers sc"
  using assms(1)
proof (induction vs arbitrary: sc' rule: rev_induct)
  case Nil
  then show ?case using assms(2) by (simp add: last_n_def)
next
  case (snoc v vs)
  then obtain t where t: "foldR (\<lambda>s v. UpdateScFees v s) sc vs = Inr t" "UpdateScFees v t = Inr sc'"
    by (auto simp: foldR_snoc_Inr)
  show ?case
    using UpdateScFees_scFees [OF t(2)] snoc.IH [OF t(1)]
      last_n_snoc [of "nat (maxSizeOfScFeesContainers sc)" "scFees sc @ map fee_of_view vs"]
    by simp
qed

text \<open>The minimum fee a cross-chain output has to pay is the minimum over the buffer, and
  the buffer is sized so that its epochs cover the configured number of blocks, with no epoch to
  spare.\<close>

lemma min_fee_and_coverage:
  assumes "getMaxSizeOfScFeesContainers pr sc = Inr (sc', m)" "0 \<le> getNumBlocksForScFeeCheck pr"
  shows "maxSizeOfScFeesContainers sc' = m \<and> 1 \<le> m
    \<and> getNumBlocksForScFeeCheck pr \<le> m * epochLen sc
    \<and> (m - 1) * epochLen sc \<le> getNumBlocksForScFeeCheck pr
    \<and> (scFees s \<noteq> [] \<longrightarrow> GetMinFtScFee s = Inr (Min (forwardTxScFee ` set (scFees s)))
                       \<and> GetMinMbtrScFee s = Inr (Min (mbtrTxScFee ` set (scFees s))))"
proof -
  define n where "n = getNumBlocksForScFeeCheck pr"
  define l where "l = epochLen sc"
  define q where "q = n div l"
  define r where "r = n mod l"
  have l: "0 < l" and m: "m = (if q = 0 \<or> r \<noteq> 0 then q + 1 else q)" "maxSizeOfScFeesContainers sc' = m"
    using assms by (auto simp: getMaxSizeOfScFeesContainers_def Let_def n_def l_def q_def r_def
        sdiv_nonneg smod_nonneg split: if_splits)
  have "q * l + r = n" "0 \<le> r" "r < l" "0 \<le> q" "0 \<le> n"
    using l assms(2) by (simp_all add: q_def r_def n_def pos_imp_zdiv_nonneg_iff)
  then have "1 \<le> m \<and> n \<le> m * l \<and> (m - 1) * l \<le> n"
    using m(1) l by (auto simp: algebra_simps split: if_splits)
  moreover have "scFees s \<noteq> [] \<longrightarrow> GetMinFtScFee s = Inr (Min (forwardTxScFee ` set (scFees s)))
                       \<and> GetMinMbtrScFee s = Inr (Min (mbtrTxScFee ` set (scFees s)))"
    by (cases "scFees s") (simp_all add: GetMinFtScFee_def GetMinMbtrScFee_def min_element_Min)
  ultimately show ?thesis using m(2) by (simp add: n_def l_def)
qed

end
