(* ===== verification/MerkleTree.thy ===== *)
theory MerkleTree
  imports Prelude
begin

text \<open>
  The note commitment tree of \<open>zcash/IncrementalMerkleTree.cpp\<close>. The hash
  \<open>combine\<close> (the SHA-256 compression function) and the \<open>uncommitted\<close> leaf are
  arguments of the operations; \<open>Depth\<close> is the template parameter. The reference
  definition \<open>mroot\<close> is the root of the perfect binary tree over the leaves,
  padded with uncommitted leaves.
\<close>

type_synonym hasher = "uint256 \<Rightarrow> uint256 \<Rightarrow> nat \<Rightarrow> uint256"

section \<open>The incremental tree\<close>

record ZCIncrementalMerkleTree =
  mt_left :: "uint256 option"
  mt_right :: "uint256 option"
  mt_parents :: "uint256 option list"

definition mt_empty :: ZCIncrementalMerkleTree where
  "mt_empty = \<lparr>mt_left = None, mt_right = None, mt_parents = []\<rparr>"

definition INCREMENTAL_MERKLE_TREE_DEPTH :: nat where "INCREMENTAL_MERKLE_TREE_DEPTH = 29"

primrec empty_root_at :: "hasher \<Rightarrow> uint256 \<Rightarrow> nat \<Rightarrow> uint256" where
  "empty_root_at cmb u 0 = u"
| "empty_root_at cmb u (Suc d) = cmb (empty_root_at cmb u d) (empty_root_at cmb u d) d"

definition filler_next :: "hasher \<Rightarrow> uint256 \<Rightarrow> nat \<Rightarrow> uint256 list \<Rightarrow> uint256 \<times> uint256 list" where
  "filler_next cmb u depth q = (case q of h # q' \<Rightarrow> (h, q') | [] \<Rightarrow> (empty_root_at cmb u depth, []))"

definition mt_wfcheck :: "nat \<Rightarrow> ZCIncrementalMerkleTree \<Rightarrow> unit result" where
  "mt_wfcheck Depth t =
     (if length (mt_parents t) \<ge> Depth then Inl (Throw ''tree has too many parents'')
      else if mt_parents t \<noteq> [] \<and> last (mt_parents t) = None
        then Inl (Throw ''tree has non-canonical representation of parent'')
      else if mt_left t = None \<and> mt_right t \<noteq> None
        then Inl (Throw ''tree has non-canonical representation; right should not exist'')
      else if mt_left t = None \<and> length (mt_parents t) > 0
        then Inl (Throw ''tree has non-canonical representation; parents should not be unempty'')
      else Inr ())"

definition mt_last :: "ZCIncrementalMerkleTree \<Rightarrow> uint256 result" where
  "mt_last t = (case mt_right t of Some r \<Rightarrow> Inr r
     | None \<Rightarrow> (case mt_left t of Some l \<Rightarrow> Inr l | None \<Rightarrow> Inl (Throw ''tree has no cursor'')))"

fun size_parents :: "nat \<Rightarrow> uint256 option list \<Rightarrow> nat" where
  "size_parents i [] = 0"
| "size_parents i (p # ps) = (if p \<noteq> None then 2 ^ (i + 1) else 0) + size_parents (i + 1) ps"

definition mt_size :: "ZCIncrementalMerkleTree \<Rightarrow> nat" where
  "mt_size t = (if mt_left t \<noteq> None then 1 else 0) + (if mt_right t \<noteq> None then 1 else 0)
     + size_parents 0 (mt_parents t)"

definition mt_is_complete :: "nat \<Rightarrow> ZCIncrementalMerkleTree \<Rightarrow> bool" where
  "mt_is_complete depth t \<longleftrightarrow> mt_left t \<noteq> None \<and> mt_right t \<noteq> None \<and>
     length (mt_parents t) = depth - 1 \<and> list_all (\<lambda>p. p \<noteq> None) (mt_parents t)"

fun propagate :: "hasher \<Rightarrow> nat \<Rightarrow> nat \<Rightarrow> uint256 \<Rightarrow> uint256 option list \<Rightarrow> uint256 option list" where
  "propagate cmb Depth i combined [] = (if i < Depth then [Some combined] else [])"
| "propagate cmb Depth i combined (None # ps) = (if i < Depth then Some combined # ps else None # ps)"
| "propagate cmb Depth i combined (Some p # ps) =
     (if i < Depth then None # propagate cmb Depth (i + 1) (cmb p combined (i + 1)) ps else Some p # ps)"

definition mt_append :: "hasher \<Rightarrow> nat \<Rightarrow> uint256 \<Rightarrow> ZCIncrementalMerkleTree \<Rightarrow> ZCIncrementalMerkleTree result" where
  "mt_append cmb Depth obj t =
     (if mt_is_complete Depth t then Inl (Throw ''tree is full'')
      else case (mt_left t, mt_right t) of
        (None, _) \<Rightarrow> Inr (t\<lparr>mt_left := Some obj\<rparr>)
      | (Some l, None) \<Rightarrow> Inr (t\<lparr>mt_right := Some obj\<rparr>)
      | (Some l, Some r) \<Rightarrow> Inr (t\<lparr>mt_left := Some obj, mt_right := None,
           mt_parents := propagate cmb Depth 0 (cmb l r 0) (mt_parents t)\<rparr>))"

fun root_parents :: "hasher \<Rightarrow> uint256 \<Rightarrow> uint256 \<Rightarrow> nat \<Rightarrow> uint256 list \<Rightarrow> uint256 option list
    \<Rightarrow> uint256 \<times> nat \<times> uint256 list" where
  "root_parents cmb u r d q [] = (r, d, q)"
| "root_parents cmb u r d q (Some p # ps) = root_parents cmb u (cmb p r d) (d + 1) q ps"
| "root_parents cmb u r d q (None # ps) =
     (case filler_next cmb u d q of (h, q') \<Rightarrow> root_parents cmb u (cmb r h d) (d + 1) q' ps)"

fun root_fill :: "hasher \<Rightarrow> uint256 \<Rightarrow> nat \<Rightarrow> uint256 \<Rightarrow> nat \<Rightarrow> uint256 list \<Rightarrow> uint256" where
  "root_fill cmb u 0 r d q = r"
| "root_fill cmb u (Suc n) r d q =
     (case filler_next cmb u d q of (h, q') \<Rightarrow> root_fill cmb u n (cmb r h d) (d + 1) q')"

definition mt_root :: "hasher \<Rightarrow> uint256 \<Rightarrow> nat \<Rightarrow> uint256 list \<Rightarrow> ZCIncrementalMerkleTree \<Rightarrow> uint256" where
  "mt_root cmb u depth filler_hashes t =
     (let (l, q1) = (case mt_left t of Some l \<Rightarrow> (l, filler_hashes) | None \<Rightarrow> filler_next cmb u 0 filler_hashes);
          (r, q2) = (case mt_right t of Some r \<Rightarrow> (r, q1) | None \<Rightarrow> filler_next cmb u 0 q1);
          (rt, d, q3) = root_parents cmb u (cmb l r 0) 1 q2 (mt_parents t)
      in root_fill cmb u (depth - d) rt d q3)"

section \<open>The reference root and the representation of the leaves\<close>

fun mroot :: "hasher \<Rightarrow> uint256 \<Rightarrow> nat \<Rightarrow> uint256 list \<Rightarrow> uint256" where
  "mroot cmb u 0 xs = (case xs of [] \<Rightarrow> u | x # _ \<Rightarrow> x)"
| "mroot cmb u (Suc d) xs = cmb (mroot cmb u d (take (2 ^ d) xs)) (mroot cmb u d (drop (2 ^ d) xs)) d"

fun repP :: "hasher \<Rightarrow> uint256 \<Rightarrow> nat \<Rightarrow> uint256 option list \<Rightarrow> uint256 list \<Rightarrow> bool" where
  "repP cmb u i [] ys \<longleftrightarrow> ys = []"
| "repP cmb u i (None # ps) ys \<longleftrightarrow> repP cmb u (i + 1) ps ys"
| "repP cmb u i (Some h # ps) ys \<longleftrightarrow>
     (\<exists>zs b. ys = zs @ b \<and> length b = 2 ^ (i + 1) \<and> h = mroot cmb u (i + 1) b \<and> repP cmb u (i + 1) ps zs)"

definition tail_leaves :: "ZCIncrementalMerkleTree \<Rightarrow> uint256 list" where
  "tail_leaves t = (case mt_left t of None \<Rightarrow> [] | Some l \<Rightarrow>
     (case mt_right t of None \<Rightarrow> [l] | Some r \<Rightarrow> [l, r]))"

definition rep :: "hasher \<Rightarrow> uint256 \<Rightarrow> nat \<Rightarrow> ZCIncrementalMerkleTree \<Rightarrow> uint256 list \<Rightarrow> bool" where
  "rep cmb u Depth t xs \<longleftrightarrow> (\<exists>ys. xs = ys @ tail_leaves t \<and> repP cmb u 0 (mt_parents t) ys)
     \<and> mt_wfcheck Depth t = Inr ()"

lemma mroot_Nil: "mroot cmb u d [] = empty_root_at cmb u d"
  by (induction d) (simp_all)

lemma mroot_pad: "length xs \<le> 2 ^ d \<Longrightarrow> mroot cmb u (Suc d) xs = cmb (mroot cmb u d xs) (empty_root_at cmb u d) d"
  by (simp add: mroot_Nil)

lemma mroot_join: "length b = 2 ^ d \<Longrightarrow> mroot cmb u (Suc d) (b @ xs) = cmb (mroot cmb u d b) (mroot cmb u d xs) d"
  by simp

declare mroot.simps(2) [simp del] empty_root_at.simps(2) [simp del]

lemma repP_length: "repP cmb u i ps ys \<Longrightarrow> length ys = size_parents i ps"
  by (induction cmb u i ps ys rule: repP.induct) auto

lemma size_parents_bound: "size_parents i ps + 2 ^ (i + 1) \<le> 2 ^ (i + 1 + length ps)"
proof (induction ps arbitrary: i)
  case (Cons p ps)
  then show ?case using Cons [of "i + 1"] by simp
qed simp

lemma size_parents_full:
  "size_parents i ps + 2 ^ (i + 1) = 2 ^ (i + 1 + length ps) \<longleftrightarrow> list_all (\<lambda>p. p \<noteq> None) ps"
proof (induction ps arbitrary: i)
  case (Cons p ps)
  show ?case
  proof (cases p)
    case None
    then have "size_parents i (p # ps) + 2 ^ (i + 1) < size_parents (i + 1) ps + 2 ^ (i + 1 + 1)" by simp
    also have "\<dots> \<le> 2 ^ (i + 1 + 1 + length ps)" by (rule size_parents_bound)
    finally show ?thesis using None by simp
  next
    case (Some h)
    then show ?thesis using Cons [of "i + 1"] by (simp add: add.commute)
  qed
qed simp

lemma propagate_rep:
  "repP cmb u i ps ys \<Longrightarrow> length b = 2 ^ (i + 1) \<Longrightarrow> c = mroot cmb u (i + 1) b \<Longrightarrow> i + length ps < Depth \<Longrightarrow>
     repP cmb u i (propagate cmb Depth i c ps) (ys @ b)"
proof (induction cmb Depth i c ps arbitrary: ys b rule: propagate.induct)
  case (3 cmb Depth i c p ps)
  then obtain zs b' where zs: "ys = zs @ b'" "length b' = 2 ^ (i + 1)" "p = mroot cmb u (i + 1) b'"
    "repP cmb u (i + 1) ps zs" by auto
  have "repP cmb u (i + 1) (propagate cmb Depth (i + 1) (cmb p c (i + 1)) ps) (zs @ (b' @ b))"
    using 3 zs mroot_join [of b' "i + 1" cmb u b] by (intro "3.IH") simp_all
  then show ?case using 3 zs(1) by simp
qed auto

lemma propagate_shape:
  "i + length ps < Depth \<Longrightarrow> ps \<noteq> [] \<longrightarrow> last ps \<noteq> None \<Longrightarrow>
     propagate cmb Depth i c ps \<noteq> [] \<and> last (propagate cmb Depth i c ps) \<noteq> None
     \<and> length (propagate cmb Depth i c ps) = (if list_all (\<lambda>p. p \<noteq> None) ps then length ps + 1 else length ps)"
  by (induction cmb Depth i c ps rule: propagate.induct) (auto split: if_splits)

lemma root_parents_rep:
  "repP cmb u i ps ys \<Longrightarrow> length zs \<le> 2 ^ (i + 1) \<Longrightarrow>
     root_parents cmb u (mroot cmb u (i + 1) zs) (i + 1) [] ps
       = (mroot cmb u (i + 1 + length ps) (ys @ zs), i + 1 + length ps, [])"
proof (induction cmb u i ps ys arbitrary: zs rule: repP.induct)
  case (2 cmb u i ps ys)
  then have "length zs \<le> 2 ^ (i + 1 + 1)" by simp
  then show ?case using "2.IH" [of zs] "2.prems" mroot_pad [of zs "i + 1" cmb u]
    by (simp add: filler_next_def)
next
  case (3 cmb u i h ps ys)
  then obtain ws b where w: "ys = ws @ b" "length b = 2 ^ (i + 1)" "h = mroot cmb u (i + 1) b"
    "repP cmb u (i + 1) ps ws" by auto
  have "length (b @ zs) \<le> 2 ^ (i + 1 + 1)" using w(2) 3 by simp
  then have "root_parents cmb u (mroot cmb u (i + 1 + 1) (b @ zs)) (i + 1 + 1) [] ps
      = (mroot cmb u (i + 1 + 1 + length ps) (ws @ (b @ zs)), i + 1 + 1 + length ps, [])"
    using "3.IH" w(4) by blast
  then show ?case using w mroot_join [of b "i + 1" cmb u zs] by simp
qed simp

lemma root_fill_rep:
  "length xs \<le> 2 ^ d \<Longrightarrow> root_fill cmb u n (mroot cmb u d xs) d [] = mroot cmb u (d + n) xs"
proof (induction n arbitrary: d)
  case (Suc n)
  then have "length xs \<le> 2 ^ (d + 1)" by (simp add: le_trans)
  then show ?case using Suc.IH [of "d + 1"] mroot_pad [OF Suc.prems, of cmb u]
    by (simp add: filler_next_def)
qed simp

lemma tail_length: "length (tail_leaves t) \<le> 2"
  by (simp add: tail_leaves_def split: option.splits)

lemma mroot_tail:
  assumes "mt_wfcheck Depth t = Inr ()"
  shows "mroot cmb u 1 (tail_leaves t) =
    cmb (case mt_left t of Some l \<Rightarrow> l | None \<Rightarrow> u) (case mt_right t of Some r \<Rightarrow> r | None \<Rightarrow> u) 0"
  using assms by (auto simp: tail_leaves_def mt_wfcheck_def mroot.simps split: option.splits if_splits)

lemma mt_root_eq:
  "mt_root cmb u depth [] t =
     (case root_parents cmb u (cmb (case mt_left t of Some l \<Rightarrow> l | None \<Rightarrow> u)
         (case mt_right t of Some r \<Rightarrow> r | None \<Rightarrow> u) 0) 1 [] (mt_parents t)
      of (rt, d, q) \<Rightarrow> root_fill cmb u (depth - d) rt d q)"
  by (simp add: mt_root_def filler_next_def split: option.splits)

lemma rep_root:
  assumes "rep cmb u Depth t xs"
  shows "mt_root cmb u Depth [] t = mroot cmb u Depth xs"
proof -
  obtain ys where ys: "xs = ys @ tail_leaves t" "repP cmb u 0 (mt_parents t) ys" "mt_wfcheck Depth t = Inr ()"
    using assms by (auto simp: rep_def)
  have len: "length (mt_parents t) < Depth" using ys(3) by (auto simp: mt_wfcheck_def split: if_splits)
  have "length xs \<le> 2 ^ (1 + length (mt_parents t))"
    using size_parents_bound [of 0 "mt_parents t"] repP_length [OF ys(2)] tail_length [of t] ys(1) by simp
  then show ?thesis
    using root_parents_rep [OF ys(2), of "tail_leaves t"] tail_length [of t] mroot_tail [OF ys(3), of cmb u]
      root_fill_rep [of xs "1 + length (mt_parents t)" cmb u "Depth - (1 + length (mt_parents t))"] len ys(1)
    by (simp add: mt_root_eq)
qed

lemma rep_size: "rep cmb u Depth t xs \<Longrightarrow> mt_size t = length xs"
  by (auto simp: rep_def mt_size_def tail_leaves_def mt_wfcheck_def dest!: repP_length
      split: option.splits if_splits)

lemma rep_complete:
  assumes "rep cmb u Depth t xs"
  shows "mt_is_complete Depth t \<longleftrightarrow> length xs = 2 ^ Depth"
proof -
  let ?n = "length (mt_parents t)"
  obtain ys where ys: "xs = ys @ tail_leaves t" "repP cmb u 0 (mt_parents t) ys" "mt_wfcheck Depth t = Inr ()"
    using assms by (auto simp: rep_def)
  have len: "?n < Depth" using ys(3) by (auto simp: mt_wfcheck_def split: if_splits)
  have sz: "length xs = size_parents 0 (mt_parents t) + length (tail_leaves t)"
    using ys(1) repP_length [OF ys(2)] by simp
  have full: "length (tail_leaves t) = 2 \<longleftrightarrow> mt_left t \<noteq> None \<and> mt_right t \<noteq> None"
    by (simp add: tail_leaves_def split: option.splits)
  have le: "(2::nat) ^ (1 + ?n) \<le> 2 ^ Depth" using len by (intro power_increasing) simp_all
  show ?thesis
  proof
    assume "mt_is_complete Depth t"
    then show "length xs = 2 ^ Depth"
      using sz full size_parents_full [of 0 "mt_parents t"] len by (simp add: mt_is_complete_def)
  next
    assume L: "length xs = 2 ^ Depth"
    then have a: "length (tail_leaves t) = 2" "(2::nat) ^ (1 + ?n) = 2 ^ Depth"
      "size_parents 0 (mt_parents t) + 2 ^ (0 + 1) = 2 ^ (0 + 1 + ?n)"
      using sz le size_parents_bound [of 0 "mt_parents t"] tail_length [of t] by simp_all
    then have "1 + ?n = Depth" by (metis one_less_numeral_iff power_inject_exp semiring_norm(76))
    then show "mt_is_complete Depth t"
      using a full size_parents_full [of 0 "mt_parents t"] by (simp add: mt_is_complete_def)
  qed
qed

lemma mt_append_rep:
  assumes "rep cmb u Depth t xs" "length xs < 2 ^ Depth"
  shows "\<exists>t'. mt_append cmb Depth x t = Inr t' \<and> rep cmb u Depth t' (xs @ [x])"
proof -
  obtain ys where ys: "xs = ys @ tail_leaves t" "repP cmb u 0 (mt_parents t) ys" "mt_wfcheck Depth t = Inr ()"
    using assms by (auto simp: rep_def)
  have nc: "\<not> mt_is_complete Depth t" using rep_complete [OF assms(1)] assms(2) by simp
  show ?thesis
  proof (cases "mt_left t = None \<or> mt_right t = None")
    case True
    have wf: "length (mt_parents t) < Depth" "mt_parents t = [] \<or> last (mt_parents t) \<noteq> None"
        "mt_left t = None \<Longrightarrow> mt_right t = None \<and> mt_parents t = []"
      using ys(3) by (auto simp: mt_wfcheck_def split: if_splits)
    show ?thesis
    proof (cases "mt_left t")
      case None
      then have "rep cmb u Depth (t\<lparr>mt_left := Some x\<rparr>) (xs @ [x])"
        using ys(1,2) wf(1) wf(3) [OF None] by (simp add: rep_def tail_leaves_def mt_wfcheck_def)
      then show ?thesis using nc None by (simp add: mt_append_def)
    next
      case (Some l)
      then have "rep cmb u Depth (t\<lparr>mt_right := Some x\<rparr>) (xs @ [x])"
        using True ys(1,2) wf(1,2) by (simp add: rep_def tail_leaves_def mt_wfcheck_def)
      then show ?thesis using nc Some True by (simp add: mt_append_def)
    qed
  next
    case False
    then obtain l r where lr: "mt_left t = Some l" "mt_right t = Some r" by auto
    let ?ps = "propagate cmb Depth 0 (cmb l r 0) (mt_parents t)"
    have wf: "length (mt_parents t) < Depth" "mt_parents t \<noteq> [] \<longrightarrow> last (mt_parents t) \<noteq> None"
      using ys(3) by (auto simp: mt_wfcheck_def split: if_splits)
    have "repP cmb u 0 ?ps (ys @ [l, r])"
      using propagate_rep [OF ys(2), of "[l, r]" "cmb l r 0" Depth] wf(1) by (simp add: mroot.simps)
    moreover have "\<not> (list_all (\<lambda>p. p \<noteq> None) (mt_parents t) \<and> length (mt_parents t) = Depth - 1)"
      using nc lr by (auto simp: mt_is_complete_def)
    then have "?ps \<noteq> [] \<and> last ?ps \<noteq> None \<and> length ?ps < Depth"
      using propagate_shape [of 0 "mt_parents t" Depth cmb "cmb l r 0"] wf by auto
    ultimately show ?thesis using nc lr ys(1)
      by (simp add: mt_append_def rep_def tail_leaves_def mt_wfcheck_def)
  qed
qed

lemma mt_empty_rep: "0 < Depth \<Longrightarrow> rep cmb u Depth mt_empty []"
  by (simp add: rep_def mt_empty_def tail_leaves_def mt_wfcheck_def)

lemma appends_rep:
  assumes "rep cmb u Depth t ys" "length ys + length xs \<le> 2 ^ Depth"
  shows "\<exists>t'. foldR (\<lambda>t x. mt_append cmb Depth x t) t xs = Inr t' \<and> rep cmb u Depth t' (ys @ xs)"
  using assms
proof (induction xs arbitrary: t ys)
  case (Cons x xs)
  then obtain t1 where "mt_append cmb Depth x t = Inr t1" "rep cmb u Depth t1 (ys @ [x])"
    using mt_append_rep [of cmb u Depth t ys x] by auto
  then show ?case using Cons.IH [of t1 "ys @ [x]"] Cons.prems(2) by simp
qed simp

section \<open>Properties\<close>

text \<open>C14: appending up to \<open>2 ^ Depth\<close> commitments to an empty tree always succeeds; the root
  the incremental tree computes is the root of the perfect Merkle tree over the commitments, its
  size is their number, its representation passes the well-formedness check of deserialization, and
  one more commitment is refused exactly when the tree is full.\<close>

theorem incremental_tree_correct:
  assumes "0 < Depth" "length xs \<le> 2 ^ Depth"
  shows "\<exists>t. foldR (\<lambda>t x. mt_append cmb Depth x t) mt_empty xs = Inr t
    \<and> mt_root cmb u Depth [] t = mroot cmb u Depth xs
    \<and> mt_size t = length xs \<and> mt_wfcheck Depth t = Inr ()
    \<and> (mt_append cmb Depth x t = Inl (Throw ''tree is full'') \<longleftrightarrow> length xs = 2 ^ Depth)"
proof -
  obtain t where t: "foldR (\<lambda>t x. mt_append cmb Depth x t) mt_empty xs = Inr t" "rep cmb u Depth t xs"
    using appends_rep [OF mt_empty_rep [OF assms(1)], of xs cmb u] assms(2) by auto
  have "mt_append cmb Depth x t = Inl (Throw ''tree is full'') \<longleftrightarrow> mt_is_complete Depth t"
    by (simp add: mt_append_def split: option.splits)
  moreover have "mt_wfcheck Depth t = Inr ()" using t(2) by (simp add: rep_def)
  ultimately show ?thesis using t(1) rep_root [OF t(2)] rep_size [OF t(2)] rep_complete [OF t(2)] by auto
qed

theorem incremental_tree_correct_witness:
  "\<exists>t. foldR (\<lambda>t x. mt_append (\<lambda>a b d. a + 2 * b) 2 x t) mt_empty [1, 2, 3] = Inr t
    \<and> mt_root (\<lambda>a b d. a + 2 * b) 0 2 [] t = 11 \<and> mt_size t = 3"
  using incremental_tree_correct [of 2 "[1, 2, 3]" "\<lambda>a b d. a + 2 * b" 0 5]
  by (auto simp: numeral_2_eq_2 mroot.simps)

end
