(* ===== verification/CoinsView.thy ===== *)
theory CoinsView
  imports Coins Sidechain MerkleTree "HOL-Library.AList"
begin

text \<open>
  The stack of chain-state views of \<open>coins.h\<close>, \<open>coins.cpp\<close> and \<open>txdb.cpp\<close>. A view
  is the database (\<open>CCoinsViewDB\<close>) or a write-back cache (\<open>CCoinsViewCache\<close>) over
  another view. Every map of the source is an association list, so that the
  loops of \<open>BatchWrite\<close> are loops over its entries; the order of the entries is
  arbitrary, as is the iteration order of the source's hash maps. Lookups fill
  the caches of all the layers they go through (the \<open>mutable\<close> members), so they
  return the changed view. LevelDB is a key-value store: a batch of writes and
  erasures takes effect as a whole. \<open>hasModifier\<close>, which forbids two live
  \<open>CCoinsModifier\<close> objects, has no counterpart: \<open>ModifyCoins\<close> takes the
  modification as a function and ends the modifier's life itself. Memory
  accounting (\<open>cachedCoinsUsage\<close>) is not modelled.
\<close>

section \<open>Cache entries\<close>

record CCoinsCacheEntry =
  ce_coins :: CCoins
  ce_dirty :: bool
  ce_fresh :: bool

record CAnchorsCacheEntry =
  ae_entered :: bool
  ae_tree :: ZCIncrementalMerkleTree
  ae_dirty :: bool

record CNullifiersCacheEntry =
  ne_entered :: bool
  ne_dirty :: bool

datatype Flags = DEFAULT | DIRTY | FRESH | ERASED

record 'a CMutableSidechainCacheEntry =
  me_content :: 'a
  me_flag :: Flags

type_synonym CSidechainsCacheEntry = "CSidechain CMutableSidechainCacheEntry"
type_synonym CSidechainEventsCacheEntry = "CSidechainEvents CMutableSidechainCacheEntry"

datatype ImmutableFlags = IM_DEFAULT | IM_FRESH | IM_ERASED

type_synonym cswkey = "uint256 \<times> CFieldElement"

definition me_live :: "'a CMutableSidechainCacheEntry \<Rightarrow> 'a option" where
  "me_live e = (if me_flag e = ERASED then None else Some (me_content e))"

definition CSidechain_eq :: "CSidechain \<Rightarrow> CSidechain \<Rightarrow> bool" where
  "CSidechain_eq a b \<longleftrightarrow>
     creationBlockHeight a = creationBlockHeight b \<and> creationTxHash a = creationTxHash b \<and>
     pastEpochTopQualityCertView a = pastEpochTopQualityCertView b \<and>
     lastTopQualityCertView a = lastTopQualityCertView b \<and>
     lastTopQualityCertHash a = lastTopQualityCertHash b \<and>
     lastTopQualityCertReferencedEpoch a = lastTopQualityCertReferencedEpoch b \<and>
     lastTopQualityCertQuality a = lastTopQualityCertQuality b \<and>
     lastTopQualityCertBwtAmount a = lastTopQualityCertBwtAmount b \<and>
     balance a = balance b \<and> fixedParams a = fixedParams b \<and>
     mImmatureAmounts a = mImmatureAmounts b \<and> scFees a = scFees b"

definition CSidechainEvents_eq :: "CSidechainEvents \<Rightarrow> CSidechainEvents \<Rightarrow> bool" where
  "CSidechainEvents_eq a b \<longleftrightarrow> sidechainEventsVersion a = sidechainEventsVersion b \<and>
     ceasingScs a = ceasingScs b \<and> maturingScs a = maturingScs b"

section \<open>Views\<close>

text \<open>\<open>db_emptyRoot\<close> is the class constant \<open>ZCIncrementalMerkleTree::empty_root()\<close>.\<close>

record CCoinsViewDB =
  db_coins :: "(uint256 \<times> CCoins) list"
  db_anchors :: "(uint256 \<times> ZCIncrementalMerkleTree) list"
  db_nullifiers :: "(uint256 \<times> bool) list"
  db_sidechains :: "(uint256 \<times> CSidechain) list"
  db_ceasedscs :: "(int \<times> CSidechainEvents) list"
  db_cswnullifiers :: "(cswkey \<times> bool) list"
  db_bestBlock :: "uint256 option"
  db_bestAnchor :: "uint256 option"
  db_emptyRoot :: uint256

record CacheMaps =
  hashBlock :: uint256
  hashAnchor :: uint256
  cacheCoins :: "(uint256 \<times> CCoinsCacheEntry) list"
  cacheAnchors :: "(uint256 \<times> CAnchorsCacheEntry) list"
  cacheNullifiers :: "(uint256 \<times> CNullifiersCacheEntry) list"
  cacheSidechains :: "(uint256 \<times> CSidechainsCacheEntry) list"
  cacheSidechainEvents :: "(int \<times> CSidechainEventsCacheEntry) list"
  cacheCswNullifiers :: "(cswkey \<times> ImmutableFlags) list"

datatype CCoinsView = DBView CCoinsViewDB | CacheView CacheMaps CCoinsView

text \<open>A \<open>CCoinsViewCache\<close> object is its maps and its \<open>base\<close>.\<close>

type_synonym CCoinsViewCache = "CacheMaps \<times> CCoinsView"

definition CacheMaps_empty :: CacheMaps where
  "CacheMaps_empty = \<lparr>hashBlock = 0, hashAnchor = 0, cacheCoins = [], cacheAnchors = [],
     cacheNullifiers = [], cacheSidechains = [], cacheSidechainEvents = [], cacheCswNullifiers = []\<rparr>"

definition CCoinsViewCache_new :: "CCoinsView \<Rightarrow> CCoinsViewCache" where
  "CCoinsViewCache_new baseIn = (CacheMaps_empty, baseIn)"

section \<open>Lookups\<close>

text \<open>
  Each cache lookup asks the base only on a miss; \<open>ans\<close> is what the base would
  answer, together with the base after it answered.
\<close>

definition fetch_coins ::
  "CacheMaps \<Rightarrow> CCoinsView \<Rightarrow> CCoinsView \<times> CCoins option \<Rightarrow> uint256 \<Rightarrow> CCoinsViewCache \<times> CCoinsCacheEntry option" where
  "fetch_coins c b ans txid =
     (case map_of (cacheCoins c) txid of
        Some e \<Rightarrow> ((c, b), Some e)
      | None \<Rightarrow> (case ans of
          (b', None) \<Rightarrow> ((c, b'), None)
        | (b', Some tmp) \<Rightarrow>
            (let e = \<lparr>ce_coins = tmp, ce_dirty = False, ce_fresh = IsPruned tmp\<rparr>
             in ((c\<lparr>cacheCoins := AList.update txid e (cacheCoins c)\<rparr>, b'), Some e))))"

fun GetCoins :: "CCoinsView \<Rightarrow> uint256 \<Rightarrow> CCoinsView \<times> CCoins option" where
  "GetCoins (DBView d) txid = (DBView d, map_of (db_coins d) txid)"
| "GetCoins (CacheView c b) txid =
     (case fetch_coins c b (GetCoins b txid) txid of
        ((c', b'), r) \<Rightarrow> (CacheView c' b', map_option ce_coins r))"

definition FetchCoins :: "CCoinsViewCache \<Rightarrow> uint256 \<Rightarrow> CCoinsViewCache \<times> CCoinsCacheEntry option" where
  "FetchCoins v txid = (case v of (c, b) \<Rightarrow> fetch_coins c b (GetCoins b txid) txid)"

definition AccessCoins :: "CCoinsViewCache \<Rightarrow> uint256 \<Rightarrow> CCoinsViewCache \<times> CCoins option" where
  "AccessCoins v txid = (case FetchCoins v txid of (v', r) \<Rightarrow> (v', map_option ce_coins r))"

definition HaveCoins :: "CCoinsViewCache \<Rightarrow> uint256 \<Rightarrow> CCoinsViewCache \<times> bool" where
  "HaveCoins v txid = (case FetchCoins v txid of (v', r) \<Rightarrow>
     (v', case r of None \<Rightarrow> False | Some e \<Rightarrow> vout (ce_coins e) \<noteq> []))"

definition fetch_mutable ::
  "('k \<times> 'a CMutableSidechainCacheEntry) list \<Rightarrow> 'a option \<Rightarrow> 'k
    \<Rightarrow> ('k \<times> 'a CMutableSidechainCacheEntry) list \<times> 'a CMutableSidechainCacheEntry option" where
  "fetch_mutable m ans k =
     (case map_of m k of
        Some e \<Rightarrow> (m, Some e)
      | None \<Rightarrow> (case ans of None \<Rightarrow> (m, None)
          | Some tmp \<Rightarrow> (let e = \<lparr>me_content = tmp, me_flag = DEFAULT\<rparr> in (AList.update k e m, Some e))))"

definition fetch_sidechains ::
  "CacheMaps \<Rightarrow> CCoinsView \<Rightarrow> CCoinsView \<times> CSidechain option \<Rightarrow> uint256
    \<Rightarrow> CCoinsViewCache \<times> CSidechainsCacheEntry option" where
  "fetch_sidechains c b ans scId =
     (case fetch_mutable (cacheSidechains c) (snd ans) scId of
        (m, r) \<Rightarrow> ((c\<lparr>cacheSidechains := m\<rparr>,
                   if map_of (cacheSidechains c) scId = None then fst ans else b), r))"

fun GetSidechain :: "CCoinsView \<Rightarrow> uint256 \<Rightarrow> CCoinsView \<times> CSidechain option" where
  "GetSidechain (DBView d) scId = (DBView d, map_of (db_sidechains d) scId)"
| "GetSidechain (CacheView c b) scId =
     (case fetch_sidechains c b (GetSidechain b scId) scId of
        ((c', b'), r) \<Rightarrow> (CacheView c' b', Option.bind r me_live))"

definition FetchSidechains :: "CCoinsViewCache \<Rightarrow> uint256 \<Rightarrow> CCoinsViewCache \<times> CSidechainsCacheEntry option" where
  "FetchSidechains v scId = (case v of (c, b) \<Rightarrow> fetch_sidechains c b (GetSidechain b scId) scId)"

definition HaveSidechain :: "CCoinsViewCache \<Rightarrow> uint256 \<Rightarrow> CCoinsViewCache \<times> bool" where
  "HaveSidechain v scId = (case FetchSidechains v scId of (v', r) \<Rightarrow>
     (v', case r of None \<Rightarrow> False | Some e \<Rightarrow> me_flag e \<noteq> ERASED))"

definition AccessSidechain :: "CCoinsViewCache \<Rightarrow> uint256 \<Rightarrow> CCoinsViewCache \<times> CSidechain option" where
  "AccessSidechain v scId = (case FetchSidechains v scId of (v', r) \<Rightarrow> (v', map_option me_content r))"

definition CacheGetSidechain :: "CCoinsViewCache \<Rightarrow> uint256 \<Rightarrow> CCoinsViewCache \<times> CSidechain option" where
  "CacheGetSidechain v scId = (case FetchSidechains v scId of (v', r) \<Rightarrow> (v', Option.bind r me_live))"

definition fetch_events ::
  "CacheMaps \<Rightarrow> CCoinsView \<Rightarrow> CCoinsView \<times> CSidechainEvents option \<Rightarrow> int
    \<Rightarrow> CCoinsViewCache \<times> CSidechainEventsCacheEntry option" where
  "fetch_events c b ans height =
     (case fetch_mutable (cacheSidechainEvents c) (snd ans) height of
        (m, r) \<Rightarrow> ((c\<lparr>cacheSidechainEvents := m\<rparr>,
                   if map_of (cacheSidechainEvents c) height = None then fst ans else b), r))"

fun GetSidechainEvents :: "CCoinsView \<Rightarrow> int \<Rightarrow> CCoinsView \<times> CSidechainEvents option" where
  "GetSidechainEvents (DBView d) height = (DBView d, map_of (db_ceasedscs d) height)"
| "GetSidechainEvents (CacheView c b) height =
     (case fetch_events c b (GetSidechainEvents b height) height of
        ((c', b'), r) \<Rightarrow> (CacheView c' b', Option.bind r me_live))"

definition FetchSidechainEvents :: "CCoinsViewCache \<Rightarrow> int \<Rightarrow> CCoinsViewCache \<times> CSidechainEventsCacheEntry option" where
  "FetchSidechainEvents v height = (case v of (c, b) \<Rightarrow> fetch_events c b (GetSidechainEvents b height) height)"

definition HaveSidechainEvents :: "CCoinsViewCache \<Rightarrow> int \<Rightarrow> CCoinsViewCache \<times> bool" where
  "HaveSidechainEvents v height = (case FetchSidechainEvents v height of (v', r) \<Rightarrow>
     (v', case r of None \<Rightarrow> False | Some e \<Rightarrow> me_flag e \<noteq> ERASED))"

definition CacheGetSidechainEvents :: "CCoinsViewCache \<Rightarrow> int \<Rightarrow> CCoinsViewCache \<times> CSidechainEvents option" where
  "CacheGetSidechainEvents v height = (case FetchSidechainEvents v height of (v', r) \<Rightarrow> (v', Option.bind r me_live))"

fun GetAnchorAt :: "CCoinsView \<Rightarrow> uint256 \<Rightarrow> CCoinsView \<times> ZCIncrementalMerkleTree option" where
  "GetAnchorAt (DBView d) rt =
     (DBView d, if rt = db_emptyRoot d then Some mt_empty else map_of (db_anchors d) rt)"
| "GetAnchorAt (CacheView c b) rt =
     (case map_of (cacheAnchors c) rt of
        Some e \<Rightarrow> (CacheView c b, if ae_entered e then Some (ae_tree e) else None)
      | None \<Rightarrow> (case GetAnchorAt b rt of
          (b', None) \<Rightarrow> (CacheView c b', None)
        | (b', Some tree) \<Rightarrow>
            (CacheView (c\<lparr>cacheAnchors := AList.update rt
               \<lparr>ae_entered = True, ae_tree = tree, ae_dirty = False\<rparr> (cacheAnchors c)\<rparr>) b', Some tree)))"

fun GetNullifier :: "CCoinsView \<Rightarrow> uint256 \<Rightarrow> CCoinsView \<times> bool" where
  "GetNullifier (DBView d) nf = (DBView d, map_of (db_nullifiers d) nf \<noteq> None)"
| "GetNullifier (CacheView c b) nf =
     (case map_of (cacheNullifiers c) nf of
        Some e \<Rightarrow> (CacheView c b, ne_entered e)
      | None \<Rightarrow> (case GetNullifier b nf of (b', tmp) \<Rightarrow>
          (CacheView (c\<lparr>cacheNullifiers := AList.update nf
             \<lparr>ne_entered = tmp, ne_dirty = False\<rparr> (cacheNullifiers c)\<rparr>) b', tmp)))"

fun HaveCswNullifier :: "CCoinsView \<Rightarrow> cswkey \<Rightarrow> CCoinsView \<times> bool" where
  "HaveCswNullifier (DBView d) key = (DBView d, map_of (db_cswnullifiers d) key \<noteq> None)"
| "HaveCswNullifier (CacheView c b) key =
     (case map_of (cacheCswNullifiers c) key of
        Some f \<Rightarrow> (CacheView c b, f \<noteq> IM_ERASED)
      | None \<Rightarrow> (case HaveCswNullifier b key of
          (b', False) \<Rightarrow> (CacheView c b', False)
        | (b', True) \<Rightarrow>
            (CacheView (c\<lparr>cacheCswNullifiers := AList.update key IM_DEFAULT (cacheCswNullifiers c)\<rparr>) b', True)))"

fun GetBestBlock :: "CCoinsView \<Rightarrow> CCoinsView \<times> uint256" where
  "GetBestBlock (DBView d) = (DBView d, case db_bestBlock d of None \<Rightarrow> 0 | Some h \<Rightarrow> h)"
| "GetBestBlock (CacheView c b) =
     (if hashBlock c = 0 then (case GetBestBlock b of (b', h) \<Rightarrow> (CacheView (c\<lparr>hashBlock := h\<rparr>) b', h))
      else (CacheView c b, hashBlock c))"

fun GetBestAnchor :: "CCoinsView \<Rightarrow> CCoinsView \<times> uint256" where
  "GetBestAnchor (DBView d) = (DBView d, case db_bestAnchor d of None \<Rightarrow> db_emptyRoot d | Some h \<Rightarrow> h)"
| "GetBestAnchor (CacheView c b) =
     (if hashAnchor c = 0 then (case GetBestAnchor b of (b', h) \<Rightarrow> (CacheView (c\<lparr>hashAnchor := h\<rparr>) b', h))
      else (CacheView c b, hashAnchor c))"

fun GetScIds :: "CCoinsView \<Rightarrow> uint256 set" where
  "GetScIds (DBView d) = fst ` set (db_sidechains d)"
| "GetScIds (CacheView c b) =
     fold (\<lambda>(scId, e) s. if me_flag e = ERASED then s - {scId} else insert scId s) (cacheSidechains c) (GetScIds b)"

definition CheckQuality :: "CCoinsViewCache \<Rightarrow> CScCertificate \<Rightarrow> CCoinsViewCache \<times> bool" where
  "CheckQuality v cert = (case FetchSidechains v (cert_scId cert) of (v', r) \<Rightarrow>
     (v', case Option.bind r me_live of
        Some info \<Rightarrow> \<not> (lastTopQualityCertHash info \<noteq> cert_hash cert \<and>
                       lastTopQualityCertReferencedEpoch info = epochNumber cert \<and>
                       lastTopQualityCertQuality info \<ge> quality cert)
      | None \<Rightarrow> True))"

section \<open>Modifications\<close>

definition ModifyCoins ::
  "CCoinsViewCache \<Rightarrow> uint256 \<Rightarrow> (CCoins \<Rightarrow> (CCoins \<times> 'x) result) \<Rightarrow> (CCoinsViewCache \<times> 'x) result" where
  "ModifyCoins v txid f = (case v of (c, b) \<Rightarrow>
     let (e, b') =
       (case map_of (cacheCoins c) txid of
          Some e \<Rightarrow> (e, b)
        | None \<Rightarrow> (case GetCoins b txid of
            (b', None) \<Rightarrow> (\<lparr>ce_coins = Clear CCoins_new, ce_dirty = False, ce_fresh = True\<rparr>, b')
          | (b', Some coins) \<Rightarrow> (\<lparr>ce_coins = coins, ce_dirty = False, ce_fresh = IsPruned coins\<rparr>, b')))
     in bindR (f (ce_coins e)) (\<lambda>(coins, x).
          let e' = \<lparr>ce_coins = Cleanup coins, ce_dirty = True, ce_fresh = ce_fresh e\<rparr>
          in Inr ((if ce_fresh e' \<and> IsPruned (ce_coins e')
                   then c\<lparr>cacheCoins := AList.delete txid (cacheCoins c)\<rparr>
                   else c\<lparr>cacheCoins := AList.update txid e' (cacheCoins c)\<rparr>, b'), x)))"

definition modify_mutable ::
  "('k \<times> 'a CMutableSidechainCacheEntry) list \<Rightarrow> 'a option \<Rightarrow> 'a \<Rightarrow> 'k
    \<Rightarrow> ('k \<times> 'a CMutableSidechainCacheEntry) list \<times> 'a CMutableSidechainCacheEntry" where
  "modify_mutable m ans dflt k =
     (case map_of m k of
        Some e \<Rightarrow> (m, e)
      | None \<Rightarrow> (let e = (case ans of Some tmp \<Rightarrow> \<lparr>me_content = tmp, me_flag = DEFAULT\<rparr>
                          | None \<Rightarrow> \<lparr>me_content = dflt, me_flag = FRESH\<rparr>)
                 in (AList.update k e m, e)))"

definition ModifySidechain :: "CCoinsViewCache \<Rightarrow> uint256 \<Rightarrow> CCoinsViewCache \<times> CSidechainsCacheEntry" where
  "ModifySidechain v scId = (case v of (c, b) \<Rightarrow>
     let ans = GetSidechain b scId;
         (m, e) = modify_mutable (cacheSidechains c) (snd ans) CSidechain_null scId
     in ((c\<lparr>cacheSidechains := m\<rparr>,
          if map_of (cacheSidechains c) scId = None then fst ans else b), e))"

definition ModifySidechainEvents :: "CCoinsViewCache \<Rightarrow> int \<Rightarrow> CCoinsViewCache \<times> CSidechainEventsCacheEntry" where
  "ModifySidechainEvents v height = (case v of (c, b) \<Rightarrow>
     let ans = GetSidechainEvents b height;
         (m, e) = modify_mutable (cacheSidechainEvents c) (snd ans) events_null height
     in ((c\<lparr>cacheSidechainEvents := m\<rparr>,
          if map_of (cacheSidechainEvents c) height = None then fst ans else b), e))"

text \<open>Assignment through the iterator that \<open>ModifySidechain\<close> or \<open>ModifySidechainEvents\<close> returned.\<close>

definition put_sidechain :: "CCoinsViewCache \<Rightarrow> uint256 \<Rightarrow> CSidechainsCacheEntry \<Rightarrow> CCoinsViewCache" where
  "put_sidechain v scId e = (case v of (c, b) \<Rightarrow> (c\<lparr>cacheSidechains := AList.update scId e (cacheSidechains c)\<rparr>, b))"

definition put_events :: "CCoinsViewCache \<Rightarrow> int \<Rightarrow> CSidechainEventsCacheEntry \<Rightarrow> CCoinsViewCache" where
  "put_events v h e = (case v of (c, b) \<Rightarrow> (c\<lparr>cacheSidechainEvents := AList.update h e (cacheSidechainEvents c)\<rparr>, b))"

text \<open>\<open>rt\<close> is \<open>tree.root()\<close>.\<close>

definition PushAnchor :: "CCoinsViewCache \<Rightarrow> uint256 \<Rightarrow> ZCIncrementalMerkleTree \<Rightarrow> CCoinsViewCache" where
  "PushAnchor v newrt tree = (case v of (c, b) \<Rightarrow>
     (case GetBestAnchor (CacheView c b) of
        (CacheView c' b', currentRoot) \<Rightarrow>
          if currentRoot \<noteq> newrt then
            (c'\<lparr>cacheAnchors := AList.update newrt \<lparr>ae_entered = True, ae_tree = tree, ae_dirty = True\<rparr> (cacheAnchors c'),
                hashAnchor := newrt\<rparr>, b')
          else (c', b')
      | (DBView d, _) \<Rightarrow> v))"

definition PopAnchor :: "CCoinsViewCache \<Rightarrow> uint256 \<Rightarrow> CCoinsViewCache result" where
  "PopAnchor v newrt = (case v of (c, b) \<Rightarrow>
     (case GetBestAnchor (CacheView c b) of
        (v1, currentRoot) \<Rightarrow>
          (case GetAnchorAt v1 currentRoot of
             (CacheView c2 b2, r) \<Rightarrow>
               if currentRoot \<noteq> newrt then
                 (case r of None \<Rightarrow> Inl Assert
                  | Some tree \<Rightarrow>
                      Inr (c2\<lparr>cacheAnchors := AList.update currentRoot
                             \<lparr>ae_entered = False, ae_tree = tree, ae_dirty = True\<rparr> (cacheAnchors c2),
                             hashAnchor := newrt\<rparr>, b2))
               else (case v1 of CacheView c1 b1 \<Rightarrow> Inr (c1, b1) | DBView d \<Rightarrow> Inr v)
           | (DBView d, _) \<Rightarrow> Inr v)))"

definition SetNullifier :: "CCoinsViewCache \<Rightarrow> uint256 \<Rightarrow> bool \<Rightarrow> CCoinsViewCache" where
  "SetNullifier v nf spent = (case v of (c, b) \<Rightarrow>
     (c\<lparr>cacheNullifiers := AList.update nf \<lparr>ne_entered = spent, ne_dirty = True\<rparr> (cacheNullifiers c)\<rparr>, b))"

definition SetBestBlock :: "CCoinsViewCache \<Rightarrow> uint256 \<Rightarrow> CCoinsViewCache" where
  "SetBestBlock v h = (case v of (c, b) \<Rightarrow> (c\<lparr>hashBlock := h\<rparr>, b))"

definition AddCswNullifier :: "CCoinsViewCache \<Rightarrow> cswkey \<Rightarrow> CCoinsViewCache \<times> bool" where
  "AddCswNullifier v key = (case v of (c, b) \<Rightarrow>
     (case HaveCswNullifier (CacheView c b) key of
        (CacheView c' b', True) \<Rightarrow> ((c', b'), False)
      | (CacheView c' b', False) \<Rightarrow>
          (case map_of (cacheCswNullifiers c') key of
             Some f \<Rightarrow> ((c', b'), True)
           | None \<Rightarrow> ((c'\<lparr>cacheCswNullifiers := AList.update key IM_FRESH (cacheCswNullifiers c')\<rparr>, b'), True))
      | (DBView d, _) \<Rightarrow> (v, False)))"

definition RemoveCswNullifier :: "CCoinsViewCache \<Rightarrow> cswkey \<Rightarrow> CCoinsViewCache \<times> bool" where
  "RemoveCswNullifier v key = (case v of (c, b) \<Rightarrow>
     (case HaveCswNullifier (CacheView c b) key of
        (CacheView c' b', True) \<Rightarrow>
          ((c'\<lparr>cacheCswNullifiers := AList.update key IM_ERASED (cacheCswNullifiers c')\<rparr>, b'), True)
      | (CacheView c' b', False) \<Rightarrow> ((c', b'), False)
      | (DBView d, _) \<Rightarrow> (v, False)))"

end
