(* ===== verification/ViewObs.thy ===== *)
theory ViewObs
  imports CoinsView
begin

text \<open>
  What a stack of views stands for. The observers say, for each kind of record,
  what a lookup through the stack returns; \<open>wf_view\<close> is the invariant that ties the
  flags of each cache entry to the view below it. Lookups return what the
  observers say, change nothing that can be observed and keep the invariant:
  the interface \<open>pure_lookup\<close>, with one interpretation per lookup of the code.
\<close>

declare AList.update_conv' [simp] AList.delete_conv' [simp]

lemma map_snd_if: "snd (if P then a else b) = (if P then snd a else snd b)"
  by simp

section \<open>Observers\<close>

fun coinsOf :: "CCoinsView \<Rightarrow> uint256 \<Rightarrow> CCoins option" where
  "coinsOf (DBView d) k = map_of (db_coins d) k"
| "coinsOf (CacheView c b) k = (case map_of (cacheCoins c) k of Some e \<Rightarrow> Some (ce_coins e) | None \<Rightarrow> coinsOf b k)"

fun scOf :: "CCoinsView \<Rightarrow> uint256 \<Rightarrow> CSidechain option" where
  "scOf (DBView d) k = map_of (db_sidechains d) k"
| "scOf (CacheView c b) k = (case map_of (cacheSidechains c) k of Some e \<Rightarrow> me_live e | None \<Rightarrow> scOf b k)"

fun evOf :: "CCoinsView \<Rightarrow> int \<Rightarrow> CSidechainEvents option" where
  "evOf (DBView d) k = map_of (db_ceasedscs d) k"
| "evOf (CacheView c b) k = (case map_of (cacheSidechainEvents c) k of Some e \<Rightarrow> me_live e | None \<Rightarrow> evOf b k)"

fun anchorOf :: "CCoinsView \<Rightarrow> uint256 \<Rightarrow> ZCIncrementalMerkleTree option" where
  "anchorOf (DBView d) k = (if k = db_emptyRoot d then Some mt_empty else map_of (db_anchors d) k)"
| "anchorOf (CacheView c b) k =
     (case map_of (cacheAnchors c) k of Some e \<Rightarrow> (if ae_entered e then Some (ae_tree e) else None) | None \<Rightarrow> anchorOf b k)"

fun nfOf :: "CCoinsView \<Rightarrow> uint256 \<Rightarrow> bool" where
  "nfOf (DBView d) k \<longleftrightarrow> map_of (db_nullifiers d) k \<noteq> None"
| "nfOf (CacheView c b) k \<longleftrightarrow> (case map_of (cacheNullifiers c) k of Some e \<Rightarrow> ne_entered e | None \<Rightarrow> nfOf b k)"

fun cswOf :: "CCoinsView \<Rightarrow> cswkey \<Rightarrow> bool" where
  "cswOf (DBView d) k \<longleftrightarrow> map_of (db_cswnullifiers d) k \<noteq> None"
| "cswOf (CacheView c b) k \<longleftrightarrow> (case map_of (cacheCswNullifiers c) k of Some f \<Rightarrow> f \<noteq> IM_ERASED | None \<Rightarrow> cswOf b k)"

fun bestOf :: "CCoinsView \<Rightarrow> uint256" where
  "bestOf (DBView d) = (case db_bestBlock d of None \<Rightarrow> 0 | Some h \<Rightarrow> h)"
| "bestOf (CacheView c b) = (if hashBlock c = 0 then bestOf b else hashBlock c)"

fun bestAnchorOf :: "CCoinsView \<Rightarrow> uint256" where
  "bestAnchorOf (DBView d) = (case db_bestAnchor d of None \<Rightarrow> db_emptyRoot d | Some h \<Rightarrow> h)"
| "bestAnchorOf (CacheView c b) = (if hashAnchor c = 0 then bestAnchorOf b else hashAnchor c)"

fun emptyRootOf :: "CCoinsView \<Rightarrow> uint256" where
  "emptyRootOf (DBView d) = db_emptyRoot d"
| "emptyRootOf (CacheView c b) = emptyRootOf b"

definition same_obs :: "CCoinsView \<Rightarrow> CCoinsView \<Rightarrow> bool" where
  "same_obs v w \<longleftrightarrow> coinsOf v = coinsOf w \<and> scOf v = scOf w \<and> evOf v = evOf w \<and> anchorOf v = anchorOf w
     \<and> nfOf v = nfOf w \<and> cswOf v = cswOf w \<and> bestOf v = bestOf w \<and> bestAnchorOf v = bestAnchorOf w
     \<and> emptyRootOf v = emptyRootOf w"

definition vw :: "CCoinsViewCache \<Rightarrow> CCoinsView" where "vw v = CacheView (fst v) (snd v)"

lemma vw_pair [simp]: "vw (c, b) = CacheView c b" by (simp add: vw_def)

lemma same_obs_refl [simp]: "same_obs v v" by (simp add: same_obs_def)

lemma same_obs_trans: "same_obs u v \<Longrightarrow> same_obs v w \<Longrightarrow> same_obs u w" by (simp add: same_obs_def)

lemma same_obs_sym: "same_obs v w \<Longrightarrow> same_obs w v" by (simp add: same_obs_def)

lemma same_obsD:
  assumes "same_obs v w"
  shows "coinsOf v = coinsOf w" "scOf v = scOf w" "evOf v = evOf w" "anchorOf v = anchorOf w"
    "nfOf v = nfOf w" "cswOf v = cswOf w" "bestOf v = bestOf w" "bestAnchorOf v = bestAnchorOf w"
    "emptyRootOf v = emptyRootOf w"
  using assms by (simp_all add: same_obs_def)

text \<open>The observers of a cache depend on its base only through the observers of the base.\<close>

lemma same_obs_base: "same_obs b b' \<Longrightarrow> same_obs (CacheView c b) (CacheView c b')"
  by (auto simp: same_obs_def fun_eq_iff split: option.splits)

section \<open>The invariant of a stack\<close>

definition isDB :: "CCoinsView \<Rightarrow> bool" where
  "isDB b \<longleftrightarrow> (case b of DBView _ \<Rightarrow> True | CacheView _ _ \<Rightarrow> False)"

text \<open>The layer directly below holds a record of its own for a key.\<close>

fun holdsC :: "CCoinsView \<Rightarrow> uint256 \<Rightarrow> bool" where
  "holdsC (DBView d) k \<longleftrightarrow> True"
| "holdsC (CacheView c b) k \<longleftrightarrow> map_of (cacheCoins c) k \<noteq> None"

fun holdsS :: "CCoinsView \<Rightarrow> uint256 \<Rightarrow> bool" where
  "holdsS (DBView d) k \<longleftrightarrow> True"
| "holdsS (CacheView c b) k \<longleftrightarrow> map_of (cacheSidechains c) k \<noteq> None"

fun holdsE :: "CCoinsView \<Rightarrow> int \<Rightarrow> bool" where
  "holdsE (DBView d) k \<longleftrightarrow> True"
| "holdsE (CacheView c b) k \<longleftrightarrow> map_of (cacheSidechainEvents c) k \<noteq> None"

fun holdsX :: "CCoinsView \<Rightarrow> cswkey \<Rightarrow> bool" where
  "holdsX (DBView d) k \<longleftrightarrow> True"
| "holdsX (CacheView c b) k \<longleftrightarrow> map_of (cacheCswNullifiers c) k \<noteq> None"

text \<open>A fully spent record and a missing one are the same to every reader of outputs.\<close>

definition normC :: "CCoins option \<Rightarrow> CCoins option" where
  "normC r = (case r of None \<Rightarrow> None | Some c \<Rightarrow> if IsPruned c then None else Some c)"

definition coins_ok :: "CCoins option \<Rightarrow> bool \<Rightarrow> CCoinsCacheEntry \<Rightarrow> bool" where
  "coins_ok below held e \<longleftrightarrow>
     (ce_fresh e \<longrightarrow> normC below = None) \<and> (\<not> ce_dirty e \<longrightarrow> normC (Some (ce_coins e)) = normC below)
     \<and> (\<not> ce_fresh e \<longrightarrow> held) \<and> clean_coins (ce_coins e)"

definition mut_ok :: "bool \<Rightarrow> 'a option \<Rightarrow> bool \<Rightarrow> 'a CMutableSidechainCacheEntry \<Rightarrow> bool" where
  "mut_ok db below held e \<longleftrightarrow> (case me_flag e of
       FRESH \<Rightarrow> db \<or> below = None
     | DEFAULT \<Rightarrow> below = Some (me_content e) \<and> held
     | DIRTY \<Rightarrow> held \<or> below = None
     | ERASED \<Rightarrow> held \<or> below = None)"

definition csw_ok :: "bool \<Rightarrow> bool \<Rightarrow> bool \<Rightarrow> ImmutableFlags \<Rightarrow> bool" where
  "csw_ok db below held f \<longleftrightarrow> (case f of
       IM_FRESH \<Rightarrow> db \<or> \<not> below
     | IM_DEFAULT \<Rightarrow> below \<and> held
     | IM_ERASED \<Rightarrow> held \<or> \<not> below)"

text \<open>
  \<open>T\<close> is the tree that has a given root: the invariant asks that no two different
  trees are stored under one root, which is what makes a root identify a tree.
\<close>

definition anchor_ok ::
  "(uint256 \<Rightarrow> ZCIncrementalMerkleTree) \<Rightarrow> CCoinsView \<Rightarrow> uint256 \<Rightarrow> CAnchorsCacheEntry \<Rightarrow> bool" where
  "anchor_ok T b rt e \<longleftrightarrow> ae_tree e = T rt \<and> (rt = emptyRootOf b \<longrightarrow> ae_entered e)
     \<and> (\<not> ae_dirty e \<longrightarrow> ae_entered e \<and> anchorOf b rt = Some (ae_tree e))"

definition distinct_keys :: "('k \<times> 'v) list \<Rightarrow> bool" where
  "distinct_keys m \<longleftrightarrow> distinct (map fst m)"

definition wf_cache :: "(uint256 \<Rightarrow> ZCIncrementalMerkleTree) \<Rightarrow> CacheMaps \<Rightarrow> CCoinsView \<Rightarrow> bool" where
  "wf_cache T c b \<longleftrightarrow>
     distinct_keys (cacheCoins c) \<and> distinct_keys (cacheAnchors c) \<and> distinct_keys (cacheNullifiers c)
     \<and> distinct_keys (cacheSidechains c) \<and> distinct_keys (cacheSidechainEvents c)
     \<and> distinct_keys (cacheCswNullifiers c)
     \<and> (\<forall>k e. map_of (cacheCoins c) k = Some e \<longrightarrow> coins_ok (coinsOf b k) (holdsC b k) e)
     \<and> (\<forall>k e. map_of (cacheAnchors c) k = Some e \<longrightarrow> anchor_ok T b k e)
     \<and> (\<forall>k e. map_of (cacheNullifiers c) k = Some e \<longrightarrow> ne_dirty e \<or> ne_entered e = nfOf b k)
     \<and> (\<forall>k e. map_of (cacheSidechains c) k = Some e \<longrightarrow> mut_ok (isDB b) (scOf b k) (holdsS b k) e)
     \<and> (\<forall>k e. map_of (cacheSidechainEvents c) k = Some e \<longrightarrow> mut_ok (isDB b) (evOf b k) (holdsE b k) e)
     \<and> (\<forall>k f. map_of (cacheCswNullifiers c) k = Some f \<longrightarrow> csw_ok (isDB b) (cswOf b k) (holdsX b k) f)"

lemma wf_cacheD:
  assumes "wf_cache T c b"
  shows "distinct_keys (cacheCoins c)" "distinct_keys (cacheAnchors c)" "distinct_keys (cacheNullifiers c)"
    "distinct_keys (cacheSidechains c)" "distinct_keys (cacheSidechainEvents c)" "distinct_keys (cacheCswNullifiers c)"
    "map_of (cacheCoins c) k = Some ce \<Longrightarrow> coins_ok (coinsOf b k) (holdsC b k) ce"
    "map_of (cacheAnchors c) k = Some ae \<Longrightarrow> anchor_ok T b k ae"
    "map_of (cacheNullifiers c) k = Some ne \<Longrightarrow> ne_dirty ne \<or> ne_entered ne = nfOf b k"
    "map_of (cacheSidechains c) k = Some se \<Longrightarrow> mut_ok (isDB b) (scOf b k) (holdsS b k) se"
    "map_of (cacheSidechainEvents c) h = Some ee \<Longrightarrow> mut_ok (isDB b) (evOf b h) (holdsE b h) ee"
    "map_of (cacheCswNullifiers c) x = Some f \<Longrightarrow> csw_ok (isDB b) (cswOf b x) (holdsX b x) f"
  using assms by (simp_all add: wf_cache_def del: split_paired_All)

fun wf_view :: "(uint256 \<Rightarrow> ZCIncrementalMerkleTree) \<Rightarrow> CCoinsView \<Rightarrow> bool" where
  "wf_view T (DBView d) \<longleftrightarrow> T (db_emptyRoot d) = mt_empty \<and> (\<forall>k t. map_of (db_anchors d) k = Some t \<longrightarrow> t = T k)
     \<and> (\<forall>k c. map_of (db_coins d) k = Some c \<longrightarrow> clean_coins c)"
| "wf_view T (CacheView c b) \<longleftrightarrow> wf_view T b \<and> wf_cache T c b"

lemma anchorOf_T: "wf_view T v \<Longrightarrow> anchorOf v rt = Some t \<Longrightarrow> t = T rt"
proof (induction v)
  case (CacheView c b)
  then show ?case
    using wf_cacheD(8) [of T c b rt] by (cases "map_of (cacheAnchors c) rt") (auto simp: anchor_ok_def split: if_splits)
qed (auto split: if_splits)

lemma coinsOf_clean: "wf_view T v \<Longrightarrow> coinsOf v k = Some c \<Longrightarrow> clean_coins c"
proof (induction v)
  case (CacheView m b)
  then show ?case using wf_cacheD(7) [of T m b k] by (cases "map_of (cacheCoins m) k") (auto simp: coins_ok_def)
qed simp

lemma distinct_keys_update [simp]: "distinct_keys m \<Longrightarrow> distinct_keys (AList.update k v m)"
  by (simp add: distinct_keys_def AList.distinct_update)

lemma distinct_keys_delete [simp]: "distinct_keys m \<Longrightarrow> distinct_keys (AList.delete k m)"
  by (simp add: distinct_keys_def AList.distinct_delete)

lemma distinct_keys_Nil [simp]: "distinct_keys []"
  by (simp add: distinct_keys_def)

text \<open>Records a layer holds are kept by its lookups.\<close>

definition holds_mono :: "CCoinsView \<Rightarrow> CCoinsView \<Rightarrow> bool" where
  "holds_mono b b' \<longleftrightarrow> isDB b = isDB b' \<and> (\<forall>k. holdsC b k \<longrightarrow> holdsC b' k) \<and> (\<forall>k. holdsS b k \<longrightarrow> holdsS b' k)
     \<and> (\<forall>k. holdsE b k \<longrightarrow> holdsE b' k) \<and> (\<forall>k. holdsX b k \<longrightarrow> holdsX b' k)"

lemma holds_mono_refl [simp]: "holds_mono b b" by (simp add: holds_mono_def)

lemma coins_ok_mono: "coins_ok x h e \<Longrightarrow> (h \<Longrightarrow> h') \<Longrightarrow> coins_ok x h' e"
  by (auto simp: coins_ok_def)

lemma mut_ok_mono: "mut_ok d x h e \<Longrightarrow> (h \<Longrightarrow> h') \<Longrightarrow> mut_ok d x h' e"
  by (auto simp: mut_ok_def split: Flags.splits)

lemma csw_ok_mono: "csw_ok d x h f \<Longrightarrow> (h \<Longrightarrow> h') \<Longrightarrow> csw_ok d x h' f"
  by (auto simp: csw_ok_def split: ImmutableFlags.splits)

lemma wf_cache_base:
  assumes wf: "wf_cache T c b" and obs: "same_obs b' b" and mono: "holds_mono b b'"
  shows "wf_cache T c b'"
proof -
  have "anchor_ok T b k e \<Longrightarrow> anchor_ok T b' k e" for k e
    using obs by (simp add: anchor_ok_def same_obsD)
  moreover have "isDB b' = isDB b" using mono by (simp add: holds_mono_def)
  ultimately show ?thesis using wf mono unfolding wf_cache_def holds_mono_def same_obsD [OF obs]
    by (simp only:) (blast intro: coins_ok_mono mut_ok_mono csw_ok_mono)
qed

section \<open>Lookups are pure\<close>

text \<open>What a lookup promises: the observed answer, and a view that looks the same.\<close>

definition refines_view :: "CCoinsView \<Rightarrow> CCoinsView \<Rightarrow> bool" where
  "refines_view v v' \<longleftrightarrow> same_obs v' v \<and> holds_mono v v' \<and> (\<forall>T. wf_view T v \<longrightarrow> wf_view T v')"

lemma refines_view_refl [simp]: "refines_view v v" by (simp add: refines_view_def)

lemma refines_view_base:
  "refines_view b b' \<Longrightarrow> refines_view (CacheView c b) (CacheView c b')"
  by (auto simp: refines_view_def same_obs_base holds_mono_def isDB_def intro: wf_cache_base [of _ c b])

lemma refines_view_trans: "refines_view u v \<Longrightarrow> refines_view v w \<Longrightarrow> refines_view u w"
  by (auto simp: refines_view_def holds_mono_def intro: same_obs_trans)

text \<open>Replacing the maps of a cache by maps that look the same and satisfy the invariant.\<close>

lemma refines_cacheI:
  assumes "refines_view b b'" "same_obs (CacheView c' b') (CacheView c b')"
    "holds_mono (CacheView c b') (CacheView c' b')" "\<And>T. wf_view T b' \<Longrightarrow> wf_cache T c b' \<Longrightarrow> wf_cache T c' b'"
  shows "refines_view (CacheView c b) (CacheView c' b')"
proof -
  have "refines_view (CacheView c b') (CacheView c' b')"
    using assms(2-4) by (simp add: refines_view_def)
  then show ?thesis using refines_view_base [OF assms(1)] refines_view_trans by blast
qed

locale pure_lookup =
  fixes get :: "CCoinsView \<Rightarrow> 'k \<Rightarrow> CCoinsView \<times> 'r" and obs :: "CCoinsView \<Rightarrow> 'k \<Rightarrow> 'r"
  assumes get_obs: "snd (get v k) = obs v k"
    and get_refines: "refines_view v (fst (get v k))"
    and obs_same: "same_obs v w \<Longrightarrow> obs v = obs w"
begin

lemma get_eq: "get v k = (v', r) \<Longrightarrow> r = obs v k \<and> refines_view v v'"
  using get_obs [of v k] get_refines [of v k] by auto

text \<open>A lookup does not change the answer of a later one, of the same kind or of another.\<close>

lemma get_stable: "get v k = (v', r) \<Longrightarrow> obs v' = obs v"
  using get_eq obs_same by (auto simp: refines_view_def)

end

subsection \<open>Coins\<close>

lemma refines_cache_coins:
  assumes r: "refines_view b b'" and miss: "map_of (cacheCoins c) k = None" and some: "coinsOf b k = Some x"
    and held: "holdsC b' k"
  shows "refines_view (CacheView c b) (CacheView (c\<lparr>cacheCoins := AList.update k
           \<lparr>ce_coins = x, ce_dirty = False, ce_fresh = IsPruned x\<rparr> (cacheCoins c)\<rparr>) b')"
proof (rule refines_cacheI [OF r])
  have so: "coinsOf b' k = Some x" using r some by (simp add: refines_view_def same_obs_def)
  then show "same_obs (CacheView (c\<lparr>cacheCoins := AList.update k
           \<lparr>ce_coins = x, ce_dirty = False, ce_fresh = IsPruned x\<rparr> (cacheCoins c)\<rparr>) b') (CacheView c b')"
    using miss by (auto simp: same_obs_def fun_eq_iff split: option.splits)
  show "wf_cache T (c\<lparr>cacheCoins := AList.update k
           \<lparr>ce_coins = x, ce_dirty = False, ce_fresh = IsPruned x\<rparr> (cacheCoins c)\<rparr>) b'"
    if w: "wf_view T b'" "wf_cache T c b'" for T
  proof -
    have "coins_ok (coinsOf b' k) (holdsC b' k) \<lparr>ce_coins = x, ce_dirty = False, ce_fresh = IsPruned x\<rparr>"
      using held so coinsOf_clean [OF w(1) so] by (simp add: coins_ok_def normC_def)
    then show ?thesis using w(2) by (simp add: wf_cache_def)
  qed
qed (simp add: holds_mono_def isDB_def)

text \<open>A found record is held by the layer that was asked.\<close>

lemma GetCoins_pure:
  "snd (GetCoins v k) = coinsOf v k \<and> refines_view v (fst (GetCoins v k))
     \<and> (coinsOf v k \<noteq> None \<longrightarrow> holdsC (fst (GetCoins v k)) k)"
proof (induction v)
  case (CacheView c b)
  show ?case
  proof (cases "map_of (cacheCoins c) k")
    case (Some e)
    then show ?thesis by (simp add: fetch_coins_def)
  next
    case None
    obtain b' r where g: "GetCoins b k = (b', r)" by fastforce
    then have r: "r = coinsOf b k" "refines_view b b'" "r \<noteq> None \<longrightarrow> holdsC b' k" using CacheView by auto
    show ?thesis
    proof (cases r)
      case None
      then show ?thesis using g r(2,3) r(1) [symmetric] \<open>map_of (cacheCoins c) k = None\<close>
        by (simp add: fetch_coins_def refines_view_base)
    next
      case (Some x)
      then have "refines_view (CacheView c b) (CacheView (c\<lparr>cacheCoins := AList.update k
           \<lparr>ce_coins = x, ce_dirty = False, ce_fresh = IsPruned x\<rparr> (cacheCoins c)\<rparr>) b')"
        using r None by (intro refines_cache_coins) simp_all
      then show ?thesis using g r(2,3) Some None r(1) [symmetric] by (simp add: fetch_coins_def Let_def)
    qed
  qed
qed simp

interpretation coins_lookup: pure_lookup GetCoins coinsOf
  by unfold_locales (use GetCoins_pure in \<open>auto simp: same_obsD\<close>)

subsection \<open>Sidechains and their events\<close>

lemma refines_cache_sc:
  assumes r: "refines_view b b'" and miss: "map_of (cacheSidechains c) k = None" and some: "scOf b k = Some x"
    and held: "holdsS b' k"
  shows "refines_view (CacheView c b) (CacheView (c\<lparr>cacheSidechains := AList.update k
           \<lparr>me_content = x, me_flag = DEFAULT\<rparr> (cacheSidechains c)\<rparr>) b')"
proof (rule refines_cacheI [OF r])
  have so: "scOf b' k = Some x" using r some by (simp add: refines_view_def same_obs_def)
  then show "same_obs (CacheView (c\<lparr>cacheSidechains := AList.update k
           \<lparr>me_content = x, me_flag = DEFAULT\<rparr> (cacheSidechains c)\<rparr>) b') (CacheView c b')"
    using miss by (auto simp: same_obs_def me_live_def fun_eq_iff split: option.splits)
  have "mut_ok (isDB b') (scOf b' k) (holdsS b' k) \<lparr>me_content = x, me_flag = DEFAULT\<rparr>"
    using so held by (simp add: mut_ok_def)
  then show "wf_cache T (c\<lparr>cacheSidechains := AList.update k
           \<lparr>me_content = x, me_flag = DEFAULT\<rparr> (cacheSidechains c)\<rparr>) b'"
    if "wf_cache T c b'" for T
    using that by (simp add: wf_cache_def)
qed (simp add: holds_mono_def isDB_def)

lemma GetSidechain_pure:
  "snd (GetSidechain v k) = scOf v k \<and> refines_view v (fst (GetSidechain v k))
     \<and> (scOf v k \<noteq> None \<longrightarrow> holdsS (fst (GetSidechain v k)) k)"
proof (induction v)
  case (CacheView c b)
  show ?case
  proof (cases "map_of (cacheSidechains c) k")
    case (Some e)
    then show ?thesis by (simp add: fetch_sidechains_def fetch_mutable_def)
  next
    case None
    obtain b' r where g: "GetSidechain b k = (b', r)" by fastforce
    then have r: "r = scOf b k" "refines_view b b'" "r \<noteq> None \<longrightarrow> holdsS b' k" using CacheView by auto
    show ?thesis
    proof (cases r)
      case None
      then show ?thesis using g r(2,3) r(1) [symmetric] \<open>map_of (cacheSidechains c) k = None\<close>
        by (simp add: fetch_sidechains_def fetch_mutable_def refines_view_base)
    next
      case (Some x)
      then have "refines_view (CacheView c b) (CacheView (c\<lparr>cacheSidechains := AList.update k
           \<lparr>me_content = x, me_flag = DEFAULT\<rparr> (cacheSidechains c)\<rparr>) b')"
        using r None by (intro refines_cache_sc) simp_all
      then show ?thesis using g r(2,3) Some None r(1) [symmetric]
        by (simp add: fetch_sidechains_def fetch_mutable_def Let_def me_live_def)
    qed
  qed
qed simp

interpretation sc_lookup: pure_lookup GetSidechain scOf
  by unfold_locales (use GetSidechain_pure in \<open>auto simp: same_obsD\<close>)

lemma refines_cache_ev:
  assumes r: "refines_view b b'" and miss: "map_of (cacheSidechainEvents c) k = None" and some: "evOf b k = Some x"
    and held: "holdsE b' k"
  shows "refines_view (CacheView c b) (CacheView (c\<lparr>cacheSidechainEvents := AList.update k
           \<lparr>me_content = x, me_flag = DEFAULT\<rparr> (cacheSidechainEvents c)\<rparr>) b')"
proof (rule refines_cacheI [OF r])
  have so: "evOf b' k = Some x" using r some by (simp add: refines_view_def same_obs_def)
  then show "same_obs (CacheView (c\<lparr>cacheSidechainEvents := AList.update k
           \<lparr>me_content = x, me_flag = DEFAULT\<rparr> (cacheSidechainEvents c)\<rparr>) b') (CacheView c b')"
    using miss by (auto simp: same_obs_def me_live_def fun_eq_iff split: option.splits)
  have "mut_ok (isDB b') (evOf b' k) (holdsE b' k) \<lparr>me_content = x, me_flag = DEFAULT\<rparr>"
    using so held by (simp add: mut_ok_def)
  then show "wf_cache T (c\<lparr>cacheSidechainEvents := AList.update k
           \<lparr>me_content = x, me_flag = DEFAULT\<rparr> (cacheSidechainEvents c)\<rparr>) b'"
    if "wf_cache T c b'" for T
    using that by (simp add: wf_cache_def)
qed (simp add: holds_mono_def isDB_def)

lemma GetSidechainEvents_pure:
  "snd (GetSidechainEvents v k) = evOf v k \<and> refines_view v (fst (GetSidechainEvents v k))
     \<and> (evOf v k \<noteq> None \<longrightarrow> holdsE (fst (GetSidechainEvents v k)) k)"
proof (induction v)
  case (CacheView c b)
  show ?case
  proof (cases "map_of (cacheSidechainEvents c) k")
    case (Some e)
    then show ?thesis by (simp add: fetch_events_def fetch_mutable_def)
  next
    case None
    obtain b' r where g: "GetSidechainEvents b k = (b', r)" by fastforce
    then have r: "r = evOf b k" "refines_view b b'" "r \<noteq> None \<longrightarrow> holdsE b' k" using CacheView by auto
    show ?thesis
    proof (cases r)
      case None
      then show ?thesis using g r(2,3) r(1) [symmetric] \<open>map_of (cacheSidechainEvents c) k = None\<close>
        by (simp add: fetch_events_def fetch_mutable_def refines_view_base)
    next
      case (Some x)
      then have "refines_view (CacheView c b) (CacheView (c\<lparr>cacheSidechainEvents := AList.update k
           \<lparr>me_content = x, me_flag = DEFAULT\<rparr> (cacheSidechainEvents c)\<rparr>) b')"
        using r None by (intro refines_cache_ev) simp_all
      then show ?thesis using g r(2,3) Some None r(1) [symmetric]
        by (simp add: fetch_events_def fetch_mutable_def Let_def me_live_def)
    qed
  qed
qed simp

interpretation ev_lookup: pure_lookup GetSidechainEvents evOf
  by unfold_locales (use GetSidechainEvents_pure in \<open>auto simp: same_obsD\<close>)

subsection \<open>Anchors and nullifiers\<close>

lemma GetAnchorAt_pure:
  "snd (GetAnchorAt v k) = anchorOf v k \<and> refines_view v (fst (GetAnchorAt v k))"
proof (induction v)
  case (CacheView c b)
  show ?case
  proof (cases "map_of (cacheAnchors c) k")
    case (Some e)
    then show ?thesis by simp
  next
    case None
    obtain b' r where g: "GetAnchorAt b k = (b', r)" by fastforce
    then have r: "anchorOf b k = r" "refines_view b b'" using CacheView by auto
    show ?thesis
    proof (cases r)
      case None
      then show ?thesis using g r \<open>map_of (cacheAnchors c) k = None\<close> by (simp add: refines_view_base)
    next
      case (Some t)
      have so: "anchorOf b' k = Some t" using r Some by (simp add: refines_view_def same_obs_def)
      let ?c = "c\<lparr>cacheAnchors := AList.update k \<lparr>ae_entered = True, ae_tree = t, ae_dirty = False\<rparr> (cacheAnchors c)\<rparr>"
      have "refines_view (CacheView c b) (CacheView ?c b')"
      proof (rule refines_cacheI [OF r(2)])
        show "same_obs (CacheView ?c b') (CacheView c b')"
          using so None by (auto simp: same_obs_def fun_eq_iff split: option.splits)
        show "wf_cache T ?c b'" if "wf_view T b'" "wf_cache T c b'" for T
          using that so anchorOf_T [OF that(1) so] by (simp add: wf_cache_def anchor_ok_def)
      qed (simp add: holds_mono_def isDB_def)
      then show ?thesis using g r Some None by simp
    qed
  qed
qed simp

interpretation anchor_lookup: pure_lookup GetAnchorAt anchorOf
  by unfold_locales (use GetAnchorAt_pure in \<open>auto simp: same_obsD\<close>)

lemma GetNullifier_pure:
  "snd (GetNullifier v k) = nfOf v k \<and> refines_view v (fst (GetNullifier v k))"
proof (induction v)
  case (CacheView c b)
  show ?case
  proof (cases "map_of (cacheNullifiers c) k")
    case (Some e)
    then show ?thesis by simp
  next
    case None
    obtain b' r where g: "GetNullifier b k = (b', r)" by fastforce
    then have r: "nfOf b k = r" "refines_view b b'" using CacheView by auto
    have so: "nfOf b' k = r" using r by (simp add: refines_view_def same_obs_def)
    let ?c = "c\<lparr>cacheNullifiers := AList.update k \<lparr>ne_entered = r, ne_dirty = False\<rparr> (cacheNullifiers c)\<rparr>"
    have "refines_view (CacheView c b) (CacheView ?c b')"
    proof (rule refines_cacheI [OF r(2)])
      show "same_obs (CacheView ?c b') (CacheView c b')"
        using so None by (auto simp: same_obs_def fun_eq_iff split: option.splits)
      show "wf_cache T ?c b'" if "wf_cache T c b'" for T
        using that so by (simp add: wf_cache_def)
    qed (simp add: holds_mono_def isDB_def)
    then show ?thesis using g r None by simp
  qed
qed simp

interpretation nf_lookup: pure_lookup GetNullifier nfOf
  by unfold_locales (use GetNullifier_pure in \<open>auto simp: same_obsD\<close>)

lemma HaveCswNullifier_pure:
  "snd (HaveCswNullifier v k) = cswOf v k \<and> refines_view v (fst (HaveCswNullifier v k))
     \<and> (cswOf v k \<longrightarrow> holdsX (fst (HaveCswNullifier v k)) k)"
proof (induction v)
  case (CacheView c b)
  show ?case
  proof (cases "map_of (cacheCswNullifiers c) k")
    case (Some e)
    then show ?thesis by simp
  next
    case None
    obtain b' r where g: "HaveCswNullifier b k = (b', r)" by fastforce
    then have r: "cswOf b k = r" "refines_view b b'" "r \<longrightarrow> holdsX b' k" using CacheView by auto
    show ?thesis
    proof (cases r)
      case False
      then show ?thesis using g r None by (simp add: refines_view_base)
    next
      case True
      have so: "cswOf b' k" using r True by (simp add: refines_view_def same_obs_def)
      let ?c = "c\<lparr>cacheCswNullifiers := AList.update k IM_DEFAULT (cacheCswNullifiers c)\<rparr>"
      have "refines_view (CacheView c b) (CacheView ?c b')"
      proof (rule refines_cacheI [OF r(2)])
        show "same_obs (CacheView ?c b') (CacheView c b')"
          using so None by (auto simp: same_obs_def fun_eq_iff split: option.splits)
        show "wf_cache T ?c b'" if "wf_cache T c b'" for T
          using that so r True by (simp add: wf_cache_def csw_ok_def)
      qed (simp add: holds_mono_def isDB_def)
      then show ?thesis using g r True None by simp
    qed
  qed
qed simp

interpretation csw_lookup: pure_lookup HaveCswNullifier cswOf
  by unfold_locales (use HaveCswNullifier_pure in \<open>auto simp: same_obsD\<close>)

subsection \<open>Best block and best anchor\<close>

lemma GetBestBlock_pure: "snd (GetBestBlock v) = bestOf v \<and> refines_view v (fst (GetBestBlock v))"
proof (induction v)
  case (CacheView c b)
  obtain b' h where g: "GetBestBlock b = (b', h)" by fastforce
  then have r: "bestOf b = h" "refines_view b b'" using CacheView by auto
  have "refines_view (CacheView c b) (CacheView (c\<lparr>hashBlock := h\<rparr>) b')" if "hashBlock c = 0"
  proof (rule refines_cacheI [OF r(2)])
    show "same_obs (CacheView (c\<lparr>hashBlock := h\<rparr>) b') (CacheView c b')"
      using that r by (auto simp: same_obs_def fun_eq_iff refines_view_def split: option.splits)
  qed (simp_all add: holds_mono_def isDB_def wf_cache_def)
  then show ?case using g r by simp
qed simp

interpretation best_lookup: pure_lookup "\<lambda>v (_::unit). GetBestBlock v" "\<lambda>v _. bestOf v"
  by unfold_locales (use GetBestBlock_pure in \<open>auto simp: same_obsD\<close>)

lemma GetBestAnchor_pure: "snd (GetBestAnchor v) = bestAnchorOf v \<and> refines_view v (fst (GetBestAnchor v))"
proof (induction v)
  case (CacheView c b)
  obtain b' h where g: "GetBestAnchor b = (b', h)" by fastforce
  then have r: "bestAnchorOf b = h" "refines_view b b'" using CacheView by auto
  have "refines_view (CacheView c b) (CacheView (c\<lparr>hashAnchor := h\<rparr>) b')" if "hashAnchor c = 0"
  proof (rule refines_cacheI [OF r(2)])
    show "same_obs (CacheView (c\<lparr>hashAnchor := h\<rparr>) b') (CacheView c b')"
      using that r by (auto simp: same_obs_def fun_eq_iff refines_view_def split: option.splits)
  qed (simp_all add: holds_mono_def isDB_def wf_cache_def)
  then show ?case using g r by simp
qed simp

interpretation bestAnchor_lookup: pure_lookup "\<lambda>v (_::unit). GetBestAnchor v" "\<lambda>v _. bestAnchorOf v"
  by unfold_locales (use GetBestAnchor_pure in \<open>auto simp: same_obsD\<close>)

end
