(* ===== verification/ViewFlush.thy ===== *)
theory ViewFlush
  imports ViewObs
begin

text \<open>
  Writing a cache back to the view below it: \<open>BatchWrite\<close> of \<open>CCoinsViewCache\<close>
  and of \<open>CCoinsViewDB\<close>, and \<open>Flush\<close>. The contract of the functions that write one
  entry is the interface \<open>entry_writer\<close>; each of the eleven of the code is an
  interpretation of it. The result is that a flush below which there is the
  database, or one cache over the database (the stacks the node builds),
  aborts nowhere and makes the base show what the cache showed.
\<close>

section \<open>Writing one entry to a cache\<close>

definition WriteCoins ::
  "uint256 \<Rightarrow> CCoinsCacheEntry \<Rightarrow> (uint256 \<times> CCoinsCacheEntry) list \<Rightarrow> (uint256 \<times> CCoinsCacheEntry) list result" where
  "WriteCoins key value m =
     (if ce_dirty value then
        (case map_of m key of
           None \<Rightarrow>
             if \<not> IsPruned (ce_coins value) then
               (if \<not> ce_fresh value then Inl Assert
                else Inr (AList.update key \<lparr>ce_coins = ce_coins value, ce_dirty = True, ce_fresh = True\<rparr> m))
             else Inr m
         | Some us \<Rightarrow>
             if ce_fresh us \<and> IsPruned (ce_coins value) then Inr (AList.delete key m)
             else Inr (AList.update key (us\<lparr>ce_coins := ce_coins value, ce_dirty := True\<rparr>) m))
      else Inr m)"

definition WriteAnchor ::
  "uint256 \<Rightarrow> CAnchorsCacheEntry \<Rightarrow> (uint256 \<times> CAnchorsCacheEntry) list \<Rightarrow> (uint256 \<times> CAnchorsCacheEntry) list result" where
  "WriteAnchor key child m =
     (if ae_dirty child then
        (case map_of m key of
           None \<Rightarrow> Inr (AList.update key \<lparr>ae_entered = ae_entered child, ae_tree = ae_tree child, ae_dirty = True\<rparr> m)
         | Some parent \<Rightarrow>
             if ae_entered parent \<noteq> ae_entered child
             then Inr (AList.update key (parent\<lparr>ae_entered := ae_entered child, ae_dirty := True\<rparr>) m)
             else Inr m)
      else Inr m)"

definition WriteNullifier ::
  "uint256 \<Rightarrow> CNullifiersCacheEntry \<Rightarrow> (uint256 \<times> CNullifiersCacheEntry) list
    \<Rightarrow> (uint256 \<times> CNullifiersCacheEntry) list result" where
  "WriteNullifier key child m =
     (if ne_dirty child then
        (case map_of m key of
           None \<Rightarrow> Inr (AList.update key \<lparr>ne_entered = ne_entered child, ne_dirty = True\<rparr> m)
         | Some parent \<Rightarrow>
             if ne_entered parent \<noteq> ne_entered child
             then Inr (AList.update key (parent\<lparr>ne_entered := ne_entered child, ne_dirty := True\<rparr>) m)
             else Inr m)
      else Inr m)"

text \<open>\<open>same\<close> is \<open>ContentCheck\<close> of the entry type.\<close>

definition WriteMutableEntry ::
  "('a \<Rightarrow> 'a \<Rightarrow> bool) \<Rightarrow> 'k \<Rightarrow> 'a CMutableSidechainCacheEntry \<Rightarrow> ('k \<times> 'a CMutableSidechainCacheEntry) list
    \<Rightarrow> ('k \<times> 'a CMutableSidechainCacheEntry) list result" where
  "WriteMutableEntry same key value m =
     (case me_flag value of
        FRESH \<Rightarrow>
          (case map_of m key of
             None \<Rightarrow> Inr (AList.update key value m)
           | Some e \<Rightarrow> if me_flag e = ERASED then Inr (AList.update key value m) else Inl Assert)
      | DIRTY \<Rightarrow> Inr (AList.update key value m)
      | ERASED \<Rightarrow>
          (case map_of m key of
             None \<Rightarrow> Inr m
           | Some e \<Rightarrow> Inr (AList.update key (e\<lparr>me_flag := ERASED\<rparr>) m))
      | DEFAULT \<Rightarrow>
          (case map_of m key of
             None \<Rightarrow> Inl Assert
           | Some e \<Rightarrow> if me_flag e = ERASED \<or> \<not> same (me_content e) (me_content value) then Inl Assert else Inr m))"

definition WriteImmutableEntry ::
  "'k \<Rightarrow> ImmutableFlags \<Rightarrow> ('k \<times> ImmutableFlags) list \<Rightarrow> ('k \<times> ImmutableFlags) list result" where
  "WriteImmutableEntry key value m =
     (case value of
        IM_FRESH \<Rightarrow>
          (case map_of m key of
             None \<Rightarrow> Inr (AList.update key value m)
           | Some f \<Rightarrow> if f = IM_ERASED then Inr (AList.update key value m) else Inl Assert)
      | IM_ERASED \<Rightarrow>
          (case map_of m key of
             None \<Rightarrow> Inr m
           | Some f \<Rightarrow> Inr (AList.update key IM_ERASED m))
      | IM_DEFAULT \<Rightarrow>
          (case map_of m key of
             None \<Rightarrow> Inl Assert
           | Some f \<Rightarrow> if f = IM_ERASED then Inl Assert else Inr m))"

section \<open>Writing one entry to the database\<close>

definition BatchWriteCoins ::
  "uint256 \<Rightarrow> CCoinsCacheEntry \<Rightarrow> (uint256 \<times> CCoins) list \<Rightarrow> (uint256 \<times> CCoins) list result" where
  "BatchWriteCoins hash e m = Inr
     (if ce_dirty e then (if IsPruned (ce_coins e) then AList.delete hash m else AList.update hash (ce_coins e) m)
      else m)"

definition BatchWriteAnchor ::
  "uint256 \<Rightarrow> CAnchorsCacheEntry \<Rightarrow> (uint256 \<times> ZCIncrementalMerkleTree) list
    \<Rightarrow> (uint256 \<times> ZCIncrementalMerkleTree) list result" where
  "BatchWriteAnchor croot e m = Inr
     (if ae_dirty e then (if \<not> ae_entered e then AList.delete croot m else AList.update croot (ae_tree e) m) else m)"

definition BatchWriteNullifier ::
  "uint256 \<Rightarrow> CNullifiersCacheEntry \<Rightarrow> (uint256 \<times> bool) list \<Rightarrow> (uint256 \<times> bool) list result" where
  "BatchWriteNullifier nf e m = Inr
     (if ne_dirty e then (if \<not> ne_entered e then AList.delete nf m else AList.update nf True m) else m)"

definition BatchSidechains ::
  "'k \<Rightarrow> 'a CMutableSidechainCacheEntry \<Rightarrow> ('k \<times> 'a) list \<Rightarrow> ('k \<times> 'a) list result" where
  "BatchSidechains key e m = Inr
     (case me_flag e of FRESH \<Rightarrow> AList.update key (me_content e) m | DIRTY \<Rightarrow> AList.update key (me_content e) m
      | ERASED \<Rightarrow> AList.delete key m | DEFAULT \<Rightarrow> m)"

definition BatchCeasedScs ::
  "int \<Rightarrow> CSidechainEventsCacheEntry \<Rightarrow> (int \<times> CSidechainEvents) list \<Rightarrow> (int \<times> CSidechainEvents) list result" where
  "BatchCeasedScs height e m = Inr
     (case me_flag e of FRESH \<Rightarrow> AList.update height (me_content e) m | DIRTY \<Rightarrow> AList.update height (me_content e) m
      | ERASED \<Rightarrow> AList.delete height m | DEFAULT \<Rightarrow> m)"

definition BatchWriteCswNullifier ::
  "cswkey \<Rightarrow> ImmutableFlags \<Rightarrow> (cswkey \<times> bool) list \<Rightarrow> (cswkey \<times> bool) list result" where
  "BatchWriteCswNullifier position f m = Inr
     (case f of IM_FRESH \<Rightarrow> AList.update position True m | IM_ERASED \<Rightarrow> AList.delete position m | IM_DEFAULT \<Rightarrow> m)"

section \<open>Batches\<close>

definition write_loop ::
  "('k \<Rightarrow> 'e \<Rightarrow> ('k \<times> 'p) list \<Rightarrow> ('k \<times> 'p) list result) \<Rightarrow> ('k \<times> 'e) list \<Rightarrow> ('k \<times> 'p) list \<Rightarrow> ('k \<times> 'p) list result" where
  "write_loop w es m = foldR (\<lambda>m (k, e). w k e m) m es"

definition BatchWrite_cache :: "CacheMaps \<Rightarrow> CacheMaps \<Rightarrow> CacheMaps result" where
  "BatchWrite_cache c child =
     bindR (write_loop WriteCoins (cacheCoins child) (cacheCoins c)) (\<lambda>coins.
     bindR (write_loop WriteAnchor (cacheAnchors child) (cacheAnchors c)) (\<lambda>anchors.
     bindR (write_loop WriteNullifier (cacheNullifiers child) (cacheNullifiers c)) (\<lambda>nullifiers.
     bindR (write_loop (WriteMutableEntry CSidechain_eq) (cacheSidechains child) (cacheSidechains c)) (\<lambda>scs.
     bindR (write_loop (WriteMutableEntry CSidechainEvents_eq) (cacheSidechainEvents child) (cacheSidechainEvents c)) (\<lambda>evs.
     bindR (write_loop WriteImmutableEntry (cacheCswNullifiers child) (cacheCswNullifiers c)) (\<lambda>csws.
       Inr \<lparr>hashBlock = hashBlock child, hashAnchor = hashAnchor child, cacheCoins = coins, cacheAnchors = anchors,
            cacheNullifiers = nullifiers, cacheSidechains = scs, cacheSidechainEvents = evs,
            cacheCswNullifiers = csws\<rparr>))))))"

definition BatchWrite_db :: "CCoinsViewDB \<Rightarrow> CacheMaps \<Rightarrow> CCoinsViewDB result" where
  "BatchWrite_db d child =
     bindR (write_loop BatchWriteCoins (cacheCoins child) (db_coins d)) (\<lambda>coins.
     bindR (write_loop BatchWriteAnchor (cacheAnchors child) (db_anchors d)) (\<lambda>anchors.
     bindR (write_loop BatchWriteNullifier (cacheNullifiers child) (db_nullifiers d)) (\<lambda>nullifiers.
     bindR (write_loop BatchSidechains (cacheSidechains child) (db_sidechains d)) (\<lambda>scs.
     bindR (write_loop BatchCeasedScs (cacheSidechainEvents child) (db_ceasedscs d)) (\<lambda>evs.
     bindR (write_loop BatchWriteCswNullifier (cacheCswNullifiers child) (db_cswnullifiers d)) (\<lambda>csws.
       Inr (d\<lparr>db_coins := coins, db_anchors := anchors, db_nullifiers := nullifiers, db_sidechains := scs,
              db_ceasedscs := evs, db_cswnullifiers := csws,
              db_bestBlock := (if hashBlock child \<noteq> 0 then Some (hashBlock child) else db_bestBlock d),
              db_bestAnchor := (if hashAnchor child \<noteq> 0 then Some (hashAnchor child) else db_bestAnchor d)\<rparr>)))))))"

fun BatchWrite :: "CCoinsView \<Rightarrow> CacheMaps \<Rightarrow> CCoinsView result" where
  "BatchWrite (DBView d) child = bindR (BatchWrite_db d child) (\<lambda>d'. Inr (DBView d'))"
| "BatchWrite (CacheView c b) child = bindR (BatchWrite_cache c child) (\<lambda>c'. Inr (CacheView c' b))"

definition clear_maps :: "CacheMaps \<Rightarrow> CacheMaps" where
  "clear_maps c = c\<lparr>cacheCoins := [], cacheSidechains := [], cacheSidechainEvents := [], cacheAnchors := [],
     cacheNullifiers := [], cacheCswNullifiers := []\<rparr>"

definition Flush :: "CCoinsViewCache \<Rightarrow> CCoinsViewCache result" where
  "Flush v = (case v of (c, b) \<Rightarrow> bindR (BatchWrite b c) (\<lambda>b'. Inr (clear_maps c, b')))"

section \<open>The contract of an entry writer\<close>

locale entry_writer =
  fixes wr :: "'k \<Rightarrow> 'e \<Rightarrow> ('k \<times> 'p) list \<Rightarrow> ('k \<times> 'p) list result"
    and accepts :: "'e \<Rightarrow> 'p option \<Rightarrow> bool" and upd :: "'e \<Rightarrow> 'p option \<Rightarrow> 'p option"
  assumes wr_ok: "accepts e (map_of m k) \<Longrightarrow> \<exists>m'. wr k e m = Inr m'
      \<and> map_of m' = (map_of m)(k := upd e (map_of m k)) \<and> (distinct_keys m \<longrightarrow> distinct_keys m')"
    and wr_fail: "\<not> accepts e (map_of m k) \<Longrightarrow> wr k e m = Inl Assert"
begin

text \<open>The loop over a batch acts on each key by itself, whatever the order of the batch.\<close>

lemma loop_ok:
  assumes "distinct_keys es" "\<And>k e. map_of es k = Some e \<Longrightarrow> accepts e (map_of m k)"
  shows "\<exists>m'. write_loop wr es m = Inr m'
    \<and> map_of m' = (\<lambda>k. case map_of es k of None \<Rightarrow> map_of m k | Some e \<Rightarrow> upd e (map_of m k))
    \<and> (distinct_keys m \<longrightarrow> distinct_keys m')"
  using assms
proof (induction es arbitrary: m)
  case Nil
  then show ?case by (simp add: write_loop_def)
next
  case (Cons p es)
  obtain k e where p: "p = (k, e)" by (cases p)
  have "accepts e (map_of m k)" using Cons.prems(2) [of k e] p by simp
  then obtain m1 where m1: "wr k e m = Inr m1" "map_of m1 = (map_of m)(k := upd e (map_of m k))"
    "distinct_keys m \<longrightarrow> distinct_keys m1" using wr_ok by blast
  have dk: "distinct_keys es" "map_of es k = None"
    using Cons.prems(1) p by (simp_all add: distinct_keys_def map_of_eq_None_iff)
  have "accepts e' (map_of m1 k')" if "map_of es k' = Some e'" for k' e'
    using Cons.prems(2) [of k' e'] that dk(2) m1(2) p by (cases "k' = k") simp_all
  then obtain m' where m': "write_loop wr es m1 = Inr m'"
    "map_of m' = (\<lambda>k. case map_of es k of None \<Rightarrow> map_of m1 k | Some e \<Rightarrow> upd e (map_of m1 k))"
    "distinct_keys m1 \<longrightarrow> distinct_keys m'" using Cons.IH [OF dk(1)] by blast
  have "map_of m' = (\<lambda>k. case map_of (p # es) k of None \<Rightarrow> map_of m k | Some e \<Rightarrow> upd e (map_of m k))"
    using m'(2) m1(2) dk(2) p by (auto simp: fun_eq_iff split: option.splits)
  then show ?case using m1 m'(1,3) p by (simp add: write_loop_def)
qed

lemma loop_fail:
  assumes "distinct_keys es" "map_of es k = Some e" "\<not> accepts e (map_of m k)"
  shows "write_loop wr es m = Inl Assert"
  using assms
proof (induction es arbitrary: m)
  case (Cons p es)
  obtain k' e' where p: "p = (k', e')" by (cases p)
  have dk: "distinct_keys es" "map_of es k' = None"
    using Cons.prems(1) p by (simp_all add: distinct_keys_def map_of_eq_None_iff)
  show ?case
  proof (cases "accepts e' (map_of m k')")
    case False
    then show ?thesis using wr_fail p by (simp add: write_loop_def)
  next
    case True
    then obtain m1 where m1: "wr k' e' m = Inr m1" "map_of m1 = (map_of m)(k' := upd e' (map_of m k'))"
      using wr_ok by blast
    have ne: "k \<noteq> k'" using Cons.prems True p by auto
    then have "write_loop wr es m1 = Inl Assert"
      using Cons.IH [OF dk(1)] Cons.prems(2,3) m1(2) p by simp
    then show ?thesis using m1(1) p by (simp add: write_loop_def)
  qed
qed simp

text \<open>
  When every entry is accepted, leaves a record that shows the target and is \<open>ok\<close>, and the keys
  outside the batch show the target already, the loop returns and shows the target everywhere.
\<close>

lemma loop_sound:
  assumes dk: "distinct_keys es"
    and S: "\<And>k e. map_of es k = Some e \<Longrightarrow> accepts e (map_of m k)"
      "\<And>k e. map_of es k = Some e \<Longrightarrow> shown k (upd e (map_of m k)) = target k"
      "\<And>k e q. map_of es k = Some e \<Longrightarrow> upd e (map_of m k) = Some q \<Longrightarrow> ok k q"
    and old: "\<And>k. map_of es k = None \<Longrightarrow> shown k (map_of m k) = target k" "\<And>k q. map_of m k = Some q \<Longrightarrow> ok k q"
  obtains m' where "write_loop wr es m = Inr m'" "distinct_keys m \<Longrightarrow> distinct_keys m'"
    "\<And>k. shown k (map_of m' k) = target k" "\<And>k q. map_of m' k = Some q \<Longrightarrow> ok k q"
proof -
  from loop_ok [OF dk S(1)]
  obtain m' where m': "write_loop wr es m = Inr m'" "distinct_keys m \<longrightarrow> distinct_keys m'"
    "map_of m' = (\<lambda>k. case map_of es k of None \<Rightarrow> map_of m k | Some e \<Rightarrow> upd e (map_of m k))" by blast
  show ?thesis
  proof (rule that [OF m'(1)])
    show "distinct_keys m \<Longrightarrow> distinct_keys m'" using m'(2) by blast
    show "shown k (map_of m' k) = target k" for k
      using S(2) old(1) by (cases "map_of es k") (simp_all add: m'(3))
    show "ok k q" if "map_of m' k = Some q" for k q
      using that S(3) old(2) by (cases "map_of es k") (auto simp: m'(3))
  qed
qed

end

subsection \<open>The entry writers of the code\<close>

definition coins_accepts :: "CCoinsCacheEntry \<Rightarrow> CCoinsCacheEntry option \<Rightarrow> bool" where
  "coins_accepts e p \<longleftrightarrow> (ce_dirty e \<and> p = None \<and> \<not> IsPruned (ce_coins e) \<longrightarrow> ce_fresh e)"

definition coins_upd :: "CCoinsCacheEntry \<Rightarrow> CCoinsCacheEntry option \<Rightarrow> CCoinsCacheEntry option" where
  "coins_upd e p = (if \<not> ce_dirty e then p else case p of
       None \<Rightarrow> if IsPruned (ce_coins e) then None
               else Some \<lparr>ce_coins = ce_coins e, ce_dirty = True, ce_fresh = True\<rparr>
     | Some us \<Rightarrow> if ce_fresh us \<and> IsPruned (ce_coins e) then None
                  else Some (us\<lparr>ce_coins := ce_coins e, ce_dirty := True\<rparr>))"

interpretation w_coins: entry_writer WriteCoins coins_accepts coins_upd
  by unfold_locales (auto simp: WriteCoins_def coins_accepts_def coins_upd_def split: option.splits)

definition anchor_upd :: "CAnchorsCacheEntry \<Rightarrow> CAnchorsCacheEntry option \<Rightarrow> CAnchorsCacheEntry option" where
  "anchor_upd e p = (if \<not> ae_dirty e then p else case p of
       None \<Rightarrow> Some \<lparr>ae_entered = ae_entered e, ae_tree = ae_tree e, ae_dirty = True\<rparr>
     | Some q \<Rightarrow> if ae_entered q \<noteq> ae_entered e then Some (q\<lparr>ae_entered := ae_entered e, ae_dirty := True\<rparr>) else p)"

interpretation w_anchor: entry_writer WriteAnchor "\<lambda>_ _. True" anchor_upd
  by unfold_locales (auto simp: WriteAnchor_def anchor_upd_def split: option.splits)

definition nf_upd :: "CNullifiersCacheEntry \<Rightarrow> CNullifiersCacheEntry option \<Rightarrow> CNullifiersCacheEntry option" where
  "nf_upd e p = (if \<not> ne_dirty e then p else case p of
       None \<Rightarrow> Some \<lparr>ne_entered = ne_entered e, ne_dirty = True\<rparr>
     | Some q \<Rightarrow> if ne_entered q \<noteq> ne_entered e then Some (q\<lparr>ne_entered := ne_entered e, ne_dirty := True\<rparr>) else p)"

interpretation w_nf: entry_writer WriteNullifier "\<lambda>_ _. True" nf_upd
  by unfold_locales (auto simp: WriteNullifier_def nf_upd_def split: option.splits)

definition mut_accepts :: "('a \<Rightarrow> 'a \<Rightarrow> bool) \<Rightarrow> 'a CMutableSidechainCacheEntry
    \<Rightarrow> 'a CMutableSidechainCacheEntry option \<Rightarrow> bool" where
  "mut_accepts same e p \<longleftrightarrow> (case me_flag e of
       FRESH \<Rightarrow> (case p of None \<Rightarrow> True | Some q \<Rightarrow> me_flag q = ERASED)
     | DEFAULT \<Rightarrow> (case p of None \<Rightarrow> False | Some q \<Rightarrow> me_flag q \<noteq> ERASED \<and> same (me_content q) (me_content e))
     | _ \<Rightarrow> True)"

definition mut_upd :: "'a CMutableSidechainCacheEntry \<Rightarrow> 'a CMutableSidechainCacheEntry option
    \<Rightarrow> 'a CMutableSidechainCacheEntry option" where
  "mut_upd e p = (case me_flag e of
       FRESH \<Rightarrow> Some e | DIRTY \<Rightarrow> Some e | DEFAULT \<Rightarrow> p
     | ERASED \<Rightarrow> map_option (\<lambda>q. q\<lparr>me_flag := ERASED\<rparr>) p)"

interpretation w_mut: entry_writer "WriteMutableEntry same" "mut_accepts same" mut_upd for same
  by unfold_locales (auto simp: WriteMutableEntry_def mut_accepts_def mut_upd_def fun_upd_idem
      split: option.splits Flags.splits)

definition imm_accepts :: "ImmutableFlags \<Rightarrow> ImmutableFlags option \<Rightarrow> bool" where
  "imm_accepts f p \<longleftrightarrow> (case f of IM_FRESH \<Rightarrow> p = None \<or> p = Some IM_ERASED
     | IM_DEFAULT \<Rightarrow> p \<noteq> None \<and> p \<noteq> Some IM_ERASED | IM_ERASED \<Rightarrow> True)"

definition imm_upd :: "ImmutableFlags \<Rightarrow> ImmutableFlags option \<Rightarrow> ImmutableFlags option" where
  "imm_upd f p = (case f of IM_FRESH \<Rightarrow> Some IM_FRESH | IM_DEFAULT \<Rightarrow> p
     | IM_ERASED \<Rightarrow> map_option (\<lambda>_. IM_ERASED) p)"

interpretation w_imm: entry_writer WriteImmutableEntry imm_accepts imm_upd
  by unfold_locales (auto simp: WriteImmutableEntry_def imm_accepts_def imm_upd_def fun_upd_idem
      split: option.splits ImmutableFlags.splits)

definition db_coins_upd :: "CCoinsCacheEntry \<Rightarrow> CCoins option \<Rightarrow> CCoins option" where
  "db_coins_upd e p = (if ce_dirty e then normC (Some (ce_coins e)) else p)"

interpretation w_db_coins: entry_writer BatchWriteCoins "\<lambda>_ _. True" db_coins_upd
  by unfold_locales (auto simp: BatchWriteCoins_def db_coins_upd_def normC_def)

definition db_anchor_upd :: "CAnchorsCacheEntry \<Rightarrow> ZCIncrementalMerkleTree option \<Rightarrow> ZCIncrementalMerkleTree option" where
  "db_anchor_upd e p = (if ae_dirty e then (if ae_entered e then Some (ae_tree e) else None) else p)"

interpretation w_db_anchor: entry_writer BatchWriteAnchor "\<lambda>_ _. True" db_anchor_upd
  by unfold_locales (auto simp: BatchWriteAnchor_def db_anchor_upd_def)

definition db_nf_upd :: "CNullifiersCacheEntry \<Rightarrow> bool option \<Rightarrow> bool option" where
  "db_nf_upd e p = (if ne_dirty e then (if ne_entered e then Some True else None) else p)"

interpretation w_db_nf: entry_writer BatchWriteNullifier "\<lambda>_ _. True" db_nf_upd
  by unfold_locales (auto simp: BatchWriteNullifier_def db_nf_upd_def)

definition db_mut_upd :: "'a CMutableSidechainCacheEntry \<Rightarrow> 'a option \<Rightarrow> 'a option" where
  "db_mut_upd e p = (if me_flag e = DEFAULT then p else me_live e)"

interpretation w_db_sc: entry_writer BatchSidechains "\<lambda>_ _. True" db_mut_upd
  by unfold_locales (auto simp: BatchSidechains_def db_mut_upd_def me_live_def split: Flags.splits)

interpretation w_db_ev: entry_writer BatchCeasedScs "\<lambda>_ _. True" db_mut_upd
  by unfold_locales (auto simp: BatchCeasedScs_def db_mut_upd_def me_live_def split: Flags.splits)

definition db_csw_upd :: "ImmutableFlags \<Rightarrow> bool option \<Rightarrow> bool option" where
  "db_csw_upd f p = (case f of IM_FRESH \<Rightarrow> Some True | IM_ERASED \<Rightarrow> None | IM_DEFAULT \<Rightarrow> p)"

interpretation w_db_csw: entry_writer BatchWriteCswNullifier "\<lambda>_ _. True" db_csw_upd
  by unfold_locales (auto simp: BatchWriteCswNullifier_def db_csw_upd_def split: ImmutableFlags.splits)

section \<open>A flush shows the same chain state\<close>

definition same_chain :: "CCoinsView \<Rightarrow> CCoinsView \<Rightarrow> bool" where
  "same_chain v w \<longleftrightarrow> (\<forall>k. normC (coinsOf v k) = normC (coinsOf w k)) \<and> scOf v = scOf w \<and> evOf v = evOf w
     \<and> anchorOf v = anchorOf w \<and> nfOf v = nfOf w \<and> cswOf v = cswOf w \<and> bestOf v = bestOf w
     \<and> bestAnchorOf v = bestAnchorOf w"

subsection \<open>Per entry, onto the database\<close>

lemma normC_idem [simp]: "normC (normC x) = normC x"
  by (simp add: normC_def split: option.splits)

lemma normC_Some: "normC (Some c) = (if IsPruned c then None else Some c)"
  by (simp add: normC_def)

lemma db_coins_sound: "coins_ok x h e \<Longrightarrow> normC (db_coins_upd e x) = normC (Some (ce_coins e))"
  by (auto simp: coins_ok_def db_coins_upd_def)

lemma db_coins_clean: "coins_ok x h e \<Longrightarrow> (\<And>c. x = Some c \<Longrightarrow> clean_coins c) \<Longrightarrow> db_coins_upd e x = Some c \<Longrightarrow> clean_coins c"
  by (auto simp: coins_ok_def db_coins_upd_def normC_Some split: if_splits)

lemma db_mut_sound: "mut_ok d x h e \<Longrightarrow> db_mut_upd e x = me_live e"
  by (auto simp: mut_ok_def db_mut_upd_def me_live_def split: Flags.splits)

lemma db_csw_sound: "csw_ok d (x \<noteq> None) h f \<Longrightarrow> (db_csw_upd f x \<noteq> None) = (f \<noteq> IM_ERASED)"
  by (auto simp: csw_ok_def db_csw_upd_def split: ImmutableFlags.splits)

lemma db_nf_sound: "ne_dirty e \<or> ne_entered e = (x \<noteq> None) \<Longrightarrow> (db_nf_upd e x \<noteq> None) = ne_entered e"
  by (auto simp: db_nf_upd_def)

lemma db_anchor_sound:
  assumes "anchor_ok T (DBView d) rt e" "T (db_emptyRoot d) = mt_empty"
  shows "rt = db_emptyRoot d \<Longrightarrow> ae_entered e \<and> ae_tree e = mt_empty"
    and "rt \<noteq> db_emptyRoot d \<Longrightarrow>
      db_anchor_upd e (map_of (db_anchors d) rt) = (if ae_entered e then Some (ae_tree e) else None)"
    and "db_anchor_upd e (map_of (db_anchors d) rt) = Some t \<Longrightarrow> t = T rt \<or> map_of (db_anchors d) rt = Some t"
  using assms by (auto simp: anchor_ok_def db_anchor_upd_def split: if_splits)

subsection \<open>Per entry, onto a cache over the database\<close>

lemma coins_sound:
  assumes "coins_ok (case q of Some p \<Rightarrow> Some (ce_coins p) | None \<Rightarrow> below) (q \<noteq> None) e"
    and "\<And>p. q = Some p \<Longrightarrow> coins_ok below held p"
  shows "coins_accepts e q"
    and "normC (case coins_upd e q of Some p \<Rightarrow> Some (ce_coins p) | None \<Rightarrow> below) = normC (Some (ce_coins e))"
    and "coins_upd e q = Some p \<Longrightarrow> coins_ok below held p"
  using assms by (auto simp: coins_ok_def coins_accepts_def coins_upd_def normC_Some split: option.splits if_splits)

lemma mut_sound:
  assumes "mut_ok False (case q of Some p \<Rightarrow> me_live p | None \<Rightarrow> below) (q \<noteq> None) e"
    and "\<And>p. q = Some p \<Longrightarrow> mut_ok True below True p" and "\<And>x. same x x"
  shows "mut_accepts same e q"
    and "(case mut_upd e q of Some p \<Rightarrow> me_live p | None \<Rightarrow> below) = me_live e"
    and "mut_upd e q = Some p \<Longrightarrow> mut_ok True below True p"
  using assms
  by (auto simp: mut_ok_def mut_accepts_def mut_upd_def me_live_def split: option.splits Flags.splits if_splits)

lemma csw_sound:
  assumes "csw_ok False (case q of Some p \<Rightarrow> p \<noteq> IM_ERASED | None \<Rightarrow> below) (q \<noteq> None) f"
    and "\<And>p. q = Some p \<Longrightarrow> csw_ok True below True p"
  shows "imm_accepts f q"
    and "(case imm_upd f q of Some p \<Rightarrow> p \<noteq> IM_ERASED | None \<Rightarrow> below) = (f \<noteq> IM_ERASED)"
    and "imm_upd f q = Some p \<Longrightarrow> csw_ok True below True p"
  using assms
  by (auto simp: csw_ok_def imm_accepts_def imm_upd_def split: option.splits ImmutableFlags.splits if_splits)

lemma nf_sound:
  assumes "ne_dirty e \<or> ne_entered e = (case q of Some p \<Rightarrow> ne_entered p | None \<Rightarrow> below)"
    and "\<And>p. q = Some p \<Longrightarrow> ne_dirty p \<or> ne_entered p = below"
  shows "(case nf_upd e q of Some p \<Rightarrow> ne_entered p | None \<Rightarrow> below) = ne_entered e"
    and "nf_upd e q = Some p \<Longrightarrow> ne_dirty p \<or> ne_entered p = below"
  using assms by (auto simp: nf_upd_def split: option.splits if_splits)

lemma anchor_sound:
  assumes "anchor_ok T (CacheView c b) rt e" "map_of (cacheAnchors c) rt = q"
    and "\<And>p. q = Some p \<Longrightarrow> anchor_ok T b rt p"
  shows "(case anchor_upd e q of Some p \<Rightarrow> (if ae_entered p then Some (ae_tree p) else None) | None \<Rightarrow> anchorOf b rt)
      = (if ae_entered e then Some (ae_tree e) else None)"
    and "anchor_upd e q = Some p \<Longrightarrow> anchor_ok T b rt p"
proof -
  note E = assms(1) [unfolded anchor_ok_def emptyRootOf.simps anchorOf.simps assms(2)]
  show "(case anchor_upd e q of Some p \<Rightarrow> (if ae_entered p then Some (ae_tree p) else None) | None \<Rightarrow> anchorOf b rt)
      = (if ae_entered e then Some (ae_tree e) else None)"
  proof (cases "ae_dirty e")
    case False
    then have "ae_entered e" "(case q of None \<Rightarrow> anchorOf b rt
        | Some p \<Rightarrow> if ae_entered p then Some (ae_tree p) else None) = Some (ae_tree e)" using E by blast+
    then show ?thesis using False by (simp add: anchor_upd_def)
  next
    case True
    show ?thesis
    proof (cases q)
      case (Some p)
      have "ae_tree p = ae_tree e" using assms(3) [OF Some] E unfolding anchor_ok_def by metis
      then show ?thesis using True Some by (cases "ae_entered p = ae_entered e") (simp_all add: anchor_upd_def)
    qed (use True in \<open>simp add: anchor_upd_def\<close>)
  qed
  show "anchor_ok T b rt p" if "anchor_upd e q = Some p"
  proof (cases "q = Some p")
    case True
    then show ?thesis by (rule assms(3))
  next
    case False
    then have p: "ae_tree p = ae_tree (case q of Some r \<Rightarrow> r | None \<Rightarrow> e)" "ae_entered p = ae_entered e" "ae_dirty p"
      using that by (auto simp: anchor_upd_def split: option.splits if_splits)
    have "ae_tree (case q of Some r \<Rightarrow> r | None \<Rightarrow> e) = T rt"
    proof (cases q)
      case (Some r)
      have "ae_tree r = T rt" using assms(3) [OF Some] unfolding anchor_ok_def by blast
      then show ?thesis unfolding Some by simp
    next
      case None
      have "ae_tree e = T rt" using E by blast
      then show ?thesis unfolding None by simp
    qed
    moreover have "rt = emptyRootOf b \<longrightarrow> ae_entered e" using E by blast
    ultimately show ?thesis unfolding anchor_ok_def p(1,2) using p(3) by blast
  qed
qed

lemma CSidechain_eq_refl [simp]: "CSidechain_eq x x" by (simp add: CSidechain_eq_def)

lemma CSidechainEvents_eq_refl [simp]: "CSidechainEvents_eq x x" by (simp add: CSidechainEvents_eq_def)

subsection \<open>The batches\<close>

text \<open>The database, map by map.\<close>

lemma db_batch_coins:
  assumes W: "wf_cache T c (DBView d)" and D: "\<And>k x. map_of (db_coins d) k = Some x \<Longrightarrow> clean_coins x"
  obtains m where "write_loop BatchWriteCoins (cacheCoins c) (db_coins d) = Inr m"
    "\<And>k. normC (map_of m k) = normC (coinsOf (CacheView c (DBView d)) k)"
    "\<And>k x. map_of m k = Some x \<Longrightarrow> clean_coins x"
proof -
  note W7 = wf_cacheD(7) [OF W, simplified]
  show thesis
    by (rule w_db_coins.loop_sound [OF wf_cacheD(1) [OF W], where m = "db_coins d" and ok = "\<lambda>_ x. clean_coins x"
        and shown = "\<lambda>k x. normC x" and target = "\<lambda>k. normC (coinsOf (CacheView c (DBView d)) k)"])
      (simp_all add: db_coins_sound [OF W7] db_coins_clean [OF W7 D] D that)
qed

lemma db_batch_nullifiers:
  assumes W: "wf_cache T c (DBView d)"
  obtains m where "write_loop BatchWriteNullifier (cacheNullifiers c) (db_nullifiers d) = Inr m"
    "\<And>k. ((map_of m k) \<noteq> None) = nfOf (CacheView c (DBView d)) k"
  by (rule w_db_nf.loop_sound [OF wf_cacheD(3) [OF W], where m = "db_nullifiers d" and ok = "\<lambda>_ _. True"
        and shown = "\<lambda>k x. (x \<noteq> None)" and target = "\<lambda>k. nfOf (CacheView c (DBView d)) k"])
    (use db_nf_sound [OF wf_cacheD(9) [OF W, unfolded nfOf.simps]] in \<open>simp_all\<close>)

lemma db_batch_sidechains:
  assumes W: "wf_cache T c (DBView d)"
  obtains m where "write_loop BatchSidechains (cacheSidechains c) (db_sidechains d) = Inr m"
    "\<And>k. (map_of m k) = scOf (CacheView c (DBView d)) k"
  by (rule w_db_sc.loop_sound [OF wf_cacheD(4) [OF W], where m = "db_sidechains d" and ok = "\<lambda>_ _. True"
        and shown = "\<lambda>k x. x" and target = "\<lambda>k. scOf (CacheView c (DBView d)) k"])
    (simp_all add: db_mut_sound [OF wf_cacheD(10) [OF W, simplified]])

lemma db_batch_events:
  assumes W: "wf_cache T c (DBView d)"
  obtains m where "write_loop BatchCeasedScs (cacheSidechainEvents c) (db_ceasedscs d) = Inr m"
    "\<And>k. (map_of m k) = evOf (CacheView c (DBView d)) k"
  by (rule w_db_ev.loop_sound [OF wf_cacheD(5) [OF W], where m = "db_ceasedscs d" and ok = "\<lambda>_ _. True"
        and shown = "\<lambda>k x. x" and target = "\<lambda>k. evOf (CacheView c (DBView d)) k"])
    (simp_all add: db_mut_sound [OF wf_cacheD(11) [OF W, simplified]])

lemma db_batch_csw:
  assumes W: "wf_cache T c (DBView d)"
  obtains m where "write_loop BatchWriteCswNullifier (cacheCswNullifiers c) (db_cswnullifiers d) = Inr m"
    "\<And>k. ((map_of m k) \<noteq> None) = cswOf (CacheView c (DBView d)) k"
  by (rule w_db_csw.loop_sound [OF wf_cacheD(6) [OF W], where m = "db_cswnullifiers d" and ok = "\<lambda>_ _. True"
        and shown = "\<lambda>k x. (x \<noteq> None)" and target = "\<lambda>k. cswOf (CacheView c (DBView d)) k"])
    (use db_csw_sound [OF wf_cacheD(12) [OF W, unfolded cswOf.simps]] in \<open>simp_all\<close>)

lemma db_batch_anchors:
  assumes wf: "wf_view T (CacheView c (DBView d))"
  obtains m where "write_loop BatchWriteAnchor (cacheAnchors c) (db_anchors d) = Inr m"
    "\<And>k. (if k = db_emptyRoot d then Some mt_empty else map_of m k) = anchorOf (CacheView c (DBView d)) k"
    "\<And>k t. map_of m k = Some t \<Longrightarrow> t = T k"
proof -
  have W: "wf_cache T c (DBView d)" and T: "T (db_emptyRoot d) = mt_empty"
    "\<And>k t. map_of (db_anchors d) k = Some t \<Longrightarrow> t = T k" using wf by auto
  note S = db_anchor_sound [OF wf_cacheD(8) [OF W] T(1)]
  show thesis
  proof (rule w_db_anchor.loop_sound [OF wf_cacheD(2) [OF W], where m = "db_anchors d" and ok = "\<lambda>k t. t = T k"
        and shown = "\<lambda>k x. if k = db_emptyRoot d then Some mt_empty else x" and target = "\<lambda>k. anchorOf (CacheView c (DBView d)) k"])
    fix k e q
    assume "map_of (cacheAnchors c) k = Some e" "db_anchor_upd e (map_of (db_anchors d) k) = Some q"
    then show "q = T k" using S(3) T(2) by blast
  next
    fix k e
    assume "map_of (cacheAnchors c) k = Some e"
    then show "(if k = db_emptyRoot d then Some mt_empty else db_anchor_upd e (map_of (db_anchors d) k))
        = anchorOf (CacheView c (DBView d)) k" using S(1,2) by (cases "k = db_emptyRoot d") simp_all
  qed (simp, simp, rule T(2), assumption, rule that)
qed

subsection \<open>Onto a cache over the database, map by map\<close>

text \<open>
  Two caches over the database: the upper one \<open>c\<close>, the lower one \<open>p\<close>. Each lemma says that
  the loop over one map of \<open>c\<close> accepts every entry, keeps the invariant of that map of
  \<open>p\<close>, and makes \<open>p\<close> show what \<open>c\<close> showed.
\<close>

lemma batch_coins:
  assumes W: "wf_cache T c (CacheView p (DBView d))" "wf_cache T p (DBView d)"
  obtains m where "write_loop WriteCoins (cacheCoins c) (cacheCoins p) = Inr m" "distinct_keys m"
    "\<And>k. normC (case map_of m k of Some e \<Rightarrow> Some (ce_coins e) | None \<Rightarrow> coinsOf (DBView d) k) = normC (coinsOf (CacheView c (CacheView p (DBView d))) k)"
    "\<And>k e. map_of m k = Some e \<Longrightarrow> coins_ok (coinsOf (DBView d) k) True e"
proof -
  note S = coins_sound [OF wf_cacheD(7) [OF W(1), unfolded coinsOf.simps(2) holdsC.simps]
      wf_cacheD(7) [OF W(2), unfolded holdsC.simps]]
  show thesis
    by (rule w_coins.loop_sound [OF wf_cacheD(1) [OF W(1)], where m = "cacheCoins p"
          and ok = "\<lambda>k e. coins_ok (coinsOf (DBView d) k) True e"
          and shown = "\<lambda>k x. normC (case x of Some e \<Rightarrow> Some (ce_coins e) | None \<Rightarrow> coinsOf (DBView d) k)"
          and target = "\<lambda>k. normC (coinsOf (CacheView c (CacheView p (DBView d))) k)"])
      (use S wf_cacheD(1) [OF W(2)] wf_cacheD(7) [OF W(2), unfolded holdsC.simps] that in \<open>simp_all del: coinsOf.simps(1)\<close>)
qed

lemma batch_nullifiers:
  assumes W: "wf_cache T c (CacheView p (DBView d))" "wf_cache T p (DBView d)"
  obtains m where "write_loop WriteNullifier (cacheNullifiers c) (cacheNullifiers p) = Inr m" "distinct_keys m"
    "\<And>k. (case map_of m k of Some e \<Rightarrow> ne_entered e | None \<Rightarrow> nfOf (DBView d) k) = nfOf (CacheView c (CacheView p (DBView d))) k"
    "\<And>k e. map_of m k = Some e \<Longrightarrow> ne_dirty e \<or> ne_entered e = nfOf (DBView d) k"
proof -
  note P = wf_cacheD(9) [OF W(2)]
  note S = nf_sound [OF wf_cacheD(9) [OF W(1), unfolded nfOf.simps(2)] P]
  show thesis
    by (rule w_nf.loop_sound [OF wf_cacheD(3) [OF W(1)], where m = "cacheNullifiers p" and ok = "\<lambda>k e. ne_dirty e \<or> ne_entered e = nfOf (DBView d) k"
          and shown = "\<lambda>k x. (case x of Some e \<Rightarrow> ne_entered e | None \<Rightarrow> nfOf (DBView d) k)" and target = "\<lambda>k. nfOf (CacheView c (CacheView p (DBView d))) k"],
        (use S P in \<open>simp_all del: nfOf.simps(1)\<close>)[5], rule that, assumption, simp add: wf_cacheD(3) [OF W(2)], blast, blast)
qed

lemma batch_sidechains:
  assumes W: "wf_cache T c (CacheView p (DBView d))" "wf_cache T p (DBView d)"
  obtains m where "write_loop (WriteMutableEntry CSidechain_eq) (cacheSidechains c) (cacheSidechains p) = Inr m" "distinct_keys m"
    "\<And>k. (case map_of m k of Some e \<Rightarrow> me_live e | None \<Rightarrow> scOf (DBView d) k) = scOf (CacheView c (CacheView p (DBView d))) k"
    "\<And>k e. map_of m k = Some e \<Longrightarrow> mut_ok True (scOf (DBView d) k) True e"
proof -
  note P = wf_cacheD(10) [OF W(2), unfolded holdsS.simps isDB_def CCoinsView.case]
  note S = mut_sound [where same = CSidechain_eq, OF wf_cacheD(10) [OF W(1), unfolded scOf.simps(2) holdsS.simps isDB_def CCoinsView.case] P CSidechain_eq_refl]
  show thesis
    by (rule w_mut.loop_sound [OF wf_cacheD(4) [OF W(1)], where same = CSidechain_eq and m = "cacheSidechains p" and ok = "\<lambda>k e. mut_ok True (scOf (DBView d) k) True e"
          and shown = "\<lambda>k x. (case x of Some e \<Rightarrow> me_live e | None \<Rightarrow> scOf (DBView d) k)" and target = "\<lambda>k. scOf (CacheView c (CacheView p (DBView d))) k"],
        (use S P in \<open>simp_all del: scOf.simps(1)\<close>)[5], rule that, assumption, simp add: wf_cacheD(4) [OF W(2)], blast, blast)
qed

lemma batch_events:
  assumes W: "wf_cache T c (CacheView p (DBView d))" "wf_cache T p (DBView d)"
  obtains m where "write_loop (WriteMutableEntry CSidechainEvents_eq) (cacheSidechainEvents c) (cacheSidechainEvents p) = Inr m" "distinct_keys m"
    "\<And>k. (case map_of m k of Some e \<Rightarrow> me_live e | None \<Rightarrow> evOf (DBView d) k) = evOf (CacheView c (CacheView p (DBView d))) k"
    "\<And>k e. map_of m k = Some e \<Longrightarrow> mut_ok True (evOf (DBView d) k) True e"
proof -
  note P = wf_cacheD(11) [OF W(2), unfolded holdsE.simps isDB_def CCoinsView.case]
  note S = mut_sound [where same = CSidechainEvents_eq, OF wf_cacheD(11) [OF W(1), unfolded evOf.simps(2) holdsE.simps isDB_def CCoinsView.case] P CSidechainEvents_eq_refl]
  show thesis
    by (rule w_mut.loop_sound [OF wf_cacheD(5) [OF W(1)], where same = CSidechainEvents_eq and m = "cacheSidechainEvents p" and ok = "\<lambda>k e. mut_ok True (evOf (DBView d) k) True e"
          and shown = "\<lambda>k x. (case x of Some e \<Rightarrow> me_live e | None \<Rightarrow> evOf (DBView d) k)" and target = "\<lambda>k. evOf (CacheView c (CacheView p (DBView d))) k"],
        (use S P in \<open>simp_all del: evOf.simps(1)\<close>)[5], rule that, assumption, simp add: wf_cacheD(5) [OF W(2)], blast, blast)
qed

lemma batch_csw:
  assumes W: "wf_cache T c (CacheView p (DBView d))" "wf_cache T p (DBView d)"
  obtains m where "write_loop WriteImmutableEntry (cacheCswNullifiers c) (cacheCswNullifiers p) = Inr m" "distinct_keys m"
    "\<And>k. (case map_of m k of Some e \<Rightarrow> e \<noteq> IM_ERASED | None \<Rightarrow> cswOf (DBView d) k) = cswOf (CacheView c (CacheView p (DBView d))) k"
    "\<And>k e. map_of m k = Some e \<Longrightarrow> csw_ok True (cswOf (DBView d) k) True e"
proof -
  note P = wf_cacheD(12) [OF W(2), unfolded holdsX.simps isDB_def CCoinsView.case]
  note S = csw_sound [OF wf_cacheD(12) [OF W(1), unfolded cswOf.simps(2) holdsX.simps isDB_def CCoinsView.case] P]
  show thesis
    by (rule w_imm.loop_sound [OF wf_cacheD(6) [OF W(1)], where m = "cacheCswNullifiers p" and ok = "\<lambda>k e. csw_ok True (cswOf (DBView d) k) True e"
          and shown = "\<lambda>k x. (case x of Some e \<Rightarrow> e \<noteq> IM_ERASED | None \<Rightarrow> cswOf (DBView d) k)" and target = "\<lambda>k. cswOf (CacheView c (CacheView p (DBView d))) k"],
        (use S P in \<open>simp_all del: cswOf.simps(1)\<close>)[5], rule that, assumption, simp add: wf_cacheD(6) [OF W(2)], blast, blast)
qed

lemma batch_anchors:
  assumes W: "wf_cache T c (CacheView p (DBView d))" "wf_cache T p (DBView d)"
  obtains m where "write_loop WriteAnchor (cacheAnchors c) (cacheAnchors p) = Inr m" "distinct_keys m"
    "\<And>k. (case map_of m k of Some e \<Rightarrow> if ae_entered e then Some (ae_tree e) else None | None \<Rightarrow> anchorOf (DBView d) k) = anchorOf (CacheView c (CacheView p (DBView d))) k"
    "\<And>k e. map_of m k = Some e \<Longrightarrow> anchor_ok T (DBView d) k e"
proof -
  note P = wf_cacheD(8) [OF W(2)]
  note S = anchor_sound [OF wf_cacheD(8) [OF W(1)] refl P]
  show thesis
    by (rule w_anchor.loop_sound [OF wf_cacheD(2) [OF W(1)], where m = "cacheAnchors p" and ok = "\<lambda>k e. anchor_ok T (DBView d) k e"
          and shown = "\<lambda>k x. (case x of Some e \<Rightarrow> if ae_entered e then Some (ae_tree e) else None | None \<Rightarrow> anchorOf (DBView d) k)" and target = "\<lambda>k. anchorOf (CacheView c (CacheView p (DBView d))) k"],
        (use S P in \<open>simp_all del: anchorOf.simps(1)\<close>)[5], rule that, assumption, simp add: wf_cacheD(2) [OF W(2)], blast, blast)
qed

lemma BatchWrite_db_ok:
  assumes wf: "wf_view T (CacheView c (DBView d))"
  obtains d' where "BatchWrite_db d c = Inr d'" "wf_view T (DBView d')" "same_chain (DBView d') (CacheView c (DBView d))"
    "db_emptyRoot d' = db_emptyRoot d"
proof -
  have W: "wf_cache T c (DBView d)" and T: "T (db_emptyRoot d) = mt_empty" using wf by simp_all
  obtain m1 where m1: "write_loop BatchWriteCoins (cacheCoins c) (db_coins d) = Inr m1"
    "\<And>k. normC (map_of m1 k) = normC (coinsOf (CacheView c (DBView d)) k)" "\<And>k x. map_of m1 k = Some x \<Longrightarrow> clean_coins x"
    by (rule db_batch_coins [OF W]) (use wf in simp, rule that)
  obtain m2 where m2: "write_loop BatchWriteAnchor (cacheAnchors c) (db_anchors d) = Inr m2"
    "\<And>k. (if k = db_emptyRoot d then Some mt_empty else map_of m2 k) = anchorOf (CacheView c (DBView d)) k"
    "\<And>k t. map_of m2 k = Some t \<Longrightarrow> t = T k" by (rule db_batch_anchors [OF wf]) (rule that)
  obtain m3 where m3: "write_loop BatchWriteNullifier (cacheNullifiers c) (db_nullifiers d) = Inr m3"
    "\<And>k. (map_of m3 k \<noteq> None) = nfOf (CacheView c (DBView d)) k" by (rule db_batch_nullifiers [OF W]) (rule that)
  obtain m4 where m4: "write_loop BatchSidechains (cacheSidechains c) (db_sidechains d) = Inr m4"
    "\<And>k. map_of m4 k = scOf (CacheView c (DBView d)) k" by (rule db_batch_sidechains [OF W]) (rule that)
  obtain m5 where m5: "write_loop BatchCeasedScs (cacheSidechainEvents c) (db_ceasedscs d) = Inr m5"
    "\<And>k. map_of m5 k = evOf (CacheView c (DBView d)) k" by (rule db_batch_events [OF W]) (rule that)
  obtain m6 where m6: "write_loop BatchWriteCswNullifier (cacheCswNullifiers c) (db_cswnullifiers d) = Inr m6"
    "\<And>k. (map_of m6 k \<noteq> None) = cswOf (CacheView c (DBView d)) k" by (rule db_batch_csw [OF W]) (rule that)
  define d' where "d' = d\<lparr>db_coins := m1, db_anchors := m2, db_nullifiers := m3, db_sidechains := m4,
      db_ceasedscs := m5, db_cswnullifiers := m6,
      db_bestBlock := (if hashBlock c \<noteq> 0 then Some (hashBlock c) else db_bestBlock d),
      db_bestAnchor := (if hashAnchor c \<noteq> 0 then Some (hashAnchor c) else db_bestAnchor d)\<rparr>"
  have er: "db_emptyRoot d' = db_emptyRoot d" "db_anchors d' = m2" "db_coins d' = m1" "db_nullifiers d' = m3"
    "db_sidechains d' = m4" "db_ceasedscs d' = m5" "db_cswnullifiers d' = m6" by (simp_all add: d'_def)
  show thesis
  proof (rule that)
    show "BatchWrite_db d c = Inr d'"
      by (simp add: BatchWrite_db_def m1(1) m2(1) m3(1) m4(1) m5(1) m6(1) d'_def)
    show "wf_view T (DBView d')" unfolding wf_view.simps er by (intro conjI allI impI) (rule T, erule m2(3), erule m1(3))
    have "bestOf (DBView d') = bestOf (CacheView c (DBView d))"
      "bestAnchorOf (DBView d') = bestAnchorOf (CacheView c (DBView d))"
      by (simp_all add: er(1) d'_def cong: option.case_cong split: option.split)
    then show "same_chain (DBView d') (CacheView c (DBView d))"
      unfolding same_chain_def using m1(2) m2(2) m3(2) m4(2) m5(2) m6(2)
      by (intro conjI allI ext) (simp_all only: coinsOf.simps(1) scOf.simps(1) evOf.simps(1) anchorOf.simps(1) nfOf.simps(1) cswOf.simps(1) er)
  qed (rule er(1))
qed

lemma BatchWrite_cache_ok:
  assumes wf: "wf_view T (CacheView c (CacheView p (DBView d)))" and hb: "hashBlock c \<noteq> 0" "hashAnchor c \<noteq> 0"
  obtains p' where "BatchWrite_cache p c = Inr p'" "wf_view T (CacheView p' (DBView d))"
    "same_chain (CacheView p' (DBView d)) (CacheView c (CacheView p (DBView d)))"
    "hashBlock p' = hashBlock c" "hashAnchor p' = hashAnchor c"
proof -
  have W: "wf_cache T c (CacheView p (DBView d))" "wf_cache T p (DBView d)" and D: "wf_view T (DBView d)"
    using wf by (simp_all only: wf_view.simps(2))
  obtain m1 where m1: "write_loop WriteCoins (cacheCoins c) (cacheCoins p) = Inr m1" "distinct_keys m1"
    "\<And>k. normC (case map_of m1 k of Some e \<Rightarrow> Some (ce_coins e) | None \<Rightarrow> coinsOf (DBView d) k)
       = normC (coinsOf (CacheView c (CacheView p (DBView d))) k)"
    "\<And>k e. map_of m1 k = Some e \<Longrightarrow> coins_ok (coinsOf (DBView d) k) True e" by (rule batch_coins [OF W]) (rule that)
  obtain m2 where m2: "write_loop WriteAnchor (cacheAnchors c) (cacheAnchors p) = Inr m2" "distinct_keys m2"
    "\<And>k. (case map_of m2 k of Some e \<Rightarrow> if ae_entered e then Some (ae_tree e) else None | None \<Rightarrow> anchorOf (DBView d) k)
       = anchorOf (CacheView c (CacheView p (DBView d))) k"
    "\<And>k e. map_of m2 k = Some e \<Longrightarrow> anchor_ok T (DBView d) k e" by (rule batch_anchors [OF W]) (rule that)
  obtain m3 where m3: "write_loop WriteNullifier (cacheNullifiers c) (cacheNullifiers p) = Inr m3" "distinct_keys m3"
    "\<And>k. (case map_of m3 k of Some e \<Rightarrow> ne_entered e | None \<Rightarrow> nfOf (DBView d) k)
       = nfOf (CacheView c (CacheView p (DBView d))) k"
    "\<And>k e. map_of m3 k = Some e \<Longrightarrow> ne_dirty e \<or> ne_entered e = nfOf (DBView d) k"
    by (rule batch_nullifiers [OF W]) (rule that)
  obtain m4 where m4: "write_loop (WriteMutableEntry CSidechain_eq) (cacheSidechains c) (cacheSidechains p) = Inr m4"
    "distinct_keys m4" "\<And>k. (case map_of m4 k of Some e \<Rightarrow> me_live e | None \<Rightarrow> scOf (DBView d) k)
       = scOf (CacheView c (CacheView p (DBView d))) k"
    "\<And>k e. map_of m4 k = Some e \<Longrightarrow> mut_ok True (scOf (DBView d) k) True e" by (rule batch_sidechains [OF W]) (rule that)
  obtain m5 where m5: "write_loop (WriteMutableEntry CSidechainEvents_eq) (cacheSidechainEvents c) (cacheSidechainEvents p) = Inr m5"
    "distinct_keys m5" "\<And>k. (case map_of m5 k of Some e \<Rightarrow> me_live e | None \<Rightarrow> evOf (DBView d) k)
       = evOf (CacheView c (CacheView p (DBView d))) k"
    "\<And>k e. map_of m5 k = Some e \<Longrightarrow> mut_ok True (evOf (DBView d) k) True e" by (rule batch_events [OF W]) (rule that)
  obtain m6 where m6: "write_loop WriteImmutableEntry (cacheCswNullifiers c) (cacheCswNullifiers p) = Inr m6"
    "distinct_keys m6" "\<And>k. (case map_of m6 k of Some e \<Rightarrow> e \<noteq> IM_ERASED | None \<Rightarrow> cswOf (DBView d) k)
       = cswOf (CacheView c (CacheView p (DBView d))) k"
    "\<And>k e. map_of m6 k = Some e \<Longrightarrow> csw_ok True (cswOf (DBView d) k) True e" by (rule batch_csw [OF W]) (rule that)
  define p' where "p' = \<lparr>hashBlock = hashBlock c, hashAnchor = hashAnchor c, cacheCoins = m1, cacheAnchors = m2,
    cacheNullifiers = m3, cacheSidechains = m4, cacheSidechainEvents = m5, cacheCswNullifiers = m6\<rparr>"
  have f: "cacheCoins p' = m1" "cacheAnchors p' = m2" "cacheNullifiers p' = m3" "cacheSidechains p' = m4"
    "cacheSidechainEvents p' = m5" "cacheCswNullifiers p' = m6" "hashBlock p' = hashBlock c" "hashAnchor p' = hashAnchor c"
    by (simp_all add: p'_def)
  show thesis
  proof (rule that [OF _ _ _ f(7,8)])
    show "BatchWrite_cache p c = Inr p'"
      by (simp add: BatchWrite_cache_def m1(1) m2(1) m3(1) m4(1) m5(1) m6(1) p'_def)
    have "wf_cache T p' (DBView d)"
      unfolding wf_cache_def f isDB_def CCoinsView.case holdsC.simps holdsS.simps holdsE.simps holdsX.simps
      by (intro conjI allI impI) (fact m1(2) m2(2) m3(2) m4(2) m5(2) m6(2) | erule m1(4) m2(4) m3(4) m4(4) m5(4) m6(4))+
    then show "wf_view T (CacheView p' (DBView d))" using D by (simp only: wf_view.simps(2))
    have "bestOf (CacheView p' (DBView d)) = bestOf (CacheView c (CacheView p (DBView d)))"
      "bestAnchorOf (CacheView p' (DBView d)) = bestAnchorOf (CacheView c (CacheView p (DBView d)))"
      using hb by (simp_all add: f)
    then show "same_chain (CacheView p' (DBView d)) (CacheView c (CacheView p (DBView d)))"
      unfolding same_chain_def using m1(3) m2(3) m3(3) m4(3) m5(3) m6(3)
      by (intro conjI allI ext) (simp_all only: coinsOf.simps(2) scOf.simps(2) evOf.simps(2) anchorOf.simps(2) nfOf.simps(2) cswOf.simps(2) f)
  qed
qed

section \<open>Flush\<close>

text \<open>The stacks the node builds: at most one cache between a cache and the database.\<close>

definition shallow :: "CCoinsView \<Rightarrow> bool" where
  "shallow b \<longleftrightarrow> (case b of DBView _ \<Rightarrow> True | CacheView _ b' \<Rightarrow> isDB b')"

lemma wf_cache_clear [simp]: "wf_cache T (clear_maps c) b"
  by (simp add: wf_cache_def clear_maps_def)


text \<open>
  A concrete stack: a database with one coin record and one sidechain, a cache that has read both,
  and a cache on top that has spent the coin, added another, changed the sidechain, recorded
  an event, a note nullifier and a withdrawal nullifier.
\<close>

definition coin_example :: "int \<Rightarrow> CCoins" where
  "coin_example n = \<lparr>fCoinBase = False, vout = [\<lparr>nValue = n, scriptPubKey = []\<rparr>], nHeight = 10, nVersion = 1,
     nFirstBwtPos = BWT_POS_UNSET, nBwtMaturityHeight = 0\<rparr>"

definition db_example :: CCoinsViewDB where
  "db_example = \<lparr>db_coins = [(1, coin_example 5)], db_anchors = [], db_nullifiers = [], db_sidechains = [(7, sc_example)],
     db_ceasedscs = [], db_cswnullifiers = [], db_bestBlock = Some 8, db_bestAnchor = None, db_emptyRoot = 99\<rparr>"

definition cache_example :: CacheMaps where
  "cache_example = CacheMaps_empty\<lparr>hashBlock := 8, hashAnchor := 99,
     cacheCoins := [(1, \<lparr>ce_coins = coin_example 5, ce_dirty = False, ce_fresh = False\<rparr>)],
     cacheSidechains := [(7, \<lparr>me_content = sc_example, me_flag = DEFAULT\<rparr>)]\<rparr>"

definition child_example :: CacheMaps where
  "child_example = CacheMaps_empty\<lparr>hashBlock := 9, hashAnchor := 99,
     cacheCoins := [(1, \<lparr>ce_coins = (coin_example 5)\<lparr>vout := []\<rparr>, ce_dirty = True, ce_fresh = False\<rparr>),
                    (2, \<lparr>ce_coins = coin_example 4, ce_dirty = True, ce_fresh = True\<rparr>)],
     cacheNullifiers := [(11, \<lparr>ne_entered = True, ne_dirty = True\<rparr>)],
     cacheSidechains := [(7, \<lparr>me_content = sc_example\<lparr>balance := 4\<rparr>, me_flag = DIRTY\<rparr>)],
     cacheSidechainEvents := [(50, \<lparr>me_content = events_null, me_flag = FRESH\<rparr>)],
     cacheCswNullifiers := [((7, [3]), IM_FRESH)]\<rparr>"

lemma example_pruned [simp]: "\<not> IsPruned (coin_example (numeral n))" "IsPruned ((coin_example i)\<lparr>vout := []\<rparr>)"
  by (simp_all add: IsPruned_def coin_example_def txout_IsNull_def)

lemma example_clean [simp]: "clean_coins (coin_example (numeral n))"
  by (simp add: clean_coins_def canonical_def coin_example_def txout_IsNull_def)


end
