(* ===== verification/Ledger.thy ===== *)
theory Ledger
  imports ViewFlush
begin

text \<open>
  The abstract chain state \<open>Ledger\<close> that a stack of caches stands for, and what the
  primitive modifications of a cache do to it. An event record that is not stored
  counts as two empty sets, and a spent coin record as a missing one. \<open>good\<close> adds to the
  invariant of the stack what the code relies on in the event records: no stored record
  is empty, and an erased entry that can be written again has no leftover content.
\<close>

section \<open>The abstract state\<close>

record Ledger =
  l_coins :: "uint256 \<rightharpoonup> CCoins"
  l_sc :: "uint256 \<rightharpoonup> CSidechain"
  l_ceasing :: "int \<Rightarrow> uint256 set"
  l_maturing :: "int \<Rightarrow> uint256 set"
  l_anchors :: "uint256 \<rightharpoonup> ZCIncrementalMerkleTree"
  l_nf :: "uint256 \<Rightarrow> bool"
  l_csw :: "cswkey \<Rightarrow> bool"
  l_best :: uint256
  l_bestAnchor :: uint256

definition ev_sets :: "CSidechainEvents option \<Rightarrow> CSidechainEvents" where
  "ev_sets r = (case r of None \<Rightarrow> events_null | Some x \<Rightarrow> x)"

definition ledger_of :: "CCoinsView \<Rightarrow> Ledger" where
  "ledger_of w = \<lparr>l_coins = (\<lambda>k. normC (coinsOf w k)), l_sc = scOf w,
     l_ceasing = (\<lambda>h. ceasingScs (ev_sets (evOf w h))), l_maturing = (\<lambda>h. maturingScs (ev_sets (evOf w h))),
     l_anchors = anchorOf w, l_nf = nfOf w, l_csw = cswOf w, l_best = bestOf w, l_bestAnchor = bestAnchorOf w\<rparr>"

abbreviation ledger :: "CCoinsViewCache \<Rightarrow> Ledger" where "ledger v \<equiv> ledger_of (vw v)"

lemma ledger_sel [simp]:
  "l_coins (ledger_of w) = (\<lambda>k. normC (coinsOf w k))" "l_sc (ledger_of w) = scOf w"
  "l_ceasing (ledger_of w) = (\<lambda>h. ceasingScs (ev_sets (evOf w h)))"
  "l_maturing (ledger_of w) = (\<lambda>h. maturingScs (ev_sets (evOf w h)))"
  "l_anchors (ledger_of w) = anchorOf w" "l_nf (ledger_of w) = nfOf w" "l_csw (ledger_of w) = cswOf w"
  "l_best (ledger_of w) = bestOf w" "l_bestAnchor (ledger_of w) = bestAnchorOf w"
  by (simp_all add: ledger_of_def)

lemma ledger_same_obs: "same_obs v w \<Longrightarrow> ledger_of v = ledger_of w"
  by (simp add: ledger_of_def same_obs_def)

lemma ledger_refines: "refines_view v w \<Longrightarrow> ledger_of w = ledger_of v"
  by (simp add: refines_view_def ledger_same_obs)

lemma ledger_same_chain: "same_chain v w \<Longrightarrow> ledger_of v = ledger_of w"
  by (simp add: same_chain_def ledger_of_def)

section \<open>Entries of the top cache\<close>

definition sc_entry :: "CCoinsViewCache \<Rightarrow> uint256 \<Rightarrow> CSidechainsCacheEntry option" where
  "sc_entry v k = map_of (cacheSidechains (fst v)) k"

definition ev_entry :: "CCoinsViewCache \<Rightarrow> int \<Rightarrow> CSidechainEventsCacheEntry option" where
  "ev_entry v h = map_of (cacheSidechainEvents (fst v)) h"

definition no_erased :: "CCoinsViewCache \<Rightarrow> bool" where
  "no_erased v \<longleftrightarrow> (\<forall>k e. sc_entry v k = Some e \<longrightarrow> me_flag e \<noteq> ERASED)"

text \<open>\<open>n\<close> is the height of the block at work: it reads and writes the events of heights from \<open>n\<close> on.\<close>

definition good :: "(uint256 \<Rightarrow> ZCIncrementalMerkleTree) \<Rightarrow> int \<Rightarrow> CCoinsViewCache \<Rightarrow> bool" where
  "good T n v \<longleftrightarrow> wf_view T (vw v)
     \<and> (\<forall>h x. evOf (vw v) h = Some x \<longrightarrow> \<not> events_IsNull x \<and> sidechainEventsVersion x = 0)
     \<and> (\<forall>h e. n \<le> h \<longrightarrow> ev_entry v h = Some e \<longrightarrow> me_flag e = ERASED \<longrightarrow> me_content e = events_null)"

lemma goodD:
  assumes "good T n v"
  shows "wf_view T (vw v)" "evOf (vw v) h = Some x \<Longrightarrow> \<not> events_IsNull x"
    "evOf (vw v) h = Some x \<Longrightarrow> sidechainEventsVersion x = 0"
    "n \<le> h \<Longrightarrow> ev_entry v h = Some e \<Longrightarrow> me_flag e = ERASED \<Longrightarrow> me_content e = events_null"
  using assms by (simp_all add: good_def)

lemma good_mono: "good T m v \<Longrightarrow> m \<le> n \<Longrightarrow> good T n v"
  by (simp add: good_def) (meson order_trans)

lemma mut_ok_change:
  assumes "mut_ok d x h e" "d \<Longrightarrow> h"
    and "me_flag e' = DIRTY \<or> me_flag e' = ERASED \<or> me_flag e' = FRESH \<and> me_flag e = FRESH"
  shows "mut_ok d x h e'"
  using assms by (auto simp: mut_ok_def split: Flags.splits)

lemma isDB_holds: "isDB b \<Longrightarrow> holdsS b k" "isDB b \<Longrightarrow> holdsE b h" "isDB b \<Longrightarrow> holdsX b x" "isDB b \<Longrightarrow> holdsC b k"
  by (cases b; simp add: isDB_def)+

section \<open>Writing a sidechain entry\<close>

lemma put_sidechain_obs:
  "scOf (vw (put_sidechain v k e)) = (scOf (vw v))(k := me_live e)"
  "evOf (vw (put_sidechain v k e)) = evOf (vw v)" "ev_entry (put_sidechain v k e) = ev_entry v"
  "sc_entry (put_sidechain v k e) = (sc_entry v)(k \<mapsto> e)"
  by (cases v; auto simp: put_sidechain_def sc_entry_def ev_entry_def fun_eq_iff)+

lemma put_sidechain_ledger: "ledger (put_sidechain v k e) = (ledger v)\<lparr>l_sc := (scOf (vw v))(k := me_live e)\<rparr>"
  unfolding ledger_of_def put_sidechain_obs by (cases v) (simp add: put_sidechain_def fun_eq_iff)

lemma put_sidechain_wf:
  assumes wf: "wf_view T (CacheView c b)" and ok: "mut_ok (isDB b) (scOf b k) (holdsS b k) e"
  shows "wf_view T (vw (put_sidechain (c, b) k e))"
  using assms by (simp add: put_sidechain_def wf_cache_def del: split_paired_All)

lemma put_sidechain_good:
  assumes g: "good T n v" and e: "sc_entry v k = Some e"
    and f: "me_flag e' = DIRTY \<or> me_flag e' = ERASED \<or> me_flag e' = FRESH \<and> me_flag e = FRESH"
  shows "good T n (put_sidechain v k e')"
proof -
  obtain c b where v: "v = (c, b)" by (cases v)
  have wf: "wf_view T (CacheView c b)" using goodD(1) [OF g] v by simp
  then have "mut_ok (isDB b) (scOf b k) (holdsS b k) e"
    using wf_cacheD(10) [of T c b k e] e v by (simp add: sc_entry_def)
  then have "mut_ok (isDB b) (scOf b k) (holdsS b k) e'" using isDB_holds(1) f by (rule mut_ok_change)
  then have "wf_view T (vw (put_sidechain v k e'))" using put_sidechain_wf [OF wf] v by simp
  then show ?thesis using g unfolding good_def put_sidechain_obs by blast
qed

section \<open>Checking for a sidechain and modifying it\<close>

text \<open>
  \<open>HaveSidechain\<close>, then \<open>ModifySidechain\<close>, then an assignment through the iterator: the way the code
  changes an existing sidechain.
\<close>

definition with_sidechain ::
  "CCoinsViewCache \<Rightarrow> uint256 \<Rightarrow> (CSidechainsCacheEntry \<Rightarrow> CSidechainsCacheEntry result) \<Rightarrow> CCoinsViewCache result" where
  "with_sidechain v scId f =
     (case HaveSidechain v scId of (v1, have_it) \<Rightarrow>
        if \<not> have_it then Inl RetFalse
        else (case ModifySidechain v1 scId of (v2, e) \<Rightarrow> bindR (f e) (\<lambda>e'. Inr (put_sidechain v2 scId e'))))"

lemma HaveSidechain_spec:
  assumes "HaveSidechain v k = (v', r)"
  shows "r = (scOf (vw v) k \<noteq> None)" "refines_view (vw v) (vw v')" "ev_entry v' = ev_entry v"
    "r \<Longrightarrow> \<exists>e. sc_entry v' k = Some e \<and> me_flag e \<noteq> ERASED \<and> scOf (vw v) k = Some (me_content e)"
    "j \<noteq> k \<Longrightarrow> sc_entry v' j = sc_entry v j" "\<not> r \<Longrightarrow> sc_entry v' k = sc_entry v k"
proof -
  obtain c b where v: "v = (c, b)" by (cases v)
  have G: "GetSidechain (CacheView c b) k = (vw v', Option.bind (snd (FetchSidechains v k)) me_live)"
    "r = (Option.bind (snd (FetchSidechains v k)) me_live \<noteq> None)" "v' = fst (FetchSidechains v k)"
    using assms by (auto simp: HaveSidechain_def FetchSidechains_def v me_live_def split: prod.splits option.splits)
  note S = sc_lookup.get_eq [OF G(1)]
  then show "r = (scOf (vw v) k \<noteq> None)" "refines_view (vw v) (vw v')" using G(2) v by simp_all
  show "ev_entry v' = ev_entry v" "j \<noteq> k \<Longrightarrow> sc_entry v' j = sc_entry v j" "\<not> r \<Longrightarrow> sc_entry v' k = sc_entry v k"
    using G(2,3) by (auto simp: FetchSidechains_def v ev_entry_def sc_entry_def fetch_sidechains_def fetch_mutable_def
        me_live_def fun_eq_iff Let_def split: option.splits)
  show "\<exists>e. sc_entry v' k = Some e \<and> me_flag e \<noteq> ERASED \<and> scOf (vw v) k = Some (me_content e)" if r
    using that G(2,3) S by (auto simp: FetchSidechains_def v sc_entry_def fetch_sidechains_def fetch_mutable_def
        me_live_def Let_def split: option.splits if_splits)
qed

lemma with_sidechain_None:
  assumes "scOf (vw v) k = None" shows "with_sidechain v k f = Inl RetFalse"
  using assms HaveSidechain_spec(1) [of v k] by (cases "HaveSidechain v k") (simp add: with_sidechain_def)

lemma ModifySidechain_hit:
  assumes "sc_entry v k = Some e" shows "ModifySidechain v k = (v, e)"
  using assms by (cases v) (simp add: ModifySidechain_def sc_entry_def modify_mutable_def Let_def split: prod.splits)

lemma with_sidechain_Some:
  assumes "scOf (vw v) k = Some sc"
  obtains e v1 where "with_sidechain v k f = bindR (f e) (\<lambda>e'. Inr (put_sidechain v1 k e'))"
    "me_content e = sc" "me_flag e \<noteq> ERASED" "refines_view (vw v) (vw v1)" "sc_entry v1 k = Some e"
    "ev_entry v1 = ev_entry v" "\<And>j. j \<noteq> k \<Longrightarrow> sc_entry v1 j = sc_entry v j"
proof -
  obtain v1 r where h: "HaveSidechain v k = (v1, r)" by (cases "HaveSidechain v k")
  note H = HaveSidechain_spec [OF h]
  have r: r using H(1) assms by simp
  obtain e where e: "sc_entry v1 k = Some e" "me_flag e \<noteq> ERASED" "me_content e = sc" using H(4) [OF r] assms by auto
  show thesis
    by (rule that [OF _ e(3,2) H(2) e(1) H(3,5)])
      (simp_all add: with_sidechain_def h r ModifySidechain_hit [OF e(1)])
qed

section \<open>Adding a sidechain\<close>

lemma no_erased_miss: "no_erased v \<Longrightarrow> scOf (vw v) k = None \<Longrightarrow> sc_entry v k = None"
  by (cases v; cases "sc_entry v k") (auto simp: no_erased_def sc_entry_def me_live_def)

lemma add_sidechain:
  assumes g: "good T n v" and ne: "no_erased v" and none: "scOf (vw v) k = None"
  obtains v1 v2 where "HaveSidechain v k = (v1, False)"
    "ModifySidechain v1 k = (v2, \<lparr>me_content = CSidechain_null, me_flag = FRESH\<rparr>)"
    "\<And>sc. good T n (put_sidechain v2 k \<lparr>me_content = sc, me_flag = FRESH\<rparr>)"
    "\<And>sc. no_erased (put_sidechain v2 k \<lparr>me_content = sc, me_flag = FRESH\<rparr>)"
    "\<And>sc. ledger (put_sidechain v2 k \<lparr>me_content = sc, me_flag = FRESH\<rparr>) = (ledger v)\<lparr>l_sc := (scOf (vw v))(k \<mapsto> sc)\<rparr>"
proof -
  obtain v1 r where h: "HaveSidechain v k = (v1, r)" by (cases "HaveSidechain v k")
  note H = HaveSidechain_spec [OF h]
  have r: "\<not> r" using H(1) none by simp
  obtain c1 b1 where v1: "v1 = (c1, b1)" by (cases v1)
  have miss: "map_of (cacheSidechains c1) k = None"
    using H(6) [OF r] no_erased_miss [OF ne none] v1 by (simp add: sc_entry_def)
  have obs1: "same_obs (vw v1) (vw v)" using H(2) by (simp add: refines_view_def)
  then have "scOf (CacheView c1 b1) k = None" using none v1 by (simp add: same_obs_def)
  then have none1: "scOf b1 k = None" using miss by simp
  obtain b2 where b2: "GetSidechain b1 k = (b2, None)" "refines_view b1 b2"
    using sc_lookup.get_eq [of b1 k] none1 by (cases "GetSidechain b1 k") auto
  define v2 where "v2 = (c1\<lparr>cacheSidechains := AList.update k \<lparr>me_content = CSidechain_null, me_flag = FRESH\<rparr>
      (cacheSidechains c1)\<rparr>, b2)"
  have m: "ModifySidechain v1 k = (v2, \<lparr>me_content = CSidechain_null, me_flag = FRESH\<rparr>)"
    using b2(1) miss by (simp add: ModifySidechain_def v1 v2_def modify_mutable_def Let_def)
  let ?v = "(c1, b2)" and ?p = "\<lambda>sc. put_sidechain v2 k \<lparr>me_content = sc, me_flag = FRESH\<rparr>"
  have p: "fst (?p sc) = c1\<lparr>cacheSidechains := cacheSidechains (fst (?p sc))\<rparr>" "snd (?p sc) = b2"
    "map_of (cacheSidechains (fst (?p sc))) = (map_of (cacheSidechains c1))(k \<mapsto> \<lparr>me_content = sc, me_flag = FRESH\<rparr>)"
    "distinct_keys (cacheSidechains c1) \<Longrightarrow> distinct_keys (cacheSidechains (fst (?p sc)))" for sc
    by (simp_all add: put_sidechain_def v2_def)
  have rv: "refines_view (vw v) (CacheView c1 b2)"
    using refines_view_trans [OF H(2)] refines_view_base [OF b2(2)] v1 by simp
  then have L: "ledger_of (CacheView c1 b2) = ledger v" by (rule ledger_refines)
  have so: "evOf (CacheView c1 b2) = evOf (vw v)" "scOf (CacheView c1 b2) = scOf (vw v)" using rv by (simp_all add: refines_view_def same_obs_def)
  have obs: "scOf (vw (?p sc)) = (scOf (vw v))(k \<mapsto> sc)" "evOf (vw (?p sc)) = evOf (vw v)" "ev_entry (?p sc) = ev_entry v" for sc
    unfolding so [symmetric] H(3) [symmetric] by (auto simp: put_sidechain_def v2_def v1 ev_entry_def me_live_def fun_eq_iff)
  have led: "ledger (?p sc) = (ledger v)\<lparr>l_sc := (scOf (vw v))(k \<mapsto> sc)\<rparr>" for sc
    unfolding L [symmetric] so(2) [symmetric] by (simp add: ledger_of_def put_sidechain_def v2_def me_live_def fun_eq_iff)
  show thesis
  proof (rule that [OF _ m _ _ led])
    fix sc
    have wf: "wf_view T (CacheView c1 b2)" using rv goodD(1) [OF g] by (simp add: refines_view_def)
    have "scOf b2 k = None" using b2(2) none1 by (simp add: refines_view_def same_obs_def)
    then have "wf_view T (vw (put_sidechain (c1, b2) k \<lparr>me_content = sc, me_flag = FRESH\<rparr>))"
      by (intro put_sidechain_wf [OF wf]) (simp add: mut_ok_def)
    then have "wf_view T (vw (?p sc))" by (simp add: put_sidechain_def v2_def wf_cache_def del: split_paired_All)
    then show "good T n (?p sc)" using g unfolding good_def obs by blast
    show "no_erased (?p sc)" using ne H(5) by (auto simp: no_erased_def sc_entry_def p(3)) (metis fst_conv sc_entry_def v1)
  qed (use h r in simp)
qed

section \<open>Sidechain events\<close>

text \<open>
  The four ways the code changes an event record through the iterator that \<open>ModifySidechainEvents\<close>
  returned: adding an identifier leaves a \<open>FRESH\<close> entry \<open>FRESH\<close> and makes any other \<open>DIRTY\<close>;
  removing one makes the entry \<open>DIRTY\<close>, or \<open>ERASED\<close> when nothing is left in it.
\<close>

definition add_event :: "(CSidechainEvents \<Rightarrow> CSidechainEvents) \<Rightarrow> CSidechainEventsCacheEntry \<Rightarrow> CSidechainEventsCacheEntry" where
  "add_event f e = (if me_flag e = FRESH then e\<lparr>me_content := f (me_content e)\<rparr>
     else e\<lparr>me_content := f (me_content e), me_flag := DIRTY\<rparr>)"

definition del_event :: "(CSidechainEvents \<Rightarrow> CSidechainEvents) \<Rightarrow> CSidechainEventsCacheEntry \<Rightarrow> CSidechainEventsCacheEntry" where
  "del_event f e = (if \<not> events_IsNull (f (me_content e)) then e\<lparr>me_content := f (me_content e), me_flag := DIRTY\<rparr>
     else e\<lparr>me_content := f (me_content e), me_flag := ERASED\<rparr>)"

definition on_events :: "CCoinsViewCache \<Rightarrow> int \<Rightarrow> (CSidechainEventsCacheEntry \<Rightarrow> CSidechainEventsCacheEntry) \<Rightarrow> CCoinsViewCache" where
  "on_events v h f = (case ModifySidechainEvents v h of (v', e) \<Rightarrow> put_events v' h (f e))"

abbreviation ins_maturing :: "uint256 \<Rightarrow> CSidechainEvents \<Rightarrow> CSidechainEvents" where
  "ins_maturing k x \<equiv> x\<lparr>maturingScs := insert k (maturingScs x)\<rparr>"

abbreviation ins_ceasing :: "uint256 \<Rightarrow> CSidechainEvents \<Rightarrow> CSidechainEvents" where
  "ins_ceasing k x \<equiv> x\<lparr>ceasingScs := insert k (ceasingScs x)\<rparr>"

abbreviation rem_maturing :: "uint256 \<Rightarrow> CSidechainEvents \<Rightarrow> CSidechainEvents" where
  "rem_maturing k x \<equiv> x\<lparr>maturingScs := maturingScs x - {k}\<rparr>"

abbreviation rem_ceasing :: "uint256 \<Rightarrow> CSidechainEvents \<Rightarrow> CSidechainEvents" where
  "rem_ceasing k x \<equiv> x\<lparr>ceasingScs := ceasingScs x - {k}\<rparr>"

lemma put_events_obs:
  "evOf (vw (put_events v h e)) = (evOf (vw v))(h := me_live e)" "scOf (vw (put_events v h e)) = scOf (vw v)"
  "sc_entry (put_events v h e) = sc_entry v" "ev_entry (put_events v h e) = (ev_entry v)(h \<mapsto> e)"
  by (cases v; auto simp: put_events_def sc_entry_def ev_entry_def fun_eq_iff)+

lemma put_events_ledger:
  "ledger (put_events v h e) = (ledger v)\<lparr>l_ceasing := (l_ceasing (ledger v))(h := ceasingScs (ev_sets (me_live e))),
     l_maturing := (l_maturing (ledger v))(h := maturingScs (ev_sets (me_live e)))\<rparr>"
  unfolding ledger_of_def put_events_obs by (cases v) (auto simp: put_events_def fun_eq_iff)

text \<open>What \<open>ModifySidechainEvents\<close> hands out: the record, or an empty one.\<close>

lemma ModifySidechainEvents_spec:
  assumes g: "good T n v" and h: "n \<le> h" and m: "ModifySidechainEvents v h = (v', e)"
  shows "me_content e = ev_sets (evOf (vw v) h)" "sc_entry v' = sc_entry v"
    "me_flag e' = DIRTY \<or> me_flag e' = ERASED \<or> me_flag e' = FRESH \<and> me_flag e = FRESH \<Longrightarrow> wf_view T (vw (put_events v' h e'))"
    "evOf (vw (put_events v' h e')) = (evOf (vw v))(h := me_live e')" "scOf (vw (put_events v' h e')) = scOf (vw v)"
    "ledger (put_events v' h e') = (ledger v)\<lparr>l_ceasing := (l_ceasing (ledger v))(h := ceasingScs (ev_sets (me_live e'))),
       l_maturing := (l_maturing (ledger v))(h := maturingScs (ev_sets (me_live e')))\<rparr>"
    "ev_entry (put_events v' h e') = (ev_entry v)(h \<mapsto> e')"
proof -
  obtain c b where v: "v = (c, b)" by (cases v)
  obtain b1 r where b1: "GetSidechainEvents b h = (b1, r)" by (cases "GetSidechainEvents b h")
  have R: "r = evOf b h" "refines_view b b1" "r \<noteq> None \<Longrightarrow> holdsE b1 h"
    using GetSidechainEvents_pure [of b h] b1 by auto
  define b' where "b' = (if map_of (cacheSidechainEvents c) h = None then b1 else b)"
  have rb: "refines_view b b'" using R(2) by (simp add: b'_def)
  have rv: "refines_view (vw v) (CacheView c b')" using refines_view_base [OF rb] v by simp
  have wf: "wf_view T (CacheView c b')" using rv goodD(1) [OF g] by (simp add: refines_view_def)
  have so: "evOf b' = evOf b" "scOf (CacheView c b') = scOf (vw v)" "evOf (CacheView c b') = evOf (vw v)"
    using rb rv by (simp_all add: refines_view_def same_obs_def)
  have E: "e = (case map_of (cacheSidechainEvents c) h of Some e \<Rightarrow> e
      | None \<Rightarrow> (case r of Some x \<Rightarrow> \<lparr>me_content = x, me_flag = DEFAULT\<rparr> | None \<Rightarrow> \<lparr>me_content = events_null, me_flag = FRESH\<rparr>))"
    "v' = (c\<lparr>cacheSidechainEvents := cacheSidechainEvents (fst v')\<rparr>, b')"
    "map_of (cacheSidechainEvents (fst v')) = (map_of (cacheSidechainEvents c))(h \<mapsto> e)"
    "distinct_keys (cacheSidechainEvents c) \<Longrightarrow> distinct_keys (cacheSidechainEvents (fst v'))"
    using m b1 by (auto simp: ModifySidechainEvents_def v modify_mutable_def b'_def Let_def map_upd_triv split: option.splits prod.splits)
  show "me_content e = ev_sets (evOf (vw v) h)"
  proof (cases "map_of (cacheSidechainEvents c) h")
    case (Some x)
    then have x: "e = x" "ev_entry v h = Some x" using E(1) v by (simp_all add: ev_entry_def)
    show ?thesis
    proof (cases "me_flag x = ERASED")
      case True
      then have "me_content x = events_null" using goodD(4) [OF g h x(2)] by blast
      then show ?thesis using Some True x(1) v by (simp add: me_live_def ev_sets_def)
    qed (use Some x(1) v in \<open>simp add: me_live_def ev_sets_def\<close>)
  next
    case None
    then show ?thesis using E(1) R(1) v by (cases "evOf b h") (simp_all add: ev_sets_def)
  qed
  show "sc_entry v' = sc_entry v" by (subst E(2)) (simp add: sc_entry_def fun_eq_iff v)
  have pv: "vw (put_events v' h e') = CacheView (c\<lparr>cacheSidechainEvents := AList.update h e' (cacheSidechainEvents (fst v'))\<rparr>) b'" for e'
    by (subst E(2)) (simp add: put_events_def)
  show "evOf (vw (put_events v' h e')) = (evOf (vw v))(h := me_live e')" "scOf (vw (put_events v' h e')) = scOf (vw v)"
    unfolding pv so(2,3) [symmetric] by (auto simp: fun_eq_iff E(3))
  show "ev_entry (put_events v' h e') = (ev_entry v)(h \<mapsto> e')"
    unfolding put_events_obs using E(3) by (auto simp: ev_entry_def v fun_eq_iff)
  show "ledger (put_events v' h e') = (ledger v)\<lparr>l_ceasing := (l_ceasing (ledger v))(h := ceasingScs (ev_sets (me_live e'))),
       l_maturing := (l_maturing (ledger v))(h := maturingScs (ev_sets (me_live e')))\<rparr>"
    unfolding pv ledger_refines [OF rv, symmetric] by (auto simp: ledger_of_def fun_eq_iff E(3))
  show "wf_view T (vw (put_events v' h e'))"
    if f: "me_flag e' = DIRTY \<or> me_flag e' = ERASED \<or> me_flag e' = FRESH \<and> me_flag e = FRESH"
  proof -
    have "mut_ok (isDB b') (evOf b' h) (holdsE b' h) e"
    proof (cases "map_of (cacheSidechainEvents c) h")
      case (Some x)
      then show ?thesis using wf_cacheD(11) [of T c b' h x] wf E(1) by simp
    next
      case None
      then show ?thesis using E(1) R(1,3) so(1) by (cases "evOf b h") (auto simp: mut_ok_def b'_def)
    qed
    then have "mut_ok (isDB b') (evOf b' h) (holdsE b' h) e'" using isDB_holds(2) f by (rule mut_ok_change)
    then show ?thesis unfolding pv using wf E(3,4) by (simp add: wf_cache_def del: split_paired_All)
  qed
qed

text \<open>Adding to and removing from the record of a height, on the abstract state.\<close>

lemma on_events_good:
  assumes g: "good T n v" and h: "n \<le> h" and e': "\<And>e. me_content e = ev_sets (evOf (vw v) h) \<Longrightarrow>
      me_content (f e) = x \<and> (me_flag (f e) = DIRTY \<or> me_flag (f e) = ERASED \<or> me_flag (f e) = FRESH \<and> me_flag e = FRESH)
      \<and> (me_flag (f e) = ERASED \<longleftrightarrow> events_IsNull x)" and x: "sidechainEventsVersion x = 0"
  shows "good T n (on_events v h f)" "sc_entry (on_events v h f) = sc_entry v"
    "ledger (on_events v h f) = (ledger v)\<lparr>l_ceasing := (l_ceasing (ledger v))(h := ceasingScs x),
       l_maturing := (l_maturing (ledger v))(h := maturingScs x)\<rparr>"
proof -
  obtain v' e where m: "ModifySidechainEvents v h = (v', e)" by (cases "ModifySidechainEvents v h")
  note M = ModifySidechainEvents_spec [OF g h m]
  have f: "me_content (f e) = x" "me_flag (f e) = DIRTY \<or> me_flag (f e) = ERASED \<or> me_flag (f e) = FRESH \<and> me_flag e = FRESH"
    "me_flag (f e) = ERASED \<longleftrightarrow> events_IsNull x" using e' [OF M(1)] by blast+
  have o: "on_events v h f = put_events v' h (f e)" by (simp add: on_events_def m)
  have null: "x = events_null" if "events_IsNull x" using that x by (simp add: events_IsNull_def events_null_def)
  have live: "ev_sets (me_live (f e)) = x" using f(1,3) null by (auto simp: me_live_def ev_sets_def)
  show "ledger (on_events v h f) = (ledger v)\<lparr>l_ceasing := (l_ceasing (ledger v))(h := ceasingScs x),
       l_maturing := (l_maturing (ledger v))(h := maturingScs x)\<rparr>" unfolding o M(6) live ..
  show "sc_entry (on_events v h f) = sc_entry v" unfolding o put_events_obs by (rule M(2))
  have "\<not> events_IsNull y \<and> sidechainEventsVersion y = 0" if "((evOf (vw v))(h := me_live (f e))) j = Some y" for j y
  proof (cases "j = h")
    case False
    then show ?thesis using that goodD(2,3) [OF g] by auto
  qed (use that f(1,3) x in \<open>auto simp: me_live_def split: if_splits\<close>)
  moreover have "me_content y = events_null"
    if "n \<le> j" "((ev_entry v)(h \<mapsto> f e)) j = Some y" "me_flag y = ERASED" for j y
  proof (cases "j = h")
    case False
    then show ?thesis using that goodD(4) [OF g] by auto
  qed (use that f(1,3) null in auto)
  ultimately show "good T n (on_events v h f)" unfolding o good_def M(4) M(7) using M(3) [OF f(2)] by blast
qed

lemma events_IsNull_ins [simp]: "\<not> events_IsNull (ins_maturing k x)" "\<not> events_IsNull (ins_ceasing k x)"
  by (simp_all add: events_IsNull_def)

lemma ev_sets_version: "good T n v \<Longrightarrow> sidechainEventsVersion (ev_sets (evOf (vw v) h)) = 0"
  using goodD(3) [of T n v h] by (cases "evOf (vw v) h") (simp_all add: ev_sets_def events_null_def)

lemma add_event_good:
  assumes g: "good T n v" and h: "n \<le> h" and f: "\<And>x. \<not> events_IsNull (f x)" "\<And>x. sidechainEventsVersion (f x) = sidechainEventsVersion x"
  shows "good T n (on_events v h (add_event f))" "sc_entry (on_events v h (add_event f)) = sc_entry v"
    "ledger (on_events v h (add_event f)) = (ledger v)\<lparr>l_ceasing := (l_ceasing (ledger v))(h := ceasingScs (f (ev_sets (evOf (vw v) h)))),
       l_maturing := (l_maturing (ledger v))(h := maturingScs (f (ev_sets (evOf (vw v) h))))\<rparr>"
proof -
  let ?x = "f (ev_sets (evOf (vw v) h))"
  have P: "me_content (add_event f e) = ?x \<and> (me_flag (add_event f e) = DIRTY \<or> me_flag (add_event f e) = ERASED
      \<or> me_flag (add_event f e) = FRESH \<and> me_flag e = FRESH) \<and> (me_flag (add_event f e) = ERASED \<longleftrightarrow> events_IsNull ?x)"
    if "me_content e = ev_sets (evOf (vw v) h)" for e
    using that f by (simp add: add_event_def)
  show "good T n (on_events v h (add_event f))" "sc_entry (on_events v h (add_event f)) = sc_entry v"
    "ledger (on_events v h (add_event f)) = (ledger v)\<lparr>l_ceasing := (l_ceasing (ledger v))(h := ceasingScs ?x),
       l_maturing := (l_maturing (ledger v))(h := maturingScs ?x)\<rparr>"
    using on_events_good [OF g h P] ev_sets_version [OF g] f by simp_all
qed

lemma del_event_good:
  assumes g: "good T n v" and h: "n \<le> h" and f: "\<And>x. sidechainEventsVersion (f x) = sidechainEventsVersion x"
  shows "good T n (on_events v h (del_event f))" "sc_entry (on_events v h (del_event f)) = sc_entry v"
    "ledger (on_events v h (del_event f)) = (ledger v)\<lparr>l_ceasing := (l_ceasing (ledger v))(h := ceasingScs (f (ev_sets (evOf (vw v) h)))),
       l_maturing := (l_maturing (ledger v))(h := maturingScs (f (ev_sets (evOf (vw v) h))))\<rparr>"
proof -
  let ?x = "f (ev_sets (evOf (vw v) h))"
  have P: "me_content (del_event f e) = ?x \<and> (me_flag (del_event f e) = DIRTY \<or> me_flag (del_event f e) = ERASED
      \<or> me_flag (del_event f e) = FRESH \<and> me_flag e = FRESH) \<and> (me_flag (del_event f e) = ERASED \<longleftrightarrow> events_IsNull ?x)"
    if "me_content e = ev_sets (evOf (vw v) h)" for e
    using that f by (simp add: del_event_def)
  show "good T n (on_events v h (del_event f))" "sc_entry (on_events v h (del_event f)) = sc_entry v"
    "ledger (on_events v h (del_event f)) = (ledger v)\<lparr>l_ceasing := (l_ceasing (ledger v))(h := ceasingScs ?x),
       l_maturing := (l_maturing (ledger v))(h := maturingScs ?x)\<rparr>"
    using on_events_good [OF g h P] ev_sets_version [OF g] f by simp_all
qed

lemma HaveSidechainEvents_spec:
  assumes "HaveSidechainEvents v h = (v', r)"
  shows "r = (evOf (vw v) h \<noteq> None)" "refines_view (vw v) (vw v')" "sc_entry v' = sc_entry v"
    "j \<noteq> h \<Longrightarrow> ev_entry v' j = ev_entry v j" "ev_entry v' h = ev_entry v h \<or> (\<exists>x. ev_entry v' h = Some \<lparr>me_content = x, me_flag = DEFAULT\<rparr>)"
proof -
  obtain c b where v: "v = (c, b)" by (cases v)
  have G: "GetSidechainEvents (CacheView c b) h = (vw v', Option.bind (snd (FetchSidechainEvents v h)) me_live)"
    "r = (Option.bind (snd (FetchSidechainEvents v h)) me_live \<noteq> None)" "v' = fst (FetchSidechainEvents v h)"
    using assms by (auto simp: HaveSidechainEvents_def FetchSidechainEvents_def v me_live_def split: prod.splits option.splits)
  note S = ev_lookup.get_eq [OF G(1)]
  then show "r = (evOf (vw v) h \<noteq> None)" "refines_view (vw v) (vw v')" using G(2) v by simp_all
  show "sc_entry v' = sc_entry v" "j \<noteq> h \<Longrightarrow> ev_entry v' j = ev_entry v j"
    "ev_entry v' h = ev_entry v h \<or> (\<exists>x. ev_entry v' h = Some \<lparr>me_content = x, me_flag = DEFAULT\<rparr>)"
    using G(3) by (auto simp: FetchSidechainEvents_def v ev_entry_def sc_entry_def fetch_events_def fetch_mutable_def
        fun_eq_iff Let_def split: option.splits)
qed

end
