(* ===== verification/ScUpdate.thy ===== *)
theory ScUpdate
  imports Ledger
begin

text \<open>
  What the cross-chain outputs and inputs of a transaction do to the sidechains:
  \<open>CCoinsViewCache::UpdateSidechain(tx)\<close>, \<open>RevertTxOutputs\<close> and \<open>DecrementImmatureAmount\<close>
  of \<open>coins.cpp\<close>, one definition per loop of the source. The specification acts on
  the abstract maps; the code refines it, and reverting the transactions of a block
  restores the sidechains, the scheduled ceasings and the scheduled maturings. Amounts are
  unbounded integers here: the bounds that keep them in 64 bits are a property of the
  checks on transactions. When an operation fails the view it worked on is thrown away
  by every caller, so a failed result carries no state.
\<close>

section \<open>The operations\<close>

definition getInitScCoinsMaturity :: "CChainParams \<Rightarrow> int" where
  "getInitScCoinsMaturity pr =
     (if NetworkIDString pr = ''regtest'' then
        (case arg_sccoinsmaturity pr of None \<Rightarrow> ScCoinsMaturity pr | Some v \<Rightarrow> v)
      else ScCoinsMaturity pr)"

definition getScCoinsMaturity :: "CChainParams \<Rightarrow> int" where
  "getScCoinsMaturity pr = getInitScCoinsMaturity pr"

text \<open>\<open>mImmatureAmounts[maturityHeight] += amt\<close>: a missing amount counts as zero.\<close>

definition add_immature :: "CAmount \<Rightarrow> int \<Rightarrow> CSidechain \<Rightarrow> CSidechain" where
  "add_immature amt mh sc = sc\<lparr>mImmatureAmounts := (mImmatureAmounts sc)(mh \<mapsto>
     (case mImmatureAmounts sc mh of None \<Rightarrow> 0 | Some x \<Rightarrow> x) + amt)\<rparr>"

definition UpdateSidechain_csw :: "CCoinsViewCache \<Rightarrow> CTxCeasedSidechainWithdrawalInput \<Rightarrow> CCoinsViewCache result" where
  "UpdateSidechain_csw v csw =
     with_sidechain v (csw_scId csw) (\<lambda>e.
       let sc = (me_content e)\<lparr>balance := balance (me_content e) - csw_nValue csw\<rparr>
       in if \<not> balance sc \<ge> 0 then Inl Assert else Inr (e\<lparr>me_content := sc, me_flag := DIRTY\<rparr>))"

definition created_sidechain :: "CChainParams \<Rightarrow> uint256 \<Rightarrow> int \<Rightarrow> int \<Rightarrow> CTxScCreationOut \<Rightarrow> CSidechain \<Rightarrow> CSidechain result" where
  "created_sidechain pr txHash blockHeight maturityHeight cr sc =
     InitScFees pr (sc\<lparr>
       creationBlockHeight := blockHeight,
       creationTxHash := txHash,
       lastTopQualityCertReferencedEpoch := EPOCH_NULL,
       lastTopQualityCertHash := 0,
       lastTopQualityCertQuality := QUALITY_NULL,
       lastTopQualityCertBwtAmount := 0,
       lastTopQualityCertView := (lastTopQualityCertView sc)\<lparr>
         view_forwardTransferScFee := cr_forwardTransferScFee cr, view_mbtrScFee := cr_mbtrScFee cr\<rparr>,
       fixedParams := cr_params cr,
       mImmatureAmounts := (mImmatureAmounts sc)(maturityHeight \<mapsto> cr_nValue cr)\<rparr>)"

definition UpdateSidechain_creation ::
  "CChainParams \<Rightarrow> uint256 \<Rightarrow> int \<Rightarrow> int \<Rightarrow> CCoinsViewCache \<Rightarrow> CTxScCreationOut \<Rightarrow> CCoinsViewCache result" where
  "UpdateSidechain_creation pr txHash blockHeight maturityHeight v cr =
     (let scId = generatedScId cr in
      case HaveSidechain v scId of (v1, have_it) \<Rightarrow>
        if have_it then Inl RetFalse
        else case ModifySidechain v1 scId of (v2, e) \<Rightarrow>
          bindR (created_sidechain pr txHash blockHeight maturityHeight cr (me_content e)) (\<lambda>sc.
            let v3 = put_sidechain v2 scId (e\<lparr>me_content := sc, me_flag := FRESH\<rparr>);
                v4 = on_events v3 maturityHeight (add_event (ins_maturing scId));
                nextCeasingHeight = GetScheduledCeasingHeight sc
            in Inr (on_events v4 nextCeasingHeight (add_event (ins_ceasing scId)))))"

definition credit_entry :: "CAmount \<Rightarrow> int \<Rightarrow> CSidechainsCacheEntry \<Rightarrow> CSidechainsCacheEntry result" where
  "credit_entry amt mh e = Inr
     (if me_flag e \<noteq> FRESH then e\<lparr>me_content := add_immature amt mh (me_content e), me_flag := DIRTY\<rparr>
      else e\<lparr>me_content := add_immature amt mh (me_content e)\<rparr>)"

definition UpdateSidechain_ft :: "int \<Rightarrow> CCoinsViewCache \<Rightarrow> CTxForwardTransferOut \<Rightarrow> CCoinsViewCache result" where
  "UpdateSidechain_ft maturityHeight v ft =
     bindR (with_sidechain v (ft_scId ft) (credit_entry (ft_nValue ft) maturityHeight)) (\<lambda>v1.
       Inr (on_events v1 maturityHeight (add_event (ins_maturing (ft_scId ft)))))"

definition UpdateSidechain_mbtr :: "int \<Rightarrow> CCoinsViewCache \<Rightarrow> CBwtRequestOut \<Rightarrow> CCoinsViewCache result" where
  "UpdateSidechain_mbtr maturityHeight v mbtr =
     bindR (with_sidechain v (mbtr_scId mbtr) (credit_entry (scFee mbtr) maturityHeight)) (\<lambda>v1.
       Inr (on_events v1 maturityHeight (add_event (ins_maturing (mbtr_scId mbtr)))))"

definition UpdateSidechain_tx :: "CChainParams \<Rightarrow> CCoinsViewCache \<Rightarrow> CTransaction \<Rightarrow> int \<Rightarrow> CCoinsViewCache result" where
  "UpdateSidechain_tx pr v tx blockHeight =
     (let maturityHeight = blockHeight + getScCoinsMaturity pr in
      bindR (foldR UpdateSidechain_csw v (vcsw_ccin tx)) (\<lambda>v.
      bindR (foldR (UpdateSidechain_creation pr (tx_hash tx) blockHeight maturityHeight) v (vsc_ccout tx)) (\<lambda>v.
      bindR (foldR (UpdateSidechain_ft maturityHeight) v (vft_ccout tx)) (\<lambda>v.
        foldR (UpdateSidechain_mbtr maturityHeight) v (vmbtr_out tx)))))"

definition DecrementImmatureAmount :: "CAmount \<Rightarrow> int \<Rightarrow> CSidechainsCacheEntry \<Rightarrow> CSidechainsCacheEntry result" where
  "DecrementImmatureAmount amt maturityHeight e =
     (let sc = me_content e; iaMap = mImmatureAmounts sc in
      case iaMap maturityHeight of
        None \<Rightarrow> Inl RetFalse
      | Some x \<Rightarrow>
          if x < amt then Inl RetFalse
          else let iaMap' = iaMap(maturityHeight \<mapsto> x - amt);
                   iaMap'' = (if x - amt = 0 then iaMap'(maturityHeight := None) else iaMap')
               in Inr (e\<lparr>me_content := sc\<lparr>mImmatureAmounts := iaMap''\<rparr>, me_flag := DIRTY\<rparr>))"

definition RevertTxOutputs_mbtr :: "int \<Rightarrow> CCoinsViewCache \<Rightarrow> CBwtRequestOut \<Rightarrow> CCoinsViewCache result" where
  "RevertTxOutputs_mbtr maturityHeight v entry =
     bindR (with_sidechain v (mbtr_scId entry) (DecrementImmatureAmount (scFee entry) maturityHeight)) (\<lambda>v1.
       Inr (on_events v1 maturityHeight (del_event (rem_maturing (mbtr_scId entry)))))"

definition RevertTxOutputs_ft :: "int \<Rightarrow> CCoinsViewCache \<Rightarrow> CTxForwardTransferOut \<Rightarrow> CCoinsViewCache result" where
  "RevertTxOutputs_ft maturityHeight v entry =
     bindR (with_sidechain v (ft_scId entry) (DecrementImmatureAmount (ft_nValue entry) maturityHeight)) (\<lambda>v1.
       Inr (on_events v1 maturityHeight (del_event (rem_maturing (ft_scId entry)))))"

definition RevertTxOutputs_creation :: "int \<Rightarrow> CCoinsViewCache \<Rightarrow> CTxScCreationOut \<Rightarrow> CCoinsViewCache result" where
  "RevertTxOutputs_creation maturityHeight v entry =
     (let scId = generatedScId entry in
      case HaveSidechain v scId of (v1, have_it) \<Rightarrow>
        if \<not> have_it then Inl RetFalse
        else case ModifySidechain v1 scId of (v2, e) \<Rightarrow>
          let ceasingHeightToErase = GetScheduledCeasingHeight (me_content e) in
          bindR (DecrementImmatureAmount (cr_nValue entry) maturityHeight e) (\<lambda>e1.
            if balance (me_content e1) > 0 then Inl RetFalse
            else
              let v3 = put_sidechain v2 scId (e1\<lparr>me_flag := ERASED\<rparr>);
                  (v4, have_mat) = HaveSidechainEvents v3 maturityHeight;
                  v5 = (if have_mat then on_events v4 maturityHeight (del_event (rem_maturing scId)) else v4);
                  (v6, have_cease) = HaveSidechainEvents v5 ceasingHeightToErase
              in if \<not> have_cease then Inl RetFalse
                 else Inr (on_events v6 ceasingHeightToErase (del_event (rem_ceasing scId)))))"

definition RevertTxOutputs_csw :: "CCoinsViewCache \<Rightarrow> CTxCeasedSidechainWithdrawalInput \<Rightarrow> CCoinsViewCache result" where
  "RevertTxOutputs_csw v csw =
     with_sidechain v (csw_scId csw) (\<lambda>e.
       Inr (e\<lparr>me_content := (me_content e)\<lparr>balance := balance (me_content e) + csw_nValue csw\<rparr>, me_flag := DIRTY\<rparr>))"

definition RevertTxOutputs :: "CChainParams \<Rightarrow> CCoinsViewCache \<Rightarrow> CTransaction \<Rightarrow> int \<Rightarrow> CCoinsViewCache result" where
  "RevertTxOutputs pr v tx blockHeight =
     (let maturityHeight = blockHeight + getScCoinsMaturity pr in
      bindR (foldR (RevertTxOutputs_mbtr maturityHeight) v (vmbtr_out tx)) (\<lambda>v.
      bindR (foldR (RevertTxOutputs_ft maturityHeight) v (vft_ccout tx)) (\<lambda>v.
      bindR (foldR (RevertTxOutputs_creation maturityHeight) v (vsc_ccout tx)) (\<lambda>v.
        foldR RevertTxOutputs_csw v (vcsw_ccin tx)))))"

section \<open>Specification\<close>

text \<open>
  The specification works on the map of sidechains and on the sets of sidechains
  that cease at a height. The sidechains that mature at the maturity height of the block
  are the ones its transactions send to, and no more is said about them here.
\<close>

type_synonym scmap = "uint256 \<rightharpoonup> CSidechain"
type_synonym Core = "scmap \<times> (int \<Rightarrow> uint256 set)"

definition spec_sc :: "uint256 \<Rightarrow> (CSidechain \<Rightarrow> CSidechain result) \<Rightarrow> Core \<Rightarrow> Core result" where
  "spec_sc k f = (\<lambda>(S, C). case S k of None \<Rightarrow> Inl RetFalse | Some sc \<Rightarrow> bindR (f sc) (\<lambda>sc'. Inr (S(k \<mapsto> sc'), C)))"

definition spend_balance :: "CAmount \<Rightarrow> CSidechain \<Rightarrow> CSidechain result" where
  "spend_balance a sc = (if balance sc < a then Inl Assert else Inr (sc\<lparr>balance := balance sc - a\<rparr>))"

definition sub_immature :: "CAmount \<Rightarrow> int \<Rightarrow> CSidechain \<Rightarrow> CSidechain result" where
  "sub_immature a mh sc = (case mImmatureAmounts sc mh of None \<Rightarrow> Inl RetFalse
     | Some x \<Rightarrow> if x < a then Inl RetFalse
       else Inr (sc\<lparr>mImmatureAmounts := (mImmatureAmounts sc)(mh := if x = a then None else Some (x - a))\<rparr>))"

definition spec_csw :: "Core \<Rightarrow> CTxCeasedSidechainWithdrawalInput \<Rightarrow> Core result" where
  "spec_csw c csw = spec_sc (csw_scId csw) (spend_balance (csw_nValue csw)) c"

definition spec_create :: "CChainParams \<Rightarrow> uint256 \<Rightarrow> int \<Rightarrow> int \<Rightarrow> Core \<Rightarrow> CTxScCreationOut \<Rightarrow> Core result" where
  "spec_create pr tx h mh = (\<lambda>(S, C) cr. if S (generatedScId cr) \<noteq> None then Inl RetFalse
     else bindR (created_sidechain pr tx h mh cr CSidechain_null) (\<lambda>sc. Inr (S(generatedScId cr \<mapsto> sc),
       C(GetScheduledCeasingHeight sc := insert (generatedScId cr) (C (GetScheduledCeasingHeight sc))))))"

definition spec_credit :: "int \<Rightarrow> Core \<Rightarrow> uint256 \<times> CAmount \<Rightarrow> Core result" where
  "spec_credit mh c = (\<lambda>(k, a). spec_sc k (\<lambda>sc. Inr (add_immature a mh sc)) c)"

definition spec_debit :: "int \<Rightarrow> Core \<Rightarrow> uint256 \<times> CAmount \<Rightarrow> Core result" where
  "spec_debit mh c = (\<lambda>(k, a). spec_sc k (sub_immature a mh) c)"

definition spec_uncreate :: "int \<Rightarrow> Core \<Rightarrow> CTxScCreationOut \<Rightarrow> Core result" where
  "spec_uncreate mh = (\<lambda>(S, C) cr. case S (generatedScId cr) of None \<Rightarrow> Inl RetFalse
     | Some sc \<Rightarrow> bindR (sub_immature (cr_nValue cr) mh sc) (\<lambda>sc'.
         let h = GetScheduledCeasingHeight sc in
         if balance sc' > 0 \<or> generatedScId cr \<notin> C h then Inl RetFalse
         else Inr (S(generatedScId cr := None), C(h := C h - {generatedScId cr}))))"

definition spec_uncsw :: "Core \<Rightarrow> CTxCeasedSidechainWithdrawalInput \<Rightarrow> Core result" where
  "spec_uncsw c csw = spec_sc (csw_scId csw) (\<lambda>sc. Inr (sc\<lparr>balance := balance sc + csw_nValue csw\<rparr>)) c"

definition fts :: "CTransaction \<Rightarrow> (uint256 \<times> CAmount) list" where
  "fts tx = map (\<lambda>ft. (ft_scId ft, ft_nValue ft)) (vft_ccout tx)"

definition mbtrs :: "CTransaction \<Rightarrow> (uint256 \<times> CAmount) list" where
  "mbtrs tx = map (\<lambda>m. (mbtr_scId m, scFee m)) (vmbtr_out tx)"

definition spec_connect :: "CChainParams \<Rightarrow> int \<Rightarrow> Core \<Rightarrow> CTransaction \<Rightarrow> Core result" where
  "spec_connect pr h c tx = (let mh = h + getScCoinsMaturity pr in
     bindR (foldR spec_csw c (vcsw_ccin tx)) (\<lambda>c. bindR (foldR (spec_create pr (tx_hash tx) h mh) c (vsc_ccout tx)) (\<lambda>c.
     bindR (foldR (spec_credit mh) c (fts tx)) (\<lambda>c. foldR (spec_credit mh) c (mbtrs tx)))))"

definition spec_disconnect :: "CChainParams \<Rightarrow> int \<Rightarrow> Core \<Rightarrow> CTransaction \<Rightarrow> Core result" where
  "spec_disconnect pr h c tx = (let mh = h + getScCoinsMaturity pr in
     bindR (foldR (spec_debit mh) c (mbtrs tx)) (\<lambda>c. bindR (foldR (spec_debit mh) c (fts tx)) (\<lambda>c.
     bindR (foldR (spec_uncreate mh) c (vsc_ccout tx)) (\<lambda>c. foldR spec_uncsw c (vcsw_ccin tx)))))"

text \<open>The sidechains a transaction sends an amount to.\<close>

definition sc_targets :: "CTransaction \<Rightarrow> uint256 set" where
  "sc_targets tx = set (map generatedScId (vsc_ccout tx) @ map fst (fts tx) @ map fst (mbtrs tx))"

section \<open>Steps that refine the specification\<close>

definition core_of :: "Ledger \<Rightarrow> Core" where "core_of L = (l_sc L, l_ceasing L)"

definition upd_core :: "int \<Rightarrow> Core \<Rightarrow> (uint256 set \<Rightarrow> uint256 set) \<Rightarrow> Ledger \<Rightarrow> Ledger" where
  "upd_core mh c f L = L\<lparr>l_sc := fst c, l_ceasing := snd c, l_maturing := (l_maturing L)(mh := f (l_maturing L mh))\<rparr>"

lemma core_upd [simp]: "core_of (upd_core mh c f L) = c" "upd_core mh c g (upd_core mh c' f L) = upd_core mh c (g \<circ> f) L"
  by (simp_all add: core_of_def upd_core_def)

lemma upd_core_id [simp]: "upd_core mh (core_of L) id L = L" "upd_core mh (core_of L) (\<lambda>M. M) L = L"
  by (simp_all add: core_of_def upd_core_def)

text \<open>
  A step of the code with what it promises: when the specification succeeds, so does the step,
  it keeps the invariant and moves the abstract state as the specification says. The loops of the
  code inherit the contract.
\<close>

locale core_step =
  fixes inv :: "CCoinsViewCache \<Rightarrow> bool" and mh :: int and step :: "CCoinsViewCache \<Rightarrow> 'a \<Rightarrow> CCoinsViewCache result"
    and spec :: "Core \<Rightarrow> 'a \<Rightarrow> Core result" and mat :: "'a \<Rightarrow> uint256 set \<Rightarrow> uint256 set"
  assumes step_ok: "inv v \<Longrightarrow> spec (core_of (ledger v)) a = Inr c \<Longrightarrow>
    \<exists>v'. step v a = Inr v' \<and> inv v' \<and> ledger v' = upd_core mh c (mat a) (ledger v)"
begin

lemma loop_ok:
  "inv v \<Longrightarrow> foldR spec (core_of (ledger v)) as = Inr c \<Longrightarrow>
     \<exists>v'. foldR step v as = Inr v' \<and> inv v' \<and> ledger v' = upd_core mh c (fold mat as) (ledger v)"
proof (induction as arbitrary: v)
  case (Cons a as)
  then obtain c1 where c1: "spec (core_of (ledger v)) a = Inr c1" "foldR spec c1 as = Inr c" by (auto split: sum.splits)
  obtain v1 where v1: "step v a = Inr v1" "inv v1" "ledger v1 = upd_core mh c1 (mat a) (ledger v)"
    using step_ok [OF Cons.prems(1) c1(1)] by blast
  have "foldR spec (core_of (ledger v1)) as = Inr c" using c1(2) v1(3) by simp
  then obtain v' where "foldR step v1 as = Inr v'" "inv v'" "ledger v' = upd_core mh c (fold mat as) (ledger v1)"
    using Cons.IH [OF v1(2)] by blast
  then show ?case using v1 by (simp add: comp_def)
qed (use upd_core_id in auto)

end

text \<open>A step that fails exactly when the specification does, with the same error.\<close>

locale exact_step = core_step +
  assumes step_err: "inv v \<Longrightarrow> spec (core_of (ledger v)) a = Inl x \<Longrightarrow> step v a = Inl x"
begin

lemma loop_err:
  "inv v \<Longrightarrow> foldR spec (core_of (ledger v)) as = Inl x \<Longrightarrow> foldR step v as = Inl x"
proof (induction as arbitrary: v)
  case (Cons a as)
  show ?case
  proof (cases "spec (core_of (ledger v)) a")
    case (Inl y)
    then show ?thesis using step_err [OF Cons.prems(1)] Cons.prems(2) by simp
  next
    case (Inr c1)
    obtain v1 where v1: "step v a = Inr v1" "inv v1" "ledger v1 = upd_core mh c1 (mat a) (ledger v)"
      using step_ok [OF Cons.prems(1) Inr] by blast
    then show ?thesis using Cons.IH [OF v1(2)] Cons.prems(2) Inr by simp
  qed
qed simp

end

section \<open>The steps of the code\<close>

definition inv_connect :: "(uint256 \<Rightarrow> ZCIncrementalMerkleTree) \<Rightarrow> int \<Rightarrow> int \<Rightarrow> CCoinsViewCache \<Rightarrow> bool" where
  "inv_connect T h mh v \<longleftrightarrow> good T h v \<and> no_erased v \<and> 0 \<le> h \<and> h \<le> mh"

definition inv_revert :: "(uint256 \<Rightarrow> ZCIncrementalMerkleTree) \<Rightarrow> CCoinsViewCache \<Rightarrow> bool" where
  "inv_revert T v \<longleftrightarrow> (\<forall>n. good T n v)"

text \<open>Changing an existing sidechain, for any change of the entry that follows a change of the sidechain.\<close>

definition follows :: "(CSidechainsCacheEntry \<Rightarrow> CSidechainsCacheEntry result) \<Rightarrow> (CSidechain \<Rightarrow> CSidechain result) \<Rightarrow> bool" where
  "follows f s \<longleftrightarrow> (\<forall>e. case s (me_content e) of Inl x \<Rightarrow> f e = Inl x
     | Inr sc \<Rightarrow> \<exists>e'. f e = Inr e' \<and> me_content e' = sc \<and> (me_flag e' = DIRTY \<or> me_flag e' = FRESH \<and> me_flag e = FRESH))"

lemma followsD:
  assumes "follows f s"
  shows "s (me_content e) = Inl x \<Longrightarrow> f e = Inl x"
    "s (me_content e) = Inr sc \<Longrightarrow> \<exists>e'. f e = Inr e' \<and> me_content e' = sc \<and> (me_flag e' = DIRTY \<or> me_flag e' = FRESH \<and> me_flag e = FRESH)"
proof -
  note F = assms [unfolded follows_def, rule_format, of e]
  show "s (me_content e) = Inl x \<Longrightarrow> f e = Inl x" using F by simp
  show "s (me_content e) = Inr sc \<Longrightarrow> \<exists>e'. f e = Inr e' \<and> me_content e' = sc \<and> (me_flag e' = DIRTY \<or> me_flag e' = FRESH \<and> me_flag e = FRESH)"
    using F by simp
qed

lemma with_sidechain_err:
  assumes f: "follows f s" and e: "spec_sc k s (core_of (ledger v)) = Inl x"
  shows "with_sidechain v k f = Inl x"
proof (cases "scOf (vw v) k")
  case None
  then show ?thesis using e by (simp add: spec_sc_def core_of_def with_sidechain_None)
next
  case (Some sc)
  obtain e1 v1 where w: "with_sidechain v k f = bindR (f e1) (\<lambda>e'. Inr (put_sidechain v1 k e'))" "me_content e1 = sc"
    by (rule with_sidechain_Some [OF Some]) (rule that)
  have "s sc = Inl x" using e Some by (cases "s sc") (simp_all add: spec_sc_def core_of_def)
  then show ?thesis using w followsD(1) [OF f, of e1 x] by simp
qed

lemma refines_good:
  assumes "refines_view (vw v) (vw v')" "good T n v" "\<And>h e. n \<le> h \<Longrightarrow> ev_entry v' h = Some e \<Longrightarrow> me_flag e = ERASED \<Longrightarrow> ev_entry v h = Some e"
  shows "good T n v'"
proof -
  have "evOf (vw v') = evOf (vw v)" "wf_view T (vw v')" using assms(1) goodD(1) [OF assms(2)]
    by (simp_all add: refines_view_def same_obs_def)
  then show ?thesis using assms(2,3) unfolding good_def by metis
qed

lemma with_sidechain_ok:
  assumes f: "follows f s" and e: "spec_sc k s (core_of (ledger v)) = Inr c"
  obtains v' where "with_sidechain v k f = Inr v'" "ledger v' = (ledger v)\<lparr>l_sc := fst c\<rparr>" "snd c = l_ceasing (ledger v)"
    "\<And>T n. good T n v \<Longrightarrow> good T n v'" "no_erased v \<Longrightarrow> no_erased v'"
proof -
  obtain sc sc' where sc: "scOf (vw v) k = Some sc" "s sc = Inr sc'" "c = ((scOf (vw v))(k \<mapsto> sc'), l_ceasing (ledger v))"
    using e by (auto simp: spec_sc_def core_of_def bindR_eq_Inr split: option.splits)
  obtain e1 v1 where w: "with_sidechain v k f = bindR (f e1) (\<lambda>e'. Inr (put_sidechain v1 k e'))"
    "me_content e1 = sc" "me_flag e1 \<noteq> ERASED" "refines_view (vw v) (vw v1)" "sc_entry v1 k = Some e1"
    "ev_entry v1 = ev_entry v" "\<And>j. j \<noteq> k \<Longrightarrow> sc_entry v1 j = sc_entry v j"
    by (rule with_sidechain_Some [OF sc(1)]) (rule that)
  obtain e2 where e2: "f e1 = Inr e2" "me_content e2 = sc'" "me_flag e2 = DIRTY \<or> me_flag e2 = FRESH \<and> me_flag e1 = FRESH"
    using followsD(2) [OF f, of e1 sc'] w(2) sc(2) by auto
  have live: "me_live e2 = Some sc'" using e2(2,3) by (auto simp: me_live_def)
  have so: "scOf (vw v1) = scOf (vw v)" using w(4) by (simp add: refines_view_def same_obs_def)
  show thesis
  proof (rule that)
    show "with_sidechain v k f = Inr (put_sidechain v1 k e2)" using w(1) e2(1) by simp
    show "ledger (put_sidechain v1 k e2) = (ledger v)\<lparr>l_sc := fst c\<rparr>"
      by (simp add: put_sidechain_ledger ledger_refines [OF w(4)] live so sc(3))
    show "good T n (put_sidechain v1 k e2)" if "good T n v" for T n
      using put_sidechain_good [OF refines_good [OF w(4) that] w(5)] e2(3) w(6) by auto
    show "no_erased (put_sidechain v1 k e2)" if "no_erased v"
      using that w(5,7) e2(3) unfolding no_erased_def put_sidechain_obs by (metis Flags.distinct fun_upd_apply option.inject)
  qed (simp add: sc(3))
qed

subsection \<open>Ceased sidechain withdrawals\<close>

lemma follows_csw:
  "follows (\<lambda>e. let sc = (me_content e)\<lparr>balance := balance (me_content e) - a\<rparr>
       in if \<not> balance sc \<ge> 0 then Inl Assert else Inr (e\<lparr>me_content := sc, me_flag := DIRTY\<rparr>)) (spend_balance a)"
  by (auto simp: follows_def spend_balance_def Let_def)

lemma follows_uncsw:
  "follows (\<lambda>e. Inr (e\<lparr>me_content := (me_content e)\<lparr>balance := balance (me_content e) + a\<rparr>, me_flag := DIRTY\<rparr>))
     (\<lambda>sc. Inr (sc\<lparr>balance := balance sc + a\<rparr>))"
  by (auto simp: follows_def)

lemma follows_credit: "follows (credit_entry a mh) (\<lambda>sc. Inr (add_immature a mh sc))"
  by (auto simp: follows_def credit_entry_def)

lemma follows_debit: "follows (DecrementImmatureAmount a mh) (sub_immature a mh)"
  by (auto simp: follows_def DecrementImmatureAmount_def sub_immature_def Let_def split: option.splits)

lemma upd_core_sc: "snd c = l_ceasing L \<Longrightarrow> L\<lparr>l_sc := fst c\<rparr> = upd_core mh c (\<lambda>M. M) L"
  by (simp add: upd_core_def)

lemma sc_step_ok:
  assumes f: "follows f s" and e: "spec_sc k s (core_of (ledger v)) = Inr c"
  shows "\<exists>v'. with_sidechain v k f = Inr v' \<and> ledger v' = upd_core mh c (\<lambda>M. M) (ledger v)
    \<and> (\<forall>T n. good T n v \<longrightarrow> good T n v') \<and> (no_erased v \<longrightarrow> no_erased v')"
  by (rule with_sidechain_ok [OF f e]) (use upd_core_sc in \<open>auto\<close>)

interpretation csw_step: exact_step "inv_connect T h mh" mh UpdateSidechain_csw spec_csw "\<lambda>_ M. M" for T h mh
proof unfold_locales
  fix v a c
  assume i: "inv_connect T h mh v" and s: "spec_csw (core_of (ledger v)) a = Inr c"
  show "\<exists>v'. UpdateSidechain_csw v a = Inr v' \<and> inv_connect T h mh v' \<and> ledger v' = upd_core mh c (\<lambda>M. M) (ledger v)"
    using sc_step_ok [OF follows_csw s [unfolded spec_csw_def], of mh] i
    unfolding UpdateSidechain_csw_def inv_connect_def by blast
qed (unfold spec_csw_def UpdateSidechain_csw_def, rule with_sidechain_err [OF follows_csw])

interpretation uncsw_step: core_step "inv_revert T" mh RevertTxOutputs_csw spec_uncsw "\<lambda>_ M. M" for T mh
proof unfold_locales
  fix v a c
  assume i: "inv_revert T v" and s: "spec_uncsw (core_of (ledger v)) a = Inr c"
  show "\<exists>v'. RevertTxOutputs_csw v a = Inr v' \<and> inv_revert T v' \<and> ledger v' = upd_core mh c (\<lambda>M. M) (ledger v)"
    using sc_step_ok [OF follows_uncsw s [unfolded spec_uncsw_def], of mh] i
    unfolding RevertTxOutputs_csw_def inv_revert_def by blast
qed

subsection \<open>Forward transfers and backward transfer requests\<close>

lemma no_erased_cong: "sc_entry v' = sc_entry v \<Longrightarrow> no_erased v' = no_erased v"
  by (simp add: no_erased_def)

lemma maturing_ledger:
  assumes "good T n v" "n \<le> h"
  shows "ledger (on_events v h (add_event (ins_maturing k))) = upd_core h (core_of (ledger v)) (insert k) (ledger v)"
    "ledger (on_events v h (del_event (rem_maturing k))) = upd_core h (core_of (ledger v)) (\<lambda>M. M - {k}) (ledger v)"
  by (simp_all add: add_event_good(3) [OF assms] del_event_good(3) [OF assms] upd_core_def core_of_def)
    (simp_all add: ledger_of_def fun_eq_iff)

lemma ceasing_ledger:
  assumes "good T n v" "n \<le> h"
  shows "ledger (on_events v h (add_event (ins_ceasing k))) = (ledger v)\<lparr>l_ceasing := (l_ceasing (ledger v))(h := insert k (l_ceasing (ledger v) h))\<rparr>"
    "ledger (on_events v h (del_event (rem_ceasing k))) = (ledger v)\<lparr>l_ceasing := (l_ceasing (ledger v))(h := l_ceasing (ledger v) h - {k})\<rparr>"
  by (simp_all add: add_event_good(3) [OF assms] del_event_good(3) [OF assms])
    (simp_all add: ledger_of_def fun_eq_iff)

lemma credit_step_ok:
  assumes i: "inv_connect T h mh v" and s: "spec_credit mh (core_of (ledger v)) (k, a) = Inr c"
  shows "\<exists>v'. bindR (with_sidechain v k (credit_entry a mh)) (\<lambda>v1. Inr (on_events v1 mh (add_event (ins_maturing k)))) = Inr v'
    \<and> inv_connect T h mh v' \<and> ledger v' = upd_core mh c (insert k) (ledger v)"
proof -
  obtain v1 where v1: "with_sidechain v k (credit_entry a mh) = Inr v1" "ledger v1 = upd_core mh c (\<lambda>M. M) (ledger v)"
    "\<forall>T n. good T n v \<longrightarrow> good T n v1" "no_erased v \<longrightarrow> no_erased v1"
    using sc_step_ok [OF follows_credit, of k a mh v c mh] s by (auto simp: spec_credit_def)
  have g: "good T h v1" "h \<le> mh" "no_erased v1" "0 \<le> h" using v1(3,4) i by (auto simp: inv_connect_def)
  have A: "good T h (on_events v1 mh (add_event (ins_maturing k)))"
    "sc_entry (on_events v1 mh (add_event (ins_maturing k))) = sc_entry v1"
    using add_event_good [OF g(1,2), of "ins_maturing k"] by simp_all
  have "ledger (on_events v1 mh (add_event (ins_maturing k))) = upd_core mh c (insert k) (ledger v)"
    unfolding maturing_ledger(1) [OF g(1,2)] by (simp add: v1(2) comp_def)
  moreover have "inv_connect T h mh (on_events v1 mh (add_event (ins_maturing k)))"
    using A(1) g no_erased_cong [OF A(2)] by (simp add: inv_connect_def)
  ultimately show ?thesis using v1(1) by simp
qed

lemma debit_step_ok:
  assumes i: "inv_revert T v" and s: "spec_debit mh (core_of (ledger v)) (k, a) = Inr c"
  shows "\<exists>v'. bindR (with_sidechain v k (DecrementImmatureAmount a mh)) (\<lambda>v1. Inr (on_events v1 mh (del_event (rem_maturing k)))) = Inr v'
    \<and> inv_revert T v' \<and> ledger v' = upd_core mh c (\<lambda>M. M - {k}) (ledger v)"
proof -
  obtain v1 where v1: "with_sidechain v k (DecrementImmatureAmount a mh) = Inr v1" "ledger v1 = upd_core mh c (\<lambda>M. M) (ledger v)"
    "\<forall>T n. good T n v \<longrightarrow> good T n v1"
    using sc_step_ok [OF follows_debit, of k a mh v c mh] s by (auto simp: spec_debit_def)
  have g: "good T (min n mh) v1" for n using v1(3) i by (auto simp: inv_revert_def)
  have "ledger (on_events v1 mh (del_event (rem_maturing k))) = upd_core mh c (\<lambda>M. M - {k}) (ledger v)"
    unfolding maturing_ledger(2) [OF g min.cobounded2] by (simp add: v1(2) comp_def)
  moreover have "good T n (on_events v1 mh (del_event (rem_maturing k)))" for n
    using del_event_good(1) [OF g [of n] min.cobounded2, of "rem_maturing k"] by (rule good_mono) simp_all
  ultimately show ?thesis using v1(1) by (simp add: inv_revert_def)
qed

interpretation ft_step: exact_step "inv_connect T h mh" mh "\<lambda>v. UpdateSidechain_ft mh v"
    "\<lambda>c ft. spec_credit mh c (ft_scId ft, ft_nValue ft)" "\<lambda>ft. insert (ft_scId ft)" for T h mh
proof unfold_locales
  show "UpdateSidechain_ft mh v a = Inl x" if "spec_credit mh (core_of (ledger v)) (ft_scId a, ft_nValue a) = Inl x" for v a x
    using with_sidechain_err [OF follows_credit] that by (simp add: spec_credit_def UpdateSidechain_ft_def)
qed (unfold UpdateSidechain_ft_def, rule credit_step_ok)

interpretation mbtr_step: exact_step "inv_connect T h mh" mh "\<lambda>v. UpdateSidechain_mbtr mh v"
    "\<lambda>c m. spec_credit mh c (mbtr_scId m, scFee m)" "\<lambda>m. insert (mbtr_scId m)" for T h mh
proof unfold_locales
  show "UpdateSidechain_mbtr mh v a = Inl x" if "spec_credit mh (core_of (ledger v)) (mbtr_scId a, scFee a) = Inl x" for v a x
    using with_sidechain_err [OF follows_credit] that by (simp add: spec_credit_def UpdateSidechain_mbtr_def)
qed (unfold UpdateSidechain_mbtr_def, rule credit_step_ok)

interpretation unft_step: core_step "inv_revert T" mh "\<lambda>v. RevertTxOutputs_ft mh v"
    "\<lambda>c ft. spec_debit mh c (ft_scId ft, ft_nValue ft)" "\<lambda>ft M. M - {ft_scId ft}" for T mh
  by unfold_locales (unfold RevertTxOutputs_ft_def, rule debit_step_ok)

interpretation unmbtr_step: core_step "inv_revert T" mh "\<lambda>v. RevertTxOutputs_mbtr mh v"
    "\<lambda>c m. spec_debit mh c (mbtr_scId m, scFee m)" "\<lambda>m M. M - {mbtr_scId m}" for T mh
  by unfold_locales (unfold RevertTxOutputs_mbtr_def, rule debit_step_ok)

subsection \<open>Sidechain creations\<close>

lemma created_sidechain_Inr:
  assumes "created_sidechain pr tx h mh cr CSidechain_null = Inr sc"
  shows "creationBlockHeight sc = h" "lastTopQualityCertReferencedEpoch sc = EPOCH_NULL" "fixedParams sc = cr_params cr"
    "0 < withdrawalEpochLength (cr_params cr)" "mImmatureAmounts sc = [mh \<mapsto> cr_nValue cr]" "balance sc = 0"
  using assms by (auto simp: created_sidechain_def InitScFees_def CSidechain_null_def getMaxSizeOfScFeesContainers_def
      bindR_eq_Inr Let_def split: if_splits)

lemma created_ceasing_height:
  assumes "created_sidechain pr tx h mh cr CSidechain_null = Inr sc" "0 \<le> h"
  shows "h < GetScheduledCeasingHeight sc"
  using created_sidechain_Inr [OF assms(1)] assms(2)
  by (simp add: GetScheduledCeasingHeight_def GetCertSubmissionWindowEnd_def GetCertSubmissionWindowStart_def
      GetStartHeightForEpoch_def isCreationConfirmed_def EPOCH_NULL_def GetCertSubmissionWindowLength_def)

lemma creation_err:
  assumes i: "inv_connect T h mh v" and s: "spec_create pr tx h mh (core_of (ledger v)) cr = Inl x"
  shows "UpdateSidechain_creation pr tx h mh v cr = Inl x"
proof (cases "scOf (vw v) (generatedScId cr)")
  case (Some sc)
  then show ?thesis using s HaveSidechain_spec(1) [of v "generatedScId cr"]
    by (cases "HaveSidechain v (generatedScId cr)") (auto simp: spec_create_def core_of_def UpdateSidechain_creation_def)
next
  case None
  have g: "good T h v" "no_erased v" using i by (simp_all add: inv_connect_def)
  obtain v1 v2 where "HaveSidechain v (generatedScId cr) = (v1, False)"
    "ModifySidechain v1 (generatedScId cr) = (v2, \<lparr>me_content = CSidechain_null, me_flag = FRESH\<rparr>)"
    by (rule add_sidechain [OF g None]) (rule that)
  moreover have "created_sidechain pr tx h mh cr CSidechain_null = Inl x"
    using s None by (cases "created_sidechain pr tx h mh cr CSidechain_null") (simp_all add: spec_create_def core_of_def)
  ultimately show ?thesis by (simp add: UpdateSidechain_creation_def)
qed

lemma creation_ok:
  assumes i: "inv_connect T h mh v" and s: "spec_create pr tx h mh (core_of (ledger v)) cr = Inr c"
  shows "\<exists>v'. UpdateSidechain_creation pr tx h mh v cr = Inr v' \<and> inv_connect T h mh v'
    \<and> ledger v' = upd_core mh c (insert (generatedScId cr)) (ledger v)"
proof -
  let ?k = "generatedScId cr"
  have g: "good T h v" "no_erased v" "0 \<le> h" "h \<le> mh" using i by (simp_all add: inv_connect_def)
  have none: "scOf (vw v) ?k = None" using s by (auto simp: spec_create_def core_of_def split: if_splits)
  obtain sc where sc: "created_sidechain pr tx h mh cr CSidechain_null = Inr sc"
    and c: "c = ((scOf (vw v))(?k \<mapsto> sc), (l_ceasing (ledger v))(GetScheduledCeasingHeight sc
        := insert ?k (l_ceasing (ledger v) (GetScheduledCeasingHeight sc))))"
    using s none by (auto simp: spec_create_def core_of_def bindR_eq_Inr)
  let ?ch = "GetScheduledCeasingHeight sc"
  have ch: "h \<le> ?ch" using created_ceasing_height [OF sc g(3)] by simp
  obtain v1 v2 where V: "HaveSidechain v ?k = (v1, False)"
    "ModifySidechain v1 ?k = (v2, \<lparr>me_content = CSidechain_null, me_flag = FRESH\<rparr>)"
    "\<And>sc. good T h (put_sidechain v2 ?k \<lparr>me_content = sc, me_flag = FRESH\<rparr>)"
    "\<And>sc. no_erased (put_sidechain v2 ?k \<lparr>me_content = sc, me_flag = FRESH\<rparr>)"
    "\<And>sc. ledger (put_sidechain v2 ?k \<lparr>me_content = sc, me_flag = FRESH\<rparr>) = (ledger v)\<lparr>l_sc := (scOf (vw v))(?k \<mapsto> sc)\<rparr>"
    by (rule add_sidechain [OF g(1,2) none]) (rule that)
  define v3 where "v3 = put_sidechain v2 ?k \<lparr>me_content = sc, me_flag = FRESH\<rparr>"
  define v4 where "v4 = on_events v3 mh (add_event (ins_maturing ?k))"
  define v5 where "v5 = on_events v4 ?ch (add_event (ins_ceasing ?k))"
  have g3: "good T h v3" unfolding v3_def by (rule V(3))
  have A4: "good T h v4" "sc_entry v4 = sc_entry v3" using add_event_good [OF g3 g(4), of "ins_maturing ?k"] by (simp_all add: v4_def)
  have A5: "good T h v5" "sc_entry v5 = sc_entry v4" using add_event_good [OF A4(1) ch, of "ins_ceasing ?k"] by (simp_all add: v5_def)
  have L3: "ledger v3 = (ledger v)\<lparr>l_sc := (scOf (vw v))(?k \<mapsto> sc)\<rparr>" unfolding v3_def by (rule V(5))
  have L4: "ledger v4 = upd_core mh (core_of (ledger v3)) (insert ?k) (ledger v3)" unfolding v4_def by (rule maturing_ledger(1) [OF g3 g(4)])
  have L5: "ledger v5 = (ledger v4)\<lparr>l_ceasing := (l_ceasing (ledger v4))(?ch := insert ?k (l_ceasing (ledger v4) ?ch))\<rparr>"
    unfolding v5_def by (rule ceasing_ledger(1) [OF A4(1) ch])
  have "ledger v5 = upd_core mh c (insert ?k) (ledger v)"
    unfolding L5 L4 L3 c by (simp add: upd_core_def core_of_def)
  moreover have "UpdateSidechain_creation pr tx h mh v cr = Inr v5"
    by (simp add: UpdateSidechain_creation_def V(1,2) sc v5_def v4_def v3_def Let_def)
  moreover have "no_erased v5" using V(4) [of sc] A4(2) A5(2) by (simp add: no_erased_def v3_def)
  ultimately show ?thesis using A5(1) g(3,4) by (simp add: inv_connect_def)
qed

interpretation create_step: exact_step "inv_connect T h mh" mh "UpdateSidechain_creation pr tx h mh" "spec_create pr tx h mh"
    "\<lambda>cr. insert (generatedScId cr)" for T h mh pr tx
  by unfold_locales (rule creation_ok, assumption+, rule creation_err)

lemma HaveSidechainEvents_good:
  assumes "HaveSidechainEvents v h = (v', r)"
  shows "r = (evOf (vw v) h \<noteq> None)" "ledger v' = ledger v" "good T n v \<Longrightarrow> good T n v'" "evOf (vw v') = evOf (vw v)"
proof -
  note H = HaveSidechainEvents_spec [OF assms]
  show "r = (evOf (vw v) h \<noteq> None)" by (rule H(1))
  show "ledger v' = ledger v" by (rule ledger_refines [OF H(2)])
  show "evOf (vw v') = evOf (vw v)" using H(2) by (simp add: refines_view_def same_obs_def)
  show "good T n v'" if "good T n v"
  proof (rule refines_good [OF H(2) that])
    show "ev_entry v j = Some e" if "ev_entry v' j = Some e" "me_flag e = ERASED" for j e
      using that H(4,5) by (cases "j = h") auto
  qed
qed

lemma uncreate_maturing:
  assumes g: "\<And>n. good T n v" and h: "HaveSidechainEvents v mh = (v1, r)"
    and v': "v' = (if r then on_events v1 mh (del_event (rem_maturing k)) else v1)"
  shows "\<And>n. good T n v'" "ledger v' = upd_core mh (core_of (ledger v)) (\<lambda>M. M - {k}) (ledger v)"
proof -
  note H = HaveSidechainEvents_good [OF h]
  have g1: "good T n v1" for n using H(3) g by blast
  have "\<forall>n. good T n v' \<and> ledger v' = upd_core mh (core_of (ledger v)) (\<lambda>M. M - {k}) (ledger v)"
  proof (cases r)
    case True
    have "good T n (on_events v1 mh (del_event (rem_maturing k)))" for n
      using del_event_good(1) [OF g1 [of "min n mh"] min.cobounded2, of "rem_maturing k"] by (rule good_mono) simp_all
    then show ?thesis using True v' maturing_ledger(2) [OF g1 order_refl] by (simp add: H(2))
  next
    case False
    then have "l_maturing (ledger v) mh = {}" using H(1) by (simp add: ev_sets_def events_null_def)
    then have "upd_core mh (core_of (ledger v)) (\<lambda>M. M - {k}) (ledger v) = ledger v"
      by (simp add: upd_core_def core_of_def ledger_of_def fun_eq_iff)
    then show ?thesis using False v' g1 H(2) by simp
  qed
  then show "\<And>n. good T n v'" "ledger v' = upd_core mh (core_of (ledger v)) (\<lambda>M. M - {k}) (ledger v)" by blast+
qed

lemma uncreate_ok:
  assumes i: "inv_revert T v" and s: "spec_uncreate mh (core_of (ledger v)) cr = Inr c"
  shows "\<exists>v'. RevertTxOutputs_creation mh v cr = Inr v' \<and> inv_revert T v'
    \<and> ledger v' = upd_core mh c (\<lambda>M. M - {generatedScId cr}) (ledger v)"
proof -
  let ?k = "generatedScId cr"
  have g: "good T n v" for n using i by (simp add: inv_revert_def)
  obtain sc sc' where sc: "scOf (vw v) ?k = Some sc" "sub_immature (cr_nValue cr) mh sc = Inr sc'" "\<not> balance sc' > 0"
    "?k \<in> l_ceasing (ledger v) (GetScheduledCeasingHeight sc)"
    "c = ((scOf (vw v))(?k := None), (l_ceasing (ledger v))(GetScheduledCeasingHeight sc := l_ceasing (ledger v) (GetScheduledCeasingHeight sc) - {?k}))"
    using s by (auto simp: spec_uncreate_def core_of_def bindR_eq_Inr Let_def split: option.splits if_splits)
  let ?ch = "GetScheduledCeasingHeight sc"
  obtain v1 r where h: "HaveSidechain v ?k = (v1, r)" by (cases "HaveSidechain v ?k")
  note H = HaveSidechain_spec [OF h]
  have r: r using H(1) sc(1) by simp
  obtain e where e: "sc_entry v1 ?k = Some e" "me_content e = sc" using H(4) [OF r] sc(1) by auto
  obtain e1 where e1: "DecrementImmatureAmount (cr_nValue cr) mh e = Inr e1" "me_content e1 = sc'"
    using followsD(2) [OF follows_debit, of "cr_nValue cr" mh e sc'] sc(2) e(2) by auto
  define v3 where "v3 = put_sidechain v1 ?k (e1\<lparr>me_flag := ERASED\<rparr>)"
  have g3: "good T n v3" for n
    unfolding v3_def by (rule put_sidechain_good [OF refines_good [OF H(2) g] e(1)]) (simp_all add: H(3))
  have so: "scOf (vw v1) = scOf (vw v)" using H(2) by (simp add: refines_view_def same_obs_def)
  have L3: "ledger v3 = (ledger v)\<lparr>l_sc := (scOf (vw v))(?k := None)\<rparr>"
    by (simp add: v3_def put_sidechain_ledger so ledger_refines [OF H(2)] me_live_def)
  obtain v4 hm where h4: "HaveSidechainEvents v3 mh = (v4, hm)" by (cases "HaveSidechainEvents v3 mh")
  define v5 where "v5 = (if hm then on_events v4 mh (del_event (rem_maturing ?k)) else v4)"
  note U = uncreate_maturing [OF g3 h4 v5_def]
  obtain v6 hc where h6: "HaveSidechainEvents v5 ?ch = (v6, hc)" by (cases "HaveSidechainEvents v5 ?ch")
  note H6 = HaveSidechainEvents_good [OF h6]
  have g6: "good T n v6" for n using H6(3) U(1) by blast
  have "?k \<in> l_ceasing (ledger v5) ?ch" unfolding U(2) L3 using sc(4) by (simp add: upd_core_def core_of_def)
  then have hc: hc using H6(1) by (auto simp: ev_sets_def events_null_def split: option.splits)
  define v7 where "v7 = on_events v6 ?ch (del_event (rem_ceasing ?k))"
  have "RevertTxOutputs_creation mh v cr = Inr v7"
    using r e(2) e1 sc(3) hc by (simp add: RevertTxOutputs_creation_def h ModifySidechain_hit [OF e(1)] Let_def
        v3_def [symmetric] h4 v5_def [symmetric] h6 v7_def)
  moreover have "good T n v7" for n
    using del_event_good(1) [OF g6 [of "min n ?ch"] min.cobounded2, of "rem_ceasing ?k"] unfolding v7_def by (rule good_mono) simp_all
  moreover have "ledger v7 = upd_core mh c (\<lambda>M. M - {?k}) (ledger v)"
    unfolding v7_def ceasing_ledger(2) [OF g6 order_refl] H6(2) U(2) L3 by (simp add: sc(5) upd_core_def core_of_def)
  ultimately show ?thesis by (simp add: inv_revert_def)
qed

interpretation uncreate_step: core_step "inv_revert T" mh "RevertTxOutputs_creation mh" "spec_uncreate mh"
    "\<lambda>cr M. M - {generatedScId cr}" for T mh
  by unfold_locales (rule uncreate_ok)

end
