(* ===== verification/ScRoundTrip.thy ===== *)
theory ScRoundTrip
  imports ScUpdate
begin

text \<open>
  Connecting the cross-chain part of the transactions of a block refines the
  specification, conserves the funds of every sidechain, and is undone exactly by
  disconnecting it: the round trip of \<open>UpdateSidechain(tx)\<close> and \<open>RevertTxOutputs\<close>. The
  last section shows the two sequences in which the code does not undo its own
  work: backward transfer requests that pay no fee.
\<close>

section \<open>Transactions refine their specification\<close>

lemma fts_foldR: "foldR f c (fts tx) = foldR (\<lambda>c ft. f c (ft_scId ft, ft_nValue ft)) c (vft_ccout tx)"
  by (simp add: fts_def foldR_map)

lemma mbtrs_foldR: "foldR f c (mbtrs tx) = foldR (\<lambda>c m. f c (mbtr_scId m, scFee m)) c (vmbtr_out tx)"
  by (simp add: mbtrs_def foldR_map)

lemma sc_targets_eq:
  "sc_targets tx = generatedScId ` set (vsc_ccout tx) \<union> ft_scId ` set (vft_ccout tx) \<union> mbtr_scId ` set (vmbtr_out tx)"
  by (auto simp: sc_targets_def fts_def mbtrs_def)

lemma connect_tx_ok:
  assumes i: "inv_connect T h mh v" and mh: "mh = h + getScCoinsMaturity pr"
    and s: "spec_connect pr h (core_of (ledger v)) tx = Inr c"
  shows "\<exists>v'. UpdateSidechain_tx pr v tx h = Inr v' \<and> inv_connect T h mh v'
    \<and> ledger v' = upd_core mh c (\<lambda>M. M \<union> sc_targets tx) (ledger v)"
proof -
  obtain c1 c2 c3 where C: "foldR spec_csw (core_of (ledger v)) (vcsw_ccin tx) = Inr c1"
    "foldR (spec_create pr (tx_hash tx) h mh) c1 (vsc_ccout tx) = Inr c2" "foldR (spec_credit mh) c2 (fts tx) = Inr c3"
    "foldR (spec_credit mh) c3 (mbtrs tx) = Inr c"
    using s by (auto simp: spec_connect_def Let_def mh bindR_eq_Inr)
  obtain v1 where v1: "foldR UpdateSidechain_csw v (vcsw_ccin tx) = Inr v1" "inv_connect T h mh v1"
    "ledger v1 = upd_core mh c1 (\<lambda>M. M) (ledger v)"
    using csw_step.loop_ok [OF i C(1)] by (auto simp: fold_const_eq [abs_def])
  have C2: "foldR (spec_create pr (tx_hash tx) h mh) (core_of (ledger v1)) (vsc_ccout tx) = Inr c2" using C(2) v1(3) by simp
  obtain v2 where v2: "foldR (UpdateSidechain_creation pr (tx_hash tx) h mh) v1 (vsc_ccout tx) = Inr v2" "inv_connect T h mh v2"
    "ledger v2 = upd_core mh c2 (\<lambda>M. M \<union> generatedScId ` set (vsc_ccout tx)) (ledger v1)"
    using create_step.loop_ok [OF v1(2) C2] by (auto simp: fold_insert_eq [abs_def])
  have C3: "foldR (\<lambda>c ft. spec_credit mh c (ft_scId ft, ft_nValue ft)) (core_of (ledger v2)) (vft_ccout tx) = Inr c3"
    using C(3) v2(3) by (simp add: fts_foldR)
  obtain v3 where v3: "foldR (UpdateSidechain_ft mh) v2 (vft_ccout tx) = Inr v3" "inv_connect T h mh v3"
    "ledger v3 = upd_core mh c3 (\<lambda>M. M \<union> ft_scId ` set (vft_ccout tx)) (ledger v2)"
    using ft_step.loop_ok [OF v2(2) C3] by (auto simp: fold_insert_eq [abs_def])
  have C4: "foldR (\<lambda>c m. spec_credit mh c (mbtr_scId m, scFee m)) (core_of (ledger v3)) (vmbtr_out tx) = Inr c"
    using C(4) v3(3) by (simp add: mbtrs_foldR)
  obtain v4 where v4: "foldR (UpdateSidechain_mbtr mh) v3 (vmbtr_out tx) = Inr v4" "inv_connect T h mh v4"
    "ledger v4 = upd_core mh c (\<lambda>M. M \<union> mbtr_scId ` set (vmbtr_out tx)) (ledger v3)"
    using mbtr_step.loop_ok [OF v3(2) C4] by (auto simp: fold_insert_eq [abs_def])
  have "ledger v4 = upd_core mh c (\<lambda>M. M \<union> sc_targets tx) (ledger v)"
    by (simp add: v4(3) v3(3) v2(3) v1(3) comp_def sc_targets_eq Un_assoc)
  then show ?thesis using v1(1) v2(1) v3(1) v4(1,2) by (simp add: UpdateSidechain_tx_def Let_def mh)
qed

lemma bindR_Inl_cases:
  assumes "bindR m k = Inl x" obtains "m = Inl x" | y where "m = Inr y" "k y = Inl x"
  using assms by (cases m) auto

lemma connect_tx_err:
  assumes i: "inv_connect T h mh v" and mh: "mh = h + getScCoinsMaturity pr"
    and s: "spec_connect pr h (core_of (ledger v)) tx = Inl x"
  shows "UpdateSidechain_tx pr v tx h = Inl x"
proof -
  note U = UpdateSidechain_tx_def Let_def mh [symmetric]
  show ?thesis
  proof (cases "foldR spec_csw (core_of (ledger v)) (vcsw_ccin tx)")
    case (Inl y)
    then show ?thesis using csw_step.loop_err [OF i Inl] s by (simp add: U spec_connect_def)
  next
    case (Inr c1)
    then obtain v1 where v1: "foldR UpdateSidechain_csw v (vcsw_ccin tx) = Inr v1" "inv_connect T h mh v1" "core_of (ledger v1) = c1"
      using csw_step.loop_ok [OF i Inr] by auto
    show ?thesis
    proof (cases "foldR (spec_create pr (tx_hash tx) h mh) c1 (vsc_ccout tx)")
      case (Inl y)
      then show ?thesis using create_step.loop_err [OF v1(2)] v1 s \<open>foldR spec_csw _ _ = Inr c1\<close>
        by (simp add: U spec_connect_def)
    next
      case (Inr c2)
      then obtain v2 where v2: "foldR (UpdateSidechain_creation pr (tx_hash tx) h mh) v1 (vsc_ccout tx) = Inr v2"
        "inv_connect T h mh v2" "core_of (ledger v2) = c2"
        using create_step.loop_ok [OF v1(2), of pr "tx_hash tx" "vsc_ccout tx" c2] v1(3) by auto
      show ?thesis
      proof (cases "foldR (spec_credit mh) c2 (fts tx)")
        case (Inl y)
        then have "foldR (UpdateSidechain_ft mh) v2 (vft_ccout tx) = Inl y"
          using ft_step.loop_err [OF v2(2)] v2(3) by (simp add: fts_foldR)
        then show ?thesis using v1(1) v2(1) s \<open>foldR spec_csw _ _ = Inr c1\<close> Inr Inl by (simp add: U spec_connect_def)
      next
        case (Inr c3)
        then obtain v3 where v3: "foldR (UpdateSidechain_ft mh) v2 (vft_ccout tx) = Inr v3" "inv_connect T h mh v3" "core_of (ledger v3) = c3"
          using ft_step.loop_ok [OF v2(2), of "vft_ccout tx" c3] v2(3) by (auto simp: fts_foldR)
        have "foldR (spec_credit mh) c3 (mbtrs tx) = Inl x"
          using s \<open>foldR spec_csw _ _ = Inr c1\<close> \<open>foldR (spec_create _ _ _ _) _ _ = Inr c2\<close> Inr by (simp add: spec_connect_def U)
        then have "foldR (UpdateSidechain_mbtr mh) v3 (vmbtr_out tx) = Inl x"
          using mbtr_step.loop_err [OF v3(2)] v3(3) by (simp add: mbtrs_foldR)
        then show ?thesis using v1(1) v2(1) v3(1) by (simp add: U)
      qed
    qed
  qed
qed

lemma disconnect_tx_ok:
  assumes i: "inv_revert T v" and mh: "mh = h + getScCoinsMaturity pr"
    and s: "spec_disconnect pr h (core_of (ledger v)) tx = Inr c"
  shows "\<exists>v'. RevertTxOutputs pr v tx h = Inr v' \<and> inv_revert T v'
    \<and> ledger v' = upd_core mh c (\<lambda>M. M - sc_targets tx) (ledger v)"
proof -
  obtain c1 c2 c3 where C: "foldR (spec_debit mh) (core_of (ledger v)) (mbtrs tx) = Inr c1" "foldR (spec_debit mh) c1 (fts tx) = Inr c2"
    "foldR (spec_uncreate mh) c2 (vsc_ccout tx) = Inr c3" "foldR spec_uncsw c3 (vcsw_ccin tx) = Inr c"
    using s by (auto simp: spec_disconnect_def Let_def mh bindR_eq_Inr)
  have C1: "foldR (\<lambda>c m. spec_debit mh c (mbtr_scId m, scFee m)) (core_of (ledger v)) (vmbtr_out tx) = Inr c1"
    using C(1) by (simp add: mbtrs_foldR)
  obtain v1 where v1: "foldR (RevertTxOutputs_mbtr mh) v (vmbtr_out tx) = Inr v1" "inv_revert T v1"
    "ledger v1 = upd_core mh c1 (\<lambda>M. M - mbtr_scId ` set (vmbtr_out tx)) (ledger v)"
    using unmbtr_step.loop_ok [OF i C1] by (auto simp: fold_remove_eq [abs_def])
  have C2: "foldR (\<lambda>c ft. spec_debit mh c (ft_scId ft, ft_nValue ft)) (core_of (ledger v1)) (vft_ccout tx) = Inr c2"
    using C(2) v1(3) by (simp add: fts_foldR)
  obtain v2 where v2: "foldR (RevertTxOutputs_ft mh) v1 (vft_ccout tx) = Inr v2" "inv_revert T v2"
    "ledger v2 = upd_core mh c2 (\<lambda>M. M - ft_scId ` set (vft_ccout tx)) (ledger v1)"
    using unft_step.loop_ok [OF v1(2) C2] by (auto simp: fold_remove_eq [abs_def])
  have C3: "foldR (spec_uncreate mh) (core_of (ledger v2)) (vsc_ccout tx) = Inr c3" using C(3) v2(3) by simp
  obtain v3 where v3: "foldR (RevertTxOutputs_creation mh) v2 (vsc_ccout tx) = Inr v3" "inv_revert T v3"
    "ledger v3 = upd_core mh c3 (\<lambda>M. M - generatedScId ` set (vsc_ccout tx)) (ledger v2)"
    using uncreate_step.loop_ok [OF v2(2) C3] by (auto simp: fold_remove_eq [abs_def])
  have C4: "foldR spec_uncsw (core_of (ledger v3)) (vcsw_ccin tx) = Inr c" using C(4) v3(3) by simp
  obtain v4 where v4: "foldR RevertTxOutputs_csw v3 (vcsw_ccin tx) = Inr v4" "inv_revert T v4"
    "ledger v4 = upd_core mh c (\<lambda>M. M) (ledger v3)"
    using uncsw_step.loop_ok [OF v3(2) C4, of mh] by (auto simp: fold_const_eq [abs_def])
  have "(\<lambda>M. M - mbtr_scId ` set (vmbtr_out tx) - ft_scId ` set (vft_ccout tx) - generatedScId ` set (vsc_ccout tx))
      = (\<lambda>M. M - sc_targets tx)" by (auto simp: sc_targets_eq)
  then have "ledger v4 = upd_core mh c (\<lambda>M. M - sc_targets tx) (ledger v)"
    by (simp add: v4(3) v3(3) v2(3) v1(3) comp_def)
  then show ?thesis using v1(1) v2(1) v3(1) v4(1,2) by (simp add: RevertTxOutputs_def Let_def mh)
qed

section \<open>Undoing on the specification\<close>

text \<open>What holds of the sidechains between blocks: immature amounts are positive, and only existing
  sidechains are scheduled to cease.\<close>

definition core_inv :: "int \<Rightarrow> Core \<Rightarrow> bool" where
  "core_inv mh = (\<lambda>(S, C). (\<forall>k sc x. S k = Some sc \<longrightarrow> mImmatureAmounts sc mh = Some x \<longrightarrow> 0 < x) \<and> (\<forall>h k. k \<in> C h \<longrightarrow> S k \<noteq> None))"

definition pos_tx :: "CTransaction \<Rightarrow> bool" where
  "pos_tx tx \<longleftrightarrow> (\<forall>cr \<in> set (vsc_ccout tx). 0 < cr_nValue cr) \<and> (\<forall>p \<in> set (fts tx). 0 < snd p) \<and> (\<forall>p \<in> set (mbtrs tx). 0 < snd p)
     \<and> (\<forall>w \<in> set (vcsw_ccin tx). 0 \<le> csw_nValue w)"

lemma spec_sc_Inr:
  "spec_sc k f (S, C) = Inr c \<longleftrightarrow> (\<exists>sc sc'. S k = Some sc \<and> f sc = Inr sc' \<and> c = (S(k \<mapsto> sc'), C))"
  by (auto simp: spec_sc_def bindR_eq_Inr split: option.splits)

text \<open>Undoing a change of one sidechain, when the change of the sidechain is undone.\<close>

lemma spec_sc_undo:
  assumes "spec_sc k f c = Inr c'" "\<And>sc sc'. fst c k = Some sc \<Longrightarrow> f sc = Inr sc' \<Longrightarrow> u sc' = Inr sc"
  shows "spec_sc k u c' = Inr c"
  using assms by (cases c) (auto simp: spec_sc_Inr map_upd_triv)

lemma spec_sc_commute:
  assumes "spec_sc k u c = Inr c1" "spec_sc j f c = Inr c2"
    and "\<And>sc s1 s2. k = j \<Longrightarrow> fst c k = Some sc \<Longrightarrow> u sc = Inr s1 \<Longrightarrow> f sc = Inr s2 \<Longrightarrow> \<exists>s3. u s2 = Inr s3 \<and> f s1 = Inr s3"
  shows "\<exists>c3. spec_sc k u c2 = Inr c3 \<and> spec_sc j f c1 = Inr c3"
proof -
  obtain S C where c: "c = (S, C)" by (cases c)
  obtain a a' b b' where A: "S k = Some a" "u a = Inr a'" "c1 = (S(k \<mapsto> a'), C)" and B: "S j = Some b" "f b = Inr b'" "c2 = (S(j \<mapsto> b'), C)"
    using assms(1,2) c by (auto simp: spec_sc_Inr)
  show ?thesis
  proof (cases "k = j")
    case True
    then obtain s3 where "u b' = Inr s3" "f a' = Inr s3" using assms(3) [of a a' b'] A B c by auto
    then show ?thesis using A B True by (simp add: spec_sc_def)
  next
    case False
    then show ?thesis using A B by (simp add: spec_sc_def fun_upd_twist)
  qed
qed

lemma debit_credit_same:
  assumes "0 < a" "\<And>x. mImmatureAmounts sc mh = Some x \<Longrightarrow> 0 < x"
  shows "sub_immature a mh (add_immature a mh sc) = Inr sc"
  using assms by (cases "mImmatureAmounts sc mh")
    (auto simp: sub_immature_def add_immature_def fun_upd_idem intro!: CSidechain.equality)

lemma debit_credit_commute:
  assumes "0 < a" "0 < b" "sub_immature a mh sc = Inr s1"
  shows "sub_immature a mh (add_immature b mh sc) = Inr (add_immature b mh s1)"
  using assms by (auto simp: sub_immature_def add_immature_def algebra_simps split: option.splits if_splits)

lemma credit_inv: "spec_credit mh c p = Inr c' \<Longrightarrow> 0 < snd p \<Longrightarrow> core_inv mh c \<Longrightarrow> core_inv mh c'"
  by (cases c; cases p)
    (auto simp: spec_credit_def spec_sc_Inr core_inv_def add_immature_def add_pos_pos split: if_splits option.splits)

lemma credits_undo:
  assumes "foldR (spec_credit mh) c ps = Inr c'" "\<forall>p \<in> set ps. 0 < snd p" "core_inv mh c"
  shows "foldR (spec_debit mh) c' ps = Inr c" "core_inv mh c'"
proof -
  show "core_inv mh c'" using foldR_invariant [OF assms(1), of "core_inv mh"] assms(2,3) credit_inv by blast
  show "foldR (spec_debit mh) c' ps = Inr c"
  proof (rule foldR_undo_forward [OF assms(1), where I = "core_inv mh"])
    fix t p t'
    assume p: "p \<in> set ps" and t: "core_inv mh t" "spec_credit mh t p = Inr t'"
    then have "0 < snd p" using assms(2) by blast
    moreover have "spec_debit mh t' p = Inr t"
      using t(2) unfolding spec_credit_def spec_debit_def case_prod_unfold
    proof (rule spec_sc_undo)
      fix sc sc'
      assume "fst t (fst p) = Some sc" "Inr (add_immature (snd p) mh sc) = Inr sc'"
      then show "sub_immature (snd p) mh sc' = Inr sc"
        using debit_credit_same [OF \<open>0 < snd p\<close>, of sc mh] t(1) by (cases t) (auto simp: core_inv_def)
    qed
    ultimately show "core_inv mh t' \<and> spec_debit mh t' p = Inr t" using credit_inv t by blast
  next
    fix t p q t1 t2
    assume p: "p \<in> set ps" "q \<in> set ps" and t: "spec_debit mh t p = Inr t1" "spec_credit mh t q = Inr t2"
    then have pos: "0 < snd p" "0 < snd q" using assms(2) by blast+
    show "\<exists>t3. spec_debit mh t2 p = Inr t3 \<and> spec_credit mh t1 q = Inr t3"
      using t unfolding spec_credit_def spec_debit_def case_prod_unfold
      by (rule spec_sc_commute) (use debit_credit_commute [OF pos] in auto)
  qed (rule assms(3))
qed

lemma csw_inv: "spec_csw c w = Inr c' \<Longrightarrow> core_inv mh c \<Longrightarrow> core_inv mh c'"
  by (cases c) (auto simp: spec_csw_def spec_sc_Inr core_inv_def spend_balance_def split: if_splits)

lemma csws_undo:
  assumes "foldR spec_csw c ws = Inr c'" "\<forall>w \<in> set ws. 0 \<le> csw_nValue w"
  shows "foldR spec_uncsw c' ws = Inr c"
proof (rule foldR_undo_forward [OF assms(1), where I = "\<lambda>_. True"])
  fix t w t'
  assume "spec_csw t w = Inr t'"
  then have "spec_uncsw t' w = Inr t" unfolding spec_csw_def spec_uncsw_def
    by (rule spec_sc_undo) (auto simp: spend_balance_def split: if_splits)
  then show "True \<and> spec_uncsw t' w = Inr t" by simp
next
  fix t a b t1 t2
  assume t: "spec_uncsw t a = Inr t1" "spec_csw t b = Inr t2" and "a \<in> set ws"
  then have "0 \<le> csw_nValue a" using assms(2) by blast
  then show "\<exists>t3. spec_uncsw t2 a = Inr t3 \<and> spec_csw t1 b = Inr t3" using t unfolding spec_csw_def spec_uncsw_def
    by (elim spec_sc_commute) (auto simp: spend_balance_def split: if_splits)
qed simp

lemma create_inv:
  assumes "spec_create pr tx h mh c cr = Inr c'" "0 < cr_nValue cr" "core_inv mh c"
  shows "core_inv mh c'"
  using assms created_sidechain_Inr(5) [of pr tx h mh cr]
  by (cases c) (auto simp: spec_create_def core_inv_def bindR_eq_Inr split: if_splits)

lemma create_undo:
  assumes "spec_create pr tx h mh c cr = Inr c'" "core_inv mh c"
  shows "spec_uncreate mh c' cr = Inr c"
proof -
  obtain S C where c: "c = (S, C)" by (cases c)
  let ?k = "generatedScId cr"
  obtain sc where sc: "created_sidechain pr tx h mh cr CSidechain_null = Inr sc" "S ?k = None"
    "c' = (S(?k \<mapsto> sc), C(GetScheduledCeasingHeight sc := insert ?k (C (GetScheduledCeasingHeight sc))))"
    using assms(1) c by (auto simp: spec_create_def bindR_eq_Inr split: if_splits)
  have "?k \<notin> C j" for j using assms(2) c sc(2) unfolding core_inv_def by auto (metis option.distinct(1))
  then show ?thesis using sc created_sidechain_Inr [OF sc(1)] c
    by (simp add: spec_uncreate_def sub_immature_def Let_def fun_upd_idem)
qed

lemma create_commute:
  assumes "spec_uncreate mh c a = Inr c1" "spec_create pr tx h mh c b = Inr c2"
  shows "\<exists>c3. spec_uncreate mh c2 a = Inr c3 \<and> spec_create pr tx h mh c1 b = Inr c3"
proof -
  obtain S C where c: "c = (S, C)" by (cases c)
  let ?a = "generatedScId a" and ?b = "generatedScId b"
  obtain sa sa' where A: "S ?a = Some sa" "sub_immature (cr_nValue a) mh sa = Inr sa'" "\<not> balance sa' > 0"
    "?a \<in> C (GetScheduledCeasingHeight sa)" "c1 = (S(?a := None), C(GetScheduledCeasingHeight sa := C (GetScheduledCeasingHeight sa) - {?a}))"
    using assms(1) c by (auto simp: spec_uncreate_def bindR_eq_Inr Let_def split: option.splits if_splits)
  obtain sb where B: "S ?b = None" "created_sidechain pr tx h mh b CSidechain_null = Inr sb"
    "c2 = (S(?b \<mapsto> sb), C(GetScheduledCeasingHeight sb := insert ?b (C (GetScheduledCeasingHeight sb))))"
    using assms(2) c by (auto simp: spec_create_def bindR_eq_Inr split: if_splits)
  have ne: "?a \<noteq> ?b" using A(1) B(1) by auto
  let ?ha = "GetScheduledCeasingHeight sa" and ?hb = "GetScheduledCeasingHeight sb"
  have C3: "(C(?ha := C ?ha - {?a}))(?hb := insert ?b ((C(?ha := C ?ha - {?a})) ?hb))
      = (C(?hb := insert ?b (C ?hb)))(?ha := (C(?hb := insert ?b (C ?hb))) ?ha - {?a})"
    using ne by (auto simp: fun_eq_iff)
  have "spec_create pr tx h mh c1 b = Inr (S(?a := None, ?b \<mapsto> sb), (C(?ha := C ?ha - {?a}))(?hb := insert ?b ((C(?ha := C ?ha - {?a})) ?hb)))"
    using A(5) B(1,2) ne by (simp add: spec_create_def)
  moreover have "spec_uncreate mh c2 a = Inr (S(?b \<mapsto> sb, ?a := None), (C(?hb := insert ?b (C ?hb)))(?ha := (C(?hb := insert ?b (C ?hb))) ?ha - {?a}))"
    using A(1-4) B(3) ne by (auto simp: spec_uncreate_def Let_def)
  ultimately show ?thesis using C3 fun_upd_twist [OF ne, of S None "Some sb"] by simp
qed

lemma creates_undo:
  assumes "foldR (spec_create pr tx h mh) c crs = Inr c'" "\<forall>cr \<in> set crs. 0 < cr_nValue cr" "core_inv mh c"
  shows "foldR (spec_uncreate mh) c' crs = Inr c" "core_inv mh c'"
proof -
  show "core_inv mh c'" using foldR_invariant [OF assms(1), of "core_inv mh"] assms(2,3) create_inv by blast
  show "foldR (spec_uncreate mh) c' crs = Inr c"
  proof (rule foldR_undo_forward [OF assms(1), where I = "core_inv mh"])
    show "core_inv mh t' \<and> spec_uncreate mh t' x = Inr t" if "x \<in> set crs" "core_inv mh t" "spec_create pr tx h mh t x = Inr t'" for t x t'
      using create_inv [OF that(3)] create_undo [OF that(3,2)] that(1,2) assms(2) by blast
  qed (rule assms(3), rule create_commute)
qed

lemma spec_roundtrip:
  assumes "spec_connect pr h c tx = Inr c'" "pos_tx tx" "core_inv (h + getScCoinsMaturity pr) c"
  shows "spec_disconnect pr h c' tx = Inr c" "core_inv (h + getScCoinsMaturity pr) c'"
proof -
  let ?mh = "h + getScCoinsMaturity pr"
  obtain c1 c2 c3 where C: "foldR spec_csw c (vcsw_ccin tx) = Inr c1" "foldR (spec_create pr (tx_hash tx) h ?mh) c1 (vsc_ccout tx) = Inr c2"
    "foldR (spec_credit ?mh) c2 (fts tx) = Inr c3" "foldR (spec_credit ?mh) c3 (mbtrs tx) = Inr c'"
    using assms(1) by (auto simp: spec_connect_def Let_def bindR_eq_Inr)
  have p: "\<forall>w \<in> set (vcsw_ccin tx). 0 \<le> csw_nValue w" "\<forall>cr \<in> set (vsc_ccout tx). 0 < cr_nValue cr"
    "\<forall>p \<in> set (fts tx). 0 < snd p" "\<forall>p \<in> set (mbtrs tx). 0 < snd p" using assms(2) by (auto simp: pos_tx_def)
  have i1: "core_inv ?mh c1" using foldR_invariant [OF C(1), of "core_inv ?mh"] assms(3) csw_inv by blast
  note u2 = creates_undo [OF C(2) p(2) i1]
  note u3 = credits_undo [OF C(3) p(3) u2(2)]
  note u4 = credits_undo [OF C(4) p(4) u3(2)]
  show "core_inv ?mh c'" by (rule u4(2))
  show "spec_disconnect pr h c' tx = Inr c" using u4(1) u3(1) u2(1) csws_undo [OF C(1) p(1)] by (simp add: spec_disconnect_def Let_def)
qed

section \<open>Blocks\<close>

lemma sc_connect_txs_ok:
  assumes "inv_connect T h mh v" "mh = h + getScCoinsMaturity pr" "foldR (\<lambda>v tx. UpdateSidechain_tx pr v tx h) v txs = Inr v'"
  shows "inv_connect T h mh v'
    \<and> (\<exists>c. foldR (spec_connect pr h) (core_of (ledger v)) txs = Inr c
           \<and> ledger v' = upd_core mh c (\<lambda>M. M \<union> \<Union> (sc_targets ` set txs)) (ledger v))"
  using assms(1,3)
proof (induction txs arbitrary: v)
  case (Cons tx txs)
  then obtain v1 where v1: "UpdateSidechain_tx pr v tx h = Inr v1" "foldR (\<lambda>v tx. UpdateSidechain_tx pr v tx h) v1 txs = Inr v'"
    by (auto split: sum.splits)
  obtain c1 where c1: "spec_connect pr h (core_of (ledger v)) tx = Inr c1"
    using connect_tx_err [OF Cons.prems(1) assms(2)] v1(1) by (cases "spec_connect pr h (core_of (ledger v)) tx") auto
  have w: "inv_connect T h mh v1" "ledger v1 = upd_core mh c1 (\<lambda>M. M \<union> sc_targets tx) (ledger v)"
    using connect_tx_ok [OF Cons.prems(1) assms(2) c1] v1(1) by auto
  show ?case using Cons.IH [OF w(1) v1(2)] w(2) c1 by (auto simp: comp_def Un_assoc)
qed (use upd_core_id in auto)

lemma disconnect_txs_ok:
  assumes "inv_revert T v" "mh = h + getScCoinsMaturity pr" "foldR (spec_disconnect pr h) (core_of (ledger v)) txs = Inr c"
  shows "\<exists>v'. foldR (\<lambda>v tx. RevertTxOutputs pr v tx h) v txs = Inr v' \<and> inv_revert T v'
    \<and> ledger v' = upd_core mh c (\<lambda>M. M - \<Union> (sc_targets ` set txs)) (ledger v)"
  using assms(1,3)
proof (induction txs arbitrary: v)
  case (Cons tx txs)
  then obtain c1 where c1: "spec_disconnect pr h (core_of (ledger v)) tx = Inr c1" "foldR (spec_disconnect pr h) c1 txs = Inr c"
    by (auto split: sum.splits)
  obtain v1 where v1: "RevertTxOutputs pr v tx h = Inr v1" "inv_revert T v1" "ledger v1 = upd_core mh c1 (\<lambda>M. M - sc_targets tx) (ledger v)"
    using disconnect_tx_ok [OF Cons.prems(1) assms(2) c1(1)] by blast
  then obtain v' where "foldR (\<lambda>v tx. RevertTxOutputs pr v tx h) v1 txs = Inr v'" "inv_revert T v'"
    "ledger v' = upd_core mh c (\<lambda>M. M - \<Union> (sc_targets ` set txs)) (ledger v1)"
    using Cons.IH [OF v1(2)] c1(2) by auto
  then show ?case using v1(1,3) by (auto simp: comp_def Diff_eq Int_assoc)
qed (use upd_core_id in auto)

text \<open>C6: connecting a transaction moves the sidechains as the specification says and fails exactly when the
  specification fails, with the same error. On success the ceased sidechain withdrawals have been taken from
  the balances, the new sidechains exist and are scheduled to cease, and every amount sent is immature at the maturity
  height, at which each receiving sidechain is scheduled to mature. Nothing else of the chain state changes.\<close>

theorem UpdateSidechain_tx_refines:
  assumes "inv_connect T h (h + getScCoinsMaturity pr) v"
  shows "case spec_connect pr h (core_of (ledger v)) tx of
      Inl x \<Rightarrow> UpdateSidechain_tx pr v tx h = Inl x
    | Inr c \<Rightarrow> \<exists>v'. UpdateSidechain_tx pr v tx h = Inr v' \<and> inv_connect T h (h + getScCoinsMaturity pr) v'
        \<and> ledger v' = upd_core (h + getScCoinsMaturity pr) c (\<lambda>M. M \<union> sc_targets tx) (ledger v)"
  using connect_tx_err [OF assms refl] connect_tx_ok [OF assms refl] by (cases "spec_connect pr h (core_of (ledger v)) tx") simp_all


section \<open>Conservation of funds\<close>

definition immature_at :: "int \<Rightarrow> CSidechain \<Rightarrow> CAmount" where
  "immature_at mh sc = (case mImmatureAmounts sc mh of None \<Rightarrow> 0 | Some x \<Rightarrow> x)"

definition funds :: "int \<Rightarrow> scmap \<Rightarrow> uint256 \<Rightarrow> CAmount" where
  "funds mh S k = (case S k of None \<Rightarrow> 0 | Some sc \<Rightarrow> balance sc + immature_at mh sc)"

definition total_to :: "uint256 \<Rightarrow> (uint256 \<times> CAmount) list \<Rightarrow> CAmount" where
  "total_to k ps = sum_list (map snd (filter (\<lambda>p. fst p = k) ps))"

abbreviation crs :: "CTransaction \<Rightarrow> (uint256 \<times> CAmount) list" where
  "crs tx \<equiv> map (\<lambda>cr. (generatedScId cr, cr_nValue cr)) (vsc_ccout tx)"

abbreviation csws :: "CTransaction \<Rightarrow> (uint256 \<times> CAmount) list" where
  "csws tx \<equiv> map (\<lambda>w. (csw_scId w, csw_nValue w)) (vcsw_ccin tx)"

lemma total_to_simps [simp]: "total_to k [] = 0" "total_to k (p # ps) = (if fst p = k then snd p else 0) + total_to k ps"
  by (simp_all add: total_to_def)

lemma funds_csw: "spec_csw c w = Inr c' \<Longrightarrow> funds mh (fst c') k = funds mh (fst c) k - (if csw_scId w = k then csw_nValue w else 0)"
  by (cases c) (auto simp: spec_csw_def spec_sc_Inr funds_def spend_balance_def immature_at_def split: if_splits)

lemma funds_create: "spec_create pr tx h mh c cr = Inr c' \<Longrightarrow>
    funds mh (fst c') k = funds mh (fst c) k + (if generatedScId cr = k then cr_nValue cr else 0)"
  using created_sidechain_Inr(5,6) [of pr tx h mh cr]
  by (cases c) (auto simp: spec_create_def bindR_eq_Inr funds_def immature_at_def split: if_splits)

lemma immature_at_add [simp]: "immature_at mh (add_immature a mh sc) = immature_at mh sc + a" "balance (add_immature a mh sc) = balance sc"
  by (simp_all add: immature_at_def add_immature_def)

lemma funds_credit: "spec_credit mh c p = Inr c' \<Longrightarrow> funds mh (fst c') k = funds mh (fst c) k + (if fst p = k then snd p else 0)"
  by (cases c; cases p) (auto simp: spec_credit_def spec_sc_Inr funds_def split: if_splits)

text \<open>A loop each of whose steps moves the funds by an amount moves them by the sum.\<close>

lemma funds_loop:
  assumes "foldR f c xs = Inr c'" "\<And>c c' x. f c x = Inr c' \<Longrightarrow> funds mh (fst c') k = funds mh (fst c) k + d * (if fst (g x) = k then snd (g x) else 0)"
  shows "funds mh (fst c') k = funds mh (fst c) k + d * total_to k (map g xs)"
  using assms(1)
proof (induction xs arbitrary: c)
  case (Cons x xs)
  then obtain c1 where "f c x = Inr c1" "foldR f c1 xs = Inr c'" by (auto split: sum.splits)
  then show ?case using assms(2) [of c x c1] Cons.IH [of c1] by (simp add: algebra_simps)
qed simp


section \<open>Requests that pay no fee\<close>

text \<open>
  A backward transfer request may pay no fee (\<open>AllowedZeroScValue\<close> is true for it). Two of them
  to a sidechain that gets nothing else at that maturity height leave an immature amount of zero, which
  the first revert removes and the second one then misses.
\<close>

text \<open>C8: a transaction with two backward transfer requests that pay no fee to the same sidechain is connected
  but cannot be disconnected: \<open>RevertTxOutputs\<close> returns false in every view of the chain state after it.\<close>

theorem zero_fee_requests_cannot_be_reverted:
  assumes i: "inv_connect T h mh v" and mh: "mh = h + getScCoinsMaturity pr" and sc: "scOf (vw v) k = Some sc" "mImmatureAmounts sc mh = None"
    and tx: "vcsw_ccin tx = []" "vsc_ccout tx = []" "vft_ccout tx = []" "vmbtr_out tx = [m1, m2]"
    and m: "mbtr_scId m1 = k" "mbtr_scId m2 = k" "scFee m1 = 0" "scFee m2 = 0"
  shows "\<exists>v'. UpdateSidechain_tx pr v tx h = Inr v' \<and> inv_connect T h mh v'
    \<and> (\<forall>w. inv_revert T w \<and> ledger w = ledger v' \<longrightarrow> RevertTxOutputs pr w tx h = Inl RetFalse)"
proof -
  let ?S = "(scOf (vw v))(k \<mapsto> add_immature 0 mh sc)"
  have "add_immature 0 mh (add_immature 0 mh sc) = add_immature 0 mh sc" using sc(2) by (simp add: add_immature_def)
  then have "spec_connect pr h (core_of (ledger v)) tx = Inr (?S, l_ceasing (ledger v))"
    using sc tx m by (simp add: spec_connect_def mbtrs_def fts_def spec_credit_def spec_sc_def core_of_def Let_def mh)
  then obtain v' where v': "UpdateSidechain_tx pr v tx h = Inr v'" "inv_connect T h mh v'"
    "ledger v' = upd_core mh (?S, l_ceasing (ledger v)) (\<lambda>M. M \<union> sc_targets tx) (ledger v)"
    using connect_tx_ok [OF i mh] by blast
  have "RevertTxOutputs pr w tx h = Inl RetFalse" if w: "inv_revert T w" "ledger w = ledger v'" for w
  proof -
    let ?S1 = "(scOf (vw v))(k \<mapsto> sc)"
    have cw: "core_of (ledger w) = (?S, l_ceasing (ledger v))" using w(2) v'(3) by simp
    have "sub_immature 0 mh (add_immature 0 mh sc) = Inr sc"
      using sc(2) by (simp add: sub_immature_def add_immature_def fun_upd_idem)
    then have "spec_debit mh (core_of (ledger w)) (k, 0) = Inr (?S1, l_ceasing (ledger v))"
      unfolding cw by (simp add: spec_debit_def spec_sc_def)
    then obtain w1 where w1: "RevertTxOutputs_mbtr mh w m1 = Inr w1" "core_of (ledger w1) = (?S1, l_ceasing (ledger v))"
      using unmbtr_step.step_ok [OF w(1), of mh m1] m by auto
    have "spec_sc k (sub_immature 0 mh) (core_of (ledger w1)) = Inl RetFalse"
      unfolding w1(2) using sc(2) by (simp add: spec_sc_def sub_immature_def)
    then have "RevertTxOutputs_mbtr mh w1 m2 = Inl RetFalse"
      using with_sidechain_err [OF follows_debit] m by (simp add: RevertTxOutputs_mbtr_def)
    then show ?thesis using w1(1) tx by (simp add: RevertTxOutputs_def Let_def mh)
  qed
  then show ?thesis using v' by blast
qed

section \<open>A concrete chain\<close>

definition view_example :: CCoinsViewCache where "view_example = CCoinsViewCache_new (DBView db_example)"

lemma view_example_obs [simp]:
  "scOf (vw view_example) = [7 \<mapsto> sc_example]" "evOf (vw view_example) = Map.empty" "sc_entry view_example = Map.empty"
  "ev_entry view_example = Map.empty" "wf_view (\<lambda>_. mt_empty) (vw view_example)"
  by (simp_all add: view_example_def CCoinsViewCache_new_def CacheMaps_empty_def db_example_def sc_entry_def ev_entry_def wf_cache_def fun_eq_iff)

lemma view_example_good: "good (\<lambda>_. mt_empty) n view_example" "no_erased view_example" "inv_revert (\<lambda>_. mt_empty) view_example"
  by (simp_all add: good_def no_erased_def inv_revert_def)

lemma view_example_connect: "inv_connect (\<lambda>_. mt_empty) 500 510 view_example"
  by (simp add: inv_connect_def view_example_good)

lemma view_example_core: "core_of (ledger view_example) = ([7 \<mapsto> sc_example], \<lambda>_. {})"
  by (simp add: core_of_def ev_sets_def events_null_def)

lemma maturity_main [simp]: "getScCoinsMaturity CMainParams = 10"
  by (simp add: getScCoinsMaturity_def getInitScCoinsMaturity_def CMainParams_def)

definition ft_example :: CTxForwardTransferOut where
  "ft_example = \<lparr>ft_nValue = 30, ft_address = 0, ft_scId = 7, mcReturnAddress = 0\<rparr>"

definition mbtr_example :: "CAmount \<Rightarrow> CBwtRequestOut" where
  "mbtr_example fee = \<lparr>mbtr_scId = 7, vScRequestData = [], mcDestinationAddress = 0, scFee = fee\<rparr>"

definition tx_example :: CTransaction where
  "tx_example = tx_null\<lparr>vft_ccout := [ft_example], vmbtr_out := [mbtr_example 5]\<rparr>"

definition tx_zero :: CTransaction where
  "tx_zero = tx_null\<lparr>vmbtr_out := [mbtr_example 0, mbtr_example 0]\<rparr>"

lemmas view_exec = with_sidechain_def HaveSidechain_def FetchSidechains_def fetch_sidechains_def fetch_mutable_def
  ModifySidechain_def modify_mutable_def view_example_def CCoinsViewCache_new_def CacheMaps_empty_def db_example_def
  put_sidechain_def on_events_def ModifySidechainEvents_def put_events_def add_event_def events_null_def

definition view_example_after :: CCoinsViewCache where
  "view_example_after = (CacheMaps_empty\<lparr>
     cacheSidechains := [(7, \<lparr>me_content = sc_example\<lparr>mImmatureAmounts := [510 \<mapsto> 35]\<rparr>, me_flag = DIRTY\<rparr>)],
     cacheSidechainEvents := [(510, \<lparr>me_content = events_null\<lparr>maturingScs := {7}\<rparr>, me_flag = FRESH\<rparr>)]\<rparr>, DBView db_example)"

lemma tx_example_run: "UpdateSidechain_tx CMainParams view_example tx_example 500 = Inr view_example_after"
  by (simp add: view_exec UpdateSidechain_tx_def tx_example_def tx_null_def Let_def UpdateSidechain_ft_def UpdateSidechain_mbtr_def
      ft_example_def mbtr_example_def credit_entry_def add_immature_def view_example_after_def sc_example_def CSidechain_null_def)

lemma view_example_after_revert: "inv_revert (\<lambda>_. mt_empty) view_example_after"
  by (auto simp: inv_revert_def good_def view_example_after_def CacheMaps_empty_def db_example_def wf_cache_def distinct_keys_def
      mut_ok_def isDB_def ev_entry_def me_live_def events_null_def events_IsNull_def split: if_splits)

lemma tx_example_pos: "pos_tx tx_example"
  by (simp add: pos_tx_def tx_example_def tx_null_def fts_def mbtrs_def ft_example_def mbtr_example_def)

lemma tx_example_spec:
  "spec_connect CMainParams 500 ([7 \<mapsto> sc_example], \<lambda>_. {}) tx_example = Inr ([7 \<mapsto> sc_example\<lparr>mImmatureAmounts := [510 \<mapsto> 35]\<rparr>], \<lambda>_. {})"
  "sc_targets tx_example = {7}"
  by (simp_all add: spec_connect_def tx_example_def tx_null_def Let_def fts_def mbtrs_def ft_example_def mbtr_example_def
      spec_credit_def spec_sc_def add_immature_def sc_targets_def sc_example_def CSidechain_null_def)

theorem UpdateSidechain_tx_refines_witness:
  "\<exists>v'. UpdateSidechain_tx CMainParams view_example tx_example 500 = Inr v' \<and> inv_connect (\<lambda>_. mt_empty) 500 510 v'
    \<and> ledger v' = upd_core 510 ([7 \<mapsto> sc_example\<lparr>mImmatureAmounts := [510 \<mapsto> 35]\<rparr>], \<lambda>_. {}) (\<lambda>M. M \<union> {7}) (ledger view_example)"
  using UpdateSidechain_tx_refines [of "\<lambda>_. mt_empty" 500 CMainParams view_example tx_example]
  by (simp only: view_example_connect view_example_core tx_example_spec maturity_main) (simp add: view_example_connect)



theorem zero_fee_requests_cannot_be_reverted_witness:
  "\<exists>v'. UpdateSidechain_tx CMainParams view_example tx_zero 500 = Inr v' \<and> inv_connect (\<lambda>_. mt_empty) 500 510 v'
    \<and> (\<forall>w. inv_revert (\<lambda>_. mt_empty) w \<and> ledger w = ledger v' \<longrightarrow> RevertTxOutputs CMainParams w tx_zero 500 = Inl RetFalse)"
  by (rule zero_fee_requests_cannot_be_reverted [OF view_example_connect, of _ 7 sc_example _ "mbtr_example 0" "mbtr_example 0"])
    (simp_all add: sc_example_def CSidechain_null_def tx_zero_def tx_null_def mbtr_example_def)

end
