(* ===== verification/CacheSteps.thy ===== *)
theory CacheSteps
  imports ScRoundTrip
begin

text \<open>
  What the remaining primitive operations of a cache do to the ledger: lookups, \<open>ModifyCoins\<close>,
  nullifiers of joinsplits and of ceased sidechain withdrawals, anchors and the best block.
  \<open>keeps\<close> says that a step keeps the invariant and leaves no new erased entry.
\<close>

section \<open>Steps that keep the invariant\<close>

definition csw_entry :: "CCoinsViewCache \<Rightarrow> cswkey \<Rightarrow> ImmutableFlags option" where
  "csw_entry v k = map_of (cacheCswNullifiers (fst v)) k"

definition erased_mono :: "CCoinsViewCache \<Rightarrow> CCoinsViewCache \<Rightarrow> bool" where
  "erased_mono v v' \<longleftrightarrow> (\<forall>k e. sc_entry v' k = Some e \<longrightarrow> me_flag e = ERASED \<longrightarrow> sc_entry v k = Some e)
     \<and> (\<forall>k. csw_entry v' k = Some IM_ERASED \<longrightarrow> csw_entry v k = Some IM_ERASED)"

definition keeps :: "(uint256 \<Rightarrow> ZCIncrementalMerkleTree) \<Rightarrow> CCoinsViewCache \<Rightarrow> CCoinsViewCache \<Rightarrow> bool" where
  "keeps T v v' \<longleftrightarrow> (\<forall>n. good T n v \<longrightarrow> good T n v') \<and> erased_mono v v'"

definition reads :: "CCoinsViewCache \<Rightarrow> CCoinsViewCache \<Rightarrow> bool" where
  "reads v v' \<longleftrightarrow> refines_view (vw v) (vw v') \<and> erased_mono v v'
     \<and> (\<forall>h e. ev_entry v' h = Some e \<longrightarrow> me_flag e = ERASED \<longrightarrow> ev_entry v h = Some e)"

text \<open>Steps that change events of heights from \<open>n\<close> on.\<close>

definition keeps_at :: "(uint256 \<Rightarrow> ZCIncrementalMerkleTree) \<Rightarrow> int \<Rightarrow> CCoinsViewCache \<Rightarrow> CCoinsViewCache \<Rightarrow> bool" where
  "keeps_at T n v v' \<longleftrightarrow> (\<forall>m \<le> n. good T m v \<longrightarrow> good T m v') \<and> erased_mono v v'"

lemma erased_mono_refl [simp]: "erased_mono v v" by (simp add: erased_mono_def)

lemma erased_mono_trans: "erased_mono u v \<Longrightarrow> erased_mono v w \<Longrightarrow> erased_mono u w"
  unfolding erased_mono_def by metis

lemma keeps_refl [simp]: "keeps T v v" by (simp add: keeps_def)

lemma keeps_trans: "keeps T u v \<Longrightarrow> keeps T v w \<Longrightarrow> keeps T u w"
  unfolding keeps_def using erased_mono_trans by blast

lemma keeps_good: "keeps T v v' \<Longrightarrow> good T n v \<Longrightarrow> good T n v'" by (simp add: keeps_def)

lemma keeps_no_erased: "keeps T v v' \<Longrightarrow> no_erased v \<Longrightarrow> no_erased v'"
  unfolding keeps_def erased_mono_def no_erased_def by metis

lemma keeps_inv: "keeps T v v' \<Longrightarrow> inv_connect T h mh v \<Longrightarrow> inv_connect T h mh v'" "keeps T v v' \<Longrightarrow> inv_revert T v \<Longrightarrow> inv_revert T v'"
  by (auto simp: inv_connect_def inv_revert_def keeps_good keeps_no_erased)

lemma keeps_at_keeps: "keeps T v v' \<Longrightarrow> keeps_at T n v v'" by (simp add: keeps_def keeps_at_def)

lemma keeps_at_trans: "keeps_at T n u v \<Longrightarrow> keeps_at T n v w \<Longrightarrow> keeps_at T n u w"
  unfolding keeps_at_def using erased_mono_trans by blast

lemma keeps_at_good: "keeps_at T n v v' \<Longrightarrow> good T n v \<Longrightarrow> good T n v'" by (simp add: keeps_at_def)

lemma keeps_at_no_erased: "keeps_at T n v v' \<Longrightarrow> no_erased v \<Longrightarrow> no_erased v'"
  unfolding keeps_at_def erased_mono_def no_erased_def by metis

lemma keeps_at_connect: "keeps_at T h v v' \<Longrightarrow> inv_connect T h mh v \<Longrightarrow> inv_connect T h mh v'"
  by (auto simp: inv_connect_def keeps_at_good keeps_at_no_erased)

lemma keeps_at_revert: "keeps_at T n v v' \<Longrightarrow> inv_revert T v \<Longrightarrow> inv_revert T v'"
  unfolding inv_revert_def keeps_at_def by (metis good_mono min.cobounded1 min.cobounded2)

lemma reads_refl [simp]: "reads v v" by (simp add: reads_def)

lemma reads_trans: "reads u v \<Longrightarrow> reads v w \<Longrightarrow> reads u w"
  unfolding reads_def using erased_mono_trans refines_view_trans by meson

lemma reads_ledger: "reads v v' \<Longrightarrow> ledger v' = ledger v" by (simp add: reads_def ledger_refines)

lemma reads_keeps: "reads v v' \<Longrightarrow> keeps T v v'"
  unfolding keeps_def reads_def erased_mono_def by (intro conjI allI impI) (rule refines_good [of v], auto)

section \<open>Lookups\<close>

lemma CacheGetSidechain_reads:
  assumes "CacheGetSidechain v k = (v', r)" shows "r = l_sc (ledger v) k" "reads v v'"
proof -
  obtain c b where v: "v = (c, b)" by (cases v)
  have G: "GetSidechain (CacheGet c b) k = (vw v', r)" if "CacheGet = CacheView" for CacheGet
    using assms by (auto simp: that CacheGetSidechain_def FetchSidechains_def v split: prod.splits)
  note S = sc_lookup.get_eq [OF G [OF refl]]
  show "r = l_sc (ledger v) k" using S v by simp
  have "sc_entry v' j = Some e \<Longrightarrow> me_flag e = ERASED \<Longrightarrow> sc_entry v j = Some e" "ev_entry v' = ev_entry v" "csw_entry v' = csw_entry v" for j e
    using assms by (auto simp: CacheGetSidechain_def FetchSidechains_def v sc_entry_def ev_entry_def csw_entry_def fetch_sidechains_def
        fetch_mutable_def fun_eq_iff Let_def split: option.splits if_splits)
  then show "reads v v'" using S v by (simp add: reads_def erased_mono_def)
qed

lemma CacheGetSidechainEvents_reads:
  assumes "CacheGetSidechainEvents v h = (v', r)" shows "r = evOf (vw v) h" "reads v v'"
proof -
  obtain c b where v: "v = (c, b)" by (cases v)
  have G: "GetSidechainEvents (CacheGet c b) h = (vw v', r)" if "CacheGet = CacheView" for CacheGet
    using assms by (auto simp: that CacheGetSidechainEvents_def FetchSidechainEvents_def v split: prod.splits)
  note S = ev_lookup.get_eq [OF G [OF refl]]
  show "r = evOf (vw v) h" using S v by simp
  have "ev_entry v' j = Some e \<Longrightarrow> me_flag e = ERASED \<Longrightarrow> ev_entry v j = Some e" "sc_entry v' = sc_entry v" "csw_entry v' = csw_entry v" for j e
    using assms by (auto simp: CacheGetSidechainEvents_def FetchSidechainEvents_def v sc_entry_def ev_entry_def csw_entry_def fetch_events_def
        fetch_mutable_def fun_eq_iff Let_def split: option.splits if_splits)
  then show "reads v v'" using S v by (simp add: reads_def erased_mono_def)
qed

lemma HaveSidechain_get: "HaveSidechain v k = (case CacheGetSidechain v k of (v', r) \<Rightarrow> (v', r \<noteq> None))"
  by (auto simp: HaveSidechain_def CacheGetSidechain_def me_live_def split: prod.splits option.splits)

lemma HaveSidechainEvents_get: "HaveSidechainEvents v k = (case CacheGetSidechainEvents v k of (v', r) \<Rightarrow> (v', r \<noteq> None))"
  by (auto simp: HaveSidechainEvents_def CacheGetSidechainEvents_def me_live_def split: prod.splits option.splits)

lemma HaveSidechain_reads:
  assumes "HaveSidechain v k = (v', r)" shows "r \<longleftrightarrow> l_sc (ledger v) k \<noteq> None" "reads v v'"
  using assms CacheGetSidechain_reads [of v k v'] by (auto simp: HaveSidechain_get split: prod.splits)

lemma HaveSidechainEvents_reads:
  assumes "HaveSidechainEvents v k = (v', r)" shows "r \<longleftrightarrow> evOf (vw v) k \<noteq> None" "reads v v'"
  using assms CacheGetSidechainEvents_reads [of v k v'] by (auto simp: HaveSidechainEvents_get split: prod.splits)

lemma AccessCoins_reads:
  assumes "AccessCoins v k = (v', r)" shows "r = coinsOf (vw v) k" "reads v v'"
proof -
  obtain c b where v: "v = (c, b)" by (cases v)
  have G: "GetCoins (CacheGet c b) k = (vw v', r)" if "CacheGet = CacheView" for CacheGet
    using assms by (auto simp: that AccessCoins_def FetchCoins_def v split: prod.splits)
  note S = coins_lookup.get_eq [OF G [OF refl]]
  show "r = coinsOf (vw v) k" using S v by simp
  have "sc_entry v' = sc_entry v" "ev_entry v' = ev_entry v" "csw_entry v' = csw_entry v"
    using assms by (auto simp: AccessCoins_def FetchCoins_def v sc_entry_def ev_entry_def csw_entry_def fetch_coins_def
        fun_eq_iff Let_def split: option.splits prod.splits)
  then show "reads v v'" using S v by (simp add: reads_def erased_mono_def)
qed

lemma HaveCoins_reads:
  assumes "HaveCoins v k = (v', r)" "good T n v" shows "r \<longleftrightarrow> l_coins (ledger v) k \<noteq> None" "reads v v'"
proof -
  obtain s where s: "AccessCoins v k = (v', s)" "r \<longleftrightarrow> (\<exists>c. s = Some c \<and> vout c \<noteq> [])"
    using assms(1) by (auto simp: HaveCoins_def AccessCoins_def split: prod.splits option.splits)
  note A = AccessCoins_reads [OF s(1)]
  show "reads v v'" by (rule A(2))
  show "r \<longleftrightarrow> l_coins (ledger v) k \<noteq> None"
    using s(2) A(1) coinsOf_clean [OF goodD(1) [OF assms(2)], of k] by (cases "coinsOf (vw v) k") (auto simp: normC_def clean_pruned)
qed

section \<open>Coins\<close>

text \<open>The record \<open>ModifyCoins\<close> hands out.\<close>

definition coins_at :: "CCoinsViewCache \<Rightarrow> uint256 \<Rightarrow> CCoins" where
  "coins_at v k = (case coinsOf (vw v) k of None \<Rightarrow> Clear CCoins_new | Some c \<Rightarrow> c)"

lemma coins_at_ledger: "normC (Some (coins_at v k)) = l_coins (ledger v) k"
  by (auto simp: coins_at_def normC_def Clear_def IsPruned_def split: option.splits)

lemma coins_at_clean: "good T n v \<Longrightarrow> clean_coins (coins_at v k)"
  using coinsOf_clean [OF goodD(1), of T n v k] by (auto simp: coins_at_def Clear_def split: option.splits)

definition put_coins :: "CCoinsViewCache \<Rightarrow> uint256 \<Rightarrow> CCoinsCacheEntry \<Rightarrow> CCoinsViewCache" where
  "put_coins v k e = (case v of (c, b) \<Rightarrow>
     (if ce_fresh e \<and> IsPruned (ce_coins e) then c\<lparr>cacheCoins := AList.delete k (cacheCoins c)\<rparr>
      else c\<lparr>cacheCoins := AList.update k e (cacheCoins c)\<rparr>, b))"

lemma put_coins_same:
  "scOf (vw (put_coins v k e)) = scOf (vw v)" "evOf (vw (put_coins v k e)) = evOf (vw v)"
  "anchorOf (vw (put_coins v k e)) = anchorOf (vw v)" "nfOf (vw (put_coins v k e)) = nfOf (vw v)" "cswOf (vw (put_coins v k e)) = cswOf (vw v)"
  "bestOf (vw (put_coins v k e)) = bestOf (vw v)" "bestAnchorOf (vw (put_coins v k e)) = bestAnchorOf (vw v)"
  "sc_entry (put_coins v k e) = sc_entry v" "ev_entry (put_coins v k e) = ev_entry v" "csw_entry (put_coins v k e) = csw_entry v"
  by (cases v; simp add: put_coins_def sc_entry_def ev_entry_def csw_entry_def fun_eq_iff)+

lemma put_coins_wf:
  assumes wf: "wf_view T (CacheView c b)" and ok: "coins_ok (coinsOf b k) (holdsC b k) e"
  shows "wf_view T (vw (put_coins (c, b) k e))"
  using assms by (simp add: put_coins_def wf_cache_def delete_conv' restrict_map_def del: split_paired_All)

lemma put_coins_obs:
  assumes "coins_ok (coinsOf b k) (holdsC b k) e"
  shows "normC (coinsOf (vw (put_coins (c, b) k e)) j) = (if j = k then normC (Some (ce_coins e)) else normC (coinsOf (CacheView c b) j))"
  using assms by (auto simp: put_coins_def coins_ok_def delete_conv' restrict_map_def normC_Some split: option.splits)

lemma put_coins_step:
  assumes wf: "wf_view T (CacheView c b)" and ok: "coins_ok (coinsOf b k) (holdsC b k) e"
  shows "keeps T (c, b) (put_coins (c, b) k e)"
    "ledger (put_coins (c, b) k e) = (ledger (c, b))\<lparr>l_coins := (l_coins (ledger (c, b)))(k := normC (Some (ce_coins e)))\<rparr>"
proof -
  show "keeps T (c, b) (put_coins (c, b) k e)"
    unfolding keeps_def erased_mono_def put_coins_same good_def using put_coins_wf [OF _ ok] by simp
  show "ledger (put_coins (c, b) k e) = (ledger (c, b))\<lparr>l_coins := (l_coins (ledger (c, b)))(k := normC (Some (ce_coins e)))\<rparr>"
    unfolding ledger_of_def put_coins_same put_coins_obs [OF ok] by (simp add: fun_eq_iff)
qed

lemma ModifyCoins_put:
  assumes g: "good T n v"
  obtains w e where "reads v w" "coins_ok (coinsOf (snd w) k) (holdsC (snd w) k) \<lparr>ce_coins = coins_at v k, ce_dirty = True, ce_fresh = e\<rparr>"
    "ModifyCoins v k f = bindR (f (coins_at v k)) (\<lambda>(c, x). Inr (put_coins w k \<lparr>ce_coins = Cleanup c, ce_dirty = True, ce_fresh = e\<rparr>, x))"
proof -
  obtain c b where v: "v = (c, b)" by (cases v)
  have wf: "wf_cache T c b" "wf_view T b" using goodD(1) [OF g] v by simp_all
  show thesis
  proof (cases "map_of (cacheCoins c) k")
    case (Some e)
    show ?thesis
    proof (rule that [of v "ce_fresh e"])
      show "coins_ok (coinsOf (snd v) k) (holdsC (snd v) k) \<lparr>ce_coins = coins_at v k, ce_dirty = True, ce_fresh = ce_fresh e\<rparr>"
        using wf_cacheD(7) [OF wf(1) Some] Some v by (auto simp: coins_ok_def coins_at_def)
      show "ModifyCoins v k f = bindR (f (coins_at v k)) (\<lambda>(c, x). Inr (put_coins v k \<lparr>ce_coins = Cleanup c, ce_dirty = True, ce_fresh = ce_fresh e\<rparr>, x))"
        using Some v by (simp add: ModifyCoins_def coins_at_def put_coins_def Let_def cong: if_cong)
    qed simp
  next
    case None
    obtain b' r where r: "GetCoins b k = (b', r)" by fastforce
    note G = coins_lookup.get_eq [OF r]
    have at: "coins_at v k = (case r of None \<Rightarrow> Clear CCoins_new | Some x \<Rightarrow> x)" using None G v by (simp add: coins_at_def)
    have b': "coinsOf b' k = r" using G by (auto simp: refines_view_def same_obs_def)
    let ?e = "case r of None \<Rightarrow> True | Some x \<Rightarrow> IsPruned x"
    show ?thesis
    proof (rule that [of "(c, b')" ?e])
      show "reads v (c, b')" using refines_view_base G v by (simp add: reads_def erased_mono_def sc_entry_def ev_entry_def csw_entry_def)
      show "coins_ok (coinsOf (snd (c, b')) k) (holdsC (snd (c, b')) k) \<lparr>ce_coins = coins_at v k, ce_dirty = True, ce_fresh = ?e\<rparr>"
        using GetCoins_pure [of b k] b' at coins_at_clean [OF g, of k] r by (auto simp: coins_ok_def normC_def split: option.splits)
      show "ModifyCoins v k f = bindR (f (coins_at v k)) (\<lambda>(d, x). Inr (put_coins (c, b') k \<lparr>ce_coins = Cleanup d, ce_dirty = True, ce_fresh = ?e\<rparr>, x))"
        using None v r at by (cases r) (simp_all add: ModifyCoins_def put_coins_def Let_def cong: if_cong)
    qed
  qed
qed

lemma ModifyCoins_err: "good T n v \<Longrightarrow> f (coins_at v k) = Inl e \<Longrightarrow> ModifyCoins v k f = Inl e"
  by (rule ModifyCoins_put [of T n v k f]) simp_all

lemma ModifyCoins_ok:
  assumes g: "good T n v" and f: "f (coins_at v k) = Inr (c, x)" and c: "clean_coins (Cleanup c)"
  obtains v' where "ModifyCoins v k f = Inr (v', x)" "keeps T v v'"
    "ledger v' = (ledger v)\<lparr>l_coins := (l_coins (ledger v))(k := normC (Some (Cleanup c)))\<rparr>"
proof -
  obtain w e where w: "reads v w" "coins_ok (coinsOf (snd w) k) (holdsC (snd w) k) \<lparr>ce_coins = coins_at v k, ce_dirty = True, ce_fresh = e\<rparr>"
    "ModifyCoins v k f = bindR (f (coins_at v k)) (\<lambda>(c, x). Inr (put_coins w k \<lparr>ce_coins = Cleanup c, ce_dirty = True, ce_fresh = e\<rparr>, x))"
    by (rule ModifyCoins_put [OF g, of k f])
  obtain m b where m: "w = (m, b)" by (cases w)
  have wf: "wf_view T (CacheView m b)" using goodD(1) [OF keeps_good [OF reads_keeps [OF w(1)] g]] m by simp
  have ok: "coins_ok (coinsOf b k) (holdsC b k) \<lparr>ce_coins = Cleanup c, ce_dirty = True, ce_fresh = e\<rparr>"
    using w(2) c m by (simp add: coins_ok_def)
  note P = put_coins_step [OF wf ok]
  show thesis
  proof (rule that)
    show "ModifyCoins v k f = Inr (put_coins w k \<lparr>ce_coins = Cleanup c, ce_dirty = True, ce_fresh = e\<rparr>, x)" using w(3) f by simp
    show "keeps T v (put_coins w k \<lparr>ce_coins = Cleanup c, ce_dirty = True, ce_fresh = e\<rparr>)"
      using keeps_trans [OF reads_keeps [OF w(1)]] P(1) m by simp
    show "ledger (put_coins w k \<lparr>ce_coins = Cleanup c, ce_dirty = True, ce_fresh = e\<rparr>)
        = (ledger v)\<lparr>l_coins := (l_coins (ledger v))(k := normC (Some (Cleanup c)))\<rparr>"
      using P(2) unfolding m [symmetric] reads_ledger [OF w(1)] by simp
  qed
qed

section \<open>Nullifiers of joinsplits\<close>

lemma SetNullifier_step: "keeps T v (SetNullifier v nf s)" "ledger (SetNullifier v nf s) = (ledger v)\<lparr>l_nf := (l_nf (ledger v))(nf := s)\<rparr>"
proof -
  obtain c b where v: "v = (c, b)" by (cases v)
  have w: "wf_view T (vw (SetNullifier v nf s))" if "wf_view T (vw v)" for T
    using that v by (simp add: SetNullifier_def wf_cache_def del: split_paired_All)
  have e: "evOf (vw (SetNullifier v nf s)) = evOf (vw v)" "sc_entry (SetNullifier v nf s) = sc_entry v"
    "ev_entry (SetNullifier v nf s) = ev_entry v" "csw_entry (SetNullifier v nf s) = csw_entry v"
    by (simp_all add: v SetNullifier_def sc_entry_def ev_entry_def csw_entry_def fun_eq_iff)
  show "keeps T v (SetNullifier v nf s)" unfolding keeps_def erased_mono_def good_def e using w by simp
  show "ledger (SetNullifier v nf s) = (ledger v)\<lparr>l_nf := (l_nf (ledger v))(nf := s)\<rparr>"
    by (simp add: v SetNullifier_def ledger_of_def fun_eq_iff)
qed

section \<open>Best block and anchors\<close>

lemma SetBestBlock_step:
  "keeps T v (SetBestBlock v h)" "h \<noteq> 0 \<Longrightarrow> ledger (SetBestBlock v h) = (ledger v)\<lparr>l_best := h\<rparr>"
proof -
  obtain c b where v: "v = (c, b)" by (cases v)
  have w: "wf_view T (vw (SetBestBlock v h))" if "wf_view T (vw v)" for T
    using that v by (simp add: SetBestBlock_def wf_cache_def del: split_paired_All)
  have e: "evOf (vw (SetBestBlock v h)) = evOf (vw v)" "sc_entry (SetBestBlock v h) = sc_entry v"
    "ev_entry (SetBestBlock v h) = ev_entry v" "csw_entry (SetBestBlock v h) = csw_entry v"
    by (simp_all add: v SetBestBlock_def sc_entry_def ev_entry_def csw_entry_def fun_eq_iff)
  show "keeps T v (SetBestBlock v h)" unfolding keeps_def erased_mono_def good_def e using w by simp
  show "h \<noteq> 0 \<Longrightarrow> ledger (SetBestBlock v h) = (ledger v)\<lparr>l_best := h\<rparr>"
    by (simp add: v SetBestBlock_def ledger_of_def fun_eq_iff)
qed

lemma vw_cases: "(case vw v of CacheView c b \<Rightarrow> f c b | DBView d \<Rightarrow> g d) = f (fst v) (snd v)"
  by (simp add: vw_def)

lemma GetBestAnchor_reads:
  obtains c' b' where "GetBestAnchor (vw v) = (CacheView c' b', l_bestAnchor (ledger v))" "reads v (c', b')"
    "hashAnchor c' = l_bestAnchor (ledger v)"
proof -
  obtain c b where v: "v = (c, b)" by (cases v)
  obtain b1 h where b1: "GetBestAnchor b = (b1, h)" by fastforce
  obtain c' b' where c': "GetBestAnchor (vw v) = (CacheView c' b', hashAnchor c')" "cacheSidechains c' = cacheSidechains c"
    "cacheSidechainEvents c' = cacheSidechainEvents c" "cacheCswNullifiers c' = cacheCswNullifiers c"
    by (cases "hashAnchor c = 0", rule that [of "c\<lparr>hashAnchor := h\<rparr>" b1], simp_all add: v b1)
  have "GetBestAnchor (vw v) = (CacheView c' b', hashAnchor c')" by (rule c'(1))
  from bestAnchor_lookup.get_eq [OF this] have S: "hashAnchor c' = bestAnchorOf (vw v)" "refines_view (vw v) (CacheView c' b')" by simp_all
  have "reads v (c', b')" using S(2) c'(2-4) v by (simp add: reads_def erased_mono_def sc_entry_def ev_entry_def csw_entry_def)
  then show thesis using that c'(1) S(1) by simp
qed

definition put_anchor :: "CCoinsViewCache \<Rightarrow> uint256 \<Rightarrow> CAnchorsCacheEntry \<Rightarrow> uint256 \<Rightarrow> CCoinsViewCache" where
  "put_anchor v k e rt = (case v of (c, b) \<Rightarrow> (c\<lparr>cacheAnchors := AList.update k e (cacheAnchors c), hashAnchor := rt\<rparr>, b))"

lemma put_anchor_step:
  assumes e: "\<And>n. good T n v \<Longrightarrow> anchor_ok T (snd v) k e" and rt: "rt \<noteq> 0"
  shows "keeps T v (put_anchor v k e rt)"
    "ledger (put_anchor v k e rt) = (ledger v)\<lparr>l_anchors := (l_anchors (ledger v))(k := if ae_entered e then Some (ae_tree e) else None), l_bestAnchor := rt\<rparr>"
proof -
  obtain c b where v: "v = (c, b)" by (cases v)
  have w: "wf_view T (vw (put_anchor v k e rt))" if "good T n v" for n
    using goodD(1) [OF that] e [OF that] v by (simp add: put_anchor_def wf_cache_def del: split_paired_All)
  have s: "evOf (vw (put_anchor v k e rt)) = evOf (vw v)" "sc_entry (put_anchor v k e rt) = sc_entry v"
    "ev_entry (put_anchor v k e rt) = ev_entry v" "csw_entry (put_anchor v k e rt) = csw_entry v"
    by (simp_all add: v put_anchor_def sc_entry_def ev_entry_def csw_entry_def fun_eq_iff)
  have "good T n (put_anchor v k e rt)" if "good T n v" for n
    using w [OF that] that unfolding good_def s by blast
  then show "keeps T v (put_anchor v k e rt)" unfolding keeps_def erased_mono_def s by simp
  show "ledger (put_anchor v k e rt) = (ledger v)\<lparr>l_anchors := (l_anchors (ledger v))(k := if ae_entered e then Some (ae_tree e) else None), l_bestAnchor := rt\<rparr>"
    using rt by (simp add: v put_anchor_def ledger_of_def fun_eq_iff)
qed

lemma emptyRoot_T: "wf_view T v \<Longrightarrow> T (emptyRootOf v) = mt_empty"
  by (induction v) simp_all

lemma PushAnchor_step:
  assumes t: "t = T rt" and rt: "rt \<noteq> 0"
  shows "keeps T v (PushAnchor v rt t)"
    "ledger (PushAnchor v rt t) = (ledger v)\<lparr>l_anchors := if l_bestAnchor (ledger v) \<noteq> rt then (l_anchors (ledger v))(rt \<mapsto> t) else l_anchors (ledger v), l_bestAnchor := rt\<rparr>"
proof -
  obtain c' b' where c': "GetBestAnchor (vw v) = (CacheView c' b', l_bestAnchor (ledger v))" "reads v (c', b')"
    "hashAnchor c' = l_bestAnchor (ledger v)" by (rule GetBestAnchor_reads)
  let ?e = "\<lparr>ae_entered = True, ae_tree = t, ae_dirty = True\<rparr>"
  have p: "PushAnchor v rt t = (if l_bestAnchor (ledger v) \<noteq> rt then put_anchor (c', b') rt ?e rt else (c', b'))"
    using c'(1) by (cases v) (simp add: PushAnchor_def put_anchor_def)
  have "anchor_ok T (snd (c', b')) rt ?e" using t by (simp add: anchor_ok_def)
  note P = put_anchor_step [of T "(c', b')" rt ?e, OF this rt]
  show "keeps T v (PushAnchor v rt t)" unfolding p using keeps_trans [OF reads_keeps [OF c'(2)] P(1)] reads_keeps [OF c'(2)] by simp
  show "ledger (PushAnchor v rt t) = (ledger v)\<lparr>l_anchors := if l_bestAnchor (ledger v) \<noteq> rt then (l_anchors (ledger v))(rt \<mapsto> t) else l_anchors (ledger v), l_bestAnchor := rt\<rparr>"
  proof (cases "l_bestAnchor (ledger v) = rt")
    case True
    then have "ledger v = (ledger v)\<lparr>l_bestAnchor := rt\<rparr>" by (metis Ledger.surjective Ledger.update_convs(9))
    then show ?thesis unfolding p using True reads_ledger [OF c'(2)] by (simp del: ledger_sel)
  next
    case False
    then show ?thesis unfolding p if_P [OF False] P(2) reads_ledger [OF c'(2)] by simp
  qed
qed

lemma PopAnchor_step:
  assumes g: "good T n v" and a: "l_anchors (ledger v) (l_bestAnchor (ledger v)) = Some t" and t: "t \<noteq> mt_empty \<or> l_bestAnchor (ledger v) = rt" and rt: "rt \<noteq> 0"
  obtains v' where "PopAnchor v rt = Inr v'" "keeps T v v'"
    "ledger v' = (ledger v)\<lparr>l_anchors := if l_bestAnchor (ledger v) \<noteq> rt then (l_anchors (ledger v))(l_bestAnchor (ledger v) := None) else l_anchors (ledger v), l_bestAnchor := rt\<rparr>"
proof -
  let ?r = "l_bestAnchor (ledger v)"
  obtain c1 b1 where c1: "GetBestAnchor (vw v) = (CacheView c1 b1, ?r)" "reads v (c1, b1)" "hashAnchor c1 = ?r" by (rule GetBestAnchor_reads)
  obtain w s where w: "GetAnchorAt (CacheView c1 b1) ?r = (w, s)" by fastforce
  obtain c2 b2 where c2: "w = CacheView c2 b2" "cacheSidechains c2 = cacheSidechains c1"
    "cacheSidechainEvents c2 = cacheSidechainEvents c1" "cacheCswNullifiers c2 = cacheCswNullifiers c1"
    using w by (auto split: option.splits prod.splits)
  note S = anchor_lookup.get_eq [OF w]
  have s: "s = Some t" using S a reads_ledger [OF c1(2)] by (metis ledger_sel(5) vw_pair)
  have r2: "reads (c1, b1) (c2, b2)" using S c2 by (simp add: reads_def erased_mono_def sc_entry_def ev_entry_def csw_entry_def)
  note R = reads_trans [OF c1(2) r2]
  let ?e = "\<lparr>ae_entered = False, ae_tree = t, ae_dirty = True\<rparr>"
  have p: "PopAnchor v rt = Inr (if ?r \<noteq> rt then put_anchor (c2, b2) ?r ?e rt else (c1, b1))"
    using c1(1) w c2(1) s by (cases v) (simp add: PopAnchor_def put_anchor_def)
  show thesis
  proof (cases "?r = rt")
    case True
    then have "ledger v = (ledger v)\<lparr>l_bestAnchor := rt\<rparr>" by (metis Ledger.surjective Ledger.update_convs(9))
    then show thesis using that [of "(c1, b1)"] p True reads_ledger [OF c1(2)] reads_keeps [OF c1(2)] by (simp del: ledger_sel)
  next
    case False
    have "anchor_ok T b2 ?r ?e" if "good T m (c2, b2)" for m
    proof -
      have wf: "wf_view T (vw v)" "wf_view T b2" using goodD(1) [OF g] goodD(1) [OF that] by simp_all
      have "t = T ?r" using anchorOf_T [OF wf(1)] a by simp
      then show ?thesis using emptyRoot_T [OF wf(2)] t False by (auto simp: anchor_ok_def)
    qed
    then have A: "\<And>m. good T m (c2, b2) \<Longrightarrow> anchor_ok T (snd (c2, b2)) ?r ?e" by simp
    note P = put_anchor_step [of T "(c2, b2)" ?r ?e, OF A rt]
    show thesis
    proof (rule that)
      show "PopAnchor v rt = Inr (put_anchor (c2, b2) ?r ?e rt)" using p False by simp
      show "keeps T v (put_anchor (c2, b2) ?r ?e rt)" by (rule keeps_trans [OF reads_keeps [OF R] P(1)])
    qed (use P(2) reads_ledger [OF R] False in \<open>simp del: ledger_sel\<close>)
  qed
qed

section \<open>Nullifiers of ceased sidechain withdrawals\<close>

lemma HaveCswNullifier_reads:
  obtains c' b' where "HaveCswNullifier (vw v) k = (CacheView c' b', l_csw (ledger v) k)" "reads v (c', b')"
    "l_csw (ledger v) k \<Longrightarrow> \<exists>f. csw_entry (c', b') k = Some f" "\<not> l_csw (ledger v) k \<Longrightarrow> csw_entry (c', b') k = csw_entry v k"
proof -
  obtain c b where v: "v = (c, b)" by (cases v)
  obtain w r where w: "HaveCswNullifier (vw v) k = (w, r)" by fastforce
  obtain c' b' where c': "w = CacheView c' b'" "cacheSidechains c' = cacheSidechains c" "cacheSidechainEvents c' = cacheSidechainEvents c"
    "csw_entry (c', b') j = csw_entry v j \<or> csw_entry (c', b') j = Some IM_DEFAULT" "r \<Longrightarrow> \<exists>f. csw_entry (c', b') k = Some f"
    "\<not> r \<Longrightarrow> csw_entry (c', b') k = csw_entry v k" for j
    using w by (auto simp: v csw_entry_def split: option.splits prod.splits bool.splits if_splits)
  note S = csw_lookup.get_eq [OF w]
  have r: "r = l_csw (ledger v) k" using S by simp
  have "csw_entry (c', b') j = Some IM_ERASED \<Longrightarrow> csw_entry v j = Some IM_ERASED" for j using c'(4) [of j] by auto
  then have "reads v (c', b')" using S c' v unfolding reads_def erased_mono_def sc_entry_def ev_entry_def by simp
  then show thesis using that w c'(1,5,6) r by simp
qed

definition put_csw :: "CCoinsViewCache \<Rightarrow> cswkey \<Rightarrow> ImmutableFlags \<Rightarrow> CCoinsViewCache" where
  "put_csw v k f = (case v of (c, b) \<Rightarrow> (c\<lparr>cacheCswNullifiers := AList.update k f (cacheCswNullifiers c)\<rparr>, b))"

lemma put_csw_step:
  assumes f: "\<And>n. good T n v \<Longrightarrow> csw_ok (isDB (snd v)) (cswOf (snd v) k) (holdsX (snd v) k) f"
  shows "good T n v \<Longrightarrow> good T n (put_csw v k f)" "f \<noteq> IM_ERASED \<Longrightarrow> erased_mono v (put_csw v k f)"
    "ledger (put_csw v k f) = (ledger v)\<lparr>l_csw := (l_csw (ledger v))(k := f \<noteq> IM_ERASED)\<rparr>" "no_erased (put_csw v k f) = no_erased v"
proof -
  obtain c b where v: "v = (c, b)" by (cases v)
  have s: "evOf (vw (put_csw v k f)) = evOf (vw v)" "sc_entry (put_csw v k f) = sc_entry v"
    "ev_entry (put_csw v k f) = ev_entry v" "csw_entry (put_csw v k f) = (csw_entry v)(k \<mapsto> f)"
    by (simp_all add: v put_csw_def sc_entry_def ev_entry_def csw_entry_def fun_eq_iff del: split_paired_All)
  show "good T n (put_csw v k f)" if g: "good T n v"
  proof -
    have "wf_view T (vw (put_csw v k f))"
      using goodD(1) [OF g] f [OF g] v by (simp add: put_csw_def wf_cache_def del: split_paired_All)
    then show ?thesis using g unfolding good_def s by blast
  qed
  show "f \<noteq> IM_ERASED \<Longrightarrow> erased_mono v (put_csw v k f)" unfolding erased_mono_def s by simp
  show "no_erased (put_csw v k f) = no_erased v" unfolding no_erased_def s by simp
  show "ledger (put_csw v k f) = (ledger v)\<lparr>l_csw := (l_csw (ledger v))(k := f \<noteq> IM_ERASED)\<rparr>"
    by (simp add: v put_csw_def ledger_of_def fun_eq_iff del: split_paired_All)
qed

lemma csw_below: "csw_entry (c, b) k = None \<Longrightarrow> cswOf b k = l_csw (ledger (c, b)) k"
  by (simp add: csw_entry_def)

lemma AddCswNullifier_step:
  assumes n: "\<not> l_csw (ledger v) k" and e: "csw_entry v k \<noteq> Some IM_ERASED"
  obtains v' where "AddCswNullifier v k = (v', True)" "keeps T v v'" "ledger v' = (ledger v)\<lparr>l_csw := (l_csw (ledger v))(k := True)\<rparr>"
proof -
  obtain c' b' where c': "HaveCswNullifier (vw v) k = (CacheView c' b', l_csw (ledger v) k)" "reads v (c', b')"
    "\<not> l_csw (ledger v) k \<Longrightarrow> csw_entry (c', b') k = csw_entry v k" using HaveCswNullifier_reads [of v k] by metis
  have "csw_entry v k = None"
    using n e by (cases v) (auto simp: csw_entry_def split: option.splits)
  then have N: "csw_entry (c', b') k = None" using c'(3) n by simp
  have "\<not> cswOf b' k" using csw_below [OF N] reads_ledger [OF c'(2)] n by metis
  then have "csw_ok (isDB (snd (c', b'))) (cswOf (snd (c', b')) k) (holdsX (snd (c', b')) k) IM_FRESH" by (simp add: csw_ok_def)
  note P = put_csw_step [OF this]
  show thesis
  proof (rule that)
    show "AddCswNullifier v k = (put_csw (c', b') k IM_FRESH, True)"
      using c'(1) n N by (cases v) (simp add: AddCswNullifier_def put_csw_def csw_entry_def)
    show "keeps T v (put_csw (c', b') k IM_FRESH)"
      by (rule keeps_trans [OF reads_keeps [OF c'(2)]]) (simp add: keeps_def P(1,2))
    show "ledger (put_csw (c', b') k IM_FRESH) = (ledger v)\<lparr>l_csw := (l_csw (ledger v))(k := True)\<rparr>"
      using P(3) reads_ledger [OF c'(2)] by (simp del: ledger_sel)
  qed
qed

lemma AddCswNullifier_fails:
  assumes "l_csw (ledger v) k" shows "snd (AddCswNullifier v k) = False"
proof -
  obtain c' b' where "HaveCswNullifier (vw v) k = (CacheView c' b', True)" using HaveCswNullifier_reads [of v k] assms by metis
  then show ?thesis by (cases v) (simp add: AddCswNullifier_def)
qed

lemma RemoveCswNullifier_step:
  assumes n: "l_csw (ledger v) k"
  obtains v' where "RemoveCswNullifier v k = (v', True)" "\<And>n. good T n v \<Longrightarrow> good T n v'"
    "ledger v' = (ledger v)\<lparr>l_csw := (l_csw (ledger v))(k := False)\<rparr>"
proof -
  obtain c' b' f where c': "HaveCswNullifier (vw v) k = (CacheView c' b', l_csw (ledger v) k)" "reads v (c', b')"
    "csw_entry (c', b') k = Some f" using HaveCswNullifier_reads [of v k] n by metis
  have "csw_ok (isDB b') (cswOf b' k) (holdsX b' k) IM_ERASED" if "good T n (c', b')" for n
  proof -
    have "csw_ok (isDB b') (cswOf b' k) (holdsX b' k) f"
      using wf_cacheD(12) [of T c' b' k f] goodD(1) [OF that] c'(3) by (simp add: csw_entry_def)
    then show ?thesis using isDB_holds(3) [of b' k] by (auto simp: csw_ok_def split: ImmutableFlags.splits)
  qed
  then have A: "\<And>n. good T n (c', b') \<Longrightarrow> csw_ok (isDB (snd (c', b'))) (cswOf (snd (c', b')) k) (holdsX (snd (c', b')) k) IM_ERASED" by simp
  note P = put_csw_step [OF A]
  show thesis
  proof (rule that)
    show "RemoveCswNullifier v k = (put_csw (c', b') k IM_ERASED, True)"
      using c'(1) n by (cases v) (simp add: RemoveCswNullifier_def put_csw_def)
    show "good T n (put_csw (c', b') k IM_ERASED)" if "good T n v" for n
      by (rule P(1) [OF _ keeps_good [OF reads_keeps [OF c'(2)] that]])
    show "ledger (put_csw (c', b') k IM_ERASED) = (ledger v)\<lparr>l_csw := (l_csw (ledger v))(k := False)\<rparr>"
      using P(3) reads_ledger [OF c'(2)] by (simp del: ledger_sel)
  qed
qed

end
