(* ===== verification/CoinOps.thy ===== *)
theory CoinOps
  imports CacheSteps
begin

text \<open>
  Spending and restoring transparent outputs: \<open>CTxInUndo\<close> of \<open>undo.h\<close>, \<open>UpdateCoins\<close>,
  \<open>ApplyTxInUndo\<close> and the coin part of \<open>DisconnectBlock\<close> of \<open>main.cpp\<close>, and
  \<open>NullifyBackwardTransfers\<close> and \<open>RestoreBackwardTransfers\<close> of \<open>coins.cpp\<close>. The undo data that
  the first functions build makes the others restore every record exactly.
\<close>

section \<open>Undo data of one output\<close>

record CTxInUndo =
  u_txout :: CTxOut
  u_fCoinBase :: bool
  u_nHeight :: int
  u_nVersion :: int
  u_nFirstBwtPos :: int
  u_nBwtMaturityHeight :: int

definition CTxInUndo_of :: "CTxOut \<Rightarrow> CTxInUndo" where
  "CTxInUndo_of txout = \<lparr>u_txout = txout, u_fCoinBase = False, u_nHeight = 0, u_nVersion = 0,
     u_nFirstBwtPos = BWT_POS_UNSET, u_nBwtMaturityHeight = 0\<rparr>"

definition with_metadata :: "CCoins \<Rightarrow> CTxInUndo \<Rightarrow> CTxInUndo" where
  "with_metadata c u = u\<lparr>u_nHeight := nHeight c, u_fCoinBase := fCoinBase c, u_nVersion := nVersion c,
     u_nFirstBwtPos := nFirstBwtPos c, u_nBwtMaturityHeight := nBwtMaturityHeight c\<rparr>"

definition restore_metadata :: "CTxInUndo \<Rightarrow> CCoins \<Rightarrow> CCoins" where
  "restore_metadata u c = (if u_nHeight u \<noteq> 0
     then c\<lparr>fCoinBase := u_fCoinBase u, nHeight := u_nHeight u, nVersion := u_nVersion u,
            nFirstBwtPos := u_nFirstBwtPos u, nBwtMaturityHeight := u_nBwtMaturityHeight u\<rparr>
     else c)"

definition spend_with_undo :: "nat \<Rightarrow> CCoins \<Rightarrow> CCoins \<times> CTxInUndo" where
  "spend_with_undo nPos c =
     (let u = CTxInUndo_of (vout c ! nPos); c' = fst (Spend nPos c)
      in (c', if length (vout c') = 0 then with_metadata c' u else u))"

definition resize_vout :: "nat \<Rightarrow> CCoins \<Rightarrow> CCoins" where
  "resize_vout m c = (if length (vout c) < m then c\<lparr>vout := vout c @ replicate (m - length (vout c)) txout_SetNull\<rparr> else c)"

definition apply_undo :: "CTxInUndo \<Rightarrow> uint32 \<Rightarrow> CCoins \<Rightarrow> (CCoins \<times> bool) result" where
  "apply_undo u n c =
     (let fClean = (u_nHeight u \<noteq> 0 \<or> \<not> IsPruned c);
          c1 = restore_metadata u c;
          fClean = (fClean \<and> \<not> IsAvailable c1 (unat n));
          c2 = resize_vout (unat (n + 1)) c1
      in if unat n < length (vout c2) then Inr (c2\<lparr>vout := (vout c2)[unat n := u_txout u]\<rparr>, fClean) else Inl Undefined)"

section \<open>Inputs and outputs of a transaction or certificate\<close>

definition ApplyTxInUndo :: "CTxInUndo \<Rightarrow> CCoinsViewCache \<Rightarrow> COutPoint \<Rightarrow> (CCoinsViewCache \<times> bool) result" where
  "ApplyTxInUndo u v out = ModifyCoins v (op_hash out) (apply_undo u (op_n out))"

definition UpdateCoins_in :: "CCoinsViewCache \<times> CTxInUndo list \<Rightarrow> CTxIn \<Rightarrow> (CCoinsViewCache \<times> CTxInUndo list) result" where
  "UpdateCoins_in s txin = (case s of (v, vprevout) \<Rightarrow>
     let nPos = unat (op_n (prevout txin)) in
     bindR (ModifyCoins v (op_hash (prevout txin))
              (\<lambda>c. if IsAvailable c nPos then Inr (spend_with_undo nPos c) else Inl Assert))
       (\<lambda>(v', u). Inr (v', vprevout @ [u])))"

definition set_nullifiers :: "bool \<Rightarrow> CTransaction \<Rightarrow> CCoinsViewCache \<Rightarrow> CCoinsViewCache" where
  "set_nullifiers spent tx v =
     fold (\<lambda>js v. fold (\<lambda>nf v. SetNullifier v nf spent) (js_nullifiers js) v) (vjoinsplit tx) v"

definition UpdateCoins_tx :: "CTransaction \<Rightarrow> CCoinsViewCache \<Rightarrow> int \<Rightarrow> (CCoinsViewCache \<times> CTxInUndo list) result" where
  "UpdateCoins_tx tx v h =
     bindR (if \<not> tx_IsCoinBase tx then foldR UpdateCoins_in (v, []) (tx_vin tx) else Inr (v, []))
       (\<lambda>(v, txundo). let v = set_nullifiers True tx v in
          bindR (ModifyCoins v (tx_hash tx) (\<lambda>c. Inr (From_tx tx h, ()))) (\<lambda>(v, _). Inr (v, txundo)))"

definition UpdateCoins_cert :: "CScCertificate \<Rightarrow> CCoinsViewCache \<Rightarrow> int \<Rightarrow> bool \<Rightarrow> (CCoinsViewCache \<times> CTxInUndo list) result" where
  "UpdateCoins_cert cert v h isBlockTopQualityCert =
     bindR (foldR UpdateCoins_in (v, []) (cert_vin cert))
       (\<lambda>(v, txundo). case CacheGetSidechain v (cert_scId cert) of
          (v, None) \<Rightarrow> Inl Assert
        | (v, Some sidechain) \<Rightarrow>
            bindR (ModifyCoins v (cert_hash cert)
                (\<lambda>c. Inr (From_cert cert h (GetCertMaturityHeight sidechain (epochNumber cert)) isBlockTopQualityCert, ())))
              (\<lambda>(v, _). Inr (v, txundo)))"

text \<open>
  \<open>DisconnectBlock\<close>: the outputs are compared with those of the block and removed; the inputs are
  restored from the last to the first. A mismatch only makes \<open>fClean\<close> false.
\<close>

definition remove_outputs :: "uint256 \<Rightarrow> CCoins \<Rightarrow> CCoinsViewCache \<times> bool \<Rightarrow> (CCoinsViewCache \<times> bool) result" where
  "remove_outputs hash outsBlock s = (case s of (v, fClean) \<Rightarrow>
     bindR (ModifyCoins v hash (\<lambda>outs.
         let outs = ClearUnspendable outs;
             outs = (if nVersion outsBlock < 0 then outs\<lparr>nVersion := nVersion outsBlock\<rparr> else outs)
         in Inr (Clear outs, CCoins_eq outs outsBlock)))
       (\<lambda>(v, same). Inr (v, fClean \<and> same)))"

definition restore_input :: "CCoinsViewCache \<times> bool \<Rightarrow> CTxIn \<times> CTxInUndo \<Rightarrow> (CCoinsViewCache \<times> bool) result" where
  "restore_input s x = (case s of (v, fClean) \<Rightarrow>
     bindR (ApplyTxInUndo (snd x) v (prevout (fst x))) (\<lambda>(v, ok). Inr (v, fClean \<and> ok)))"

definition restore_inputs :: "CTxIn list \<Rightarrow> CTxInUndo list \<Rightarrow> CCoinsViewCache \<times> bool \<Rightarrow> (CCoinsViewCache \<times> bool) result" where
  "restore_inputs vin vprevout s =
     (if length vprevout \<noteq> length vin then Inl RetFalse else foldR restore_input s (rev (zip vin vprevout)))"

section \<open>Backward transfers\<close>

function nullify_from :: "nat \<Rightarrow> CCoins \<Rightarrow> CTxInUndo list \<Rightarrow> CCoins \<times> CTxInUndo list" where
  "nullify_from pos c outs =
     (if pos < length (vout c)
      then (case spend_with_undo pos c of (c', u) \<Rightarrow> nullify_from (pos + 1) c' (outs @ [u]))
      else (c, outs))"
  by auto
termination
proof (relation "measure (\<lambda>(p, c, _). length (vout c) - p)")
  show "((p + 1, c', us @ [u]), p, c, us) \<in> measure (\<lambda>(p, c, _). length (vout c) - p)"
    if "p < length (vout c)" "(c', u) = spend_with_undo p c" for p c us c' u
    using that Spend_length [of p c] by (simp add: spend_with_undo_def Let_def)
qed simp

declare nullify_from.simps [simp del]

definition NullifyBackwardTransfers ::
  "CCoinsViewCache \<Rightarrow> uint256 \<Rightarrow> CTxInUndo list \<Rightarrow> (CCoinsViewCache \<times> CTxInUndo list) result" where
  "NullifyBackwardTransfers v certHash nullifiedOuts =
     (if certHash = 0 then Inr (v, nullifiedOuts)
      else (case HaveCoins v certHash of
          (v, False) \<Rightarrow> Inr (v, nullifiedOuts)
        | (v, True) \<Rightarrow> ModifyCoins v certHash
            (\<lambda>c. if nBwtMaturityHeight c = 0 then Inl Assert
                 else Inr (nullify_from (to_u64 (nFirstBwtPos c)) c nullifiedOuts))))"

definition restore_bwt :: "CCoins \<times> bool \<Rightarrow> nat \<times> CTxInUndo \<Rightarrow> (CCoins \<times> bool) result" where
  "restore_bwt s x = (case (s, x) of ((c, fClean), (idx, u)) \<Rightarrow>
     let fClean = (fClean \<and> (u_nHeight u \<noteq> 0 \<or> \<not> IsPruned c));
         c = restore_metadata u c;
         pos = to_u64 (nFirstBwtPos c + int idx);
         fClean = (fClean \<and> \<not> IsAvailable c (pos mod 2 ^ 32));
         size = to_u64 (nFirstBwtPos c + int idx + 1)
     in if length (vout c) < size \<and> size \<ge> 2 ^ 63 then Inl (Throw ''length_error'')
        else let c = resize_vout size c
             in if pos < length (vout c) then Inr (c\<lparr>vout := (vout c)[pos := u_txout u]\<rparr>, fClean)
                else Inl (Throw ''out_of_range''))"

definition RestoreBackwardTransfers ::
  "CCoinsViewCache \<Rightarrow> uint256 \<Rightarrow> CTxInUndo list \<Rightarrow> (CCoinsViewCache \<times> bool) result" where
  "RestoreBackwardTransfers v certHash outsToRestore =
     ModifyCoins v certHash (\<lambda>c. foldR restore_bwt (c, True) (rev (zip [0..<length outsToRestore] outsToRestore)))"

section \<open>Putting one output back\<close>

definition put_back :: "CTxInUndo \<Rightarrow> nat \<Rightarrow> CCoins \<Rightarrow> CCoins" where
  "put_back u n d = (let c = resize_vout (n + 1) (restore_metadata u d) in c\<lparr>vout := (vout c)[n := u_txout u]\<rparr>)"

text \<open>\<open>d\<close> is the record \<open>c\<close>, up to trailing spent outputs and to the metadata of a fully spent record.\<close>

definition same_coin :: "CCoins \<Rightarrow> CCoins \<Rightarrow> bool" where
  "same_coin d c \<longleftrightarrow> (\<forall>x \<in> set (vout d). txout_IsNull x \<longrightarrow> x = txout_SetNull) \<and> length (vout d) < 2 ^ 32
     \<and> (Cleanup d = c \<or> IsPruned d \<and> vout c = [])"

lemma restore_metadata_vout [simp]: "vout (restore_metadata u c) = vout c"
  by (simp add: restore_metadata_def)

lemma restore_metadata_Available [simp]: "IsAvailable (restore_metadata u c) n = IsAvailable c n"
  by (simp add: IsAvailable_def)

lemma resize_vout_Available [simp]: "IsAvailable (resize_vout m c) n = IsAvailable c n"
  by (auto simp: IsAvailable_def resize_vout_def nth_append)

lemma resize_vout_length [simp]: "length (vout (resize_vout m c)) = max m (length (vout c))"
  by (simp add: resize_vout_def)

lemma resize_vout_nth: "n < length (vout c) \<Longrightarrow> vout (resize_vout m c) ! n = vout c ! n"
  by (simp add: resize_vout_def nth_append)

lemma resize_vout_fields [simp]:
  "fCoinBase (resize_vout m c) = fCoinBase c" "nHeight (resize_vout m c) = nHeight c" "nVersion (resize_vout m c) = nVersion c"
  "nFirstBwtPos (resize_vout m c) = nFirstBwtPos c" "nBwtMaturityHeight (resize_vout m c) = nBwtMaturityHeight c"
  by (simp_all add: resize_vout_def)

lemma resize_vout_set: "set (vout (resize_vout m c)) \<subseteq> insert txout_SetNull (set (vout c))"
  by (auto simp: resize_vout_def)

lemma put_back_length [simp]: "length (vout (put_back u n d)) = max (n + 1) (length (vout d))"
  by (simp add: put_back_def Let_def)

lemma put_back_Available:
  "IsAvailable (put_back u n d) m \<longleftrightarrow> (if m = n then \<not> txout_IsNull (u_txout u) else IsAvailable d m)"
proof -
  let ?c = "resize_vout (n + 1) (restore_metadata u d)"
  have "IsAvailable (put_back u n d) m \<longleftrightarrow> (if m = n then \<not> txout_IsNull (u_txout u) else IsAvailable ?c m)"
    by (auto simp: put_back_def Let_def IsAvailable_def)
  then show ?thesis by simp
qed

lemma put_back_nth: "IsAvailable (put_back u n d) m \<Longrightarrow> vout (put_back u n d) ! m = (if m = n then u_txout u else vout d ! m)"
  by (auto simp: put_back_Available) (auto simp: put_back_def Let_def IsAvailable_def resize_vout_nth)

lemma put_back_set: "set (vout (put_back u n d)) \<subseteq> {txout_SetNull, u_txout u} \<union> set (vout d)"
  using set_update_subset_insert [of "vout (resize_vout (n + 1) (restore_metadata u d))" n "u_txout u"]
    resize_vout_set [of "n + 1" "restore_metadata u d"] by (auto simp: put_back_def Let_def)

lemma put_back_fields:
  "fCoinBase (put_back u n d) = fCoinBase (restore_metadata u d)" "nHeight (put_back u n d) = nHeight (restore_metadata u d)"
  "nVersion (put_back u n d) = nVersion (restore_metadata u d)" "nFirstBwtPos (put_back u n d) = nFirstBwtPos (restore_metadata u d)"
  "nBwtMaturityHeight (put_back u n d) = nBwtMaturityHeight (restore_metadata u d)"
  by (simp_all add: put_back_def Let_def)

lemma spend_with_undo_split:
  assumes "spend_with_undo p c = (c1, u)"
  shows "c1 = fst (Spend p c)" "u_txout u = vout c ! p" "vout c1 = [] \<Longrightarrow> u = with_metadata c1 (CTxInUndo_of (vout c ! p))"
    "vout c1 \<noteq> [] \<Longrightarrow> u_nHeight u = 0"
  using assms by (auto simp: spend_with_undo_def Let_def with_metadata_def CTxInUndo_of_def split: if_splits)

lemma same_coin_Available: "same_coin d c \<Longrightarrow> IsAvailable d n = IsAvailable c n"
proof -
  assume s: "same_coin d c"
  consider "Cleanup d = c" | "IsPruned d" "vout c = []" using s by (auto simp: same_coin_def)
  then show ?thesis by cases (use Cleanup_Available [of d n] in simp, simp add: IsPruned_iff, simp add: IsAvailable_def)
qed

lemma same_coin_nth: "same_coin d c \<Longrightarrow> IsAvailable c n \<Longrightarrow> vout d ! n = vout c ! n"
  using Cleanup_nth [of d n] same_coin_Available [of d c n] by (auto simp: same_coin_def IsAvailable_def)

lemma same_coin_pruned: "same_coin d c \<Longrightarrow> IsPruned d = IsPruned c"
  by (simp add: IsPruned_iff same_coin_Available)

lemma put_back_metadata:
  assumes s: "spend_with_undo p c = (c1, u)" and d: "same_coin d c1" and h: "nHeight c \<noteq> 0"
  shows "fCoinBase (restore_metadata u d) = fCoinBase c" "nHeight (restore_metadata u d) = nHeight c" "nVersion (restore_metadata u d) = nVersion c"
    "nFirstBwtPos (restore_metadata u d) = nFirstBwtPos c" "nBwtMaturityHeight (restore_metadata u d) = nBwtMaturityHeight c"
proof -
  note S = spend_with_undo_split [OF s]
  have "fCoinBase (restore_metadata u d) = fCoinBase c \<and> nHeight (restore_metadata u d) = nHeight c \<and> nVersion (restore_metadata u d) = nVersion c
      \<and> nFirstBwtPos (restore_metadata u d) = nFirstBwtPos c \<and> nBwtMaturityHeight (restore_metadata u d) = nBwtMaturityHeight c"
  proof (cases "vout c1 = []")
    case True
    then show ?thesis using S(1) S(3) h by (simp add: with_metadata_def restore_metadata_def)
  next
    case False
    then have c1: "Cleanup d = fst (Spend p c)" "u_nHeight u = 0" using d S(1,4) by (simp_all add: same_coin_def)
    then have "restore_metadata u d = d" by (simp add: restore_metadata_def)
    then show ?thesis using c1(1) by (metis Cleanup_fields Spend_fields)
  qed
  then show "fCoinBase (restore_metadata u d) = fCoinBase c" "nHeight (restore_metadata u d) = nHeight c" "nVersion (restore_metadata u d) = nVersion c"
    "nFirstBwtPos (restore_metadata u d) = nFirstBwtPos c" "nBwtMaturityHeight (restore_metadata u d) = nBwtMaturityHeight c" by simp_all
qed

lemma put_back_spend:
  assumes c: "clean_coins c" "nHeight c \<noteq> 0" and p: "p < length (vout c)" and s: "spend_with_undo p c = (c1, u)" and d: "same_coin d c1"
  shows "Cleanup (put_back u p d) = c" "same_coin (put_back u p d) c" "nFirstBwtPos (restore_metadata u d) = nFirstBwtPos c"
    "u_nHeight u \<noteq> 0 \<or> \<not> IsPruned d" "\<not> IsAvailable d p"
proof -
  note S = spend_with_undo_split [OF s]
  let ?d = "put_back u p d"
  have nul: "\<forall>x \<in> set (vout ?d). txout_IsNull x \<longrightarrow> x = txout_SetNull"
    using put_back_set [of u p d] d c(1) S(2) p by (auto simp: same_coin_def clean_coins_def)
  have len: "length (vout ?d) < 2 ^ 32" using d p c(1) by (simp add: same_coin_def clean_coins_def)
  have A: "IsAvailable d m = (IsAvailable c m \<and> m \<noteq> p)" for m
    using same_coin_Available [OF d, of m] Spend_Available [of p c m] S(1) by simp
  have V: "IsAvailable ?d m = IsAvailable c m" for m
    using A [of m] S(2) p by (auto simp: put_back_Available) (simp_all add: IsAvailable_def)
  have N: "vout ?d ! m = vout c ! m" if "IsAvailable ?d m" for m
    using put_back_nth [OF that] same_coin_nth [OF d, of m] Spend_nth [of p c m] S(1,2) same_coin_Available [OF d, of m] that A [of m] V [of m] by auto
  have "vout (Cleanup ?d) = vout c"
  proof (rule clean_ext)
    show "clean_coins (Cleanup ?d)" using nul len by (rule Cleanup_clean)
    show "IsAvailable (Cleanup ?d) m = IsAvailable c m" for m using V by simp
    show "vout (Cleanup ?d) ! m = vout c ! m" if "IsAvailable (Cleanup ?d) m" for m
      using that N Cleanup_nth by simp
  qed (rule c(1))
  then show eq: "Cleanup ?d = c"
    by (intro CCoins.equality) (simp_all add: put_back_fields put_back_metadata [OF s d c(2)])
  show "same_coin ?d c" using nul len eq by (simp add: same_coin_def)
  show "nFirstBwtPos (restore_metadata u d) = nFirstBwtPos c" by (rule put_back_metadata [OF s d c(2)])
  show "\<not> IsAvailable d p" using A by simp
  show "u_nHeight u \<noteq> 0 \<or> \<not> IsPruned d"
  proof (cases "vout c1 = []")
    case True
    then show ?thesis using S(1) S(3) c(2) by (simp add: with_metadata_def)
  next
    case False
    then show ?thesis using same_coin_pruned [OF d] Spend_clean [OF c(1), of p] S(1) clean_pruned by simp
  qed
qed

lemma same_coin_norm: "same_coin d c \<Longrightarrow> clean_coins c \<Longrightarrow> normC (Some (Cleanup d)) = normC (Some c)"
  using same_coin_pruned [of d c] by (auto simp: same_coin_def normC_Some)

lemma same_coin_clean: "same_coin d c \<Longrightarrow> clean_coins (Cleanup d)"
  by (simp add: same_coin_def Cleanup_clean)

lemma same_coin_at:
  assumes g: "good T n v" and c: "clean_coins c" and k: "l_coins (ledger v) k = normC (Some c)"
  shows "same_coin (coins_at v k) c"
proof -
  let ?d = "coins_at v k"
  have d: "clean_coins ?d" by (rule coins_at_clean [OF g])
  have n: "normC (Some ?d) = normC (Some c)" unfolding coins_at_ledger k ..
  have "Cleanup ?d = c \<or> IsPruned ?d \<and> vout c = []"
  proof (cases "IsPruned c")
    case True
    then show ?thesis using n c clean_pruned by (auto simp: normC_Some split: if_splits)
  next
    case False
    then show ?thesis using n clean_Cleanup_id [OF d] by (auto simp: normC_Some split: if_splits)
  qed
  then show ?thesis using d by (simp add: same_coin_def clean_coins_def)
qed

lemma coins_at_Some: "l_coins (ledger v) k = Some c \<Longrightarrow> coins_at v k = c"
  using coins_at_ledger [of v k] by (auto simp: normC_Some split: if_splits)

lemma coins_at_None: "good T n v \<Longrightarrow> l_coins (ledger v) k = None \<Longrightarrow> vout (coins_at v k) = []"
  using coins_at_ledger [of v k] coins_at_clean [of T n v k] clean_pruned by (auto simp: normC_Some split: if_splits)

lemma ledger_coins_clean: "good T n v \<Longrightarrow> l_coins (ledger v) k = Some c \<Longrightarrow> clean_coins c \<and> \<not> IsPruned c"
  using coins_at_clean [of T n v k] coins_at_Some [of v k c] by (auto simp: normC_def split: option.splits if_splits)

section \<open>Spending and restoring inputs\<close>

type_synonym coinmap = "uint256 \<rightharpoonup> CCoins"

definition spec_spend :: "coinmap \<times> CTxInUndo list \<Rightarrow> CTxIn \<Rightarrow> (coinmap \<times> CTxInUndo list) result" where
  "spec_spend s txin = (case s of (C, us) \<Rightarrow> let k = op_hash (prevout txin); n = unat (op_n (prevout txin)) in
     case C k of None \<Rightarrow> Inl Assert
     | Some c \<Rightarrow> if IsAvailable c n then (case spend_with_undo n c of (c', u) \<Rightarrow> Inr (C(k := normC (Some c')), us @ [u]))
                else Inl Assert)"

text \<open>Every record is clean, has an unspent output and the height of a block above the genesis block.\<close>

definition coins_inv :: "coinmap \<Rightarrow> bool" where
  "coins_inv C \<longleftrightarrow> (\<forall>k c. C k = Some c \<longrightarrow> clean_coins c \<and> \<not> IsPruned c \<and> nHeight c \<noteq> 0)"

lemma coins_invI: "good T n v \<Longrightarrow> (\<And>k c. l_coins (ledger v) k = Some c \<Longrightarrow> nHeight c \<noteq> 0) \<Longrightarrow> coins_inv (l_coins (ledger v))"
  unfolding coins_inv_def using ledger_coins_clean by blast

lemma coins_inv_upd: "coins_inv C \<Longrightarrow> clean_coins c \<Longrightarrow> nHeight c \<noteq> 0 \<Longrightarrow> coins_inv (C(k := normC (Some c)))"
  by (auto simp: coins_inv_def normC_Some)

lemma spend_with_undo_clean: "spend_with_undo p c = (c1, u) \<Longrightarrow> clean_coins c \<Longrightarrow> clean_coins c1"
  by (drule spend_with_undo_split(1)) (simp add: Spend_clean)

lemma spend_with_undo_height: "spend_with_undo p c = (c1, u) \<Longrightarrow> nHeight c1 = nHeight c"
  by (drule spend_with_undo_split(1)) simp

lemma spec_spend_inv: "spec_spend (C, us) x = Inr (C', us') \<Longrightarrow> coins_inv C \<Longrightarrow> coins_inv C'"
  unfolding spec_spend_def Let_def
  by (auto split: option.splits if_splits prod.splits simp: spend_with_undo_clean spend_with_undo_height intro!: coins_inv_upd)
    (auto simp: coins_inv_def spend_with_undo_clean spend_with_undo_height)

lemma UpdateCoins_in_ok:
  assumes g: "good T n v" and s: "spec_spend (l_coins (ledger v), us) x = Inr (C', us')"
  obtains v' where "UpdateCoins_in (v, us) x = Inr (v', us')" "keeps T v v'" "ledger v' = (ledger v)\<lparr>l_coins := C'\<rparr>"
proof -
  let ?k = "op_hash (prevout x)" and ?n = "unat (op_n (prevout x))"
  obtain c c1 u where c: "l_coins (ledger v) ?k = Some c" "IsAvailable c ?n" "spend_with_undo ?n c = (c1, u)"
    "C' = (l_coins (ledger v))(?k := normC (Some c1))" "us' = us @ [u]"
    using s by (auto simp: spec_spend_def Let_def simp del: ledger_sel split: option.splits if_splits prod.splits)
  have c1: "clean_coins c1" using spend_with_undo_clean [OF c(3)] ledger_coins_clean [OF g c(1)] by simp
  have f: "(if IsAvailable (coins_at v ?k) ?n then Inr (spend_with_undo ?n (coins_at v ?k)) else Inl Assert) = Inr (c1, u)"
    using c(2,3) coins_at_Some [OF c(1)] by simp
  have cc: "clean_coins (Cleanup c1)" using c1 by (simp add: clean_Cleanup_id)
  obtain v' where "ModifyCoins v ?k (\<lambda>c. if IsAvailable c ?n then Inr (spend_with_undo ?n c) else Inl Assert) = Inr (v', u)" "keeps T v v'"
    "ledger v' = (ledger v)\<lparr>l_coins := (l_coins (ledger v))(?k := normC (Some (Cleanup c1)))\<rparr>"
    by (rule ModifyCoins_ok [OF g, where f = "\<lambda>c. if IsAvailable c ?n then Inr (spend_with_undo ?n c) else Inl Assert", OF f cc])
  then show thesis using that c(4,5) c1 by (simp add: UpdateCoins_in_def clean_Cleanup_id del: ledger_sel)
qed

lemma UpdateCoins_in_err:
  assumes g: "good T n v" and s: "spec_spend (l_coins (ledger v), us) x = Inl e"
  shows "UpdateCoins_in (v, us) x = Inl e"
proof -
  let ?k = "op_hash (prevout x)" and ?n = "unat (op_n (prevout x))"
  have "e = Assert \<and> \<not> IsAvailable (coins_at v ?k) ?n"
    using s coins_at_Some [of v ?k] coins_at_None [OF g, of ?k]
    by (auto simp: spec_spend_def Let_def IsAvailable_def simp del: ledger_sel split: option.splits if_splits prod.splits)
  then have "(if IsAvailable (coins_at v ?k) ?n then Inr (spend_with_undo ?n (coins_at v ?k)) else Inl Assert) = Inl e" by simp
  from ModifyCoins_err [OF g, where f = "\<lambda>c. if IsAvailable c ?n then Inr (spend_with_undo ?n c) else Inl Assert", OF this]
  show ?thesis by (simp add: UpdateCoins_in_def)
qed

lemma UpdateCoins_ins_ok:
  assumes "good T n v" "foldR spec_spend (l_coins (ledger v), us) xs = Inr (C', us')"
  shows "\<exists>v'. foldR UpdateCoins_in (v, us) xs = Inr (v', us') \<and> keeps T v v' \<and> ledger v' = (ledger v)\<lparr>l_coins := C'\<rparr>"
  using assms
proof (induction xs arbitrary: v us)
  case (Cons x xs)
  obtain C1 us1 where s1: "spec_spend (l_coins (ledger v), us) x = Inr (C1, us1)" "foldR spec_spend (C1, us1) xs = Inr (C', us')"
    using Cons.prems(2) by (auto simp del: ledger_sel split: sum.splits)
  obtain v1 where v1: "UpdateCoins_in (v, us) x = Inr (v1, us1)" "keeps T v v1" "ledger v1 = (ledger v)\<lparr>l_coins := C1\<rparr>"
    by (rule UpdateCoins_in_ok [OF Cons.prems(1) s1(1)])
  have "l_coins (ledger v1) = C1" unfolding v1(3) by simp
  then have "\<exists>v'. foldR UpdateCoins_in (v1, us1) xs = Inr (v', us') \<and> keeps T v1 v' \<and> ledger v' = (ledger v1)\<lparr>l_coins := C'\<rparr>"
    using Cons.IH [of v1 us1, OF keeps_good [OF v1(2) Cons.prems(1)]] s1(2) by (simp del: ledger_sel)
  then show ?case using v1 keeps_trans [OF v1(2)] by (auto simp del: ledger_sel)
qed (auto simp: ledger_of_def)

lemma UpdateCoins_ins_err:
  assumes "good T n v" "foldR spec_spend (l_coins (ledger v), us) xs = Inl e"
  shows "foldR UpdateCoins_in (v, us) xs = Inl e"
  using assms
proof (induction xs arbitrary: v us)
  case (Cons x xs)
  show ?case
  proof (cases "spec_spend (l_coins (ledger v), us) x")
    case (Inl a)
    then show ?thesis using UpdateCoins_in_err [OF Cons.prems(1) Inl] Cons.prems(2) by (simp del: ledger_sel)
  next
    case (Inr p)
    obtain C1 us1 where p: "p = (C1, us1)" by (cases p)
    obtain v1 where v1: "UpdateCoins_in (v, us) x = Inr (v1, us1)" "keeps T v v1" "ledger v1 = (ledger v)\<lparr>l_coins := C1\<rparr>"
      by (rule UpdateCoins_in_ok [OF Cons.prems(1) Inr [unfolded p]])
    have "l_coins (ledger v1) = C1" unfolding v1(3) by simp
    then show ?thesis using Cons.IH [of v1 us1, OF keeps_good [OF v1(2) Cons.prems(1)]] Cons.prems(2) v1(1) Inr p by (simp del: ledger_sel)
  qed
qed simp

lemma ledger_coins_same [simp]: "(ledger_of w)\<lparr>l_coins := l_coins (ledger_of w)\<rparr> = ledger_of w" "L\<lparr>l_coins := l_coins L\<rparr> = L"
  by simp_all

lemma apply_undo_put_back:
  assumes "unat n + 1 < 2 ^ 32"
  shows "apply_undo u n c = Inr (put_back u (unat n) c, (u_nHeight u \<noteq> 0 \<or> \<not> IsPruned c) \<and> \<not> IsAvailable c (unat n))"
proof -
  have "unat (n + 1) = unat n + 1" using assms by (simp add: unat_word_ariths)
  then show ?thesis by (simp add: apply_undo_def put_back_def Let_def)
qed

lemma restore_input_ok:
  assumes g: "good T m w" and C: "coins_inv C" and s: "spec_spend (C, us) x = Inr (C', us @ [u])" and w: "l_coins (ledger w) = C'"
  obtains w' where "restore_input (w, b) (x, u) = Inr (w', b)" "keeps T w w'" "ledger w' = (ledger w)\<lparr>l_coins := C\<rparr>"
proof -
  let ?k = "op_hash (prevout x)" and ?n = "unat (op_n (prevout x))"
  obtain c c1 where c: "C ?k = Some c" "IsAvailable c ?n" "spend_with_undo ?n c = (c1, u)" "C' = C(?k := normC (Some c1))"
    using s by (auto simp: spec_spend_def Let_def split: option.splits if_splits prod.splits)
  have cc: "clean_coins c" "\<not> IsPruned c" "nHeight c \<noteq> 0" "?n < length (vout c)" using C c(1,2) by (auto simp: coins_inv_def IsAvailable_def)
  have d: "same_coin (coins_at w ?k) c1"
    by (rule same_coin_at [OF g spend_with_undo_clean [OF c(3) cc(1)]]) (simp add: w c(4) del: ledger_sel)
  note P = put_back_spend [OF cc(1,3,4) c(3) d]
  have n: "?n + 1 < 2 ^ 32" using cc(1,4) by (simp add: clean_coins_def)
  have f: "apply_undo u (op_n (prevout x)) (coins_at w ?k) = Inr (put_back u ?n (coins_at w ?k), True)"
    unfolding apply_undo_put_back [OF n] using P(4,5) by simp
  obtain w' where w': "ModifyCoins w ?k (apply_undo u (op_n (prevout x))) = Inr (w', True)" "keeps T w w'"
    "ledger w' = (ledger w)\<lparr>l_coins := (l_coins (ledger w))(?k := normC (Some (Cleanup (put_back u ?n (coins_at w ?k)))))\<rparr>"
    by (rule ModifyCoins_ok [OF g, where f = "apply_undo u (op_n (prevout x))", OF f]) (simp add: P(1) cc(1))
  have "(l_coins (ledger w))(?k := normC (Some c)) = C" using w c(1,4) cc(2) by (simp add: normC_Some fun_upd_idem del: ledger_sel)
  then show thesis using that w' P(1) by (simp add: restore_input_def ApplyTxInUndo_def del: ledger_sel)
qed

lemma spec_spend_push: "spec_spend (C, us) x = Inr (C', us') \<Longrightarrow> \<exists>u. us' = us @ [u] \<and> (\<forall>vs. spec_spend (C, vs) x = Inr (C', vs @ [u]))"
  by (auto simp: spec_spend_def Let_def split: option.splits if_splits prod.splits)

lemma restore_inputs_ok:
  assumes "coins_inv C" "foldR spec_spend (C, us0) xs = Inr (C', us')"
  shows "\<exists>us. us' = us0 @ us \<and> length us = length xs \<and> coins_inv C' \<and> (\<forall>T m w b. good T m w \<longrightarrow> l_coins (ledger w) = C' \<longrightarrow>
     (\<exists>w'. foldR restore_input (w, b) (rev (zip xs us)) = Inr (w', b) \<and> keeps T w w' \<and> ledger w' = (ledger w)\<lparr>l_coins := C\<rparr>))"
  using assms
proof (induction xs arbitrary: C us0)
  case Nil
  have "\<exists>w'. foldR restore_input (w, b) [] = Inr (w', b) \<and> keeps T w w' \<and> ledger w' = (ledger w)\<lparr>l_coins := l_coins (ledger w)\<rparr>" for T w b
    by (rule exI [of _ w]) (simp del: ledger_sel)
  then show ?case using Nil by (auto simp del: ledger_sel)
next
  case (Cons x xs)
  obtain C1 us1 where s1: "spec_spend (C, us0) x = Inr (C1, us1)" "foldR spec_spend (C1, us1) xs = Inr (C', us')"
    using Cons.prems(2) by (auto split: sum.splits)
  obtain u where u: "us1 = us0 @ [u]" using spec_spend_push [OF s1(1)] by blast
  obtain us where us: "us' = us1 @ us" "length us = length xs" "coins_inv C'"
    "\<And>T m w b. good T m w \<Longrightarrow> l_coins (ledger w) = C' \<Longrightarrow>
      \<exists>w'. foldR restore_input (w, b) (rev (zip xs us)) = Inr (w', b) \<and> keeps T w w' \<and> ledger w' = (ledger w)\<lparr>l_coins := C1\<rparr>"
    using Cons.IH [OF spec_spend_inv [OF s1(1) Cons.prems(1)] s1(2)] by blast
  have "\<exists>w'. foldR restore_input (w, b) (rev (zip (x # xs) (u # us))) = Inr (w', b) \<and> keeps T w w' \<and> ledger w' = (ledger w)\<lparr>l_coins := C\<rparr>"
    if w: "good T m w" "l_coins (ledger w) = C'" for T m w b
  proof -
    obtain w1 where w1: "foldR restore_input (w, b) (rev (zip xs us)) = Inr (w1, b)" "keeps T w w1" "ledger w1 = (ledger w)\<lparr>l_coins := C1\<rparr>"
      using us(4) [OF w] by blast
    have l: "l_coins (ledger w1) = C1" unfolding w1(3) by simp
    obtain w2 where w2: "restore_input (w1, b) (x, u) = Inr (w2, b)" "keeps T w1 w2" "ledger w2 = (ledger w1)\<lparr>l_coins := C\<rparr>"
      by (rule restore_input_ok [OF keeps_good [OF w1(2) w(1)] Cons.prems(1) s1(1) [unfolded u] l])
    then show ?thesis using w1(1,3) keeps_trans [OF w1(2) w2(2)] by (auto simp: foldR_append simp del: ledger_sel)
  qed
  then show ?case using us(1-3) u by (intro exI [of _ "u # us"]) simp
qed

section \<open>Outputs\<close>

definition valid_outs :: "CTxOut list \<Rightarrow> bool" where
  "valid_outs os \<longleftrightarrow> (\<forall>x \<in> set os. 0 \<le> nValue x) \<and> length os < 2 ^ 32"

lemma ClearUnspendable_clean:
  assumes "\<forall>x \<in> set (vout c). txout_IsNull x \<longrightarrow> x = txout_SetNull" "length (vout c) < 2 ^ 32"
  shows "clean_coins (ClearUnspendable c)"
  unfolding ClearUnspendable_def by (rule Cleanup_clean) (use assms in auto)

lemma IsUnspendable_Null [simp]: "\<not> IsUnspendable (scriptPubKey txout_SetNull)"
  by (simp add: IsUnspendable_def txout_SetNull_def MAX_SCRIPT_SIZE_def)

lemma ClearUnspendable_idem [simp]: "ClearUnspendable (ClearUnspendable c) = ClearUnspendable c"
proof -
  let ?c = "ClearUnspendable c"
  have "\<forall>x \<in> set (vout ?c). \<not> IsUnspendable (scriptPubKey x)"
    using pop_nulls_set [of "map (\<lambda>o'. if IsUnspendable (scriptPubKey o') then txout_SetNull else o') (vout c)"]
    by (auto simp: ClearUnspendable_def Cleanup_def)
  then have "map (\<lambda>o'. if IsUnspendable (scriptPubKey o') then txout_SetNull else o') (vout ?c) = vout ?c" by (intro map_idI) auto
  then have "ClearUnspendable ?c = Cleanup ?c" unfolding ClearUnspendable_def [of ?c] by simp
  then show ?thesis using canonical_Cleanup_id [OF ClearUnspendable_canonical, of c] by simp
qed

lemma valid_outs_null: "valid_outs os \<Longrightarrow> x \<in> set os \<Longrightarrow> \<not> txout_IsNull x"
  by (auto simp: valid_outs_def txout_IsNull_def)

lemma From_tx_clean: "valid_outs (tx_vout tx) \<Longrightarrow> clean_coins (From_tx tx h)"
  unfolding From_tx_def by (rule ClearUnspendable_clean) (use valid_outs_null in \<open>auto simp: valid_outs_def\<close>)

lemma From_tx_height [simp]: "nHeight (From_tx tx h) = h"
  by (simp add: From_tx_def ClearUnspendable_def)

lemma From_tx_idem: "ClearUnspendable (From_tx tx h) = From_tx tx h"
  by (simp add: From_tx_def)

lemma spend_from_clean: "clean_coins c \<Longrightarrow> clean_coins (spend_from p c)"
proof (induction p c rule: spend_from.induct)
  case (1 p c)
  then show ?case by (cases "p < length (vout c)") (simp_all add: spend_from.simps [of p c] Spend_clean)
qed

lemma From_cert_clean: "valid_outs (cert_vout cert) \<Longrightarrow> clean_coins (From_cert cert h m t)"
proof -
  assume v: "valid_outs (cert_vout cert)"
  let ?c = "\<lparr>fCoinBase = False, vout = cert_vout cert, nHeight = h, nVersion = cert_nVersion cert, nFirstBwtPos = cert_nFirstBwtPos cert, nBwtMaturityHeight = m\<rparr>"
  have "clean_coins ?c" using v valid_outs_null [OF v] by (auto simp: clean_coins_def canonical_def valid_outs_def)
  then have "clean_coins (if \<not> t then spend_from (to_u32 (nFirstBwtPos ?c)) ?c else ?c)" using spend_from_clean by simp
  then show ?thesis unfolding From_cert_def Let_def by (intro ClearUnspendable_clean) (simp_all add: clean_coins_def)
qed

lemma From_cert_idem: "ClearUnspendable (From_cert cert h m t) = From_cert cert h m t"
  by (simp add: From_cert_def Let_def)

lemma remove_outputs_ok:
  assumes g: "good T n w" and o: "clean_coins outs" "ClearUnspendable outs = outs" and k: "l_coins (ledger w) k = normC (Some outs)"
  obtains w' where "remove_outputs k outs (w, b) = Inr (w', b)" "keeps T w w'" "ledger w' = (ledger w)\<lparr>l_coins := (l_coins (ledger w))(k := None)\<rparr>"
proof -
  let ?f = "\<lambda>c. let c = ClearUnspendable c; c = (if nVersion outs < 0 then c\<lparr>nVersion := nVersion outs\<rparr> else c) in Inr (Clear c, CCoins_eq c outs) :: (CCoins \<times> bool) result"
  let ?d = "coins_at w k"
  have d: "same_coin ?d outs" by (rule same_coin_at [OF g o(1) k])
  have "clean_coins ?d" by (rule coins_at_clean [OF g])
  obtain c where c: "?f ?d = Inr (Clear c, True)"
  proof (cases "Cleanup ?d = outs")
    case True
    then have "?d = outs" using clean_Cleanup_id [OF \<open>clean_coins ?d\<close>] by simp
    then show thesis using that [of outs] o(2) by (simp add: CCoins_eq_def)
  next
    case False
    then have "IsPruned ?d" "vout outs = []" using d by (simp_all add: same_coin_def)
    then have "IsPruned (ClearUnspendable ?d)" "IsPruned outs" using clean_pruned [OF \<open>clean_coins ?d\<close>]
      by (simp_all add: ClearUnspendable_def IsPruned_def Cleanup_def pop_nulls.simps [of "[]"])
    then have "CCoins_eq (if nVersion outs < 0 then (ClearUnspendable ?d)\<lparr>nVersion := nVersion outs\<rparr> else ClearUnspendable ?d) outs"
      by (simp add: CCoins_eq_def IsPruned_def)
    then show thesis using that by (simp add: Let_def)
  qed
  have cl: "clean_coins (Cleanup (Clear c))" "IsPruned (Cleanup (Clear c))" by (simp_all add: Clear_def Cleanup_def pop_nulls.simps [of "[]"] IsPruned_def)
  obtain w' where w': "ModifyCoins w k ?f = Inr (w', True)" "keeps T w w'"
    "ledger w' = (ledger w)\<lparr>l_coins := (l_coins (ledger w))(k := normC (Some (Cleanup (Clear c))))\<rparr>"
    by (rule ModifyCoins_ok [OF g, where f = ?f, OF c cl(1)])
  show thesis by (rule that [of w']) (use w' cl(2) in \<open>simp_all add: remove_outputs_def normC_Some del: ledger_sel\<close>)
qed

end
