(* ===== verification/CoinUndo.thy ===== *)
theory CoinUndo
  imports CoinOps
begin

text \<open>
  The effect of \<open>UpdateCoins\<close> on the ledger, for transactions and certificates, and the round trip
  of \<open>NullifyBackwardTransfers\<close> and \<open>RestoreBackwardTransfers\<close>.
\<close>

section \<open>Nullifiers\<close>

definition tx_nullifiers :: "CTransaction \<Rightarrow> uint256 set" where
  "tx_nullifiers tx = (\<Union>js \<in> set (vjoinsplit tx). set (js_nullifiers js))"

lemma SetNullifier_loop:
  "keeps T v (fold (\<lambda>nf v. SetNullifier v nf s) xs v)"
  "ledger (fold (\<lambda>nf v. SetNullifier v nf s) xs v) = (ledger v)\<lparr>l_nf := \<lambda>x. if x \<in> set xs then s else l_nf (ledger v) x\<rparr>"
proof (induction xs arbitrary: v)
  case (Cons nf xs)
  {
    case 1
    show ?case using keeps_trans [OF SetNullifier_step(1) Cons(1)] by simp
  next
    case 2
    show ?case using Cons(2) [of "SetNullifier v nf s"] SetNullifier_step(2) [of v nf s] by (auto simp: fun_eq_iff)
  }
qed (simp_all add: ledger_of_def)

lemma set_nullifiers_step:
  "keeps T v (set_nullifiers s tx v)"
  "ledger (set_nullifiers s tx v) = (ledger v)\<lparr>l_nf := \<lambda>x. if x \<in> tx_nullifiers tx then s else l_nf (ledger v) x\<rparr>"
proof -
  have "keeps T v (fold (\<lambda>js v. fold (\<lambda>nf v. SetNullifier v nf s) (js_nullifiers js) v) jss v)
    \<and> ledger (fold (\<lambda>js v. fold (\<lambda>nf v. SetNullifier v nf s) (js_nullifiers js) v) jss v)
      = (ledger v)\<lparr>l_nf := \<lambda>x. if x \<in> (\<Union>js \<in> set jss. set (js_nullifiers js)) then s else l_nf (ledger v) x\<rparr>" for jss
  proof (induction jss arbitrary: v)
    case (Cons js jss)
    let ?v = "fold (\<lambda>nf v. SetNullifier v nf s) (js_nullifiers js) v"
    note I = Cons [of ?v]
    have "keeps T v (fold (\<lambda>js v. fold (\<lambda>nf v. SetNullifier v nf s) (js_nullifiers js) v) jss ?v)"
      using keeps_trans [OF SetNullifier_loop(1)] I by blast
    moreover have "ledger (fold (\<lambda>js v. fold (\<lambda>nf v. SetNullifier v nf s) (js_nullifiers js) v) jss ?v)
      = (ledger v)\<lparr>l_nf := \<lambda>x. if x \<in> (\<Union>js \<in> set (js # jss). set (js_nullifiers js)) then s else l_nf (ledger v) x\<rparr>"
      unfolding conjunct2 [OF I] SetNullifier_loop(2) by (auto simp: fun_eq_iff simp del: ledger_sel)
    ultimately show ?case by simp
  qed (simp add: ledger_of_def)
  then show "keeps T v (set_nullifiers s tx v)"
    "ledger (set_nullifiers s tx v) = (ledger v)\<lparr>l_nf := \<lambda>x. if x \<in> tx_nullifiers tx then s else l_nf (ledger v) x\<rparr>"
    unfolding set_nullifiers_def tx_nullifiers_def by blast+
qed

section \<open>The ledger after \<open>UpdateCoins\<close>\<close>

definition spec_ins :: "bool \<Rightarrow> CTxIn list \<Rightarrow> coinmap \<Rightarrow> (coinmap \<times> CTxInUndo list) result" where
  "spec_ins coinbase vin C = (if coinbase then Inr (C, []) else foldR spec_spend (C, []) vin)"

definition spec_update_tx :: "CTransaction \<Rightarrow> int \<Rightarrow> Ledger \<Rightarrow> (Ledger \<times> CTxInUndo list) result" where
  "spec_update_tx tx h L = bindR (spec_ins (tx_IsCoinBase tx) (tx_vin tx) (l_coins L)) (\<lambda>(C, us).
     Inr (L\<lparr>l_coins := C(tx_hash tx := normC (Some (From_tx tx h))),
            l_nf := \<lambda>x. if x \<in> tx_nullifiers tx then True else l_nf L x\<rparr>, us))"

definition spec_update_cert :: "CScCertificate \<Rightarrow> int \<Rightarrow> bool \<Rightarrow> Ledger \<Rightarrow> (Ledger \<times> CTxInUndo list) result" where
  "spec_update_cert cert h tq L = bindR (spec_ins False (cert_vin cert) (l_coins L)) (\<lambda>(C, us).
     case l_sc L (cert_scId cert) of None \<Rightarrow> Inl Assert
     | Some sc \<Rightarrow> Inr (L\<lparr>l_coins := C(cert_hash cert := normC (Some (From_cert cert h (GetCertMaturityHeight sc (epochNumber cert)) tq)))\<rparr>, us))"

lemma ModifyCoins_set:
  assumes g: "good T n v" and c: "clean_coins c"
  obtains v' where "ModifyCoins v k (\<lambda>_. Inr (c, ())) = Inr (v', ())" "keeps T v v'"
    "ledger v' = (ledger v)\<lparr>l_coins := (l_coins (ledger v))(k := normC (Some c))\<rparr>"
proof -
  have f: "(\<lambda>_. Inr (c, ())) (coins_at v k) = (Inr (c, ()) :: (CCoins \<times> unit) result)" by simp
  show thesis
    by (rule ModifyCoins_ok [OF g, where f = "\<lambda>_. Inr (c, ())", OF f]) (use c that in \<open>simp_all add: clean_Cleanup_id del: ledger_sel\<close>)
qed

lemma UpdateCoins_tx_ok:
  assumes g: "good T n v" and o: "valid_outs (tx_vout tx)" and s: "spec_update_tx tx h (ledger v) = Inr (L, us)"
  obtains v' where "UpdateCoins_tx tx v h = Inr (v', us)" "keeps T v v'" "ledger v' = L"
proof -
  obtain C where C: "spec_ins (tx_IsCoinBase tx) (tx_vin tx) (l_coins (ledger v)) = Inr (C, us)"
    "L = (ledger v)\<lparr>l_coins := C(tx_hash tx := normC (Some (From_tx tx h))), l_nf := \<lambda>x. if x \<in> tx_nullifiers tx then True else l_nf (ledger v) x\<rparr>"
    using s by (auto simp: spec_update_tx_def bindR_eq_Inr simp del: ledger_sel)
  obtain v1 where v1: "(if \<not> tx_IsCoinBase tx then foldR UpdateCoins_in (v, []) (tx_vin tx) else Inr (v, [])) = Inr (v1, us)"
    "keeps T v v1" "ledger v1 = (ledger v)\<lparr>l_coins := C\<rparr>"
  proof (cases "tx_IsCoinBase tx")
    case True
    then show thesis using that [of v] C(1) by (auto simp: spec_ins_def simp del: ledger_sel)
  next
    case False
    then show thesis using that UpdateCoins_ins_ok [OF g, of "[]" "tx_vin tx" C us] C(1) by (auto simp: spec_ins_def simp del: ledger_sel)
  qed
  let ?v2 = "set_nullifiers True tx v1"
  note k2 = keeps_trans [OF v1(2) set_nullifiers_step(1), of True tx]
  obtain v3 where v3: "ModifyCoins ?v2 (tx_hash tx) (\<lambda>_. Inr (From_tx tx h, ())) = Inr (v3, ())" "keeps T ?v2 v3"
    "ledger v3 = (ledger ?v2)\<lparr>l_coins := (l_coins (ledger ?v2))(tx_hash tx := normC (Some (From_tx tx h)))\<rparr>"
    by (rule ModifyCoins_set [OF keeps_good [OF k2 g] From_tx_clean [OF o]])
  show thesis
  proof (rule that)
    show "UpdateCoins_tx tx v h = Inr (v3, us)" using v1(1) v3(1) by (simp add: UpdateCoins_tx_def Let_def)
    show "keeps T v v3" by (rule keeps_trans [OF k2 v3(2)])
    show "ledger v3 = L" unfolding v3(3) set_nullifiers_step(2) v1(3) C(2) by (simp del: ledger_sel)
  qed
qed

lemma UpdateCoins_tx_err:
  assumes g: "good T n v" and s: "spec_update_tx tx h (ledger v) = Inl e"
  shows "UpdateCoins_tx tx v h = Inl e"
proof -
  have "\<not> tx_IsCoinBase tx" "foldR spec_spend (l_coins (ledger v), []) (tx_vin tx) = Inl e"
    using s by (auto simp: spec_update_tx_def spec_ins_def bindR_def simp del: ledger_sel split: if_splits sum.splits)
  then show ?thesis using UpdateCoins_ins_err [OF g] by (simp add: UpdateCoins_tx_def)
qed

lemma UpdateCoins_cert_ok:
  assumes g: "good T n v" and o: "valid_outs (cert_vout cert)" and s: "spec_update_cert cert h tq (ledger v) = Inr (L, us)"
  obtains v' where "UpdateCoins_cert cert v h tq = Inr (v', us)" "keeps T v v'" "ledger v' = L"
proof -
  obtain C sc where C: "foldR spec_spend (l_coins (ledger v), []) (cert_vin cert) = Inr (C, us)" "l_sc (ledger v) (cert_scId cert) = Some sc"
    "L = (ledger v)\<lparr>l_coins := C(cert_hash cert := normC (Some (From_cert cert h (GetCertMaturityHeight sc (epochNumber cert)) tq)))\<rparr>"
    using s by (auto simp: spec_update_cert_def spec_ins_def bindR_eq_Inr simp del: ledger_sel split: option.splits)
  obtain v1 where v1: "foldR UpdateCoins_in (v, []) (cert_vin cert) = Inr (v1, us)" "keeps T v v1" "ledger v1 = (ledger v)\<lparr>l_coins := C\<rparr>"
    using UpdateCoins_ins_ok [OF g C(1)] by blast
  obtain v2 r where v2: "CacheGetSidechain v1 (cert_scId cert) = (v2, r)" by fastforce
  note R = CacheGetSidechain_reads [OF v2]
  have r: "r = Some sc" using R(1) C(2) unfolding v1(3) by (simp del: ledger_sel)
  note k2 = keeps_trans [OF v1(2) reads_keeps [OF R(2)]]
  let ?c = "From_cert cert h (GetCertMaturityHeight sc (epochNumber cert)) tq"
  obtain v3 where v3: "ModifyCoins v2 (cert_hash cert) (\<lambda>_. Inr (?c, ())) = Inr (v3, ())" "keeps T v2 v3"
    "ledger v3 = (ledger v2)\<lparr>l_coins := (l_coins (ledger v2))(cert_hash cert := normC (Some ?c))\<rparr>"
    by (rule ModifyCoins_set [OF keeps_good [OF k2 g] From_cert_clean [OF o]])
  show thesis
  proof (rule that)
    show "UpdateCoins_cert cert v h tq = Inr (v3, us)" using v1(1) v2 r v3(1) by (simp add: UpdateCoins_cert_def)
    show "keeps T v v3" by (rule keeps_trans [OF k2 v3(2)])
    show "ledger v3 = L" unfolding v3(3) reads_ledger [OF R(2)] v1(3) C(3) by (simp del: ledger_sel)
  qed
qed

section \<open>Backward transfers\<close>

lemma restore_bwt_put_back:
  assumes p: "nFirstBwtPos (restore_metadata u d) + int i = int p" "p + 1 < 2 ^ 32"
  shows "restore_bwt (d, b) (i, u) = Inr (put_back u p d, b \<and> (u_nHeight u \<noteq> 0 \<or> \<not> IsPruned d) \<and> \<not> IsAvailable d p)"
proof -
  have "to_u64 (nFirstBwtPos (restore_metadata u d) + int i) = p" "to_u64 (nFirstBwtPos (restore_metadata u d) + int i + 1) = p + 1"
    using p by (simp_all add: to_u64_def)
  moreover have "p mod 2 ^ 32 = p" "\<not> p + 1 \<ge> 2 ^ 63" using p(2) by simp_all
  ultimately show ?thesis by (simp add: restore_bwt_def put_back_def Let_def)
qed

lemma nullify_restore:
  assumes "clean_coins c" "nHeight c \<noteq> 0" "nFirstBwtPos c + int i = int p" "nullify_from p c us0 = (c', us')"
  shows "\<exists>us. us' = us0 @ us \<and> clean_coins c' \<and> nHeight c' = nHeight c \<and> (\<forall>d. same_coin d c' \<longrightarrow>
     (\<exists>d'. foldR restore_bwt (d, True) (rev (zip [i..<i + length us] us)) = Inr (d', True) \<and> same_coin d' c))"
  using assms
proof (induction p c us0 arbitrary: i rule: nullify_from.induct)
  case (1 p c us0)
  show ?case
  proof (cases "p < length (vout c)")
    case False
    then have "c' = c" "us' = us0" using 1(5) by (simp_all add: nullify_from.simps [of p c])
    then show ?thesis using 1(2) by simp
  next
    case True
    obtain c1 u where s: "spend_with_undo p c = (c1, u)" by fastforce
    have n: "nullify_from (p + 1) c1 (us0 @ [u]) = (c', us')" using 1(5) True s by (simp add: nullify_from.simps [of p c])
    have c1: "clean_coins c1" "nHeight c1 = nHeight c" "nFirstBwtPos c1 = nFirstBwtPos c"
      using spend_with_undo_clean [OF s 1(2)] spend_with_undo_split(1) [OF s] by simp_all
    obtain us where us: "us' = (us0 @ [u]) @ us" "clean_coins c'" "nHeight c' = nHeight c1" "\<And>d. same_coin d c' \<Longrightarrow>
       \<exists>d'. foldR restore_bwt (d, True) (rev (zip [Suc i..<Suc i + length us] us)) = Inr (d', True) \<and> same_coin d' c1"
      using 1(1) [OF True s [symmetric] c1(1) _ _ n, of "Suc i"] c1 1(3,4) by auto
    have "\<exists>d'. foldR restore_bwt (d, True) (rev (zip [i..<i + length (u # us)] (u # us))) = Inr (d', True) \<and> same_coin d' c" if "same_coin d c'" for d
    proof -
      obtain d1 where d1: "foldR restore_bwt (d, True) (rev (zip [Suc i..<Suc i + length us] us)) = Inr (d1, True)" "same_coin d1 c1"
        using us(4) [OF \<open>same_coin d c'\<close>] by blast
      note P = put_back_spend [OF 1(2,3) True s d1(2)]
      have "restore_bwt (d1, True) (i, u) = Inr (put_back u p d1, True)"
        by (subst restore_bwt_put_back [of _ _ _ p]) (use P 1(2,4) True in \<open>auto simp: clean_coins_def\<close>)
      moreover have "[i..<i + length (u # us)] = i # [Suc i..<Suc i + length us]" by (simp add: upt_rec)
      ultimately show ?thesis using d1(1) P(2) by (simp add: foldR_append)
    qed
    then show ?thesis using us(1-3) c1(2) by (intro exI [of _ "u # us"]) simp
  qed
qed

lemma nullify_from_acc:
  assumes "nullify_from p c us0 = (c', us')"
  shows "\<exists>us. us' = us0 @ us \<and> (\<forall>vs. nullify_from p c vs = (c', vs @ us))"
  using assms
proof (induction p c us0 rule: nullify_from.induct)
  case (1 p c us0)
  show ?case
  proof (cases "p < length (vout c)")
    case True
    obtain c1 u where s: "spend_with_undo p c = (c1, u)" by fastforce
    have n: "nullify_from (p + 1) c1 (us0 @ [u]) = (c', us')" using 1(2) True s by (simp add: nullify_from.simps [of p c])
    obtain us where us: "us' = (us0 @ [u]) @ us" "\<And>vs. nullify_from (p + 1) c1 vs = (c', vs @ us)"
      using 1(1) [OF True s [symmetric] n] by blast
    then show ?thesis using True s by (intro exI [of _ "u # us"]) (simp add: nullify_from.simps [of p c])
  next
    case False
    then have "nullify_from p c vs = (c, vs)" for vs by (simp add: nullify_from.simps [of p c])
    then show ?thesis using 1(2) by simp
  qed
qed

definition spec_nullify :: "uint256 \<Rightarrow> coinmap \<Rightarrow> (coinmap \<times> CTxInUndo list) result" where
  "spec_nullify k C = (if k = 0 then Inr (C, []) else case C k of None \<Rightarrow> Inr (C, [])
     | Some c \<Rightarrow> if nBwtMaturityHeight c = 0 then Inl Assert
         else (case nullify_from (to_u64 (nFirstBwtPos c)) c [] of (c', us) \<Rightarrow> Inr (C(k := normC (Some c')), us)))"

text \<open>The records of certificates have a position for the first backward transfer that is not negative.\<close>

definition bwt_pos_ok :: "coinmap \<Rightarrow> uint256 \<Rightarrow> bool" where
  "bwt_pos_ok C k \<longleftrightarrow> (\<forall>c. C k = Some c \<longrightarrow> 0 \<le> nFirstBwtPos c \<and> nFirstBwtPos c < 2 ^ 31)"

lemma NullifyBackwardTransfers_ok:
  assumes g: "good T n v" and s: "spec_nullify k (l_coins (ledger v)) = Inr (C', us)" and h: "coins_inv (l_coins (ledger v))" and p: "bwt_pos_ok (l_coins (ledger v)) k"
  obtains v' where "NullifyBackwardTransfers v k us0 = Inr (v', us0 @ us)" "keeps T v v'" "ledger v' = (ledger v)\<lparr>l_coins := C'\<rparr>"
proof (cases "k = 0")
  case True
  then show thesis using that [of v] s by (auto simp: NullifyBackwardTransfers_def spec_nullify_def simp del: ledger_sel)
next
  case k: False
  obtain v1 r where v1: "HaveCoins v k = (v1, r)" by fastforce
  note R = HaveCoins_reads [OF v1 g]
  note l1 = reads_ledger [OF R(2)] and g1 = keeps_good [OF reads_keeps [OF R(2)] g]
  show thesis
  proof (cases "l_coins (ledger v) k")
    case None
    then have "NullifyBackwardTransfers v k us0 = Inr (v1, us0)" using v1 R(1) k by (simp add: NullifyBackwardTransfers_def del: ledger_sel)
    then show thesis using that [of v1] s None k l1 reads_keeps [OF R(2)] by (auto simp: spec_nullify_def simp del: ledger_sel)
  next
    case (Some c)
    have at: "coins_at v1 k = c" by (rule coins_at_Some) (simp only: l1 Some)
    obtain c' us' where f: "nullify_from (to_u64 (nFirstBwtPos c)) c us0 = (c', us')" by fastforce
    have f0: "nullify_from (to_u64 (nFirstBwtPos c)) c [] = (c', us)" "nBwtMaturityHeight c \<noteq> 0" "us' = us0 @ us"
      using s Some k nullify_from_acc [OF f] by (auto simp: spec_nullify_def simp del: ledger_sel split: if_splits prod.splits)
    have C': "C' = (l_coins (ledger v))(k := normC (Some c'))" using s Some k f0 by (auto simp: spec_nullify_def simp del: ledger_sel)
    let ?f = "\<lambda>c. if nBwtMaturityHeight c = 0 then Inl Assert else Inr (nullify_from (to_u64 (nFirstBwtPos c)) c us0)"
    have fe: "?f (coins_at v1 k) = Inr (c', us0 @ us)" using at f f0 by simp
    have pc: "nFirstBwtPos c + int 0 = int (to_u64 (nFirstBwtPos c))" using p Some by (simp add: bwt_pos_ok_def to_u64_def del: ledger_sel)
    have cc: "clean_coins c" "nHeight c \<noteq> 0" using h Some by (simp_all add: coins_inv_def del: ledger_sel)
    have c': "clean_coins c'" using nullify_restore [OF cc pc f] by blast
    obtain v2 where "ModifyCoins v1 k ?f = Inr (v2, us0 @ us)" "keeps T v1 v2"
      "ledger v2 = (ledger v1)\<lparr>l_coins := (l_coins (ledger v1))(k := normC (Some (Cleanup c')))\<rparr>"
      by (rule ModifyCoins_ok [OF g1, where f = ?f, OF fe]) (simp add: c' clean_Cleanup_id)
    then show thesis using that [of v2] v1 R(1) Some k l1 C' c' keeps_trans [OF reads_keeps [OF R(2)]]
      by (simp add: NullifyBackwardTransfers_def clean_Cleanup_id del: ledger_sel)
  qed
qed

lemma spec_nullify_inv:
  assumes s: "spec_nullify k C = Inr (C', us)" and h: "coins_inv C" and p: "bwt_pos_ok C k"
  shows "coins_inv C'" "\<And>j. j \<noteq> k \<Longrightarrow> C' j = C j" "C k = None \<Longrightarrow> C' = C \<and> us = []"
proof -
  show "\<And>j. j \<noteq> k \<Longrightarrow> C' j = C j" "C k = None \<Longrightarrow> C' = C \<and> us = []"
    using s by (auto simp: spec_nullify_def split: if_splits option.splits prod.splits)
  show "coins_inv C'"
  proof (cases "k = 0 \<or> C k = None")
    case True
    then show ?thesis using s h by (auto simp: spec_nullify_def split: if_splits option.splits)
  next
    case False
    then obtain c where c: "C k = Some c" "k \<noteq> 0" by auto
    then obtain c' where f: "nullify_from (to_u64 (nFirstBwtPos c)) c [] = (c', us)" "C' = C(k := normC (Some c'))"
      using s by (auto simp: spec_nullify_def split: if_splits prod.splits)
    have pc: "nFirstBwtPos c + int 0 = int (to_u64 (nFirstBwtPos c))" using p c(1) by (simp add: bwt_pos_ok_def to_u64_def)
    have cc: "clean_coins c" "nHeight c \<noteq> 0" using h c(1) by (simp_all add: coins_inv_def)
    have "clean_coins c'" "nHeight c' = nHeight c" using nullify_restore [OF cc pc f(1)] by blast+
    then show ?thesis using coins_inv_upd [OF h, of c' k] f(2) cc(2) by simp
  qed
qed

lemma RestoreBackwardTransfers_ok:
  assumes g: "good T m w" and h: "coins_inv C" and p: "bwt_pos_ok C k" and s: "spec_nullify k C = Inr (C', us)" and w: "l_coins (ledger w) = C'"
  obtains w' where "RestoreBackwardTransfers w k us = Inr (w', True)" "keeps T w w'" "ledger w' = (ledger w)\<lparr>l_coins := C\<rparr>"
proof (cases "k = 0 \<or> C k = None")
  case True
  then have e: "C' = C" "us = []" using s by (auto simp: spec_nullify_def split: if_splits option.splits)
  let ?d = "coins_at w k" and ?f = "\<lambda>c. foldR restore_bwt (c, True) (rev (zip [0..<length us] us))"
  have f: "?f ?d = Inr (?d, True)" using e by simp
  have c: "Cleanup ?d = ?d" "clean_coins (Cleanup ?d)" using coins_at_clean [OF g] by (simp_all add: clean_Cleanup_id)
  have "(l_coins (ledger w))(k := normC (Some ?d)) = C" unfolding coins_at_ledger w e by simp
  then show thesis using ModifyCoins_ok [OF g, where f = ?f, OF f c(2)] that c(1) by (metis RestoreBackwardTransfers_def)
next
  case False
  then obtain c where c: "C k = Some c" "k \<noteq> 0" by auto
  then obtain c' where f: "nullify_from (to_u64 (nFirstBwtPos c)) c [] = (c', us)" "C' = C(k := normC (Some c'))"
    using s by (auto simp: spec_nullify_def split: if_splits prod.splits)
  have pc: "nFirstBwtPos c + int 0 = int (to_u64 (nFirstBwtPos c))" using p c(1) by (simp add: bwt_pos_ok_def to_u64_def)
  have cc: "clean_coins c" "nHeight c \<noteq> 0" "\<not> IsPruned c" using h c(1) by (simp_all add: coins_inv_def)
  have c': "clean_coins c'" using nullify_restore [OF cc(1,2) pc f(1)] by blast
  have d: "same_coin (coins_at w k) c'" by (rule same_coin_at [OF g c']) (simp add: w f(2) del: ledger_sel)
  let ?f = "\<lambda>c. foldR restore_bwt (c, True) (rev (zip [0..<length us] us))"
  obtain d' where d': "?f (coins_at w k) = Inr (d', True)" "same_coin d' c"
    using nullify_restore [OF cc(1,2) pc f(1)] d by auto
  have e: "(l_coins (ledger w))(k := normC (Some (Cleanup d'))) = C"
    using same_coin_norm [OF d'(2) cc(1)] w f(2) c(1) cc(3) by (simp add: normC_Some fun_upd_idem del: ledger_sel)
  obtain w' where "ModifyCoins w k ?f = Inr (w', True)" "keeps T w w'"
    "ledger w' = (ledger w)\<lparr>l_coins := (l_coins (ledger w))(k := normC (Some (Cleanup d')))\<rparr>"
    by (rule ModifyCoins_ok [OF g, where f = ?f, OF d'(1) same_coin_clean [OF d'(2)]])
  then show thesis using that e by (simp add: RestoreBackwardTransfers_def del: ledger_sel)
qed

end
