(* ===== verification/CertUpdate.thy ===== *)
theory CertUpdate
  imports CoinUndo
begin

text \<open>
  What a certificate does to its sidechain: \<open>UpdateSidechain(cert)\<close> and \<open>RestoreSidechain\<close> of
  \<open>coins.cpp\<close>, with the undo data \<open>CSidechainUndoData\<close> of \<open>undo.h\<close>. The hash of the certificate data is
  computed by the cross-chain protocol library and is a parameter of the model.
\<close>

section \<open>Undo data\<close>

record CSidechainUndoData =
  sidechainUndoDataVersion :: uint32
  contentBitMask :: uint8
  appliedMaturedAmount :: CAmount
  ud_pastEpochTopQualityCertView :: CScCertificateView
  ud_scFees :: "ScFeeData list"
  prevTopCommittedCertHash :: uint256
  prevTopCommittedCertReferencedEpoch :: int
  prevTopCommittedCertQuality :: int
  prevTopCommittedCertBwtAmount :: CAmount
  ud_lastTopQualityCertView :: CScCertificateView
  lowQualityBwts :: "CTxInUndo list"
  ceasedBwts :: "CTxInUndo list"

definition CSidechainUndoData_new :: CSidechainUndoData where
  "CSidechainUndoData_new = \<lparr>sidechainUndoDataVersion = 0, contentBitMask = 0, appliedMaturedAmount = 0,
     ud_pastEpochTopQualityCertView = certView_null, ud_scFees = [], prevTopCommittedCertHash = 0,
     prevTopCommittedCertReferencedEpoch = EPOCH_NULL, prevTopCommittedCertQuality = QUALITY_NULL,
     prevTopCommittedCertBwtAmount = 0, ud_lastTopQualityCertView = certView_null, lowQualityBwts = [], ceasedBwts = []\<rparr>"

definition MATURED_AMOUNTS :: uint8 where "MATURED_AMOUNTS = 1"
definition CROSS_EPOCH_CERT_DATA :: uint8 where "CROSS_EPOCH_CERT_DATA = 2"
definition ANY_EPOCH_CERT_DATA :: uint8 where "ANY_EPOCH_CERT_DATA = 4"
definition SUPERSEDED_CERT_DATA :: uint8 where "SUPERSEDED_CERT_DATA = 8"
definition CEASED_CERT_DATA :: uint8 where "CEASED_CERT_DATA = 16"

lemmas section_defs = MATURED_AMOUNTS_def CROSS_EPOCH_CERT_DATA_def ANY_EPOCH_CERT_DATA_def SUPERSEDED_CERT_DATA_def CEASED_CERT_DATA_def

definition has_section :: "CSidechainUndoData \<Rightarrow> uint8 \<Rightarrow> bool" where
  "has_section ud s \<longleftrightarrow> contentBitMask ud AND s \<noteq> 0"

definition add_section :: "uint8 \<Rightarrow> CSidechainUndoData \<Rightarrow> CSidechainUndoData" where
  "add_section s ud = ud\<lparr>contentBitMask := contentBitMask ud OR s\<rparr>"

text \<open>\<open>scUndoDatabyScId\<close>, a \<open>std::map\<close>, with \<open>operator[]\<close>.\<close>

type_synonym ScUndoMap = "(uint256 \<times> CSidechainUndoData) list"

definition undo_at :: "ScUndoMap \<Rightarrow> uint256 \<Rightarrow> CSidechainUndoData" where
  "undo_at m k = (case map_of m k of None \<Rightarrow> CSidechainUndoData_new | Some ud \<Rightarrow> ud)"

section \<open>Operations\<close>

definition GetValueOfBackwardTransfers :: "CScCertificate \<Rightarrow> CAmount" where
  "GetValueOfBackwardTransfers cert = sum_list (map nValue (drop (to_u64 (cert_nFirstBwtPos cert)) (cert_vout cert)))"

definition CScCertificateView_of ::
  "(CScCertificate \<Rightarrow> ScFixedParameters \<Rightarrow> CFieldElement) \<Rightarrow> CScCertificate \<Rightarrow> ScFixedParameters \<Rightarrow> CScCertificateView" where
  "CScCertificateView_of GetDataHash cert params = \<lparr>certDataHash = GetDataHash cert params,
     view_forwardTransferScFee = cert_forwardTransferScFee cert, view_mbtrScFee = cert_mbtrScFee cert\<rparr>"

text \<open>The sidechain and its undo data, before the scheduled ceasing is moved.\<close>

definition cert_update ::
  "(CScCertificate \<Rightarrow> ScFixedParameters \<Rightarrow> CFieldElement) \<Rightarrow> CScCertificate \<Rightarrow> CSidechain \<Rightarrow> CSidechainUndoData
    \<Rightarrow> (CSidechain \<times> CSidechainUndoData) result" where
  "cert_update GetDataHash cert currentSc scUndoData =
     (let bwtTotalAmount = GetValueOfBackwardTransfers cert in
      bindR (if epochNumber cert = lastTopQualityCertReferencedEpoch currentSc + 1 then
               let scUndoData = add_section CROSS_EPOCH_CERT_DATA
                     (scUndoData\<lparr>ud_pastEpochTopQualityCertView := pastEpochTopQualityCertView currentSc, ud_scFees := scFees currentSc\<rparr>);
                   currentSc = currentSc\<lparr>pastEpochTopQualityCertView := lastTopQualityCertView currentSc\<rparr>
               in bindR (UpdateScFees (pastEpochTopQualityCertView currentSc) currentSc) (\<lambda>currentSc. Inr (currentSc, scUndoData))
             else if epochNumber cert = lastTopQualityCertReferencedEpoch currentSc then
               if quality cert \<le> lastTopQualityCertQuality currentSc then Inl RetFalse
               else Inr (currentSc\<lparr>balance := balance currentSc + lastTopQualityCertBwtAmount currentSc\<rparr>, scUndoData)
             else Inl RetFalse)
        (\<lambda>(currentSc, scUndoData).
           if balance currentSc < bwtTotalAmount then Inl RetFalse
           else let currentSc = currentSc\<lparr>balance := balance currentSc - bwtTotalAmount\<rparr>;
                    scUndoData = add_section ANY_EPOCH_CERT_DATA
                      (scUndoData\<lparr>prevTopCommittedCertHash := lastTopQualityCertHash currentSc,
                         prevTopCommittedCertReferencedEpoch := lastTopQualityCertReferencedEpoch currentSc,
                         prevTopCommittedCertQuality := lastTopQualityCertQuality currentSc,
                         prevTopCommittedCertBwtAmount := lastTopQualityCertBwtAmount currentSc,
                         ud_lastTopQualityCertView := lastTopQualityCertView currentSc\<rparr>);
                    currentSc = currentSc\<lparr>lastTopQualityCertHash := cert_hash cert,
                         lastTopQualityCertReferencedEpoch := epochNumber cert,
                         lastTopQualityCertQuality := quality cert,
                         lastTopQualityCertBwtAmount := bwtTotalAmount,
                         lastTopQualityCertView := CScCertificateView_of GetDataHash cert (fixedParams currentSc)\<rparr>
                in Inr (currentSc, scUndoData)))"

definition move_ceasing :: "uint256 \<Rightarrow> int \<Rightarrow> int \<Rightarrow> CCoinsViewCache \<Rightarrow> CCoinsViewCache result" where
  "move_ceasing scId oldHeight newHeight v =
     (case HaveSidechainEvents v oldHeight of (v, have_it) \<Rightarrow>
        if \<not> have_it then Inl RetFalse
        else let v = on_events v oldHeight (del_event (rem_ceasing scId))
             in Inr (on_events v newHeight (add_event (ins_ceasing scId))))"

definition UpdateSidechain_cert ::
  "(CScCertificate \<Rightarrow> ScFixedParameters \<Rightarrow> CFieldElement) \<Rightarrow> CCoinsViewCache \<Rightarrow> CScCertificate \<Rightarrow> ScUndoMap
    \<Rightarrow> (CCoinsViewCache \<times> ScUndoMap) result" where
  "UpdateSidechain_cert GetDataHash v cert m =
     (let scId = cert_scId cert in
      if prevTopCommittedCertHash (undo_at m scId) \<noteq> 0 then Inl Assert
      else (case HaveSidechain v scId of (v, have_it) \<Rightarrow>
        if \<not> have_it then Inl RetFalse
        else (case ModifySidechain v scId of (v, e) \<Rightarrow>
          let prevCeasingHeight = GetScheduledCeasingHeight (me_content e) in
          bindR (cert_update GetDataHash cert (me_content e) (undo_at m scId)) (\<lambda>(currentSc, scUndoData).
            let v = put_sidechain v scId (e\<lparr>me_content := currentSc, me_flag := DIRTY\<rparr>);
                m = AList.update scId scUndoData m
            in if epochNumber cert \<noteq> prevTopCommittedCertReferencedEpoch scUndoData
               then bindR (move_ceasing scId prevCeasingHeight (GetScheduledCeasingHeight currentSc) v) (\<lambda>v. Inr (v, m))
               else Inr (v, m)))))"

definition cert_restore :: "CScCertificate \<Rightarrow> CSidechainUndoData \<Rightarrow> CSidechain \<Rightarrow> CSidechain result" where
  "cert_restore cert sidechainUndo currentSc =
     (if cert_hash cert \<noteq> lastTopQualityCertHash currentSc then Inl Assert
      else let currentSc = currentSc\<lparr>balance := balance currentSc + GetValueOfBackwardTransfers cert\<rparr> in
      bindR (if epochNumber cert = prevTopCommittedCertReferencedEpoch sidechainUndo + 1 then
               if \<not> has_section sidechainUndo CROSS_EPOCH_CERT_DATA then Inl Assert
               else Inr (currentSc\<lparr>scFees := ud_scFees sidechainUndo, pastEpochTopQualityCertView := ud_pastEpochTopQualityCertView sidechainUndo\<rparr>)
             else if epochNumber cert = prevTopCommittedCertReferencedEpoch sidechainUndo then
               if \<not> quality cert > prevTopCommittedCertQuality sidechainUndo then Inl Assert
               else Inr (currentSc\<lparr>balance := balance currentSc - prevTopCommittedCertBwtAmount sidechainUndo\<rparr>)
             else Inl RetFalse)
        (\<lambda>currentSc.
           if \<not> has_section sidechainUndo ANY_EPOCH_CERT_DATA then Inl Assert
           else Inr (currentSc\<lparr>lastTopQualityCertHash := prevTopCommittedCertHash sidechainUndo,
                  lastTopQualityCertReferencedEpoch := prevTopCommittedCertReferencedEpoch sidechainUndo,
                  lastTopQualityCertQuality := prevTopCommittedCertQuality sidechainUndo,
                  lastTopQualityCertBwtAmount := prevTopCommittedCertBwtAmount sidechainUndo,
                  lastTopQualityCertView := ud_lastTopQualityCertView sidechainUndo\<rparr>)))"

definition RestoreSidechain :: "CCoinsViewCache \<Rightarrow> CScCertificate \<Rightarrow> CSidechainUndoData \<Rightarrow> CCoinsViewCache result" where
  "RestoreSidechain v certToRevert sidechainUndo =
     (let scId = cert_scId certToRevert in
      (case HaveSidechain v scId of (v, have_it) \<Rightarrow>
        if \<not> have_it then Inl RetFalse
        else (case ModifySidechain v scId of (v, e) \<Rightarrow>
          let ceasingHeightToErase = GetScheduledCeasingHeight (me_content e) in
          bindR (cert_restore certToRevert sidechainUndo (me_content e)) (\<lambda>currentSc.
            let v = put_sidechain v scId (e\<lparr>me_content := currentSc, me_flag := DIRTY\<rparr>)
            in if epochNumber certToRevert \<noteq> lastTopQualityCertReferencedEpoch currentSc
               then move_ceasing scId ceasingHeightToErase (GetScheduledCeasingHeight currentSc) v
               else Inr v))))"

section \<open>The sidechain\<close>

lemma has_section_add [simp]:
  "has_section (add_section s ud) t \<longleftrightarrow> has_section ud t \<or> s AND t \<noteq> 0"
  by (auto simp: has_section_def add_section_def bit.conj_disj_distrib2) (auto simp: bit_eq_iff bit_simps)

lemma has_section_other [simp]:
  "has_section (ud\<lparr>ud_pastEpochTopQualityCertView := a, ud_scFees := b\<rparr>) s = has_section ud s"
  "has_section (ud\<lparr>prevTopCommittedCertHash := c, prevTopCommittedCertReferencedEpoch := d, prevTopCommittedCertQuality := e,
     prevTopCommittedCertBwtAmount := f, ud_lastTopQualityCertView := g\<rparr>) s = has_section ud s"
  by (simp_all add: has_section_def)

lemma add_section_sel [simp]:
  "appliedMaturedAmount (add_section s ud) = appliedMaturedAmount ud" "ud_pastEpochTopQualityCertView (add_section s ud) = ud_pastEpochTopQualityCertView ud"
  "ud_scFees (add_section s ud) = ud_scFees ud" "prevTopCommittedCertHash (add_section s ud) = prevTopCommittedCertHash ud"
  "prevTopCommittedCertReferencedEpoch (add_section s ud) = prevTopCommittedCertReferencedEpoch ud"
  "prevTopCommittedCertQuality (add_section s ud) = prevTopCommittedCertQuality ud" "prevTopCommittedCertBwtAmount (add_section s ud) = prevTopCommittedCertBwtAmount ud"
  "ud_lastTopQualityCertView (add_section s ud) = ud_lastTopQualityCertView ud" "lowQualityBwts (add_section s ud) = lowQualityBwts ud"
  "ceasedBwts (add_section s ud) = ceasedBwts ud"
  by (simp_all add: add_section_def)

lemma UpdateScFees_other: "UpdateScFees x sc = Inr sc' \<Longrightarrow> \<exists>f. sc' = sc\<lparr>scFees := f\<rparr>"
  by (auto simp: UpdateScFees_def Let_def split: if_splits)

text \<open>What the undo data of a certificate records, whatever is added to it later.\<close>

definition records :: "CSidechainUndoData \<Rightarrow> CScCertificate \<Rightarrow> CSidechain \<Rightarrow> bool" where
  "records ud cert sc \<longleftrightarrow> has_section ud ANY_EPOCH_CERT_DATA \<and> prevTopCommittedCertHash ud = lastTopQualityCertHash sc
     \<and> prevTopCommittedCertReferencedEpoch ud = lastTopQualityCertReferencedEpoch sc \<and> prevTopCommittedCertQuality ud = lastTopQualityCertQuality sc
     \<and> prevTopCommittedCertBwtAmount ud = lastTopQualityCertBwtAmount sc \<and> ud_lastTopQualityCertView ud = lastTopQualityCertView sc
     \<and> (epochNumber cert = lastTopQualityCertReferencedEpoch sc + 1 \<longrightarrow> has_section ud CROSS_EPOCH_CERT_DATA
          \<and> ud_scFees ud = scFees sc \<and> ud_pastEpochTopQualityCertView ud = pastEpochTopQualityCertView sc)"

lemma cert_update_records:
  assumes "cert_update dh cert sc ud = Inr (sc', ud')"
  shows "records ud' cert sc" "lowQualityBwts ud' = lowQualityBwts ud" "ceasedBwts ud' = ceasedBwts ud" "appliedMaturedAmount ud' = appliedMaturedAmount ud"
    "creationBlockHeight sc' = creationBlockHeight sc" "fixedParams sc' = fixedParams sc" "mImmatureAmounts sc' = mImmatureAmounts sc"
    "lastTopQualityCertReferencedEpoch sc' = epochNumber cert" "lastTopQualityCertHash sc' = cert_hash cert"
    "epochNumber cert = lastTopQualityCertReferencedEpoch sc + 1 \<or> epochNumber cert = lastTopQualityCertReferencedEpoch sc"
    "has_section ud' MATURED_AMOUNTS = has_section ud MATURED_AMOUNTS" "has_section ud' CEASED_CERT_DATA = has_section ud CEASED_CERT_DATA"
  using assms by (auto simp: cert_update_def records_def section_defs Let_def bindR_eq_Inr dest!: UpdateScFees_other split: if_splits)

lemma cert_restore_update:
  assumes "cert_update dh cert sc ud = Inr (sc', ud0)" and "records ud' cert sc"
  shows "cert_restore cert ud' sc' = Inr sc"
  using assms by (auto simp: cert_update_def cert_restore_def records_def Let_def bindR_eq_Inr dest!: UpdateScFees_other split: if_splits)

section \<open>The view\<close>

lemma csw_entry_other [simp]: "csw_entry (put_sidechain v k e) = csw_entry v" "csw_entry (on_events v h f) = csw_entry v"
  by (cases v; auto simp: csw_entry_def put_sidechain_def on_events_def put_events_def ModifySidechainEvents_def Let_def fun_eq_iff split: prod.splits)+

lemma modify_existing:
  assumes "l_sc (ledger v) k = Some sc"
  obtains v1 e where "HaveSidechain v k = (v1, True)" "ModifySidechain v1 k = (v1, e)" "me_content e = sc"
    "\<And>T sc'. keeps T v (put_sidechain v1 k (e\<lparr>me_content := sc', me_flag := DIRTY\<rparr>))"
    "\<And>sc'. ledger (put_sidechain v1 k (e\<lparr>me_content := sc', me_flag := DIRTY\<rparr>)) = (ledger v)\<lparr>l_sc := (l_sc (ledger v))(k \<mapsto> sc')\<rparr>"
proof -
  obtain v1 r where h: "HaveSidechain v k = (v1, r)" by fastforce
  note H = HaveSidechain_spec [OF h] and R = HaveSidechain_reads [OF h]
  have r: r using H(1) assms by simp
  obtain e where e: "sc_entry v1 k = Some e" "me_flag e \<noteq> ERASED" "me_content e = sc" using H(4) [OF r] assms by auto
  show thesis
  proof (rule that [OF _ ModifySidechain_hit [OF e(1)] e(3)])
    fix sc'
    let ?e = "e\<lparr>me_content := sc', me_flag := DIRTY\<rparr>"
    show "keeps T v (put_sidechain v1 k ?e)" for T
    proof (rule keeps_trans [OF reads_keeps [OF R(2)]], unfold keeps_def, intro conjI allI impI)
      show "good T n (put_sidechain v1 k ?e)" if "good T n v1" for n by (rule put_sidechain_good [OF that e(1)]) simp
      show "erased_mono v1 (put_sidechain v1 k ?e)" unfolding erased_mono_def put_sidechain_obs by simp
    qed
    have "scOf (vw v1) = l_sc (ledger v)" using H(2) by (simp add: refines_view_def same_obs_def)
    then show "ledger (put_sidechain v1 k ?e) = (ledger v)\<lparr>l_sc := (l_sc (ledger v))(k \<mapsto> sc')\<rparr>"
      unfolding put_sidechain_ledger reads_ledger [OF R(2)] by (simp add: me_live_def del: ledger_sel)
  qed (use h r in simp)
qed

lemma evOf_sets: "good T n v \<Longrightarrow> evOf (vw v) h = None \<longleftrightarrow> l_ceasing (ledger v) h = {} \<and> l_maturing (ledger v) h = {}"
  using goodD(2) [of T n v h] by (cases "evOf (vw v) h") (simp_all add: ev_sets_def events_null_def events_IsNull_def)

lemma event_step:
  assumes "good T n v" "n \<le> h"
  shows "keeps_at T n v (on_events v h (del_event (rem_ceasing k)))" "keeps_at T n v (on_events v h (add_event (ins_ceasing k)))"
proof -
  have D: "good T m (on_events v h (del_event (rem_ceasing k)))" "sc_entry (on_events v h (del_event (rem_ceasing k))) = sc_entry v"
    "good T m (on_events v h (add_event (ins_ceasing k)))" "sc_entry (on_events v h (add_event (ins_ceasing k))) = sc_entry v" if "m \<le> n" "good T m v" for m
    using del_event_good [of T m v h "rem_ceasing k"] add_event_good [of T m v h "ins_ceasing k"] that assms(2) by simp_all
  have E: "sc_entry (on_events v h (del_event (rem_ceasing k))) = sc_entry v" "sc_entry (on_events v h (add_event (ins_ceasing k))) = sc_entry v"
    using D assms by blast+
  show "keeps_at T n v (on_events v h (del_event (rem_ceasing k)))" "keeps_at T n v (on_events v h (add_event (ins_ceasing k)))"
    unfolding keeps_at_def erased_mono_def E csw_entry_other using D(1,3) by auto
qed

definition moved :: "uint256 \<Rightarrow> int \<Rightarrow> int \<Rightarrow> (int \<Rightarrow> uint256 set) \<Rightarrow> int \<Rightarrow> uint256 set" where
  "moved k a b C = (let C = C(a := C a - {k}) in C(b := insert k (C b)))"

lemma move_ceasing_ok:
  assumes g: "good T n v" and n: "n \<le> a" "n \<le> b" and e: "l_ceasing (ledger v) a \<noteq> {} \<or> l_maturing (ledger v) a \<noteq> {}"
  obtains v' where "move_ceasing k a b v = Inr v'" "keeps_at T n v v'" "ledger v' = (ledger v)\<lparr>l_ceasing := moved k a b (l_ceasing (ledger v))\<rparr>"
proof -
  obtain v1 r where h: "HaveSidechainEvents v a = (v1, r)" by fastforce
  note R = HaveSidechainEvents_reads [OF h]
  have r: r using R(1) evOf_sets [OF g, of a] e by simp
  note k1 = keeps_at_keeps [OF reads_keeps [OF R(2)]]
  note g1 = keeps_at_good [OF k1 g]
  let ?v2 = "on_events v1 a (del_event (rem_ceasing k))"
  note k2 = keeps_at_trans [OF k1 event_step(1) [OF g1 n(1)]]
  note g2 = keeps_at_good [OF k2 g]
  let ?v3 = "on_events ?v2 b (add_event (ins_ceasing k))"
  note k3 = keeps_at_trans [OF k2 event_step(2) [OF g2 n(2)]]
  show thesis
  proof (rule that)
    show "move_ceasing k a b v = Inr ?v3" using h r by (simp add: move_ceasing_def Let_def)
    show "keeps_at T n v ?v3" by (rule k3)
    show "ledger ?v3 = (ledger v)\<lparr>l_ceasing := moved k a b (l_ceasing (ledger v))\<rparr>"
      unfolding ceasing_ledger(1) [OF g2 n(2)] ceasing_ledger(2) [OF g1 n(1)] reads_ledger [OF R(2)] by (simp add: moved_def Let_def del: ledger_sel)
  qed
qed

lemma move_ceasing_err:
  assumes g: "good T n v" and e: "l_ceasing (ledger v) a = {}" "l_maturing (ledger v) a = {}"
  shows "move_ceasing k a b v = Inl RetFalse"
proof -
  obtain v1 r where h: "HaveSidechainEvents v a = (v1, r)" by fastforce
  note R = HaveSidechainEvents_reads [OF h]
  have "\<not> r" using R(1) evOf_sets [OF g, of a] e by simp
  then show ?thesis using h by (simp add: move_ceasing_def)
qed

definition spec_cert :: "(CScCertificate \<Rightarrow> ScFixedParameters \<Rightarrow> CFieldElement) \<Rightarrow> CScCertificate \<Rightarrow> CSidechainUndoData \<Rightarrow> Ledger
    \<Rightarrow> (Ledger \<times> CSidechainUndoData) result" where
  "spec_cert dh cert ud L = (let k = cert_scId cert in
     case l_sc L k of None \<Rightarrow> Inl RetFalse
     | Some sc \<Rightarrow> bindR (cert_update dh cert sc ud) (\<lambda>(sc', ud').
         let a = GetScheduledCeasingHeight sc; b = GetScheduledCeasingHeight sc'; L' = L\<lparr>l_sc := (l_sc L)(k \<mapsto> sc')\<rparr> in
         if epochNumber cert \<noteq> lastTopQualityCertReferencedEpoch sc
         then if l_ceasing L a = {} \<and> l_maturing L a = {} then Inl RetFalse
              else Inr (L'\<lparr>l_ceasing := moved k a b (l_ceasing L)\<rparr>, ud')
         else Inr (L', ud')))"

text \<open>Heights from \<open>n\<close> on: the scheduled ceasing height of the sidechain, and so of its successor state.\<close>

lemma ceasing_height_mono:
  assumes "cert_update dh cert sc ud = Inr (sc', ud')" "0 \<le> epochLen sc"
  shows "GetScheduledCeasingHeight sc \<le> GetScheduledCeasingHeight sc'"
    "epochNumber cert \<noteq> lastTopQualityCertReferencedEpoch sc \<Longrightarrow> isCreationConfirmed sc \<Longrightarrow> GetScheduledCeasingHeight sc' = GetScheduledCeasingHeight sc + epochLen sc"
proof -
  note C = cert_update_records [OF assms(1)]
  have i: "isCreationConfirmed sc' = isCreationConfirmed sc" using C(5) by (simp add: isCreationConfirmed_def)
  show "epochNumber cert \<noteq> lastTopQualityCertReferencedEpoch sc \<Longrightarrow> isCreationConfirmed sc \<Longrightarrow> GetScheduledCeasingHeight sc' = GetScheduledCeasingHeight sc + epochLen sc"
    using C(5,6,8,10) i by (simp add: GetScheduledCeasingHeight_def GetCertSubmissionWindowEnd_def GetCertSubmissionWindowStart_def
        GetCertSubmissionWindowLength_def GetStartHeightForEpoch_def algebra_simps)
  show "GetScheduledCeasingHeight sc \<le> GetScheduledCeasingHeight sc'"
    using C(5,6,8,10) i assms(2) by (auto simp: GetScheduledCeasingHeight_def GetCertSubmissionWindowEnd_def GetCertSubmissionWindowStart_def
        GetCertSubmissionWindowLength_def GetStartHeightForEpoch_def algebra_simps)
qed

lemma UpdateSidechain_cert_ok:
  assumes g: "good T n v" and m: "prevTopCommittedCertHash (undo_at m (cert_scId cert)) = 0"
    and h: "\<And>sc. l_sc (ledger v) (cert_scId cert) = Some sc \<Longrightarrow> n \<le> GetScheduledCeasingHeight sc \<and> 0 \<le> epochLen sc"
    and s: "spec_cert dh cert (undo_at m (cert_scId cert)) (ledger v) = Inr (L, ud)"
  obtains v' where "UpdateSidechain_cert dh v cert m = Inr (v', AList.update (cert_scId cert) ud m)" "keeps_at T n v v'" "ledger v' = L"
proof -
  let ?k = "cert_scId cert"
  obtain sc sc' where sc: "l_sc (ledger v) ?k = Some sc" "cert_update dh cert sc (undo_at m ?k) = Inr (sc', ud)"
    using s by (auto simp: spec_cert_def Let_def bindR_eq_Inr simp del: ledger_sel split: option.splits if_splits)
  obtain v1 e where v1: "HaveSidechain v ?k = (v1, True)" "ModifySidechain v1 ?k = (v1, e)" "me_content e = sc"
    "\<And>T sc'. keeps T v (put_sidechain v1 ?k (e\<lparr>me_content := sc', me_flag := DIRTY\<rparr>))"
    "\<And>sc'. ledger (put_sidechain v1 ?k (e\<lparr>me_content := sc', me_flag := DIRTY\<rparr>)) = (ledger v)\<lparr>l_sc := (l_sc (ledger v))(?k \<mapsto> sc')\<rparr>"
    by (rule modify_existing [OF sc(1)]) (rule that)
  let ?v2 = "put_sidechain v1 ?k (e\<lparr>me_content := sc', me_flag := DIRTY\<rparr>)"
  let ?a = "GetScheduledCeasingHeight sc" and ?b = "GetScheduledCeasingHeight sc'"
  have k2: "keeps_at T n v ?v2" by (rule keeps_at_keeps [OF v1(4)])
  have p: "prevTopCommittedCertReferencedEpoch ud = lastTopQualityCertReferencedEpoch sc" using cert_update_records(1) [OF sc(2)] by (simp add: records_def)
  have n: "n \<le> ?a" "n \<le> ?b" using h [OF sc(1)] ceasing_height_mono(1) [OF sc(2)] by auto
  show thesis
  proof (cases "epochNumber cert = lastTopQualityCertReferencedEpoch sc")
    case True
    then show thesis using that [OF _ k2] s sc v1 m p by (simp add: UpdateSidechain_cert_def spec_cert_def Let_def del: ledger_sel)
  next
    case False
    then have e: "l_ceasing (ledger v) ?a \<noteq> {} \<or> l_maturing (ledger v) ?a \<noteq> {}" and
      L: "L = (ledger v)\<lparr>l_sc := (l_sc (ledger v))(?k \<mapsto> sc'), l_ceasing := moved ?k ?a ?b (l_ceasing (ledger v))\<rparr>"
      using s sc by (auto simp: spec_cert_def Let_def simp del: ledger_sel split: if_splits)
    have e2: "l_ceasing (ledger ?v2) ?a \<noteq> {} \<or> l_maturing (ledger ?v2) ?a \<noteq> {}" using e unfolding v1(5) by (simp del: ledger_sel)
    obtain v3 where v3: "move_ceasing ?k ?a ?b ?v2 = Inr v3" "keeps_at T n ?v2 v3" "ledger v3 = (ledger ?v2)\<lparr>l_ceasing := moved ?k ?a ?b (l_ceasing (ledger ?v2))\<rparr>"
      by (rule move_ceasing_ok [OF keeps_at_good [OF k2 g] n e2])
    have "ledger v3 = L" unfolding v3(3) v1(5) L by (simp del: ledger_sel)
    then show thesis using that [OF _ keeps_at_trans [OF k2 v3(2)]] v1 m sc(2) False v3(1) p by (simp add: UpdateSidechain_cert_def Let_def)
  qed
qed

lemma UpdateSidechain_cert_err:
  assumes g: "good T n v" and s: "spec_cert dh cert (undo_at m (cert_scId cert)) (ledger v) = Inl e"
  shows "\<exists>e'. UpdateSidechain_cert dh v cert m = Inl e'"
proof (cases "prevTopCommittedCertHash (undo_at m (cert_scId cert)) = 0")
  case m: True
  let ?k = "cert_scId cert"
  show ?thesis
  proof (cases "l_sc (ledger v) ?k")
    case None
    obtain v1 r where v1: "HaveSidechain v ?k = (v1, r)" by fastforce
    then show ?thesis using HaveSidechain_reads(1) [OF v1] None m by (simp add: UpdateSidechain_cert_def Let_def del: ledger_sel)
  next
    case (Some sc)
    obtain v1 en where v1: "HaveSidechain v ?k = (v1, True)" "ModifySidechain v1 ?k = (v1, en)" "me_content en = sc"
      "\<And>T sc'. keeps T v (put_sidechain v1 ?k (en\<lparr>me_content := sc', me_flag := DIRTY\<rparr>))"
      "\<And>sc'. ledger (put_sidechain v1 ?k (en\<lparr>me_content := sc', me_flag := DIRTY\<rparr>)) = (ledger v)\<lparr>l_sc := (l_sc (ledger v))(?k \<mapsto> sc')\<rparr>"
      by (rule modify_existing [OF Some]) (rule that)
    show ?thesis
    proof (cases "cert_update dh cert sc (undo_at m ?k)")
      case (Inl a)
      then show ?thesis using v1 m by (simp add: UpdateSidechain_cert_def Let_def)
    next
      case (Inr x)
      obtain sc' ud where x: "x = (sc', ud)" by fastforce
      let ?v2 = "put_sidechain v1 ?k (en\<lparr>me_content := sc', me_flag := DIRTY\<rparr>)"
      have p: "prevTopCommittedCertReferencedEpoch ud = lastTopQualityCertReferencedEpoch sc" using cert_update_records(1) [OF Inr [unfolded x]] by (simp add: records_def)
      have E: "epochNumber cert \<noteq> lastTopQualityCertReferencedEpoch sc" "l_ceasing (ledger v) (GetScheduledCeasingHeight sc) = {}" "l_maturing (ledger v) (GetScheduledCeasingHeight sc) = {}"
        using s Some Inr x by (auto simp: spec_cert_def Let_def simp del: ledger_sel split: if_splits)
      have "move_ceasing ?k (GetScheduledCeasingHeight sc) (GetScheduledCeasingHeight sc') ?v2 = Inl RetFalse"
        by (rule move_ceasing_err [OF keeps_good [OF v1(4) g]]) (unfold v1(5), use E in \<open>simp_all del: ledger_sel\<close>)
      then show ?thesis using v1 m Inr x p E(1) by (simp add: UpdateSidechain_cert_def Let_def)
    qed
  qed
qed (simp add: UpdateSidechain_cert_def Let_def)

section \<open>Restoring the sidechain\<close>

text \<open>A sidechain that is scheduled to cease at its scheduled height and at no other.\<close>

definition scheduled :: "(int \<Rightarrow> uint256 set) \<Rightarrow> uint256 \<Rightarrow> CSidechain \<Rightarrow> bool" where
  "scheduled C k sc \<longleftrightarrow> isCreationConfirmed sc \<and> 0 < epochLen sc \<and> (\<forall>h. k \<in> C h \<longleftrightarrow> h = GetScheduledCeasingHeight sc)"

lemma moved_back: "k \<in> C a \<Longrightarrow> k \<notin> C b \<Longrightarrow> a \<noteq> b \<Longrightarrow> moved k b a (moved k a b C) = C"
  by (auto simp: moved_def Let_def fun_eq_iff)

lemma moved_in: "k \<in> moved k a b C b"
  by (simp add: moved_def Let_def)

lemma moved_other: "j \<noteq> k \<Longrightarrow> j \<in> moved k a b C h \<longleftrightarrow> j \<in> C h"
  by (auto simp: moved_def Let_def)

lemma spec_cert_Inr:
  assumes "spec_cert dh cert ud L = Inr (L', ud')" and "l_sc L (cert_scId cert) = Some sc"
  obtains sc' where "cert_update dh cert sc ud = Inr (sc', ud')"
    "L' = L\<lparr>l_sc := (l_sc L)(cert_scId cert \<mapsto> sc'), l_ceasing := if epochNumber cert \<noteq> lastTopQualityCertReferencedEpoch sc
        then moved (cert_scId cert) (GetScheduledCeasingHeight sc) (GetScheduledCeasingHeight sc') (l_ceasing L) else l_ceasing L\<rparr>"
proof (cases "epochNumber cert = lastTopQualityCertReferencedEpoch sc")
  case True
  then show thesis using assms that by (auto simp: spec_cert_def Let_def bindR_eq_Inr)
next
  case False
  then show thesis using assms that by (fastforce simp: spec_cert_def Let_def bindR_eq_Inr split: if_splits)
qed

lemma RestoreSidechain_ok:
  assumes s: "spec_cert dh cert ud0 L = Inr (L', ud1)" and sc: "l_sc L (cert_scId cert) = Some sc" and u: "records ud cert sc"
    and c: "scheduled (l_ceasing L) (cert_scId cert) sc" and g: "good T n w" and n: "n \<le> GetScheduledCeasingHeight sc"
    and w: "l_sc (ledger w) = l_sc L'" "l_ceasing (ledger w) = l_ceasing L'"
  obtains w' where "RestoreSidechain w cert ud = Inr w'" "keeps_at T n w w'" "ledger w' = (ledger w)\<lparr>l_sc := l_sc L, l_ceasing := l_ceasing L\<rparr>"
proof -
  let ?k = "cert_scId cert"
  obtain sc' where s': "cert_update dh cert sc ud0 = Inr (sc', ud1)"
    "L' = L\<lparr>l_sc := (l_sc L)(?k \<mapsto> sc'), l_ceasing := if epochNumber cert \<noteq> lastTopQualityCertReferencedEpoch sc
        then moved ?k (GetScheduledCeasingHeight sc) (GetScheduledCeasingHeight sc') (l_ceasing L) else l_ceasing L\<rparr>"
    by (rule spec_cert_Inr [OF s sc])
  have ksc: "l_sc (ledger w) ?k = Some sc'" using w(1) s'(2) by simp
  obtain v1 e where v1: "HaveSidechain w ?k = (v1, True)" "ModifySidechain v1 ?k = (v1, e)" "me_content e = sc'"
    "\<And>T sc'. keeps T w (put_sidechain v1 ?k (e\<lparr>me_content := sc', me_flag := DIRTY\<rparr>))"
    "\<And>sc'. ledger (put_sidechain v1 ?k (e\<lparr>me_content := sc', me_flag := DIRTY\<rparr>)) = (ledger w)\<lparr>l_sc := (l_sc (ledger w))(?k \<mapsto> sc')\<rparr>"
    by (rule modify_existing [OF ksc]) (rule that)
  let ?v2 = "put_sidechain v1 ?k (e\<lparr>me_content := sc, me_flag := DIRTY\<rparr>)"
  let ?a = "GetScheduledCeasingHeight sc" and ?b = "GetScheduledCeasingHeight sc'"
  have k2: "keeps_at T n w ?v2" by (rule keeps_at_keeps [OF v1(4)])
  have L2: "ledger ?v2 = (ledger w)\<lparr>l_sc := l_sc L\<rparr>" unfolding v1(5) w(1) s'(2) using sc by (simp add: fun_upd_idem del: ledger_sel)
  have r: "cert_restore cert ud sc' = Inr sc" by (rule cert_restore_update [OF s'(1) u])
  show thesis
  proof (cases "epochNumber cert = lastTopQualityCertReferencedEpoch sc")
    case True
    then have "l_ceasing (ledger w) = l_ceasing L" using w(2) s'(2) by simp
    then have "(ledger w)\<lparr>l_sc := l_sc L\<rparr> = (ledger w)\<lparr>l_sc := l_sc L, l_ceasing := l_ceasing L\<rparr>"
      by (intro Ledger.equality) (simp_all del: ledger_sel)
    then show thesis using that [OF _ k2] v1 r True L2 by (simp add: RestoreSidechain_def Let_def del: ledger_sel)
  next
    case False
    then have ce: "l_ceasing (ledger ?v2) = moved ?k ?a ?b (l_ceasing L)" unfolding L2 using w(2) s'(2) by (simp del: ledger_sel)
    have b: "?b = ?a + epochLen sc" using ceasing_height_mono(2) [OF s'(1)] False c by (simp add: scheduled_def)
    have nb: "n \<le> ?b" "?a \<noteq> ?b" using n b c by (simp_all add: scheduled_def)
    have "l_ceasing (ledger ?v2) ?b \<noteq> {}" unfolding ce using moved_in by fast
    then have e2: "l_ceasing (ledger ?v2) ?b \<noteq> {} \<or> l_maturing (ledger ?v2) ?b \<noteq> {}" by (simp del: ledger_sel)
    obtain v3 where v3: "move_ceasing ?k ?b ?a ?v2 = Inr v3" "keeps_at T n ?v2 v3" "ledger v3 = (ledger ?v2)\<lparr>l_ceasing := moved ?k ?b ?a (l_ceasing (ledger ?v2))\<rparr>"
      by (rule move_ceasing_ok [OF keeps_at_good [OF k2 g] nb(1) n e2])
    have "moved ?k ?b ?a (l_ceasing (ledger ?v2)) = l_ceasing L" unfolding ce
      by (rule moved_back) (use c nb(2) in \<open>auto simp: scheduled_def\<close>)
    then have "ledger v3 = (ledger w)\<lparr>l_sc := l_sc L, l_ceasing := l_ceasing L\<rparr>" unfolding v3(3) L2 by (simp del: ledger_sel)
    then show thesis using that [OF _ keeps_at_trans [OF k2 v3(2)]] v1 r False v3(1) by (simp add: RestoreSidechain_def Let_def del: ledger_sel)
  qed
qed

end
