(* ===== verification/ScEvents.thy ===== *)
theory ScEvents
  imports CertUpdate
begin

text \<open>
  Scheduled sidechain events: \<open>HandleSidechainEvents\<close> and \<open>RevertSidechainEvents\<close> of \<open>coins.cpp\<close>. At its height an
  amount matures into the balance of its sidechain, and a sidechain that ceases loses the backward transfers of its
  last certificate. The notifications for the wallet (\<open>pCertsStateInfo\<close>) are not modelled.
\<close>

section \<open>Iteration order\<close>

text \<open>
  \<open>std::set\<close> and \<open>std::map\<close> over \<open>uint256\<close> are visited in the order of \<open>memcmp\<close> on the bytes, of which the
  first is the least significant one.
\<close>

definition blob_key :: "uint256 \<Rightarrow> nat" where
  "blob_key w = fold (\<lambda>i a. a * 256 + unat (drop_bit (8 * i) w AND 0xff)) [0..<32] 0"

definition set_order :: "uint256 set \<Rightarrow> uint256 list" where
  "set_order S = sort_key blob_key (sorted_list_of_set S)"

definition map_order :: "(uint256 \<times> 'a) list \<Rightarrow> (uint256 \<times> 'a) list" where
  "map_order m = sort_key (\<lambda>x. blob_key (fst x)) m"

lemma set_order [simp]: "finite S \<Longrightarrow> set (set_order S) = S" "distinct (set_order S)"
  by (simp_all add: set_order_def distinct_sort)

lemma map_order_set [simp]: "set (map_order m) = set m"
  by (simp add: map_order_def)

lemma map_order_distinct: "distinct_keys m \<Longrightarrow> distinct_keys (map_order m)"
  unfolding distinct_keys_def map_order_def by (metis distinct_map distinct_sort set_sort)

section \<open>Operations\<close>

definition mature_step :: "int \<Rightarrow> CCoinsViewCache \<times> ScUndoMap \<Rightarrow> uint256 \<Rightarrow> (CCoinsViewCache \<times> ScUndoMap) result" where
  "mature_step height s scId = (case s of (v, m) \<Rightarrow>
     (case HaveSidechain v scId of (v, have_it) \<Rightarrow>
       if \<not> have_it then Inl Assert
       else (case ModifySidechain v scId of (v, e) \<Rightarrow>
         let sc = me_content e in
         (case mImmatureAmounts sc height of
            None \<Rightarrow> Inl Assert
          | Some a \<Rightarrow>
              Inr (put_sidechain v scId (e\<lparr>me_content := sc\<lparr>balance := balance sc + a, mImmatureAmounts := (mImmatureAmounts sc)(height := None)\<rparr>, me_flag := DIRTY\<rparr>),
                   AList.update scId (add_section MATURED_AMOUNTS ((undo_at m scId)\<lparr>appliedMaturedAmount := a\<rparr>)) m)))))"

definition cease_step :: "CCoinsViewCache \<times> ScUndoMap \<Rightarrow> uint256 \<Rightarrow> (CCoinsViewCache \<times> ScUndoMap) result" where
  "cease_step s scId = (case s of (v, m) \<Rightarrow>
     (case CacheGetSidechain v scId of
        (v, None) \<Rightarrow> Inl Assert
      | (v, Some sidechain) \<Rightarrow>
          let m = AList.update scId (add_section CEASED_CERT_DATA (undo_at m scId)) m in
          if lastTopQualityCertReferencedEpoch sidechain = EPOCH_NULL
          then if lastTopQualityCertHash sidechain \<noteq> 0 then Inl Assert else Inr (v, m)
          else bindR (NullifyBackwardTransfers v (lastTopQualityCertHash sidechain) (ceasedBwts (undo_at m scId)))
                 (\<lambda>(v, outs). Inr (v, AList.update scId ((undo_at m scId)\<lparr>ceasedBwts := outs\<rparr>) m))))"

definition HandleSidechainEvents :: "int \<Rightarrow> CCoinsViewCache \<Rightarrow> ScUndoMap \<Rightarrow> (CCoinsViewCache \<times> ScUndoMap) result" where
  "HandleSidechainEvents height v m =
     (case HaveSidechainEvents v height of (v, have_it) \<Rightarrow>
        if \<not> have_it then Inr (v, m)
        else (case CacheGetSidechainEvents v height of (v, r) \<Rightarrow>
          let scEvents = ev_sets r in
          bindR (foldR (mature_step height) (v, m) (set_order (maturingScs scEvents))) (\<lambda>s.
            bindR (foldR cease_step s (set_order (ceasingScs scEvents))) (\<lambda>(v, m).
              Inr (on_events v height (\<lambda>e. e\<lparr>me_flag := ERASED\<rparr>), m)))))"

definition unmature_step :: "int \<Rightarrow> CCoinsViewCache \<times> CSidechainEvents \<Rightarrow> uint256 \<times> CSidechainUndoData \<Rightarrow> (CCoinsViewCache \<times> CSidechainEvents) result" where
  "unmature_step height s x = (case (s, x) of ((v, ev), (scId, ud)) \<Rightarrow>
     if \<not> has_section ud MATURED_AMOUNTS then Inr (v, ev)
     else (case HaveSidechain v scId of (v, have_it) \<Rightarrow>
       if \<not> have_it then Inl RetFalse
       else (case ModifySidechain v scId of (v, e) \<Rightarrow>
         let amountToRestore = appliedMaturedAmount ud; sc = me_content e; ev = ins_maturing scId ev in
         if amountToRestore > 0
         then if balance sc < amountToRestore then Inl RetFalse
              else Inr (put_sidechain v scId (e\<lparr>me_content := sc\<lparr>
                     mImmatureAmounts := (mImmatureAmounts sc)(height \<mapsto> (case mImmatureAmounts sc height of None \<Rightarrow> 0 | Some a \<Rightarrow> a) + amountToRestore),
                     balance := balance sc - amountToRestore\<rparr>, me_flag := DIRTY\<rparr>), ev)
         else Inr (v, ev))))"

definition uncease_step :: "CCoinsViewCache \<times> CSidechainEvents \<Rightarrow> uint256 \<times> CSidechainUndoData \<Rightarrow> (CCoinsViewCache \<times> CSidechainEvents) result" where
  "uncease_step s x = (case (s, x) of ((v, ev), (scId, ud)) \<Rightarrow>
     if \<not> has_section ud CEASED_CERT_DATA then Inr (v, ev)
     else (case AccessSidechain v scId of
         (v, None) \<Rightarrow> Inl Undefined
       | (v, Some sidechain) \<Rightarrow>
           if lastTopQualityCertReferencedEpoch sidechain \<noteq> EPOCH_NULL
           then bindR (RestoreBackwardTransfers v (lastTopQualityCertHash sidechain) (ceasedBwts ud)) (\<lambda>(v, ok).
                  if \<not> ok then Inl RetFalse else Inr (v, ins_ceasing scId ev))
           else Inr (v, ins_ceasing scId ev)))"

definition RevertSidechainEvents :: "ScUndoMap \<Rightarrow> int \<Rightarrow> CCoinsViewCache \<Rightarrow> CCoinsViewCache result" where
  "RevertSidechainEvents m height v =
     (case HaveSidechainEvents v height of (v, have_it) \<Rightarrow>
        if have_it then Inl RetFalse
        else bindR (foldR (unmature_step height) (v, events_null) (map_order m)) (\<lambda>s.
          bindR (foldR uncease_step s (map_order m)) (\<lambda>(v, recreatedScEvent).
            if \<not> events_IsNull recreatedScEvent
            then Inr (on_events v height (\<lambda>e. \<lparr>me_content = recreatedScEvent, me_flag = FRESH\<rparr>))
            else Inr v)))"

section \<open>Maturing\<close>

definition matured :: "int \<Rightarrow> CSidechain \<Rightarrow> CSidechain" where
  "matured h sc = sc\<lparr>balance := balance sc + the (mImmatureAmounts sc h), mImmatureAmounts := (mImmatureAmounts sc)(h := None)\<rparr>"

definition unmatured :: "int \<Rightarrow> CAmount \<Rightarrow> CSidechain \<Rightarrow> CSidechain" where
  "unmatured h a sc = (if a > 0 then sc\<lparr>mImmatureAmounts := (mImmatureAmounts sc)(h \<mapsto> (case mImmatureAmounts sc h of None \<Rightarrow> 0 | Some x \<Rightarrow> x) + a),
     balance := balance sc - a\<rparr> else sc)"

lemma unmatured_matured: "mImmatureAmounts sc h = Some a \<Longrightarrow> 0 < a \<Longrightarrow> unmatured h a (matured h sc) = sc"
  by (simp add: unmatured_def matured_def map_upd_triv)

text \<open>The undo data of the sidechains in a set, with a change applied to each.\<close>

definition undo_upd :: "(uint256 \<Rightarrow> CSidechainUndoData \<Rightarrow> CSidechainUndoData) \<Rightarrow> uint256 set \<Rightarrow> ScUndoMap \<Rightarrow> ScUndoMap \<Rightarrow> bool" where
  "undo_upd f S m m' \<longleftrightarrow> (distinct_keys m \<longrightarrow> distinct_keys m')
     \<and> (\<forall>k. map_of m' k = (if k \<in> S then Some (f k (undo_at m k)) else map_of m k))"

lemma undo_upd_refl [simp]: "undo_upd f {} m m" by (simp add: undo_upd_def)

lemma undo_upd_step: "undo_upd f S (AList.update k (f k (undo_at m k)) m) m' \<Longrightarrow> k \<notin> S \<Longrightarrow> undo_upd f (insert k S) m m'"
  by (auto simp: undo_upd_def undo_at_def)

definition mark_matured :: "int \<Rightarrow> (uint256 \<rightharpoonup> CSidechain) \<Rightarrow> uint256 \<Rightarrow> CSidechainUndoData \<Rightarrow> CSidechainUndoData" where
  "mark_matured h S k ud = add_section MATURED_AMOUNTS (ud\<lparr>appliedMaturedAmount := the (mImmatureAmounts (the (S k)) h)\<rparr>)"

lemma mature_step_ok:
  assumes k: "l_sc (ledger v) k = Some sc" "mImmatureAmounts sc h \<noteq> None"
  obtains v' where "mature_step h (v, m) k = Inr (v', AList.update k (mark_matured h (l_sc (ledger v)) k (undo_at m k)) m)" "\<And>T. keeps T v v'"
    "ledger v' = (ledger v)\<lparr>l_sc := (l_sc (ledger v))(k \<mapsto> matured h sc)\<rparr>"
proof -
  obtain v1 e where v1: "HaveSidechain v k = (v1, True)" "ModifySidechain v1 k = (v1, e)" "me_content e = sc"
    "\<And>T sc'. keeps T v (put_sidechain v1 k (e\<lparr>me_content := sc', me_flag := DIRTY\<rparr>))"
    "\<And>sc'. ledger (put_sidechain v1 k (e\<lparr>me_content := sc', me_flag := DIRTY\<rparr>)) = (ledger v)\<lparr>l_sc := (l_sc (ledger v))(k \<mapsto> sc')\<rparr>"
    by (rule modify_existing [OF k(1)]) (rule that)
  obtain a where a: "mImmatureAmounts sc h = Some a" using k(2) by blast
  let ?v = "put_sidechain v1 k (e\<lparr>me_content := matured h sc, me_flag := DIRTY\<rparr>)"
  show thesis
  proof (rule that)
    show "mature_step h (v, m) k = Inr (?v, AList.update k (mark_matured h (l_sc (ledger v)) k (undo_at m k)) m)"
      using v1(1-3) a k(1) by (simp add: mature_step_def matured_def mark_matured_def Let_def del: ledger_sel)
  qed (rule v1(4), rule v1(5))
qed

lemma mature_step_err:
  assumes k: "\<not> (\<exists>sc. l_sc (ledger v) k = Some sc \<and> mImmatureAmounts sc h \<noteq> None)"
  shows "mature_step h (v, m) k = Inl Assert"
proof (cases "l_sc (ledger v) k")
  case None
  obtain v1 r where v1: "HaveSidechain v k = (v1, r)" by fastforce
  then show ?thesis using HaveSidechain_reads(1) [OF v1] None by (simp add: mature_step_def)
next
  case (Some sc)
  obtain v1 e where "HaveSidechain v k = (v1, True)" "ModifySidechain v1 k = (v1, e)" "me_content e = sc"
    by (rule modify_existing [OF Some]) (rule that)
  then show ?thesis using k Some by (simp add: mature_step_def Let_def del: ledger_sel)
qed

definition mature_all :: "int \<Rightarrow> uint256 set \<Rightarrow> (uint256 \<rightharpoonup> CSidechain) \<Rightarrow> uint256 \<rightharpoonup> CSidechain" where
  "mature_all h M S k = (if k \<in> M then map_option (matured h) (S k) else S k)"

lemma mature_loop_ok:
  assumes "distinct ks" "\<forall>k \<in> set ks. \<exists>sc. l_sc (ledger v) k = Some sc \<and> mImmatureAmounts sc h \<noteq> None"
  shows "\<exists>v' m'. foldR (mature_step h) (v, m) ks = Inr (v', m') \<and> (\<forall>T. keeps T v v') \<and> undo_upd (mark_matured h (l_sc (ledger v))) (set ks) m m'
    \<and> ledger v' = (ledger v)\<lparr>l_sc := mature_all h (set ks) (l_sc (ledger v))\<rparr>"
  using assms
proof (induction ks arbitrary: v m)
  case Nil
  then show ?case by (auto simp: mature_all_def [abs_def] simp del: ledger_sel)
next
  case (Cons k ks)
  obtain sc where sc: "l_sc (ledger v) k = Some sc" "mImmatureAmounts sc h \<noteq> None" using Cons.prems(2) by (auto simp del: ledger_sel)
  obtain v1 where v1: "mature_step h (v, m) k = Inr (v1, AList.update k (mark_matured h (l_sc (ledger v)) k (undo_at m k)) m)" "\<And>T. keeps T v v1"
    "ledger v1 = (ledger v)\<lparr>l_sc := (l_sc (ledger v))(k \<mapsto> matured h sc)\<rparr>" by (rule mature_step_ok [OF sc]) (rule that)
  have k: "k \<notin> set ks" using Cons.prems(1) by simp
  have S1: "l_sc (ledger v1) = (l_sc (ledger v))(k \<mapsto> matured h sc)" unfolding v1(3) by simp
  have "\<forall>j \<in> set ks. \<exists>sc. l_sc (ledger v1) j = Some sc \<and> mImmatureAmounts sc h \<noteq> None"
    unfolding S1 using Cons.prems(2) k by (auto simp del: ledger_sel)
  then obtain v' m' where I: "foldR (mature_step h) (v1, AList.update k (mark_matured h (l_sc (ledger v)) k (undo_at m k)) m) ks = Inr (v', m')"
    "\<And>T. keeps T v1 v'" "undo_upd (mark_matured h (l_sc (ledger v1))) (set ks) (AList.update k (mark_matured h (l_sc (ledger v)) k (undo_at m k)) m) m'"
    "ledger v' = (ledger v1)\<lparr>l_sc := mature_all h (set ks) (l_sc (ledger v1))\<rparr>"
    using Cons.IH [of v1 "AList.update k (mark_matured h (l_sc (ledger v)) k (undo_at m k)) m"] Cons.prems(1) by auto
  have e: "mark_matured h (l_sc (ledger v1)) j = mark_matured h (l_sc (ledger v)) j" if "j \<in> set ks" for j
    using that k unfolding S1 by (auto simp: mark_matured_def fun_eq_iff)
  have "undo_upd (mark_matured h (l_sc (ledger v))) (set ks) (AList.update k (mark_matured h (l_sc (ledger v)) k (undo_at m k)) m) m'"
    using I(3) e by (simp add: undo_upd_def del: ledger_sel)
  then have "undo_upd (mark_matured h (l_sc (ledger v))) (insert k (set ks)) m m'" using k by (rule undo_upd_step)
  moreover have "mature_all h (set ks) (l_sc (ledger v1)) = mature_all h (set (k # ks)) (l_sc (ledger v))"
    unfolding S1 using k sc(1) by (auto simp: mature_all_def fun_eq_iff simp del: ledger_sel)
  ultimately show ?case using I(1,2,4) v1 keeps_trans [OF v1(2) I(2)] by (auto simp del: ledger_sel)
qed

lemma mature_loop_err:
  assumes "distinct ks" "\<not> (\<forall>k \<in> set ks. \<exists>sc. l_sc (ledger v) k = Some sc \<and> mImmatureAmounts sc h \<noteq> None)"
  shows "foldR (mature_step h) (v, m) ks = Inl Assert"
  using assms
proof (induction ks arbitrary: v m)
  case (Cons k ks)
  show ?case
  proof (cases "\<exists>sc. l_sc (ledger v) k = Some sc \<and> mImmatureAmounts sc h \<noteq> None")
    case False
    then show ?thesis using mature_step_err [OF False, of m] by simp
  next
    case True
    then obtain sc where sc: "l_sc (ledger v) k = Some sc" "mImmatureAmounts sc h \<noteq> None" by (auto simp del: ledger_sel)
    obtain v1 where v1: "mature_step h (v, m) k = Inr (v1, AList.update k (mark_matured h (l_sc (ledger v)) k (undo_at m k)) m)"
      "ledger v1 = (ledger v)\<lparr>l_sc := (l_sc (ledger v))(k \<mapsto> matured h sc)\<rparr>" by (rule mature_step_ok [OF sc]) (rule that)
    have "l_sc (ledger v1) = (l_sc (ledger v))(k \<mapsto> matured h sc)" unfolding v1(2) by simp
    then have "\<not> (\<forall>j \<in> set ks. \<exists>sc. l_sc (ledger v1) j = Some sc \<and> mImmatureAmounts sc h \<noteq> None)"
      using Cons.prems True by (auto simp del: ledger_sel)
    then show ?thesis using Cons.IH [of v1] Cons.prems(1) v1(1) by (simp del: ledger_sel)
  qed
qed simp

subsection \<open>Undoing it\<close>

definition marked :: "uint8 \<Rightarrow> (uint256 \<times> CSidechainUndoData) list \<Rightarrow> uint256 set" where
  "marked s es = {k. \<exists>ud. (k, ud) \<in> set es \<and> has_section ud s}"

lemma marked_simps: "marked s [] = {}" "marked s ((k, ud) # es) = (if has_section ud s then insert k (marked s es) else marked s es)"
  by (auto simp: marked_def)

lemma marked_fresh: "distinct_keys ((k, ud) # es) \<Longrightarrow> k \<notin> marked s es"
  by (force simp: marked_def distinct_keys_def)

definition unmature_all :: "int \<Rightarrow> (uint256 \<times> CSidechainUndoData) list \<Rightarrow> (uint256 \<rightharpoonup> CSidechain) \<Rightarrow> uint256 \<rightharpoonup> CSidechain" where
  "unmature_all h es S k = (if k \<in> marked MATURED_AMOUNTS es then map_option (unmatured h (appliedMaturedAmount (the (map_of es k)))) (S k) else S k)"

lemma unmature_step_ok:
  assumes k: "l_sc (ledger v) k = Some sc" and b: "0 < appliedMaturedAmount ud \<Longrightarrow> appliedMaturedAmount ud \<le> balance sc" and m: "has_section ud MATURED_AMOUNTS"
  obtains v' where "unmature_step h (v, ev) (k, ud) = Inr (v', ins_maturing k ev)" "\<And>T. keeps T v v'"
    "ledger v' = (ledger v)\<lparr>l_sc := (l_sc (ledger v))(k \<mapsto> unmatured h (appliedMaturedAmount ud) sc)\<rparr>"
proof -
  obtain v1 e where v1: "HaveSidechain v k = (v1, True)" "ModifySidechain v1 k = (v1, e)" "me_content e = sc"
    "\<And>T sc'. keeps T v (put_sidechain v1 k (e\<lparr>me_content := sc', me_flag := DIRTY\<rparr>))"
    "\<And>sc'. ledger (put_sidechain v1 k (e\<lparr>me_content := sc', me_flag := DIRTY\<rparr>)) = (ledger v)\<lparr>l_sc := (l_sc (ledger v))(k \<mapsto> sc')\<rparr>"
    by (rule modify_existing [OF k]) (rule that)
  show thesis
  proof (cases "0 < appliedMaturedAmount ud")
    case True
    then show thesis using that [OF _ v1(4,5)] v1(1-3) m b by (simp add: unmature_step_def unmatured_def Let_def)
  next
    case False
    note R = HaveSidechain_reads(2) [OF v1(1)]
    have "ledger v1 = (ledger v)\<lparr>l_sc := (l_sc (ledger v))(k \<mapsto> unmatured h (appliedMaturedAmount ud) sc)\<rparr>"
      using False k by (simp add: unmatured_def reads_ledger [OF R] fun_upd_idem del: ledger_sel)
    then show thesis using that [OF _ reads_keeps [OF R]] v1(1-3) m False by (simp add: unmature_step_def Let_def)
  qed
qed

lemma unmature_loop_ok:
  assumes "distinct_keys es" "\<forall>(k, ud) \<in> set es. has_section ud MATURED_AMOUNTS \<longrightarrow>
      (\<exists>sc. l_sc (ledger v) k = Some sc \<and> (0 < appliedMaturedAmount ud \<longrightarrow> appliedMaturedAmount ud \<le> balance sc))"
  shows "\<exists>v'. foldR (unmature_step h) (v, ev) es = Inr (v', ev\<lparr>maturingScs := maturingScs ev \<union> marked MATURED_AMOUNTS es\<rparr>) \<and> (\<forall>T. keeps T v v')
    \<and> ledger v' = (ledger v)\<lparr>l_sc := unmature_all h es (l_sc (ledger v))\<rparr>"
  using assms
proof (induction es arbitrary: v ev)
  case Nil
  then show ?case by (auto simp: unmature_all_def [abs_def] marked_simps simp del: ledger_sel)
next
  case (Cons x es)
  obtain k ud where x: "x = (k, ud)" by (cases x)
  have k: "k \<notin> marked MATURED_AMOUNTS es" "distinct_keys es" "\<And>j d. (j, d) \<in> set es \<Longrightarrow> j \<noteq> k"
    using marked_fresh [of k ud es] Cons.prems(1) x by (auto simp: distinct_keys_def) force
  have H: "has_section d MATURED_AMOUNTS \<Longrightarrow> \<exists>sc. l_sc (ledger v) j = Some sc \<and> (0 < appliedMaturedAmount d \<longrightarrow> appliedMaturedAmount d \<le> balance sc)"
    if "(j, d) \<in> set (x # es)" for j d using Cons.prems(2) that by (auto simp del: ledger_sel)
  show ?case
  proof (cases "has_section ud MATURED_AMOUNTS")
    case False
    have "unmature_all h (x # es) (l_sc (ledger v)) = unmature_all h es (l_sc (ledger v))"
      using False x k by (auto simp: unmature_all_def marked_simps fun_eq_iff simp del: ledger_sel)
    moreover have "unmature_step h (v, ev) x = Inr (v, ev)" using False x by (simp add: unmature_step_def)
    moreover have "\<exists>v'. foldR (unmature_step h) (v, ev) es = Inr (v', ev\<lparr>maturingScs := maturingScs ev \<union> marked MATURED_AMOUNTS es\<rparr>) \<and> (\<forall>T. keeps T v v')
      \<and> ledger v' = (ledger v)\<lparr>l_sc := unmature_all h es (l_sc (ledger v))\<rparr>" by (rule Cons.IH [OF k(2)]) (use H in auto)
    ultimately show ?thesis using False x by (simp add: marked_simps del: ledger_sel)
  next
    case True
    obtain sc where sc: "l_sc (ledger v) k = Some sc" "0 < appliedMaturedAmount ud \<Longrightarrow> appliedMaturedAmount ud \<le> balance sc"
      using H [of k ud] True x by auto
    obtain v1 where v1: "unmature_step h (v, ev) (k, ud) = Inr (v1, ins_maturing k ev)" "\<And>T. keeps T v v1"
      "ledger v1 = (ledger v)\<lparr>l_sc := (l_sc (ledger v))(k \<mapsto> unmatured h (appliedMaturedAmount ud) sc)\<rparr>"
      by (rule unmature_step_ok [OF sc(1) sc(2) True]) (assumption, rule that)
    have S1: "l_sc (ledger v1) = (l_sc (ledger v))(k \<mapsto> unmatured h (appliedMaturedAmount ud) sc)" unfolding v1(3) by simp
    have "\<forall>(j, d) \<in> set es. has_section d MATURED_AMOUNTS \<longrightarrow>
      (\<exists>sc. l_sc (ledger v1) j = Some sc \<and> (0 < appliedMaturedAmount d \<longrightarrow> appliedMaturedAmount d \<le> balance sc))"
      unfolding S1 using H k(3) by (auto simp del: ledger_sel)
    then obtain v' where I: "foldR (unmature_step h) (v1, ins_maturing k ev) es = Inr (v', (ins_maturing k ev)\<lparr>maturingScs := maturingScs (ins_maturing k ev) \<union> marked MATURED_AMOUNTS es\<rparr>)"
      "\<And>T. keeps T v1 v'" "ledger v' = (ledger v1)\<lparr>l_sc := unmature_all h es (l_sc (ledger v1))\<rparr>"
      using Cons.IH [OF k(2), of v1 "ins_maturing k ev"] by blast
    have "unmature_all h es (l_sc (ledger v1)) = unmature_all h (x # es) (l_sc (ledger v))"
      unfolding S1 using True x k sc(1) by (auto simp: unmature_all_def marked_simps fun_eq_iff simp del: ledger_sel)
    then show ?thesis using I v1(1,3) keeps_trans [OF v1(2) I(2)] True x by (auto simp: marked_simps simp del: ledger_sel)
  qed
qed

section \<open>Ceasing\<close>

definition nul_coin :: "CCoins \<Rightarrow> CCoins option" where
  "nul_coin c = normC (Some (fst (nullify_from (to_u64 (nFirstBwtPos c)) c [])))"

definition nul_outs :: "CCoins option \<Rightarrow> CTxInUndo list" where
  "nul_outs r = (case r of None \<Rightarrow> [] | Some c \<Rightarrow> snd (nullify_from (to_u64 (nFirstBwtPos c)) c []))"

lemma spec_nullify_at:
  assumes "k \<noteq> 0" "\<And>c. C k = Some c \<Longrightarrow> nBwtMaturityHeight c \<noteq> 0"
  shows "spec_nullify k C = Inr (C(k := Option.bind (C k) nul_coin), nul_outs (C k))"
  using assms by (cases "C k") (auto simp: spec_nullify_def nul_coin_def nul_outs_def fun_upd_idem split: prod.splits)

lemma NullifyBackwardTransfers_err:
  assumes g: "good T n v" and k: "k \<noteq> 0" and c: "l_coins (ledger v) k = Some c" "nBwtMaturityHeight c = 0"
  shows "NullifyBackwardTransfers v k us = Inl Assert"
proof -
  obtain v1 r where v1: "HaveCoins v k = (v1, r)" by fastforce
  note R = HaveCoins_reads [OF v1 g]
  have at: "coins_at v1 k = c" by (rule coins_at_Some) (simp only: reads_ledger [OF R(2)] c)
  let ?f = "\<lambda>c. if nBwtMaturityHeight c = 0 then Inl Assert else Inr (nullify_from (to_u64 (nFirstBwtPos c)) c us)"
  have "?f (coins_at v1 k) = Inl Assert" using at c(2) by simp
  from ModifyCoins_err [OF keeps_good [OF reads_keeps [OF R(2)] g], where f = ?f, OF this]
  show ?thesis using v1 R(1) c(1) k by (simp add: NullifyBackwardTransfers_def del: ledger_sel)
qed

text \<open>The certificate whose backward transfers a sidechain loses when it ceases.\<close>

definition last_cert :: "(uint256 \<rightharpoonup> CSidechain) \<Rightarrow> uint256 \<Rightarrow> uint256" where
  "last_cert S k = (case S k of None \<Rightarrow> 0 | Some sc \<Rightarrow> lastTopQualityCertHash sc)"

definition cease_ok :: "(uint256 \<rightharpoonup> CSidechain) \<Rightarrow> coinmap \<Rightarrow> uint256 \<Rightarrow> bool" where
  "cease_ok S C k \<longleftrightarrow> (\<exists>sc. S k = Some sc \<and> (lastTopQualityCertReferencedEpoch sc = EPOCH_NULL \<longleftrightarrow> lastTopQualityCertHash sc = 0))
     \<and> (\<forall>c. last_cert S k \<noteq> 0 \<longrightarrow> C (last_cert S k) = Some c \<longrightarrow> nBwtMaturityHeight c \<noteq> 0 \<and> 0 \<le> nFirstBwtPos c \<and> nFirstBwtPos c < 2 ^ 31)"

definition cease_on :: "uint256 set \<Rightarrow> coinmap \<Rightarrow> coinmap" where
  "cease_on X C x = (if x \<in> X \<and> x \<noteq> 0 then Option.bind (C x) nul_coin else C x)"

definition mark_ceased :: "(uint256 \<rightharpoonup> CSidechain) \<Rightarrow> coinmap \<Rightarrow> uint256 \<Rightarrow> CSidechainUndoData \<Rightarrow> CSidechainUndoData" where
  "mark_ceased S C k ud = (add_section CEASED_CERT_DATA ud)\<lparr>ceasedBwts := ceasedBwts ud @ (if last_cert S k = 0 then [] else nul_outs (C (last_cert S k)))\<rparr>"

lemma cease_on_inv:
  assumes h: "coins_inv C" and x: "x \<noteq> 0" "\<And>c. C x = Some c \<Longrightarrow> nBwtMaturityHeight c \<noteq> 0 \<and> 0 \<le> nFirstBwtPos c \<and> nFirstBwtPos c < 2 ^ 31"
  shows "coins_inv (C(x := Option.bind (C x) nul_coin))"
  using spec_nullify_inv(1) [OF spec_nullify_at [OF x(1)] h] x(2) by (simp add: bwt_pos_ok_def)

lemma cease_step_ok:
  assumes g: "good T n v" and h: "coins_inv (l_coins (ledger v))" and k: "cease_ok (l_sc (ledger v)) (l_coins (ledger v)) k"
  obtains v' m' where "cease_step (v, m) k = Inr (v', m')" "keeps T v v'"
    "undo_upd (mark_ceased (l_sc (ledger v)) (l_coins (ledger v))) {k} m m'"
    "ledger v' = (ledger v)\<lparr>l_coins := cease_on {last_cert (l_sc (ledger v)) k} (l_coins (ledger v))\<rparr>"
proof -
  obtain sc where sc: "l_sc (ledger v) k = Some sc" "lastTopQualityCertReferencedEpoch sc = EPOCH_NULL \<longleftrightarrow> lastTopQualityCertHash sc = 0"
    using k by (auto simp: cease_ok_def simp del: ledger_sel)
  have lc: "last_cert (l_sc (ledger v)) k = lastTopQualityCertHash sc" using sc(1) by (simp add: last_cert_def del: ledger_sel)
  obtain v1 r where v1: "CacheGetSidechain v k = (v1, r)" by fastforce
  note R = CacheGetSidechain_reads [OF v1]
  have r: "r = Some sc" using R(1) sc(1) by simp
  note k1 = reads_keeps [OF R(2)] and l1 = reads_ledger [OF R(2)]
  let ?m1 = "AList.update k (add_section CEASED_CERT_DATA (undo_at m k)) m"
  show thesis
  proof (cases "lastTopQualityCertHash sc = 0")
    case True
    have "undo_upd (mark_ceased (l_sc (ledger v)) (l_coins (ledger v))) {k} m ?m1"
      using True lc by (simp add: undo_upd_def mark_ceased_def add_section_def del: ledger_sel)
    moreover have "ledger v1 = (ledger v)\<lparr>l_coins := cease_on {last_cert (l_sc (ledger v)) k} (l_coins (ledger v))\<rparr>"
      using True lc l1 by (simp add: cease_on_def [abs_def] del: ledger_sel)
    ultimately show thesis using that [of v1 ?m1] v1 r True sc(2) k1 by (simp add: cease_step_def Let_def)
  next
    case False
    let ?x = "lastTopQualityCertHash sc" and ?C = "l_coins (ledger v)"
    have c: "nBwtMaturityHeight c \<noteq> 0 \<and> 0 \<le> nFirstBwtPos c \<and> nFirstBwtPos c < 2 ^ 31" if "?C ?x = Some c" for c
      using k that lc False by (simp add: cease_ok_def del: ledger_sel)
    have s: "spec_nullify ?x (l_coins (ledger v1)) = Inr (?C(?x := Option.bind (?C ?x) nul_coin), nul_outs (?C ?x))"
      unfolding l1 using spec_nullify_at [OF False, of ?C] c by blast
    have p: "bwt_pos_ok (l_coins (ledger v1)) ?x" unfolding l1 bwt_pos_ok_def using c by blast
    obtain v2 where v2: "NullifyBackwardTransfers v1 ?x (ceasedBwts (undo_at ?m1 k)) = Inr (v2, ceasedBwts (undo_at ?m1 k) @ nul_outs (?C ?x))" "keeps T v1 v2"
      "ledger v2 = (ledger v1)\<lparr>l_coins := ?C(?x := Option.bind (?C ?x) nul_coin)\<rparr>"
      by (rule NullifyBackwardTransfers_ok [OF keeps_good [OF k1 g] s _ p]) (unfold l1, rule h)
    let ?m2 = "AList.update k ((undo_at ?m1 k)\<lparr>ceasedBwts := ceasedBwts (undo_at ?m1 k) @ nul_outs (?C ?x)\<rparr>) ?m1"
    have "undo_at ?m1 k = add_section CEASED_CERT_DATA (undo_at m k)" by (simp add: undo_at_def)
    then have "undo_upd (mark_ceased (l_sc (ledger v)) ?C) {k} m ?m2"
      using False lc by (simp add: undo_upd_def mark_ceased_def del: ledger_sel)
    moreover have "ledger v2 = (ledger v)\<lparr>l_coins := cease_on {last_cert (l_sc (ledger v)) k} ?C\<rparr>"
      unfolding v2(3) l1 lc using False by (auto simp: cease_on_def fun_eq_iff simp del: ledger_sel intro!: arg_cong [where f = "\<lambda>c. (ledger v)\<lparr>l_coins := c\<rparr>"])
    ultimately show thesis using that [of v2 ?m2] v1 r False sc(2) v2(1) keeps_trans [OF k1 v2(2)] by (simp add: cease_step_def Let_def)
  qed
qed

lemma undo_upd_compose:
  assumes "undo_upd f {k} m m1" "undo_upd g S m1 m'" "\<And>j. j \<in> S \<Longrightarrow> g j = f j" "k \<notin> S"
  shows "undo_upd f (insert k S) m m'"
  using assms by (auto simp: undo_upd_def undo_at_def)

definition distinct_certs :: "(uint256 \<rightharpoonup> CSidechain) \<Rightarrow> uint256 set \<Rightarrow> bool" where
  "distinct_certs S K \<longleftrightarrow> (\<forall>j \<in> K. \<forall>k \<in> K. last_cert S j = last_cert S k \<longrightarrow> last_cert S j \<noteq> 0 \<longrightarrow> j = k)"

lemma cease_loop_ok:
  assumes "good T n v" "coins_inv (l_coins (ledger v))" "distinct ks" "\<forall>k \<in> set ks. cease_ok (l_sc (ledger v)) (l_coins (ledger v)) k"
    "distinct_certs (l_sc (ledger v)) (set ks)"
  shows "\<exists>v' m'. foldR cease_step (v, m) ks = Inr (v', m') \<and> keeps T v v'
    \<and> undo_upd (mark_ceased (l_sc (ledger v)) (l_coins (ledger v))) (set ks) m m'
    \<and> ledger v' = (ledger v)\<lparr>l_coins := cease_on (last_cert (l_sc (ledger v)) ` set ks) (l_coins (ledger v))\<rparr> \<and> coins_inv (l_coins (ledger v'))"
  using assms
proof (induction ks arbitrary: v m)
  case Nil
  then show ?case by (auto simp: cease_on_def [abs_def] simp del: ledger_sel)
next
  case (Cons k ks)
  let ?S = "l_sc (ledger v)" and ?C = "l_coins (ledger v)" and ?x = "last_cert (l_sc (ledger v)) k"
  have ck: "cease_ok ?S ?C k" using Cons.prems(4) by simp
  obtain v1 m1 where v1: "cease_step (v, m) k = Inr (v1, m1)" "keeps T v v1" "undo_upd (mark_ceased ?S ?C) {k} m m1" "ledger v1 = (ledger v)\<lparr>l_coins := cease_on {?x} ?C\<rparr>"
    by (rule cease_step_ok [OF Cons.prems(1,2) ck])
  have S1: "l_sc (ledger v1) = ?S" "l_coins (ledger v1) = cease_on {?x} ?C" unfolding v1(4) by simp_all
  have i1: "coins_inv (cease_on {?x} ?C)"
  proof (cases "?x = 0")
    case True
    then have "cease_on {?x} ?C = ?C" by (auto simp: cease_on_def fun_eq_iff)
    then show ?thesis using Cons.prems(2) by simp
  next
    case False
    have "cease_on {?x} ?C = ?C(?x := Option.bind (?C ?x) nul_coin)" using False by (auto simp: cease_on_def fun_eq_iff)
    then show ?thesis using cease_on_inv [OF Cons.prems(2) False] ck False by (simp add: cease_ok_def del: ledger_sel)
  qed
  have x: "last_cert ?S j = ?x \<Longrightarrow> ?x = 0" if "j \<in> set ks" for j
    using Cons.prems(3,5) that unfolding distinct_certs_def by (metis distinct.simps(2) list.set_intros(1,2))
  have C1: "cease_on {?x} ?C (last_cert ?S j) = ?C (last_cert ?S j)" if "j \<in> set ks" for j
    using x [OF that] by (auto simp: cease_on_def)
  have ok: "\<forall>j \<in> set ks. cease_ok (l_sc (ledger v1)) (l_coins (ledger v1)) j" unfolding S1 using Cons.prems(4) C1 by (simp add: cease_ok_def del: ledger_sel)
  have dc: "distinct_certs (l_sc (ledger v1)) (set ks)" using Cons.prems(5) unfolding S1 distinct_certs_def by (simp del: ledger_sel)
  obtain v' m' where I: "foldR cease_step (v1, m1) ks = Inr (v', m')" "keeps T v1 v'"
    "undo_upd (mark_ceased ?S (cease_on {?x} ?C)) (set ks) m1 m'" "ledger v' = (ledger v1)\<lparr>l_coins := cease_on (last_cert ?S ` set ks) (cease_on {?x} ?C)\<rparr>" "coins_inv (l_coins (ledger v'))"
    using Cons.IH [OF keeps_good [OF v1(2) Cons.prems(1)] i1 [folded S1(2)] _ ok dc, of m1] Cons.prems(3) unfolding S1 by (auto simp del: ledger_sel)
  have e: "mark_ceased ?S (cease_on {?x} ?C) j = mark_ceased ?S ?C j" if "j \<in> set ks" for j
    using C1 [OF that] by (simp add: mark_ceased_def fun_eq_iff)
  have "undo_upd (mark_ceased ?S ?C) (set (k # ks)) m m'"
    using undo_upd_compose [OF v1(3) I(3) e] Cons.prems(3) by simp
  moreover have "cease_on (last_cert ?S ` set ks) (cease_on {?x} ?C) = cease_on (last_cert ?S ` set (k # ks)) ?C"
    using x by (force simp: cease_on_def fun_eq_iff simp del: ledger_sel)
  ultimately show ?case using I v1(1,4) keeps_trans [OF v1(2) I(2)] by (auto simp del: ledger_sel)
qed

subsection \<open>Undoing it\<close>

lemma AccessSidechain_reads:
  assumes "l_sc (ledger v) k = Some sc"
  obtains v' where "AccessSidechain v k = (v', Some sc)" "reads v v'"
proof -
  obtain v1 e where f: "FetchSidechains v k = (v1, e)" by fastforce
  then have "CacheGetSidechain v k = (v1, Option.bind e me_live)" by (simp add: CacheGetSidechain_def)
  note R = CacheGetSidechain_reads [OF this]
  obtain x where "e = Some x" "me_content x = sc" using R(1) assms by (cases e) (auto simp: me_live_def split: if_splits)
  then show thesis using that f R(2) by (simp add: AccessSidechain_def)
qed

lemma RestoreBackwardTransfers_at:
  assumes g: "good T m w" and h: "coins_inv (l_coins (ledger w))" and k: "k \<noteq> 0"
    and c0: "\<And>c. c0 = Some c \<Longrightarrow> clean_coins c \<and> \<not> IsPruned c \<and> nHeight c \<noteq> 0 \<and> nBwtMaturityHeight c \<noteq> 0 \<and> 0 \<le> nFirstBwtPos c \<and> nFirstBwtPos c < 2 ^ 31"
    and w: "l_coins (ledger w) k = Option.bind c0 nul_coin"
  obtains w' where "RestoreBackwardTransfers w k (nul_outs c0) = Inr (w', True)" "keeps T w w'" "ledger w' = (ledger w)\<lparr>l_coins := (l_coins (ledger w))(k := c0)\<rparr>"
    "coins_inv (l_coins (ledger w'))"
proof -
  let ?C = "(l_coins (ledger w))(k := c0)"
  have i: "coins_inv ?C" using h c0 by (auto simp: coins_inv_def simp del: ledger_sel)
  have p: "bwt_pos_ok ?C k" using c0 by (simp add: bwt_pos_ok_def)
  have "spec_nullify k ?C = Inr (?C(k := Option.bind (?C k) nul_coin), nul_outs (?C k))" by (rule spec_nullify_at [OF k]) (use c0 in simp)
  then have s: "spec_nullify k ?C = Inr (l_coins (ledger w), nul_outs c0)" using w by (simp add: fun_upd_idem del: ledger_sel)
  obtain w' where w': "RestoreBackwardTransfers w k (nul_outs c0) = Inr (w', True)" "keeps T w w'" "ledger w' = (ledger w)\<lparr>l_coins := ?C\<rparr>"
    by (rule RestoreBackwardTransfers_ok [OF g i p s refl])
  have "l_coins (ledger w') = ?C" unfolding w'(3) by simp
  then show thesis using that [OF w'] i by simp
qed

lemma uncease_step_ok:
  assumes g: "good T n w" and h: "coins_inv (l_coins (ledger w))" and i: "coins_inv C" and k: "cease_ok (l_sc (ledger w)) C k"
    and c: "has_section ud CEASED_CERT_DATA" and x: "x = last_cert (l_sc (ledger w)) k" and u: "x \<noteq> 0 \<Longrightarrow> ceasedBwts ud = nul_outs (C x)"
    and w: "x \<noteq> 0 \<Longrightarrow> l_coins (ledger w) x = Option.bind (C x) nul_coin"
  obtains w' where "uncease_step (w, ev) (k, ud) = Inr (w', ins_ceasing k ev)" "keeps T w w'" "coins_inv (l_coins (ledger w'))"
    "ledger w' = (ledger w)\<lparr>l_coins := if x = 0 then l_coins (ledger w) else (l_coins (ledger w))(x := C x)\<rparr>"
proof -
  obtain sc where sc: "l_sc (ledger w) k = Some sc" "lastTopQualityCertReferencedEpoch sc = EPOCH_NULL \<longleftrightarrow> lastTopQualityCertHash sc = 0"
    using k by (auto simp: cease_ok_def simp del: ledger_sel)
  have lc: "x = lastTopQualityCertHash sc" using sc(1) x by (simp add: last_cert_def del: ledger_sel)
  obtain w1 where w1: "AccessSidechain w k = (w1, Some sc)" "reads w w1" by (rule AccessSidechain_reads [OF sc(1)])
  note k1 = reads_keeps [OF w1(2)] and l1 = reads_ledger [OF w1(2)]
  show thesis
  proof (cases "x = 0")
    case True
    then show thesis using that [of w1] w1(1) c lc sc(2) k1 l1 h by (simp add: uncease_step_def del: ledger_sel)
  next
    case False
    have c0: "clean_coins d \<and> \<not> IsPruned d \<and> nHeight d \<noteq> 0 \<and> nBwtMaturityHeight d \<noteq> 0 \<and> 0 \<le> nFirstBwtPos d \<and> nFirstBwtPos d < 2 ^ 31" if "C x = Some d" for d
      using i k that False x by (simp add: coins_inv_def cease_ok_def del: ledger_sel)
    obtain w2 where w2: "RestoreBackwardTransfers w1 x (nul_outs (C x)) = Inr (w2, True)" "keeps T w1 w2" "ledger w2 = (ledger w1)\<lparr>l_coins := (l_coins (ledger w1))(x := C x)\<rparr>"
      "coins_inv (l_coins (ledger w2))"
      by (rule RestoreBackwardTransfers_at [OF keeps_good [OF k1 g] _ False, where ?c0.0 = "C x"]) (use h c0 w False in \<open>simp_all add: l1 del: ledger_sel\<close>)
    then show thesis using that [of w2] w1(1) c lc sc(2) False u keeps_trans [OF k1 w2(2)] l1 by (simp add: uncease_step_def del: ledger_sel)
  qed
qed

lemma uncease_loop_ok:
  assumes "good T n w" "coins_inv (l_coins (ledger w))" "coins_inv C" "distinct_keys es" "distinct_certs (l_sc (ledger w)) (marked CEASED_CERT_DATA es)"
    "\<forall>(k, ud) \<in> set es. has_section ud CEASED_CERT_DATA \<longrightarrow> cease_ok (l_sc (ledger w)) C k
       \<and> (last_cert (l_sc (ledger w)) k \<noteq> 0 \<longrightarrow> ceasedBwts ud = nul_outs (C (last_cert (l_sc (ledger w)) k)))"
    "l_coins (ledger w) = cease_on (last_cert (l_sc (ledger w)) ` marked CEASED_CERT_DATA es) C"
  shows "\<exists>w'. foldR uncease_step (w, ev) es = Inr (w', ev\<lparr>ceasingScs := ceasingScs ev \<union> marked CEASED_CERT_DATA es\<rparr>) \<and> keeps T w w'
    \<and> ledger w' = (ledger w)\<lparr>l_coins := C\<rparr>"
  using assms
proof (induction es arbitrary: w ev)
  case Nil
  have "l_coins (ledger w) = C" unfolding Nil(7) by (auto simp: cease_on_def marked_simps fun_eq_iff)
  then have "ledger w = (ledger w)\<lparr>l_coins := C\<rparr>" by (metis ledger_coins_same(1))
  then show ?case by (auto simp: marked_simps simp del: ledger_sel)
next
  case (Cons y es)
  obtain k ud where y: "y = (k, ud)" by (cases y)
  let ?S = "l_sc (ledger w)" and ?M = "marked CEASED_CERT_DATA es"
  have k: "k \<notin> ?M" "distinct_keys es"
    using marked_fresh [of k ud es] Cons.prems(4) y by (auto simp: distinct_keys_def)
  have H: "has_section d CEASED_CERT_DATA \<Longrightarrow> cease_ok ?S C j \<and> (last_cert ?S j \<noteq> 0 \<longrightarrow> ceasedBwts d = nul_outs (C (last_cert ?S j)))"
    if "(j, d) \<in> set (y # es)" for j d using Cons.prems(6) that by (auto simp del: ledger_sel)
  have H': "\<forall>(j, d) \<in> set es. has_section d CEASED_CERT_DATA \<longrightarrow> cease_ok ?S C j \<and> (last_cert ?S j \<noteq> 0 \<longrightarrow> ceasedBwts d = nul_outs (C (last_cert ?S j)))"
    using H by auto
  show ?case
  proof (cases "has_section ud CEASED_CERT_DATA")
    case False
    then have m: "marked CEASED_CERT_DATA (y # es) = ?M" using y by (simp add: marked_simps)
    have "uncease_step (w, ev) y = Inr (w, ev)" using False y by (simp add: uncease_step_def)
    then show ?thesis using Cons.IH [OF Cons.prems(1-3) k(2) Cons.prems(5) [unfolded m] H' Cons.prems(7) [unfolded m]] m by simp
  next
    case True
    then have m: "marked CEASED_CERT_DATA (y # es) = insert k ?M" using y by (simp add: marked_simps)
    define x where "x = last_cert ?S k"
    have ck: "cease_ok ?S C k" and u: "x \<noteq> 0 \<Longrightarrow> ceasedBwts ud = nul_outs (C x)" using H [of k ud] True y x_def by auto
    have wx: "x \<noteq> 0 \<Longrightarrow> l_coins (ledger w) x = Option.bind (C x) nul_coin" unfolding Cons.prems(7) m by (simp add: cease_on_def x_def)
    obtain w1 where w1: "uncease_step (w, ev) (k, ud) = Inr (w1, ins_ceasing k ev)" "keeps T w w1" "coins_inv (l_coins (ledger w1))"
      "ledger w1 = (ledger w)\<lparr>l_coins := if x = 0 then l_coins (ledger w) else (l_coins (ledger w))(x := C x)\<rparr>"
      by (rule uncease_step_ok [OF Cons.prems(1-3) ck True x_def]) (rule u, assumption, rule wx, assumption, rule that)
    have S1: "l_sc (ledger w1) = ?S" unfolding w1(4) by simp
    have x: "x \<notin> last_cert ?S ` ?M \<or> x = 0" using Cons.prems(5) k(1) unfolding m distinct_certs_def x_def by blast
    have C1: "l_coins (ledger w1) = cease_on (last_cert ?S ` ?M) C"
      unfolding w1(4) Cons.prems(7) m using x by (auto simp: cease_on_def fun_eq_iff x_def [symmetric] simp del: ledger_sel)
    have dc: "distinct_certs ?S ?M" using Cons.prems(5) unfolding m distinct_certs_def by blast
    obtain w' where I: "foldR uncease_step (w1, ins_ceasing k ev) es = Inr (w', (ins_ceasing k ev)\<lparr>ceasingScs := ceasingScs (ins_ceasing k ev) \<union> ?M\<rparr>)"
      "keeps T w1 w'" "ledger w' = (ledger w1)\<lparr>l_coins := C\<rparr>"
      using Cons.IH [of w1 "ins_ceasing k ev", OF keeps_good [OF w1(2) Cons.prems(1)] w1(3) Cons.prems(3) k(2)] dc H' C1 unfolding S1 by blast
    have "ledger w' = (ledger w)\<lparr>l_coins := C\<rparr>" unfolding I(3) w1(4) by simp
    then show ?thesis using I(1) w1(1) keeps_trans [OF w1(2) I(2)] y m by (auto simp del: ledger_sel)
  qed
qed

lemma cease_all_inv:
  assumes i: "coins_inv C" and ok: "\<forall>k \<in> K. cease_ok S C k"
  shows "coins_inv (cease_on (last_cert S ` K) C)"
  unfolding coins_inv_def
proof (intro allI impI)
  fix x c
  assume x: "cease_on (last_cert S ` K) C x = Some c"
  show "clean_coins c \<and> \<not> IsPruned c \<and> nHeight c \<noteq> 0"
  proof (cases "x \<in> last_cert S ` K \<and> x \<noteq> 0")
    case True
    then have "coins_inv (C(x := Option.bind (C x) nul_coin))" using ok by (intro cease_on_inv [OF i]) (auto simp: cease_ok_def)
    moreover have "(C(x := Option.bind (C x) nul_coin)) x = Some c" using x True by (auto simp: cease_on_def)
    ultimately show ?thesis unfolding coins_inv_def by blast
  qed (use x i in \<open>auto simp: cease_on_def coins_inv_def\<close>)
qed

section \<open>All events of a height\<close>

definition events_inv :: "int \<Rightarrow> Ledger \<Rightarrow> bool" where
  "events_inv h L \<longleftrightarrow> finite (l_maturing L h) \<and> finite (l_ceasing L h) \<and> coins_inv (l_coins L)
     \<and> (\<forall>k \<in> l_maturing L h. \<exists>sc. l_sc L k = Some sc \<and> mImmatureAmounts sc h \<noteq> None)
     \<and> (\<forall>k \<in> l_ceasing L h. cease_ok (l_sc L) (l_coins L) k) \<and> distinct_certs (l_sc L) (l_ceasing L h)"

definition spec_events :: "int \<Rightarrow> Ledger \<Rightarrow> Ledger" where
  "spec_events h L = L\<lparr>l_sc := mature_all h (l_maturing L h) (l_sc L),
     l_coins := cease_on (last_cert (l_sc L) ` l_ceasing L h) (l_coins L),
     l_ceasing := (l_ceasing L)(h := {}), l_maturing := (l_maturing L)(h := {})\<rparr>"

definition ev_undo :: "int \<Rightarrow> Ledger \<Rightarrow> ScUndoMap \<Rightarrow> ScUndoMap \<Rightarrow> bool" where
  "ev_undo h L m m' \<longleftrightarrow> (\<exists>m1. undo_upd (mark_matured h (l_sc L)) (l_maturing L h) m m1 \<and> undo_upd (mark_ceased (l_sc L) (l_coins L)) (l_ceasing L h) m1 m')"

lemma last_cert_mature [simp]: "last_cert (mature_all h M S) = last_cert S"
  by (auto simp: last_cert_def mature_all_def matured_def fun_eq_iff split: option.splits)

lemma cease_ok_mature [simp]: "cease_ok (mature_all h M S) C k = cease_ok S C k"
  by (auto simp: cease_ok_def mature_all_def matured_def split: option.splits if_splits)

lemma distinct_certs_mature [simp]: "distinct_certs (mature_all h M S) K = distinct_certs S K"
  by (simp add: distinct_certs_def)

lemma mark_ceased_mature [simp]: "mark_ceased (mature_all h M S) C = mark_ceased S C"
  by (simp add: mark_ceased_def fun_eq_iff)

lemma erase_events:
  assumes g: "good T h v"
  shows "good T (h + 1) (on_events v h (\<lambda>e. e\<lparr>me_flag := ERASED\<rparr>))" "erased_mono v (on_events v h (\<lambda>e. e\<lparr>me_flag := ERASED\<rparr>))"
    "ledger (on_events v h (\<lambda>e. e\<lparr>me_flag := ERASED\<rparr>)) = (ledger v)\<lparr>l_ceasing := (l_ceasing (ledger v))(h := {}), l_maturing := (l_maturing (ledger v))(h := {})\<rparr>"
proof -
  obtain v' e where m: "ModifySidechainEvents v h = (v', e)" by fastforce
  note M = ModifySidechainEvents_spec [OF g order_refl m]
  let ?e = "e\<lparr>me_flag := ERASED\<rparr>"
  have o: "on_events v h (\<lambda>e. e\<lparr>me_flag := ERASED\<rparr>) = put_events v' h ?e" by (simp add: on_events_def m)
  have live: "me_live ?e = None" by (simp add: me_live_def)
  have "wf_view T (vw (put_events v' h ?e))" by (rule M(3)) simp
  moreover have "\<forall>j x. ((evOf (vw v))(h := None)) j = Some x \<longrightarrow> \<not> events_IsNull x \<and> sidechainEventsVersion x = 0"
    using g by (simp add: good_def)
  moreover have "\<forall>j x. h + 1 \<le> j \<longrightarrow> ((ev_entry v)(h \<mapsto> ?e)) j = Some x \<longrightarrow> me_flag x = ERASED \<longrightarrow> me_content x = events_null"
  proof (intro allI impI)
    fix j x
    assume "h + 1 \<le> j" "((ev_entry v)(h \<mapsto> ?e)) j = Some x" "me_flag x = ERASED"
    then show "me_content x = events_null" using goodD(4) [OF g, of j x] by simp
  qed
  ultimately show "good T (h + 1) (on_events v h (\<lambda>e. e\<lparr>me_flag := ERASED\<rparr>))" unfolding o good_def M(4) M(7) live by blast
  have "sc_entry (put_events v' h ?e) = sc_entry v" using M(2) by (simp add: put_events_obs)
  moreover have "csw_entry (on_events v h (\<lambda>e. e\<lparr>me_flag := ERASED\<rparr>)) = csw_entry v" by simp
  ultimately show "erased_mono v (on_events v h (\<lambda>e. e\<lparr>me_flag := ERASED\<rparr>))" unfolding erased_mono_def o by (metis o)
  show "ledger (on_events v h (\<lambda>e. e\<lparr>me_flag := ERASED\<rparr>)) = (ledger v)\<lparr>l_ceasing := (l_ceasing (ledger v))(h := {}), l_maturing := (l_maturing (ledger v))(h := {})\<rparr>"
    unfolding o M(6) live by (simp add: ev_sets_def events_null_def)
qed

lemma spec_events_none:
  assumes "l_ceasing L h = {}" "l_maturing L h = {}" shows "spec_events h L = L"
proof -
  have "mature_all h {} (l_sc L) = l_sc L" "cease_on {} (l_coins L) = l_coins L" by (auto simp: mature_all_def cease_on_def fun_eq_iff)
  moreover have "(l_ceasing L)(h := {}) = l_ceasing L" "(l_maturing L)(h := {}) = l_maturing L" using assms by (simp_all add: fun_upd_idem)
  ultimately show ?thesis unfolding spec_events_def assms by simp
qed

lemma HandleSidechainEvents_ok:
  assumes g: "good T h v" and i: "events_inv h (ledger v)"
  obtains v' m' where "HandleSidechainEvents h v m = Inr (v', m')" "good T (h + 1) v'" "erased_mono v v'" "ledger v' = spec_events h (ledger v)" "ev_undo h (ledger v) m m'"
proof -
  let ?L = "ledger v"
  obtain v1 r where v1: "HaveSidechainEvents v h = (v1, r)" by fastforce
  note R = HaveSidechainEvents_reads [OF v1]
  note k1 = reads_keeps [OF R(2), of T] and l1 = reads_ledger [OF R(2)]
  show thesis
  proof (cases r)
    case False
    then have e: "l_ceasing ?L h = {}" "l_maturing ?L h = {}" using R(1) evOf_sets [OF g, of h] by simp_all
    have "ledger v1 = spec_events h ?L" unfolding spec_events_none [OF e] by (rule l1)
    moreover have "ev_undo h ?L m m" unfolding ev_undo_def e by (intro exI [of _ m] conjI undo_upd_refl)
    moreover have "erased_mono v v1" "good T (h + 1) v1" using k1 good_mono [OF keeps_good [OF k1 g]] by (simp_all add: keeps_def)
    ultimately show thesis using that [of v1 m] v1 False by (simp add: HandleSidechainEvents_def)
  next
    case True
    obtain v2 q where v2: "CacheGetSidechainEvents v1 h = (v2, q)" by fastforce
    note R2 = CacheGetSidechainEvents_reads [OF v2]
    note k2 = keeps_trans [OF k1 reads_keeps [OF R2(2)]]
    have l2: "ledger v2 = ?L" using reads_ledger [OF R2(2)] l1 by simp
    have q: "ceasingScs (ev_sets q) = l_ceasing ?L h" "maturingScs (ev_sets q) = l_maturing ?L h"
      using R2(1) l1 by (metis ledger_sel(3), metis ledger_sel(4))
    let ?M = "l_maturing ?L h" and ?K = "l_ceasing ?L h"
    have f: "finite ?M" "finite ?K" "coins_inv (l_coins ?L)" "\<forall>k \<in> ?M. \<exists>sc. l_sc ?L k = Some sc \<and> mImmatureAmounts sc h \<noteq> None"
      "\<forall>k \<in> ?K. cease_ok (l_sc ?L) (l_coins ?L) k" "distinct_certs (l_sc ?L) ?K" using i unfolding events_inv_def by blast+
    obtain v3 m3 where v3: "foldR (mature_step h) (v2, m) (set_order ?M) = Inr (v3, m3)" "\<And>T. keeps T v2 v3"
      "undo_upd (mark_matured h (l_sc ?L)) ?M m m3" "ledger v3 = ?L\<lparr>l_sc := mature_all h ?M (l_sc ?L)\<rparr>"
      using mature_loop_ok [of "set_order ?M" v2 h m] f(1,4) unfolding l2 by (auto simp del: ledger_sel)
    note k3 = keeps_trans [OF k2 v3(2)]
    have S3: "l_sc (ledger v3) = mature_all h ?M (l_sc ?L)" "l_coins (ledger v3) = l_coins ?L" unfolding v3(4) by simp_all
    obtain v4 m4 where v4: "foldR cease_step (v3, m3) (set_order ?K) = Inr (v4, m4)" "keeps T v3 v4" "undo_upd (mark_ceased (l_sc ?L) (l_coins ?L)) ?K m3 m4"
      "ledger v4 = (ledger v3)\<lparr>l_coins := cease_on (last_cert (l_sc ?L) ` ?K) (l_coins ?L)\<rparr>"
      using cease_loop_ok [OF keeps_good [OF k3 g], of "set_order ?K" m3] f unfolding S3 by (auto simp del: ledger_sel)
    note k4 = keeps_trans [OF k3 v4(2)]
    note E = erase_events [OF keeps_good [OF k4 g]]
    let ?v5 = "on_events v4 h (\<lambda>e. e\<lparr>me_flag := ERASED\<rparr>)"
    have l4: "ledger v4 = ?L\<lparr>l_sc := mature_all h ?M (l_sc ?L), l_coins := cease_on (last_cert (l_sc ?L) ` ?K) (l_coins ?L)\<rparr>"
      unfolding v4(4) v3(4) by simp
    show thesis
    proof (rule that)
      show "HandleSidechainEvents h v m = Inr (?v5, m4)" using v1 True v2 q v3(1) v4(1) by (simp add: HandleSidechainEvents_def Let_def del: ledger_sel)
      show "good T (h + 1) ?v5" by (rule E(1))
      show "erased_mono v ?v5" by (rule erased_mono_trans [OF _ E(2)]) (use k4 in \<open>simp add: keeps_def\<close>)
      show "ledger ?v5 = spec_events h ?L" unfolding E(3) l4 spec_events_def by simp
      show "ev_undo h ?L m m4" unfolding ev_undo_def using v3(3) v4(3) by blast
    qed
  qed
qed

subsection \<open>Undoing them\<close>

lemma has_section_bwts [simp]: "has_section (ud\<lparr>ceasedBwts := x\<rparr>) s = has_section ud s" "has_section (ud\<lparr>appliedMaturedAmount := a\<rparr>) s = has_section ud s"
  "has_section (ud\<lparr>lowQualityBwts := x\<rparr>) s = has_section ud s"
  by (simp_all add: has_section_def)

lemma has_section_new [simp]: "\<not> has_section CSidechainUndoData_new s"
  by (simp add: has_section_def CSidechainUndoData_new_def)

text \<open>Undo data to which no event has been added.\<close>

definition no_events :: "ScUndoMap \<Rightarrow> bool" where
  "no_events m \<longleftrightarrow> distinct_keys m \<and> (\<forall>k. \<not> has_section (undo_at m k) MATURED_AMOUNTS \<and> \<not> has_section (undo_at m k) CEASED_CERT_DATA \<and> ceasedBwts (undo_at m k) = [])"

lemma undo_upd_at: "undo_upd f S m m' \<Longrightarrow> undo_at m' k = (if k \<in> S then f k (undo_at m k) else undo_at m k)"
  by (simp add: undo_upd_def undo_at_def)

lemma ev_undo_at:
  assumes "ev_undo h L m m'" "no_events m"
  shows "distinct_keys m'" "has_section (undo_at m' k) MATURED_AMOUNTS \<longleftrightarrow> k \<in> l_maturing L h" "has_section (undo_at m' k) CEASED_CERT_DATA \<longleftrightarrow> k \<in> l_ceasing L h"
    "k \<in> l_maturing L h \<Longrightarrow> appliedMaturedAmount (undo_at m' k) = the (mImmatureAmounts (the (l_sc L k)) h)"
    "k \<in> l_ceasing L h \<Longrightarrow> last_cert (l_sc L) k \<noteq> 0 \<Longrightarrow> ceasedBwts (undo_at m' k) = nul_outs (l_coins L (last_cert (l_sc L) k))"
proof -
  obtain m1 where m1: "undo_upd (mark_matured h (l_sc L)) (l_maturing L h) m m1" "undo_upd (mark_ceased (l_sc L) (l_coins L)) (l_ceasing L h) m1 m'"
    using assms(1) by (auto simp: ev_undo_def)
  show "distinct_keys m'" using m1 assms(2) by (simp add: undo_upd_def no_events_def)
  have n: "\<not> has_section (undo_at m k) MATURED_AMOUNTS" "\<not> has_section (undo_at m k) CEASED_CERT_DATA" "ceasedBwts (undo_at m k) = []"
    using assms(2) by (simp_all add: no_events_def)
  note A = undo_upd_at [OF m1(2), of k] undo_upd_at [OF m1(1), of k]
  show "has_section (undo_at m' k) MATURED_AMOUNTS \<longleftrightarrow> k \<in> l_maturing L h" "has_section (undo_at m' k) CEASED_CERT_DATA \<longleftrightarrow> k \<in> l_ceasing L h"
    using n by (simp_all add: A mark_matured_def mark_ceased_def) (simp_all add: section_defs)
  show "k \<in> l_maturing L h \<Longrightarrow> appliedMaturedAmount (undo_at m' k) = the (mImmatureAmounts (the (l_sc L k)) h)"
    "k \<in> l_ceasing L h \<Longrightarrow> last_cert (l_sc L) k \<noteq> 0 \<Longrightarrow> ceasedBwts (undo_at m' k) = nul_outs (l_coins L (last_cert (l_sc L) k))"
    using n(3) by (simp_all add: A mark_matured_def mark_ceased_def)
qed

lemma marked_undo: "distinct_keys m \<Longrightarrow> (k, ud) \<in> set m \<Longrightarrow> undo_at m k = ud"
  by (simp add: undo_at_def distinct_keys_def)

lemma marked_iff: "distinct_keys m \<Longrightarrow> marked s (map_order m) = {k. has_section (undo_at m k) s}"
  unfolding marked_def map_order_set using marked_undo [of m]
  by (auto simp: undo_at_def dest: map_of_SomeD split: option.splits) (metis has_section_new map_of_SomeD option.case_eq_if option.collapse)+

lemma ModifyCoins_ev: "ModifyCoins v k f = Inr (v', x) \<Longrightarrow> ev_entry v' = ev_entry v"
  by (cases v) (auto simp: ModifyCoins_def ev_entry_def bindR_eq_Inr Let_def fun_eq_iff split: prod.splits option.splits if_splits)

lemma ModifySidechain_ev: "ModifySidechain v k = (v', e) \<Longrightarrow> ev_entry v' = ev_entry v"
  by (cases v) (auto simp: ModifySidechain_def ev_entry_def Let_def fun_eq_iff split: prod.splits)

lemma AccessSidechain_ev: "AccessSidechain v k = (v', r) \<Longrightarrow> ev_entry v' = ev_entry v"
  by (cases v) (auto simp: AccessSidechain_def FetchSidechains_def fetch_sidechains_def ev_entry_def fun_eq_iff split: prod.splits)

lemma unmature_step_ev:
  assumes "unmature_step h (v, ev) x = Inr (v', ev')" shows "ev_entry v' = ev_entry v"
proof -
  obtain k ud where x: "x = (k, ud)" by fastforce
  obtain v1 r where v1: "HaveSidechain v k = (v1, r)" by fastforce
  obtain v2 e where v2: "ModifySidechain v1 k = (v2, e)" by fastforce
  have e: "ev_entry v2 = ev_entry v" using HaveSidechain_spec(3) [OF v1] ModifySidechain_ev [OF v2] by simp
  have "v' = v \<or> v' = v2 \<or> (\<exists>e'. v' = put_sidechain v2 k e')"
    using assms v1 v2 x by (auto simp: unmature_step_def Let_def split: if_splits)
  then show ?thesis using e by (auto simp: put_sidechain_obs)
qed

lemma uncease_step_ev: "uncease_step (v, ev) x = Inr (v', ev') \<Longrightarrow> ev_entry v' = ev_entry v"
  unfolding uncease_step_def RestoreBackwardTransfers_def
  by (auto simp: bindR_eq_Inr split: prod.splits if_splits option.splits dest!: ModifyCoins_ev AccessSidechain_ev)

lemma recreate_events:
  assumes g: "inv_revert T v" and e: "ev_entry v h = None" "evOf (vw v) h = None" and x: "\<not> events_IsNull x" "sidechainEventsVersion x = 0"
  shows "inv_revert T (on_events v h (\<lambda>e. \<lparr>me_content = x, me_flag = FRESH\<rparr>))"
    "ledger (on_events v h (\<lambda>e. \<lparr>me_content = x, me_flag = FRESH\<rparr>)) = (ledger v)\<lparr>l_ceasing := (l_ceasing (ledger v))(h := ceasingScs x), l_maturing := (l_maturing (ledger v))(h := maturingScs x)\<rparr>"
proof -
  obtain v' en where m: "ModifySidechainEvents v h = (v', en)" by fastforce
  have gn: "good T n v" for n using g by (simp add: inv_revert_def)
  note M = ModifySidechainEvents_spec [OF gn order_refl m]
  let ?e = "\<lparr>me_content = x, me_flag = FRESH\<rparr>"
  have o: "on_events v h (\<lambda>e. ?e) = put_events v' h ?e" by (simp add: on_events_def m)
  obtain c b where v: "v = (c, b)" by (cases v)
  have "map_of (cacheSidechainEvents c) h = None" "evOf b h = None" using e v by (simp_all add: ev_entry_def)
  moreover have "snd (GetSidechainEvents b h) = evOf b h" by (rule ev_lookup.get_obs)
  ultimately have "me_flag en = FRESH" using m by (auto simp: ModifySidechainEvents_def v modify_mutable_def Let_def)
  then have "wf_view T (vw (put_events v' h ?e))" by (intro M(3)) simp
  moreover have "\<not> events_IsNull y \<and> sidechainEventsVersion y = 0" if "((evOf (vw v))(h := me_live ?e)) j = Some y" for j y
    using that goodD(2,3) [OF gn, of j y] x by (auto simp: me_live_def split: if_splits)
  moreover have "me_content y = events_null" if "n \<le> j" "((ev_entry v)(h \<mapsto> ?e)) j = Some y" "me_flag y = ERASED" for n j y
    using that goodD(4) [OF gn that(1), of y] by (auto split: if_splits)
  ultimately show "inv_revert T (on_events v h (\<lambda>e. ?e))" unfolding o inv_revert_def good_def M(4) M(7) by blast
  show "ledger (on_events v h (\<lambda>e. ?e)) = (ledger v)\<lparr>l_ceasing := (l_ceasing (ledger v))(h := ceasingScs x), l_maturing := (l_maturing (ledger v))(h := maturingScs x)\<rparr>"
    unfolding o M(6) by (simp add: me_live_def ev_sets_def)
qed

text \<open>What makes maturing reversible: every maturing amount is positive and no balance is negative.\<close>

definition positive_maturing :: "int \<Rightarrow> Ledger \<Rightarrow> bool" where
  "positive_maturing h L \<longleftrightarrow> (\<forall>k \<in> l_maturing L h. \<forall>sc. l_sc L k = Some sc \<longrightarrow> 0 \<le> balance sc \<and> (\<forall>a. mImmatureAmounts sc h = Some a \<longrightarrow> 0 < a))"

lemma unmature_mature:
  assumes m: "distinct_keys m" "\<And>k. has_section (undo_at m k) MATURED_AMOUNTS \<longleftrightarrow> k \<in> M" "\<And>k. k \<in> M \<Longrightarrow> appliedMaturedAmount (undo_at m k) = the (mImmatureAmounts (the (S k)) h)"
    and S: "\<And>k. k \<in> M \<Longrightarrow> \<exists>sc a. S k = Some sc \<and> mImmatureAmounts sc h = Some a \<and> 0 < a"
  shows "unmature_all h (map_order m) (mature_all h M S) = S"
proof
  fix k
  have e: "marked MATURED_AMOUNTS (map_order m) = M" using marked_iff [OF m(1)] m(2) by blast
  show "unmature_all h (map_order m) (mature_all h M S) k = S k"
  proof (cases "k \<in> M")
    case True
    then obtain ud where ud: "(k, ud) \<in> set (map_order m)" using e by (auto simp: marked_def)
    then have "map_of (map_order m) k = Some ud" "undo_at m k = ud"
      using map_order_distinct [OF m(1)] marked_undo [OF m(1)] by (simp_all add: distinct_keys_def)
    moreover obtain sc a where "S k = Some sc" "mImmatureAmounts sc h = Some a" "0 < a" using S [OF True] by blast
    ultimately show ?thesis using True m(3) [OF True] e by (simp add: unmature_all_def mature_all_def unmatured_matured)
  qed (simp add: unmature_all_def mature_all_def e)
qed

lemma HaveSidechainEvents_absent:
  assumes g: "good T n w" and e: "l_ceasing (ledger w) h = {}" "l_maturing (ledger w) h = {}" "ev_entry w h = None"
  obtains w1 where "HaveSidechainEvents w h = (w1, False)" "reads w w1" "ev_entry w1 h = None"
proof -
  obtain w1 r where w1: "HaveSidechainEvents w h = (w1, r)" by fastforce
  note R = HaveSidechainEvents_reads [OF w1]
  have ev0: "evOf (vw w) h = None" using e(1,2) evOf_sets [OF g, of h] by blast
  then have r: "\<not> r" using R(1) by simp
  then have "FetchSidechainEvents w h = (w1, None)"
    using w1 e(3) ev0 ev_lookup.get_obs [of "snd w" h]
    by (cases w) (auto simp: HaveSidechainEvents_def FetchSidechainEvents_def fetch_events_def fetch_mutable_def ev_entry_def Let_def split: option.splits if_splits)
  then have "ev_entry w1 h = None" using e(3)
    by (cases w) (auto simp: FetchSidechainEvents_def fetch_events_def fetch_mutable_def ev_entry_def Let_def split: option.splits)
  then show thesis using that w1 r R(2) by simp
qed

text \<open>No balance that an amount has matured into was negative.\<close>

definition nonneg_maturing :: "int \<Rightarrow> Ledger \<Rightarrow> bool" where
  "nonneg_maturing h L \<longleftrightarrow> (\<forall>k \<in> l_maturing L h. \<forall>sc. l_sc L k = Some sc \<longrightarrow> 0 \<le> balance sc)"

lemma revert_maturing:
  assumes i: "events_inv h L" "nonneg_maturing h L" and m: "ev_undo h L m0 m" "no_events m0" and w: "l_sc (ledger w) = mature_all h (l_maturing L h) (l_sc L)"
  obtains w' where "foldR (unmature_step h) (w, events_null) (map_order m) = Inr (w', events_null\<lparr>maturingScs := l_maturing L h\<rparr>)" "\<And>T. keeps T w w'"
    "ledger w' = (ledger w)\<lparr>l_sc := unmature_all h (map_order m) (l_sc (ledger w))\<rparr>" "ev_entry w' = ev_entry w"
proof -
  let ?M = "l_maturing L h" and ?es = "map_order m"
  note U = ev_undo_at [OF m]
  have mk: "maturingScs events_null \<union> marked MATURED_AMOUNTS ?es = ?M" using marked_iff [OF U(1)] U(2) by (simp add: events_null_def)
  have "\<forall>(k, ud) \<in> set ?es. has_section ud MATURED_AMOUNTS \<longrightarrow>
      (\<exists>sc. l_sc (ledger w) k = Some sc \<and> (0 < appliedMaturedAmount ud \<longrightarrow> appliedMaturedAmount ud \<le> balance sc))"
  proof (intro ballI impI, clarify)
    fix k ud
    assume ud: "(k, ud) \<in> set ?es" "has_section ud MATURED_AMOUNTS"
    then have "undo_at m k = ud" using marked_undo [OF U(1)] by simp
    then have k: "k \<in> ?M" "appliedMaturedAmount ud = the (mImmatureAmounts (the (l_sc L k)) h)" using U(2,4) ud(2) by auto
    obtain sc a where "l_sc L k = Some sc" "mImmatureAmounts sc h = Some a" "0 \<le> balance sc"
      using i k(1) unfolding events_inv_def nonneg_maturing_def by fastforce
    then show "\<exists>sc. l_sc (ledger w) k = Some sc \<and> (0 < appliedMaturedAmount ud \<longrightarrow> appliedMaturedAmount ud \<le> balance sc)"
      unfolding w using k by (simp add: mature_all_def matured_def)
  qed
  from unmature_loop_ok [OF map_order_distinct [OF U(1)] this, of h events_null] obtain w' where
    w': "foldR (unmature_step h) (w, events_null) ?es = Inr (w', events_null\<lparr>maturingScs := ?M\<rparr>)" "\<And>T. keeps T w w'"
    "ledger w' = (ledger w)\<lparr>l_sc := unmature_all h ?es (l_sc (ledger w))\<rparr>" unfolding mk by blast
  moreover have "ev_entry w' = ev_entry w"
    using foldR_invariant [OF w'(1), of "\<lambda>(v, _). ev_entry v = ev_entry w"] unmature_step_ev by fastforce
  ultimately show thesis by (rule that)
qed

lemma unmatured_cert [simp]: "lastTopQualityCertHash (unmatured h a sc) = lastTopQualityCertHash sc" "lastTopQualityCertReferencedEpoch (unmatured h a sc) = lastTopQualityCertReferencedEpoch sc"
  by (simp_all add: unmatured_def)

lemma last_cert_unmature [simp]: "last_cert (unmature_all h es S) = last_cert S"
  by (auto simp: last_cert_def unmature_all_def fun_eq_iff split: option.splits)

lemma cease_ok_unmature [simp]: "cease_ok (unmature_all h es S) C k = cease_ok S C k"
  by (cases "S k") (simp_all add: cease_ok_def unmature_all_def)

lemma distinct_certs_unmature [simp]: "distinct_certs (unmature_all h es S) K = distinct_certs S K"
  by (simp add: distinct_certs_def)

lemma revert_ceasing:
  assumes i: "events_inv h L" and m: "ev_undo h L m0 m" "no_events m0" and g: "good T n w" and c: "ceasingScs ev = {}"
    and w: "l_sc (ledger w) = unmature_all h es (mature_all h M (l_sc L))" "l_coins (ledger w) = cease_on (last_cert (l_sc L) ` l_ceasing L h) (l_coins L)"
  obtains w' where "foldR uncease_step (w, ev) (map_order m) = Inr (w', ev\<lparr>ceasingScs := l_ceasing L h\<rparr>)" "keeps T w w'"
    "ledger w' = (ledger w)\<lparr>l_coins := l_coins L\<rparr>" "ev_entry w' = ev_entry w"
proof -
  let ?K = "l_ceasing L h" and ?es = "map_order m"
  note U = ev_undo_at [OF m]
  have f: "coins_inv (l_coins L)" "\<forall>k \<in> ?K. cease_ok (l_sc L) (l_coins L) k" "distinct_certs (l_sc L) ?K" using i unfolding events_inv_def by blast+
  have mk: "marked CEASED_CERT_DATA ?es = ?K" using marked_iff [OF U(1)] U(3) by simp
  have ci: "coins_inv (l_coins (ledger w))" unfolding w by (rule cease_all_inv [OF f(1,2)])
  have ce: "\<forall>(k, ud) \<in> set ?es. has_section ud CEASED_CERT_DATA \<longrightarrow> cease_ok (l_sc (ledger w)) (l_coins L) k
       \<and> (last_cert (l_sc (ledger w)) k \<noteq> 0 \<longrightarrow> ceasedBwts ud = nul_outs (l_coins L (last_cert (l_sc (ledger w)) k)))"
  proof (intro ballI, clarify)
    fix k ud
    assume "(k, ud) \<in> set ?es" "has_section ud CEASED_CERT_DATA"
    then have "undo_at m k = ud" "k \<in> ?K" using marked_undo [OF U(1), of k ud] U(3) [of k] by auto
    then show "cease_ok (l_sc (ledger w)) (l_coins L) k \<and> (last_cert (l_sc (ledger w)) k \<noteq> 0 \<longrightarrow> ceasedBwts ud = nul_outs (l_coins L (last_cert (l_sc (ledger w)) k)))"
      unfolding w using f(2) U(5) [of k] by simp
  qed
  have "distinct_certs (l_sc (ledger w)) (marked CEASED_CERT_DATA ?es)" "l_coins (ledger w) = cease_on (last_cert (l_sc (ledger w)) ` marked CEASED_CERT_DATA ?es) (l_coins L)"
    unfolding mk w using f(3) by simp_all
  from uncease_loop_ok [OF g ci f(1) map_order_distinct [OF U(1)] this(1) ce this(2), of ev] obtain w' where
    w': "foldR uncease_step (w, ev) ?es = Inr (w', ev\<lparr>ceasingScs := ?K\<rparr>)" "keeps T w w'" "ledger w' = (ledger w)\<lparr>l_coins := l_coins L\<rparr>"
    unfolding mk c by auto
  moreover have "ev_entry w' = ev_entry w"
    using foldR_invariant [OF w'(1), of "\<lambda>(v, _). ev_entry v = ev_entry w"] uncease_step_ev by fastforce
  ultimately show thesis by (rule that)
qed

text \<open>What reverting the events of a height restores: everything but the entries of the amounts that are not positive.\<close>

lemma RevertSidechainEvents_spec:
  assumes i: "events_inv h L" "nonneg_maturing h L" and m: "ev_undo h L m0 m" "no_events m0"
    and w: "inv_revert T w" "ledger w = spec_events h L" "ev_entry w h = None"
  obtains w' where "RevertSidechainEvents m h w = Inr w'" "inv_revert T w'" "ledger w' = L\<lparr>l_sc := unmature_all h (map_order m) (mature_all h (l_maturing L h) (l_sc L))\<rparr>"
proof -
  let ?M = "l_maturing L h" and ?K = "l_ceasing L h" and ?S = "unmature_all h (map_order m) (mature_all h (l_maturing L h) (l_sc L))"
  have g: "good T n w" for n using w(1) by (simp add: inv_revert_def)
  have "l_ceasing (ledger w) h = {}" "l_maturing (ledger w) h = {}" unfolding w(2) by (simp_all add: spec_events_def)
  then obtain w1 where w1: "HaveSidechainEvents w h = (w1, False)" "reads w w1" "ev_entry w1 h = None"
    by (rule HaveSidechainEvents_absent [OF g [of h] _ _ w(3)])
  have l1: "ledger w1 = spec_events h L" using reads_ledger [OF w1(2)] w(2) by simp
  have S1: "l_sc (ledger w1) = mature_all h ?M (l_sc L)" "l_coins (ledger w1) = cease_on (last_cert (l_sc L) ` ?K) (l_coins L)" unfolding l1 by (simp_all add: spec_events_def)
  obtain w2 where w2: "foldR (unmature_step h) (w1, events_null) (map_order m) = Inr (w2, events_null\<lparr>maturingScs := ?M\<rparr>)" "\<And>T. keeps T w1 w2"
    "ledger w2 = (ledger w1)\<lparr>l_sc := ?S\<rparr>" "ev_entry w2 = ev_entry w1" by (rule revert_maturing [OF i m S1(1), unfolded S1(1)]) (rule that)
  note k2 = keeps_trans [OF reads_keeps [OF w1(2), of T] w2(2)]
  have S2: "l_sc (ledger w2) = ?S" "l_coins (ledger w2) = cease_on (last_cert (l_sc L) ` ?K) (l_coins L)" unfolding w2(3) using S1(2) by (simp_all del: ledger_sel)
  obtain w3 where w3: "foldR uncease_step (w2, events_null\<lparr>maturingScs := ?M\<rparr>) (map_order m) = Inr (w3, events_null\<lparr>maturingScs := ?M, ceasingScs := ?K\<rparr>)"
    "keeps T w2 w3" "ledger w3 = (ledger w2)\<lparr>l_coins := l_coins L\<rparr>" "ev_entry w3 = ev_entry w2"
    by (rule revert_ceasing [OF i(1) m keeps_good [OF k2 g [of h]] _ S2, of "events_null\<lparr>maturingScs := ?M\<rparr>"]) (simp add: events_null_def, rule that)
  have i3: "inv_revert T w3" using keeps_inv(2) [OF keeps_trans [OF k2 w3(2)] w(1)] .
  have l3: "ledger w3 = L\<lparr>l_sc := ?S, l_ceasing := (l_ceasing L)(h := {}), l_maturing := (l_maturing L)(h := {})\<rparr>"
    unfolding w3(3) w2(3) unfolding l1 by (simp add: spec_events_def)
  have ev3: "ev_entry w3 h = None" "evOf (vw w3) h = None"
    using w1(3) w2(4) w3(4) evOf_sets [of T 0 w3 h] i3 l3 by (simp_all add: inv_revert_def del: ledger_sel)
  let ?x = "events_null\<lparr>maturingScs := ?M, ceasingScs := ?K\<rparr>"
  have run: "RevertSidechainEvents m h w = (if \<not> events_IsNull ?x then Inr (on_events w3 h (\<lambda>e. \<lparr>me_content = ?x, me_flag = FRESH\<rparr>)) else Inr w3)"
    using w1 w2(1) w3(1) by (simp add: RevertSidechainEvents_def)
  show thesis
  proof (cases "events_IsNull ?x")
    case True
    then have "(l_ceasing L)(h := {}) = l_ceasing L" "(l_maturing L)(h := {}) = l_maturing L" by (simp_all add: events_IsNull_def fun_upd_idem)
    then show thesis using that run True i3 l3 by simp
  next
    case False
    have z: "sidechainEventsVersion ?x = 0" by (simp add: events_null_def)
    note E = recreate_events [OF i3 ev3 False z]
    then show thesis using that [of "on_events w3 h (\<lambda>e. \<lparr>me_content = ?x, me_flag = FRESH\<rparr>)"] run False unfolding E(2) l3 by simp
  qed
qed

lemma RevertSidechainEvents_ok:
  assumes i: "events_inv h L" "positive_maturing h L" and m: "ev_undo h L m0 m" "no_events m0"
    and w: "inv_revert T w" "ledger w = spec_events h L" "ev_entry w h = None"
  obtains w' where "RevertSidechainEvents m h w = Inr w'" "inv_revert T w'" "ledger w' = L"
proof -
  note U = ev_undo_at [OF m]
  have "nonneg_maturing h L" using i(2) by (auto simp: positive_maturing_def nonneg_maturing_def)
  then obtain w' where w': "RevertSidechainEvents m h w = Inr w'" "inv_revert T w'"
    "ledger w' = L\<lparr>l_sc := unmature_all h (map_order m) (mature_all h (l_maturing L h) (l_sc L))\<rparr>" by (rule RevertSidechainEvents_spec [OF i(1) _ m w])
  moreover have "unmature_all h (map_order m) (mature_all h (l_maturing L h) (l_sc L)) = l_sc L"
  proof (rule unmature_mature [OF U(1,2,4)])
    fix k
    assume k: "k \<in> l_maturing L h"
    then obtain sc a where "l_sc L k = Some sc" "mImmatureAmounts sc h = Some a" using i(1) unfolding events_inv_def by blast
    then show "\<exists>sc a. l_sc L k = Some sc \<and> mImmatureAmounts sc h = Some a \<and> 0 < a" using i(2) k unfolding positive_maturing_def by blast
  qed
  ultimately show thesis using that by simp
qed

section \<open>Amounts of zero\<close>

lemma HandleSidechainEvents_err:
  assumes g: "good T h v" and f: "finite (l_maturing (ledger v) h)" and k: "k \<in> l_maturing (ledger v) h" "l_sc (ledger v) k = Some sc" "mImmatureAmounts sc h = None"
  shows "HandleSidechainEvents h v m = Inl Assert"
proof -
  obtain v1 r where v1: "HaveSidechainEvents v h = (v1, r)" by fastforce
  note R = HaveSidechainEvents_reads [OF v1]
  obtain v2 q where v2: "CacheGetSidechainEvents v1 h = (v2, q)" by fastforce
  note R2 = CacheGetSidechainEvents_reads [OF v2]
  have r using R(1) evOf_sets [OF g, of h] k(1) by auto
  have l1: "ledger v1 = ledger v" and l2: "ledger v2 = ledger v" using reads_ledger [OF R(2)] reads_ledger [OF R2(2)] by simp_all
  have q: "maturingScs (ev_sets q) = l_maturing (ledger v) h" using R2(1) l1 by (metis ledger_sel(4))
  have "\<not> (\<forall>k \<in> set (set_order (l_maturing (ledger v) h)). \<exists>sc. l_sc (ledger v2) k = Some sc \<and> mImmatureAmounts sc h \<noteq> None)"
    unfolding l2 set_order(1) [OF f] using k by fastforce
  then have "foldR (mature_step h) (v2, m) (set_order (l_maturing (ledger v) h)) = Inl Assert" using f by (intro mature_loop_err) simp_all
  then show ?thesis using v1 v2 q \<open>r\<close> by (simp add: HandleSidechainEvents_def Let_def del: ledger_sel)
qed

text \<open>C9: an amount of zero that matures at a height (a backward transfer request of fee zero makes one) is not restored when the events of the height are reverted, while its
  maturing is scheduled again: the revert succeeds, and handling the events of the height once more, as the next block of that height does, fails an assertion.\<close>

theorem zero_amount_aborts_after_revert:
  assumes "good T h v" and "events_inv h (ledger v)" and "nonneg_maturing h (ledger v)" and "no_events m0" and "HandleSidechainEvents h v m0 = Inr (v1, m1)"
    and "scId \<in> l_maturing (ledger v) h" and "l_sc (ledger v) scId = Some sc" and "mImmatureAmounts sc h = Some 0"
    and "inv_revert T w" and "ledger w = ledger v1" and "ev_entry w h = None"
  shows "\<exists>w'. RevertSidechainEvents m1 h w = Inr w' \<and> HandleSidechainEvents h w' m = Inl Assert"
proof -
  let ?L = "ledger v"
  obtain v' m' where "HandleSidechainEvents h v m0 = Inr (v', m')" "ledger v' = spec_events h ?L" "ev_undo h ?L m0 m'"
    by (rule HandleSidechainEvents_ok [OF assms(1,2)])
  then have e: "ledger w = spec_events h ?L" "ev_undo h ?L m0 m1" using assms(5,10) by simp_all
  obtain w' where w': "RevertSidechainEvents m1 h w = Inr w'" "inv_revert T w'"
    "ledger w' = ?L\<lparr>l_sc := unmature_all h (map_order m1) (mature_all h (l_maturing ?L h) (l_sc ?L))\<rparr>"
    by (rule RevertSidechainEvents_spec [OF assms(2,3) e(2) assms(4,9) e(1) assms(11)])
  note U = ev_undo_at [OF e(2) assms(4)]
  have s: "has_section (undo_at m1 scId) MATURED_AMOUNTS" "appliedMaturedAmount (undo_at m1 scId) = 0" using U(2,4) assms(6-8) by (simp_all del: ledger_sel)
  have mk: "scId \<in> marked MATURED_AMOUNTS (map_order m1)" using marked_iff [OF U(1)] s(1) by blast
  then obtain ud where "(scId, ud) \<in> set (map_order m1)" by (auto simp: marked_def)
  then have "map_of (map_order m1) scId = Some (undo_at m1 scId)" using map_order_distinct [OF U(1)] marked_undo [OF U(1), of scId ud] by (simp add: distinct_keys_def)
  then have "l_sc (ledger w') scId = Some (matured h sc)" unfolding w'(3) using assms(6,7) s(2) mk by (simp add: unmature_all_def mature_all_def unmatured_def del: ledger_sel)
  moreover have "mImmatureAmounts (matured h sc) h = None" by (simp add: matured_def)
  moreover have "finite (l_maturing (ledger w') h)" "scId \<in> l_maturing (ledger w') h" unfolding w'(3) using assms(2,6) by (simp_all add: events_inv_def del: ledger_sel)
  moreover have "good T h w'" using w'(2) by (simp add: inv_revert_def)
  ultimately show ?thesis using w'(1) HandleSidechainEvents_err [of T h w' scId "matured h sc" m] by blast
qed

text \<open>A database with a sidechain to which an amount of zero matures at height 5, and the database after that height.\<close>

definition sc_zero :: CSidechain where
  "sc_zero = CSidechain_null\<lparr>creationBlockHeight := 1, balance := 10, mImmatureAmounts := [5 \<mapsto> 0]\<rparr>"

definition db_zero :: CCoinsViewDB where
  "db_zero = \<lparr>db_coins = [], db_anchors = [], db_nullifiers = [], db_sidechains = [(7, sc_zero)], db_ceasedscs = [(5, events_null\<lparr>maturingScs := {7}\<rparr>)],
     db_cswnullifiers = [], db_bestBlock = Some 8, db_bestAnchor = None, db_emptyRoot = 99\<rparr>"

definition db_zero_next :: CCoinsViewDB where
  "db_zero_next = db_zero\<lparr>db_sidechains := [(7, matured 5 sc_zero)], db_ceasedscs := []\<rparr>"

theorem zero_amount_aborts_after_revert_witness:
  "\<exists>v1 m1 w'. HandleSidechainEvents 5 (CCoinsViewCache_new (DBView db_zero)) [] = Inr (v1, m1) \<and> RevertSidechainEvents m1 5 (CCoinsViewCache_new (DBView db_zero_next)) = Inr w'
     \<and> HandleSidechainEvents 5 w' [] = Inl Assert"
proof -
  let ?v = "CCoinsViewCache_new (DBView db_zero)" and ?w = "CCoinsViewCache_new (DBView db_zero_next)" and ?T = "\<lambda>_. mt_empty"
  note D = CCoinsViewCache_new_def CacheMaps_empty_def db_zero_def db_zero_next_def
  have "wf_view ?T (vw ?v)" "wf_view ?T (vw ?w)" by (simp_all add: D wf_cache_def)
  then have g: "good ?T 5 ?v" "inv_revert ?T ?w"
    by (simp_all add: good_def inv_revert_def D ev_entry_def events_IsNull_def events_null_def)
  have o: "l_maturing (ledger ?v) 5 = {7}" "l_ceasing (ledger ?v) 5 = {}" "l_sc (ledger ?v) = [7 \<mapsto> sc_zero]" "l_coins (ledger ?v) = Map.empty"
    by (simp_all add: D ev_sets_def events_null_def fun_eq_iff normC_def)
  have i: "events_inv 5 (ledger ?v)" unfolding events_inv_def o by (simp add: coins_inv_def distinct_certs_def sc_zero_def)
  have n: "nonneg_maturing 5 (ledger ?v)" "no_events []" unfolding nonneg_maturing_def o by (simp_all add: sc_zero_def no_events_def undo_at_def distinct_keys_def) (simp add: CSidechainUndoData_new_def)
  obtain v1 m1 where v1: "HandleSidechainEvents 5 ?v [] = Inr (v1, m1)" "ledger v1 = spec_events 5 (ledger ?v)" by (rule HandleSidechainEvents_ok [OF g(1) i])
  have "ledger ?w = ledger v1" unfolding v1(2) spec_events_def o
    by (simp add: ledger_of_def D fun_eq_iff mature_all_def cease_on_def ev_sets_def events_null_def normC_def)
  then show ?thesis using zero_amount_aborts_after_revert [OF g(1) i n v1(1), of 7 sc_zero ?w "[]"] g(2) v1(1)
    unfolding o by (auto simp: sc_zero_def D ev_entry_def)
qed

end
