(* ===== verification/Bytes.thy ===== *)
theory Bytes
  imports Prelude
begin

text \<open>
  Byte strings as numbers, and the little-endian reads and writes of \<open>crypto/common.h\<close> and \<open>serialize.h\<close> on a stream, which is the
  list of the bytes still to be read. A read beyond the end of the stream throws.
\<close>

unbundle bit_operations_syntax

section \<open>Values of byte strings\<close>

lemma byte_lt: "unat (b :: byte) < 2 ^ 8"
  using unsigned_less [of b] by simp

text \<open>The numbers that a byte string stands for, least significant byte first or last.\<close>

fun le_value :: "bytes \<Rightarrow> nat" where
  "le_value [] = 0"
| "le_value (b # bs) = unat b + 256 * le_value bs"

definition be_value :: "bytes \<Rightarrow> nat" where "be_value bs = le_value (rev bs)"

lemma le_value_less: "le_value bs < 256 ^ length bs"
proof (induction bs)
  case (Cons b bs)
  then have "unat b + 256 * le_value bs < 256 + 256 * le_value bs" "256 + 256 * le_value bs \<le> 256 * 256 ^ length bs"
    using byte_lt [of b] by simp_all
  then show ?case by simp
qed simp

lemma le_value_snoc: "le_value (bs @ [b]) = le_value bs + 256 ^ length bs * unat b"
  by (induction bs) simp_all

lemma le_value_last: "le_value (bs @ [b]) < 2 ^ (8 * length bs + r) \<longleftrightarrow> unat b < 2 ^ r"
proof -
  have p: "(2 :: nat) ^ (8 * length bs + r) = 256 ^ length bs * 2 ^ r" by (simp add: power_add power_mult)
  have "le_value bs + 256 ^ length bs * unat b < 256 ^ length bs * 2 ^ r \<longleftrightarrow> unat b < 2 ^ r"
  proof
    assume "unat b < 2 ^ r"
    then have "256 ^ length bs * Suc (unat b) \<le> 256 ^ length bs * 2 ^ r" by (intro mult_le_mono2) simp
    then show "le_value bs + 256 ^ length bs * unat b < 256 ^ length bs * 2 ^ r" using le_value_less [of bs] by simp
  next
    assume a: "le_value bs + 256 ^ length bs * unat b < 256 ^ length bs * 2 ^ r"
    show "unat b < 2 ^ r"
    proof (rule ccontr)
      assume "\<not> unat b < 2 ^ r"
      then have "256 ^ length bs * 2 ^ r \<le> 256 ^ length bs * unat b" by (intro mult_le_mono2) simp
      then show False using a by linarith
    qed
  qed
  then show ?thesis unfolding le_value_snoc p .
qed


lemma le_value_append: "le_value (xs @ ys) = le_value xs + 256 ^ length xs * le_value ys"
  by (induction xs) (simp_all add: algebra_simps)

lemma le_value_inj: "length xs = length ys \<Longrightarrow> le_value xs = le_value ys \<Longrightarrow> xs = ys"
proof (induction xs ys rule: list_induct2)
  case (Cons x xs y ys)
  have "unat x mod 256 = unat x" "unat y mod 256 = unat y" using byte_lt [of x] byte_lt [of y] by simp_all
  then have "unat x = unat y" using arg_cong [OF Cons.prems, of "\<lambda>n. n mod 256"] by simp
  then have "x = y" by (simp add: word_unat_eq_iff)
  then show ?case using Cons by simp
qed simp

section \<open>Little-endian streams\<close>

primrec write_le :: "nat \<Rightarrow> nat \<Rightarrow> bytes" where
  "write_le 0 x = []"
| "write_le (Suc n) x = word_of_nat x # write_le n (x div 256)"

definition take_bytes :: "nat \<Rightarrow> bytes \<Rightarrow> (bytes \<times> bytes) result" where
  "take_bytes n is = (if length is < n then Inl (Throw ''end of data'') else Inr (take n is, drop n is))"

definition read_le :: "nat \<Rightarrow> bytes \<Rightarrow> (nat \<times> bytes) result" where
  "read_le n is = bindR (take_bytes n is) (\<lambda>(bs, is). Inr (le_value bs, is))"

lemma write_le_length [simp]: "length (write_le n x) = n"
  by (induction n arbitrary: x) simp_all

lemma write_le_value: "le_value (write_le n x) = x mod 256 ^ n"
  by (induction n arbitrary: x) (simp_all add: unat_of_nat mod_mult2_eq)

lemma write_le_of_value: "length bs = n \<Longrightarrow> write_le n (le_value bs) = bs"
  using le_value_less [of bs] by (intro le_value_inj) (simp_all add: write_le_value)

lemma take_bytes_append [simp]: "length bs = n \<Longrightarrow> take_bytes n (bs @ is) = Inr (bs, is)"
  by (auto simp: take_bytes_def)

lemma take_bytes_Inr: "take_bytes n is = Inr (bs, is') \<longleftrightarrow> is = bs @ is' \<and> length bs = n"
  by (auto simp: take_bytes_def)

lemma read_write_le [simp]: "x < 256 ^ n \<Longrightarrow> read_le n (write_le n x @ is) = Inr (x, is)"
  by (simp add: read_le_def write_le_value)

lemma read_le_Inr: "read_le n is = Inr (x, is') \<longleftrightarrow> x < 256 ^ n \<and> is = write_le n x @ is'"
proof
  assume "read_le n is = Inr (x, is')"
  then obtain bs where "is = bs @ is'" "length bs = n" "x = le_value bs" by (auto simp: read_le_def bindR_eq_Inr take_bytes_Inr)
  then show "x < 256 ^ n \<and> is = write_le n x @ is'" using le_value_less [of bs] write_le_of_value by auto
qed auto

end
