(* ===== verification/ScTypes.thy ===== *)
theory ScTypes
  imports Sidechain Bytes
begin

text \<open>
  Validity of the objects of \<open>sc/sidechaintypes.cpp\<close> (field elements, proofs, verification keys, custom
  certificate fields and their configurations), with the bit counters of \<open>util.cpp\<close>, and the semantic checks
  of transactions and certificates of \<open>sc/sidechain.cpp\<close>. The cross-chain protocol library, which is linked
  in, is the parameter \<open>CctpLib\<close>. The objects keep the deserialized form and the verdict on a
  field as memory-only members; the model computes them anew.
\<close>

unbundle bit_operations_syntax

section \<open>The cross-chain protocol library\<close>

text \<open>Whether each deserialization reports no error, the type of a key, and the root of a compressed bit vector.\<close>

record CctpLib =
  zendoo_deserialize_field :: "bytes \<Rightarrow> bool"
  zendoo_deserialize_sc_proof :: "bytes \<Rightarrow> bool"
  zendoo_deserialize_sc_vk :: "bytes \<Rightarrow> bool"
  zendoo_get_sc_vk_proving_system_type :: "bytes \<Rightarrow> uint8 option"
  zendoo_merkle_root_from_compressed_bytes :: "bytes \<Rightarrow> int \<Rightarrow> CFieldElement option"

section \<open>Bits and bytes\<close>

definition CHAR_BIT :: int where "CHAR_BIT = 8"

fun bit_count :: "nat \<Rightarrow> byte \<Rightarrow> int" where
  "bit_count 0 b = 0"
| "bit_count (Suc fuel) b = (if b > 0 then bit_count fuel (drop_bit 1 b) + 1 else 0)"

text \<open>Eight rounds are enough, since a byte has eight bits: see \<open>bit_count_fuel\<close> below.\<close>

definition getLeadingZeroBitsInByte :: "byte \<Rightarrow> int" where
  "getLeadingZeroBitsInByte inputByte = CHAR_BIT - bit_count 8 inputByte"

definition getTrailingZeroBitsInByte :: "byte \<Rightarrow> int" where
  "getTrailingZeroBitsInByte inputByte =
     (if inputByte \<noteq> 0 then bit_count 8 (drop_bit 1 (inputByte XOR (inputByte - 1))) else CHAR_BIT)"

text \<open>The number of bytes and the remainder.\<close>

definition getBytesFromBits :: "int \<Rightarrow> int \<times> int" where
  "getBytesFromBits nbits =
     (if nbits < 0 then (0, 0)
      else let reminder = nbits mod CHAR_BIT in (if reminder \<noteq> 0 then nbits div CHAR_BIT + 1 else nbits div CHAR_BIT, reminder))"

section \<open>Objects of the library\<close>

definition SC_FE_SIZE_IN_BYTES :: nat where "SC_FE_SIZE_IN_BYTES = 32"
definition MAX_PROOF_PLUS_VK_SIZE :: nat where "MAX_PROOF_PLUS_VK_SIZE = 9 * 1024"
definition MAX_SC_PROOF_SIZE_IN_BYTES :: nat where "MAX_SC_PROOF_SIZE_IN_BYTES = MAX_PROOF_PLUS_VK_SIZE"
definition MAX_SC_VK_SIZE_IN_BYTES :: nat where "MAX_SC_VK_SIZE_IN_BYTES = MAX_PROOF_PLUS_VK_SIZE"
definition MAX_SC_MBTR_DATA_LEN :: nat where "MAX_SC_MBTR_DATA_LEN = 16"

definition CFieldElement_IsValid :: "CctpLib \<Rightarrow> CFieldElement \<Rightarrow> bool" where
  "CFieldElement_IsValid lib byteVector \<longleftrightarrow>
     byteVector \<noteq> [] \<and> length byteVector = SC_FE_SIZE_IN_BYTES \<and> zendoo_deserialize_field lib byteVector"

definition CScProof_IsValid :: "CctpLib \<Rightarrow> CScProof \<Rightarrow> bool" where
  "CScProof_IsValid lib byteVector \<longleftrightarrow>
     byteVector \<noteq> [] \<and> length byteVector \<le> MAX_SC_PROOF_SIZE_IN_BYTES \<and> zendoo_deserialize_sc_proof lib byteVector"

definition CScVKey_IsValid :: "CctpLib \<Rightarrow> CScVKey \<Rightarrow> bool" where
  "CScVKey_IsValid lib byteVector \<longleftrightarrow>
     byteVector \<noteq> [] \<and> length byteVector \<le> MAX_SC_VK_SIZE_IN_BYTES \<and> zendoo_deserialize_sc_vk lib byteVector"

text \<open>\<open>ProvingSystemType\<close> is the enumeration \<open>Undefined = 0, Darlin = 1, CoboundaryMarlin = 2\<close>.\<close>

definition vk_getProvingSystemType :: "CctpLib \<Rightarrow> CScVKey \<Rightarrow> uint8" where
  "vk_getProvingSystemType lib vk =
     (if \<not> CScVKey_IsValid lib vk then 0
      else (case zendoo_get_sc_vk_proving_system_type lib vk of None \<Rightarrow> 0 | Some t \<Rightarrow> t))"

definition IsValidProvingSystemType :: "uint8 \<Rightarrow> bool" where
  "IsValidProvingSystemType val \<longleftrightarrow> val = 2 \<or> val = 1"

section \<open>Custom certificate fields\<close>

definition feConfig_IsValid :: "FieldElementCertificateFieldConfig \<Rightarrow> bool" where
  "feConfig_IsValid cfg \<longleftrightarrow> nBits cfg \<noteq> 0"

definition MAX_BIT_VECTOR_SIZE_BITS :: int where "MAX_BIT_VECTOR_SIZE_BITS = 1040384"
definition SPARSE_VECTOR_COMPRESSION_OVERHEAD :: int where "SPARSE_VECTOR_COMPRESSION_OVERHEAD = 2 * 1024"
definition MAX_COMPRESSED_SIZE_BYTES :: int where
  "MAX_COMPRESSED_SIZE_BYTES = MAX_BIT_VECTOR_SIZE_BITS div 8 + SPARSE_VECTOR_COMPRESSION_OVERHEAD"

definition bvConfig_IsValid :: "BitVectorCertificateFieldConfig \<Rightarrow> bool" where
  "bvConfig_IsValid cfg =
     (let bits = bitVectorSizeBits cfg in
      if \<not> (bits > 0 \<and> bits \<le> MAX_BIT_VECTOR_SIZE_BITS) then False
      else if bits mod 254 \<noteq> 0 \<or> bits mod 8 \<noteq> 0 then False
      else let merkleTreeLeaves = bits div 254 in
           if merkleTreeLeaves AND (merkleTreeLeaves - 1) \<noteq> 0 then False
           else maxCompressedSizeBytes cfg > 0 \<and> maxCompressedSizeBytes cfg \<le> MAX_COMPRESSED_SIZE_BYTES)"

text \<open>The null element is the empty one.\<close>

definition fe_GetFieldElement ::
  "CctpLib \<Rightarrow> FieldElementCertificateField \<Rightarrow> FieldElementCertificateFieldConfig \<Rightarrow> uint8 \<Rightarrow> CFieldElement" where
  "fe_GetFieldElement lib vRawData cfg sidechainVersion =
     (let (nbytes, rem) = getBytesFromBits (int (unat (nBits cfg))) in
      if int (length vRawData) \<noteq> nbytes then []
      else if rem \<noteq> 0 \<and>
              (let lastByte = last vRawData;
                   numbOfZeroBits = (if sidechainVersion = 0 then getTrailingZeroBitsInByte lastByte else getLeadingZeroBitsInByte lastByte)
               in numbOfZeroBits < CHAR_BIT - rem) then []
      else let extendedRawData =
             (if sidechainVersion = 0 then replicate (SC_FE_SIZE_IN_BYTES - length vRawData) 0 @ vRawData
              else vRawData @ replicate (SC_FE_SIZE_IN_BYTES - length vRawData) 0)
           in if CFieldElement_IsValid lib extendedRawData then extendedRawData else [])"

definition fe_IsValid ::
  "CctpLib \<Rightarrow> FieldElementCertificateField \<Rightarrow> FieldElementCertificateFieldConfig \<Rightarrow> uint8 \<Rightarrow> bool" where
  "fe_IsValid lib fe cfg sidechainVersion \<longleftrightarrow> \<not> cctp_IsNull (fe_GetFieldElement lib fe cfg sidechainVersion)"

definition bv_GetFieldElement ::
  "CctpLib \<Rightarrow> BitVectorCertificateField \<Rightarrow> BitVectorCertificateFieldConfig \<Rightarrow> CFieldElement" where
  "bv_GetFieldElement lib vRawData cfg =
     (if length vRawData > to_u64 (maxCompressedSizeBytes cfg) then []
      else (case zendoo_merkle_root_from_compressed_bytes lib vRawData (fst (getBytesFromBits (bitVectorSizeBits cfg))) of
              None \<Rightarrow> [] | Some fe \<Rightarrow> fe))"

definition bv_IsValid ::
  "CctpLib \<Rightarrow> BitVectorCertificateField \<Rightarrow> BitVectorCertificateFieldConfig \<Rightarrow> bool" where
  "bv_IsValid lib bv cfg \<longleftrightarrow> \<not> cctp_IsNull (bv_GetFieldElement lib bv cfg)"

definition checkCertCustomFields :: "CctpLib \<Rightarrow> CSidechain \<Rightarrow> CScCertificate \<Rightarrow> bool" where
  "checkCertCustomFields lib sidechain cert =
     (let vCfeCfg = vFieldElementCertificateFieldConfig (fixedParams sidechain);
          vCmtCfg = vBitVectorCertificateFieldConfig (fixedParams sidechain);
          vCfe = vFieldElementCertificateField cert;
          vCmt = vBitVectorCertificateField cert
      in if length vCfeCfg \<noteq> length vCfe \<or> length vCmtCfg \<noteq> length vCmt then False
         else (\<forall>(fe, cfg) \<in> set (zip vCfe vCfeCfg). fe_IsValid lib fe cfg (version (fixedParams sidechain)))
            \<and> (\<forall>(cmt, cfg) \<in> set (zip vCmt vCmtCfg). bv_IsValid lib cmt cfg))"

section \<open>Semantic checks\<close>

text \<open>The cumulated amount after the check, or nothing when the check fails.\<close>

definition CheckAmountRange :: "bool \<Rightarrow> CAmount \<Rightarrow> CAmount \<Rightarrow> CAmount option" where
  "CheckAmountRange allowedZeroScValue scValue cumulatedAmount =
     (if scValue = 0 \<and> \<not> allowedZeroScValue \<or> \<not> MoneyRange scValue then None
      else let cumulatedAmount = wrap64 (cumulatedAmount + scValue)
           in if \<not> MoneyRange cumulatedAmount then None else Some cumulatedAmount)"

definition reject :: "string \<Rightarrow> 'a result" where "reject reason = Inl (DoS 100 INVALID reason)"

definition check_creation :: "CChainParams \<Rightarrow> CctpLib \<Rightarrow> CAmount \<Rightarrow> CTxScCreationOut \<Rightarrow> CAmount result" where
  "check_creation pr lib cumulatedAmount sc =
     (let p = cr_params sc in
      if withdrawalEpochLength p < ScMinWithdrawalEpochLength pr then reject ''sidechain-sc-creation-epoch-too-short''
      else if withdrawalEpochLength p > ScMaxWithdrawalEpochLength pr then reject ''sidechain-sc-creation-epoch-too-long''
      else (case CheckAmountRange False (cr_nValue sc) cumulatedAmount of
          None \<Rightarrow> reject ''sidechain-sc-creation-amount-outside-range''
        | Some cumulatedAmount \<Rightarrow>
            if list_ex (\<lambda>c. \<not> feConfig_IsValid c) (vFieldElementCertificateFieldConfig p) then reject ''sidechain-sc-creation-invalid-custom-config''
            else if list_ex (\<lambda>c. \<not> bvConfig_IsValid c) (vBitVectorCertificateFieldConfig p) then reject ''sidechain-sc-creation-invalid-custom-config''
            else if \<not> CScVKey_IsValid lib (wCertVk p) then reject ''sidechain-sc-creation-invalid-wcert-vk''
            else if \<not> IsValidProvingSystemType (vk_getProvingSystemType lib (wCertVk p)) then reject ''sidechain-sc-creation-invalid-wcert-provingsystype''
            else if (case sc_constant p of None \<Rightarrow> False | Some c \<Rightarrow> \<not> CFieldElement_IsValid lib c) then reject ''sidechain-sc-creation-invalid-constant''
            else if (case wCeasedVk p of None \<Rightarrow> False | Some vk \<Rightarrow> \<not> CScVKey_IsValid lib vk) then reject ''sidechain-sc-creation-invalid-wcsw-vk''
            else if (case wCeasedVk p of None \<Rightarrow> False | Some vk \<Rightarrow> \<not> IsValidProvingSystemType (vk_getProvingSystemType lib vk))
              then reject ''sidechain-sc-creation-invalid-wcsw-provingsystype''
            else if \<not> MoneyRange (cr_forwardTransferScFee sc) then reject ''bad-cert-ft-fee-out-of-range''
            else if \<not> MoneyRange (cr_mbtrScFee sc) then reject ''bad-cert-mbtr-fee-out-of-range''
            else if unat (mainchainBackwardTransferRequestDataLength p) > MAX_SC_MBTR_DATA_LEN then reject ''bad-cert-mbtr-data-length-out-of-range''
            else Inr cumulatedAmount))"

definition check_ft :: "CAmount \<Rightarrow> CTxForwardTransferOut \<Rightarrow> CAmount result" where
  "check_ft cumulatedAmount ft =
     (case CheckAmountRange False (ft_nValue ft) cumulatedAmount of
        None \<Rightarrow> reject ''sidechain-sc-fwd-amount-outside-range'' | Some a \<Rightarrow> Inr a)"

definition check_mbtr :: "CctpLib \<Rightarrow> CAmount \<Rightarrow> CBwtRequestOut \<Rightarrow> CAmount result" where
  "check_mbtr lib cumulatedAmount bt =
     (case CheckAmountRange True (scFee bt) cumulatedAmount of
        None \<Rightarrow> reject ''sidechain-sc-fee-amount-outside-range''
      | Some a \<Rightarrow>
          if length (vScRequestData bt) = 0 then reject ''sidechain-sc-bwt-invalid-request-data''
          else if length (vScRequestData bt) > MAX_SC_MBTR_DATA_LEN then reject ''sidechain-sc-bwt-invalid-request-data''
          else if list_ex (\<lambda>fe. \<not> CFieldElement_IsValid lib fe) (vScRequestData bt) then reject ''sidechain-sc-bwt-invalid-request-data''
          else Inr a)"

definition check_csw :: "CctpLib \<Rightarrow> unit \<Rightarrow> CTxCeasedSidechainWithdrawalInput \<Rightarrow> unit result" where
  "check_csw lib u csw =
     (if csw_nValue csw = 0 \<or> \<not> MoneyRange (csw_nValue csw) then reject ''sidechain-cswinput-value-not-valid''
      else if \<not> CFieldElement_IsValid lib (nullifier csw) then reject ''sidechain-cswinput-invalid-nullifier''
      else if \<not> CFieldElement_IsValid lib (actCertDataHash csw) \<and> \<not> cctp_IsNull (actCertDataHash csw) then reject ''sidechain-cswinput-invalid-actCertDataHash''
      else if \<not> CFieldElement_IsValid lib (ceasingCumScTxCommTree csw) then reject ''sidechain-cswinput-invalid-ceasingCumScTxCommTree''
      else if \<not> CScProof_IsValid lib (csw_scProof csw) then reject ''sidechain-cswinput-invalid-proof''
      else Inr ())"

definition checkTxSemanticValidity :: "CChainParams \<Rightarrow> CctpLib \<Rightarrow> CTransaction \<Rightarrow> unit result" where
  "checkTxSemanticValidity pr lib tx =
     (if \<not> IsScVersion tx then if \<not> ccIsNull tx then reject ''sidechain-tx-version'' else Inr ()
      else if length (vjoinsplit tx) > 0 then reject ''sidechain-tx-version''
      else bindR (foldR (check_creation pr lib) 0 (vsc_ccout tx)) (\<lambda>a.
             bindR (foldR check_ft a (vft_ccout tx)) (\<lambda>a.
               bindR (foldR (check_mbtr lib) a (vmbtr_out tx)) (\<lambda>_.
                 foldR (check_csw lib) () (vcsw_ccin tx)))))"

definition checkCertSemanticValidity :: "CctpLib \<Rightarrow> CScCertificate \<Rightarrow> unit result" where
  "checkCertSemanticValidity lib cert =
     (if quality cert < 0 then reject ''bad-cert-quality-negative''
      else if epochNumber cert < 0 then reject ''bad-cert-invalid-epoch-data''
      else if \<not> CFieldElement_IsValid lib (endEpochCumScTxCommTreeRoot cert) then reject ''bad-cert-invalid-cum-comm-tree''
      else if \<not> MoneyRange (cert_forwardTransferScFee cert) then reject ''bad-cert-ft-fee-out-of-range''
      else if \<not> MoneyRange (cert_mbtrScFee cert) then reject ''bad-cert-mbtr-fee-out-of-range''
      else if \<not> CScProof_IsValid lib (cert_scProof cert) then reject ''bad-cert-invalid-sc-proof''
      else Inr ())"

section \<open>Counting zero bits\<close>

lemma bit_count_nonneg: "0 \<le> bit_count f b"
  by (induction f arbitrary: b) (simp_all add: add_increasing2)

lemma bit_count_le: "unat b < 2 ^ f \<Longrightarrow> bit_count f b \<le> int n \<longleftrightarrow> unat b < 2 ^ n"
proof (induction f arbitrary: b n)
  case (Suc f)
  have d: "unat (drop_bit (Suc 0) b) = unat b div 2" unfolding unat_drop_bit_eq by (simp add: drop_bit_Suc)
  then have f: "unat (drop_bit 1 b) < 2 ^ f" using Suc.prems by simp
  show ?case
  proof (cases "b = 0")
    case False
    then have b: "0 < b" "0 < unat b" by (simp_all add: word_neq_0_conv unat_gt_0)
    show ?thesis
    proof (cases n)
      case 0
      have "0 \<le> bit_count f (drop_bit (Suc 0) b)" by (rule bit_count_nonneg)
      then show ?thesis using b 0 by simp
    next
      case (Suc m)
      have "unat b div 2 < 2 ^ m \<longleftrightarrow> unat b < 2 ^ Suc m" by (simp add: div_less_iff_less_mult mult.commute)
      then show ?thesis using Suc.IH [OF f, of m] b Suc d by simp
    qed
  qed simp
qed (simp add: unat_eq_0)

lemma getLeadingZeroBits_ge: "n \<le> 8 \<Longrightarrow> int (8 - n) \<le> getLeadingZeroBitsInByte b \<longleftrightarrow> unat b < 2 ^ n"
  using bit_count_le [OF byte_lt, of b n] by (auto simp: getLeadingZeroBitsInByte_def CHAR_BIT_def of_nat_diff)

lemma xor_pred: "(2 ^ t * (2 * m + 1)) XOR (2 ^ t * (2 * m + 1) - 1) = (2 ^ Suc t - 1 :: int)"
proof (induction t)
  case 0
  show ?case by (subst xor_int_rec) simp
next
  case (Suc t)
  let ?x = "2 ^ t * (2 * m + 1) :: int"
  have e: "2 ^ Suc t * (2 * m + 1) = 2 * ?x" "2 * ?x - 1 = 2 * (?x - 1) + 1" by (simp_all add: algebra_simps)
  have X: "(2 * x) XOR (2 * y + 1) = 1 + 2 * (x XOR y)" for x y :: int by (subst xor_int_rec) simp
  show ?case unfolding e X Suc by simp
qed

lemma unat_split_odd:
  assumes "0 < (n :: nat)" obtains t m where "n = 2 ^ t * (2 * m + 1)"
  using assms
proof (induction n arbitrary: thesis rule: less_induct)
  case (less n)
  show ?case
  proof (cases "even n")
    case True
    then obtain k where k: "n = 2 * k" by blast
    then have "k < n" "0 < k" using less.prems(2) by simp_all
    then obtain t m where "k = 2 ^ t * (2 * m + 1)" using less.IH by blast
    then show ?thesis using less.prems(1) [of "Suc t" m] k by simp
  next
    case False
    then obtain m where "n = 2 * m + 1" using oddE by blast
    then show ?thesis using less.prems(1) [of 0 m] by simp
  qed
qed

lemma pow_dvd_odd: "(2 ^ k :: nat) dvd 2 ^ t * (2 * m + 1) \<longleftrightarrow> k \<le> t"
proof
  assume "2 ^ k dvd 2 ^ t * (2 * m + 1 :: nat)"
  moreover have "coprime (2 ^ k) (2 * m + 1 :: nat)" by simp
  ultimately have "(2 ^ k :: nat) dvd 2 ^ t" using coprime_dvd_mult_left_iff by blast
  then show "k \<le> t" by (simp add: power_dvd_imp_le)
qed (simp add: le_imp_power_dvd)

lemma getTrailingZeroBits_ge: "k \<le> 8 \<Longrightarrow> int k \<le> getTrailingZeroBitsInByte b \<longleftrightarrow> 2 ^ k dvd unat b"
proof (cases "b = 0")
  case False
  then have "0 < unat b" by (simp add: unat_gt_0)
  then obtain t m where tm: "unat b = 2 ^ t * (2 * m + 1)" by (rule unat_split_odd)
  have "2 ^ t \<le> unat b" unfolding tm by simp
  then have "(2 :: nat) ^ t < 2 ^ 8" using byte_lt [of b] by linarith
  then have t: "t < 8" using power_less_imp_less_exp [of "2 :: nat" t 8] by simp
  have u: "uint b = 2 ^ t * (2 * int m + 1)" unfolding uint_nat tm by (simp add: algebra_simps)
  have "unat (b - 1) = unat b - 1" using False by (rule unat_minus_one)
  then have "uint (b - 1) = uint b - 1" using \<open>0 < unat b\<close> unfolding uint_nat by simp
  then have "uint (b XOR (b - 1)) = 2 ^ Suc t - 1" using xor_pred [of t "int m"] u by (simp add: unsigned_xor_eq)
  then have "int (unat (b XOR (b - 1))) = int (2 ^ Suc t - 1)" unfolding uint_nat by (simp add: of_nat_diff)
  then have x: "unat (b XOR (b - 1)) = 2 ^ Suc t - 1" unfolding of_nat_eq_iff .
  have d: "unat (drop_bit (Suc 0) (b XOR (b - 1))) = 2 ^ t - 1" unfolding unat_drop_bit_eq by (simp add: drop_bit_Suc x)
  have c: "bit_count 8 (drop_bit (Suc 0) (b XOR (b - 1))) \<le> int n \<longleftrightarrow> t \<le> n" for n
  proof -
    have "(2 :: nat) ^ t - 1 < 2 ^ n \<longleftrightarrow> t \<le> n"
      using power_increasing_iff [of "2 :: nat" t n] one_le_power [of "2 :: nat" t] by (auto simp: less_eq_Suc_le)
    then show ?thesis using bit_count_le [OF byte_lt, of "drop_bit (Suc 0) (b XOR (b - 1))" n] d by simp
  qed
  obtain N where N: "bit_count 8 (drop_bit (Suc 0) (b XOR (b - 1))) = int N" by (rule nonneg_int_cases [OF bit_count_nonneg])
  have "t = N" using c [of N] c [of t] N by simp
  then show ?thesis using False N unfolding tm pow_dvd_odd by (simp add: getTrailingZeroBitsInByte_def)
qed (simp add: getTrailingZeroBitsInByte_def CHAR_BIT_def)

section \<open>Custom fields hold numbers of the configured size\<close>

lemma be_value_last: "k \<le> 8 \<Longrightarrow> 2 ^ k dvd be_value (bs @ [b]) \<longleftrightarrow> 2 ^ k dvd unat b"
proof -
  assume "k \<le> 8"
  then have "(2 :: nat) ^ k dvd 2 ^ 8" by (rule le_imp_power_dvd)
  then have "2 ^ k dvd 256 * le_value (rev bs)" by (simp add: dvd_mult2)
  then show ?thesis by (simp add: be_value_def dvd_add_left_iff)
qed

lemma nBits_split: "(n + 7) div 8 = (if n mod 8 \<noteq> 0 then n div 8 + 1 else n div 8)" for n :: nat
proof -
  obtain q r where n: "n = 8 * q + r" "r < 8" using mult_div_mod_eq [of 8 n] mod_less_divisor [of 8 n] by (metis zero_less_numeral)
  then have d: "n div 8 = q" "n mod 8 = r" by simp_all
  show ?thesis
  proof (cases "r = 0")
    case True
    then show ?thesis using n d div_nat_eqI [of 8 q "n + 7"] by simp
  next
    case False
    then show ?thesis using n d div_nat_eqI [of 8 "Suc q" "n + 7"] by simp
  qed
qed

lemma fe_last_byte:
  assumes l: "length raw = (n + 7) div 8" and r: "n mod 8 \<noteq> 0"
  shows "int (8 - n mod 8) \<le> getTrailingZeroBitsInByte (last raw) \<longleftrightarrow> 2 ^ (8 * length raw - n) dvd be_value raw"
    "int (8 - n mod 8) \<le> getLeadingZeroBitsInByte (last raw) \<longleftrightarrow> le_value raw < 2 ^ n"
proof -
  have len: "length raw = n div 8 + 1" using l r by (simp add: nBits_split)
  then have ne: "raw \<noteq> []" by auto
  then obtain bs b where raw: "raw = bs @ [b]" by (metis append_butlast_last_id)
  then have bs: "length bs = n div 8" using len by simp
  have n: "n = 8 * length bs + n mod 8" using bs by simp
  have k: "8 * length raw - n = 8 - n mod 8" using n raw by simp
  show "int (8 - n mod 8) \<le> getTrailingZeroBitsInByte (last raw) \<longleftrightarrow> 2 ^ (8 * length raw - n) dvd be_value raw"
    using getTrailingZeroBits_ge [of "8 - n mod 8" b] be_value_last [of "8 - n mod 8" bs b] k raw by simp
  have "le_value (bs @ [b]) < 2 ^ (8 * length bs + n mod 8) \<longleftrightarrow> unat b < 2 ^ (n mod 8)" by (rule le_value_last)
  then show "int (8 - n mod 8) \<le> getLeadingZeroBitsInByte (last raw) \<longleftrightarrow> le_value raw < 2 ^ n"
    using getLeadingZeroBits_ge [of "n mod 8" b] n raw by simp
qed

lemma getBytesFromBits_nat: "getBytesFromBits (int n) = (int ((n + 7) div 8), int (n mod 8))"
proof -
  have "int n mod 8 = int (n mod 8)" "int n div 8 = int (n div 8)" by (simp_all add: zdiv_int zmod_int)
  then show ?thesis unfolding getBytesFromBits_def CHAR_BIT_def nBits_split Let_def by simp
qed

text \<open>A custom certificate field is accepted exactly when it has as many bytes as the configured number of bits
  needs, when it stands for a number of that many bits (in sidechains of version 0 the number is stored
  with its highest bit first and the unused low bits must be zero, later with the lowest byte first), and when the library
  accepts it extended by zeros to a field element.\<close>

lemma custom_field_range:
  "fe_IsValid lib raw cfg ver \<longleftrightarrow> length raw = (unat (nBits cfg) + 7) div 8
     \<and> (if ver = 0 then 2 ^ (8 * length raw - unat (nBits cfg)) dvd be_value raw else le_value raw < 2 ^ unat (nBits cfg))
     \<and> zendoo_deserialize_field lib (if ver = 0 then replicate (32 - length raw) 0 @ raw else raw @ replicate (32 - length raw) 0)"
proof (cases "length raw = (unat (nBits cfg) + 7) div 8")
  case False
  then show ?thesis unfolding fe_IsValid_def fe_GetFieldElement_def getBytesFromBits_nat cctp_IsNull_def
    by (simp only: prod.case of_nat_eq_iff if_True not_False_eq_True Let_def) simp
next
  case l: True
  let ?n = "unat (nBits cfg)"
  let ?x = "if ver = 0 then replicate (32 - length raw) 0 @ raw else raw @ replicate (32 - length raw) 0"
  have "?n < 2 ^ 8" by (rule byte_lt)
  then have "length raw \<le> 32" using l by simp
  then have x: "length ?x = SC_FE_SIZE_IN_BYTES" "?x \<noteq> []" by (auto simp: SC_FE_SIZE_IN_BYTES_def)
  have V: "(if CFieldElement_IsValid lib y then y else []) \<noteq> [] \<longleftrightarrow> zendoo_deserialize_field lib y"
    if "length y = SC_FE_SIZE_IN_BYTES" "y \<noteq> []" for y using that by (simp add: CFieldElement_IsValid_def)
  have valid: "(if CFieldElement_IsValid lib ?x then ?x else []) \<noteq> [] \<longleftrightarrow> zendoo_deserialize_field lib ?x"
    using V [OF x] .
  let ?z = "if ver = 0 then getTrailingZeroBitsInByte (last raw) else getLeadingZeroBitsInByte (last raw)"
  let ?R = "if ver = 0 then 2 ^ (8 * length raw - ?n) dvd be_value raw else le_value raw < 2 ^ ?n"
  have R: "\<not> (int (?n mod 8) \<noteq> 0 \<and> ?z < CHAR_BIT - int (?n mod 8)) \<longleftrightarrow> ?R"
  proof (cases "?n mod 8 = 0")
    case True
    then have "8 * length raw = ?n" using l by (simp add: nBits_split mod_eq_0_iff_dvd)
    then have "2 ^ (8 * length raw - ?n) dvd be_value raw" "le_value raw < 2 ^ ?n"
      using le_value_less [of raw] power_mult [of "2 :: nat" 8 "length raw"] by simp_all
    then show ?thesis using True by simp
  next
    case False
    have "CHAR_BIT - int (?n mod 8) = int (8 - ?n mod 8)" by (simp add: CHAR_BIT_def of_nat_diff)
    then show ?thesis using fe_last_byte [OF l False] False by (auto simp: not_less)
  qed
  have "fe_GetFieldElement lib raw cfg ver = (if \<not> ?R then [] else if CFieldElement_IsValid lib ?x then ?x else [])"
    unfolding fe_GetFieldElement_def getBytesFromBits_nat R [symmetric] using l
    by (simp only: prod.case of_nat_eq_iff if_False Let_def SC_FE_SIZE_IN_BYTES_def not_True_eq_False not_not simp_thms)
  then show ?thesis using l valid by (auto simp: fe_IsValid_def cctp_IsNull_def)
qed

section \<open>Bit vectors\<close>

lemma and_pred_zero: "(n AND (n - 1) = 0) \<longleftrightarrow> (\<exists>k. n = 2 ^ k)" if "0 < n" for n :: int
  using that
proof (induction "nat n" arbitrary: n rule: less_induct)
  case less
  show ?case
  proof (cases "even n")
    case True
    then obtain m where m: "n = 2 * m" by blast
    have X: "(2 * x) AND (2 * y + 1) = 2 * (x AND y)" for x y :: int by (subst and_int_rec) simp
    have "n AND (n - 1) = 2 * (m AND (m - 1))" using X [of m "m - 1"] m by simp
    moreover have "(m AND (m - 1) = 0) \<longleftrightarrow> (\<exists>k. m = 2 ^ k)" by (rule less.hyps) (use m less.prems in auto)
    moreover have "(\<exists>k. n = 2 ^ k) \<longleftrightarrow> (\<exists>k. m = 2 ^ k)"
    proof
      assume "\<exists>k. n = 2 ^ k"
      then obtain k where k: "n = 2 ^ k" by blast
      then obtain j where "k = Suc j" using True by (cases k) auto
      then show "\<exists>k. m = 2 ^ k" using k m by auto
    next
      assume "\<exists>k. m = 2 ^ k"
      then show "\<exists>k. n = 2 ^ k" using m by (metis power_Suc)
    qed
    ultimately show ?thesis by simp
  next
    case False
    then obtain m where m: "n = 2 * m + 1" using oddE by blast
    have X: "(2 * x + 1) AND (2 * x) = 2 * x" for x :: int by (subst and_int_rec) simp
    have "n AND (n - 1) = 2 * m" using X [of m] m by simp
    moreover have "(\<exists>k. n = 2 ^ k) \<longleftrightarrow> n = 1" using False by (auto simp: even_power) (metis power_0)
    ultimately show ?thesis using m by simp
  qed
qed

text \<open>The configuration of a bit vector is accepted exactly when the vector fills the leaves of 254 bits of a
  perfect binary tree of between 4 and 4096 leaves and its compressed size is positive and within the limit.\<close>

lemma bit_vector_config_valid:
  "bvConfig_IsValid cfg \<longleftrightarrow> (\<exists>k. 2 \<le> k \<and> k \<le> 12 \<and> bitVectorSizeBits cfg = 254 * 2 ^ k)
     \<and> 0 < maxCompressedSizeBytes cfg \<and> maxCompressedSizeBytes cfg \<le> 132096"
proof -
  let ?b = "bitVectorSizeBits cfg"
  have "(0 < ?b \<and> ?b \<le> 1040384 \<and> ?b mod 254 = 0 \<and> ?b mod 8 = 0 \<and> (?b div 254) AND (?b div 254 - 1) = 0)
      \<longleftrightarrow> (\<exists>k. 2 \<le> k \<and> k \<le> 12 \<and> ?b = 254 * 2 ^ k)" (is "?L \<longleftrightarrow> ?R")
  proof
    assume L: ?L
    then obtain l where l: "?b = 254 * l" by (metis mod_0_imp_dvd dvd_def)
    then have "0 < l" "?b div 254 = l" using L by simp_all
    then obtain k where k: "l = 2 ^ k" using and_pred_zero [of l] L by auto
    have "(2 :: int) ^ k \<le> 2 ^ 12" using L l k by simp
    then have "k \<le> 12" by (rule power_le_imp_le_exp [rotated]) simp
    moreover have "2 \<le> k"
    proof (rule ccontr)
      assume "\<not> 2 \<le> k"
      then have "k = 0 \<or> k = 1" by linarith
      then show False using L l k by auto
    qed
    ultimately show ?R using l k by blast
  next
    assume ?R
    then obtain k where k: "2 \<le> k" "k \<le> 12" "?b = 254 * 2 ^ k" by blast
    have "(2 :: int) ^ k \<le> 2 ^ 12" by (rule power_increasing) (use k in simp_all)
    moreover have "(8 :: int) dvd 254 * 2 ^ k"
    proof -
      have "(2 :: int) ^ 2 dvd 2 ^ k" using k(1) by (rule le_imp_power_dvd)
      then have "(2 * 2 ^ 2 :: int) dvd 254 * 2 ^ k" by (intro mult_dvd_mono) simp_all
      then show ?thesis by simp
    qed
    ultimately show ?L using k(3) and_pred_zero [of "2 ^ k"] by (auto simp: mod_eq_0_iff_dvd)
  qed
  moreover have "bvConfig_IsValid cfg \<longleftrightarrow> (0 < ?b \<and> ?b \<le> 1040384 \<and> ?b mod 254 = 0 \<and> ?b mod 8 = 0 \<and> (?b div 254) AND (?b div 254 - 1) = 0)
      \<and> 0 < maxCompressedSizeBytes cfg \<and> maxCompressedSizeBytes cfg \<le> 132096"
    unfolding bvConfig_IsValid_def Let_def MAX_COMPRESSED_SIZE_BYTES_def MAX_BIT_VECTOR_SIZE_BITS_def SPARSE_VECTOR_COMPRESSION_OVERHEAD_def
    by auto
  ultimately show ?thesis by argo
qed

section \<open>Amounts of accepted transactions\<close>

lemma CheckAmountRange_Some:
  assumes "CheckAmountRange z x a = Some a'" "MoneyRange a"
  shows "a' = a + x" "MoneyRange a'" "MoneyRange x" "\<not> z \<Longrightarrow> 0 < x"
  using assms MoneyRange_add_int64 [of a x] by (auto simp: CheckAmountRange_def Let_def MoneyRange_def split: if_splits)

text \<open>A loop that checks amounts returns their sum.\<close>

lemma check_loop:
  assumes "foldR f a xs = Inr a'" "MoneyRange a" and step: "\<And>a x a'. MoneyRange a \<Longrightarrow> f a x = Inr a' \<Longrightarrow> a' = a + g x \<and> MoneyRange a' \<and> P x"
  shows "a' = a + sum_list (map g xs) \<and> MoneyRange a' \<and> (\<forall>x \<in> set xs. P x)"
  using assms(1,2)
proof (induction xs arbitrary: a)
  case (Cons x xs)
  then obtain a1 where a1: "f a x = Inr a1" "foldR f a1 xs = Inr a'" by (auto split: sum.splits)
  have s: "a1 = a + g x" "MoneyRange a1" "P x" using step [OF Cons.prems(2) a1(1)] by auto
  show ?case using Cons.IH [OF a1(2) s(2)] s by (auto simp: add.assoc)
qed simp

definition creation_ok :: "CChainParams \<Rightarrow> CctpLib \<Rightarrow> CTxScCreationOut \<Rightarrow> bool" where
  "creation_ok pr lib cr \<longleftrightarrow> 0 < cr_nValue cr \<and> ScMinWithdrawalEpochLength pr \<le> withdrawalEpochLength (cr_params cr)
     \<and> withdrawalEpochLength (cr_params cr) \<le> ScMaxWithdrawalEpochLength pr \<and> CScVKey_IsValid lib (wCertVk (cr_params cr))
     \<and> MoneyRange (cr_forwardTransferScFee cr) \<and> MoneyRange (cr_mbtrScFee cr)"

lemma check_creation_Inr:
  assumes "check_creation pr lib a cr = Inr a'" "MoneyRange a"
  shows "a' = a + cr_nValue cr \<and> MoneyRange a' \<and> creation_ok pr lib cr"
proof -
  have c: "CheckAmountRange False (cr_nValue cr) a = Some a'" "ScMinWithdrawalEpochLength pr \<le> withdrawalEpochLength (cr_params cr)"
    "withdrawalEpochLength (cr_params cr) \<le> ScMaxWithdrawalEpochLength pr" "CScVKey_IsValid lib (wCertVk (cr_params cr))"
    "MoneyRange (cr_forwardTransferScFee cr)" "MoneyRange (cr_mbtrScFee cr)"
    using assms(1) by (simp_all add: check_creation_def reject_def Let_def split: if_splits option.splits)
  then show ?thesis using CheckAmountRange_Some [OF c(1) assms(2)] by (simp add: creation_ok_def)
qed

lemma check_ft_Inr:
  assumes "check_ft a ft = Inr a'" "MoneyRange a" shows "a' = a + ft_nValue ft \<and> MoneyRange a' \<and> 0 < ft_nValue ft"
  using assms CheckAmountRange_Some [of False "ft_nValue ft" a a'] by (auto simp: check_ft_def reject_def split: option.splits)

lemma check_mbtr_Inr:
  assumes "check_mbtr lib a bt = Inr a'" "MoneyRange a"
  shows "a' = a + scFee bt \<and> MoneyRange a' \<and> (0 \<le> scFee bt \<and> vScRequestData bt \<noteq> [] \<and> length (vScRequestData bt) \<le> 16)"
  using assms CheckAmountRange_Some [of True "scFee bt" a a']
  by (auto simp: check_mbtr_def reject_def MAX_SC_MBTR_DATA_LEN_def split: option.splits if_splits)

lemma check_csw_Inr: "foldR (check_csw lib) u ws = Inr u' \<Longrightarrow> w \<in> set ws \<Longrightarrow> 0 < csw_nValue w \<and> MoneyRange (csw_nValue w)"
proof (induction ws)
  case (Cons x ws)
  then have x: "check_csw lib u x = Inr ()" "foldR (check_csw lib) () ws = Inr u'" by (auto split: sum.splits)
  have "0 < csw_nValue x \<and> MoneyRange (csw_nValue x)" using x(1) by (auto simp: check_csw_def reject_def MoneyRange_def split: if_splits)
  then show ?case using Cons x(2) by auto
qed simp

text \<open>C17: in a sidechain transaction that passes the semantic checks no amount is negative, creations and forward
  transfers carry a positive amount, and all that goes to sidechains adds up to at most the money supply, so
  no 64-bit sum of these amounts wraps; every new sidechain has an epoch length in the allowed range, a valid
  certificate verification key and fees in range; every ceased sidechain withdrawal takes a positive amount.\<close>

theorem semantic_amounts_bounded:
  assumes "checkTxSemanticValidity pr lib tx = Inr ()" "IsScVersion tx"
  shows "(\<forall>cr \<in> set (vsc_ccout tx). creation_ok pr lib cr) \<and> (\<forall>ft \<in> set (vft_ccout tx). 0 < ft_nValue ft)
    \<and> (\<forall>bt \<in> set (vmbtr_out tx). 0 \<le> scFee bt \<and> vScRequestData bt \<noteq> [] \<and> length (vScRequestData bt) \<le> 16)
    \<and> MoneyRange (sum_list (map cr_nValue (vsc_ccout tx)) + sum_list (map ft_nValue (vft_ccout tx)) + sum_list (map scFee (vmbtr_out tx)))
    \<and> (\<forall>w \<in> set (vcsw_ccin tx). 0 < csw_nValue w \<and> MoneyRange (csw_nValue w)) \<and> vjoinsplit tx = []"
proof -
  obtain a b c where s: "foldR (check_creation pr lib) 0 (vsc_ccout tx) = Inr a" "foldR check_ft a (vft_ccout tx) = Inr b"
    "foldR (check_mbtr lib) b (vmbtr_out tx) = Inr c" "foldR (check_csw lib) () (vcsw_ccin tx) = Inr ()" "vjoinsplit tx = []"
    using assms by (auto simp: checkTxSemanticValidity_def reject_def bindR_eq_Inr split: if_splits)
  have A: "a = 0 + sum_list (map cr_nValue (vsc_ccout tx)) \<and> MoneyRange a \<and> (\<forall>cr \<in> set (vsc_ccout tx). creation_ok pr lib cr)"
    by (rule check_loop [OF s(1)]) (simp_all add: check_creation_Inr)
  have B: "b = a + sum_list (map ft_nValue (vft_ccout tx)) \<and> MoneyRange b \<and> (\<forall>ft \<in> set (vft_ccout tx). 0 < ft_nValue ft)"
    by (rule check_loop [OF s(2)]) (use A check_ft_Inr in auto)
  have C: "c = b + sum_list (map scFee (vmbtr_out tx)) \<and> MoneyRange c
      \<and> (\<forall>bt \<in> set (vmbtr_out tx). 0 \<le> scFee bt \<and> vScRequestData bt \<noteq> [] \<and> length (vScRequestData bt) \<le> 16)"
    by (rule check_loop [OF s(3)]) (use B check_mbtr_Inr in auto)
  show ?thesis using A B C check_csw_Inr [OF s(4)] s(5) by auto
qed

text \<open>A library that accepts everything of the right size, and a transaction that creates a sidechain.\<close>

definition lib_example :: CctpLib where
  "lib_example = \<lparr>zendoo_deserialize_field = (\<lambda>_. True), zendoo_deserialize_sc_proof = (\<lambda>_. True), zendoo_deserialize_sc_vk = (\<lambda>_. True),
     zendoo_get_sc_vk_proving_system_type = (\<lambda>_. Some 1), zendoo_merkle_root_from_compressed_bytes = (\<lambda>_ _. None)\<rparr>"

definition creation_example :: CTransaction where
  "creation_example = tx_null\<lparr>tx_nVersion := SC_TX_VERSION,
     vsc_ccout := [\<lparr>cr_nValue = 5 * COIN, cr_address = 1, generatedScId = 9,
       cr_params = ScFixedParameters_null\<lparr>withdrawalEpochLength := 100, wCertVk := [1]\<rparr>, cr_forwardTransferScFee = 0, cr_mbtrScFee = 0\<rparr>],
     vft_ccout := [\<lparr>ft_nValue = COIN, ft_address = 1, ft_scId = 7, mcReturnAddress = 2\<rparr>]\<rparr>"

theorem semantic_amounts_bounded_witness:
  "checkTxSemanticValidity CMainParams lib_example creation_example = Inr () \<and> IsScVersion creation_example
    \<and> MoneyRange (sum_list (map cr_nValue (vsc_ccout creation_example)) + sum_list (map ft_nValue (vft_ccout creation_example)))"
proof -
  have c: "checkTxSemanticValidity CMainParams lib_example creation_example = Inr ()" "IsScVersion creation_example"
    by (simp_all add: checkTxSemanticValidity_def IsScVersion_def creation_example_def tx_null_def check_creation_def check_ft_def CheckAmountRange_def
        Let_def CMainParams_def lib_example_def ScFixedParameters_null_def CScVKey_IsValid_def vk_getProvingSystemType_def IsValidProvingSystemType_def
        MoneyRange_def MAX_MONEY_def COIN_def MAX_SC_VK_SIZE_IN_BYTES_def MAX_PROOF_PLUS_VK_SIZE_def MAX_SC_MBTR_DATA_LEN_def wrap64_def)
  then show ?thesis using semantic_amounts_bounded [OF c] by (simp add: creation_example_def tx_null_def)
qed

end
