(* ===== verification/Applicability.thy ===== *)
theory Applicability
  imports ScEvents ScTypes
begin

text \<open>
  Which certificates and sidechain transactions a chain state accepts: the \<open>const\<close> checks of
  \<open>CCoinsViewCache\<close> in \<open>coins.cpp\<close>. A check reads through the cache and so changes it; \<open>looks\<close>
  relates it to a function of the ledger. The block index and the active chain, which these functions
  reach as globals, are fields of \<open>ChainEnv\<close>: the height of each known block, and the cumulative sidechain commitment of the
  block at each height of the active chain. Log messages and the \<open>banSenderNode\<close> flag are not modelled.
\<close>

section \<open>Reading through a cache\<close>

type_synonym 'a look = "CCoinsViewCache \<Rightarrow> (CCoinsViewCache \<times> 'a) result"

definition retL :: "'a \<Rightarrow> 'a look" where "retL x v = Inr (v, x)"

definition failL :: "error \<Rightarrow> 'a look" where "failL e v = Inl e"

definition bindL :: "'a look \<Rightarrow> ('a \<Rightarrow> 'b look) \<Rightarrow> 'b look" where
  "bindL m k v = bindR (m v) (\<lambda>(v', x). k x v')"

definition onCache :: "(CCoinsViewCache \<Rightarrow> CCoinsViewCache \<times> 'a) \<Rightarrow> 'a look" where "onCache f v = Inr (f v)"

definition onView :: "(CCoinsView \<Rightarrow> CCoinsView \<times> 'a) \<Rightarrow> 'a look" where
  "onView f v = (case f (vw v) of (CacheView c b, r) \<Rightarrow> Inr ((c, b), r) | (DBView d, r) \<Rightarrow> Inl Undefined)"

text \<open>Loops that stop at the first element that fails, with \<open>false\<close> or with a code other than \<open>OK\<close>.\<close>

fun allL :: "('a \<Rightarrow> bool look) \<Rightarrow> 'a list \<Rightarrow> bool look" where
  "allL p [] = retL True"
| "allL p (x # xs) = bindL (p x) (\<lambda>b. if b then allL p xs else retL False)"

fun codeL :: "('a \<Rightarrow> Code look) \<Rightarrow> 'a list \<Rightarrow> Code look" where
  "codeL p [] = retL OK"
| "codeL p (x # xs) = bindL (p x) (\<lambda>c. if c = OK then codeL p xs else retL c)"

section \<open>State of a sidechain\<close>

record ChainEnv =
  mapBlockIndex :: "uint256 \<Rightarrow> int option"
  chainActive :: "int \<Rightarrow> CFieldElement option"
  cctp :: CctpLib

definition GetHeight :: "ChainEnv \<Rightarrow> int look" where
  "GetHeight env = bindL (onView GetBestBlock) (\<lambda>best.
     case mapBlockIndex env best of None \<Rightarrow> failL Undefined | Some h \<Rightarrow> retL h)"

definition GetSidechainState :: "ChainEnv \<Rightarrow> uint256 \<Rightarrow> State look" where
  "GetSidechainState env scId = bindL (onCache (\<lambda>v. CacheGetSidechain v scId)) (\<lambda>r.
     case r of None \<Rightarrow> retL NOT_APPLICABLE
     | Some sidechain \<Rightarrow>
         if \<not> isCreationConfirmed sidechain then retL UNCONFIRMED
         else bindL (GetHeight env) (\<lambda>h. if h \<ge> GetScheduledCeasingHeight sidechain then retL CEASED else retL ALIVE))"

definition GetActiveCertView :: "ChainEnv \<Rightarrow> uint256 \<Rightarrow> CScCertificateView look" where
  "GetActiveCertView env scId = bindL (onCache (\<lambda>v. AccessSidechain v scId)) (\<lambda>r.
     case r of None \<Rightarrow> retL certView_null
     | Some sc \<Rightarrow>
         bindL (GetSidechainState env scId) (\<lambda>s.
         if s = CEASED then retL (pastEpochTopQualityCertView sc)
         else bindL (GetSidechainState env scId) (\<lambda>s.
         if s = UNCONFIRMED then retL (lastTopQualityCertView sc)
         else bindL (GetHeight env) (\<lambda>h.
           let certReferencedEpoch = EpochFor sc (h + 1 - GetCertSubmissionWindowLength sc) - 1 in
           if lastTopQualityCertReferencedEpoch sc = certReferencedEpoch then retL (lastTopQualityCertView sc)
           else if lastTopQualityCertReferencedEpoch sc - 1 = certReferencedEpoch then retL (pastEpochTopQualityCertView sc)
           else failL Assert))))"

definition sc_GetCeasingCumTreeHash :: "ChainEnv \<Rightarrow> CSidechain \<Rightarrow> CFieldElement option" where
  "sc_GetCeasingCumTreeHash env sc = chainActive env (GetScheduledCeasingHeight sc)"

definition GetCeasingCumTreeHash :: "ChainEnv \<Rightarrow> uint256 \<Rightarrow> CFieldElement look" where
  "GetCeasingCumTreeHash env scId = bindL (onCache (\<lambda>v. AccessSidechain v scId)) (\<lambda>r.
     case r of None \<Rightarrow> retL []
     | Some sc \<Rightarrow> (case sc_GetCeasingCumTreeHash env sc of None \<Rightarrow> retL [] | Some ceasedBlockCum \<Rightarrow> retL ceasedBlockCum))"

section \<open>Certificates\<close>

definition CheckCertTiming :: "ChainEnv \<Rightarrow> uint256 \<Rightarrow> int \<Rightarrow> bool look" where
  "CheckCertTiming env scId certEpoch = bindL (onCache (\<lambda>v. CacheGetSidechain v scId)) (\<lambda>r.
     case r of None \<Rightarrow> retL False
     | Some sidechain \<Rightarrow>
         bindL (GetSidechainState env scId) (\<lambda>s.
         if s \<noteq> ALIVE then retL False
         else if certEpoch \<noteq> lastTopQualityCertReferencedEpoch sidechain \<and> certEpoch \<noteq> lastTopQualityCertReferencedEpoch sidechain + 1
         then retL False
         else let certWindowStartHeight = GetCertSubmissionWindowStart sidechain certEpoch;
                  certWindowEndHeight = GetCertSubmissionWindowEnd sidechain certEpoch
              in bindL (GetHeight env) (\<lambda>h. let inclusionHeight = h + 1 in
                 retL (\<not> (inclusionHeight < certWindowStartHeight \<or> inclusionHeight > certWindowEndHeight)))))"

definition CheckEndEpochCumScTxCommTreeRoot :: "ChainEnv \<Rightarrow> CSidechain \<Rightarrow> int \<Rightarrow> CFieldElement \<Rightarrow> Code" where
  "CheckEndEpochCumScTxCommTreeRoot env sidechain epoch root =
     (case chainActive env (GetEndHeightForEpoch sidechain epoch) of
        None \<Rightarrow> INVALID
      | Some scCumTreeHash \<Rightarrow> if scCumTreeHash \<noteq> root then SC_CUM_COMM_TREE else OK)"

definition IsCertApplicableToState :: "ChainEnv \<Rightarrow> CScCertificate \<Rightarrow> Code look" where
  "IsCertApplicableToState env cert = bindL (onCache (\<lambda>v. CacheGetSidechain v (cert_scId cert))) (\<lambda>r.
     case r of None \<Rightarrow> retL SCID_NOT_FOUND
     | Some sidechain \<Rightarrow>
         bindL (CheckCertTiming env (cert_scId cert) (epochNumber cert)) (\<lambda>timely.
         if \<not> timely then retL INVALID
         else if \<not> checkCertCustomFields (cctp env) sidechain cert then retL INVALID
         else let ret = CheckEndEpochCumScTxCommTreeRoot env sidechain (epochNumber cert) (endEpochCumScTxCommTreeRoot cert) in
         if ret \<noteq> OK then retL ret
         else bindL (onCache (\<lambda>v. CheckQuality v cert)) (\<lambda>good_quality.
         if \<not> good_quality then retL INVALID
         else let bwtTotalAmount = GetValueOfBackwardTransfers cert;
                  scBalance = (if epochNumber cert = lastTopQualityCertReferencedEpoch sidechain
                               then balance sidechain + lastTopQualityCertBwtAmount sidechain else balance sidechain)
              in if bwtTotalAmount > scBalance then retL INSUFFICIENT_SCID_FUNDS
                 else if length (wCertVk (fixedParams sidechain)) + length (cert_scProof cert) > MAX_PROOF_PLUS_VK_SIZE then retL INVALID
                 else retL OK)))"

section \<open>Transactions\<close>

definition CheckScTxTiming :: "ChainEnv \<Rightarrow> uint256 \<Rightarrow> bool look" where
  "CheckScTxTiming env scId = bindL (GetSidechainState env scId) (\<lambda>s. retL (\<not> (s \<noteq> ALIVE \<and> s \<noteq> UNCONFIRMED)))"

definition IsFtScFeeApplicable :: "ChainEnv \<Rightarrow> CTxForwardTransferOut \<Rightarrow> bool look" where
  "IsFtScFeeApplicable env ft = bindL (GetActiveCertView env (ft_scId ft)) (\<lambda>cv. retL (ft_nValue ft > view_forwardTransferScFee cv))"

definition CheckMinimumFtScFee :: "ChainEnv \<Rightarrow> CTxForwardTransferOut \<Rightarrow> bool look" where
  "CheckMinimumFtScFee env ft = bindL (onCache (\<lambda>v. AccessSidechain v (ft_scId ft))) (\<lambda>r.
     case r of None \<Rightarrow> retL False
     | Some sc \<Rightarrow> bindL (GetSidechainState env (ft_scId ft)) (\<lambda>s.
         if s \<noteq> ALIVE then retL False
         else (case GetMinFtScFee sc of Inl e \<Rightarrow> failL e | Inr minVal \<Rightarrow> retL (ft_nValue ft > minVal))))"

definition IsMbtrScFeeApplicable :: "ChainEnv \<Rightarrow> CBwtRequestOut \<Rightarrow> bool look" where
  "IsMbtrScFeeApplicable env mbtr = bindL (GetActiveCertView env (mbtr_scId mbtr)) (\<lambda>cv. retL (scFee mbtr \<ge> view_mbtrScFee cv))"

definition CheckMinimumMbtrScFee :: "ChainEnv \<Rightarrow> CBwtRequestOut \<Rightarrow> bool look" where
  "CheckMinimumMbtrScFee env mbtr = bindL (onCache (\<lambda>v. AccessSidechain v (mbtr_scId mbtr))) (\<lambda>r.
     case r of None \<Rightarrow> retL False
     | Some sc \<Rightarrow> bindL (GetSidechainState env (mbtr_scId mbtr)) (\<lambda>s.
         if s \<noteq> ALIVE then retL False
         else (case GetMinMbtrScFee sc of Inl e \<Rightarrow> failL e | Inr minVal \<Rightarrow> retL (scFee mbtr \<ge> minVal))))"

definition applicable_creation :: "CTxScCreationOut \<Rightarrow> Code look" where
  "applicable_creation sc = bindL (onCache (\<lambda>v. HaveSidechain v (generatedScId sc))) (\<lambda>have_it. if have_it then retL INVALID else retL OK)"

definition applicable_ft :: "ChainEnv \<Rightarrow> ScFeeCheckFlag \<Rightarrow> CTxForwardTransferOut \<Rightarrow> Code look" where
  "applicable_ft env scFeeCheckType ft = bindL (CheckScTxTiming env (ft_scId ft)) (\<lambda>timely.
     if \<not> timely then retL INVALID
     else bindL (IsFtScFeeApplicable env ft) (\<lambda>ok.
       if ok then retL OK
       else if scFeeCheckType = MINIMUM_IN_A_RANGE
       then bindL (CheckMinimumFtScFee env ft) (\<lambda>ok. if \<not> ok then retL INVALID else retL OK)
       else retL INVALID))"

definition applicable_mbtr :: "ChainEnv \<Rightarrow> ScFeeCheckFlag \<Rightarrow> CBwtRequestOut \<Rightarrow> Code look" where
  "applicable_mbtr env scFeeCheckType mbtr = bindL (CheckScTxTiming env (mbtr_scId mbtr)) (\<lambda>timely.
     if \<not> timely then retL INVALID
     else bindL (onCache (\<lambda>v. CacheGetSidechain v (mbtr_scId mbtr))) (\<lambda>r.
       case r of None \<Rightarrow> retL INVALID
       | Some sidechain \<Rightarrow>
           if length (vScRequestData mbtr) \<noteq> unat (mainchainBackwardTransferRequestDataLength (fixedParams sidechain)) then retL INVALID
           else if mainchainBackwardTransferRequestDataLength (fixedParams sidechain) = 0 then retL INVALID
           else bindL (IsMbtrScFeeApplicable env mbtr) (\<lambda>ok.
             if ok then retL OK
             else if scFeeCheckType = MINIMUM_IN_A_RANGE
             then bindL (CheckMinimumMbtrScFee env mbtr) (\<lambda>ok. if \<not> ok then retL INVALID else retL OK)
             else retL INVALID)))"

text \<open>\<open>tot\<close> is the map \<open>cswTotalBalances\<close>, with zero for the sidechains it does not have.\<close>

fun applicable_csws :: "ChainEnv \<Rightarrow> (uint256 \<Rightarrow> CAmount) \<Rightarrow> CTxCeasedSidechainWithdrawalInput list \<Rightarrow> Code look" where
  "applicable_csws env tot [] = retL OK"
| "applicable_csws env tot (csw # ws) = bindL (onCache (\<lambda>v. CacheGetSidechain v (csw_scId csw))) (\<lambda>r.
     case r of None \<Rightarrow> retL SCID_NOT_FOUND
     | Some sidechain \<Rightarrow>
         bindL (GetSidechainState env (csw_scId csw)) (\<lambda>s.
         if s \<noteq> CEASED then retL INVALID
         else (case wCeasedVk (fixedParams sidechain) of None \<Rightarrow> retL INVALID
           | Some vk \<Rightarrow>
               if length vk + length (csw_scProof csw) > MAX_PROOF_PLUS_VK_SIZE then retL INVALID
               else let tot = tot(csw_scId csw := tot (csw_scId csw) + csw_nValue csw) in
               if tot (csw_scId csw) > balance sidechain then retL INSUFFICIENT_SCID_FUNDS
               else bindL (onView (\<lambda>w. HaveCswNullifier w (csw_scId csw, nullifier csw))) (\<lambda>used.
               if used then retL INVALID
               else bindL (GetActiveCertView env (csw_scId csw)) (\<lambda>certView.
               if certDataHash certView \<noteq> actCertDataHash csw then retL ACTIVE_CERT_DATA_HASH
               else bindL (GetCeasingCumTreeHash env (csw_scId csw)) (\<lambda>cum.
               if cum \<noteq> ceasingCumScTxCommTree csw then retL SC_CUM_COMM_TREE
               else applicable_csws env tot ws))))))"

definition thenL :: "Code look \<Rightarrow> Code look \<Rightarrow> Code look" where
  "thenL m k = bindL m (\<lambda>c. if c = OK then k else retL c)"

definition IsScTxApplicableToState :: "ChainEnv \<Rightarrow> CTransaction \<Rightarrow> ScFeeCheckFlag \<Rightarrow> Code look" where
  "IsScTxApplicableToState env tx scFeeCheckType =
     (if tx_IsCoinBase tx then retL OK
      else thenL (codeL applicable_creation (vsc_ccout tx))
          (thenL (codeL (applicable_ft env scFeeCheckType) (vft_ccout tx))
          (thenL (codeL (applicable_mbtr env scFeeCheckType) (vmbtr_out tx))
            (applicable_csws env (\<lambda>_. 0) (vcsw_ccin tx)))))"

section \<open>Inputs\<close>

definition HaveInput :: "CTxIn \<Rightarrow> bool look" where
  "HaveInput txin = bindL (onCache (\<lambda>v. AccessCoins v (op_hash (prevout txin)))) (\<lambda>coins.
     retL (case coins of None \<Rightarrow> False | Some c \<Rightarrow> IsAvailable c (unat (op_n (prevout txin)))))"

definition HaveInputs :: "bool \<Rightarrow> CTxIn list \<Rightarrow> bool look" where
  "HaveInputs isCoinBase vin = (if \<not> isCoinBase then allL HaveInput vin else retL True)"

definition GetOutputFor :: "CTxIn \<Rightarrow> CTxOut look" where
  "GetOutputFor input = bindL (onCache (\<lambda>v. AccessCoins v (op_hash (prevout input)))) (\<lambda>coins.
     case coins of None \<Rightarrow> failL Assert
     | Some c \<Rightarrow> if IsAvailable c (unat (op_n (prevout input))) then retL (vout c ! unat (op_n (prevout input))) else failL Assert)"

fun sumL :: "('a \<Rightarrow> CAmount look) \<Rightarrow> CAmount \<Rightarrow> 'a list \<Rightarrow> CAmount look" where
  "sumL f a [] = retL a"
| "sumL f a (x # xs) = bindL (f x) (\<lambda>y. sumL f (wrap64 (a + y)) xs)"

definition liftL :: "'a result \<Rightarrow> 'a look" where
  "liftL r = (case r of Inl e \<Rightarrow> failL e | Inr x \<Rightarrow> retL x)"

text \<open>\<open>joinSplitValueIn\<close> and \<open>cswValueIn\<close> are the two virtual calls on the transaction or certificate.\<close>

definition GetValueIn :: "bool \<Rightarrow> CTxIn list \<Rightarrow> CAmount result \<Rightarrow> CAmount result \<Rightarrow> CAmount look" where
  "GetValueIn isCoinBase vin joinSplitValueIn cswValueIn =
     (if isCoinBase then retL 0
      else bindL (sumL (\<lambda>txin. bindL (GetOutputFor txin) (\<lambda>out. retL (nValue out))) 0 vin) (\<lambda>nResult.
           bindL (liftL joinSplitValueIn) (\<lambda>a. bindL (liftL cswValueIn) (\<lambda>b. retL (wrap64 (nResult + wrap64 (a + b)))))))"

text \<open>\<open>intermediates\<close> maps roots to trees; \<open>insert\<close> keeps an entry that is there. \<open>cmb\<close> and \<open>u\<close> are the hash and the uncommitted leaf of the tree.\<close>

fun joinsplit_requirements ::
  "hasher \<Rightarrow> uint256 \<Rightarrow> (uint256 \<rightharpoonup> ZCIncrementalMerkleTree) \<Rightarrow> JSDescription list \<Rightarrow> bool look" where
  "joinsplit_requirements cmb u intermediates [] = retL True"
| "joinsplit_requirements cmb u intermediates (js # jss) =
     bindL (allL (\<lambda>nf. bindL (onView (\<lambda>w. GetNullifier w nf)) (\<lambda>spent. retL (\<not> spent))) (js_nullifiers js)) (\<lambda>unspent.
       if \<not> unspent then retL False
       else bindL (case intermediates (anchor js) of Some t \<Rightarrow> retL (Some t) | None \<Rightarrow> onView (\<lambda>w. GetAnchorAt w (anchor js))) (\<lambda>r.
         case r of None \<Rightarrow> retL False
         | Some tree \<Rightarrow> (case foldR (\<lambda>t c. mt_append cmb INCREMENTAL_MERKLE_TREE_DEPTH c t) tree (commitments js) of
               Inl e \<Rightarrow> failL e
             | Inr tree \<Rightarrow> let rt = mt_root cmb u INCREMENTAL_MERKLE_TREE_DEPTH [] tree in
                 joinsplit_requirements cmb u (if intermediates rt = None then intermediates(rt \<mapsto> tree) else intermediates) jss)))"

definition HaveJoinSplitRequirements :: "hasher \<Rightarrow> uint256 \<Rightarrow> JSDescription list \<Rightarrow> bool look" where
  "HaveJoinSplitRequirements cmb u vjs = joinsplit_requirements cmb u Map.empty vjs"

section \<open>What a check computes from the ledger\<close>

definition looks :: "(Ledger \<Rightarrow> bool) \<Rightarrow> 'a look \<Rightarrow> (Ledger \<Rightarrow> 'a result) \<Rightarrow> bool" where
  "looks P f g \<longleftrightarrow> (\<forall>v. no_erased v \<longrightarrow> P (ledger v) \<longrightarrow>
     (case g (ledger v) of Inl e \<Rightarrow> f v = Inl e | Inr x \<Rightarrow> \<exists>v'. f v = Inr (v', x) \<and> reads v v'))"

named_theorems looks_intros \<open>how lookups compose\<close>

lemma reads_no_erased: "reads v v' \<Longrightarrow> no_erased v \<Longrightarrow> no_erased v'"
  using keeps_no_erased [OF reads_keeps] .

lemma looks_Inr: "looks P f g \<Longrightarrow> no_erased v \<Longrightarrow> P (ledger v) \<Longrightarrow> f v = Inr (v', x) \<Longrightarrow> g (ledger v) = Inr x \<and> reads v v'"
  unfolding looks_def by (fastforce split: sum.splits)

lemma looks_ok: "looks P f g \<Longrightarrow> no_erased v \<Longrightarrow> P (ledger v) \<Longrightarrow> g (ledger v) = Inr x \<Longrightarrow> \<exists>v'. f v = Inr (v', x) \<and> reads v v'"
  unfolding looks_def by (fastforce split: sum.splits)

lemma looks_err: "looks P f g \<Longrightarrow> no_erased v \<Longrightarrow> P (ledger v) \<Longrightarrow> g (ledger v) = Inl e \<Longrightarrow> f v = Inl e"
  unfolding looks_def by (fastforce split: sum.splits)

lemma looks_cong: "looks P f g \<Longrightarrow> (\<And>L. P L \<Longrightarrow> g L = g' L) \<Longrightarrow> looks P f g'"
  unfolding looks_def by simp

lemma looks_ret [looks_intros]: "looks P (retL x) (\<lambda>_. Inr x)"
  by (auto simp: looks_def retL_def)

lemma looks_fail [looks_intros]: "looks P (failL e) (\<lambda>_. Inl e)"
  by (simp add: looks_def failL_def)

lemma looks_bind [looks_intros]:
  assumes "looks P m g" "\<And>x. looks P (k x) (h x)"
  shows "looks P (bindL m k) (\<lambda>L. bindR (g L) (\<lambda>x. h x L))"
  unfolding looks_def
proof (intro allI impI)
  fix v
  assume v: "no_erased v" "P (ledger v)"
  show "case bindR (g (ledger v)) (\<lambda>x. h x (ledger v)) of Inl e \<Rightarrow> bindL m k v = Inl e
    | Inr x \<Rightarrow> \<exists>v'. bindL m k v = Inr (v', x) \<and> reads v v'"
  proof (cases "g (ledger v)")
    case (Inl e)
    then show ?thesis using looks_err [OF assms(1) v Inl] by (simp add: bindL_def)
  next
    case (Inr x)
    obtain v1 where v1: "m v = Inr (v1, x)" "reads v v1" using looks_ok [OF assms(1) v Inr] by blast
    have l: "ledger v1 = ledger v" "no_erased v1" using reads_ledger [OF v1(2)] reads_no_erased [OF v1(2) v(1)] by simp_all
    show ?thesis
    proof (cases "h x (ledger v)")
      case (Inl e)
      then have "h x (ledger v1) = Inl e" "P (ledger v1)" using l v(2) by simp_all
      then have "k x v1 = Inl e" using looks_err [OF assms(2) l(2)] by blast
      then show ?thesis using \<open>g (ledger v) = Inr x\<close> Inl v1 by (simp add: bindL_def)
    next
      case (Inr y)
      then have "h x (ledger v1) = Inr y" "P (ledger v1)" using l v(2) by simp_all
      then obtain v2 where "k x v1 = Inr (v2, y)" "reads v1 v2" using looks_ok [OF assms(2) l(2)] by blast
      then show ?thesis using \<open>g (ledger v) = Inr x\<close> Inr v1 reads_trans [OF v1(2)] by (auto simp: bindL_def)
    qed
  qed
qed

lemma looks_if [looks_intros]: "(b \<Longrightarrow> looks P f g) \<Longrightarrow> (\<not> b \<Longrightarrow> looks P f' g') \<Longrightarrow> looks P (if b then f else f') (\<lambda>L. if b then g L else g' L)"
  by simp

lemma looks_option [looks_intros]:
  "looks P f g \<Longrightarrow> (\<And>x. looks P (f' x) (g' x)) \<Longrightarrow> looks P (case r of None \<Rightarrow> f | Some x \<Rightarrow> f' x) (\<lambda>L. case r of None \<Rightarrow> g L | Some x \<Rightarrow> g' x L)"
  by (cases r) simp_all

lemma looks_sum [looks_intros]:
  "(\<And>x. looks P (f x) (g x)) \<Longrightarrow> (\<And>x. looks P (f' x) (g' x)) \<Longrightarrow> looks P (case r of Inl x \<Rightarrow> f x | Inr x \<Rightarrow> f' x) (\<lambda>L. case r of Inl x \<Rightarrow> g x L | Inr x \<Rightarrow> g' x L)"
  by (cases r) simp_all

lemma looks_let [looks_intros]: "(\<And>x. looks P (f x) (g x)) \<Longrightarrow> looks P (let x = t in f x) (\<lambda>L. let x = t in g x L)"
  by (simp add: Let_def)

lemma looks_onCache: "(\<And>v v' r. no_erased v \<Longrightarrow> f v = (v', r) \<Longrightarrow> r = g (ledger v) \<and> reads v v') \<Longrightarrow> looks P (onCache f) (\<lambda>L. Inr (g L))"
  unfolding looks_def onCache_def
proof (intro allI impI)
  fix v
  assume f: "\<And>v v' r. no_erased v \<Longrightarrow> f v = (v', r) \<Longrightarrow> r = g (ledger v) \<and> reads v v'" and n: "no_erased v"
  obtain v' r where "f v = (v', r)" by fastforce
  then show "case Inr (g (ledger v)) of Inl e \<Rightarrow> Inr (f v) = Inl e | Inr x \<Rightarrow> \<exists>v'. Inr (f v) = Inr (v', x) \<and> reads v v'"
    using f [OF n] by simp
qed

lemma looks_onView: "(\<And>v. \<exists>c b. f (vw v) = (CacheView c b, g (ledger v)) \<and> reads v (c, b)) \<Longrightarrow> looks P (onView f) (\<lambda>L. Inr (g L))"
  unfolding looks_def onView_def
proof (intro allI impI)
  fix v
  assume f: "\<And>v. \<exists>c b. f (vw v) = (CacheView c b, g (ledger v)) \<and> reads v (c, b)"
  obtain c b where "f (vw v) = (CacheView c b, g (ledger v))" "reads v (c, b)" using f by blast
  then show "case Inr (g (ledger v)) of Inl e \<Rightarrow> (case f (vw v) of (CacheView c b, r) \<Rightarrow> Inr ((c, b), r) | (DBView d, r) \<Rightarrow> Inl Undefined) = Inl e
    | Inr x \<Rightarrow> \<exists>v'. (case f (vw v) of (CacheView c b, r) \<Rightarrow> Inr ((c, b), r) | (DBView d, r) \<Rightarrow> Inl Undefined) = Inr (v', x) \<and> reads v v'" by simp
qed

lemma looks_getSc [looks_intros]: "looks P (onCache (\<lambda>v. CacheGetSidechain v k)) (\<lambda>L. Inr (l_sc L k))"
  by (rule looks_onCache) (use CacheGetSidechain_reads in blast)

lemma looks_haveSc [looks_intros]: "looks P (onCache (\<lambda>v. HaveSidechain v k)) (\<lambda>L. Inr (l_sc L k \<noteq> None))"
  by (rule looks_onCache) (use HaveSidechain_reads in blast)

lemma looks_accessSc [looks_intros]: "looks P (onCache (\<lambda>v. AccessSidechain v k)) (\<lambda>L. Inr (l_sc L k))"
proof (rule looks_onCache)
  fix v v' r
  assume n: "no_erased v" and a: "AccessSidechain v k = (v', r)"
  obtain x where x: "FetchSidechains v k = (v', x)" "r = map_option me_content x" using a by (auto simp: AccessSidechain_def split: prod.splits)
  then have "CacheGetSidechain v k = (v', Option.bind x me_live)" by (simp add: CacheGetSidechain_def)
  note R = CacheGetSidechain_reads [OF this]
  have "Option.bind x me_live = map_option me_content x"
  proof (cases x)
    case (Some e)
    have "sc_entry v' k = Some e" using x(1) Some
      by (cases v) (auto simp: FetchSidechains_def fetch_sidechains_def fetch_mutable_def sc_entry_def Let_def split: option.splits prod.splits)
    then have "me_flag e \<noteq> ERASED" using reads_no_erased [OF R(2) n] by (simp add: no_erased_def)
    then show ?thesis using Some by (simp add: me_live_def)
  qed simp
  then show "r = l_sc (ledger v) k \<and> reads v v'" using R x(2) by (simp del: ledger_sel)
qed

definition quality_ok :: "CScCertificate \<Rightarrow> CSidechain option \<Rightarrow> bool" where
  "quality_ok cert r = (case r of None \<Rightarrow> True
     | Some info \<Rightarrow> lastTopQualityCertHash info = cert_hash cert \<or> lastTopQualityCertReferencedEpoch info \<noteq> epochNumber cert
         \<or> lastTopQualityCertQuality info < quality cert)"

lemma looks_quality [looks_intros]: "looks P (onCache (\<lambda>v. CheckQuality v cert)) (\<lambda>L. Inr (quality_ok cert (l_sc L (cert_scId cert))))"
proof (rule looks_onCache)
  fix v v' r
  assume a: "CheckQuality v cert = (v', r)"
  obtain x where x: "CacheGetSidechain v (cert_scId cert) = (v', x)" "r = quality_ok cert x"
    using a by (auto simp: CheckQuality_def CacheGetSidechain_def quality_ok_def split: prod.splits option.splits)
  show "r = quality_ok cert (l_sc (ledger v) (cert_scId cert)) \<and> reads v v'" using CacheGetSidechain_reads [OF x(1)] x(2) by simp
qed

lemma GetBestBlock_reads: "\<exists>c b. GetBestBlock (vw v) = (CacheView c b, l_best (ledger v)) \<and> reads v (c, b)"
proof -
  obtain c b where v: "v = (c, b)" by (cases v)
  obtain w r where w: "GetBestBlock (vw v) = (w, r)" by fastforce
  obtain c' b' where c': "w = CacheView c' b'" "cacheSidechains c' = cacheSidechains c" "cacheSidechainEvents c' = cacheSidechainEvents c" "cacheCswNullifiers c' = cacheCswNullifiers c"
    using w v by (auto split: if_splits prod.splits)
  have G: "r = l_best (ledger v)" "refines_view (vw v) w" using best_lookup.get_eq [OF w] by simp_all
  have "reads v (c', b')" using G(2) c' v by (simp add: reads_def erased_mono_def sc_entry_def ev_entry_def csw_entry_def)
  then show ?thesis using w c'(1) G(1) by blast
qed

lemma looks_best [looks_intros]: "looks P (onView GetBestBlock) (\<lambda>L. Inr (l_best L))"
  by (rule looks_onView) (rule GetBestBlock_reads)

lemma looks_csw [looks_intros]: "looks P (onView (\<lambda>w. HaveCswNullifier w k)) (\<lambda>L. Inr (l_csw L k))"
proof (rule looks_onView)
  fix v :: CCoinsViewCache
  obtain c' b' where "HaveCswNullifier (vw v) k = (CacheView c' b', l_csw (ledger v) k)" "reads v (c', b')" by (rule HaveCswNullifier_reads)
  then show "\<exists>c b. HaveCswNullifier (vw v) k = (CacheView c b, l_csw (ledger v) k) \<and> reads v (c, b)" by blast
qed

section \<open>The checks on the ledger\<close>

definition at_height :: "ChainEnv \<Rightarrow> int \<Rightarrow> Ledger \<Rightarrow> bool" where
  "at_height env H L \<longleftrightarrow> mapBlockIndex env (l_best L) = Some H"

definition state_of :: "int \<Rightarrow> CSidechain option \<Rightarrow> State" where
  "state_of H r = (case r of None \<Rightarrow> NOT_APPLICABLE
     | Some sc \<Rightarrow> if \<not> isCreationConfirmed sc then UNCONFIRMED else if GetScheduledCeasingHeight sc \<le> H then CEASED else ALIVE)"

lemma looks_height [looks_intros]: "looks (at_height env H) (GetHeight env) (\<lambda>_. Inr H)"
  unfolding GetHeight_def by (rule looks_cong, (rule looks_intros)+) (simp add: at_height_def)

lemma looks_state [looks_intros]: "looks (at_height env H) (GetSidechainState env k) (\<lambda>L. Inr (state_of H (l_sc L k)))"
  unfolding GetSidechainState_def by (rule looks_cong, (rule looks_intros)+) (simp add: state_of_def split: option.splits)

definition active_view :: "int \<Rightarrow> CSidechain option \<Rightarrow> CScCertificateView result" where
  "active_view H r = (case r of None \<Rightarrow> Inr certView_null
     | Some sc \<Rightarrow> if state_of H r = CEASED then Inr (pastEpochTopQualityCertView sc)
         else if state_of H r = UNCONFIRMED then Inr (lastTopQualityCertView sc)
         else let e = EpochFor sc (H + 1 - GetCertSubmissionWindowLength sc) - 1 in
           if lastTopQualityCertReferencedEpoch sc = e then Inr (lastTopQualityCertView sc)
           else if lastTopQualityCertReferencedEpoch sc - 1 = e then Inr (pastEpochTopQualityCertView sc) else Inl Assert)"

lemma looks_active [looks_intros]: "looks (at_height env H) (GetActiveCertView env k) (\<lambda>L. active_view H (l_sc L k))"
  unfolding GetActiveCertView_def by (rule looks_cong, (rule looks_intros)+) (simp add: active_view_def Let_def split: option.splits)

definition ceasing_hash :: "ChainEnv \<Rightarrow> CSidechain option \<Rightarrow> CFieldElement" where
  "ceasing_hash env r = (case Option.bind r (\<lambda>sc. chainActive env (GetScheduledCeasingHeight sc)) of None \<Rightarrow> [] | Some x \<Rightarrow> x)"

lemma looks_ceasing_hash [looks_intros]: "looks P (GetCeasingCumTreeHash env k) (\<lambda>L. Inr (ceasing_hash env (l_sc L k)))"
  unfolding GetCeasingCumTreeHash_def sc_GetCeasingCumTreeHash_def
  by (rule looks_cong, (rule looks_intros)+) (simp add: ceasing_hash_def split: option.splits)

text \<open>A certificate of the epoch that follows that of the last one, or of the same epoch, inside its window.\<close>

definition timely :: "int \<Rightarrow> CSidechain option \<Rightarrow> int \<Rightarrow> bool" where
  "timely H r e \<longleftrightarrow> state_of H r = ALIVE \<and> (\<exists>sc. r = Some sc \<and> e \<in> {lastTopQualityCertReferencedEpoch sc, lastTopQualityCertReferencedEpoch sc + 1}
     \<and> GetCertSubmissionWindowStart sc e \<le> H + 1 \<and> H + 1 \<le> GetCertSubmissionWindowEnd sc e)"

lemma looks_timing [looks_intros]: "looks (at_height env H) (CheckCertTiming env k e) (\<lambda>L. Inr (timely H (l_sc L k) e))"
  unfolding CheckCertTiming_def by (rule looks_cong, (rule looks_intros)+) (auto simp: timely_def Let_def split: option.splits)

definition cert_code :: "ChainEnv \<Rightarrow> int \<Rightarrow> CScCertificate \<Rightarrow> CSidechain option \<Rightarrow> Code" where
  "cert_code env H cert r = (case r of None \<Rightarrow> SCID_NOT_FOUND
     | Some sc \<Rightarrow>
         if \<not> timely H r (epochNumber cert) \<or> \<not> checkCertCustomFields (cctp env) sc cert then INVALID
         else let ret = CheckEndEpochCumScTxCommTreeRoot env sc (epochNumber cert) (endEpochCumScTxCommTreeRoot cert) in
         if ret \<noteq> OK then ret
         else if \<not> quality_ok cert r then INVALID
         else if GetValueOfBackwardTransfers cert > balance sc + (if epochNumber cert = lastTopQualityCertReferencedEpoch sc then lastTopQualityCertBwtAmount sc else 0)
         then INSUFFICIENT_SCID_FUNDS
         else if length (wCertVk (fixedParams sc)) + length (cert_scProof cert) > MAX_PROOF_PLUS_VK_SIZE then INVALID else OK)"

lemma looks_cert: "looks (at_height env H) (IsCertApplicableToState env cert) (\<lambda>L. Inr (cert_code env H cert (l_sc L (cert_scId cert))))"
  unfolding IsCertApplicableToState_def by (rule looks_cong, (rule looks_intros)+) (auto simp: cert_code_def Let_def split: option.splits)

definition fee_check :: "CAmount result \<Rightarrow> (CAmount \<Rightarrow> bool) \<Rightarrow> ScFeeCheckFlag \<Rightarrow> State \<Rightarrow> CAmount result \<Rightarrow> Code result" where
  "fee_check act paid flag st least = bindR act (\<lambda>fee. if paid fee then Inr OK
     else if flag = MINIMUM_IN_A_RANGE \<and> st = ALIVE then bindR least (\<lambda>m. Inr (if paid m then OK else INVALID)) else Inr INVALID)"

definition ft_code :: "int \<Rightarrow> ScFeeCheckFlag \<Rightarrow> CTxForwardTransferOut \<Rightarrow> CSidechain option \<Rightarrow> Code result" where
  "ft_code H flag ft r = (if state_of H r \<notin> {ALIVE, UNCONFIRMED} then Inr INVALID
     else fee_check (bindR (active_view H r) (\<lambda>cv. Inr (view_forwardTransferScFee cv))) (\<lambda>fee. ft_nValue ft > fee) flag
       (state_of H r) (GetMinFtScFee (the r)))"

definition mbtr_code :: "int \<Rightarrow> ScFeeCheckFlag \<Rightarrow> CBwtRequestOut \<Rightarrow> CSidechain option \<Rightarrow> Code result" where
  "mbtr_code H flag m r = (if state_of H r \<notin> {ALIVE, UNCONFIRMED} then Inr INVALID
     else let n = mainchainBackwardTransferRequestDataLength (fixedParams (the r)) in
     if length (vScRequestData m) \<noteq> unat n \<or> n = 0 then Inr INVALID
     else fee_check (bindR (active_view H r) (\<lambda>cv. Inr (view_mbtrScFee cv))) (\<lambda>fee. scFee m \<ge> fee) flag
       (state_of H r) (GetMinMbtrScFee (the r)))"

fun csw_code :: "ChainEnv \<Rightarrow> int \<Rightarrow> (uint256 \<Rightarrow> CAmount) \<Rightarrow> CTxCeasedSidechainWithdrawalInput list \<Rightarrow> Ledger \<Rightarrow> Code result" where
  "csw_code env H tot [] L = Inr OK"
| "csw_code env H tot (w # ws) L = (let k = csw_scId w; r = l_sc L k in
     case r of None \<Rightarrow> Inr SCID_NOT_FOUND
     | Some sc \<Rightarrow>
         if state_of H r \<noteq> CEASED then Inr INVALID
         else (case wCeasedVk (fixedParams sc) of None \<Rightarrow> Inr INVALID
           | Some vk \<Rightarrow>
               if length vk + length (csw_scProof w) > MAX_PROOF_PLUS_VK_SIZE then Inr INVALID
               else if tot k + csw_nValue w > balance sc then Inr INSUFFICIENT_SCID_FUNDS
               else if l_csw L (k, nullifier w) then Inr INVALID
               else bindR (active_view H r) (\<lambda>cv.
               if certDataHash cv \<noteq> actCertDataHash w then Inr ACTIVE_CERT_DATA_HASH
               else if ceasing_hash env r \<noteq> ceasingCumScTxCommTree w then Inr SC_CUM_COMM_TREE
               else csw_code env H (tot(k := tot k + csw_nValue w)) ws L)))"

fun codes :: "('a \<Rightarrow> Code result) \<Rightarrow> 'a list \<Rightarrow> Code result" where
  "codes f [] = Inr OK"
| "codes f (x # xs) = bindR (f x) (\<lambda>c. if c = OK then codes f xs else Inr c)"

definition thenR :: "Code result \<Rightarrow> Code result \<Rightarrow> Code result" where
  "thenR a b = bindR a (\<lambda>c. if c = OK then b else Inr c)"

definition tx_code :: "ChainEnv \<Rightarrow> int \<Rightarrow> ScFeeCheckFlag \<Rightarrow> CTransaction \<Rightarrow> Ledger \<Rightarrow> Code result" where
  "tx_code env H flag tx L = (if tx_IsCoinBase tx then Inr OK
     else thenR (codes (\<lambda>cr. Inr (if l_sc L (generatedScId cr) \<noteq> None then INVALID else OK)) (vsc_ccout tx))
         (thenR (codes (\<lambda>ft. ft_code H flag ft (l_sc L (ft_scId ft))) (vft_ccout tx))
         (thenR (codes (\<lambda>m. mbtr_code H flag m (l_sc L (mbtr_scId m))) (vmbtr_out tx))
           (csw_code env H (\<lambda>_. 0) (vcsw_ccin tx) L))))"

lemma looks_codeL: "(\<And>x. looks P (p x) (g x)) \<Longrightarrow> looks P (codeL p xs) (\<lambda>L. codes (\<lambda>x. g x L) xs)"
proof (induction xs)
  case (Cons x xs)
  show ?case unfolding codeL.simps codes.simps by (rule looks_intros Cons)+
qed (simp add: looks_intros)

lemma looks_thenL: "looks P m g \<Longrightarrow> looks P k h \<Longrightarrow> looks P (thenL m k) (\<lambda>L. thenR (g L) (h L))"
  unfolding thenL_def thenR_def by (rule looks_intros | assumption)+

lemma looks_creation: "looks P (applicable_creation cr) (\<lambda>L. Inr (if l_sc L (generatedScId cr) \<noteq> None then INVALID else OK))"
  unfolding applicable_creation_def by (rule looks_cong, (rule looks_intros)+) simp

lemma state_of_the: "state_of H r \<in> {ALIVE, UNCONFIRMED} \<Longrightarrow> r = Some (the r)"
  by (auto simp: state_of_def split: option.splits)

lemma looks_ft: "looks (at_height env H) (applicable_ft env flag ft) (\<lambda>L. ft_code H flag ft (l_sc L (ft_scId ft)))"
  unfolding applicable_ft_def CheckScTxTiming_def IsFtScFeeApplicable_def CheckMinimumFtScFee_def
proof (rule looks_cong, (rule looks_intros)+, goal_cases)
  case (1 L)
  show ?case
  proof (cases "state_of H (l_sc L (ft_scId ft)) \<in> {ALIVE, UNCONFIRMED}")
    case True
    then obtain sc where sc: "l_sc L (ft_scId ft) = Some sc" using state_of_the by blast
    show ?thesis using True unfolding sc
      by (cases "active_view H (Some sc)") (auto simp: ft_code_def fee_check_def bindR_def split: sum.splits)
  qed (auto simp: ft_code_def)
qed

lemma looks_mbtr: "looks (at_height env H) (applicable_mbtr env flag m) (\<lambda>L. mbtr_code H flag m (l_sc L (mbtr_scId m)))"
  unfolding applicable_mbtr_def CheckScTxTiming_def IsMbtrScFeeApplicable_def CheckMinimumMbtrScFee_def
proof (rule looks_cong, (rule looks_intros)+, goal_cases)
  case (1 L)
  show ?case
  proof (cases "state_of H (l_sc L (mbtr_scId m)) \<in> {ALIVE, UNCONFIRMED}")
    case True
    then obtain sc where sc: "l_sc L (mbtr_scId m) = Some sc" using state_of_the by blast
    show ?thesis using True unfolding sc
      by (cases "active_view H (Some sc)") (auto simp: mbtr_code_def fee_check_def bindR_def split: sum.splits)
  qed (auto simp: mbtr_code_def)
qed

lemma looks_csws: "looks (at_height env H) (applicable_csws env tot ws) (csw_code env H tot ws)"
proof (induction ws arbitrary: tot)
  case (Cons w ws)
  show ?case unfolding applicable_csws.simps
    by (rule looks_cong, (rule looks_intros Cons)+) (auto simp: Let_def cong: if_cong split: option.splits)
next
  case Nil
  have "csw_code env H tot [] = (\<lambda>_. Inr OK)" by (simp add: fun_eq_iff)
  then show ?case by (simp add: looks_intros)
qed

lemma looks_tx: "looks (at_height env H) (IsScTxApplicableToState env tx flag) (tx_code env H flag tx)"
  unfolding IsScTxApplicableToState_def
  by (rule looks_cong, (rule looks_intros looks_thenL looks_codeL looks_creation looks_ft looks_mbtr looks_csws)+) (simp add: tx_code_def)

end
