(* ===== verification/Acceptance.thy ===== *)
theory Acceptance
  imports Applicability
begin

text \<open>
  What acceptance by a chain state means: which certificate view is the active one, exactly which certificates
  are accepted, and that what has been accepted can be applied to the sidechains.
\<close>

section \<open>The active certificate\<close>

lemma div_bounds:
  fixes y L :: int
  assumes "0 < L" shows "y div L * L \<le> y" "y < (y div L + 1) * L"
proof -
  define q r where "q = y div L" and "r = y mod L"
  have "q * L + r = y" "0 \<le> r" "r < L" using assms by (simp_all add: q_def r_def)
  then show "y div L * L \<le> y" "y < (y div L + 1) * L" unfolding q_def [symmetric] distrib_right by simp_all
qed

lemma active_epoch:
  assumes c: "isCreationConfirmed sc" and L: "2 \<le> epochLen sc" and l: "- 1 \<le> lastTopQualityCertReferencedEpoch sc"
    and w: "GetCertSubmissionWindowStart sc (lastTopQualityCertReferencedEpoch sc) \<le> H + 1" and H: "H < GetScheduledCeasingHeight sc"
    and n: "creationBlockHeight sc \<le> H \<or> 2 < epochLen sc"
  shows "EpochFor sc (H + 1 - GetCertSubmissionWindowLength sc) - 1 =
     (if 0 \<le> lastTopQualityCertReferencedEpoch sc \<and> H < GetCertSubmissionWindowEnd sc (lastTopQualityCertReferencedEpoch sc)
      then lastTopQualityCertReferencedEpoch sc - 1 else lastTopQualityCertReferencedEpoch sc)"
proof -
  let ?l = "lastTopQualityCertReferencedEpoch sc" and ?L = "epochLen sc" and ?w = "GetCertSubmissionWindowLength sc"
  let ?y = "H + 1 - ?w - creationBlockHeight sc"
  have wl: "2 \<le> ?w" "?w \<le> ?L" "2 < ?L \<Longrightarrow> ?w < ?L" using L by (auto simp: GetCertSubmissionWindowLength_eq)
  have E: "EpochFor sc (H + 1 - ?w) = ?y sdiv ?L" using c by (simp add: EpochFor_def algebra_simps)
  have s: "(?l + 1) * ?L - ?w \<le> ?y" using w c by (simp add: GetCertSubmissionWindowStart_def GetStartHeightForEpoch_def algebra_simps)
  have e: "?y < (?l + 2) * ?L"
    using H c by (simp add: GetScheduledCeasingHeight_def GetCertSubmissionWindowEnd_def GetCertSubmissionWindowStart_def GetStartHeightForEpoch_def algebra_simps)
  have i: "H < GetCertSubmissionWindowEnd sc ?l \<longleftrightarrow> ?y < (?l + 1) * ?L"
    using c by (simp add: GetCertSubmissionWindowEnd_def GetCertSubmissionWindowStart_def GetStartHeightForEpoch_def algebra_simps)
  show ?thesis
  proof (cases "0 \<le> ?y")
    case True
    let ?q = "?y div ?L"
    have q: "?q * ?L \<le> ?y" "?y < (?q + 1) * ?L" using div_bounds [of ?L ?y] L by simp_all
    have "?q * ?L < (?l + 2) * ?L" "?l * ?L < (?q + 1) * ?L" using q e s wl by (simp_all add: algebra_simps)
    then have b: "?q < ?l + 2" "?l < ?q + 1" using L by (simp_all add: mult_less_cancel_right)
    have "?y < (?l + 1) * ?L \<longleftrightarrow> ?q < ?l + 1"
    proof
      assume "?y < (?l + 1) * ?L"
      then have "?q * ?L < (?l + 1) * ?L" using q by linarith
      then show "?q < ?l + 1" using L by (simp add: mult_less_cancel_right)
    next
      assume "?q < ?l + 1"
      then have "(?q + 1) * ?L \<le> (?l + 1) * ?L" using L by (intro mult_right_mono) auto
      then show "?y < (?l + 1) * ?L" using q by linarith
    qed
    moreover have "?l = - 1 \<Longrightarrow> \<not> ?q < ?l + 1" using b True L by (simp add: pos_imp_zdiv_nonneg_iff not_less)
    moreover have "?y sdiv ?L = ?q" using True L by (simp add: sdiv_nonneg)
    ultimately show ?thesis unfolding E i using b l by auto
  next
    case False
    have "?l = - 1"
    proof (rule ccontr)
      assume "?l \<noteq> - 1"
      then have "1 * ?L \<le> (?l + 1) * ?L" using l L by (intro mult_right_mono) auto
      then show False using False s wl(2) by linarith
    qed
    moreover have "- ?L < ?y" using n s wl \<open>?l = - 1\<close> by auto
    then have "?y sdiv ?L = 0" using False L by (simp add: signed_divide_int_def)
    ultimately show ?thesis unfolding E by simp
  qed
qed

text \<open>C18: asking for the active certificate of a confirmed sidechain never aborts, provided that the last
  certificate was included in the submission window of its epoch or later: the active certificate is the last one, but the
  one of the epoch before while the submission window of the last one is still open and once the sidechain has ceased.\<close>

theorem active_certificate:
  assumes v: "no_erased v" "at_height env H (ledger v)" and sc: "l_sc (ledger v) k = Some sc" "isCreationConfirmed sc" "2 \<le> epochLen sc"
    and l: "- 1 \<le> lastTopQualityCertReferencedEpoch sc" "GetCertSubmissionWindowStart sc (lastTopQualityCertReferencedEpoch sc) \<le> H + 1"
    and n: "creationBlockHeight sc \<le> H \<or> 2 < epochLen sc"
  shows "\<exists>v'. GetActiveCertView env k v = Inr (v',
      if GetScheduledCeasingHeight sc \<le> H \<or> 0 \<le> lastTopQualityCertReferencedEpoch sc \<and> H < GetCertSubmissionWindowEnd sc (lastTopQualityCertReferencedEpoch sc)
      then pastEpochTopQualityCertView sc else lastTopQualityCertView sc) \<and> reads v v'"
proof (rule looks_ok [OF looks_active v])
  show "active_view H (l_sc (ledger v) k) = Inr (
      if GetScheduledCeasingHeight sc \<le> H \<or> 0 \<le> lastTopQualityCertReferencedEpoch sc \<and> H < GetCertSubmissionWindowEnd sc (lastTopQualityCertReferencedEpoch sc)
      then pastEpochTopQualityCertView sc else lastTopQualityCertView sc)"
  proof (cases "GetScheduledCeasingHeight sc \<le> H")
    case False
    then have E: "EpochFor sc (H + 1 - GetCertSubmissionWindowLength sc) - 1 =
       (if 0 \<le> lastTopQualityCertReferencedEpoch sc \<and> H < GetCertSubmissionWindowEnd sc (lastTopQualityCertReferencedEpoch sc)
        then lastTopQualityCertReferencedEpoch sc - 1 else lastTopQualityCertReferencedEpoch sc)"
      by (intro active_epoch) (use sc l n in auto)
    show ?thesis unfolding sc(1) active_view_def Let_def option.case E using False sc(2) by (simp add: state_of_def)
  qed (use sc in \<open>simp add: active_view_def state_of_def del: ledger_sel\<close>)
qed

section \<open>Certificates\<close>


lemma cert_update_ok:
  assumes e: "epochNumber cert \<in> {lastTopQualityCertReferencedEpoch sc, lastTopQualityCertReferencedEpoch sc + 1}"
    and q: "lastTopQualityCertReferencedEpoch sc \<noteq> epochNumber cert \<or> lastTopQualityCertQuality sc < quality cert"
    and b: "GetValueOfBackwardTransfers cert \<le> balance sc + (if epochNumber cert = lastTopQualityCertReferencedEpoch sc then lastTopQualityCertBwtAmount sc else 0)"
    and m: "0 < maxSizeOfScFeesContainers sc"
  obtains sc' ud' where "cert_update dh cert sc ud = Inr (sc', ud')"
    "balance sc' = balance sc + (if epochNumber cert = lastTopQualityCertReferencedEpoch sc then lastTopQualityCertBwtAmount sc else 0) - GetValueOfBackwardTransfers cert"
proof (cases "epochNumber cert = lastTopQualityCertReferencedEpoch sc")
  case True
  then show thesis using that q b by (simp add: cert_update_def Let_def)
next
  case False
  obtain f where f: "UpdateScFees x (sc\<lparr>pastEpochTopQualityCertView := lastTopQualityCertView sc\<rparr>) = Inr (sc\<lparr>pastEpochTopQualityCertView := lastTopQualityCertView sc, scFees := f\<rparr>)"
    if "x = lastTopQualityCertView sc" for x using m by (simp add: UpdateScFees_def Let_def)
  show thesis using that False f e b by (simp add: cert_update_def Let_def)
qed

lemma scheduled_moved:
  assumes "scheduled C k sc" "a = GetScheduledCeasingHeight sc" "b = GetScheduledCeasingHeight sc'" "isCreationConfirmed sc'" "epochLen sc' = epochLen sc"
  shows "scheduled (moved k a b C) k sc'"
  using assms by (auto simp: scheduled_def moved_def Let_def)


section \<open>Transactions\<close>

abbreviation drained :: "(uint256 \<Rightarrow> CAmount) \<Rightarrow> (uint256 \<rightharpoonup> CSidechain) \<Rightarrow> uint256 \<rightharpoonup> CSidechain" where
  "drained tot S \<equiv> \<lambda>k. map_option (\<lambda>sc. sc\<lparr>balance := balance sc - tot k\<rparr>) (S k)"

definition withdrawn :: "CTxCeasedSidechainWithdrawalInput list \<Rightarrow> uint256 \<Rightarrow> CAmount" where
  "withdrawn ws k = sum_list (map csw_nValue (filter (\<lambda>w. csw_scId w = k) ws))"

lemma csw_code_applies:
  "csw_code env H tot ws L = Inr OK \<Longrightarrow>
   foldR spec_csw (drained tot (l_sc L), C) ws = Inr (drained (\<lambda>k. tot k + withdrawn ws k) (l_sc L), C)
   \<and> (\<forall>k sc. l_sc L k = Some sc \<longrightarrow> tot k \<le> balance sc \<longrightarrow> tot k + withdrawn ws k \<le> balance sc)"
proof (induction ws arbitrary: tot)
  case (Cons w ws)
  let ?k = "csw_scId w" and ?tot = "tot(csw_scId w := tot (csw_scId w) + csw_nValue w)"
  obtain sc where sc: "l_sc L ?k = Some sc" "tot ?k + csw_nValue w \<le> balance sc" "csw_code env H ?tot ws L = Inr OK"
    using Cons.prems by (auto simp: Let_def bindR_eq_Inr split: option.splits if_splits)
  have "spec_csw (drained tot (l_sc L), C) w = Inr (drained ?tot (l_sc L), C)"
    using sc(1,2) by (auto simp: spec_csw_def spec_sc_def spend_balance_def fun_eq_iff)
  moreover have t: "?tot k + withdrawn ws k = tot k + withdrawn (w # ws) k" for k by (simp add: withdrawn_def)
  ultimately have "foldR spec_csw (drained tot (l_sc L), C) (w # ws) = Inr (drained (\<lambda>k. tot k + withdrawn (w # ws) k) (l_sc L), C)"
    using Cons.IH [OF sc(3)] unfolding t by simp
  moreover have "tot k + withdrawn (w # ws) k \<le> balance x" if "l_sc L k = Some x" "tot k \<le> balance x" for k x
  proof -
    have "?tot k \<le> balance x" using that sc(1,2) by auto
    then have "?tot k + withdrawn ws k \<le> balance x" using Cons.IH [OF sc(3)] that(1) by blast
    then show ?thesis unfolding t .
  qed
  ultimately show ?case by blast
qed (simp add: withdrawn_def)

lemma created_sidechain_total:
  "0 < withdrawalEpochLength (cr_params cr) \<Longrightarrow> \<exists>sc. created_sidechain pr tx h mh cr CSidechain_null = Inr sc"
  by (simp add: created_sidechain_def InitScFees_def CSidechain_null_def getMaxSizeOfScFeesContainers_def Let_def)

lemma creations_apply:
  assumes "distinct (map generatedScId xs)" "\<forall>cr\<in>set xs. S (generatedScId cr) = None \<and> 0 < withdrawalEpochLength (cr_params cr)"
  shows "\<exists>S' C'. foldR (spec_create pr tx h mh) (S, C) xs = Inr (S', C') \<and> S \<subseteq>\<^sub>m S'"
  using assms
proof (induction xs arbitrary: S C)
  case (Cons cr xs)
  obtain sc where sc: "created_sidechain pr tx h mh cr CSidechain_null = Inr sc"
    using Cons.prems created_sidechain_total [of cr pr tx h mh] by auto
  let ?S = "S(generatedScId cr \<mapsto> sc)" and ?C = "C(GetScheduledCeasingHeight sc := insert (generatedScId cr) (C (GetScheduledCeasingHeight sc)))"
  have "\<forall>cr\<in>set xs. ?S (generatedScId cr) = None \<and> 0 < withdrawalEpochLength (cr_params cr)" using Cons.prems by (auto simp: image_iff)
  then obtain S' C' where "foldR (spec_create pr tx h mh) (?S, ?C) xs = Inr (S', C')" "?S \<subseteq>\<^sub>m S'"
    using Cons.IH [of ?S ?C] Cons.prems(1) unfolding list.map distinct.simps by blast
  moreover have "S \<subseteq>\<^sub>m ?S" using Cons.prems by (auto simp: map_le_def)
  moreover have "spec_create pr tx h mh (S, C) cr = Inr (?S, ?C)" using sc Cons.prems(2) by (simp add: spec_create_def)
  ultimately show ?case using map_le_trans [of S ?S S'] by simp
qed simp

lemma credits_apply:
  assumes "\<forall>x\<in>set xs. fst x \<in> dom S"
  shows "\<exists>S'. foldR (spec_credit mh) (S, C) xs = Inr (S', C) \<and> dom S' = dom S \<and> (\<forall>k. map_option balance (S' k) = map_option balance (S k))"
  using assms
proof (induction xs arbitrary: S)
  case (Cons x xs)
  obtain sc where sc: "S (fst x) = Some sc" using Cons.prems by auto
  let ?S = "S(fst x \<mapsto> add_immature (snd x) mh sc)"
  have "\<forall>x\<in>set xs. fst x \<in> dom ?S" using Cons.prems by auto
  then obtain S' where "foldR (spec_credit mh) (?S, C) xs = Inr (S', C)" "dom S' = dom ?S" "\<forall>k. map_option balance (S' k) = map_option balance (?S k)"
    using Cons.IH by blast
  moreover have "spec_credit mh (S, C) x = Inr (?S, C)" using sc by (cases x) (simp add: spec_credit_def spec_sc_def)
  moreover have "balance (add_immature a mh sc) = balance sc" for a by (simp add: add_immature_def)
  ultimately show ?case using sc by (auto split: if_splits)
qed simp

lemma thenR_OK: "thenR a b = Inr OK \<longleftrightarrow> a = Inr OK \<and> b = Inr OK"
  by (auto simp: thenR_def bindR_eq_Inr)

lemma codes_OK: "codes f xs = Inr OK \<longleftrightarrow> (\<forall>x\<in>set xs. f x = Inr OK)"
  by (induction xs) (auto simp: bindR_eq_Inr)

lemma ft_code_exists: "ft_code H flag ft r = Inr OK \<Longrightarrow> r \<noteq> None" "mbtr_code H flag m r = Inr OK \<Longrightarrow> r \<noteq> None"
  by (cases r; simp add: ft_code_def mbtr_code_def state_of_def)+


section \<open>A concrete chain\<close>

text \<open>The chain at height 525: one sidechain is in the submission window of its first epoch, another one has ceased with funds left.\<close>

definition sc_live :: CSidechain where
  "sc_live = CSidechain_null\<lparr>creationBlockHeight := 420, creationTxHash := 7, fixedParams := ScFixedParameters_null\<lparr>version := 0, withdrawalEpochLength := 100\<rparr>,
     balance := 1000, maxSizeOfScFeesContainers := 2, scFees := [\<lparr>forwardTxScFee = 10, mbtrTxScFee = 0\<rparr>],
     lastTopQualityCertView := certView_null\<lparr>view_forwardTransferScFee := 10, view_mbtrScFee := 0\<rparr>\<rparr>"

definition sc_dead :: CSidechain where
  "sc_dead = CSidechain_null\<lparr>creationBlockHeight := 200, creationTxHash := 6, balance := 400, maxSizeOfScFeesContainers := 2,
     fixedParams := ScFixedParameters_null\<lparr>version := 0, withdrawalEpochLength := 100, wCeasedVk := Some [1]\<rparr>\<rparr>"

definition db_live :: CCoinsViewDB where
  "db_live = \<lparr>db_coins = [(1, coin_example 5)], db_anchors = [], db_nullifiers = [], db_sidechains = [(7, sc_live), (6, sc_dead)],
     db_ceasedscs = [(539, events_null\<lparr>ceasingScs := {7}\<rparr>)], db_cswnullifiers = [], db_bestBlock = Some 8, db_bestAnchor = None, db_emptyRoot = 99\<rparr>"

definition view_live :: CCoinsViewCache where "view_live = CCoinsViewCache_new (DBView db_live)"

definition env_live :: ChainEnv where
  "env_live = \<lparr>mapBlockIndex = [8 \<mapsto> 525], chainActive = [319 \<mapsto> [3], 519 \<mapsto> [5]], cctp = lib_example\<rparr>"

definition cert_live :: CScCertificate where
  "cert_live = cert_null\<lparr>cert_vout := [\<lparr>nValue = 100, scriptPubKey = []\<rparr>], cert_hash := 21, cert_scId := 7, epochNumber := 0, quality := 1,
     endEpochCumScTxCommTreeRoot := [5], cert_forwardTransferScFee := 10, cert_mbtrScFee := 0\<rparr>"

definition tx_live :: CTransaction where
  "tx_live = tx_null\<lparr>tx_nVersion := SC_TX_VERSION, tx_hash := 22, vft_ccout := [ft_example],
     vcsw_ccin := [\<lparr>csw_nValue = 150, csw_scId = 6, nullifier = [9], csw_pubKeyHash = 0, csw_scProof = [], actCertDataHash = [],
       ceasingCumScTxCommTree = [3], redeemScript = []\<rparr>]\<rparr>"

lemma view_live_obs [simp]:
  "scOf (vw view_live) = [7 \<mapsto> sc_live, 6 \<mapsto> sc_dead]" "evOf (vw view_live) = [539 \<mapsto> events_null\<lparr>ceasingScs := {7}\<rparr>]" "sc_entry view_live = Map.empty"
  "ev_entry view_live = Map.empty" "wf_view (\<lambda>_. mt_empty) (vw view_live)" "bestOf (vw view_live) = 8" "cswOf (vw view_live) = (\<lambda>_. False)"
  by (simp_all add: view_live_def CCoinsViewCache_new_def CacheMaps_empty_def db_live_def sc_entry_def ev_entry_def wf_cache_def fun_eq_iff)

lemma view_live_good: "good (\<lambda>_. mt_empty) n view_live" "no_erased view_live" "inv_revert (\<lambda>_. mt_empty) view_live"
  by (simp_all add: good_def no_erased_def inv_revert_def events_IsNull_def events_null_def)

lemma sc_live_simps [simp]:
  "epochLen sc_live = 100" "isCreationConfirmed sc_live" "creationBlockHeight sc_live = 420" "lastTopQualityCertReferencedEpoch sc_live = - 1" "balance sc_live = 1000"
  "GetScheduledCeasingHeight sc_live = 539" "GetCertSubmissionWindowStart sc_live (- 1) = 420" "GetCertSubmissionWindowStart sc_live 0 = 520"
  "GetCertSubmissionWindowEnd sc_live 0 = 539" "GetCertSubmissionWindowLength sc_live = 20" "EpochFor sc_live 506 = 0" "GetEndHeightForEpoch sc_live 0 = 519" "maxSizeOfScFeesContainers sc_live = 2" "lastTopQualityCertHash sc_live = 0"
  by (simp_all add: sc_live_def CSidechain_null_def isCreationConfirmed_def EPOCH_NULL_def epoch_defs GetCertSubmissionWindowLength_def sdiv_nonneg)

lemma sc_dead_simps [simp]:
  "epochLen sc_dead = 100" "isCreationConfirmed sc_dead" "balance sc_dead = 400" "GetScheduledCeasingHeight sc_dead = 319"
  by (simp_all add: sc_dead_def CSidechain_null_def isCreationConfirmed_def EPOCH_NULL_def epoch_defs GetCertSubmissionWindowLength_def sdiv_nonneg)

lemma env_live_height [simp]: "at_height env_live 525 (ledger view_live)"
  by (simp add: at_height_def env_live_def)

lemma cert_live_value [simp]: "GetValueOfBackwardTransfers cert_live = 100"
  by (simp add: GetValueOfBackwardTransfers_def cert_live_def cert_null_def to_u64_def)

lemma cert_live_simps [simp]: "cert_scId cert_live = 7" "epochNumber cert_live = 0" "cert_hash cert_live = 21" "quality cert_live = 1"
  "endEpochCumScTxCommTreeRoot cert_live = [5]" "cert_scProof cert_live = []" "checkCertCustomFields lib_example sc_live cert_live"
  by (simp_all add: cert_live_def cert_null_def checkCertCustomFields_def sc_live_def CSidechain_null_def ScFixedParameters_null_def)

lemma cert_live_applicable: "\<exists>v1. IsCertApplicableToState env_live cert_live view_live = Inr (v1, OK)"
proof -
  have "cert_code env_live 525 cert_live (l_sc (ledger view_live) (cert_scId cert_live)) = OK"
    by (simp add: cert_code_def timely_def state_of_def quality_ok_def Let_def CheckEndEpochCumScTxCommTreeRoot_def env_live_def MAX_PROOF_PLUS_VK_SIZE_def)
      (simp add: sc_live_def ScFixedParameters_null_def)
  then show ?thesis using looks_ok [OF looks_cert view_live_good(2) env_live_height] by (metis (no_types, lifting))
qed

lemma sc_dead_csw [simp]: "wCeasedVk (fixedParams sc_dead) = Some [1]" "active_view 525 (Some sc_dead) = Inr certView_null"
  "active_view 525 (Some sc_live) = Inr (certView_null\<lparr>view_forwardTransferScFee := 10, view_mbtrScFee := 0\<rparr>)"
  by (simp_all add: active_view_def state_of_def) (simp_all add: sc_dead_def sc_live_def CSidechain_null_def)

lemma tx_live_applicable: "\<exists>v1. IsScTxApplicableToState env_live tx_live MINIMUM_IN_A_RANGE view_live = Inr (v1, OK)"
proof -
  have "tx_code env_live 525 MINIMUM_IN_A_RANGE tx_live (ledger view_live) = Inr OK"
    by (simp add: tx_code_def tx_live_def tx_null_def tx_IsCoinBase_def thenR_def ft_code_def ft_example_def state_of_def fee_check_def Let_def
        ceasing_hash_def env_live_def MAX_PROOF_PLUS_VK_SIZE_def certView_null_def)
  then show ?thesis using looks_ok [OF looks_tx view_live_good(2) env_live_height] by blast
qed

theorem active_certificate_witness: "\<exists>v'. GetActiveCertView env_live 7 view_live = Inr (v', lastTopQualityCertView sc_live) \<and> reads view_live v'"
  using active_certificate [OF view_live_good(2) env_live_height, of 7 sc_live] by simp




end
