(* ===== verification/TxChecks.thy ===== *)
theory TxChecks
  imports ScTypes CertUpdate
begin

text \<open>
  The context-free checks of transactions and certificates: \<open>primitives/transaction.cpp\<close>,
  \<open>primitives/certificate.cpp\<close> and \<open>CheckTransaction\<close>, \<open>CheckCertificate\<close> of \<open>main.cpp\<close>. Amounts are summed with
  64-bit wrap-around as the code sums them; the theorems show that no sum of a checked object wraps. The size of a
  serialized object, the signature hash, the signature and the zero-knowledge proof checks are fields of \<open>TxLib\<close>.
\<close>

section \<open>Amounts\<close>

text \<open>A loop that adds up amounts and throws when one of them or the sum leaves the money range.\<close>

definition add_ranged :: "string \<Rightarrow> CAmount \<Rightarrow> CAmount \<Rightarrow> CAmount result" where
  "add_ranged msg a x = (let a' = wrap64 (a + x) in if \<not> MoneyRange x \<or> \<not> MoneyRange a' then Inl (Throw msg) else Inr a')"

definition base_GetValueOut :: "CTxOut list \<Rightarrow> CAmount result" where
  "base_GetValueOut outs = foldR (add_ranged ''CTransactionBase::GetValueOut(): value out of range'') 0 (map nValue outs)"

definition GetValueCcOut :: "CAmount list \<Rightarrow> CAmount result" where
  "GetValueCcOut ccout = foldR (add_ranged ''CTransaction::GetValueCcOut(): value out of range'') 0 ccout"

definition tx_GetValueOut :: "CTransaction \<Rightarrow> CAmount result" where
  "tx_GetValueOut tx =
     bindR (base_GetValueOut (tx_vout tx)) (\<lambda>nValueOut.
     bindR (foldR (add_ranged ''CTransaction::GetValueOut(): value out of range'') nValueOut (map vpub_old (vjoinsplit tx))) (\<lambda>nValueOut.
     bindR (GetValueCcOut (map cr_nValue (vsc_ccout tx))) (\<lambda>a.
     bindR (GetValueCcOut (map ft_nValue (vft_ccout tx))) (\<lambda>b.
     bindR (GetValueCcOut (map scFee (vmbtr_out tx))) (\<lambda>c.
       let nValueOut = wrap64 (nValueOut + wrap64 (wrap64 (a + b) + c))
       in if \<not> MoneyRange nValueOut then Inl (Throw ''CTransaction::GetValueOut(): value out of range'') else Inr nValueOut)))))"

definition GetJoinSplitValueIn :: "CTransaction \<Rightarrow> CAmount result" where
  "GetJoinSplitValueIn tx = foldR (add_ranged ''CTransaction::GetJoinSplitValueIn(): value out of range'') 0 (map vpub_new (vjoinsplit tx))"

definition GetCSWValueIn :: "CTransaction \<Rightarrow> CAmount result" where
  "GetCSWValueIn tx = foldR (add_ranged ''CTransaction::GetCSWValueIn(): value out of range'') 0 (map csw_nValue (vcsw_ccin tx))"

definition tx_GetFeeAmount :: "CTransaction \<Rightarrow> CAmount \<Rightarrow> CAmount result" where
  "tx_GetFeeAmount tx valueIn = bindR (tx_GetValueOut tx) (\<lambda>out. Inr (wrap64 (valueIn - out)))"

definition check_txout :: "CAmount \<Rightarrow> CTxOut \<Rightarrow> CAmount result" where
  "check_txout nCumulatedValueOut txout =
     (if nValue txout < 0 then reject ''bad-txns-vout-negative''
      else if nValue txout > MAX_MONEY then reject ''bad-txns-vout-toolarge''
      else let nCumulatedValueOut = wrap64 (nCumulatedValueOut + nValue txout)
           in if \<not> MoneyRange nCumulatedValueOut then reject ''bad-txns-txouttotal-toolarge'' else Inr nCumulatedValueOut)"

definition check_joinsplit_out :: "CAmount \<Rightarrow> JSDescription \<Rightarrow> CAmount result" where
  "check_joinsplit_out nCumulatedValueOut js =
     (if vpub_old js < 0 then reject ''bad-txns-vpub_old-negative''
      else if vpub_new js < 0 then reject ''bad-txns-vpub_new-negative''
      else if vpub_old js > MAX_MONEY then reject ''bad-txns-vpub_old-toolarge''
      else if vpub_new js > MAX_MONEY then reject ''bad-txns-vpub_new-toolarge''
      else if vpub_new js \<noteq> 0 \<and> vpub_old js \<noteq> 0 then reject ''bad-txns-vpubs-both-nonzero''
      else let nCumulatedValueOut = wrap64 (nCumulatedValueOut + vpub_old js)
           in if \<not> MoneyRange nCumulatedValueOut then reject ''bad-txns-txouttotal-toolarge'' else Inr nCumulatedValueOut)"

definition check_ccout :: "bool \<Rightarrow> CAmount \<Rightarrow> CAmount \<Rightarrow> CAmount result" where
  "check_ccout allowedZeroScValue nCumulatedValueOut scValue =
     (case CheckAmountRange allowedZeroScValue scValue nCumulatedValueOut of None \<Rightarrow> reject ''bad-txns-ccout-range'' | Some a \<Rightarrow> Inr a)"

definition check_joinsplit_in :: "CAmount \<Rightarrow> JSDescription \<Rightarrow> CAmount result" where
  "check_joinsplit_in nCumulatedValueIn js =
     (let nCumulatedValueIn = wrap64 (nCumulatedValueIn + vpub_new js)
      in if \<not> MoneyRange (vpub_new js) \<or> \<not> MoneyRange nCumulatedValueIn then reject ''bad-txns-txintotal-toolarge'' else Inr nCumulatedValueIn)"

definition check_csw_in :: "CAmount \<Rightarrow> CTxCeasedSidechainWithdrawalInput \<Rightarrow> CAmount result" where
  "check_csw_in nCumulatedValueIn cswIn =
     (let nCumulatedValueIn = wrap64 (nCumulatedValueIn + csw_nValue cswIn)
      in if \<not> MoneyRange (csw_nValue cswIn) then reject ''bad-txns-txcswin-invalid''
         else if \<not> MoneyRange nCumulatedValueIn then reject ''bad-txns-txintotal-toolarge'' else Inr nCumulatedValueIn)"

definition tx_CheckAmounts :: "CTransaction \<Rightarrow> unit result" where
  "tx_CheckAmounts tx =
     bindR (foldR check_txout 0 (tx_vout tx)) (\<lambda>a.
     bindR (foldR check_joinsplit_out a (vjoinsplit tx)) (\<lambda>a.
     bindR (foldR (check_ccout False) a (map cr_nValue (vsc_ccout tx))) (\<lambda>a.
     bindR (foldR (check_ccout False) a (map ft_nValue (vft_ccout tx))) (\<lambda>a.
     bindR (foldR (check_ccout True) a (map scFee (vmbtr_out tx))) (\<lambda>_.
     bindR (foldR check_joinsplit_in 0 (vjoinsplit tx)) (\<lambda>a.
     bindR (foldR check_csw_in a (vcsw_ccin tx)) (\<lambda>_. Inr ())))))))"

definition tx_CheckFeeAmount :: "CTransaction \<Rightarrow> CAmount \<Rightarrow> unit result" where
  "tx_CheckFeeAmount tx totalVinAmount =
     (if \<not> MoneyRange totalVinAmount then reject ''bad-txns-inputvalues-outofrange''
      else bindR (tx_CheckAmounts tx) (\<lambda>_.
           bindR (tx_GetValueOut tx) (\<lambda>out.
             if totalVinAmount < out then reject ''bad-txns-in-belowout''
             else let nTxFee = wrap64 (totalVinAmount - out) in
             if nTxFee < 0 then reject ''bad-txns-fee-negative''
             else if \<not> MoneyRange nTxFee then reject ''bad-txns-fee-outofrange'' else Inr ())))"

section \<open>Amounts of certificates\<close>

definition GetValueOfChange :: "CScCertificate \<Rightarrow> CAmount result" where
  "GetValueOfChange cert = (let n = to_u32 (cert_nFirstBwtPos cert) in
     if n > length (cert_vout cert) then Inl Undefined
     else Inr (foldl (\<lambda>a out. wrap64 (a + nValue out)) 0 (take n (cert_vout cert))))"

definition cert_GetFeeAmount :: "CScCertificate \<Rightarrow> CAmount \<Rightarrow> CAmount result" where
  "cert_GetFeeAmount cert valueIn = bindR (GetValueOfChange cert) (\<lambda>change. Inr (wrap64 (valueIn - change)))"

definition check_cert_out :: "CScCertificate \<Rightarrow> CAmount \<Rightarrow> nat \<times> CTxOut \<Rightarrow> CAmount result" where
  "check_cert_out cert nCumulatedValueOut = (\<lambda>(pos, txout).
     if nValue txout < 0 then reject ''bad-txns-vout-negative''
     else if nValue txout > MAX_MONEY then reject ''bad-txns-vout-toolarge''
     else if pos \<ge> to_u32 (cert_nFirstBwtPos cert) \<and> nValue txout = 0 then reject ''bad-txns-bwd-vout-zero''
     else let nCumulatedValueOut = wrap64 (nCumulatedValueOut + nValue txout)
          in if \<not> MoneyRange nCumulatedValueOut then reject ''bad-txns-txouttotal-toolarge'' else Inr nCumulatedValueOut)"

definition cert_CheckAmounts :: "CScCertificate \<Rightarrow> unit result" where
  "cert_CheckAmounts cert =
     bindR (foldR (check_cert_out cert) 0 (enumerate 0 (cert_vout cert))) (\<lambda>_.
       if \<not> MoneyRange (GetValueOfBackwardTransfers cert) then reject ''bwd-transfer-amount-outside-range'' else Inr ())"

definition cert_CheckFeeAmount :: "CScCertificate \<Rightarrow> CAmount \<Rightarrow> unit result" where
  "cert_CheckFeeAmount cert totalVinAmount =
     (if \<not> MoneyRange totalVinAmount then reject ''bad-cert-inputvalues-outofrange''
      else bindR (cert_CheckAmounts cert) (\<lambda>_.
           bindR (GetValueOfChange cert) (\<lambda>change.
             if totalVinAmount < change then reject ''bad-cert-in-belowout''
             else let nCertFee = wrap64 (totalVinAmount - change) in
             if nCertFee < 0 then reject ''bad-cert-fee-negative''
             else if \<not> MoneyRange nCertFee then reject ''bad-cert-fee-outofrange'' else Inr ())))"

section \<open>Inputs\<close>

definition insert_new :: "string \<Rightarrow> 'a list \<Rightarrow> 'a \<Rightarrow> 'a list result" where
  "insert_new msg seen x = (if List.member seen x then reject msg else Inr (x # seen))"

definition base_CheckInputsDuplication :: "CTxIn list \<Rightarrow> JSDescription list \<Rightarrow> unit result" where
  "base_CheckInputsDuplication vin vjs =
     bindR (foldR (insert_new ''bad-txns-inputs-duplicate'') [] (map prevout vin)) (\<lambda>_.
     bindR (foldR (insert_new ''bad-joinsplits-nullifiers-duplicate'') [] (concat (map js_nullifiers vjs))) (\<lambda>_. Inr ()))"

definition tx_CheckInputsDuplication :: "CTransaction \<Rightarrow> unit result" where
  "tx_CheckInputsDuplication tx =
     bindR (base_CheckInputsDuplication (tx_vin tx) (vjoinsplit tx)) (\<lambda>_.
     bindR (foldR (insert_new ''bad-txns-csw-inputs-duplicate'') [] (map nullifier (vcsw_ccin tx))) (\<lambda>_. Inr ()))"

definition tx_CheckInputsInteraction :: "CTransaction \<Rightarrow> unit result" where
  "tx_CheckInputsInteraction tx =
     (if tx_IsCoinBase tx then
        if length (vjoinsplit tx) > 0 then reject ''bad-cb-has-joinsplits''
        else let n = length (scriptSig (tx_vin tx ! 0)) in
        if n < 2 \<or> n > 100 then reject ''bad-cb-length''
        else if vsc_ccout tx \<noteq> [] \<or> vft_ccout tx \<noteq> [] \<or> vmbtr_out tx \<noteq> [] then reject ''bad-cb-destination''
        else if vcsw_ccin tx \<noteq> [] then reject ''bad-cb-has-cswinputs''
        else Inr ()
      else if list_ex (\<lambda>txin. outpoint_IsNull (prevout txin)) (tx_vin tx) then Inl (DoS 10 INVALID ''bad-txns-prevout-null'')
      else Inr ())"

definition cert_CheckInputsInteraction :: "CScCertificate \<Rightarrow> unit result" where
  "cert_CheckInputsInteraction cert =
     (if list_ex (\<lambda>txin. outpoint_IsNull (prevout txin)) (cert_vin cert) then Inl (DoS 10 INVALID ''bad-txns-prevout-null'') else Inr ())"

definition tx_CheckInputsOutputsNonEmpty :: "CTransaction \<Rightarrow> unit result" where
  "tx_CheckInputsOutputsNonEmpty tx =
     (if tx_vin tx = [] \<and> vjoinsplit tx = [] \<and> vcsw_ccin tx = [] then Inl (DoS 10 INVALID ''bad-txns-vin-empty'')
      else if tx_vout tx = [] \<and> vjoinsplit tx = [] \<and> ccOutIsNull tx then Inl (DoS 10 INVALID ''bad-txns-vout-empty'')
      else Inr ())"

definition cert_CheckInputsOutputsNonEmpty :: "CScCertificate \<Rightarrow> unit result" where
  "cert_CheckInputsOutputsNonEmpty cert = (if cert_vin cert = [] then Inl (DoS 10 INVALID ''bad-cert-vin-empty'') else Inr ())"

definition MIN_OLD_TX_VERSION :: int where "MIN_OLD_TX_VERSION = 1"

definition tx_IsValidVersion :: "CTransaction \<Rightarrow> unit result" where
  "tx_IsValidVersion tx =
     (if tx_nVersion tx < MIN_OLD_TX_VERSION \<and> tx_nVersion tx \<noteq> GROTH_TX_VERSION \<and> \<not> IsScVersion tx
      then reject ''bad-txns-version-too-low'' else Inr ())"

definition cert_IsValidVersion :: "CScCertificate \<Rightarrow> unit result" where
  "cert_IsValidVersion cert = (if cert_nVersion cert \<noteq> SC_CERT_VERSION then reject ''bad-cert-version'' else Inr ())"

section \<open>The whole check\<close>

record TxLib =
  tx_GetSerializeSize :: "CTransaction \<Rightarrow> nat"
  cert_GetSerializeSize :: "CScCertificate \<Rightarrow> nat"
  SignatureHash :: "CTransaction \<Rightarrow> uint256 option"
  crypto_sign_verify_detached :: "bytes \<Rightarrow> uint256 \<Rightarrow> uint256 \<Rightarrow> bool"
  js_Verify :: "JSDescription \<Rightarrow> uint256 \<Rightarrow> bool"

definition MAX_TX_SIZE :: nat where "MAX_TX_SIZE = 100000"
definition MAX_CERT_SIZE :: nat where "MAX_CERT_SIZE = 150000"

definition tx_CheckSerializedSize :: "TxLib \<Rightarrow> CTransaction \<Rightarrow> unit result" where
  "tx_CheckSerializedSize lib tx = (if tx_GetSerializeSize lib tx > MAX_TX_SIZE then reject ''bad-txns-oversize'' else Inr ())"

definition cert_CheckSerializedSize :: "TxLib \<Rightarrow> CScCertificate \<Rightarrow> unit result" where
  "cert_CheckSerializedSize lib cert = (if cert_GetSerializeSize lib cert > MAX_CERT_SIZE then reject ''bad-cert-oversize'' else Inr ())"

definition CheckTransactionWithoutProofVerification :: "TxLib \<Rightarrow> CTransaction \<Rightarrow> unit result" where
  "CheckTransactionWithoutProofVerification lib tx =
     bindR (tx_IsValidVersion tx) (\<lambda>_.
     bindR (tx_CheckInputsOutputsNonEmpty tx) (\<lambda>_.
     bindR (tx_CheckSerializedSize lib tx) (\<lambda>_.
     bindR (tx_CheckAmounts tx) (\<lambda>_.
     bindR (tx_CheckInputsDuplication tx) (\<lambda>_.
     bindR (tx_CheckInputsInteraction tx) (\<lambda>_.
       if \<not> tx_IsCoinBase tx \<and> length (vjoinsplit tx) > 0 then
         (case SignatureHash lib tx of None \<Rightarrow> reject ''error-computing-signature-hash''
          | Some dataToBeSigned \<Rightarrow>
              if \<not> crypto_sign_verify_detached lib (joinSplitSig tx) dataToBeSigned (joinSplitPubKey tx)
              then reject ''bad-txns-invalid-joinsplit-signature'' else Inr ())
       else Inr ()))))))"

definition CheckTransaction :: "CChainParams \<Rightarrow> CctpLib \<Rightarrow> TxLib \<Rightarrow> CTransaction \<Rightarrow> unit result" where
  "CheckTransaction pr cctplib lib tx =
     bindR (CheckTransactionWithoutProofVerification lib tx) (\<lambda>_.
       if list_ex (\<lambda>js. \<not> js_Verify lib js (joinSplitPubKey tx)) (vjoinsplit tx) then reject ''bad-txns-joinsplit-verification-failed''
       else checkTxSemanticValidity pr cctplib tx)"

definition CheckCertificate :: "CctpLib \<Rightarrow> TxLib \<Rightarrow> CScCertificate \<Rightarrow> unit result" where
  "CheckCertificate cctplib lib cert =
     bindR (cert_IsValidVersion cert) (\<lambda>_.
     bindR (cert_CheckInputsOutputsNonEmpty cert) (\<lambda>_.
     bindR (cert_CheckSerializedSize lib cert) (\<lambda>_.
     bindR (cert_CheckAmounts cert) (\<lambda>_.
     bindR (base_CheckInputsDuplication (cert_vin cert) []) (\<lambda>_.
     bindR (cert_CheckInputsInteraction cert) (\<lambda>_.
       checkCertSemanticValidity cctplib cert))))))"

section \<open>Sums of checked amounts\<close>

lemma add_ranged_ok: "MoneyRange a \<Longrightarrow> MoneyRange x \<Longrightarrow> MoneyRange (a + x) \<Longrightarrow> add_ranged msg a x = Inr (a + x)"
  by (simp add: add_ranged_def Let_def MoneyRange_add_int64)

lemma sum_list_nonneg_range: "\<forall>x \<in> set xs. MoneyRange x \<Longrightarrow> 0 \<le> sum_list xs"
  by (intro sum_list_nonneg) (auto simp: MoneyRange_def)

lemma add_ranged_loop:
  "MoneyRange a \<Longrightarrow> \<forall>x \<in> set xs. MoneyRange x \<Longrightarrow> MoneyRange (a + sum_list xs) \<Longrightarrow> foldR (add_ranged msg) a xs = Inr (a + sum_list xs)"
proof (induction xs arbitrary: a)
  case (Cons x xs)
  have "0 \<le> sum_list xs" using Cons.prems(2) sum_list_nonneg_range by auto
  then have "MoneyRange (a + x)" using Cons.prems by (auto simp: MoneyRange_def)
  then show ?case using Cons add_ranged_ok [of a x msg] by (simp add: add.assoc)
qed simp

lemma check_steps:
  "MoneyRange a \<Longrightarrow> check_txout a o' = Inr a' \<Longrightarrow> a' = a + nValue o' \<and> MoneyRange a' \<and> MoneyRange (nValue o')"
  "MoneyRange a \<Longrightarrow> check_joinsplit_out a js = Inr a' \<Longrightarrow> a' = a + vpub_old js \<and> MoneyRange a' \<and> MoneyRange (vpub_old js)"
  "MoneyRange a \<Longrightarrow> check_ccout z a x = Inr a' \<Longrightarrow> a' = a + x \<and> MoneyRange a' \<and> MoneyRange x"
  "MoneyRange a \<Longrightarrow> check_joinsplit_in a js = Inr a' \<Longrightarrow> a' = a + vpub_new js \<and> MoneyRange a' \<and> MoneyRange (vpub_new js)"
  "MoneyRange a \<Longrightarrow> check_csw_in a w = Inr a' \<Longrightarrow> a' = a + csw_nValue w \<and> MoneyRange a' \<and> MoneyRange (csw_nValue w)"
  "MoneyRange a \<Longrightarrow> check_cert_out cert a p = Inr a' \<Longrightarrow> a' = a + nValue (snd p) \<and> MoneyRange a' \<and> MoneyRange (nValue (snd p))"
  using MoneyRange_add_int64 [of a] CheckAmountRange_Some [of z x a]
  by (auto simp: check_txout_def check_joinsplit_out_def check_ccout_def check_joinsplit_in_def check_csw_in_def check_cert_out_def reject_def
      Let_def not_less MoneyRange_def split: if_splits option.splits prod.splits)

text \<open>The amounts of a transaction that \<open>CheckAmounts\<close> accepts.\<close>

definition out_total :: "CTransaction \<Rightarrow> CAmount" where
  "out_total tx = sum_list (map nValue (tx_vout tx)) + sum_list (map vpub_old (vjoinsplit tx)) + sum_list (map cr_nValue (vsc_ccout tx))
     + sum_list (map ft_nValue (vft_ccout tx)) + sum_list (map scFee (vmbtr_out tx))"

definition in_total :: "CTransaction \<Rightarrow> CAmount" where
  "in_total tx = sum_list (map vpub_new (vjoinsplit tx)) + sum_list (map csw_nValue (vcsw_ccin tx))"

lemma CheckAmounts_ranges:
  assumes "tx_CheckAmounts tx = Inr ()"
  shows "\<forall>x \<in> set (map nValue (tx_vout tx)). MoneyRange x" "\<forall>x \<in> set (map vpub_old (vjoinsplit tx)). MoneyRange x" "\<forall>x \<in> set (map cr_nValue (vsc_ccout tx)). MoneyRange x"
    "\<forall>x \<in> set (map ft_nValue (vft_ccout tx)). MoneyRange x" "\<forall>x \<in> set (map scFee (vmbtr_out tx)). MoneyRange x" "\<forall>x \<in> set (map vpub_new (vjoinsplit tx)). MoneyRange x"
    "\<forall>x \<in> set (map csw_nValue (vcsw_ccin tx)). MoneyRange x" "MoneyRange (out_total tx)" "MoneyRange (in_total tx)"
proof -
  obtain a b c d e f g where s: "foldR check_txout 0 (tx_vout tx) = Inr a" "foldR check_joinsplit_out a (vjoinsplit tx) = Inr b"
    "foldR (check_ccout False) b (map cr_nValue (vsc_ccout tx)) = Inr c" "foldR (check_ccout False) c (map ft_nValue (vft_ccout tx)) = Inr d"
    "foldR (check_ccout True) d (map scFee (vmbtr_out tx)) = Inr e" "foldR check_joinsplit_in 0 (vjoinsplit tx) = Inr f" "foldR check_csw_in f (vcsw_ccin tx) = Inr g"
    using assms by (auto simp: tx_CheckAmounts_def bindR_eq_Inr)
  note a = check_loop [where P = "\<lambda>x. MoneyRange (nValue x)", OF s(1) MoneyRange_0 check_steps(1)]
  note b = check_loop [where P = "\<lambda>x. MoneyRange (vpub_old x)", OF s(2) _ check_steps(2)]
  note c = check_loop [where P = MoneyRange and g = "\<lambda>x. x", OF s(3) _ check_steps(3) [where z = False]] and d = check_loop [where P = MoneyRange and g = "\<lambda>x. x", OF s(4) _ check_steps(3) [where z = False]]
    and e = check_loop [where P = MoneyRange and g = "\<lambda>x. x", OF s(5) _ check_steps(3) [where z = True]]
  note f = check_loop [where P = "\<lambda>x. MoneyRange (vpub_new x)", OF s(6) MoneyRange_0 check_steps(4)]
  note g = check_loop [where P = "\<lambda>x. MoneyRange (csw_nValue x)", OF s(7) _ check_steps(5)]
  have A: "a = sum_list (map nValue (tx_vout tx))" "MoneyRange a" "\<forall>x \<in> set (tx_vout tx). MoneyRange (nValue x)" using a by auto
  have B: "b = a + sum_list (map vpub_old (vjoinsplit tx))" "MoneyRange b" "\<forall>x \<in> set (vjoinsplit tx). MoneyRange (vpub_old x)" using b [OF A(2)] by auto
  have C: "c = b + sum_list (map cr_nValue (vsc_ccout tx))" "MoneyRange c" "\<forall>x \<in> set (map cr_nValue (vsc_ccout tx)). MoneyRange x" using c [OF B(2)] by auto
  have D: "d = c + sum_list (map ft_nValue (vft_ccout tx))" "MoneyRange d" "\<forall>x \<in> set (map ft_nValue (vft_ccout tx)). MoneyRange x" using d [OF C(2)] by auto
  have E: "e = d + sum_list (map scFee (vmbtr_out tx))" "MoneyRange e" "\<forall>x \<in> set (map scFee (vmbtr_out tx)). MoneyRange x" using e [OF D(2)] by auto
  have F: "f = sum_list (map vpub_new (vjoinsplit tx))" "MoneyRange f" "\<forall>x \<in> set (vjoinsplit tx). MoneyRange (vpub_new x)" using f by auto
  have G: "g = f + sum_list (map csw_nValue (vcsw_ccin tx))" "MoneyRange g" "\<forall>x \<in> set (vcsw_ccin tx). MoneyRange (csw_nValue x)" using g [OF F(2)] by auto
  show "MoneyRange (out_total tx)" using E(2) unfolding out_total_def E(1) D(1) C(1) B(1) A(1) .
  show "MoneyRange (in_total tx)" using G(2) unfolding in_total_def G(1) F(1) .
  show "\<forall>x \<in> set (map nValue (tx_vout tx)). MoneyRange x" "\<forall>x \<in> set (map vpub_old (vjoinsplit tx)). MoneyRange x" "\<forall>x \<in> set (map cr_nValue (vsc_ccout tx)). MoneyRange x"
    "\<forall>x \<in> set (map ft_nValue (vft_ccout tx)). MoneyRange x" "\<forall>x \<in> set (map scFee (vmbtr_out tx)). MoneyRange x" "\<forall>x \<in> set (map vpub_new (vjoinsplit tx)). MoneyRange x"
    "\<forall>x \<in> set (map csw_nValue (vcsw_ccin tx)). MoneyRange x" using A(3) B(3) C(3) D(3) E(3) F(3) G(3) by simp_all
qed

lemma GetValueCcOut_ok: "\<forall>x \<in> set xs. MoneyRange x \<Longrightarrow> MoneyRange (sum_list xs) \<Longrightarrow> GetValueCcOut xs = Inr (sum_list xs)"
  using add_ranged_loop [of 0 xs] by (simp add: GetValueCcOut_def)

lemma GetValueOut_ok:
  assumes "tx_CheckAmounts tx = Inr ()"
  shows "tx_GetValueOut tx = Inr (out_total tx)"
proof -
  note R = CheckAmounts_ranges [OF assms]
  let ?a = "sum_list (map nValue (tx_vout tx))" and ?b = "sum_list (map vpub_old (vjoinsplit tx))" and ?c = "sum_list (map cr_nValue (vsc_ccout tx))"
    and ?d = "sum_list (map ft_nValue (vft_ccout tx))" and ?e = "sum_list (map scFee (vmbtr_out tx))"
  have n: "0 \<le> ?a" "0 \<le> ?b" "0 \<le> ?c" "0 \<le> ?d" "0 \<le> ?e" using R(1-5) by (auto intro!: sum_list_nonneg_range)
  have t: "MoneyRange (?a + ?b + ?c + ?d + ?e)" using R(8) unfolding out_total_def .
  have m: "MoneyRange ?a" "MoneyRange (?a + ?b)" "MoneyRange ?c" "MoneyRange ?d" "MoneyRange ?e" "MoneyRange (?c + ?d)" "MoneyRange (?c + ?d + ?e)"
    using t n unfolding MoneyRange_def by linarith+
  have "base_GetValueOut (tx_vout tx) = Inr ?a" unfolding base_GetValueOut_def using add_ranged_loop [OF MoneyRange_0 R(1)] m(1) by simp
  moreover note add_ranged_loop [OF m(1) R(2) m(2)]
  moreover note GetValueCcOut_ok [OF R(3) m(3)] GetValueCcOut_ok [OF R(4) m(4)] GetValueCcOut_ok [OF R(5) m(5)]
  moreover have "wrap64 (?c + ?d) = ?c + ?d" "wrap64 (?c + ?d + ?e) = ?c + ?d + ?e" by (rule MoneyRange_add_int64 [OF m(3,4)], rule MoneyRange_add_int64 [OF m(6,5)])
  moreover have "wrap64 (?a + ?b + (?c + ?d + ?e)) = ?a + ?b + (?c + ?d + ?e)" by (rule MoneyRange_add_int64 [OF m(2,7)])
  ultimately show ?thesis using t by (simp add: tx_GetValueOut_def Let_def out_total_def add.assoc)
qed

text \<open>C22: the amounts of a transaction that passes the amount check are added up exactly, without 64-bit wrap-around and without
  an exception: the value of the outputs is the sum of all transparent, shielded and cross-chain outputs, the
  value the joinsplits and the ceased sidechain withdrawals add is the sum of theirs, and both are in the money range.\<close>

theorem checked_amounts_exact:
  assumes "tx_CheckAmounts tx = Inr ()"
  shows "tx_GetValueOut tx = Inr (sum_list (map nValue (tx_vout tx)) + sum_list (map vpub_old (vjoinsplit tx)) + sum_list (map cr_nValue (vsc_ccout tx))
       + sum_list (map ft_nValue (vft_ccout tx)) + sum_list (map scFee (vmbtr_out tx)))
    \<and> GetJoinSplitValueIn tx = Inr (sum_list (map vpub_new (vjoinsplit tx))) \<and> GetCSWValueIn tx = Inr (sum_list (map csw_nValue (vcsw_ccin tx)))
    \<and> MoneyRange (sum_list (map nValue (tx_vout tx)) + sum_list (map vpub_old (vjoinsplit tx)) + sum_list (map cr_nValue (vsc_ccout tx))
       + sum_list (map ft_nValue (vft_ccout tx)) + sum_list (map scFee (vmbtr_out tx)))
    \<and> MoneyRange (sum_list (map vpub_new (vjoinsplit tx)) + sum_list (map csw_nValue (vcsw_ccin tx)))"
proof -
  note R = CheckAmounts_ranges [OF assms]
  have "0 \<le> sum_list (map vpub_new (vjoinsplit tx))" "0 \<le> sum_list (map csw_nValue (vcsw_ccin tx))" using R(6,7) by (auto intro!: sum_list_nonneg_range)
  then have "MoneyRange (sum_list (map vpub_new (vjoinsplit tx)))" "MoneyRange (sum_list (map csw_nValue (vcsw_ccin tx)))"
    using R(9) unfolding in_total_def MoneyRange_def by linarith+
  then have "GetJoinSplitValueIn tx = Inr (sum_list (map vpub_new (vjoinsplit tx)))" "GetCSWValueIn tx = Inr (sum_list (map csw_nValue (vcsw_ccin tx)))"
    using add_ranged_loop [OF MoneyRange_0 R(6)] add_ranged_loop [OF MoneyRange_0 R(7)] by (simp_all add: GetJoinSplitValueIn_def GetCSWValueIn_def)
  then show ?thesis using GetValueOut_ok [OF assms] R(8,9) unfolding out_total_def in_total_def by simp
qed

text \<open>The fee check accepts a transaction exactly when its input value is in the money range, its amounts are in range and it spends no
  more than its input value; the fee is then the exact difference, and in the money range.\<close>

lemma fee_check_exact:
  "(tx_CheckFeeAmount tx valueIn = Inr ()) = (MoneyRange valueIn \<and> tx_CheckAmounts tx = Inr () \<and> out_total tx \<le> valueIn) \<and>
   (tx_CheckFeeAmount tx valueIn = Inr () \<longrightarrow> tx_GetFeeAmount tx valueIn = Inr (valueIn - out_total tx) \<and> MoneyRange (valueIn - out_total tx))"
proof (cases "MoneyRange valueIn \<and> tx_CheckAmounts tx = Inr ()")
  case True
  then have g: "tx_GetValueOut tx = Inr (out_total tx)" and o: "MoneyRange (out_total tx)" using GetValueOut_ok CheckAmounts_ranges(8) by auto
  then have w: "wrap64 (valueIn - out_total tx) = valueIn - out_total tx" using True MoneyRange_diff_int64 by blast
  have "out_total tx \<le> valueIn \<Longrightarrow> MoneyRange (valueIn - out_total tx)" using True o by (auto simp: MoneyRange_def)
  then show ?thesis using True g w by (auto simp: tx_CheckFeeAmount_def tx_GetFeeAmount_def reject_def Let_def)
next
  case False
  then show ?thesis by (cases "tx_CheckAmounts tx") (auto simp: tx_CheckFeeAmount_def reject_def)
qed

section \<open>Inputs\<close>

lemma insert_new_loop: "(\<exists>seen'. foldR (insert_new msg) seen xs = Inr seen') \<longleftrightarrow> distinct xs \<and> set xs \<inter> set seen = {}"
proof (induction xs arbitrary: seen)
  case (Cons x xs)
  show ?case
  proof (cases "x \<in> set seen")
    case False
    then have "insert_new msg seen x = Inr (x # seen)" by (simp add: insert_new_def)
    then show ?thesis using Cons.IH [of "x # seen"] False by auto
  qed (simp add: insert_new_def reject_def)
qed simp

text \<open>The duplication check accepts a transaction exactly when no transparent output is spent twice, no shielded nullifier is revealed twice and
  no ceased sidechain withdrawal nullifier is used twice.\<close>

lemma inputs_distinct_iff:
  "tx_CheckInputsDuplication tx = Inr () \<longleftrightarrow>
     distinct (map prevout (tx_vin tx)) \<and> distinct (concat (map js_nullifiers (vjoinsplit tx))) \<and> distinct (map nullifier (vcsw_ccin tx))"
  unfolding tx_CheckInputsDuplication_def base_CheckInputsDuplication_def bindR_assoc bindR_simps by (simp add: insert_new_loop bindR_eq_Inr)

section \<open>Checked objects\<close>

lemma CheckTransaction_parts:
  assumes "CheckTransaction pr cl lib tx = Inr ()"
  shows "tx_IsValidVersion tx = Inr ()" "tx_CheckAmounts tx = Inr ()" "tx_CheckInputsDuplication tx = Inr ()" "tx_CheckInputsInteraction tx = Inr ()"
    "checkTxSemanticValidity pr cl tx = Inr ()"
  using assms by (auto simp: CheckTransaction_def CheckTransactionWithoutProofVerification_def bindR_eq_Inr reject_def split: if_splits)

text \<open>C23: a transaction that passes the check has one of the shapes the rest of the node relies on: a coinbase has no shielded and no
  cross-chain part, any other transaction has only real inputs, all different; only a transaction of the sidechain version
  has cross-chain parts, and then it has no shielded ones.\<close>

theorem checked_transaction_shape:
  assumes "CheckTransaction pr cl lib tx = Inr ()"
  shows "(if tx_IsCoinBase tx then vjoinsplit tx = [] \<and> ccIsNull tx else \<forall>txin \<in> set (tx_vin tx). \<not> outpoint_IsNull (prevout txin))
    \<and> distinct (map prevout (tx_vin tx)) \<and> (if IsScVersion tx then vjoinsplit tx = [] else ccIsNull tx \<and> (tx_nVersion tx = GROTH_TX_VERSION \<or> 1 \<le> tx_nVersion tx))
    \<and> (\<forall>out \<in> set (tx_vout tx). MoneyRange (nValue out))"
proof -
  note P = CheckTransaction_parts [OF assms]
  have "distinct (map prevout (tx_vin tx))" using P(3) insert_new_loop [of "''bad-txns-inputs-duplicate''" "[]"]
    by (auto simp: tx_CheckInputsDuplication_def base_CheckInputsDuplication_def bindR_eq_Inr)
  moreover have "if IsScVersion tx then vjoinsplit tx = [] else ccIsNull tx" using P(5) by (auto simp: checkTxSemanticValidity_def reject_def split: if_splits)
  moreover have "IsScVersion tx \<or> tx_nVersion tx = GROTH_TX_VERSION \<or> 1 \<le> tx_nVersion tx"
    using P(1) by (auto simp: tx_IsValidVersion_def MIN_OLD_TX_VERSION_def reject_def split: if_splits)
  moreover have "if tx_IsCoinBase tx then vjoinsplit tx = [] \<and> ccIsNull tx else \<forall>txin \<in> set (tx_vin tx). \<not> outpoint_IsNull (prevout txin)"
    using P(4) by (auto simp: tx_CheckInputsInteraction_def ccIsNull_def ccOutIsNull_def list_ex_iff reject_def Let_def split: if_splits)
  ultimately show ?thesis using CheckAmounts_ranges(1) [OF P(2)] by auto
qed

lemma map_enumerate_snd: "map (\<lambda>p. f (snd p)) (enumerate n xs) = map f xs"
  by (induction xs arbitrary: n) simp_all

lemma foldl_wrap_sum:
  "MoneyRange a \<Longrightarrow> \<forall>o' \<in> set os. MoneyRange (nValue o') \<Longrightarrow> MoneyRange (a + sum_list (map nValue os)) \<Longrightarrow>
     foldl (\<lambda>a out. wrap64 (a + nValue out)) a os = a + sum_list (map nValue os)"
proof (induction os arbitrary: a)
  case (Cons o' os)
  have "0 \<le> sum_list (map nValue os)" using Cons.prems(2) by (intro sum_list_nonneg_range) auto
  then have "MoneyRange (a + nValue o')" using Cons.prems by (auto simp: MoneyRange_def)
  then show ?case using Cons MoneyRange_add_int64 [of a "nValue o'"] by (simp add: add.assoc)
qed simp

text \<open>In a certificate that passes the amount check, with its first backward transfer inside or right after its outputs, every backward transfer is
  positive, change and backward transfers add up to the sum of all outputs without wrap-around, and that sum is in the money range.\<close>

lemma checked_certificate_amounts:
  assumes c: "cert_CheckAmounts cert = Inr ()" and p: "0 \<le> cert_nFirstBwtPos cert" "cert_nFirstBwtPos cert \<le> int (length (cert_vout cert))" "length (cert_vout cert) < 2 ^ 31"
  shows "\<exists>change. GetValueOfChange cert = Inr change \<and> change + GetValueOfBackwardTransfers cert = sum_list (map nValue (cert_vout cert))
    \<and> MoneyRange (sum_list (map nValue (cert_vout cert))) \<and> MoneyRange change
    \<and> (\<forall>out \<in> set (drop (nat (cert_nFirstBwtPos cert)) (cert_vout cert)). 0 < nValue out)"
proof -
  let ?n = "nat (cert_nFirstBwtPos cert)" and ?o = "cert_vout cert"
  have n: "to_u32 (cert_nFirstBwtPos cert) = ?n" "to_u64 (cert_nFirstBwtPos cert) = ?n" "?n \<le> length ?o" using p by (simp_all add: to_u32_def to_u64_def)
  obtain a where a: "foldR (check_cert_out cert) 0 (enumerate 0 ?o) = Inr a" using c by (auto simp: cert_CheckAmounts_def bindR_eq_Inr)
  have R: "a = 0 + sum_list (map (\<lambda>p. nValue (snd p)) (enumerate 0 ?o)) \<and> MoneyRange a
      \<and> (\<forall>p \<in> set (enumerate 0 ?o). MoneyRange (nValue (snd p)) \<and> (?n \<le> fst p \<longrightarrow> 0 < nValue (snd p)))"
  proof (rule check_loop [OF a MoneyRange_0])
    fix a p a' assume r: "MoneyRange a" "check_cert_out cert a p = Inr a'"
    have "MoneyRange (nValue (snd p))" using check_steps(6) [OF r] by blast
    moreover have "?n \<le> fst p \<Longrightarrow> nValue (snd p) \<noteq> 0" using r(2) n(1) by (auto simp: check_cert_out_def reject_def split: if_splits prod.splits)
    ultimately show "a' = a + nValue (snd p) \<and> MoneyRange a' \<and> (MoneyRange (nValue (snd p)) \<and> (?n \<le> fst p \<longrightarrow> 0 < nValue (snd p)))"
      using check_steps(6) [OF r] by (auto simp: MoneyRange_def)
  qed
  have m: "map (\<lambda>p. nValue (snd p)) (enumerate 0 ?o) = map nValue ?o" by (rule map_enumerate_snd)
  have E: "(i, ?o ! i) \<in> set (enumerate 0 ?o)" if "i < length ?o" for i using that by (simp add: in_set_enumerate_eq)
  have rng: "\<forall>out \<in> set ?o. MoneyRange (nValue out)"
  proof
    fix out assume "out \<in> set ?o"
    then obtain i where "i < length ?o" "out = ?o ! i" by (metis in_set_conv_nth)
    then show "MoneyRange (nValue out)" using R E [of i] by auto
  qed
  have pos: "\<forall>out \<in> set (drop ?n ?o). 0 < nValue out"
  proof
    fix out assume "out \<in> set (drop ?n ?o)"
    then obtain j where "j < length (drop ?n ?o)" "out = drop ?n ?o ! j" by (metis in_set_conv_nth)
    then have "?n + j < length ?o" "out = ?o ! (?n + j)" by simp_all
    then show "0 < nValue out" using R E [of "?n + j"] by auto
  qed
  have s: "sum_list (map nValue (take ?n ?o)) + sum_list (map nValue (drop ?n ?o)) = sum_list (map nValue ?o)"
    by (metis append_take_drop_id map_append sum_list_append)
  have tot: "MoneyRange (sum_list (map nValue ?o))" using R m by auto
  have "0 \<le> sum_list (map nValue (take ?n ?o))" "0 \<le> sum_list (map nValue (drop ?n ?o))"
    using rng by (auto intro!: sum_list_nonneg_range) (meson in_set_takeD in_set_dropD)+
  then have ch: "MoneyRange (sum_list (map nValue (take ?n ?o)))" using s tot by (auto simp: MoneyRange_def)
  have "GetValueOfChange cert = Inr (sum_list (map nValue (take ?n ?o)))"
    using foldl_wrap_sum [OF MoneyRange_0, of "take ?n ?o"] rng ch n by (simp add: GetValueOfChange_def Let_def) (meson in_set_takeD)
  moreover have "GetValueOfBackwardTransfers cert = sum_list (map nValue (drop ?n ?o))" by (simp add: GetValueOfBackwardTransfers_def n)
  ultimately show ?thesis using s tot ch pos by (intro exI [of _ "sum_list (map nValue (take ?n ?o))"]) simp
qed

section \<open>Concrete objects\<close>

definition tx_lib_example :: TxLib where
  "tx_lib_example = \<lparr>tx_GetSerializeSize = (\<lambda>_. 200), cert_GetSerializeSize = (\<lambda>_. 2000), SignatureHash = (\<lambda>_. Some 0),
     crypto_sign_verify_detached = (\<lambda>_ _ _. True), js_Verify = (\<lambda>_ _. True)\<rparr>"

definition payment_example :: CTransaction where
  "payment_example = tx_null\<lparr>tx_vin := [\<lparr>prevout = \<lparr>op_hash = 1, op_n = 0\<rparr>, scriptSig = [], nSequence = 0\<rparr>],
     tx_vout := [\<lparr>nValue = 40, scriptPubKey = []\<rparr>, \<lparr>nValue = 2, scriptPubKey = []\<rparr>]\<rparr>"

lemma payment_amounts: "tx_CheckAmounts payment_example = Inr ()"
  by (simp add: tx_CheckAmounts_def payment_example_def tx_null_def check_txout_def MAX_MONEY_def COIN_def MoneyRange_def wrap64_def)

theorem checked_amounts_exact_witness: "tx_GetValueOut payment_example = Inr 42"
  using checked_amounts_exact [OF payment_amounts] by (simp add: payment_example_def tx_null_def)

theorem checked_transaction_shape_witness:
  "CheckTransaction CMainParams lib_example tx_lib_example payment_example = Inr () \<and> ccIsNull payment_example"
proof -
  have c: "CheckTransaction CMainParams lib_example tx_lib_example payment_example = Inr ()"
    by (simp add: CheckTransaction_def CheckTransactionWithoutProofVerification_def payment_amounts)
      (simp add: payment_example_def tx_null_def tx_lib_example_def tx_IsValidVersion_def version_defs MIN_OLD_TX_VERSION_def tx_CheckInputsOutputsNonEmpty_def
        tx_CheckSerializedSize_def MAX_TX_SIZE_def tx_CheckInputsDuplication_def base_CheckInputsDuplication_def insert_new_def tx_CheckInputsInteraction_def
        tx_IsCoinBase_def outpoint_IsNull_def checkTxSemanticValidity_def IsScVersion_def ccIsNull_def ccOutIsNull_def)
  show ?thesis using c checked_transaction_shape [OF c] by (simp add: payment_example_def tx_null_def IsScVersion_def version_defs)
qed

end
