(* ===== verification/BlockOps.thy ===== *)
theory BlockOps
  imports Acceptance TxChecks
begin

text \<open>
  \<open>ConnectBlock\<close> and \<open>DisconnectBlock\<close> of \<open>main.cpp\<close> on a view of the chain state, with the data they keep to undo a block. The explorer
  indexes are off (\<open>explorerIndexesWrite == OFF\<close>) and no wallet listens (\<open>pCertsStateInfo == nullptr\<close>); timing and logging are
  left out. The undo data is handed over as it is written to and read from disk. The block checks that do not change the chain state
  and that are not modelled elsewhere (proof of work, signature operations, scripts, proofs, commitment) are fields of \<open>BlockRules\<close>.
\<close>

section \<open>Blocks\<close>

record CBlock =
  block_hash :: uint256
  hashPrevBlock :: uint256
  vtx :: "CTransaction list"
  vcert :: "CScCertificate list"

record CBlockUndo =
  vtxundo :: "CTxInUndo list list"
  old_tree_root :: uint256
  scUndoDatabyScId :: ScUndoMap

record BlockRules =
  CheckBlock :: "CBlock \<Rightarrow> unit result"
  tx_GetLegacySigOpCount :: "CTransaction \<Rightarrow> uint32"
  cert_GetLegacySigOpCount :: "CScCertificate \<Rightarrow> uint32"
  tx_GetP2SHSigOpCount :: "CTransaction \<Rightarrow> uint32 look"
  cert_GetP2SHSigOpCount :: "CScCertificate \<Rightarrow> uint32 look"
  LoadDataForCswVerification :: "CTransaction \<Rightarrow> unit look"
  LoadDataForCertVerification :: "CScCertificate \<Rightarrow> unit look"
  ContextualCheckTxInputs :: "CTransaction \<Rightarrow> unit look"
  ContextualCheckCertInputs :: "CScCertificate \<Rightarrow> unit look"
  commitment_add :: "CScCertificate \<Rightarrow> unit look"
  control_Wait :: "CBlock \<Rightarrow> bool"
  commitment_matches :: "CBlock \<Rightarrow> bool"
  BatchVerify :: "CBlock \<Rightarrow> bool"

text \<open>What the functions reach through globals: the network, the block index, the note commitment hash with its uncommitted leaf,
  and the hash of a certificate's data, which the cross-chain library computes.\<close>

record BlockEnv =
  be_params :: CChainParams
  be_chain :: ChainEnv
  be_hasher :: hasher
  be_uncommitted :: uint256
  be_dataHash :: "CScCertificate \<Rightarrow> ScFixedParameters \<Rightarrow> CFieldElement"
  be_genesis :: uint256
  be_slowStartInterval :: int
  be_halvingInterval :: int
  be_rules :: BlockRules

definition MAX_BLOCK_SIGOPS :: uint32 where "MAX_BLOCK_SIGOPS = 20000"

datatype flagBlockProcessingType = COMPLETE | CHECK_ONLY

section \<open>Block reward\<close>

definition SubsidySlowStartShift :: "int \<Rightarrow> int" where
  "SubsidySlowStartShift slow = slow sdiv 2"

definition GetBlockSubsidy :: "int \<Rightarrow> int \<Rightarrow> int \<Rightarrow> CAmount result" where
  "GetBlockSubsidy slow halving h =
     (let nSubsidy = 1250000000 in
      if h = 0 then Inr 0
      else if h < slow sdiv 2 then Inr (nSubsidy sdiv slow * h)
      else if h < slow then Inr (nSubsidy sdiv slow * (h + 1))
      else if \<not> h > SubsidySlowStartShift slow then Inl Assert
      else let halvings = (h - SubsidySlowStartShift slow) sdiv halving in
        if halvings \<ge> 64 then Inr 0 else Inr (drop_bit (nat halvings) nSubsidy))"

section \<open>Certificates of a block\<close>

text \<open>The top quality certificate of each sidechain in the block is the last one; \<open>HighQualityCertData\<close> maps its hash to that of the certificate it
  supersedes, or to zero. Once for a block to connect, and once for a block to disconnect.\<close>

fun high_quality_view :: "uint256 list \<Rightarrow> (uint256 \<times> uint256) list \<Rightarrow> CScCertificate list \<Rightarrow> (uint256 \<times> uint256) list look" where
  "high_quality_view visitedScIds res [] = retL res"
| "high_quality_view visitedScIds res (cert # certs) =
     (if List.member visitedScIds (cert_scId cert) then high_quality_view visitedScIds res certs
      else bindL (onCache (\<lambda>v. CacheGetSidechain v (cert_scId cert))) (\<lambda>r.
        case r of None \<Rightarrow> high_quality_view visitedScIds res certs
        | Some sidechain \<Rightarrow>
            high_quality_view (cert_scId cert # visitedScIds)
              (AList.update (cert_hash cert) (if epochNumber cert = lastTopQualityCertReferencedEpoch sidechain then lastTopQualityCertHash sidechain else 0) res)
              certs))"

definition HighQualityCertData_view :: "CBlock \<Rightarrow> (uint256 \<times> uint256) list look" where
  "HighQualityCertData_view block = high_quality_view [] [] (rev (vcert block))"

text \<open>\<open>std::map::at\<close>.\<close>

definition at_map :: "('k \<times> 'v) list \<Rightarrow> 'k \<Rightarrow> 'v result" where
  "at_map m k = (case map_of m k of None \<Rightarrow> Inl (Throw ''map::at'') | Some x \<Rightarrow> Inr x)"

fun high_quality_undo :: "ScUndoMap \<Rightarrow> uint256 list \<Rightarrow> (uint256 \<times> uint256) list \<Rightarrow> CScCertificate list \<Rightarrow> (uint256 \<times> uint256) list result" where
  "high_quality_undo m visitedScIds res [] = Inr res"
| "high_quality_undo m visitedScIds res (cert # certs) =
     (if List.member visitedScIds (cert_scId cert) then high_quality_undo m visitedScIds res certs
      else bindR (at_map m (cert_scId cert)) (\<lambda>ud.
        high_quality_undo m (cert_scId cert # visitedScIds)
          (AList.update (cert_hash cert) (if epochNumber cert = prevTopCommittedCertReferencedEpoch ud then prevTopCommittedCertHash ud else 0) res) certs))"

definition HighQualityCertData_undo :: "CBlock \<Rightarrow> CBlockUndo \<Rightarrow> (uint256 \<times> uint256) list result" where
  "HighQualityCertData_undo block blockUndo = high_quality_undo (scUndoDatabyScId blockUndo) [] [] (rev (vcert block))"

definition cert_order_step :: "(uint256 \<times> (int \<times> int)) list \<Rightarrow> CScCertificate \<Rightarrow> (uint256 \<times> (int \<times> int)) list result" where
  "cert_order_step mBestCertDataByScId cert =
     (case map_of mBestCertDataByScId (cert_scId cert) of
        Some (epoch, q) \<Rightarrow>
          if epoch \<noteq> epochNumber cert then reject ''bad-cert-epoch''
          else if q \<ge> quality cert then reject ''bad-cert-quality-in-block''
          else Inr (AList.update (cert_scId cert) (epochNumber cert, quality cert) mBestCertDataByScId)
      | None \<Rightarrow> Inr (AList.update (cert_scId cert) (epochNumber cert, quality cert) mBestCertDataByScId))"

definition CheckCertificatesOrdering :: "CScCertificate list \<Rightarrow> unit result" where
  "CheckCertificatesOrdering certList = bindR (foldR cert_order_step [] certList) (\<lambda>_. Inr ())"

section \<open>Connecting\<close>

record ConnectState =
  cs_view :: CCoinsViewCache
  cs_undo :: CBlockUndo
  cs_tree :: ZCIncrementalMerkleTree
  cs_fees :: CAmount
  cs_sigops :: uint32

text \<open>A call that returns \<open>false\<close> makes the block invalid for the given reason.\<close>

definition or_reject :: "string \<Rightarrow> 'a result \<Rightarrow> 'a result" where
  "or_reject reason r = (case r of Inl RetFalse \<Rightarrow> reject reason | _ \<Rightarrow> r)"

text \<open>BIP30: a transaction or certificate must not overwrite one with unspent outputs.\<close>

definition overwrites_nothing :: "uint256 \<Rightarrow> unit look" where
  "overwrites_nothing hash = bindL (onCache (\<lambda>v. AccessCoins v hash)) (\<lambda>coins.
     case coins of None \<Rightarrow> retL () | Some c \<Rightarrow> if \<not> IsPruned c then failL (DoS 100 INVALID ''bad-txns-BIP30'') else retL ())"

fun forL :: "('a \<Rightarrow> unit look) \<Rightarrow> 'a list \<Rightarrow> unit look" where
  "forL f [] = retL ()"
| "forL f (x # xs) = bindL (f x) (\<lambda>_. forL f xs)"

definition count_sigops :: "uint32 \<Rightarrow> uint32 \<Rightarrow> uint32 result" where
  "count_sigops nSigOps n = (if nSigOps + n > MAX_BLOCK_SIGOPS then reject ''bad-blk-sigops'' else Inr (nSigOps + n))"

definition tx_block_checks :: "BlockEnv \<Rightarrow> uint32 \<Rightarrow> CTransaction \<Rightarrow> (uint32 \<times> CAmount) look" where
  "tx_block_checks E nSigOps tx =
     bindL (liftL (count_sigops nSigOps (tx_GetLegacySigOpCount (be_rules E) tx))) (\<lambda>nSigOps.
     if tx_IsCoinBase tx then retL (nSigOps, 0)
     else bindL (HaveInputs (tx_IsCoinBase tx) (tx_vin tx)) (\<lambda>ok.
       if \<not> ok then failL (DoS 100 INVALID ''bad-txns-inputs-missingorspent'')
       else bindL (IsScTxApplicableToState (be_chain E) tx MINIMUM_IN_A_RANGE) (\<lambda>ret_code.
       if ret_code \<noteq> OK then failL (DoS 100 ret_code ''bad-sc-tx-not-applicable'')
       else bindL (LoadDataForCswVerification (be_rules E) tx) (\<lambda>_.
       bindL (HaveJoinSplitRequirements (be_hasher E) (be_uncommitted E) (vjoinsplit tx)) (\<lambda>ok.
       if \<not> ok then failL (DoS 100 INVALID ''bad-txns-joinsplit-requirements-not-met'')
       else bindL (tx_GetP2SHSigOpCount (be_rules E) tx) (\<lambda>n.
       bindL (liftL (count_sigops nSigOps n)) (\<lambda>nSigOps.
       bindL (GetValueIn (tx_IsCoinBase tx) (tx_vin tx) (GetJoinSplitValueIn tx) (GetCSWValueIn tx)) (\<lambda>valueIn.
       bindL (liftL (tx_GetFeeAmount tx valueIn)) (\<lambda>fee.
       bindL (ContextualCheckTxInputs (be_rules E) tx) (\<lambda>_. retL (nSigOps, fee)))))))))))"

definition add_csw_nullifier :: "CCoinsViewCache \<Rightarrow> CTxCeasedSidechainWithdrawalInput \<Rightarrow> CCoinsViewCache result" where
  "add_csw_nullifier v cswIn = (case AddCswNullifier v (csw_scId cswIn, nullifier cswIn) of
     (v, ok) \<Rightarrow> if \<not> ok then reject ''bad-txns-csw-input-nullifier'' else Inr v)"

definition append_notes :: "BlockEnv \<Rightarrow> ZCIncrementalMerkleTree \<Rightarrow> CTransaction \<Rightarrow> ZCIncrementalMerkleTree result" where
  "append_notes E tree tx = foldR (\<lambda>t note_commitment. mt_append (be_hasher E) INCREMENTAL_MERKLE_TREE_DEPTH note_commitment t) tree
     (concat (map commitments (vjoinsplit tx)))"

definition connect_tx :: "BlockEnv \<Rightarrow> int \<Rightarrow> ConnectState \<Rightarrow> nat \<times> CTransaction \<Rightarrow> ConnectState result" where
  "connect_tx E h s = (\<lambda>(txIdx, tx).
     bindR (tx_block_checks E (cs_sigops s) tx (cs_view s)) (\<lambda>(v, nSigOps, fee).
     bindR (UpdateCoins_tx tx v h) (\<lambda>(v, txundo).
     bindR (if txIdx > 0
            then bindR (or_reject ''bad-sc-tx'' (UpdateSidechain_tx (be_params E) v tx h)) (\<lambda>v. foldR add_csw_nullifier v (vcsw_ccin tx))
            else Inr v) (\<lambda>v.
     bindR (append_notes E (cs_tree s) tx) (\<lambda>tree.
       Inr (s\<lparr>cs_view := v, cs_tree := tree, cs_fees := wrap64 (cs_fees s + fee), cs_sigops := nSigOps,
              cs_undo := (if txIdx > 0 then (cs_undo s)\<lparr>vtxundo := vtxundo (cs_undo s) @ [txundo]\<rparr> else cs_undo s)\<rparr>))))))"

definition cert_block_checks :: "BlockEnv \<Rightarrow> uint32 \<Rightarrow> CScCertificate \<Rightarrow> (uint32 \<times> CAmount) look" where
  "cert_block_checks E nSigOps cert =
     bindL (liftL (count_sigops nSigOps (cert_GetLegacySigOpCount (be_rules E) cert))) (\<lambda>nSigOps.
     bindL (HaveInputs False (cert_vin cert)) (\<lambda>ok.
     if \<not> ok then failL (DoS 100 INVALID ''bad-cert-inputs-missingorspent'')
     else bindL (cert_GetP2SHSigOpCount (be_rules E) cert) (\<lambda>n.
     bindL (liftL (count_sigops nSigOps n)) (\<lambda>nSigOps.
     bindL (GetValueIn False (cert_vin cert) (Inr 0) (Inr 0)) (\<lambda>valueIn.
     bindL (liftL (cert_GetFeeAmount cert valueIn)) (\<lambda>fee.
     bindL (ContextualCheckCertInputs (be_rules E) cert) (\<lambda>_.
     bindL (IsCertApplicableToState (be_chain E) cert) (\<lambda>ret_code.
     if ret_code \<noteq> OK then failL (DoS 100 ret_code ''bad-sc-cert-not-applicable'')
     else bindL (LoadDataForCertVerification (be_rules E) cert) (\<lambda>_. retL (nSigOps, fee))))))))))"

text \<open>The top quality certificate of its sidechain: the sidechain moves on and the certificate it supersedes loses its backward transfers.\<close>

definition connect_top_cert :: "BlockEnv \<Rightarrow> uint256 \<Rightarrow> CScCertificate \<Rightarrow> CCoinsViewCache \<Rightarrow> ScUndoMap \<Rightarrow> (CCoinsViewCache \<times> ScUndoMap) result" where
  "connect_top_cert E prevBlockTopQualityCertHash cert v m =
     bindR (or_reject ''bad-sc-cert-not-updated'' (UpdateSidechain_cert (be_dataHash E) v cert m)) (\<lambda>(v, m).
       if prevBlockTopQualityCertHash \<noteq> 0
       then bindR (at_map m (cert_scId cert)) (\<lambda>ud.
            bindR (NullifyBackwardTransfers v prevBlockTopQualityCertHash (lowQualityBwts ud)) (\<lambda>(v, bwts).
              Inr (v, AList.update (cert_scId cert) (add_section SUPERSEDED_CERT_DATA (ud\<lparr>lowQualityBwts := bwts\<rparr>)) m)))
       else Inr (v, m))"

definition connect_cert :: "BlockEnv \<Rightarrow> int \<Rightarrow> (uint256 \<times> uint256) list \<Rightarrow> ConnectState \<Rightarrow> CScCertificate \<Rightarrow> ConnectState result" where
  "connect_cert E h highQualityCertData s cert =
     bindR (cert_block_checks E (cs_sigops s) cert (cs_view s)) (\<lambda>(v, nSigOps, fee).
     let top = map_of highQualityCertData (cert_hash cert); isBlockTopQualityCert = (top \<noteq> None) in
     bindR (UpdateCoins_cert cert v h isBlockTopQualityCert) (\<lambda>(v, txundo).
     case CacheGetSidechain v (cert_scId cert) of (v, r) \<Rightarrow>
     if r = None then Inl Assert
     else bindR (case top of None \<Rightarrow> Inr (v, scUndoDatabyScId (cs_undo s))
                 | Some prev \<Rightarrow> connect_top_cert E prev cert v (scUndoDatabyScId (cs_undo s))) (\<lambda>(v, m).
     bindR (commitment_add (be_rules E) cert v) (\<lambda>(v, _).
       Inr (s\<lparr>cs_view := v, cs_fees := wrap64 (cs_fees s + fee), cs_sigops := nSigOps,
              cs_undo := (cs_undo s)\<lparr>vtxundo := vtxundo (cs_undo s) @ [txundo], scUndoDatabyScId := m\<rparr>\<rparr>)))))"

definition best_tree :: "BlockEnv \<Rightarrow> (uint256 \<times> ZCIncrementalMerkleTree) look" where
  "best_tree E = bindL (onView GetBestAnchor) (\<lambda>old_tree_root.
     bindL (onView (\<lambda>w. GetAnchorAt w old_tree_root)) (\<lambda>r.
       case r of None \<Rightarrow> failL Assert
       | Some tree \<Rightarrow> if mt_root (be_hasher E) (be_uncommitted E) INCREMENTAL_MERKLE_TREE_DEPTH [] tree = old_tree_root
                      then retL (old_tree_root, tree) else failL Assert))"

definition connect_parts :: "BlockEnv \<Rightarrow> int \<Rightarrow> CBlock \<Rightarrow> CCoinsViewCache \<Rightarrow> ConnectState result" where
  "connect_parts E h block v =
     bindR (forL (\<lambda>tx. overwrites_nothing (tx_hash tx)) (vtx block) v) (\<lambda>(v, _).
     bindR (forL (\<lambda>cert. overwrites_nothing (cert_hash cert)) (vcert block) v) (\<lambda>(v, _).
     bindR (best_tree E v) (\<lambda>(v, old_root, tree).
     bindR (foldR (connect_tx E h) \<lparr>cs_view = v, cs_undo = \<lparr>vtxundo = [], old_tree_root = old_root, scUndoDatabyScId = []\<rparr>,
              cs_tree = tree, cs_fees = 0, cs_sigops = 0\<rparr> (enumerate 0 (vtx block))) (\<lambda>s.
     bindR (HighQualityCertData_view block (cs_view s)) (\<lambda>(v, highQualityCertData).
       foldR (connect_cert E h highQualityCertData) (s\<lparr>cs_view := v\<rparr>) (vcert block))))))"

definition ConnectBlock :: "BlockEnv \<Rightarrow> flagBlockProcessingType \<Rightarrow> int \<Rightarrow> CBlock \<Rightarrow> CCoinsViewCache \<Rightarrow> (CCoinsViewCache \<times> CBlockUndo option) result" where
  "ConnectBlock E processingType h block v =
     bindR (CheckBlock (be_rules E) block) (\<lambda>_.
     bindR (onView GetBestBlock v) (\<lambda>(v, best).
     if hashPrevBlock block \<noteq> best then Inl Assert
     else if block_hash block = be_genesis E then
       Inr (if processingType = COMPLETE then SetBestBlock v (block_hash block) else v, None)
     else
     bindR (connect_parts E h block v) (\<lambda>s.
     bindR (or_reject ''bad-sc-events-handling'' (HandleSidechainEvents h (cs_view s) (scUndoDatabyScId (cs_undo s)))) (\<lambda>(v, m).
     let v = PushAnchor v (mt_root (be_hasher E) (be_uncommitted E) INCREMENTAL_MERKLE_TREE_DEPTH [] (cs_tree s)) (cs_tree s);
         blockundo = (cs_undo s)\<lparr>scUndoDatabyScId := m\<rparr> in
     bindR (GetBlockSubsidy (be_slowStartInterval E) (be_halvingInterval E) h) (\<lambda>subsidy.
     if vtx block = [] then Inl Undefined
     else bindR (tx_GetValueOut (hd (vtx block))) (\<lambda>valueOut.
     if valueOut > wrap64 (cs_fees s + subsidy) then reject ''bad-cb-amount''
     else if \<not> control_Wait (be_rules E) block then Inl (DoS 100 OK '''')
     else if \<not> commitment_matches (be_rules E) block then reject ''bad-sc-txs-commitment''
     else if \<not> BatchVerify (be_rules E) block then Inl (DoS 100 INVALID_PROOF ''bad-sc-proof'')
     else if processingType = CHECK_ONLY then Inr (v, None)
     else Inr (SetBestBlock v (block_hash block), Some blockundo)))))))"

section \<open>Disconnecting\<close>

definition disconnect_top_cert :: "uint256 \<Rightarrow> CScCertificate \<Rightarrow> ScUndoMap \<Rightarrow> CCoinsViewCache \<Rightarrow> CCoinsViewCache result" where
  "disconnect_top_cert prevBlockTopQualityCertHash cert m v =
     bindR (if prevBlockTopQualityCertHash \<noteq> 0
            then bindR (at_map m (cert_scId cert)) (\<lambda>ud.
                 if \<not> has_section ud SUPERSEDED_CERT_DATA then Inl Assert
                 else bindR (RestoreBackwardTransfers v prevBlockTopQualityCertHash (lowQualityBwts ud)) (\<lambda>(v, _). Inr v))
            else Inr v) (\<lambda>v.
     bindR (at_map m (cert_scId cert)) (\<lambda>ud. RestoreSidechain v cert ud))"

definition disconnect_cert ::
  "int \<Rightarrow> (uint256 \<times> uint256) list \<Rightarrow> ScUndoMap \<Rightarrow> CCoinsViewCache \<times> bool \<Rightarrow> CScCertificate \<times> CTxInUndo list \<Rightarrow> (CCoinsViewCache \<times> bool) result" where
  "disconnect_cert h highQualityCertData m = (\<lambda>(v, fClean) (cert, vprevout).
     let top = map_of highQualityCertData (cert_hash cert); isBlockTopQualityCert = (top \<noteq> None) in
     case CacheGetSidechain v (cert_scId cert) of
       (v, None) \<Rightarrow> Inl Assert
     | (v, Some sidechain) \<Rightarrow>
       bindR (remove_outputs (cert_hash cert) (From_cert cert h (GetCertMaturityHeight sidechain (epochNumber cert)) isBlockTopQualityCert) (v, fClean)) (\<lambda>(v, fClean).
       bindR (case top of None \<Rightarrow> Inr v | Some prev \<Rightarrow> disconnect_top_cert prev cert m v) (\<lambda>v.
         restore_inputs (cert_vin cert) vprevout (v, fClean))))"

definition remove_csw_nullifier :: "CCoinsViewCache \<Rightarrow> CTxCeasedSidechainWithdrawalInput \<Rightarrow> CCoinsViewCache result" where
  "remove_csw_nullifier v cswIn = (case RemoveCswNullifier v (csw_scId cswIn, nullifier cswIn) of
     (v, ok) \<Rightarrow> if \<not> ok then Inl RetFalse else Inr v)"

text \<open>The undo data of the inputs is missing for the coinbase, which is the first transaction.\<close>

definition disconnect_tx :: "CChainParams \<Rightarrow> int \<Rightarrow> CCoinsViewCache \<times> bool \<Rightarrow> CTransaction \<times> CTxInUndo list option \<Rightarrow> (CCoinsViewCache \<times> bool) result" where
  "disconnect_tx pr h = (\<lambda>s (tx, txundo).
     bindR (remove_outputs (tx_hash tx) (From_tx tx h) s) (\<lambda>(v, fClean).
     let v = set_nullifiers False tx v in
     bindR (foldR remove_csw_nullifier v (vcsw_ccin tx)) (\<lambda>v.
     bindR (RevertTxOutputs pr v tx h) (\<lambda>v.
       case txundo of None \<Rightarrow> Inr (v, fClean) | Some vprevout \<Rightarrow> restore_inputs (tx_vin tx) vprevout (v, fClean)))))"

definition DisconnectBlock :: "BlockEnv \<Rightarrow> int \<Rightarrow> CBlock \<Rightarrow> CBlockUndo \<Rightarrow> CCoinsViewCache \<Rightarrow> (CCoinsViewCache \<times> bool) result" where
  "DisconnectBlock E h block blockUndo v =
     bindR (onView GetBestBlock v) (\<lambda>(v, best).
     if block_hash block \<noteq> best then Inl Assert
     else if length (vtxundo blockUndo) \<noteq> length (vtx block) - 1 + length (vcert block) then Inl RetFalse
     else
     bindR (RevertSidechainEvents (scUndoDatabyScId blockUndo) h v) (\<lambda>v.
     bindR (HighQualityCertData_undo block blockUndo) (\<lambda>highQualityCertData.
     let n = length (vtx block) - 1 in
     bindR (foldR (disconnect_cert h highQualityCertData (scUndoDatabyScId blockUndo)) (v, True)
              (rev (zip (vcert block) (drop n (vtxundo blockUndo))))) (\<lambda>s.
     bindR (foldR (disconnect_tx (be_params E) h) s (rev (zip (vtx block) (None # map Some (take n (vtxundo blockUndo)))))) (\<lambda>(v, fClean).
     bindR (PopAnchor v (old_tree_root blockUndo)) (\<lambda>v.
       Inr (SetBestBlock v (hashPrevBlock block), fClean)))))))"

end
