(* ===== verification/BlockReads.thy ===== *)
theory BlockReads
  imports BlockOps
begin

text \<open>
  What the checks of \<open>ConnectBlock\<close> tell about the chain state when they pass. \<open>learns P f Q\<close> is a triple for a read: in any state whose ledger
  satisfies \<open>P\<close>, if \<open>f\<close> returns then it has only read through the cache, and \<open>Q\<close> relates the ledger and the value.
\<close>

section \<open>Triples for reads\<close>

definition learns :: "(Ledger \<Rightarrow> bool) \<Rightarrow> 'a look \<Rightarrow> (Ledger \<Rightarrow> 'a \<Rightarrow> bool) \<Rightarrow> bool" where
  "learns P f Q \<longleftrightarrow> (\<forall>v v' x. no_erased v \<longrightarrow> P (ledger v) \<longrightarrow> f v = Inr (v', x) \<longrightarrow> reads v v' \<and> Q (ledger v) x)"

lemma learnsD: "learns P f Q \<Longrightarrow> no_erased v \<Longrightarrow> P (ledger v) \<Longrightarrow> f v = Inr (v', x) \<Longrightarrow> reads v v' \<and> Q (ledger v) x"
  unfolding learns_def by blast

lemma learnsI: "(\<And>v v' x. no_erased v \<Longrightarrow> P (ledger v) \<Longrightarrow> f v = Inr (v', x) \<Longrightarrow> reads v v' \<and> Q (ledger v) x) \<Longrightarrow> learns P f Q"
  unfolding learns_def by blast

lemma learns_weaken: "learns P f Q \<Longrightarrow> (\<And>L. P' L \<Longrightarrow> P L) \<Longrightarrow> (\<And>L x. P' L \<Longrightarrow> Q L x \<Longrightarrow> Q' L x) \<Longrightarrow> learns P' f Q'"
  unfolding learns_def by blast

lemma learns_looks: "looks P f g \<Longrightarrow> learns P f (\<lambda>L x. g L = Inr x)"
  by (rule learnsI) (drule (3) looks_Inr, simp)

lemma learns_ret: "(\<And>L. P L \<Longrightarrow> Q L x) \<Longrightarrow> learns P (retL x) Q"
  by (auto simp: learns_def retL_def)

lemma learns_fail: "learns P (failL e) Q"
  by (simp add: learns_def failL_def)

lemma learns_lift: "(\<And>L x. P L \<Longrightarrow> r = Inr x \<Longrightarrow> Q L x) \<Longrightarrow> learns P (liftL r) Q"
  by (cases r) (simp_all add: liftL_def learns_fail learns_ret)

lemma learns_bind:
  assumes "learns P m R" "\<And>x. learns (\<lambda>L. P L \<and> R L x) (k x) Q"
  shows "learns P (bindL m k) Q"
proof (rule learnsI)
  fix v v' x
  assume v: "no_erased v" "P (ledger v)" and f: "bindL m k v = Inr (v', x)"
  obtain v1 y where m: "m v = Inr (v1, y)" "k y v1 = Inr (v', x)" using f by (auto simp: bindL_def bindR_eq_Inr)
  have r: "reads v v1" "R (ledger v) y" using learnsD [OF assms(1) v m(1)] by auto
  have "reads v1 v' \<and> Q (ledger v1) x"
    by (rule learnsD [OF assms(2) reads_no_erased [OF r(1) v(1)] _ m(2)]) (simp only: reads_ledger [OF r(1)] v(2) r(2) simp_thms)
  then show "reads v v' \<and> Q (ledger v) x" using reads_trans [OF r(1)] reads_ledger [OF r(1)] by simp
qed

lemma learns_if: "(b \<Longrightarrow> learns P f Q) \<Longrightarrow> (\<not> b \<Longrightarrow> learns P g Q) \<Longrightarrow> learns P (if b then f else g) Q"
  by simp

lemma learns_option: "(r = None \<Longrightarrow> learns P f Q) \<Longrightarrow> (\<And>x. r = Some x \<Longrightarrow> learns P (g x) Q) \<Longrightarrow> learns P (case r of None \<Rightarrow> f | Some x \<Rightarrow> g x) Q"
  by (cases r) simp_all

text \<open>A read about which nothing else is known.\<close>

abbreviation quiet :: "(Ledger \<Rightarrow> bool) \<Rightarrow> 'a look \<Rightarrow> bool" where "quiet P f \<equiv> learns P f (\<lambda>_ _. True)"

lemma learns_quiet: "learns P f Q \<Longrightarrow> (\<And>L. P' L \<Longrightarrow> P L) \<Longrightarrow> quiet P' f"
  by (erule learns_weaken) auto

lemma quiet_bind: "quiet P m \<Longrightarrow> (\<And>x. quiet P (k x)) \<Longrightarrow> quiet P (bindL m k)"
  by (rule learns_bind [where R = "\<lambda>_ _. True"]) simp_all

lemma quiet_basic: "quiet P (retL x)" "quiet P (failL e)" "quiet P (liftL r)"
  by (simp_all add: learns_ret learns_fail learns_lift)

section \<open>Coins, anchors and nullifiers\<close>

lemma learns_coins: "learns P (onCache (\<lambda>v. AccessCoins v k)) (\<lambda>L c. l_coins L k = normC c)"
proof (rule learnsI)
  fix v v' c
  assume "onCache (\<lambda>v. AccessCoins v k) v = Inr (v', c)"
  then have "AccessCoins v k = (v', c)" by (simp add: onCache_def)
  then show "reads v v' \<and> l_coins (ledger v) k = normC c" using AccessCoins_reads by simp
qed

lemma learns_bestAnchor: "learns P (onView GetBestAnchor) (\<lambda>L r. r = l_bestAnchor L)"
proof (rule learnsI)
  fix v v' r
  assume a: "onView GetBestAnchor v = Inr (v', r)"
  obtain c' b' where "GetBestAnchor (vw v) = (CacheView c' b', l_bestAnchor (ledger v))" "reads v (c', b')" by (rule GetBestAnchor_reads)
  then show "reads v v' \<and> r = l_bestAnchor (ledger v)" using a by (simp add: onView_def del: ledger_sel)
qed

lemma looks_anchor: "looks P (onView (\<lambda>w. GetAnchorAt w k)) (\<lambda>L. Inr (l_anchors L k))"
proof (rule looks_onView)
  fix v :: CCoinsViewCache
  obtain c b where v: "v = (c, b)" by (cases v)
  obtain w s where w: "GetAnchorAt (vw v) k = (w, s)" by fastforce
  obtain c' b' where c': "w = CacheView c' b'" "cacheSidechains c' = cacheSidechains c" "cacheSidechainEvents c' = cacheSidechainEvents c" "cacheCswNullifiers c' = cacheCswNullifiers c"
    using w v by (auto split: option.splits prod.splits)
  note S = anchor_lookup.get_eq [OF w]
  have "reads v (c', b')" using S c' v by (simp add: reads_def erased_mono_def sc_entry_def ev_entry_def csw_entry_def)
  then show "\<exists>c b. GetAnchorAt (vw v) k = (CacheView c b, l_anchors (ledger v) k) \<and> reads v (c, b)" using w c'(1) S by auto
qed

lemma looks_nf: "looks P (onView (\<lambda>w. GetNullifier w k)) (\<lambda>L. Inr (l_nf L k))"
proof (rule looks_onView)
  fix v :: CCoinsViewCache
  obtain c b where v: "v = (c, b)" by (cases v)
  obtain w s where w: "GetNullifier (vw v) k = (w, s)" by fastforce
  obtain c' b' where c': "w = CacheView c' b'" "cacheSidechains c' = cacheSidechains c" "cacheSidechainEvents c' = cacheSidechainEvents c" "cacheCswNullifiers c' = cacheCswNullifiers c"
    using w v by (auto split: option.splits prod.splits)
  note S = nf_lookup.get_eq [OF w]
  have "reads v (c', b')" using S c' v by (simp add: reads_def erased_mono_def sc_entry_def ev_entry_def csw_entry_def)
  then show "\<exists>c b. GetNullifier (vw v) k = (CacheView c b, l_nf (ledger v) k) \<and> reads v (c, b)" using w c'(1) S by auto
qed

lemma learns_allL:
  assumes "\<And>x. x \<in> set xs \<Longrightarrow> learns P (p x) (\<lambda>L b. b \<longrightarrow> Q L x)"
  shows "learns P (allL p xs) (\<lambda>L b. b \<longrightarrow> (\<forall>x \<in> set xs. Q L x))"
  using assms
proof (induction xs)
  case (Cons x xs)
  show ?case unfolding allL.simps
  proof (rule learns_bind [where R = "\<lambda>L b. b \<longrightarrow> Q L x"], rule Cons.prems, simp)
    fix b
    show "learns (\<lambda>L. P L \<and> (b \<longrightarrow> Q L x)) (if b then allL p xs else retL False) (\<lambda>L b. b \<longrightarrow> (\<forall>x \<in> set (x # xs). Q L x))"
    proof (rule learns_if)
      assume b: b
      show "learns (\<lambda>L. P L \<and> (b \<longrightarrow> Q L x)) (allL p xs) (\<lambda>L b. b \<longrightarrow> (\<forall>x \<in> set (x # xs). Q L x))"
        by (rule learns_weaken [OF Cons.IH]) (use Cons.prems b in auto)
    qed (simp add: learns_ret)
  qed
qed (simp add: learns_ret)

text \<open>BIP30: the hash has no unspent output.\<close>

lemma learns_overwrites: "learns P (overwrites_nothing k) (\<lambda>L _. l_coins L k = None)"
  unfolding overwrites_nothing_def
  by (rule learns_bind [OF learns_coins], rule learns_option) (auto simp: normC_def intro!: learns_if learns_fail learns_ret)

lemma learns_forL:
  assumes "\<And>x. x \<in> set xs \<Longrightarrow> learns P (f x) (\<lambda>L _. Q L x)"
  shows "learns P (forL f xs) (\<lambda>L _. \<forall>x \<in> set xs. Q L x)"
  using assms
proof (induction xs)
  case (Cons x xs)
  show ?case unfolding forL.simps
  proof (rule learns_bind [where R = "\<lambda>L _. Q L x"], rule Cons.prems, simp)
    show "learns (\<lambda>L. P L \<and> Q L x) (forL f xs) (\<lambda>L _. \<forall>x \<in> set (x # xs). Q L x)"
      by (rule learns_weaken [OF Cons.IH]) (use Cons.prems in auto)
  qed
qed (simp add: learns_ret)

lemma quiet_HaveInput: "quiet P (HaveInput txin)"
  unfolding HaveInput_def by (rule quiet_bind [OF learns_quiet [OF learns_coins]]) (simp_all add: quiet_basic)

lemma quiet_HaveInputs: "quiet P (HaveInputs c vin)"
proof -
  have "learns P (allL HaveInput vin) (\<lambda>L b. b \<longrightarrow> (\<forall>x \<in> set vin. True))" by (rule learns_allL) (use quiet_HaveInput in auto)
  then show ?thesis unfolding HaveInputs_def by (cases c) (simp_all add: quiet_basic)
qed

lemma quiet_GetOutputFor: "quiet P (GetOutputFor txin)"
  unfolding GetOutputFor_def
  by (rule quiet_bind [OF learns_quiet [OF learns_coins]]) (simp_all add: quiet_basic learns_option learns_if)

lemma quiet_sumL: "(\<And>x. quiet P (f x)) \<Longrightarrow> quiet P (sumL f a xs)"
proof (induction xs arbitrary: a)
  case (Cons x xs)
  show ?case unfolding sumL.simps by (rule quiet_bind) (use Cons in simp_all)
qed (simp add: quiet_basic)

lemma quiet_GetValueIn: "quiet P (GetValueIn c vin a b)"
proof -
  have "quiet P (sumL (\<lambda>txin. bindL (GetOutputFor txin) (\<lambda>out. retL (nValue out))) 0 vin)"
    by (rule quiet_sumL, rule quiet_bind) (simp_all add: quiet_GetOutputFor quiet_basic)
  then show ?thesis unfolding GetValueIn_def by (intro learns_if quiet_bind) (simp_all add: quiet_basic)
qed

lemma learns_joinsplits:
  "learns P (joinsplit_requirements cmb u I jss) (\<lambda>L b. b \<longrightarrow> (\<forall>js \<in> set jss. \<forall>nf \<in> set (js_nullifiers js). \<not> l_nf L nf))"
proof (induction jss arbitrary: I P)
  case (Cons js jss)
  let ?Q = "\<lambda>L b. b \<longrightarrow> (\<forall>nf \<in> set (js_nullifiers js). \<not> l_nf L nf)"
  have a: "learns P (allL (\<lambda>nf. bindL (onView (\<lambda>w. GetNullifier w nf)) (\<lambda>spent. retL (\<not> spent))) (js_nullifiers js)) ?Q"
    by (rule learns_allL, rule learns_bind [OF learns_looks [OF looks_nf]]) (auto intro!: learns_ret)
  have b: "quiet P' (case I (anchor js) of Some t \<Rightarrow> retL (Some t) | None \<Rightarrow> onView (\<lambda>w. GetAnchorAt w (anchor js)))" for P'
    by (rule learns_option) (simp_all add: quiet_basic learns_quiet [OF learns_looks [OF looks_anchor]])
  show ?case unfolding joinsplit_requirements.simps
  proof (rule learns_bind [OF a], rule learns_if, goal_cases)
    case (2 unspent)
    show ?case
    proof (rule learns_bind [OF b], rule learns_option, goal_cases)
      case (2 r tree)
      let ?P = "\<lambda>L. (P L \<and> ?Q L unspent) \<and> True"
      show ?case
      proof (cases "foldR (\<lambda>t c. mt_append cmb INCREMENTAL_MERKLE_TREE_DEPTH c t) tree (commitments js)")
        case (Inr t)
        have "learns ?P (joinsplit_requirements cmb u I' jss) (\<lambda>L b. b \<longrightarrow> (\<forall>js \<in> set (js # jss). \<forall>nf \<in> set (js_nullifiers js). \<not> l_nf L nf))" for I'
          by (rule learns_weaken [OF Cons.IH [of ?P]]) (use \<open>\<not> \<not> unspent\<close> in auto)
        then show ?thesis using Inr by (simp add: Let_def)
      qed (simp add: learns_fail)
    qed (simp add: learns_ret)
  qed (simp add: learns_ret)
qed (simp add: learns_ret)

lemma learns_best_tree:
  "learns P (best_tree E) (\<lambda>L (r, t). r = l_bestAnchor L \<and> l_anchors L r = Some t \<and> mt_root (be_hasher E) (be_uncommitted E) INCREMENTAL_MERKLE_TREE_DEPTH [] t = r)"
  unfolding best_tree_def
  by (rule learns_bind [OF learns_bestAnchor], rule learns_bind [OF learns_looks [OF looks_anchor]], rule learns_option)
    (auto intro!: learns_if learns_fail learns_ret)

section \<open>The checks of a transaction and of a certificate\<close>

text \<open>The rules of a block that are not modelled only read.\<close>

definition reading_rules :: "BlockRules \<Rightarrow> bool" where
  "reading_rules R \<longleftrightarrow> (\<forall>P tx. quiet P (tx_GetP2SHSigOpCount R tx) \<and> quiet P (LoadDataForCswVerification R tx) \<and> quiet P (ContextualCheckTxInputs R tx))
     \<and> (\<forall>P cert. quiet P (cert_GetP2SHSigOpCount R cert) \<and> quiet P (LoadDataForCertVerification R cert) \<and> quiet P (ContextualCheckCertInputs R cert)
       \<and> quiet P (commitment_add R cert))"

lemma learns_tx_checks:
  assumes R: "reading_rules (be_rules E)"
  shows "learns (at_height (be_chain E) H) (tx_block_checks E n tx)
    (\<lambda>L _. \<not> tx_IsCoinBase tx \<longrightarrow> tx_code (be_chain E) H MINIMUM_IN_A_RANGE tx L = Inr OK \<and> (\<forall>nf \<in> tx_nullifiers tx. \<not> l_nf L nf))"
proof -
  let ?R = "be_rules E" and ?P = "at_height (be_chain E) H"
  have q: "quiet P (tx_GetP2SHSigOpCount ?R tx)" "quiet P (LoadDataForCswVerification ?R tx)" "quiet P (ContextualCheckTxInputs ?R tx)" for P
    using R by (simp_all add: reading_rules_def)
  show ?thesis unfolding tx_block_checks_def HaveJoinSplitRequirements_def
    apply (rule learns_bind [OF quiet_basic(3)], rule learns_if)
     apply (simp add: learns_ret)
    apply (rule learns_bind [OF quiet_HaveInputs], rule learns_if, rule learns_fail)
    apply (rule learns_bind [where R = "\<lambda>L c. tx_code (be_chain E) H MINIMUM_IN_A_RANGE tx L = Inr c"])
     apply (rule learns_weaken [OF learns_looks [OF looks_tx]], simp, simp)
    apply (rule learns_if, rule learns_fail)
    apply (rule learns_bind [OF q(2)], rule learns_bind [OF learns_joinsplits], rule learns_if, rule learns_fail)
    apply (rule learns_bind [OF q(1)], rule learns_bind [OF quiet_basic(3)], rule learns_bind [OF quiet_GetValueIn])
    apply (rule learns_bind [OF quiet_basic(3)], rule learns_bind [OF q(3)])
    apply (rule learns_ret) by (auto simp: tx_nullifiers_def)
qed

lemma learns_cert_checks:
  assumes R: "reading_rules (be_rules E)"
  shows "learns (at_height (be_chain E) H) (cert_block_checks E n cert) (\<lambda>L _. cert_code (be_chain E) H cert (l_sc L (cert_scId cert)) = OK)"
proof -
  let ?R = "be_rules E" and ?P = "at_height (be_chain E) H"
  have q: "quiet P (cert_GetP2SHSigOpCount ?R cert)" "quiet P (LoadDataForCertVerification ?R cert)" "quiet P (ContextualCheckCertInputs ?R cert)" for P
    using R by (simp_all add: reading_rules_def)
  show ?thesis unfolding cert_block_checks_def
    apply (rule learns_bind [OF quiet_basic(3)], rule learns_bind [OF quiet_HaveInputs], rule learns_if, rule learns_fail)
    apply (rule learns_bind [OF q(1)], rule learns_bind [OF quiet_basic(3)], rule learns_bind [OF quiet_GetValueIn])
    apply (rule learns_bind [OF quiet_basic(3)], rule learns_bind [OF q(3)])
    apply (rule learns_bind [where R = "\<lambda>L c. cert_code (be_chain E) H cert (l_sc L (cert_scId cert)) = c"])
     apply (rule learns_weaken [OF learns_looks [OF looks_cert]], simp, simp)
    apply (rule learns_if, rule learns_fail)
    apply (rule learns_bind [OF q(2)])
    apply (rule learns_ret) by auto
qed

end
