(* ===== verification/ChainInv.thy ===== *)
theory ChainInv
  imports BlockReads
begin

text \<open>
  The invariant of the chain state between blocks and inside one: well-formed coins, sidechains with positive immature amounts, and events that are scheduled
  exactly where the sidechains say. It is preserved by every step of a block, and it is what the events of a block rely on.
\<close>

section \<open>The invariant\<close>

definition coin_inv :: "coinmap \<Rightarrow> bool" where
  "coin_inv C \<longleftrightarrow> coins_inv C \<and> (\<forall>k c. C k = Some c \<longrightarrow> nBwtMaturityHeight c \<noteq> 0 \<longrightarrow> 0 \<le> nFirstBwtPos c \<and> nFirstBwtPos c < 2 ^ 31)"

text \<open>Immature amounts are positive and mature from \<open>h\<close> to \<open>m\<close>.\<close>

definition sc_inv :: "int \<Rightarrow> int \<Rightarrow> CSidechain \<Rightarrow> bool" where
  "sc_inv h m sc \<longleftrightarrow> 0 \<le> creationBlockHeight sc \<and> 0 < epochLen sc \<and> 0 \<le> balance sc \<and> - 1 \<le> lastTopQualityCertReferencedEpoch sc
     \<and> (lastTopQualityCertReferencedEpoch sc = EPOCH_NULL \<longleftrightarrow> lastTopQualityCertHash sc = 0)
     \<and> (\<forall>H a. mImmatureAmounts sc H = Some a \<longrightarrow> 0 < a \<and> h \<le> H \<and> H \<le> m)"

definition sched_inv :: "int \<Rightarrow> (uint256 \<rightharpoonup> CSidechain) \<Rightarrow> (int \<Rightarrow> uint256 set) \<Rightarrow> bool" where
  "sched_inv h S C \<longleftrightarrow> (\<forall>H k. k \<in> C H \<longleftrightarrow> h \<le> H \<and> (\<exists>sc. S k = Some sc \<and> GetScheduledCeasingHeight sc = H))"

definition mature_inv :: "(uint256 \<rightharpoonup> CSidechain) \<Rightarrow> (int \<Rightarrow> uint256 set) \<Rightarrow> bool" where
  "mature_inv S M \<longleftrightarrow> (\<forall>H k. k \<in> M H \<longleftrightarrow> (\<exists>sc. S k = Some sc \<and> mImmatureAmounts sc H \<noteq> None))"

text \<open>The last certificates of different sidechains are different, and a record they still have is that of a certificate.\<close>

definition certs_inv :: "(uint256 \<rightharpoonup> CSidechain) \<Rightarrow> coinmap \<Rightarrow> bool" where
  "certs_inv S C \<longleftrightarrow> (\<forall>k c. last_cert S k \<noteq> 0 \<longrightarrow> C (last_cert S k) = Some c \<longrightarrow> nBwtMaturityHeight c \<noteq> 0)
     \<and> (\<forall>j k. last_cert S j = last_cert S k \<longrightarrow> last_cert S j \<noteq> 0 \<longrightarrow> j = k)"

definition chain_inv :: "int \<Rightarrow> int \<Rightarrow> Ledger \<Rightarrow> bool" where
  "chain_inv h m L \<longleftrightarrow> coin_inv (l_coins L) \<and> (\<forall>k sc. l_sc L k = Some sc \<longrightarrow> sc_inv h m sc) \<and> sched_inv h (l_sc L) (l_ceasing L)
     \<and> mature_inv (l_sc L) (l_maturing L) \<and> (\<forall>H. finite (l_ceasing L H) \<and> finite (l_maturing L H)) \<and> certs_inv (l_sc L) (l_coins L)"

lemma chain_invD:
  assumes "chain_inv h m L"
  shows "coin_inv (l_coins L)" "coins_inv (l_coins L)" "\<And>k sc. l_sc L k = Some sc \<Longrightarrow> sc_inv h m sc" "sched_inv h (l_sc L) (l_ceasing L)"
    "mature_inv (l_sc L) (l_maturing L)" "\<And>H. finite (l_ceasing L H)" "\<And>H. finite (l_maturing L H)" "certs_inv (l_sc L) (l_coins L)"
  using assms by (auto simp: chain_inv_def coin_inv_def)

lemma sc_inv_mono: "sc_inv h m sc \<Longrightarrow> m \<le> m' \<Longrightarrow> sc_inv h m' sc"
  unfolding sc_inv_def by fastforce

lemma chain_inv_mono: "chain_inv h m L \<Longrightarrow> m \<le> m' \<Longrightarrow> chain_inv h m' L"
  unfolding chain_inv_def using sc_inv_mono by blast

lemma sc_inv_confirmed [simp]: "sc_inv h m sc \<Longrightarrow> isCreationConfirmed sc"
  by (auto simp: sc_inv_def isCreationConfirmed_def)

text \<open>Nothing matures beyond the last height.\<close>

lemma chain_inv_new: "chain_inv h m L \<Longrightarrow> m < H \<Longrightarrow> l_maturing L H = {}"
  by (fastforce simp: chain_inv_def mature_inv_def sc_inv_def)

lemma chain_inv_core: "chain_inv h m L \<Longrightarrow> core_inv H (core_of L)"
  by (fastforce simp: chain_inv_def core_inv_def core_of_def sc_inv_def sched_inv_def)

lemma chain_inv_scheduled: "chain_inv h m L \<Longrightarrow> l_sc L k = Some sc \<Longrightarrow> h \<le> GetScheduledCeasingHeight sc \<Longrightarrow> scheduled (l_ceasing L) k sc"
  using chain_invD(3) [of h m L k sc] chain_invD(4) [of h m L] sc_inv_confirmed [of h m sc] by (auto simp: scheduled_def sched_inv_def sc_inv_def)

text \<open>Only the ledger's coins, sidechains and events matter.\<close>

lemma chain_inv_other [simp]:
  "chain_inv h m (L\<lparr>l_nf := x\<rparr>) = chain_inv h m L" "chain_inv h m (L\<lparr>l_csw := y\<rparr>) = chain_inv h m L"
  "chain_inv h m (L\<lparr>l_anchors := a\<rparr>) = chain_inv h m L" "chain_inv h m (L\<lparr>l_bestAnchor := b\<rparr>) = chain_inv h m L" "chain_inv h m (L\<lparr>l_best := b\<rparr>) = chain_inv h m L"
  by (simp_all add: chain_inv_def)

section \<open>The events of a block\<close>

lemma chain_inv_events:
  assumes "chain_inv h m L"
  shows "events_inv h L" "positive_maturing h L"
proof -
  note D = chain_invD [OF assms]
  have "cease_ok (l_sc L) (l_coins L) k" if "k \<in> l_ceasing L h" for k
  proof -
    obtain sc where sc: "l_sc L k = Some sc" using D(4) \<open>k \<in> l_ceasing L h\<close> by (auto simp: sched_inv_def)
    show ?thesis unfolding cease_ok_def using sc D(3) [OF sc] D(1,8) by (auto simp: sc_inv_def certs_inv_def coin_inv_def)
  qed
  moreover have "\<exists>sc. l_sc L k = Some sc \<and> mImmatureAmounts sc h \<noteq> None" if "k \<in> l_maturing L h" for k using D(5) that by (auto simp: mature_inv_def)
  moreover have "distinct_certs (l_sc L) (l_ceasing L h)" using D(8) by (auto simp: distinct_certs_def certs_inv_def)
  ultimately show "events_inv h L" using D(2,6,7) by (simp add: events_inv_def)
  show "positive_maturing h L" using D(3) by (auto simp: positive_maturing_def sc_inv_def)
qed

section \<open>Coins\<close>

text \<open>\<open>C'\<close> has no record that \<open>C\<close> lacks, and its records have the certificate data of those of \<open>C\<close>.\<close>

definition fewer :: "coinmap \<Rightarrow> coinmap \<Rightarrow> bool" where
  "fewer C C' \<longleftrightarrow> (\<forall>k c'. C' k = Some c' \<longrightarrow> (\<exists>c. C k = Some c \<and> nBwtMaturityHeight c' = nBwtMaturityHeight c \<and> nFirstBwtPos c' = nFirstBwtPos c))"

lemma fewer_refl [simp]: "fewer C C" by (auto simp: fewer_def)

lemma fewer_trans: "fewer C D \<Longrightarrow> fewer D E \<Longrightarrow> fewer C E" unfolding fewer_def by metis

lemma fewer_None: "fewer C C' \<Longrightarrow> C k = None \<Longrightarrow> C' k = None"
  unfolding fewer_def by (metis not_None_eq)

lemma fewer_upd: "C k = Some c \<Longrightarrow> nBwtMaturityHeight c' = nBwtMaturityHeight c \<Longrightarrow> nFirstBwtPos c' = nFirstBwtPos c \<Longrightarrow> fewer C (C(k := normC (Some c')))"
  by (auto simp: fewer_def normC_def split: if_splits)

lemma coin_inv_fewer: "coin_inv C \<Longrightarrow> fewer C C' \<Longrightarrow> coins_inv C' \<Longrightarrow> coin_inv C'"
  unfolding coin_inv_def fewer_def by metis

lemma certs_inv_fewer: "certs_inv S C \<Longrightarrow> fewer C C' \<Longrightarrow> certs_inv S C'"
  unfolding certs_inv_def fewer_def by metis

lemma Spend_meta: "nBwtMaturityHeight (fst (Spend p c)) = nBwtMaturityHeight c" "nFirstBwtPos (fst (Spend p c)) = nFirstBwtPos c"
  by (simp_all add: Spend_def Cleanup_def)

lemma spend_with_undo_meta: "spend_with_undo p c = (c', u) \<Longrightarrow> nBwtMaturityHeight c' = nBwtMaturityHeight c \<and> nFirstBwtPos c' = nFirstBwtPos c"
  by (auto simp: spend_with_undo_def Let_def Spend_meta)

lemma spec_spend_fewer: "spec_spend (C, us) x = Inr (C', us') \<Longrightarrow> fewer C C'"
  by (auto simp: spec_spend_def Let_def split: option.splits if_splits prod.splits dest!: spend_with_undo_meta intro!: fewer_upd)

lemma spends_fewer: "foldR spec_spend (C, us) xs = Inr (C', us') \<Longrightarrow> fewer C C' \<and> (coins_inv C \<longrightarrow> coins_inv C')"
proof (induction xs arbitrary: C us)
  case (Cons x xs)
  then obtain C1 us1 where s: "spec_spend (C, us) x = Inr (C1, us1)" "foldR spec_spend (C1, us1) xs = Inr (C', us')" by (auto split: sum.splits)
  then show ?case using Cons.IH [OF s(2)] spec_spend_fewer [OF s(1)] spec_spend_inv [OF s(1)] fewer_trans by blast
qed simp

lemma spec_ins_fewer: "spec_ins b xs C = Inr (C', us) \<Longrightarrow> fewer C C' \<and> (coins_inv C \<longrightarrow> coins_inv C')"
  using spends_fewer by (auto simp: spec_ins_def split: if_splits)

lemma nullify_from_meta: "nullify_from p c us = (c', us') \<Longrightarrow> nBwtMaturityHeight c' = nBwtMaturityHeight c \<and> nFirstBwtPos c' = nFirstBwtPos c"
proof (induction p c us rule: nullify_from.induct)
  case (1 p c us)
  show ?case
  proof (cases "p < length (vout c)")
    case True
    obtain c1 u where s: "spend_with_undo p c = (c1, u)" by fastforce
    then have "nullify_from (p + 1) c1 (us @ [u]) = (c', us')" using 1(2) True by (simp add: nullify_from.simps [of p])
    then show ?thesis using 1(1) [OF True s [symmetric]] spend_with_undo_meta [OF s] by simp
  qed (use 1(2) in \<open>simp add: nullify_from.simps [of p]\<close>)
qed

lemma spec_nullify_fewer: "spec_nullify k C = Inr (C', us) \<Longrightarrow> fewer C C'"
  by (auto simp: spec_nullify_def split: if_splits option.splits prod.splits dest!: nullify_from_meta intro!: fewer_upd)

lemma nul_coin_meta: "nul_coin c = Some c' \<Longrightarrow> nBwtMaturityHeight c' = nBwtMaturityHeight c \<and> nFirstBwtPos c' = nFirstBwtPos c"
  using nullify_from_meta [of "to_u64 (nFirstBwtPos c)" c "[]"]
  by (cases "nullify_from (to_u64 (nFirstBwtPos c)) c []") (auto simp: nul_coin_def normC_def split: if_splits)

lemma cease_on_fewer: "fewer C (cease_on X C)"
  by (auto simp: fewer_def cease_on_def bind_eq_Some_conv dest!: nul_coin_meta)

text \<open>A record for a new hash.\<close>

lemma coin_inv_add:
  assumes "coin_inv C" "clean_coins c" "nHeight c \<noteq> 0" "nBwtMaturityHeight c \<noteq> 0 \<longrightarrow> 0 \<le> nFirstBwtPos c \<and> nFirstBwtPos c < 2 ^ 31"
  shows "coin_inv (C(k := normC (Some c)))"
  using assms coins_inv_upd [of C c k] by (auto simp: coin_inv_def normC_def)

lemma certs_inv_add: "certs_inv S C \<Longrightarrow> \<forall>j. last_cert S j \<noteq> k \<Longrightarrow> certs_inv S (C(k := r))"
  by (simp add: certs_inv_def)

lemma sc_inv_later: "sc_inv h m sc \<Longrightarrow> mImmatureAmounts sc h = None \<Longrightarrow> sc_inv (h + 1) m sc"
  unfolding sc_inv_def by (metis add1_zle_eq order_le_less option.distinct(1))

lemma matured_facts:
  assumes "sc_inv h m sc" "mImmatureAmounts sc h = Some a"
  shows "sc_inv (h + 1) m (matured h sc)" "GetScheduledCeasingHeight (matured h sc) = GetScheduledCeasingHeight sc"
    "mImmatureAmounts (matured h sc) H = (if H = h then None else mImmatureAmounts sc H)"
proof -
  have "0 < a" "0 \<le> balance sc" using assms by (simp_all add: sc_inv_def)
  then have "0 \<le> balance sc + a" by simp
  then have "sc_inv h m (matured h sc)" using assms by (auto simp: sc_inv_def matured_def split: if_splits)
  then show "sc_inv (h + 1) m (matured h sc)" by (rule sc_inv_later) (simp add: matured_def)
qed (simp_all add: matured_def epoch_defs isCreationConfirmed_def GetCertSubmissionWindowLength_def)

lemma spec_events_chain_inv:
  assumes "chain_inv h m L"
  shows "chain_inv (h + 1) m (spec_events h L)"
proof -
  note D = chain_invD [OF assms] and E = chain_inv_events [OF assms]
  let ?S = "mature_all h (l_maturing L h) (l_sc L)" and ?C = "cease_on (last_cert (l_sc L) ` l_ceasing L h) (l_coins L)"
  have sc: "\<exists>sc0. l_sc L k = Some sc0 \<and> GetScheduledCeasingHeight sc = GetScheduledCeasingHeight sc0 \<and> sc_inv (h + 1) m sc
      \<and> (\<forall>H. mImmatureAmounts sc H = (if H = h then None else mImmatureAmounts sc0 H))" if "?S k = Some sc" for k sc
  proof -
    obtain sc0 where sc0: "l_sc L k = Some sc0" "sc = (if k \<in> l_maturing L h then matured h sc0 else sc0)"
      using \<open>?S k = Some sc\<close> by (auto simp: mature_all_def split: if_splits)
    note I = D(3) [OF sc0(1)]
    have m: "k \<in> l_maturing L h \<longleftrightarrow> mImmatureAmounts sc0 h \<noteq> None" using D(5) sc0(1) by (auto simp: mature_inv_def)
    show ?thesis
    proof (cases "k \<in> l_maturing L h")
      case True
      then obtain a where "mImmatureAmounts sc0 h = Some a" using m by auto
      then show ?thesis using sc0 True matured_facts [OF I] by simp
    next
      case False
      then have "mImmatureAmounts sc0 h = None" using m by auto
      then show ?thesis using sc0 False sc_inv_later [OF I] by simp
    qed
  qed
  have dom: "?S k = None \<longleftrightarrow> l_sc L k = None" for k by (auto simp: mature_all_def)
  have "sched_inv (h + 1) ?S ((l_ceasing L)(h := {}))"
    unfolding sched_inv_def
  proof (intro allI)
    fix H k
    have "(\<exists>sc. ?S k = Some sc \<and> GetScheduledCeasingHeight sc = H) \<longleftrightarrow> (\<exists>sc. l_sc L k = Some sc \<and> GetScheduledCeasingHeight sc = H)"
      using sc [of k] dom [of k] by (metis option.distinct(1) option.exhaust option.inject)
    then show "k \<in> ((l_ceasing L)(h := {})) H \<longleftrightarrow> h + 1 \<le> H \<and> (\<exists>sc. ?S k = Some sc \<and> GetScheduledCeasingHeight sc = H)"
      using D(4) by (auto simp: sched_inv_def)
  qed
  moreover have "mature_inv ?S ((l_maturing L)(h := {}))"
    unfolding mature_inv_def
  proof (intro allI)
    fix H k
    have "(\<exists>sc. ?S k = Some sc \<and> mImmatureAmounts sc H \<noteq> None) \<longleftrightarrow> H \<noteq> h \<and> (\<exists>sc. l_sc L k = Some sc \<and> mImmatureAmounts sc H \<noteq> None)"
      using sc [of k] dom [of k] by (metis option.distinct(1) option.exhaust option.inject)
    then show "k \<in> ((l_maturing L)(h := {})) H \<longleftrightarrow> (\<exists>sc. ?S k = Some sc \<and> mImmatureAmounts sc H \<noteq> None)"
      using D(5) by (auto simp: mature_inv_def)
  qed
  moreover have "coins_inv ?C"
    by (rule cease_all_inv) (use E(1) in \<open>auto simp: events_inv_def\<close>)
  ultimately show ?thesis unfolding chain_inv_def spec_events_def
    using sc D coin_inv_fewer [OF D(1) cease_on_fewer] certs_inv_fewer [OF D(8) cease_on_fewer] by (auto simp: certs_inv_def)
qed

section \<open>The sidechains a transaction changes\<close>

definition imm :: "(uint256 \<rightharpoonup> CSidechain) \<Rightarrow> int \<Rightarrow> uint256 \<Rightarrow> bool" where
  "imm S H k \<longleftrightarrow> (\<exists>sc. S k = Some sc \<and> mImmatureAmounts sc H \<noteq> None)"

definition core_ok :: "int \<Rightarrow> int \<Rightarrow> Core \<Rightarrow> bool" where
  "core_ok h m c \<longleftrightarrow> (\<forall>k sc. fst c k = Some sc \<longrightarrow> sc_inv h m sc) \<and> sched_inv h (fst c) (snd c) \<and> (\<forall>H. finite (snd c H))"

text \<open>A step that gives the sidechains of \<open>X\<close>, and no others, an amount that matures at \<open>m\<close>.\<close>

definition core_step :: "int \<Rightarrow> int \<Rightarrow> uint256 set \<Rightarrow> Core \<Rightarrow> Core \<Rightarrow> bool" where
  "core_step h m X c c' \<longleftrightarrow> (core_ok h m c \<longrightarrow> core_ok h m c' \<and> last_cert (fst c') = last_cert (fst c)
     \<and> (\<forall>H k. imm (fst c') H k \<longleftrightarrow> imm (fst c) H k \<or> H = m \<and> k \<in> X))"

lemma core_step_refl: "core_step h m {} c c"
  by (simp add: core_step_def)

lemma core_step_trans: "core_step h m X c d \<Longrightarrow> core_step h m Y d e \<Longrightarrow> core_step h m (X \<union> Y) c e"
  by (auto simp: core_step_def)

lemma core_step_foldR:
  assumes "\<And>c x c'. x \<in> set xs \<Longrightarrow> f c x = Inr c' \<Longrightarrow> core_step h m (X x) c c'" "foldR f c xs = Inr c'"
  shows "core_step h m (\<Union>x \<in> set xs. X x) c c'"
  using assms
proof (induction xs arbitrary: c)
  case (Cons x xs)
  then obtain d where d: "f c x = Inr d" "foldR f d xs = Inr c'" by (auto split: sum.splits)
  have "core_step h m (X x) c d" using Cons.prems(1) d(1) by simp
  moreover have "core_step h m (\<Union>x \<in> set xs. X x) d c'" using Cons.IH [OF _ d(2)] Cons.prems(1) by simp
  ultimately show ?case using core_step_trans by fastforce
qed (simp add: core_step_refl)

lemma spec_sc_core_step:
  assumes s: "spec_sc k f c = Inr c'"
    and f: "\<And>sc sc'. f sc = Inr sc' \<Longrightarrow> sc_inv h m sc \<Longrightarrow> sc_inv h m sc' \<and> GetScheduledCeasingHeight sc' = GetScheduledCeasingHeight sc
      \<and> lastTopQualityCertHash sc' = lastTopQualityCertHash sc \<and> (\<forall>H. mImmatureAmounts sc' H \<noteq> None \<longleftrightarrow> mImmatureAmounts sc H \<noteq> None \<or> H = m \<and> k \<in> X)"
    and X: "X \<subseteq> {k}"
  shows "core_step h m X c c'"
  unfolding core_step_def
proof (intro impI)
  assume ok: "core_ok h m c"
  obtain S C where c: "c = (S, C)" by (cases c)
  obtain sc sc' where sc: "S k = Some sc" "f sc = Inr sc'" "c' = (S(k \<mapsto> sc'), C)" using s c by (auto simp: spec_sc_Inr)
  have "sc_inv h m sc" using ok c sc(1) by (simp add: core_ok_def)
  note F = f [OF sc(2) this]
  have "sched_inv h (S(k \<mapsto> sc')) C" using ok c sc(1) F by (auto simp: core_ok_def sched_inv_def)
  moreover have "last_cert (S(k \<mapsto> sc')) = last_cert S" using F sc(1) by (auto simp: last_cert_def fun_eq_iff)
  moreover have "imm (S(k \<mapsto> sc')) H j \<longleftrightarrow> imm S H j \<or> H = m \<and> j \<in> X" for H j using F sc(1) X by (auto simp: imm_def)
  ultimately show "core_ok h m c' \<and> last_cert (fst c') = last_cert (fst c) \<and> (\<forall>H k. imm (fst c') H k \<longleftrightarrow> imm (fst c) H k \<or> H = m \<and> k \<in> X)"
    using ok c sc(3) F by (auto simp: core_ok_def)
qed

lemmas sched_height_defs = epoch_defs isCreationConfirmed_def GetCertSubmissionWindowLength_def

lemma csw_core_step: "spec_csw c w = Inr c' \<Longrightarrow> core_step h m {} c c'"
  unfolding spec_csw_def
  by (erule spec_sc_core_step) (auto simp: spend_balance_def sc_inv_def sched_height_defs split: if_splits)

lemma credit_core_step: "spec_credit m c p = Inr c' \<Longrightarrow> 0 < snd p \<Longrightarrow> h \<le> m \<Longrightarrow> core_step h m {fst p} c c'"
  unfolding spec_credit_def case_prod_unfold
proof (erule spec_sc_core_step)
  fix sc sc'
  assume a: "0 < snd p" "h \<le> m" and e: "Inr (add_immature (snd p) m sc) = Inr sc'" and i: "sc_inv h m sc"
  have x: "0 < x + snd p" if "mImmatureAmounts sc m = Some x" for x
    using i a(1) that unfolding sc_inv_def by (intro add_pos_pos) blast+
  have sc': "sc' = add_immature (snd p) m sc" using e by simp
  show "sc_inv h m sc' \<and> GetScheduledCeasingHeight sc' = GetScheduledCeasingHeight sc \<and> lastTopQualityCertHash sc' = lastTopQualityCertHash sc
      \<and> (\<forall>H. (mImmatureAmounts sc' H \<noteq> None) = (mImmatureAmounts sc H \<noteq> None \<or> H = m \<and> fst p \<in> {fst p}))"
    unfolding sc' using i a x by (auto simp: add_immature_def sc_inv_def sched_height_defs split: if_splits option.splits)
qed simp

lemma create_core_step:
  assumes s: "spec_create pr tx h m c cr = Inr c'" and p: "0 < cr_nValue cr" "0 \<le> h" "h \<le> m"
  shows "core_step h m {generatedScId cr} c c'"
  unfolding core_step_def
proof (intro impI)
  assume ok: "core_ok h m c"
  obtain S C where c: "c = (S, C)" by (cases c)
  let ?k = "generatedScId cr"
  obtain sc where sc: "S ?k = None" "created_sidechain pr tx h m cr CSidechain_null = Inr sc"
    "c' = (S(?k \<mapsto> sc), C(GetScheduledCeasingHeight sc := insert ?k (C (GetScheduledCeasingHeight sc))))"
    using s c by (auto simp: spec_create_def bindR_eq_Inr split: if_splits)
  note F = created_sidechain_Inr [OF sc(2)] and g = created_ceasing_height [OF sc(2) p(2)]
  have l: "lastTopQualityCertHash sc = 0"
    using sc(2) by (auto simp: created_sidechain_def InitScFees_def getMaxSizeOfScFeesContainers_def bindR_eq_Inr Let_def split: if_splits)
  have "sc_inv h m sc" using F l p by (simp add: sc_inv_def EPOCH_NULL_def)
  moreover have "sched_inv h (S(?k \<mapsto> sc)) (C(GetScheduledCeasingHeight sc := insert ?k (C (GetScheduledCeasingHeight sc))))"
    using ok c sc(1) g by (auto simp: core_ok_def sched_inv_def)
  moreover have "last_cert (S(?k \<mapsto> sc)) = last_cert S" using sc(1) l by (auto simp: last_cert_def fun_eq_iff)
  moreover have "imm (S(?k \<mapsto> sc)) H j \<longleftrightarrow> imm S H j \<or> H = m \<and> j \<in> {?k}" for H j using F(5) sc(1) by (auto simp: imm_def)
  ultimately show "core_ok h m c' \<and> last_cert (fst c') = last_cert (fst c) \<and> (\<forall>H k. imm (fst c') H k \<longleftrightarrow> imm (fst c) H k \<or> H = m \<and> k \<in> {?k})"
    using ok c sc(3) by (auto simp: core_ok_def)
qed

lemma connect_core_step:
  assumes "spec_connect pr h c tx = Inr c'" "pos_tx tx" "0 \<le> h" "h \<le> h + getScCoinsMaturity pr"
  shows "core_step h (h + getScCoinsMaturity pr) (sc_targets tx) c c'"
proof -
  let ?m = "h + getScCoinsMaturity pr"
  obtain c1 c2 c3 where C: "foldR spec_csw c (vcsw_ccin tx) = Inr c1" "foldR (spec_create pr (tx_hash tx) h ?m) c1 (vsc_ccout tx) = Inr c2"
    "foldR (spec_credit ?m) c2 (fts tx) = Inr c3" "foldR (spec_credit ?m) c3 (mbtrs tx) = Inr c'"
    using assms(1) by (auto simp: spec_connect_def Let_def bindR_eq_Inr)
  have "core_step h ?m (\<Union>x \<in> set (vcsw_ccin tx). {}) c c1" by (rule core_step_foldR [OF csw_core_step C(1)])
  moreover have "core_step h ?m (\<Union>x \<in> set (vsc_ccout tx). {generatedScId x}) c1 c2"
    by (rule core_step_foldR [OF create_core_step C(2)]) (use assms in \<open>auto simp: pos_tx_def\<close>)
  moreover have "core_step h ?m (\<Union>x \<in> set (fts tx). {fst x}) c2 c3"
    by (rule core_step_foldR [OF credit_core_step C(3)]) (use assms in \<open>auto simp: pos_tx_def\<close>)
  moreover have "core_step h ?m (\<Union>x \<in> set (mbtrs tx). {fst x}) c3 c'"
    by (rule core_step_foldR [OF credit_core_step C(4)]) (use assms in \<open>auto simp: pos_tx_def\<close>)
  ultimately have "core_step h ?m ((((\<Union>x \<in> set (vcsw_ccin tx). {}) \<union> (\<Union>x \<in> set (vsc_ccout tx). {generatedScId x})) \<union> (\<Union>x \<in> set (fts tx). {fst x})) \<union> (\<Union>x \<in> set (mbtrs tx). {fst x})) c c'"
    by (intro core_step_trans)
  moreover have "(((\<Union>x \<in> set (vcsw_ccin tx). {}) \<union> (\<Union>x \<in> set (vsc_ccout tx). {generatedScId x})) \<union> (\<Union>x \<in> set (fts tx). {fst x})) \<union> (\<Union>x \<in> set (mbtrs tx). {fst x}) = sc_targets tx"
    by (auto simp: sc_targets_def)
  ultimately show ?thesis by simp
qed

lemma chain_inv_core_step:
  assumes i: "chain_inv h m L" and s: "core_step h m X (core_of L) c" and X: "finite X"
  shows "chain_inv h m (upd_core m c (\<lambda>M. M \<union> X) L)"
proof -
  note D = chain_invD [OF i]
  have "core_ok h m (core_of L)" using D by (simp add: core_ok_def core_of_def)
  then have S: "core_ok h m c" "last_cert (fst c) = last_cert (l_sc L)" "\<And>H k. imm (fst c) H k \<longleftrightarrow> imm (l_sc L) H k \<or> H = m \<and> k \<in> X"
    using s by (auto simp: core_step_def core_of_def)
  have "mature_inv (fst c) ((l_maturing L)(m := l_maturing L m \<union> X))"
    using D(5) S(3) unfolding mature_inv_def imm_def [symmetric] by auto
  then show ?thesis using D S(1,2) X by (auto simp: chain_inv_def upd_core_def core_ok_def certs_inv_def)
qed

end
