(* ===== verification/BlockSteps.thy ===== *)
theory BlockSteps
  imports ChainInv
begin

text \<open>
  What connecting one transaction and one certificate does to the ledger, as relations between the ledgers before and after with the undo data they leave
  (\<open>tx_moves\<close>, \<open>cert_moves\<close>), and that these relations preserve the chain invariant.
\<close>

section \<open>Views at work on a block\<close>

definition inv_block :: "(uint256 \<Rightarrow> ZCIncrementalMerkleTree) \<Rightarrow> int \<Rightarrow> int \<Rightarrow> CCoinsViewCache \<Rightarrow> bool" where
  "inv_block T h m v \<longleftrightarrow> inv_connect T h m v \<and> (\<forall>k. csw_entry v k \<noteq> Some IM_ERASED)"

lemma inv_blockD: "inv_block T h m v \<Longrightarrow> inv_connect T h m v" "inv_block T h m v \<Longrightarrow> good T h v" "inv_block T h m v \<Longrightarrow> no_erased v"
  by (simp_all add: inv_block_def inv_connect_def)

lemma inv_block_mono: "inv_block T h m v \<Longrightarrow> inv_connect T h m v' \<Longrightarrow> erased_mono v v' \<Longrightarrow> inv_block T h m v'"
  unfolding inv_block_def erased_mono_def by blast

lemma keeps_block: "keeps T v v' \<Longrightarrow> inv_block T h m v \<Longrightarrow> inv_block T h m v'"
  using inv_block_mono [of T h m v v'] keeps_inv(1) [of T v v' h m] by (auto simp: inv_block_def keeps_def)

lemma reads_block: "reads v v' \<Longrightarrow> inv_block T h m v \<Longrightarrow> inv_block T h m v'"
  using keeps_block [OF reads_keeps] .

lemma keeps_at_block: "keeps_at T h v v' \<Longrightarrow> inv_block T h m v \<Longrightarrow> inv_block T h m v'"
  using inv_block_mono [of T h m v v'] keeps_at_connect [of T h v v' m] by (auto simp: inv_block_def keeps_at_def)

section \<open>Withdrawal nullifiers\<close>

abbreviation csw_key :: "CTxCeasedSidechainWithdrawalInput \<Rightarrow> cswkey" where
  "csw_key w \<equiv> (csw_scId w, nullifier w)"

definition with_csw :: "cswkey set \<Rightarrow> Ledger \<Rightarrow> Ledger" where
  "with_csw X L = L\<lparr>l_csw := \<lambda>x. l_csw L x \<or> x \<in> X\<rparr>"

lemma with_csw_insert: "with_csw X (L\<lparr>l_csw := (l_csw L)(k := True)\<rparr>) = with_csw (insert k X) L"
  by (auto simp: with_csw_def fun_eq_iff)

lemma add_csw_loop:
  assumes "foldR add_csw_nullifier v ws = Inr v'" "inv_block T h m v"
  shows "distinct (map csw_key ws) \<and> (\<forall>w \<in> set ws. \<not> l_csw (ledger v) (csw_key w)) \<and> keeps T v v' \<and> ledger v' = with_csw (csw_key ` set ws) (ledger v)"
  using assms
proof (induction ws arbitrary: v)
  case (Cons w ws)
  obtain v1 where v1: "add_csw_nullifier v w = Inr v1" "foldR add_csw_nullifier v1 ws = Inr v'" using Cons.prems(1) by (auto split: sum.splits)
  have n: "\<not> l_csw (ledger v) (csw_key w)"
    using v1(1) AddCswNullifier_fails [of v "csw_key w"] by (auto simp: add_csw_nullifier_def reject_def simp del: ledger_sel split: prod.splits)
  have e: "csw_entry v (csw_key w) \<noteq> Some IM_ERASED" using Cons.prems(2) by (simp add: inv_block_def)
  obtain v2 where v2: "AddCswNullifier v (csw_key w) = (v2, True)" "keeps T v v2" "ledger v2 = (ledger v)\<lparr>l_csw := (l_csw (ledger v))(csw_key w := True)\<rparr>"
    by (rule AddCswNullifier_step [OF n e])
  have "v1 = v2" using v1(1) v2(1) by (simp add: add_csw_nullifier_def)
  then have I: "distinct (map csw_key ws)" "\<forall>w \<in> set ws. \<not> l_csw (ledger v2) (csw_key w)" "keeps T v2 v'" "ledger v' = with_csw (csw_key ` set ws) (ledger v2)"
    using Cons.IH [OF v1(2) keeps_block [OF v2(2) Cons.prems(2), folded \<open>v1 = v2\<close>]] by (auto simp del: ledger_sel)
  have nk: "csw_key x \<noteq> csw_key w \<and> \<not> l_csw (ledger v) (csw_key x)" if "x \<in> set ws" for x using I(2) that unfolding v2(3) by (auto split: if_splits)
  have nw: "csw_key w \<notin> csw_key ` set ws"
  proof
    assume "csw_key w \<in> csw_key ` set ws"
    then obtain x where "x \<in> set ws" "csw_key w = csw_key x" by (rule imageE)
    then show False using nk [of x] by simp
  qed
  show ?case
  proof (intro conjI)
    show "distinct (map csw_key (w # ws))" using nw I(1) by simp
    show "\<forall>x \<in> set (w # ws). \<not> l_csw (ledger v) (csw_key x)" using n nk by simp
    show "keeps T v v'" by (rule keeps_trans [OF v2(2) I(3)])
    show "ledger v' = with_csw (csw_key ` set (w # ws)) (ledger v)" using I(4) unfolding v2(3) with_csw_insert by simp
  qed
qed (simp add: with_csw_def)

text \<open>Updating the sidechains leaves the cache of withdrawal nullifiers alone.\<close>

abbreviation csw_cache :: "CCoinsViewCache \<Rightarrow> (cswkey \<times> ImmutableFlags) list" where
  "csw_cache v \<equiv> cacheCswNullifiers (fst v)"

lemma sc_ops_csw:
  "HaveSidechain v k = (v1, b) \<Longrightarrow> csw_cache v1 = csw_cache v" "ModifySidechain v k = (v2, e) \<Longrightarrow> csw_cache v2 = csw_cache v"
  "csw_cache (put_sidechain v k e) = csw_cache v" "csw_cache (on_events v H f) = csw_cache v"
  by (cases v; auto simp: HaveSidechain_def FetchSidechains_def fetch_sidechains_def ModifySidechain_def put_sidechain_def on_events_def ModifySidechainEvents_def
      put_events_def Let_def split: prod.splits if_splits)+

lemma with_sidechain_csw: "with_sidechain v k f = Inr v' \<Longrightarrow> csw_cache v' = csw_cache v"
  by (auto simp: with_sidechain_def bindR_eq_Inr sc_ops_csw(3) dest!: sc_ops_csw(1,2) split: prod.splits if_splits)

lemma foldR_csw:
  assumes "foldR g v xs = Inr v'" and "\<And>v x v'. g v x = Inr v' \<Longrightarrow> csw_cache v' = csw_cache v"
  shows "csw_cache v' = csw_cache v"
  by (rule foldR_invariant [where I = "\<lambda>w. csw_cache w = csw_cache v", OF assms(1)]) (simp_all add: assms(2))

lemma UpdateSidechain_steps_csw:
  "UpdateSidechain_csw v w = Inr v' \<Longrightarrow> csw_cache v' = csw_cache v" "UpdateSidechain_ft m v ft = Inr v' \<Longrightarrow> csw_cache v' = csw_cache v"
  "UpdateSidechain_mbtr m v mb = Inr v' \<Longrightarrow> csw_cache v' = csw_cache v"
  by (auto simp: UpdateSidechain_csw_def UpdateSidechain_ft_def UpdateSidechain_mbtr_def bindR_eq_Inr sc_ops_csw(4) dest: with_sidechain_csw)

lemma UpdateSidechain_creation_csw: "UpdateSidechain_creation pr t h m v cr = Inr v' \<Longrightarrow> csw_cache v' = csw_cache v"
  by (cases "HaveSidechain v (generatedScId cr)"; cases "ModifySidechain (fst (HaveSidechain v (generatedScId cr))) (generatedScId cr)")
    (auto simp: UpdateSidechain_creation_def bindR_eq_Inr Let_def sc_ops_csw(3,4) dest!: sc_ops_csw(1,2) split: if_splits)

lemma UpdateSidechain_tx_csw:
  assumes "UpdateSidechain_tx pr v tx h = Inr v'"
  shows "csw_entry v' = csw_entry v"
proof -
  obtain v1 v2 v3 where f: "foldR UpdateSidechain_csw v (vcsw_ccin tx) = Inr v1"
    "foldR (UpdateSidechain_creation pr (tx_hash tx) h (h + getScCoinsMaturity pr)) v1 (vsc_ccout tx) = Inr v2"
    "foldR (UpdateSidechain_ft (h + getScCoinsMaturity pr)) v2 (vft_ccout tx) = Inr v3"
    "foldR (UpdateSidechain_mbtr (h + getScCoinsMaturity pr)) v3 (vmbtr_out tx) = Inr v'"
    using assms by (auto simp: UpdateSidechain_tx_def Let_def bindR_eq_Inr)
  have "csw_cache v' = csw_cache v"
    using foldR_csw [OF f(1) UpdateSidechain_steps_csw(1)] foldR_csw [OF f(2) UpdateSidechain_creation_csw]
      foldR_csw [OF f(3) UpdateSidechain_steps_csw(2)] foldR_csw [OF f(4) UpdateSidechain_steps_csw(3)] by simp
  then show ?thesis by (simp add: csw_entry_def fun_eq_iff)
qed

section \<open>Transactions\<close>

definition tx_moves :: "CChainParams \<Rightarrow> int \<Rightarrow> bool \<Rightarrow> CTransaction \<Rightarrow> Ledger \<Rightarrow> CTxInUndo list \<Rightarrow> Ledger \<Rightarrow> bool" where
  "tx_moves pr h coinbase tx L us L' \<longleftrightarrow> (\<exists>L1. spec_update_tx tx h L = Inr (L1, us) \<and>
     (if coinbase then L' = L1
      else \<exists>c. spec_connect pr h (core_of L1) tx = Inr c \<and> distinct (map csw_key (vcsw_ccin tx)) \<and> (\<forall>w \<in> set (vcsw_ccin tx). \<not> l_csw L (csw_key w))
        \<and> L' = with_csw (csw_key ` set (vcsw_ccin tx)) (upd_core (h + getScCoinsMaturity pr) c (\<lambda>M. M \<union> sc_targets tx) L1)))"

lemma or_reject_Inr [simp]: "or_reject msg r = Inr x \<longleftrightarrow> r = Inr x"
  by (auto simp: or_reject_def reject_def split: sum.splits error.splits)

lemma spec_update_tx_Inr:
  assumes "spec_update_tx tx h L = Inr (L1, us)"
  obtains C where "spec_ins (tx_IsCoinBase tx) (tx_vin tx) (l_coins L) = Inr (C, us)"
    "L1 = L\<lparr>l_coins := C(tx_hash tx := normC (Some (From_tx tx h))), l_nf := \<lambda>x. x \<in> tx_nullifiers tx \<or> l_nf L x\<rparr>"
proof -
  obtain C where C: "spec_ins (tx_IsCoinBase tx) (tx_vin tx) (l_coins L) = Inr (C, us)"
    "L1 = L\<lparr>l_coins := C(tx_hash tx := normC (Some (From_tx tx h))), l_nf := \<lambda>x. if x \<in> tx_nullifiers tx then True else l_nf L x\<rparr>"
    using assms by (auto simp: spec_update_tx_def bindR_eq_Inr)
  moreover have "(\<lambda>x. if x \<in> tx_nullifiers tx then True else l_nf L x) = (\<lambda>x. x \<in> tx_nullifiers tx \<or> l_nf L x)" by (auto simp: fun_eq_iff)
  ultimately show thesis using that by simp
qed

lemma connect_tx_moves:
  assumes R: "reading_rules (be_rules E)" and i: "inv_block T h m (cs_view s)" and m: "m = h + getScCoinsMaturity (be_params E)"
    and a: "at_height (be_chain E) (h - 1) (ledger (cs_view s))" and o: "valid_outs (tx_vout tx)" and run: "connect_tx E h s (n, tx) = Inr s'"
  obtains us where "tx_moves (be_params E) h (n = 0) tx (ledger (cs_view s)) us (ledger (cs_view s'))" "inv_block T h m (cs_view s')"
    "cs_undo s' = (if n > 0 then (cs_undo s)\<lparr>vtxundo := vtxundo (cs_undo s) @ [us]\<rparr> else cs_undo s)"
    "append_notes E (cs_tree s) tx = Inr (cs_tree s')" "\<not> tx_IsCoinBase tx \<Longrightarrow> \<forall>nf \<in> tx_nullifiers tx. \<not> l_nf (ledger (cs_view s)) nf"
proof -
  let ?L = "ledger (cs_view s)" and ?pr = "be_params E"
  obtain v1 sg fee v2 us v3 tree where r: "tx_block_checks E (cs_sigops s) tx (cs_view s) = Inr (v1, sg, fee)" "UpdateCoins_tx tx v1 h = Inr (v2, us)"
    "(if n > 0 then bindR (or_reject ''bad-sc-tx'' (UpdateSidechain_tx ?pr v2 tx h)) (\<lambda>v. foldR add_csw_nullifier v (vcsw_ccin tx)) else Inr v2) = Inr v3"
    "append_notes E (cs_tree s) tx = Inr tree" "cs_view s' = v3" "cs_tree s' = tree"
    "cs_undo s' = (if n > 0 then (cs_undo s)\<lparr>vtxundo := vtxundo (cs_undo s) @ [us]\<rparr> else cs_undo s)"
    using run unfolding connect_tx_def by (auto simp: bindR_eq_Inr)
  have q: "reads (cs_view s) v1" "\<not> tx_IsCoinBase tx \<Longrightarrow> \<forall>nf \<in> tx_nullifiers tx. \<not> l_nf ?L nf"
    using learnsD [OF learns_tx_checks [OF R] inv_blockD(3) [OF i] a r(1)] by auto
  note l1 = reads_ledger [OF q(1)] and i1 = reads_block [OF q(1) i]
  obtain L1 us' where s1: "spec_update_tx tx h (ledger v1) = Inr (L1, us')"
    using UpdateCoins_tx_err [OF inv_blockD(2) [OF i1], of tx h] r(2) by (cases "spec_update_tx tx h (ledger v1)") auto
  obtain w where w: "UpdateCoins_tx tx v1 h = Inr (w, us')" "keeps T v1 w" "ledger w = L1" by (rule UpdateCoins_tx_ok [OF inv_blockD(2) [OF i1] o s1])
  have e: "us' = us" "w = v2" using w(1) r(2) by simp_all
  note i2 = keeps_block [OF w(2) i1, unfolded e]
  have s2: "spec_update_tx tx h ?L = Inr (L1, us)" "ledger v2 = L1" using s1 w(3) l1 e by simp_all
  have csw: "l_csw L1 = l_csw ?L" using spec_update_tx_Inr [OF s2(1)] by fastforce
  have "tx_moves ?pr h (n = 0) tx ?L us (ledger v3) \<and> inv_block T h m v3"
  proof (cases "n = 0")
    case True
    then show ?thesis using r(3) s2 i2 by (auto simp: tx_moves_def simp del: ledger_sel)
  next
    case False
    then obtain v4 where v4: "UpdateSidechain_tx ?pr v2 tx h = Inr v4" "foldR add_csw_nullifier v4 (vcsw_ccin tx) = Inr v3" using r(3) by (auto simp: bindR_eq_Inr)
    obtain c where c: "spec_connect ?pr h (core_of (ledger v2)) tx = Inr c"
      using connect_tx_err [OF inv_blockD(1) [OF i2] m] v4(1) by (cases "spec_connect ?pr h (core_of (ledger v2)) tx") auto
    have k: "inv_connect T h m v4" "ledger v4 = upd_core m c (\<lambda>M. M \<union> sc_targets tx) (ledger v2)"
      using connect_tx_ok [OF inv_blockD(1) [OF i2] m c] v4(1) by auto
    have i4: "inv_block T h m v4" using k(1) UpdateSidechain_tx_csw [OF v4(1)] i2 by (simp add: inv_block_def)
    note A = add_csw_loop [OF v4(2) i4]
    have "l_csw (ledger v4) = l_csw ?L" unfolding k(2) upd_core_def s2(2) using csw by simp
    then have "distinct (map csw_key (vcsw_ccin tx)) \<and> (\<forall>w \<in> set (vcsw_ccin tx). \<not> l_csw ?L (csw_key w))
        \<and> ledger v3 = with_csw (csw_key ` set (vcsw_ccin tx)) (upd_core (h + getScCoinsMaturity ?pr) c (\<lambda>M. M \<union> sc_targets tx) L1)"
      using A unfolding k(2) s2(2) m by (simp del: ledger_sel)
    then have "tx_moves ?pr h False tx ?L us (ledger v3)" unfolding tx_moves_def if_False using s2(1) c [unfolded s2(2)] by blast
    then show ?thesis using False A keeps_block [of T v4 v3] i4 by simp
  qed
  then show thesis using that [of us] r(4-7) q(2) by simp
qed

lemma upd_core_sel [simp]:
  "l_coins (upd_core m c f L) = l_coins L" "l_nf (upd_core m c f L) = l_nf L" "l_csw (upd_core m c f L) = l_csw L" "l_sc (upd_core m c f L) = fst c"
  "l_ceasing (upd_core m c f L) = snd c" "l_maturing (upd_core m c f L) = (l_maturing L)(m := f (l_maturing L m))"
  "l_anchors (upd_core m c f L) = l_anchors L" "l_best (upd_core m c f L) = l_best L" "l_bestAnchor (upd_core m c f L) = l_bestAnchor L"
  by (simp_all add: upd_core_def)

lemma with_csw_sel [simp]:
  "l_coins (with_csw X L) = l_coins L" "l_nf (with_csw X L) = l_nf L" "l_csw (with_csw X L) = (\<lambda>x. l_csw L x \<or> x \<in> X)" "l_sc (with_csw X L) = l_sc L"
  "l_ceasing (with_csw X L) = l_ceasing L" "l_maturing (with_csw X L) = l_maturing L"
  "l_anchors (with_csw X L) = l_anchors L" "l_best (with_csw X L) = l_best L" "l_bestAnchor (with_csw X L) = l_bestAnchor L"
  by (simp_all add: with_csw_def)

text \<open>The hash of a new transaction or certificate: no record has it, and no sidechain had a certificate with it.\<close>

definition new_hash :: "uint256 \<Rightarrow> Ledger \<Rightarrow> bool" where
  "new_hash x L \<longleftrightarrow> x \<noteq> 0 \<and> l_coins L x = None \<and> (\<forall>k. last_cert (l_sc L) k \<noteq> x)"

lemma From_tx_meta [simp]: "nBwtMaturityHeight (From_tx tx h) = 0"
  by (simp add: From_tx_def ClearUnspendable_def Cleanup_def)

lemma spec_update_tx_inv:
  assumes i: "chain_inv h m L" and s: "spec_update_tx tx h L = Inr (L1, us)" and n: "new_hash (tx_hash tx) L" and o: "valid_outs (tx_vout tx)" and h: "h \<noteq> 0"
  shows "chain_inv h m L1" "\<And>x. l_coins L x = None \<Longrightarrow> x \<noteq> tx_hash tx \<Longrightarrow> l_coins L1 x = None" "l_sc L1 = l_sc L"
proof -
  note D = chain_invD [OF i]
  obtain C where C: "spec_ins (tx_IsCoinBase tx) (tx_vin tx) (l_coins L) = Inr (C, us)"
    "L1 = L\<lparr>l_coins := C(tx_hash tx := normC (Some (From_tx tx h))), l_nf := \<lambda>x. x \<in> tx_nullifiers tx \<or> l_nf L x\<rparr>" by (rule spec_update_tx_Inr [OF s])
  note F = spec_ins_fewer [OF C(1)]
  have "coin_inv C" using coin_inv_fewer D(1,2) F by blast
  then have c: "coin_inv (C(tx_hash tx := normC (Some (From_tx tx h))))" using From_tx_clean [OF o] h by (intro coin_inv_add) auto
  have "certs_inv (l_sc L) (C(tx_hash tx := normC (Some (From_tx tx h))))"
    using certs_inv_add [OF certs_inv_fewer [OF D(8)], of C] F n by (simp add: new_hash_def)
  then show "chain_inv h m L1" using c D C(2) by (simp add: chain_inv_def)
  show "\<And>x. l_coins L x = None \<Longrightarrow> x \<noteq> tx_hash tx \<Longrightarrow> l_coins L1 x = None" using C(2) F fewer_None by auto
qed (use spec_update_tx_Inr [OF s] in fastforce)

lemma tx_moves_inv:
  assumes i: "chain_inv h (h + getScCoinsMaturity pr) L" and s: "tx_moves pr h cb tx L us L'" and n: "new_hash (tx_hash tx) L" and o: "valid_outs (tx_vout tx)"
    and p: "pos_tx tx" and h: "0 < h" "0 \<le> getScCoinsMaturity pr"
  shows "chain_inv h (h + getScCoinsMaturity pr) L'" "\<And>x. new_hash x L \<Longrightarrow> x \<noteq> tx_hash tx \<Longrightarrow> new_hash x L'" "last_cert (l_sc L') = last_cert (l_sc L)"
proof -
  let ?m = "h + getScCoinsMaturity pr"
  obtain L1 where L1: "spec_update_tx tx h L = Inr (L1, us)" "cb \<Longrightarrow> L' = L1"
    "\<not> cb \<Longrightarrow> \<exists>c. spec_connect pr h (core_of L1) tx = Inr c \<and> L' = with_csw (csw_key ` set (vcsw_ccin tx)) (upd_core ?m c (\<lambda>M. M \<union> sc_targets tx) L1)"
    using s unfolding tx_moves_def by (metis (no_types, lifting))
  note U = spec_update_tx_inv [OF i L1(1) n o] h
  have *: "chain_inv h ?m L' \<and> last_cert (l_sc L') = last_cert (l_sc L) \<and> l_coins L' = l_coins L1"
  proof (cases cb)
    case False
    then obtain c where c: "spec_connect pr h (core_of L1) tx = Inr c" "L' = with_csw (csw_key ` set (vcsw_ccin tx)) (upd_core ?m c (\<lambda>M. M \<union> sc_targets tx) L1)"
      using L1(3) by blast
    have st: "core_step h ?m (sc_targets tx) (core_of L1) c" using connect_core_step [OF c(1) p] h by simp
    have "chain_inv h ?m (upd_core ?m c (\<lambda>M. M \<union> sc_targets tx) L1)" by (rule chain_inv_core_step [OF _ st]) (use U in \<open>auto simp: sc_targets_def\<close>)
    moreover have "core_ok h ?m (core_of L1)" using U h chain_invD [of h ?m L1] by (simp add: core_ok_def core_of_def)
    ultimately show ?thesis using st U c(2) by (auto simp: core_step_def core_of_def with_csw_def)
  qed (use L1 U in auto)
  then show "chain_inv h ?m L'" "last_cert (l_sc L') = last_cert (l_sc L)" by auto
  show "new_hash x L'" if "new_hash x L" "x \<noteq> tx_hash tx" for x
    using that * U(2) h by (auto simp: new_hash_def)
qed

end
