(* ===== verification/CertSteps.thy ===== *)
theory CertSteps
  imports BlockSteps
begin

text \<open>
  What connecting one certificate of a block does to the ledger and to the undo data of the block, as a relation (\<open>cert_moves\<close>), and that it preserves the
  chain invariant.
\<close>

section \<open>The coins of a certificate\<close>

lemma spend_from_meta: "nHeight (spend_from p c) = nHeight c \<and> nBwtMaturityHeight (spend_from p c) = nBwtMaturityHeight c \<and> nFirstBwtPos (spend_from p c) = nFirstBwtPos c"
proof (induction p c rule: spend_from.induct)
  case (1 p c)
  have "nHeight (fst (Spend p c)) = nHeight c" by (simp add: Spend_def Cleanup_def)
  then show ?case using 1 Spend_meta [of p c] by (cases "p < length (vout c)") (simp_all add: spend_from.simps [of p c])
qed

lemma From_cert_meta [simp]: "nHeight (From_cert cert h m t) = h" "nBwtMaturityHeight (From_cert cert h m t) = m" "nFirstBwtPos (From_cert cert h m t) = cert_nFirstBwtPos cert"
  using spend_from_meta by (auto simp: From_cert_def Let_def ClearUnspendable_def Cleanup_def)

lemma spec_update_cert_Inr:
  assumes "spec_update_cert cert h tq L = Inr (L1, us)"
  obtains C sc where "foldR spec_spend (l_coins L, []) (cert_vin cert) = Inr (C, us)" "l_sc L (cert_scId cert) = Some sc"
    "L1 = L\<lparr>l_coins := C(cert_hash cert := normC (Some (From_cert cert h (GetCertMaturityHeight sc (epochNumber cert)) tq)))\<rparr>"
  using assms by (auto simp: spec_update_cert_def spec_ins_def bindR_eq_Inr split: option.splits)

text \<open>What the checks on certificates guarantee.\<close>

definition cert_fine :: "CScCertificate \<Rightarrow> bool" where
  "cert_fine cert \<longleftrightarrow> valid_outs (cert_vout cert) \<and> 0 \<le> epochNumber cert \<and> 0 \<le> cert_nFirstBwtPos cert \<and> cert_nFirstBwtPos cert < 2 ^ 31"

lemma maturity_positive: "sc_inv h m sc \<Longrightarrow> 0 \<le> e \<Longrightarrow> 0 < GetCertMaturityHeight sc e"
proof -
  assume i: "sc_inv h m sc" and e: "0 \<le> e"
  have c: "0 \<le> creationBlockHeight sc" "0 < epochLen sc" "isCreationConfirmed sc" using i sc_inv_confirmed [OF i] by (simp_all add: sc_inv_def)
  have "0 \<le> (e + 1 + 1) * epochLen sc" using c(2) e by simp
  then have "0 \<le> GetCertSubmissionWindowStart sc (e + 1)" using c by (simp add: GetCertSubmissionWindowStart_def GetStartHeightForEpoch_def)
  then show "0 < GetCertMaturityHeight sc e" using c(3)
    by (simp add: GetCertMaturityHeight_def GetCertSubmissionWindowEnd_def GetCertSubmissionWindowLength_def)
qed

lemma spec_update_cert_inv:
  assumes i: "chain_inv h m L" and s: "spec_update_cert cert h tq L = Inr (L1, us)" and n: "new_hash (cert_hash cert) L" and f: "cert_fine cert" and h: "h \<noteq> 0"
  shows "chain_inv h m L1" "\<And>x. l_coins L x = None \<Longrightarrow> x \<noteq> cert_hash cert \<Longrightarrow> l_coins L1 x = None" "l_sc L1 = l_sc L"
    "\<And>c. l_coins L1 (cert_hash cert) = Some c \<Longrightarrow> nBwtMaturityHeight c \<noteq> 0"
proof -
  note D = chain_invD [OF i]
  obtain C sc where C: "foldR spec_spend (l_coins L, []) (cert_vin cert) = Inr (C, us)" "l_sc L (cert_scId cert) = Some sc"
    "L1 = L\<lparr>l_coins := C(cert_hash cert := normC (Some (From_cert cert h (GetCertMaturityHeight sc (epochNumber cert)) tq)))\<rparr>" by (rule spec_update_cert_Inr [OF s])
  let ?c = "From_cert cert h (GetCertMaturityHeight sc (epochNumber cert)) tq"
  note F = spends_fewer [OF C(1)]
  have "coin_inv C" using coin_inv_fewer D(1,2) F by blast
  then have c: "coin_inv (C(cert_hash cert := normC (Some ?c)))" using From_cert_clean [of cert] f h by (intro coin_inv_add) (auto simp: cert_fine_def)
  have "certs_inv (l_sc L) (C(cert_hash cert := normC (Some ?c)))"
    using certs_inv_add [OF certs_inv_fewer [OF D(8)], of C] F n by (simp add: new_hash_def)
  then show "chain_inv h m L1" using c D C(3) by (simp add: chain_inv_def)
  show "\<And>x. l_coins L x = None \<Longrightarrow> x \<noteq> cert_hash cert \<Longrightarrow> l_coins L1 x = None" using C(3) F fewer_None by auto
  show "l_sc L1 = l_sc L" using C(3) by simp
  show "\<And>c. l_coins L1 (cert_hash cert) = Some c \<Longrightarrow> nBwtMaturityHeight c \<noteq> 0"
    using C(3) maturity_positive [OF D(3) [OF C(2)], of "epochNumber cert"] f by (auto simp: normC_def cert_fine_def split: if_splits)
qed

section \<open>The sidechain of a certificate\<close>

lemma spec_cert_some: "spec_cert dh cert ud L = Inr (L', ud') \<Longrightarrow> \<exists>sc. l_sc L (cert_scId cert) = Some sc"
  by (auto simp: spec_cert_def Let_def split: option.splits)

lemma cert_update_balance: "cert_update dh cert sc ud = Inr (sc', ud') \<Longrightarrow> 0 \<le> balance sc'"
  by (auto simp: cert_update_def Let_def bindR_eq_Inr split: if_splits)

lemma certs_inv_upd:
  assumes i: "certs_inv S C" and x: "\<forall>k. last_cert S k \<noteq> x" "\<And>c. C x = Some c \<Longrightarrow> nBwtMaturityHeight c \<noteq> 0" and S': "last_cert S' = (last_cert S)(k0 := x)"
  shows "certs_inv S' C"
  unfolding certs_inv_def S'
proof (intro conjI allI impI)
  fix k c assume "((last_cert S)(k0 := x)) k \<noteq> 0" "C (((last_cert S)(k0 := x)) k) = Some c"
  then show "nBwtMaturityHeight c \<noteq> 0" using i x(2) unfolding certs_inv_def by (cases "k = k0") simp_all
next
  fix j k assume *: "((last_cert S)(k0 := x)) j = ((last_cert S)(k0 := x)) k" "((last_cert S)(k0 := x)) j \<noteq> 0"
  show "j = k"
  proof (cases "j = k0 \<or> k = k0")
    case True
    then show ?thesis using *(1) x(1) by (metis fun_upd_other fun_upd_same)
  next
    case False
    then have "last_cert S j = last_cert S k" "last_cert S j \<noteq> 0" using * by simp_all
    then show ?thesis using i unfolding certs_inv_def by blast
  qed
qed

lemma spec_cert_inv:
  assumes i: "chain_inv h m L" and s: "spec_cert dh cert ud L = Inr (L', ud')" and e: "0 \<le> epochNumber cert" and x: "cert_hash cert \<noteq> 0" "\<forall>k. last_cert (l_sc L) k \<noteq> cert_hash cert"
    and c: "\<And>c. l_coins L (cert_hash cert) = Some c \<Longrightarrow> nBwtMaturityHeight c \<noteq> 0" and a: "\<And>sc. l_sc L (cert_scId cert) = Some sc \<Longrightarrow> h \<le> GetScheduledCeasingHeight sc"
  shows "chain_inv h m L'" "last_cert (l_sc L') = (last_cert (l_sc L))(cert_scId cert := cert_hash cert)" "l_coins L' = l_coins L"
    "\<And>k. k \<noteq> cert_scId cert \<Longrightarrow> l_sc L' k = l_sc L k"
proof -
  note D = chain_invD [OF i]
  obtain sc where sc: "l_sc L (cert_scId cert) = Some sc" using spec_cert_some [OF s] by blast
  let ?k = "cert_scId cert" and ?a = "GetScheduledCeasingHeight sc"
  obtain sc' where sc': "cert_update dh cert sc ud = Inr (sc', ud')"
    "L' = L\<lparr>l_sc := (l_sc L)(?k \<mapsto> sc'), l_ceasing := if epochNumber cert \<noteq> lastTopQualityCertReferencedEpoch sc
        then moved ?k ?a (GetScheduledCeasingHeight sc') (l_ceasing L) else l_ceasing L\<rparr>" by (rule spec_cert_Inr [OF s sc])
  note R = cert_update_records [OF sc'(1)] and I = D(3) [OF sc] and H = ceasing_height_mono [OF sc'(1)]
  have I': "sc_inv h m sc'" using I R(5-9) cert_update_balance [OF sc'(1)] e x(1) by (auto simp: sc_inv_def EPOCH_NULL_def)
  have eq: "GetScheduledCeasingHeight sc' = ?a" if "epochNumber cert = lastTopQualityCertReferencedEpoch sc"
    using that R(5,6,8) by (simp add: sched_height_defs)
  have le: "?a \<le> GetScheduledCeasingHeight sc'" "h \<le> ?a" using H(1) I a [OF sc] by (auto simp: sc_inv_def)
  have "sched_inv h (l_sc L') (l_ceasing L')"
    unfolding sched_inv_def
  proof (intro allI)
    fix H j
    have C: "j \<in> l_ceasing L H \<longleftrightarrow> h \<le> H \<and> (\<exists>sc. l_sc L j = Some sc \<and> GetScheduledCeasingHeight sc = H)" using D(4) by (simp add: sched_inv_def)
    show "j \<in> l_ceasing L' H \<longleftrightarrow> h \<le> H \<and> (\<exists>sc. l_sc L' j = Some sc \<and> GetScheduledCeasingHeight sc = H)"
    proof (cases "j = ?k")
      case True
      have s: "l_sc L' j = Some sc'" "j \<in> l_ceasing L H \<longleftrightarrow> H = ?a" using C sc le(2) True unfolding sc'(2) by auto
      show ?thesis
      proof (cases "epochNumber cert = lastTopQualityCertReferencedEpoch sc")
        case True
        then have "l_ceasing L' = l_ceasing L" unfolding sc'(2) by simp
        then show ?thesis using s eq [OF True] le by auto
      next
        case False
        then have "l_ceasing L' = moved ?k ?a (GetScheduledCeasingHeight sc') (l_ceasing L)" unfolding sc'(2) by simp
        then have "j \<in> l_ceasing L' H \<longleftrightarrow> H = GetScheduledCeasingHeight sc'" using s(2) \<open>j = ?k\<close> by (auto simp: moved_def Let_def)
        then show ?thesis using s(1) le by auto
      qed
    next
      case False
      then show ?thesis using C sc'(2) by (simp add: moved_other)
    qed
  qed
  moreover have "(\<exists>x. l_sc L' j = Some x \<and> mImmatureAmounts x H \<noteq> None) \<longleftrightarrow> (\<exists>x. l_sc L j = Some x \<and> mImmatureAmounts x H \<noteq> None)" for H j
    unfolding sc'(2) using sc R(7) by (cases "j = ?k") simp_all
  then have "mature_inv (l_sc L') (l_maturing L')" using D(5) unfolding mature_inv_def by (simp add: sc'(2))
  moreover show last: "last_cert (l_sc L') = (last_cert (l_sc L))(?k := cert_hash cert)" using sc'(2) R(9) by (auto simp: last_cert_def fun_eq_iff)
  moreover show co: "l_coins L' = l_coins L" using sc'(2) by simp
  moreover have "certs_inv (l_sc L') (l_coins L')" unfolding co by (rule certs_inv_upd [OF D(8) x(2) c last])
  moreover have "finite (l_ceasing L' H)" for H using sc'(2) D(6) by (simp add: moved_def Let_def)
  ultimately show "chain_inv h m L'" using D I' sc'(2) unfolding chain_inv_def by auto
  show "\<And>k. k \<noteq> cert_scId cert \<Longrightarrow> l_sc L' k = l_sc L k" using sc'(2) by simp
qed

section \<open>One certificate\<close>

text \<open>\<open>top\<close> is what \<open>HighQualityCertData\<close> says of the certificate: nothing for one that a later certificate of the block supersedes, otherwise the hash of the
  certificate of an earlier block that it supersedes, or zero.\<close>

definition cert_moves :: "(CScCertificate \<Rightarrow> ScFixedParameters \<Rightarrow> CFieldElement) \<Rightarrow> int \<Rightarrow> uint256 option \<Rightarrow> CScCertificate \<Rightarrow> Ledger \<Rightarrow> ScUndoMap
    \<Rightarrow> CTxInUndo list \<Rightarrow> Ledger \<Rightarrow> ScUndoMap \<Rightarrow> bool" where
  "cert_moves dh h prev cert L m us L' m' \<longleftrightarrow> (\<exists>L1. spec_update_cert cert h (prev \<noteq> None) L = Inr (L1, us) \<and>
     (case prev of None \<Rightarrow> L' = L1 \<and> m' = m
      | Some p \<Rightarrow> \<exists>L2 ud C us'. spec_cert dh cert (undo_at m (cert_scId cert)) L1 = Inr (L2, ud) \<and> spec_nullify p (l_coins L2) = Inr (C, us') \<and> L' = L2\<lparr>l_coins := C\<rparr>
          \<and> m' = AList.update (cert_scId cert) (if p = 0 then ud else add_section SUPERSEDED_CERT_DATA (ud\<lparr>lowQualityBwts := lowQualityBwts ud @ us'\<rparr>)) m))"

lemma cert_code_alive:
  assumes "cert_code env (h - 1) cert (l_sc L k) = OK"
  obtains sc where "l_sc L k = Some sc" "h \<le> GetScheduledCeasingHeight sc"
  using assms by (auto simp: cert_code_def timely_def state_of_def split: option.splits if_splits)

lemma UpdateCoins_cert_err:
  assumes g: "good T n v" and s: "spec_update_cert cert h tq (ledger v) = Inl e"
  shows "\<exists>e. UpdateCoins_cert cert v h tq = Inl e"
proof (cases "foldR spec_spend (l_coins (ledger v), []) (cert_vin cert)")
  case (Inl e)
  then show ?thesis using UpdateCoins_ins_err [OF g Inl] by (simp add: UpdateCoins_cert_def)
next
  case (Inr x)
  obtain C us where x: "x = (C, us)" by (cases x)
  have n: "l_sc (ledger v) (cert_scId cert) = None"
    using s Inr x by (auto simp: spec_update_cert_def spec_ins_def simp del: ledger_sel split: option.splits)
  obtain v1 where v1: "foldR UpdateCoins_in (v, []) (cert_vin cert) = Inr (v1, us)" "ledger v1 = (ledger v)\<lparr>l_coins := C\<rparr>"
    using UpdateCoins_ins_ok [OF g Inr [unfolded x]] by blast
  obtain v2 r where v2: "CacheGetSidechain v1 (cert_scId cert) = (v2, r)" by fastforce
  have "r = None" using CacheGetSidechain_reads(1) [OF v2] n unfolding v1(2) by simp
  then show ?thesis using v1(1) v2 by (simp add: UpdateCoins_cert_def)
qed

lemma connect_top_cert_moves:
  assumes g: "inv_block T h m v" and ci: "chain_inv h m (ledger v)" and n: "map_of um (cert_scId cert) = None"
    and p: "p = 0 \<or> p = last_cert (l_sc (ledger v)) (cert_scId cert)" and a: "\<And>sc. l_sc (ledger v) (cert_scId cert) = Some sc \<Longrightarrow> h \<le> GetScheduledCeasingHeight sc"
    and run: "connect_top_cert E p cert v um = Inr (v', um')"
  obtains L2 ud C us' where "spec_cert (be_dataHash E) cert (undo_at um (cert_scId cert)) (ledger v) = Inr (L2, ud)" "spec_nullify p (l_coins L2) = Inr (C, us')"
    "ledger v' = L2\<lparr>l_coins := C\<rparr>" "um' = AList.update (cert_scId cert) (if p = 0 then ud else add_section SUPERSEDED_CERT_DATA (ud\<lparr>lowQualityBwts := lowQualityBwts ud @ us'\<rparr>)) um"
    "inv_block T h m v'"
proof -
  let ?k = "cert_scId cert" and ?dh = "be_dataHash E"
  note D = chain_invD [OF ci]
  have m0: "prevTopCommittedCertHash (undo_at um ?k) = 0" using n by (simp add: undo_at_def CSidechainUndoData_new_def)
  obtain v1 um1 where u: "UpdateSidechain_cert ?dh v cert um = Inr (v1, um1)" using run by (auto simp: connect_top_cert_def bindR_eq_Inr)
  obtain L2 ud where s: "spec_cert ?dh cert (undo_at um ?k) (ledger v) = Inr (L2, ud)"
    using UpdateSidechain_cert_err [OF inv_blockD(2) [OF g], of ?dh cert um] u by (cases "spec_cert ?dh cert (undo_at um ?k) (ledger v)") auto
  have "h \<le> GetScheduledCeasingHeight sc \<and> 0 \<le> epochLen sc" if "l_sc (ledger v) ?k = Some sc" for sc using a [OF that] D(3) [OF that] by (simp add: sc_inv_def)
  then obtain w where w: "UpdateSidechain_cert ?dh v cert um = Inr (w, AList.update ?k ud um)" "keeps_at T h v w" "ledger w = L2"
    using UpdateSidechain_cert_ok [OF inv_blockD(2) [OF g] m0 _ s] by blast
  have e: "v1 = w" "um1 = AList.update ?k ud um" using u w(1) by simp_all
  note iw = keeps_at_block [OF w(2) g]
  have co: "l_coins L2 = l_coins (ledger v)"
  proof -
    obtain sc where "l_sc (ledger v) ?k = Some sc" using spec_cert_some [OF s] by blast
    then show ?thesis using spec_cert_Inr [OF s] by fastforce
  qed
  show thesis
  proof (cases "p = 0")
    case True
    then have "v' = w" "um' = AList.update ?k ud um" using run u e by (simp_all add: connect_top_cert_def or_reject_def)
    then show thesis using that [OF s, of "l_coins L2" "[]"] True w(3) iw by (simp add: spec_nullify_def)
  next
    case False
    have pl: "p = last_cert (l_sc (ledger v)) ?k" using p False by simp
    have b: "nBwtMaturityHeight c \<noteq> 0" if "l_coins L2 p = Some c" for c using D(8) that False unfolding certs_inv_def co pl by blast
    have C: "spec_nullify p (l_coins L2) = Inr ((l_coins L2)(p := Option.bind (l_coins L2 p) nul_coin), nul_outs (l_coins L2 p))" by (rule spec_nullify_at [OF False b])
    have "coins_inv (l_coins (ledger w))" "bwt_pos_ok (l_coins (ledger w)) p" using D(1) b unfolding w(3) co by (auto simp: coin_inv_def bwt_pos_ok_def simp del: ledger_sel)
    then obtain x where x: "NullifyBackwardTransfers w p (lowQualityBwts ud) = Inr (x, lowQualityBwts ud @ nul_outs (l_coins L2 p))" "keeps T w x"
      "ledger x = (ledger w)\<lparr>l_coins := (l_coins L2)(p := Option.bind (l_coins L2 p) nul_coin)\<rparr>"
      using NullifyBackwardTransfers_ok [OF inv_blockD(2) [OF iw], of p _ _ "lowQualityBwts ud"] C w(3) by metis
    have "v' = x" "um' = AList.update ?k (add_section SUPERSEDED_CERT_DATA (ud\<lparr>lowQualityBwts := lowQualityBwts ud @ nul_outs (l_coins L2 p)\<rparr>)) um"
      using run u e x(1) False by (simp_all add: connect_top_cert_def at_map_def or_reject_def)
    then show thesis using that [OF s C] False x(3) w(3) keeps_block [OF x(2) iw] by (simp del: ledger_sel)
  qed
qed

lemma connect_cert_moves:
  assumes R: "reading_rules (be_rules E)" and i: "inv_block T h m (cs_view s)" and ci: "chain_inv h m (ledger (cs_view s))"
    and a: "at_height (be_chain E) (h - 1) (ledger (cs_view s))" and f: "cert_fine cert" and n: "new_hash (cert_hash cert) (ledger (cs_view s))" and h: "0 < h"
    and t: "\<And>p. map_of hq (cert_hash cert) = Some p \<Longrightarrow> map_of (scUndoDatabyScId (cs_undo s)) (cert_scId cert) = None
      \<and> (p = 0 \<or> p = last_cert (l_sc (ledger (cs_view s))) (cert_scId cert))"
    and run: "connect_cert E h hq s cert = Inr s'"
  obtains us where "cert_moves (be_dataHash E) h (map_of hq (cert_hash cert)) cert (ledger (cs_view s)) (scUndoDatabyScId (cs_undo s)) us
      (ledger (cs_view s')) (scUndoDatabyScId (cs_undo s'))" "inv_block T h m (cs_view s')" "vtxundo (cs_undo s') = vtxundo (cs_undo s) @ [us]"
    "old_tree_root (cs_undo s') = old_tree_root (cs_undo s)" "cs_tree s' = cs_tree s"
    "\<exists>sc. l_sc (ledger (cs_view s)) (cert_scId cert) = Some sc \<and> h \<le> GetScheduledCeasingHeight sc"
proof -
  let ?L = "ledger (cs_view s)" and ?k = "cert_scId cert" and ?top = "map_of hq (cert_hash cert)" and ?um = "scUndoDatabyScId (cs_undo s)"
  obtain v1 sg fee where r1: "cert_block_checks E (cs_sigops s) cert (cs_view s) = Inr (v1, sg, fee)"
    using run by (cases "cert_block_checks E (cs_sigops s) cert (cs_view s)") (auto simp: connect_cert_def)
  obtain v2 us where r2: "UpdateCoins_cert cert v1 h (?top \<noteq> None) = Inr (v2, us)"
    using run r1 by (cases "UpdateCoins_cert cert v1 h (?top \<noteq> None)") (auto simp: connect_cert_def)
  obtain v3 r where r3: "CacheGetSidechain v2 ?k = (v3, r)" by (cases "CacheGetSidechain v2 ?k")
  have r0: "bindR (case ?top of None \<Rightarrow> Inr (v3, ?um) | Some p \<Rightarrow> connect_top_cert E p cert v3 ?um) (\<lambda>(v, m). bindR (commitment_add (be_rules E) cert v) (\<lambda>(v, _).
       Inr (s\<lparr>cs_view := v, cs_fees := wrap64 (cs_fees s + fee), cs_sigops := sg, cs_undo := (cs_undo s)\<lparr>vtxundo := vtxundo (cs_undo s) @ [us], scUndoDatabyScId := m\<rparr>\<rparr>))) = Inr s'"
    using run r1 r2 r3 by (simp add: connect_cert_def split: if_splits)
  obtain v4 um where r4: "(case ?top of None \<Rightarrow> Inr (v3, ?um) | Some p \<Rightarrow> connect_top_cert E p cert v3 ?um) = Inr (v4, um)" using r0 by (auto simp: bindR_eq_Inr)
  obtain v5 y where r5: "commitment_add (be_rules E) cert v4 = Inr (v5, y)" using r0 r4 by (auto simp: bindR_eq_Inr)
  have r6: "s' = s\<lparr>cs_view := v5, cs_fees := wrap64 (cs_fees s + fee), cs_sigops := sg, cs_undo := (cs_undo s)\<lparr>vtxundo := vtxundo (cs_undo s) @ [us], scUndoDatabyScId := um\<rparr>\<rparr>"
    using r0 r4 r5 by simp
  note r = r1 r2 r3 r4 r5 r6
  have q: "reads (cs_view s) v1" "cert_code (be_chain E) (h - 1) cert (l_sc ?L ?k) = OK" using learnsD [OF learns_cert_checks [OF R] inv_blockD(3) [OF i] a r(1)] by auto
  obtain sc where sc: "l_sc ?L ?k = Some sc" "h \<le> GetScheduledCeasingHeight sc" by (rule cert_code_alive [OF q(2)])
  note l1 = reads_ledger [OF q(1)] and i1 = reads_block [OF q(1) i]
  obtain L1 us' where s1: "spec_update_cert cert h (?top \<noteq> None) (ledger v1) = Inr (L1, us')"
    using UpdateCoins_cert_err [OF inv_blockD(2) [OF i1], of cert h "?top \<noteq> None"] r(2) by (cases "spec_update_cert cert h (?top \<noteq> None) (ledger v1)") auto
  have o: "valid_outs (cert_vout cert)" using f by (simp add: cert_fine_def)
  obtain w where w: "UpdateCoins_cert cert v1 h (?top \<noteq> None) = Inr (w, us')" "keeps T v1 w" "ledger w = L1" by (rule UpdateCoins_cert_ok [OF inv_blockD(2) [OF i1] o s1])
  have e: "us' = us" "w = v2" using w(1) r(2) by simp_all
  note rd = CacheGetSidechain_reads(2) [OF r(3)]
  note i3 = reads_block [OF rd keeps_block [OF w(2) i1, unfolded e]]
  have l3: "ledger v3 = L1" using reads_ledger [OF rd] w(3) e by simp
  have s2: "spec_update_cert cert h (?top \<noteq> None) ?L = Inr (L1, us)" using s1 e l1 by simp
  note U = spec_update_cert_inv [OF ci s2 n f]
  have M: "cert_moves (be_dataHash E) h ?top cert ?L ?um us (ledger v4) um \<and> inv_block T h m v4"
  proof (cases ?top)
    case None
    then show ?thesis using r(4) s2 l3 i3 by (auto simp: cert_moves_def simp del: ledger_sel)
  next
    case (Some p)
    have c3: "chain_inv h m (ledger v3)" using U(1) h l3 by simp
    have p: "p = 0 \<or> p = last_cert (l_sc (ledger v3)) ?k" "map_of ?um ?k = None" using t [OF Some] U(3) h l3 by simp_all
    have al: "h \<le> GetScheduledCeasingHeight x" if "l_sc (ledger v3) ?k = Some x" for x using that sc U(3) h l3 by simp
    have run: "connect_top_cert E p cert v3 ?um = Inr (v4, um)" using r(4) Some by simp
    obtain L2 ud C us2 where X: "spec_cert (be_dataHash E) cert (undo_at ?um ?k) (ledger v3) = Inr (L2, ud)" "spec_nullify p (l_coins L2) = Inr (C, us2)"
      "ledger v4 = L2\<lparr>l_coins := C\<rparr>" "um = AList.update ?k (if p = 0 then ud else add_section SUPERSEDED_CERT_DATA (ud\<lparr>lowQualityBwts := lowQualityBwts ud @ us2\<rparr>)) ?um"
      "inv_block T h m v4"
      by (rule connect_top_cert_moves [OF i3 c3 p(2,1) al run])
    show ?thesis unfolding cert_moves_def Some option.case using s2 [unfolded Some] X l3 by blast
  qed
  have "learns (\<lambda>_. True) (commitment_add (be_rules E) cert) (\<lambda>_ _. True)" using R by (simp add: reading_rules_def)
  from learnsD [OF this inv_blockD(3) _ r(5)] M have rd5: "reads v4 v5" by blast
  then have "ledger (cs_view s') = ledger v4" "inv_block T h m (cs_view s')" using reads_ledger reads_block M r(6) by auto
  then show thesis using that [of us] M r(6) sc by simp
qed

lemma cert_moves_inv:
  assumes i: "chain_inv h m L" and s: "cert_moves dh h prev cert L um us L' um'" and n: "new_hash (cert_hash cert) L" and f: "cert_fine cert" and h: "0 < h"
    and p: "\<And>p. prev = Some p \<Longrightarrow> p = 0 \<or> p = last_cert (l_sc L) (cert_scId cert)"
    and a: "\<And>sc. l_sc L (cert_scId cert) = Some sc \<Longrightarrow> h \<le> GetScheduledCeasingHeight sc"
  shows "chain_inv h m L'" "\<And>x. new_hash x L \<Longrightarrow> x \<noteq> cert_hash cert \<Longrightarrow> new_hash x L'"
    "\<And>k. k \<noteq> cert_scId cert \<or> prev = None \<Longrightarrow> l_sc L' k = l_sc L k \<and> map_of um' k = map_of um k"
    "l_maturing L' = l_maturing L" "l_nf L' = l_nf L" "l_csw L' = l_csw L" "l_best L' = l_best L" "l_anchors L' = l_anchors L" "l_bestAnchor L' = l_bestAnchor L"
proof -
  obtain L1 where L1: "spec_update_cert cert h (prev \<noteq> None) L = Inr (L1, us)" using s by (auto simp: cert_moves_def)
  note U = spec_update_cert_inv [OF i L1 n f]
  have x: "cert_hash cert \<noteq> 0" "\<forall>k. last_cert (l_sc L) k \<noteq> cert_hash cert" using n by (simp_all add: new_hash_def)
  obtain C0 sc where C0: "l_sc L (cert_scId cert) = Some sc" "L1 = L\<lparr>l_coins := C0\<rparr>" using spec_update_cert_Inr [OF L1] by metis
  have all: "chain_inv h m L' \<and> (\<forall>x. new_hash x L \<longrightarrow> x \<noteq> cert_hash cert \<longrightarrow> new_hash x L')
    \<and> (\<forall>k. k \<noteq> cert_scId cert \<or> prev = None \<longrightarrow> l_sc L' k = l_sc L k \<and> map_of um' k = map_of um k)
    \<and> l_maturing L' = l_maturing L \<and> l_nf L' = l_nf L \<and> l_csw L' = l_csw L \<and> l_best L' = l_best L \<and> l_anchors L' = l_anchors L \<and> l_bestAnchor L' = l_bestAnchor L"
  proof (cases prev)
    case None
    then show ?thesis using s L1 U h C0 by (auto simp: cert_moves_def new_hash_def)
  next
    case (Some q)
    then obtain L2 ud C us' where X: "spec_cert dh cert (undo_at um (cert_scId cert)) L1 = Inr (L2, ud)" "spec_nullify q (l_coins L2) = Inr (C, us')" "L' = L2\<lparr>l_coins := C\<rparr>"
      "um' = AList.update (cert_scId cert) (if q = 0 then ud else add_section SUPERSEDED_CERT_DATA (ud\<lparr>lowQualityBwts := lowQualityBwts ud @ us'\<rparr>)) um"
      using s L1 by (auto simp: cert_moves_def)
    have i1: "chain_inv h m L1" using U(1) h by simp
    have sl: "l_sc L1 = l_sc L" using C0(2) by simp
    have "0 \<le> epochNumber cert" using f by (simp add: cert_fine_def)
    note V = spec_cert_inv [OF i1 X(1) this x(1), unfolded sl, OF x(2) U(4) a]
    have h0: "h \<noteq> 0" using h by simp
    note D = chain_invD [OF V(1) [OF h0]]
    obtain sc' cc where o: "L2 = L1\<lparr>l_sc := (l_sc L1)(cert_scId cert \<mapsto> sc'), l_ceasing := cc\<rparr>" using spec_cert_Inr [OF X(1)] C0(1) sl by metis
    have q: "bwt_pos_ok (l_coins L2) q" if "q \<noteq> 0"
    proof -
      have ql: "q = last_cert (l_sc L) (cert_scId cert)" using p [OF Some] that by simp
      have D1: "certs_inv (l_sc L) (l_coins L1)" "coin_inv (l_coins L1)" using chain_invD [OF i1] sl by simp_all
      have "nBwtMaturityHeight c \<noteq> 0" if "l_coins L1 q = Some c" for c using D1(1) that \<open>q \<noteq> 0\<close> unfolding certs_inv_def ql by blast
      then show ?thesis using D1(2) V(3) [OF h0] by (auto simp: bwt_pos_ok_def coin_inv_def)
    qed
    have N: "coins_inv C" "fewer (l_coins L2) C"
      using spec_nullify_inv(1) [OF X(2)] D(2) q spec_nullify_fewer [OF X(2)] X(2) by (cases "q = 0", auto simp: spec_nullify_def)
    have "coin_inv C" using coin_inv_fewer D(1) N by blast
    moreover have "certs_inv (l_sc L2) C" using certs_inv_fewer D(8) N(2) by blast
    ultimately have "chain_inv h m L'" using D X(3) by (simp add: chain_inv_def)
    moreover have "new_hash x L'" if "new_hash x L" "x \<noteq> cert_hash cert" for x
      using that V(2,3) [OF h0] U(2) [OF h0] fewer_None [OF N(2), of x] X(3) by (auto simp: new_hash_def)
    ultimately show ?thesis using X(3,4) o C0(2) Some by simp
  qed
  then show "chain_inv h m L'" "\<And>x. new_hash x L \<Longrightarrow> x \<noteq> cert_hash cert \<Longrightarrow> new_hash x L'"
    "\<And>k. k \<noteq> cert_scId cert \<or> prev = None \<Longrightarrow> l_sc L' k = l_sc L k \<and> map_of um' k = map_of um k"
    "l_maturing L' = l_maturing L" "l_nf L' = l_nf L" "l_csw L' = l_csw L" "l_best L' = l_best L" "l_anchors L' = l_anchors L" "l_bestAnchor L' = l_bestAnchor L"
    by simp_all
qed

end
