(* ===== verification/TopCerts.thy ===== *)
theory TopCerts
  imports CertSteps
begin

text \<open>
  Which certificates of a block are the top quality ones of their sidechains: the two versions of \<open>HighQualityCertData\<close> compute the same, one from the chain state
  the certificates of the block find, the other from the undo data they leave.
\<close>

section \<open>The last certificate of each sidechain\<close>

text \<open>The certificates, in the order given, whose sidechain exists and was not met before.\<close>

fun firsts :: "(uint256 \<Rightarrow> bool) \<Rightarrow> uint256 list \<Rightarrow> CScCertificate list \<Rightarrow> CScCertificate list" where
  "firsts X V [] = []"
| "firsts X V (c # cs) = (if List.member V (cert_scId c) \<or> \<not> X (cert_scId c) then firsts X V cs else c # firsts X (cert_scId c # V) cs)"

definition top_certs :: "(uint256 \<Rightarrow> bool) \<Rightarrow> CScCertificate list \<Rightarrow> CScCertificate list" where
  "top_certs X certs = firsts X [] (rev certs)"

lemma firsts_sub: "set (firsts X V cs) \<subseteq> set cs"
  by (induction X V cs rule: firsts.induct) auto

lemma firsts_scIds: "distinct (map cert_scId (firsts X V cs)) \<and> (\<forall>c \<in> set (firsts X V cs). cert_scId c \<notin> set V \<and> X (cert_scId c))"
proof (induction X V cs rule: firsts.induct)
  case (2 X V c cs)
  show ?case
  proof (cases "List.member V (cert_scId c) \<or> \<not> X (cert_scId c)")
    case True
    then have "firsts X V (c # cs) = firsts X V cs" by (simp only: firsts.simps if_True)
    then show ?thesis using 2(1) [OF True] by argo
  next
    case False
    then have f: "firsts X V (c # cs) = c # firsts X (cert_scId c # V) cs" by (simp only: firsts.simps if_False)
    note I = 2(2) [OF False]
    have "cert_scId c \<notin> cert_scId ` set (firsts X (cert_scId c # V) cs)" using I by (metis imageE list.set_intros(1))
    moreover have "\<forall>d \<in> set (firsts X (cert_scId c # V) cs). cert_scId d \<notin> set V \<and> X (cert_scId d)" using I by (metis list.set_intros(2))
    moreover have "cert_scId c \<notin> set V \<and> X (cert_scId c)" using False by simp
    ultimately show ?thesis unfolding f list.map distinct.simps list.set set_map using I by blast
  qed
qed simp

lemma firsts_cover: "c \<in> set cs \<Longrightarrow> cert_scId c \<notin> set V \<Longrightarrow> X (cert_scId c) \<Longrightarrow> \<exists>d \<in> set (firsts X V cs). cert_scId d = cert_scId c"
proof (induction X V cs rule: firsts.induct)
  case (2 X V d cs)
  then show ?case by (cases "cert_scId c = cert_scId d") auto
qed simp

lemma firsts_all: "\<forall>c \<in> set cs. X (cert_scId c) \<Longrightarrow> firsts X V cs = firsts (\<lambda>_. True) V cs"
  by (induction X V cs rule: firsts.induct) auto

section \<open>The certificate it supersedes\<close>

definition prev_of :: "(uint256 \<rightharpoonup> CSidechain) \<Rightarrow> CScCertificate \<Rightarrow> uint256" where
  "prev_of S cert = (case S (cert_scId cert) of None \<Rightarrow> 0
     | Some sc \<Rightarrow> if epochNumber cert = lastTopQualityCertReferencedEpoch sc then lastTopQualityCertHash sc else 0)"

lemma prev_of_cases: "prev_of S cert = 0 \<or> prev_of S cert = last_cert S (cert_scId cert)"
  by (auto simp: prev_of_def last_cert_def split: option.splits)

definition hq_map :: "(CScCertificate \<Rightarrow> uint256) \<Rightarrow> (uint256 \<times> uint256) list \<Rightarrow> CScCertificate list \<Rightarrow> (uint256 \<times> uint256) list" where
  "hq_map f res cs = fold (\<lambda>c. AList.update (cert_hash c) (f c)) cs res"

lemma hq_map_other: "x \<notin> cert_hash ` set cs \<Longrightarrow> map_of (hq_map f res cs) x = map_of res x"
  by (induction cs arbitrary: res) (auto simp: hq_map_def update_conv')

lemma hq_map_at: "c \<in> set cs \<Longrightarrow> inj_on cert_hash (set cs) \<Longrightarrow> map_of (hq_map f res cs) (cert_hash c) = Some (f c)"
proof (induction cs arbitrary: res)
  case (Cons d cs)
  show ?case
  proof (cases "c \<in> set cs")
    case True
    then show ?thesis using Cons by (simp add: hq_map_def)
  next
    case False
    then have "c = d" "cert_hash c \<notin> cert_hash ` set cs" using Cons.prems by (auto dest: inj_onD)
    then show ?thesis using hq_map_other [of "cert_hash c" cs f "AList.update (cert_hash d) (f d) res"] by (simp add: hq_map_def update_conv')
  qed
qed simp

lemma hq_map_cong: "(\<And>c. c \<in> set cs \<Longrightarrow> f c = g c) \<Longrightarrow> hq_map f res cs = hq_map g res cs"
  unfolding hq_map_def by (rule fold_cong) simp_all

section \<open>From the chain state\<close>

lemma learns_get_sidechain: "learns P (onCache (\<lambda>v. CacheGetSidechain v k)) (\<lambda>L r. r = l_sc L k)"
  by (rule learnsI) (auto simp: onCache_def simp del: ledger_sel dest: CacheGetSidechain_reads)

lemma learns_high_quality:
  "learns P (high_quality_view V res cs) (\<lambda>L r. r = hq_map (prev_of (l_sc L)) res (firsts (\<lambda>k. l_sc L k \<noteq> None) V cs))"
proof (induction V res cs arbitrary: P rule: high_quality_view.induct)
  case (1 V res)
  show ?case by (simp add: learns_ret hq_map_def)
next
  case (2 V res cert cs)
  show ?case unfolding high_quality_view.simps
  proof (rule learns_if)
    assume v: "List.member V (cert_scId cert)"
    show "learns P (high_quality_view V res cs) (\<lambda>L r. r = hq_map (prev_of (l_sc L)) res (firsts (\<lambda>k. l_sc L k \<noteq> None) V (cert # cs)))"
      by (rule learns_weaken [OF 2(1) [OF v]]) (use v in auto)
  next
    assume v: "\<not> List.member V (cert_scId cert)"
    show "learns P (bindL (onCache (\<lambda>v. CacheGetSidechain v (cert_scId cert))) (\<lambda>r.
        case r of None \<Rightarrow> high_quality_view V res cs
        | Some sidechain \<Rightarrow> high_quality_view (cert_scId cert # V) (AList.update (cert_hash cert)
            (if epochNumber cert = lastTopQualityCertReferencedEpoch sidechain then lastTopQualityCertHash sidechain else 0) res) cs))
      (\<lambda>L r. r = hq_map (prev_of (l_sc L)) res (firsts (\<lambda>k. l_sc L k \<noteq> None) V (cert # cs)))"
    proof (rule learns_bind [OF learns_get_sidechain], rule learns_option)
      fix r :: "CSidechain option" assume n: "r = None"
      show "learns (\<lambda>L. P L \<and> r = l_sc L (cert_scId cert)) (high_quality_view V res cs)
          (\<lambda>L r. r = hq_map (prev_of (l_sc L)) res (firsts (\<lambda>k. l_sc L k \<noteq> None) V (cert # cs)))"
        by (rule learns_weaken [OF 2(2) [OF v]]) (use n in auto)
    next
      fix r :: "CSidechain option" and sc assume n: "r = Some sc"
      show "learns (\<lambda>L. P L \<and> r = l_sc L (cert_scId cert)) (high_quality_view (cert_scId cert # V) (AList.update (cert_hash cert)
            (if epochNumber cert = lastTopQualityCertReferencedEpoch sc then lastTopQualityCertHash sc else 0) res) cs)
          (\<lambda>L r. r = hq_map (prev_of (l_sc L)) res (firsts (\<lambda>k. l_sc L k \<noteq> None) V (cert # cs)))"
        by (rule learns_weaken [OF 2(3) [OF v]]) (use n v in \<open>auto simp: hq_map_def prev_of_def\<close>)
    qed
  qed
qed

section \<open>From the undo data\<close>

definition prev_in :: "CSidechainUndoData \<Rightarrow> CScCertificate \<Rightarrow> uint256" where
  "prev_in ud cert = (if epochNumber cert = prevTopCommittedCertReferencedEpoch ud then prevTopCommittedCertHash ud else 0)"

lemma records_prev_in: "records ud cert sc \<Longrightarrow> S (cert_scId cert) = Some sc \<Longrightarrow> prev_in ud cert = prev_of S cert"
  by (simp add: records_def prev_in_def prev_of_def)

lemma high_quality_undo_eq:
  assumes "\<And>c. c \<in> set (firsts (\<lambda>_. True) V cs) \<Longrightarrow> \<exists>ud. map_of m (cert_scId c) = Some ud \<and> prev_in ud c = f c"
  shows "high_quality_undo m V res cs = Inr (hq_map f res (firsts (\<lambda>_. True) V cs))"
  using assms
proof (induction m V res cs rule: high_quality_undo.induct)
  case (2 m V res cert cs)
  show ?case
  proof (cases "List.member V (cert_scId cert)")
    case True
    then show ?thesis using 2 by simp
  next
    case False
    then obtain ud where ud: "map_of m (cert_scId cert) = Some ud" "prev_in ud cert = f cert" using 2(3) [of cert] by auto
    then show ?thesis using 2(2) [OF False] 2(3) False by (simp add: at_map_def hq_map_def prev_in_def)
  qed
qed (simp add: hq_map_def)

end
