(* ===== verification/CertUndo.thy ===== *)
theory CertUndo
  imports TopCerts
begin

text \<open>
  Disconnecting the certificates of a block: what connecting them did to the ledger is undone, last certificate first, with the undo data the block has left.
\<close>

section \<open>One certificate, with what holds when it is connected\<close>

definition cert_step :: "(CScCertificate \<Rightarrow> ScFixedParameters \<Rightarrow> CFieldElement) \<Rightarrow> int \<Rightarrow> uint256 option \<Rightarrow> CScCertificate \<Rightarrow> Ledger \<Rightarrow> ScUndoMap
    \<Rightarrow> CTxInUndo list \<Rightarrow> Ledger \<Rightarrow> ScUndoMap \<Rightarrow> bool" where
  "cert_step dh h prev cert L um us L' um' \<longleftrightarrow> cert_moves dh h prev cert L um us L' um' \<and> new_hash (cert_hash cert) L \<and> cert_fine cert
     \<and> (\<exists>sc. l_sc L (cert_scId cert) = Some sc \<and> h \<le> GetScheduledCeasingHeight sc)
     \<and> (\<forall>p. prev = Some p \<longrightarrow> map_of um (cert_scId cert) = None \<and> p = prev_of (l_sc L) cert)"

lemma cert_step_prev: "cert_step dh h prev cert L um us L' um' \<Longrightarrow> prev = Some p \<Longrightarrow> p = 0 \<or> p = last_cert (l_sc L) (cert_scId cert)"
  using prev_of_cases [of "l_sc L" cert] by (auto simp: cert_step_def)

lemma cert_step_alive: "cert_step dh h prev cert L um us L' um' \<Longrightarrow> l_sc L (cert_scId cert) = Some sc \<Longrightarrow> h \<le> GetScheduledCeasingHeight sc"
  by (auto simp: cert_step_def)

lemma cert_step_inv:
  assumes "chain_inv h m L" "cert_step dh h prev cert L um us L' um'" "0 < h"
  shows "chain_inv h m L'" "\<And>x. new_hash x L \<Longrightarrow> x \<noteq> cert_hash cert \<Longrightarrow> new_hash x L'"
    "\<And>k. k \<noteq> cert_scId cert \<or> prev = None \<Longrightarrow> l_sc L' k = l_sc L k \<and> map_of um' k = map_of um k"
    "l_maturing L' = l_maturing L" "l_nf L' = l_nf L" "l_csw L' = l_csw L" "l_best L' = l_best L" "l_anchors L' = l_anchors L" "l_bestAnchor L' = l_bestAnchor L"
proof -
  have s: "cert_moves dh h prev cert L um us L' um'" "new_hash (cert_hash cert) L" "cert_fine cert" using assms(2) by (simp_all add: cert_step_def)
  show "chain_inv h m L'" "\<And>x. new_hash x L \<Longrightarrow> x \<noteq> cert_hash cert \<Longrightarrow> new_hash x L'"
    "\<And>k. k \<noteq> cert_scId cert \<or> prev = None \<Longrightarrow> l_sc L' k = l_sc L k \<and> map_of um' k = map_of um k"
    "l_maturing L' = l_maturing L" "l_nf L' = l_nf L" "l_csw L' = l_csw L" "l_best L' = l_best L" "l_anchors L' = l_anchors L" "l_bestAnchor L' = l_bestAnchor L"
    by (rule cert_moves_inv [OF assms(1) s assms(3) cert_step_prev [OF assms(2)] cert_step_alive [OF assms(2)]], assumption+)+
qed

section \<open>The undo data of a certificate\<close>

text \<open>The part of the undo data that certificates write; the events of the block write the rest.\<close>

definition cert_part :: "CSidechainUndoData \<Rightarrow> bool \<times> bool \<times> bool \<times> uint256 \<times> int \<times> int \<times> CAmount \<times> CScCertificateView \<times> ScFeeData list \<times> CScCertificateView \<times> CTxInUndo list" where
  "cert_part ud = (has_section ud ANY_EPOCH_CERT_DATA, has_section ud CROSS_EPOCH_CERT_DATA, has_section ud SUPERSEDED_CERT_DATA, prevTopCommittedCertHash ud,
     prevTopCommittedCertReferencedEpoch ud, prevTopCommittedCertQuality ud, prevTopCommittedCertBwtAmount ud, ud_lastTopQualityCertView ud, ud_scFees ud,
     ud_pastEpochTopQualityCertView ud, lowQualityBwts ud)"

lemma cert_partD:
  assumes "cert_part ud = cert_part ud'"
  shows "records ud cert sc = records ud' cert sc" "has_section ud SUPERSEDED_CERT_DATA = has_section ud' SUPERSEDED_CERT_DATA" "lowQualityBwts ud = lowQualityBwts ud'"
    "prev_in ud cert = prev_in ud' cert"
  using assms by (simp_all add: cert_part_def records_def prev_in_def)

lemma cert_part_events [simp]: "cert_part (mark_matured h S k ud) = cert_part ud" "cert_part (mark_ceased S C k ud) = cert_part ud"
  by (simp_all add: cert_part_def mark_matured_def mark_ceased_def has_section_def add_section_def MATURED_AMOUNTS_def CEASED_CERT_DATA_def
      ANY_EPOCH_CERT_DATA_def CROSS_EPOCH_CERT_DATA_def SUPERSEDED_CERT_DATA_def bit.conj_disj_distrib2)

lemma undo_upd_part:
  assumes "undo_upd f S m m'" "\<And>ud. cert_part (f k ud) = cert_part ud" "map_of m k = Some ud"
  shows "\<exists>ud'. map_of m' k = Some ud' \<and> cert_part ud' = cert_part ud"
  using assms by (cases "k \<in> S") (simp_all add: undo_upd_def undo_at_def)

lemma ev_undo_part:
  assumes "ev_undo h L m m'" "map_of m k = Some ud"
  shows "\<exists>ud'. map_of m' k = Some ud' \<and> cert_part ud' = cert_part ud"
proof -
  obtain m1 where m1: "undo_upd (mark_matured h (l_sc L)) (l_maturing L h) m m1" "undo_upd (mark_ceased (l_sc L) (l_coins L)) (l_ceasing L h) m1 m'"
    using assms(1) by (auto simp: ev_undo_def)
  obtain ud1 where "map_of m1 k = Some ud1" "cert_part ud1 = cert_part ud" using undo_upd_part [OF m1(1) _ assms(2)] by auto
  then show ?thesis using undo_upd_part [OF m1(2)] by fastforce
qed

text \<open>What a top quality certificate has recorded.\<close>

lemma cert_step_records:
  assumes s: "cert_step dh h (Some p) cert L um us L' um'" and sc: "l_sc L (cert_scId cert) = Some sc"
  obtains ud where "map_of um' (cert_scId cert) = Some ud" "records ud cert sc" "prev_in ud cert = p"
proof -
  obtain L1 L2 ud C us' where X: "spec_update_cert cert h True L = Inr (L1, us)" "spec_cert dh cert (undo_at um (cert_scId cert)) L1 = Inr (L2, ud)"
    "um' = AList.update (cert_scId cert) (if p = 0 then ud else add_section SUPERSEDED_CERT_DATA (ud\<lparr>lowQualityBwts := lowQualityBwts ud @ us'\<rparr>)) um"
    using s by (auto simp: cert_step_def cert_moves_def)
  have sc1: "l_sc L1 (cert_scId cert) = Some sc" using spec_update_cert_Inr [OF X(1)] sc by fastforce
  obtain sc' where "cert_update dh cert sc (undo_at um (cert_scId cert)) = Inr (sc', ud)" using spec_cert_Inr [OF X(2) sc1] by blast
  then have r: "records ud cert sc" by (rule cert_update_records)
  let ?ud = "if p = 0 then ud else add_section SUPERSEDED_CERT_DATA (ud\<lparr>lowQualityBwts := lowQualityBwts ud @ us'\<rparr>)"
  have r': "records ?ud cert sc" using r by (auto simp: records_def)
  have "prev_in ?ud cert = prev_of (l_sc L) cert" using records_prev_in [of ?ud cert sc "l_sc L"] r' sc by simp
  then show thesis using that [of ?ud] r' X(3) s by (simp add: cert_step_def update_conv')
qed

section \<open>Disconnecting one certificate\<close>

lemma spec_nullify_remove: "spec_nullify p C = Inr (C', us) \<Longrightarrow> p \<noteq> x \<Longrightarrow> spec_nullify p (C(x := None)) = Inr (C'(x := None), us)"
  by (auto simp: spec_nullify_def fun_upd_twist split: if_splits option.splits prod.splits)

lemma maturity_cong: "creationBlockHeight sc' = creationBlockHeight sc \<Longrightarrow> fixedParams sc' = fixedParams sc \<Longrightarrow> GetCertMaturityHeight sc' e = GetCertMaturityHeight sc e"
  by (simp add: epoch_defs isCreationConfirmed_def GetCertSubmissionWindowLength_def)

text \<open>The sidechain and the superseded certificate.\<close>

lemma disconnect_top_cert_ok:
  assumes s: "spec_cert dh cert ud0 L1 = Inr (L2, ud1)" and sc: "l_sc L1 (cert_scId cert) = Some sc" and c: "scheduled (l_ceasing L1) (cert_scId cert) sc"
    and ud: "map_of mf (cert_scId cert) = Some ud" "records ud cert sc" "p \<noteq> 0 \<Longrightarrow> has_section ud SUPERSEDED_CERT_DATA" "p \<noteq> 0 \<Longrightarrow> lowQualityBwts ud = us"
    and C: "coins_inv C" "p \<noteq> 0 \<Longrightarrow> bwt_pos_ok C p" "spec_nullify p C = Inr (C', us)"
    and w: "inv_revert T w" "l_coins (ledger w) = C'" "l_sc (ledger w) = l_sc L2" "l_ceasing (ledger w) = l_ceasing L2"
  obtains w' where "disconnect_top_cert p cert mf w = Inr w'" "inv_revert T w'" "ledger w' = (ledger w)\<lparr>l_coins := C, l_sc := l_sc L1, l_ceasing := l_ceasing L1\<rparr>"
proof -
  let ?n = "GetScheduledCeasingHeight sc"
  have g: "good T ?n w" using w(1) by (simp add: inv_revert_def)
  obtain w1 where w1: "(if p \<noteq> 0 then bindR (at_map mf (cert_scId cert)) (\<lambda>ud. if \<not> has_section ud SUPERSEDED_CERT_DATA then Inl Assert
      else bindR (RestoreBackwardTransfers w p (lowQualityBwts ud)) (\<lambda>(v, _). Inr v)) else Inr w) = Inr w1" "keeps T w w1" "ledger w1 = (ledger w)\<lparr>l_coins := C\<rparr>"
  proof (cases "p = 0")
    case True
    then have "C' = C" using C(3) by (simp add: spec_nullify_def)
    then show thesis using that [of w] True w(2) by (metis keeps_refl ledger_coins_same(1))
  next
    case False
    obtain w1 where w1: "RestoreBackwardTransfers w p us = Inr (w1, True)" "keeps T w w1" "ledger w1 = (ledger w)\<lparr>l_coins := C\<rparr>"
      by (rule RestoreBackwardTransfers_ok [OF g C(1) C(2) [OF False] C(3) w(2)])
    then show thesis using that [of w1] False ud by (simp add: at_map_def)
  qed
  have r1: "inv_revert T w1" using keeps_inv(2) [OF w1(2) w(1)] .
  then have g1: "good T ?n w1" by (simp add: inv_revert_def)
  have e: "l_sc (ledger w1) = l_sc L2" "l_ceasing (ledger w1) = l_ceasing L2" using w(3,4) unfolding w1(3) by simp_all
  obtain w2 where w2: "RestoreSidechain w1 cert ud = Inr w2" "keeps_at T ?n w1 w2" "ledger w2 = (ledger w1)\<lparr>l_sc := l_sc L1, l_ceasing := l_ceasing L1\<rparr>"
    by (rule RestoreSidechain_ok [OF s sc ud(2) c g1 order_refl e])
  have "disconnect_top_cert p cert mf w = Inr w2" using w1(1) w2(1) ud(1) unfolding disconnect_top_cert_def by (simp add: at_map_def)
  then show thesis using that keeps_at_revert [OF w2(2) r1] w2(3) unfolding w1(3) by simp
qed

lemma disconnect_cert_ok:
  assumes i: "chain_inv h m L" and h: "0 < h" and s: "cert_step dh h prev cert L um us L' um'"
    and w: "inv_revert T w" "l_coins (ledger w) = l_coins L'" "l_sc (ledger w) = l_sc L'" "l_ceasing (ledger w) = l_ceasing L'"
    and hq: "map_of hq (cert_hash cert) = prev"
    and u: "\<And>p ud. prev = Some p \<Longrightarrow> map_of um' (cert_scId cert) = Some ud \<Longrightarrow> \<exists>ud'. map_of mf (cert_scId cert) = Some ud' \<and> cert_part ud' = cert_part ud"
  obtains w' where "disconnect_cert h hq mf (w, b) (cert, us) = Inr (w', b)" "inv_revert T w'" "ledger w' = (ledger w)\<lparr>l_coins := l_coins L, l_sc := l_sc L, l_ceasing := l_ceasing L\<rparr>"
proof -
  let ?k = "cert_scId cert" and ?x = "cert_hash cert"
  note D = chain_invD [OF i]
  obtain L1 where L1: "spec_update_cert cert h (prev \<noteq> None) L = Inr (L1, us)" using s by (auto simp: cert_step_def cert_moves_def)
  obtain C1 sc where C1: "foldR spec_spend (l_coins L, []) (cert_vin cert) = Inr (C1, us)" "l_sc L ?k = Some sc"
    "L1 = L\<lparr>l_coins := C1(?x := normC (Some (From_cert cert h (GetCertMaturityHeight sc (epochNumber cert)) (prev \<noteq> None))))\<rparr>" by (rule spec_update_cert_Inr [OF L1])
  let ?o = "From_cert cert h (GetCertMaturityHeight sc (epochNumber cert)) (prev \<noteq> None)"
  have nx: "?x \<noteq> 0" "l_coins L ?x = None" "\<forall>k. last_cert (l_sc L) k \<noteq> ?x" using s by (simp_all add: cert_step_def new_hash_def)
  have c1: "C1 ?x = None" "coins_inv C1" "fewer (l_coins L) C1" using spends_fewer [OF C1(1)] fewer_None nx(2) D(2) by auto
  have px: "p \<noteq> ?x" if "prev = Some p" for p using cert_step_prev [OF s that] nx by auto
  have top: "\<exists>L2 ud C us' sc'. spec_cert dh cert (undo_at um ?k) L1 = Inr (L2, ud) \<and> spec_nullify p (l_coins L1) = Inr (C, us') \<and> L' = L2\<lparr>l_coins := C\<rparr>
      \<and> um' = AList.update ?k (if p = 0 then ud else add_section SUPERSEDED_CERT_DATA (ud\<lparr>lowQualityBwts := lowQualityBwts ud @ us'\<rparr>)) um
      \<and> cert_update dh cert sc (undo_at um ?k) = Inr (sc', ud) \<and> l_sc L2 ?k = Some sc' \<and> l_coins L2 = l_coins L1" if pp: "prev = Some p" for p
  proof -
    obtain L2 ud C us' where X: "spec_cert dh cert (undo_at um ?k) L1 = Inr (L2, ud)" "spec_nullify p (l_coins L2) = Inr (C, us')" "L' = L2\<lparr>l_coins := C\<rparr>"
      "um' = AList.update ?k (if p = 0 then ud else add_section SUPERSEDED_CERT_DATA (ud\<lparr>lowQualityBwts := lowQualityBwts ud @ us'\<rparr>)) um"
      using s L1 unfolding pp by (auto simp: cert_step_def cert_moves_def)
    have k1: "l_sc L1 ?k = Some sc" using C1(2,3) by simp
    obtain sc' where "cert_update dh cert sc (undo_at um ?k) = Inr (sc', ud)" "l_sc L2 ?k = Some sc'" "l_coins L2 = l_coins L1"
      by (rule spec_cert_Inr [OF X(1) k1]) simp
    then show ?thesis using X by metis
  qed
  obtain sc1 where sc1: "l_sc L' ?k = Some sc1" "GetCertMaturityHeight sc1 (epochNumber cert) = GetCertMaturityHeight sc (epochNumber cert)" "l_coins L' ?x = normC (Some ?o)"
  proof (cases prev)
    case None
    then have "L' = L1" using s L1 by (simp add: cert_step_def cert_moves_def)
    then show thesis using that [of sc] C1(2,3) by simp
  next
    case (Some p)
    obtain L2 ud C us' sc' where X: "spec_nullify p (l_coins L1) = Inr (C, us')" "L' = L2\<lparr>l_coins := C\<rparr>" "cert_update dh cert sc (undo_at um ?k) = Inr (sc', ud)" "l_sc L2 ?k = Some sc'"
      using top [OF Some] by (elim exE conjE) (rule that)
    have "C ?x = l_coins L1 ?x" using X(1) px [OF Some] by (auto simp: spec_nullify_def split: if_splits option.splits prod.splits)
    then show thesis using that [of sc'] X(2,4) C1(3) maturity_cong [OF cert_update_records(5,6) [OF X(3)], of "epochNumber cert"] by simp
  qed
  obtain w1 r where w1: "CacheGetSidechain w ?k = (w1, r)" by fastforce
  note R = CacheGetSidechain_reads [OF w1]
  have r: "r = Some sc1" using R(1) w(3) sc1(1) by simp
  have l1: "ledger w1 = ledger w" using reads_ledger [OF R(2)] .
  have i1: "inv_revert T w1" using keeps_inv(2) [OF reads_keeps [OF R(2)] w(1)] .
  have g1: "good T 0 w1" using i1 by (simp add: inv_revert_def)
  have o: "clean_coins ?o" using s by (intro From_cert_clean) (simp add: cert_step_def cert_fine_def)
  have kx: "l_coins (ledger w1) ?x = normC (Some ?o)" using w(2) sc1(3) unfolding l1 by simp
  obtain w2 where w2: "remove_outputs ?x ?o (w1, b) = Inr (w2, b)" "keeps T w1 w2" "ledger w2 = (ledger w1)\<lparr>l_coins := (l_coins (ledger w1))(?x := None)\<rparr>"
    by (rule remove_outputs_ok [OF g1 o From_cert_idem kx])
  have i2: "inv_revert T w2" using keeps_inv(2) [OF w2(2) i1] .
  obtain w3 where w3: "(case prev of None \<Rightarrow> Inr w2 | Some p \<Rightarrow> disconnect_top_cert p cert mf w2) = Inr w3" "inv_revert T w3"
    "ledger w3 = (ledger w2)\<lparr>l_coins := C1, l_sc := l_sc L, l_ceasing := l_ceasing L\<rparr>"
  proof (cases prev)
    case None
    then have L': "L' = L1" using s L1 by (simp add: cert_step_def cert_moves_def)
    have e: "C1(?x := None) = C1" using c1(1) by auto
    have "ledger w2 = (ledger w)\<lparr>l_coins := C1\<rparr>" unfolding w2(3) l1 w(2) L' C1(3) using e by simp
    moreover have "l_sc (ledger w) = l_sc L" "l_ceasing (ledger w) = l_ceasing L" using w(3,4) unfolding L' C1(3) by simp_all
    ultimately have "ledger w2 = (ledger w2)\<lparr>l_coins := C1, l_sc := l_sc L, l_ceasing := l_ceasing L\<rparr>" by (simp del: ledger_sel)
    then show thesis using that [of w2] None i2 by simp
  next
    case (Some p)
    obtain L2 ud C us' sc' where X: "spec_cert dh cert (undo_at um ?k) L1 = Inr (L2, ud)" "spec_nullify p (l_coins L1) = Inr (C, us')" "L' = L2\<lparr>l_coins := C\<rparr>"
      "um' = AList.update ?k (if p = 0 then ud else add_section SUPERSEDED_CERT_DATA (ud\<lparr>lowQualityBwts := lowQualityBwts ud @ us'\<rparr>)) um"
      "cert_update dh cert sc (undo_at um ?k) = Inr (sc', ud)" using top [OF Some] by (elim exE conjE) (rule that)
    let ?ud = "if p = 0 then ud else add_section SUPERSEDED_CERT_DATA (ud\<lparr>lowQualityBwts := lowQualityBwts ud @ us'\<rparr>)"
    have "map_of um' ?k = Some ?ud" using X(4) by (simp add: update_conv')
    then obtain uf where uf: "map_of mf ?k = Some uf" "cert_part uf = cert_part ?ud" using u [OF Some] by blast
    have "lowQualityBwts (undo_at um ?k) = []" using s Some by (simp add: cert_step_def undo_at_def CSidechainUndoData_new_def)
    then have lq: "lowQualityBwts ud = []" using cert_update_records(2) [OF X(5)] by simp
    have rec: "records uf cert sc" using cert_partD(1) [OF uf(2)] cert_update_records(1) [OF X(5)] by (auto simp: records_def)
    have sup: "p \<noteq> 0 \<Longrightarrow> has_section uf SUPERSEDED_CERT_DATA" "p \<noteq> 0 \<Longrightarrow> lowQualityBwts uf = us'"
      using cert_partD(2,3) [OF uf(2)] lq by (simp_all add: SUPERSEDED_CERT_DATA_def)
    have k1: "l_sc L1 ?k = Some sc" using C1(2,3) by simp
    have sch: "scheduled (l_ceasing L1) ?k sc" using chain_inv_scheduled [OF i C1(2) cert_step_alive [OF s C1(2)]] C1(3) by simp
    have "(l_coins L1)(?x := None) = C1" using C1(3) c1(1) by auto
    then have N: "spec_nullify p C1 = Inr (C(?x := None), us')" using spec_nullify_remove [OF X(2) px [OF Some]] by simp
    have pos: "bwt_pos_ok C1 p" if "p \<noteq> 0"
    proof -
      have pl: "p = last_cert (l_sc L) ?k" using cert_step_prev [OF s Some] that by simp
      have "nBwtMaturityHeight c \<noteq> 0" if "l_coins L p = Some c" for c using D(8) that \<open>p \<noteq> 0\<close> unfolding certs_inv_def pl by blast
      then show ?thesis using D(1) c1(3) unfolding bwt_pos_ok_def coin_inv_def fewer_def by metis
    qed
    have e2: "l_coins (ledger w2) = C(?x := None)" "l_sc (ledger w2) = l_sc L2" "l_ceasing (ledger w2) = l_ceasing L2"
      using w(2-4) unfolding w2(3) l1 X(3) by simp_all
    obtain w3 where "disconnect_top_cert p cert mf w2 = Inr w3" "inv_revert T w3" "ledger w3 = (ledger w2)\<lparr>l_coins := C1, l_sc := l_sc L1, l_ceasing := l_ceasing L1\<rparr>"
      by (rule disconnect_top_cert_ok [OF X(1) k1 sch uf(1) rec sup c1(2) pos N i2 e2])
    then show thesis using that [of w3] Some C1(3) by simp
  qed
  have g3: "good T 0 w3" using w3(2) by (simp add: inv_revert_def)
  obtain w4 where w4: "foldR restore_input (w3, b) (rev (zip (cert_vin cert) us)) = Inr (w4, b)" "keeps T w3 w4" "ledger w4 = (ledger w3)\<lparr>l_coins := l_coins L\<rparr>" "length us = length (cert_vin cert)"
    using restore_inputs_ok [OF D(2) C1(1)] g3 w3(3) by fastforce
  have "disconnect_cert h hq mf (w, b) (cert, us) = Inr (w4, b)"
    using w1 r w2(1) w3(1) w4(1,4) hq sc1(2) by (simp add: disconnect_cert_def restore_inputs_def)
  moreover have "ledger w4 = (ledger w)\<lparr>l_coins := l_coins L, l_sc := l_sc L, l_ceasing := l_ceasing L\<rparr>" unfolding w4(3) w3(3) w2(3) l1 by simp
  ultimately show thesis using that keeps_inv(2) [OF w4(2) w3(2)] by blast
qed

section \<open>The certificates of a block\<close>

fun certs_move :: "(CScCertificate \<Rightarrow> ScFixedParameters \<Rightarrow> CFieldElement) \<Rightarrow> int \<Rightarrow> (CScCertificate \<Rightarrow> uint256 option) \<Rightarrow> CScCertificate list \<Rightarrow> Ledger \<Rightarrow> ScUndoMap
    \<Rightarrow> CTxInUndo list list \<Rightarrow> Ledger \<Rightarrow> ScUndoMap \<Rightarrow> bool" where
  "certs_move dh h prev [] L um uss L' um' \<longleftrightarrow> uss = [] \<and> L' = L \<and> um' = um"
| "certs_move dh h prev (c # cs) L um uss L' um' \<longleftrightarrow> (\<exists>us uss1 L1 um1. uss = us # uss1 \<and> cert_step dh h (prev c) c L um us L1 um1 \<and> certs_move dh h prev cs L1 um1 uss1 L' um')"

definition same_rest :: "Ledger \<Rightarrow> Ledger \<Rightarrow> bool" where
  "same_rest L L' \<longleftrightarrow> l_maturing L' = l_maturing L \<and> l_nf L' = l_nf L \<and> l_csw L' = l_csw L \<and> l_best L' = l_best L \<and> l_anchors L' = l_anchors L \<and> l_bestAnchor L' = l_bestAnchor L"

lemma certs_move_inv:
  assumes "certs_move dh h prev cs L um uss L' um'" "chain_inv h m L" "0 < h"
  shows "chain_inv h m L' \<and> same_rest L L' \<and> length uss = length cs"
  using assms
proof (induction cs arbitrary: L um uss)
  case (Cons c cs)
  obtain us uss1 L1 um1 where s: "uss = us # uss1" "cert_step dh h (prev c) c L um us L1 um1" "certs_move dh h prev cs L1 um1 uss1 L' um'" using Cons.prems(1) by auto
  note I = cert_step_inv [OF Cons.prems(2) s(2) Cons.prems(3)]
  show ?case using Cons.IH [OF s(3) I(1) Cons.prems(3)] I(4-9) s(1) by (simp add: same_rest_def)
qed (simp add: same_rest_def)

lemma certs_move_exist:
  assumes "certs_move dh h prev cs L um uss L' um'" "chain_inv h m L" "0 < h"
  shows "\<forall>c \<in> set cs. l_sc L (cert_scId c) \<noteq> None"
  using assms
proof (induction cs arbitrary: L um uss)
  case (Cons c cs)
  obtain us uss1 L1 um1 where s: "cert_step dh h (prev c) c L um us L1 um1" "certs_move dh h prev cs L1 um1 uss1 L' um'" using Cons.prems(1) by auto
  note I = cert_step_inv [OF Cons.prems(2) s(1) Cons.prems(3)]
  have "l_sc L (cert_scId c) \<noteq> None" using s(1) by (auto simp: cert_step_def)
  moreover have "l_sc L (cert_scId d) \<noteq> None" if "d \<in> set cs" for d
  proof (cases "cert_scId d = cert_scId c")
    case False
    then have "l_sc L (cert_scId d) = l_sc L1 (cert_scId d)" using I(3) by simp
    then show ?thesis using Cons.IH [OF s(2) I(1) Cons.prems(3)] that by simp
  qed (use \<open>l_sc L (cert_scId c) \<noteq> None\<close> in simp)
  ultimately show ?case by auto
qed simp

text \<open>The undo data of a sidechain is written once.\<close>

lemma certs_move_undo:
  assumes "certs_move dh h prev cs L um uss L' um'" "chain_inv h m L" "0 < h" "map_of um k = Some ud"
  shows "map_of um' k = Some ud"
  using assms
proof (induction cs arbitrary: L um uss)
  case (Cons c cs)
  obtain us uss1 L1 um1 where s: "cert_step dh h (prev c) c L um us L1 um1" "certs_move dh h prev cs L1 um1 uss1 L' um'" using Cons.prems(1) by auto
  note I = cert_step_inv [OF Cons.prems(2) s(1) Cons.prems(3)]
  have "k \<noteq> cert_scId c \<or> prev c = None" using s(1) Cons.prems(4) by (cases "prev c") (auto simp: cert_step_def)
  then have "map_of um1 k = Some ud" using I(3) Cons.prems(4) by simp
  then show ?case using Cons.IH [OF s(2) I(1) Cons.prems(3)] by simp
qed simp

lemma certs_move_prev:
  assumes "certs_move dh h prev cs L um uss L' um'" "chain_inv h m L" "0 < h" "c \<in> set cs" "prev c = Some p"
  shows "\<exists>ud. map_of um' (cert_scId c) = Some ud \<and> prev_in ud c = p"
  using assms
proof (induction cs arbitrary: L um uss)
  case (Cons d cs)
  obtain us uss1 L1 um1 where s: "cert_step dh h (prev d) d L um us L1 um1" "certs_move dh h prev cs L1 um1 uss1 L' um'" using Cons.prems(1) by auto
  note I = cert_step_inv [OF Cons.prems(2) s(1) Cons.prems(3)]
  show ?case
  proof (cases "c = d")
    case True
    obtain sc where sc: "l_sc L (cert_scId c) = Some sc" using s(1) True by (auto simp: cert_step_def)
    have s': "cert_step dh h (Some p) c L um us L1 um1" using s(1) True Cons.prems(5) by simp
    obtain ud where "map_of um1 (cert_scId c) = Some ud" "prev_in ud c = p" by (rule cert_step_records [OF s' sc])
    then show ?thesis using certs_move_undo [OF s(2) I(1) Cons.prems(3)] by blast
  next
    case False
    then show ?thesis using Cons.IH [OF s(2) I(1) Cons.prems(3) _ Cons.prems(5)] Cons.prems(4) by simp
  qed
qed simp

lemma cert_step_no_events: "cert_step dh h prev c L um us L' um' \<Longrightarrow> no_events um \<Longrightarrow> no_events um'"
proof -
  assume s: "cert_step dh h prev c L um us L' um'" and n: "no_events um"
  show "no_events um'"
  proof (cases prev)
    case None
    then show ?thesis using s n by (simp add: cert_step_def cert_moves_def)
  next
    case (Some p)
    obtain L1 L2 ud us' where X: "spec_cert dh c (undo_at um (cert_scId c)) L1 = Inr (L2, ud)"
      "um' = AList.update (cert_scId c) (if p = 0 then ud else add_section SUPERSEDED_CERT_DATA (ud\<lparr>lowQualityBwts := lowQualityBwts ud @ us'\<rparr>)) um"
      using s unfolding Some cert_step_def cert_moves_def by auto
    obtain sc where sc: "l_sc L1 (cert_scId c) = Some sc" using spec_cert_some [OF X(1)] by blast
    obtain sc' where u: "cert_update dh c sc (undo_at um (cert_scId c)) = Inr (sc', ud)" using spec_cert_Inr [OF X(1) sc] by blast
    note R = cert_update_records(3,11,12) [OF u]
    have nk: "\<not> has_section (undo_at um k) MATURED_AMOUNTS" "\<not> has_section (undo_at um k) CEASED_CERT_DATA" "ceasedBwts (undo_at um k) = []" for k
      using n by (simp_all add: no_events_def)
    show ?thesis unfolding no_events_def
    proof (intro conjI allI)
      show "distinct_keys um'" using n X(2) by (simp add: no_events_def distinct_update)
      fix k
      show "\<not> has_section (undo_at um' k) MATURED_AMOUNTS" "\<not> has_section (undo_at um' k) CEASED_CERT_DATA" "ceasedBwts (undo_at um' k) = []"
        using nk [of k] nk [of "cert_scId c"] R by (auto simp: undo_at_def X(2) update_conv' SUPERSEDED_CERT_DATA_def MATURED_AMOUNTS_def CEASED_CERT_DATA_def)
    qed
  qed
qed

lemma certs_move_no_events: "certs_move dh h prev cs L um uss L' um' \<Longrightarrow> no_events um \<Longrightarrow> no_events um'"
  by (induction cs arbitrary: L um uss) (auto dest: cert_step_no_events)

lemma disconnect_certs_ok:
  assumes "certs_move dh h (\<lambda>c. map_of hq (cert_hash c)) cs L um uss L' um'" "chain_inv h m L" "0 < h"
    "\<And>k ud. map_of um' k = Some ud \<Longrightarrow> \<exists>ud'. map_of mf k = Some ud' \<and> cert_part ud' = cert_part ud"
    "inv_revert T w" "l_coins (ledger w) = l_coins L'" "l_sc (ledger w) = l_sc L'" "l_ceasing (ledger w) = l_ceasing L'"
  shows "\<exists>w'. foldR (disconnect_cert h hq mf) (w, b) (rev (zip cs uss)) = Inr (w', b) \<and> inv_revert T w'
    \<and> ledger w' = (ledger w)\<lparr>l_coins := l_coins L, l_sc := l_sc L, l_ceasing := l_ceasing L\<rparr>"
  using assms(1-3)
proof (induction cs arbitrary: L um uss)
  case Nil
  have "ledger w = (ledger w)\<lparr>l_coins := l_coins L, l_sc := l_sc L, l_ceasing := l_ceasing L\<rparr>" using Nil assms(6-8) by (simp del: ledger_sel)
  then show ?case using Nil assms(5) by auto
next
  case (Cons c cs)
  obtain us uss1 L1 um1 where s: "uss = us # uss1" "cert_step dh h (map_of hq (cert_hash c)) c L um us L1 um1" "certs_move dh h (\<lambda>c. map_of hq (cert_hash c)) cs L1 um1 uss1 L' um'"
    using Cons.prems(1) by auto
  note I = cert_step_inv [OF Cons.prems(2) s(2) Cons.prems(3)]
  obtain w1 where w1: "foldR (disconnect_cert h hq mf) (w, b) (rev (zip cs uss1)) = Inr (w1, b)" "inv_revert T w1"
    "ledger w1 = (ledger w)\<lparr>l_coins := l_coins L1, l_sc := l_sc L1, l_ceasing := l_ceasing L1\<rparr>" using Cons.IH [OF s(3) I(1) Cons.prems(3)] by blast
  have e: "l_coins (ledger w1) = l_coins L1" "l_sc (ledger w1) = l_sc L1" "l_ceasing (ledger w1) = l_ceasing L1" unfolding w1(3) by simp_all
  have u: "\<exists>ud'. map_of mf (cert_scId c) = Some ud' \<and> cert_part ud' = cert_part ud" if "map_of um1 (cert_scId c) = Some ud" for ud
    using assms(4) certs_move_undo [OF s(3) I(1) Cons.prems(3) that] by blast
  obtain w2 where w2: "disconnect_cert h hq mf (w1, b) (c, us) = Inr (w2, b)" "inv_revert T w2" "ledger w2 = (ledger w1)\<lparr>l_coins := l_coins L, l_sc := l_sc L, l_ceasing := l_ceasing L\<rparr>"
    by (rule disconnect_cert_ok [OF Cons.prems(2,3) s(2) w1(2) e refl u])
  have "foldR (disconnect_cert h hq mf) (w, b) (rev (zip (c # cs) uss)) = Inr (w2, b)" using w1(1) w2(1) s(1) by (simp add: foldR_append)
  moreover have "ledger w2 = (ledger w)\<lparr>l_coins := l_coins L, l_sc := l_sc L, l_ceasing := l_ceasing L\<rparr>" unfolding w2(3) w1(3) by simp
  ultimately show ?case using w2(2) by blast
qed

end
