(* ===== verification/TxUndo.thy ===== *)
theory TxUndo
  imports CertUndo
begin

text \<open>
  Connecting and disconnecting the transactions of a block, on the ledger.
\<close>

section \<open>One transaction\<close>

definition no_cross_chain :: "CTransaction \<Rightarrow> bool" where
  "no_cross_chain tx \<longleftrightarrow> vjoinsplit tx = [] \<and> vcsw_ccin tx = [] \<and> vsc_ccout tx = [] \<and> vft_ccout tx = [] \<and> vmbtr_out tx = []"

definition tx_step :: "CChainParams \<Rightarrow> int \<Rightarrow> CTransaction \<Rightarrow> Ledger \<Rightarrow> CTxInUndo list \<Rightarrow> Ledger \<Rightarrow> bool" where
  "tx_step pr h tx L us L' \<longleftrightarrow> tx_moves pr h (tx_IsCoinBase tx) tx L us L' \<and> new_hash (tx_hash tx) L \<and> valid_outs (tx_vout tx) \<and> pos_tx tx
     \<and> (tx_IsCoinBase tx \<longrightarrow> no_cross_chain tx) \<and> (\<forall>nf \<in> tx_nullifiers tx. \<not> l_nf L nf)"

text \<open>A coinbase has no part that reaches a sidechain, so that it moves like any other transaction.\<close>

lemma no_cross_chain_facts:
  assumes "no_cross_chain tx"
  shows "sc_targets tx = {}" "tx_nullifiers tx = {}" "spec_connect pr h c tx = Inr c"
  using assms by (simp_all add: no_cross_chain_def sc_targets_def tx_nullifiers_def spec_connect_def fts_def mbtrs_def Let_def)

lemma tx_step_moves:
  assumes "tx_step pr h tx L us L'"
  obtains C c where "spec_ins (tx_IsCoinBase tx) (tx_vin tx) (l_coins L) = Inr (C, us)" "l_coins L' = C(tx_hash tx := normC (Some (From_tx tx h)))"
    "l_nf L' = (\<lambda>x. x \<in> tx_nullifiers tx \<or> l_nf L x)" "spec_connect pr h (core_of L) tx = Inr c" "l_sc L' = fst c" "l_ceasing L' = snd c"
    "distinct (map csw_key (vcsw_ccin tx))" "\<forall>w \<in> set (vcsw_ccin tx). \<not> l_csw L (csw_key w)" "l_csw L' = (\<lambda>x. l_csw L x \<or> x \<in> csw_key ` set (vcsw_ccin tx))"
    "l_maturing L' = (l_maturing L)(h + getScCoinsMaturity pr := l_maturing L (h + getScCoinsMaturity pr) \<union> sc_targets tx)"
    "l_best L' = l_best L" "l_anchors L' = l_anchors L" "l_bestAnchor L' = l_bestAnchor L"
proof -
  let ?m = "h + getScCoinsMaturity pr"
  obtain L1 where L1: "spec_update_tx tx h L = Inr (L1, us)" "tx_IsCoinBase tx \<Longrightarrow> L' = L1"
    "\<not> tx_IsCoinBase tx \<Longrightarrow> \<exists>c. spec_connect pr h (core_of L1) tx = Inr c \<and> distinct (map csw_key (vcsw_ccin tx)) \<and> (\<forall>w \<in> set (vcsw_ccin tx). \<not> l_csw L (csw_key w))
       \<and> L' = with_csw (csw_key ` set (vcsw_ccin tx)) (upd_core ?m c (\<lambda>M. M \<union> sc_targets tx) L1)"
    using assms unfolding tx_step_def tx_moves_def by (metis (no_types, lifting))
  obtain C where C: "spec_ins (tx_IsCoinBase tx) (tx_vin tx) (l_coins L) = Inr (C, us)"
    "L1 = L\<lparr>l_coins := C(tx_hash tx := normC (Some (From_tx tx h))), l_nf := \<lambda>x. x \<in> tx_nullifiers tx \<or> l_nf L x\<rparr>" by (rule spec_update_tx_Inr [OF L1(1)])
  have co: "core_of L1 = core_of L" using C(2) by (simp add: core_of_def)
  show thesis
  proof (cases "tx_IsCoinBase tx")
    case True
    then have n: "no_cross_chain tx" using assms by (simp add: tx_step_def)
    note N = no_cross_chain_facts [OF n]
    have v: "vcsw_ccin tx = []" using n by (simp add: no_cross_chain_def)
    show thesis by (rule that [OF C(1) _ _ N(3)]) (use L1(2) [OF True] C(2) N v in \<open>simp_all add: core_of_def\<close>)
  next
    case False
    then obtain c where c: "spec_connect pr h (core_of L1) tx = Inr c" "distinct (map csw_key (vcsw_ccin tx))" "\<forall>w \<in> set (vcsw_ccin tx). \<not> l_csw L (csw_key w)"
      "L' = with_csw (csw_key ` set (vcsw_ccin tx)) (upd_core ?m c (\<lambda>M. M \<union> sc_targets tx) L1)" using L1(3) by blast
    show thesis by (rule that [OF C(1) _ _ c(1) [unfolded co] _ _ c(2,3)]) (use c(4) C(2) in simp_all)
  qed
qed

lemma tx_step_inv:
  assumes "chain_inv h (h + getScCoinsMaturity pr) L" "tx_step pr h tx L us L'" "0 < h" "0 \<le> getScCoinsMaturity pr"
  shows "chain_inv h (h + getScCoinsMaturity pr) L'" "\<And>x. new_hash x L \<Longrightarrow> x \<noteq> tx_hash tx \<Longrightarrow> new_hash x L'"
  using tx_moves_inv [OF assms(1)] assms(2-4) by (auto simp: tx_step_def)

section \<open>Disconnecting one transaction\<close>

lemma remove_csw_loop:
  assumes "distinct (map csw_key ws)" "\<forall>x \<in> set ws. l_csw (ledger w) (csw_key x)" "inv_revert T w"
  shows "\<exists>w'. foldR remove_csw_nullifier w ws = Inr w' \<and> inv_revert T w' \<and> ledger w' = (ledger w)\<lparr>l_csw := \<lambda>x. l_csw (ledger w) x \<and> x \<notin> csw_key ` set ws\<rparr>"
  using assms
proof (induction ws arbitrary: w)
  case Nil
  have "ledger w = (ledger w)\<lparr>l_csw := \<lambda>x. l_csw (ledger w) x \<and> x \<notin> csw_key ` set []\<rparr>" by (simp add: ledger_of_def)
  then show ?case using Nil by auto
next
  case (Cons y ws)
  have y: "l_csw (ledger w) (csw_key y)" using Cons.prems(2) by simp
  obtain w1 where w1: "RemoveCswNullifier w (csw_key y) = (w1, True)" "\<And>n. good T n w \<Longrightarrow> good T n w1" "ledger w1 = (ledger w)\<lparr>l_csw := (l_csw (ledger w))(csw_key y := False)\<rparr>"
    by (rule RemoveCswNullifier_step [OF y, where T = T]) (rule that)
  have ny: "csw_key y \<notin> csw_key ` set ws" "distinct (map csw_key ws)" using Cons.prems(1) unfolding list.map distinct.simps set_map by blast+
  have p: "l_csw (ledger w1) (csw_key x)" if "x \<in> set ws" for x
  proof -
    have "csw_key x \<noteq> csw_key y"
    proof
      assume e: "csw_key x = csw_key y"
      have "csw_key x \<in> csw_key ` set ws" using that by (rule imageI)
      then show False unfolding e using ny(1) by contradiction
    qed
    moreover have "l_csw (ledger w) (csw_key x)" using Cons.prems(2) that by simp
    ultimately show ?thesis unfolding w1(3) by simp
  qed
  have i: "inv_revert T w1" using w1(2) Cons.prems(3) by (simp add: inv_revert_def)
  obtain w' where w': "foldR remove_csw_nullifier w1 ws = Inr w'" "inv_revert T w'" "ledger w' = (ledger w1)\<lparr>l_csw := \<lambda>x. l_csw (ledger w1) x \<and> x \<notin> csw_key ` set ws\<rparr>"
    using Cons.IH [OF ny(2) _ i] p by blast
  have "ledger w' = (ledger w)\<lparr>l_csw := \<lambda>x. l_csw (ledger w) x \<and> x \<notin> csw_key ` set (y # ws)\<rparr>" unfolding w'(3) w1(3) by (auto simp: fun_eq_iff)
  moreover have "foldR remove_csw_nullifier w (y # ws) = Inr w'" using w1(1) w'(1) by (simp add: remove_csw_nullifier_def)
  ultimately show ?case using w'(2) by blast
qed

lemma undo_tx_ok:
  assumes i: "chain_inv h (h + getScCoinsMaturity pr) L" and s: "tx_step pr h tx L us L'"
    and w: "inv_revert T w" "l_coins (ledger w) = l_coins L'" "l_nf (ledger w) = l_nf L'" "l_csw (ledger w) = l_csw L'" "l_sc (ledger w) = l_sc L'" "l_ceasing (ledger w) = l_ceasing L'"
  obtains w' where "disconnect_tx pr h (w, b) (tx, if tx_IsCoinBase tx then None else Some us) = Inr (w', b)" "inv_revert T w'"
    "ledger w' = (ledger w)\<lparr>l_coins := l_coins L, l_nf := l_nf L, l_csw := l_csw L, l_sc := l_sc L, l_ceasing := l_ceasing L,
       l_maturing := (l_maturing (ledger w))(h + getScCoinsMaturity pr := l_maturing (ledger w) (h + getScCoinsMaturity pr) - sc_targets tx)\<rparr>"
proof -
  let ?m = "h + getScCoinsMaturity pr" and ?x = "tx_hash tx" and ?o = "From_tx tx h" and ?K = "csw_key ` set (vcsw_ccin tx)"
  note D = chain_invD [OF i]
  obtain C c where S: "spec_ins (tx_IsCoinBase tx) (tx_vin tx) (l_coins L) = Inr (C, us)" "l_coins L' = C(?x := normC (Some ?o))"
    "l_nf L' = (\<lambda>x. x \<in> tx_nullifiers tx \<or> l_nf L x)" "spec_connect pr h (core_of L) tx = Inr c" "l_sc L' = fst c" "l_ceasing L' = snd c"
    "distinct (map csw_key (vcsw_ccin tx))" "\<forall>w \<in> set (vcsw_ccin tx). \<not> l_csw L (csw_key w)" "l_csw L' = (\<lambda>x. l_csw L x \<or> x \<in> ?K)"
    by (rule tx_step_moves [OF s])
  have st: "valid_outs (tx_vout tx)" "pos_tx tx" "l_coins L ?x = None" "\<And>nf. nf \<in> tx_nullifiers tx \<Longrightarrow> \<not> l_nf L nf" using s by (simp_all add: tx_step_def new_hash_def)
  have Cx: "C(?x := None) = C" using spec_ins_fewer [OF S(1)] fewer_None st(3) by fastforce
  have g: "good T 0 w" using w(1) by (simp add: inv_revert_def)
  have kx: "l_coins (ledger w) ?x = normC (Some ?o)" using w(2) S(2) by simp
  obtain w1 where w1: "remove_outputs ?x ?o (w, b) = Inr (w1, b)" "keeps T w w1" "ledger w1 = (ledger w)\<lparr>l_coins := (l_coins (ledger w))(?x := None)\<rparr>"
    by (rule remove_outputs_ok [OF g From_tx_clean [OF st(1)] From_tx_idem kx])
  note i1 = keeps_inv(2) [OF w1(2) w(1)]
  let ?w2 = "set_nullifiers False tx w1"
  note w2 = set_nullifiers_step(1) [where T = T and v = w1 and s = False and tx = tx] set_nullifiers_step(2) [where v = w1 and s = False and tx = tx]
  note i2 = keeps_inv(2) [OF w2(1) i1]
  have "(\<lambda>x. x \<notin> tx_nullifiers tx \<and> (x \<notin> tx_nullifiers tx \<longrightarrow> l_nf L' x)) = l_nf L" using S(3) st(4) by (auto simp: fun_eq_iff)
  moreover have "(l_coins L')(?x := None) = C" using S(2) Cx by simp
  ultimately have l2: "ledger ?w2 = (ledger w)\<lparr>l_coins := C, l_nf := l_nf L\<rparr>" unfolding w2(2) w1(3) using w(2,3) by (simp del: ledger_sel)
  have p: "\<forall>y \<in> set (vcsw_ccin tx). l_csw (ledger ?w2) (csw_key y)" using w(4) S(9) unfolding l2 by (simp del: ledger_sel)
  obtain w3 where w3: "foldR remove_csw_nullifier ?w2 (vcsw_ccin tx) = Inr w3" "inv_revert T w3" "ledger w3 = (ledger ?w2)\<lparr>l_csw := \<lambda>x. l_csw (ledger ?w2) x \<and> x \<notin> ?K\<rparr>"
    using remove_csw_loop [OF S(7) p i2] by blast
  have "(\<lambda>x. (l_csw L x \<or> x \<in> ?K) \<and> x \<notin> ?K) = l_csw L" using S(8) by (auto simp: fun_eq_iff)
  then have l3: "ledger w3 = (ledger w)\<lparr>l_coins := C, l_nf := l_nf L, l_csw := l_csw L\<rparr>" unfolding w3(3) l2 using w(4) S(9) by (simp del: ledger_sel)
  have co: "core_of (ledger w3) = c" unfolding l3 using w(5,6) S(5,6) by (simp add: core_of_def del: ledger_sel)
  have "spec_disconnect pr h (core_of (ledger w3)) tx = Inr (core_of L)" using spec_roundtrip(1) [OF S(4) st(2) chain_inv_core [OF i]] co by simp
  then obtain w4 where w4: "RevertTxOutputs pr w3 tx h = Inr w4" "inv_revert T w4" "ledger w4 = upd_core ?m (core_of L) (\<lambda>M. M - sc_targets tx) (ledger w3)"
    using disconnect_tx_ok [OF w3(2) refl] by blast
  have l4: "ledger w4 = (ledger w)\<lparr>l_coins := C, l_nf := l_nf L, l_csw := l_csw L, l_sc := l_sc L, l_ceasing := l_ceasing L,
      l_maturing := (l_maturing (ledger w))(?m := l_maturing (ledger w) ?m - sc_targets tx)\<rparr>" unfolding w4(3) l3 by (simp add: upd_core_def core_of_def del: ledger_sel)
  have run: "disconnect_tx pr h (w, b) (tx, u) = (case u of None \<Rightarrow> Inr (w4, b) | Some vprevout \<Rightarrow> restore_inputs (tx_vin tx) vprevout (w4, b))" for u
    using w1(1) w3(1) w4(1) by (simp add: disconnect_tx_def Let_def)
  show thesis
  proof (cases "tx_IsCoinBase tx")
    case True
    then have "C = l_coins L" using S(1) by (simp add: spec_ins_def)
    then show thesis using that [of w4] True run w4(2) l4 by simp
  next
    case False
    then have f: "foldR spec_spend (l_coins L, []) (tx_vin tx) = Inr (C, us)" using S(1) by (simp add: spec_ins_def)
    have g4: "good T 0 w4" "l_coins (ledger w4) = C" using w4(2) unfolding l4 by (simp_all add: inv_revert_def)
    obtain w5 where w5: "foldR restore_input (w4, b) (rev (zip (tx_vin tx) us)) = Inr (w5, b)" "keeps T w4 w5" "ledger w5 = (ledger w4)\<lparr>l_coins := l_coins L\<rparr>" "length us = length (tx_vin tx)"
      using restore_inputs_ok [OF D(2) f] g4 by fastforce
    show thesis
    proof (rule that [of w5])
      show "disconnect_tx pr h (w, b) (tx, if tx_IsCoinBase tx then None else Some us) = Inr (w5, b)" using False run w5(1,4) by (simp add: restore_inputs_def)
      show "inv_revert T w5" using keeps_inv(2) [OF w5(2) w4(2)] .
    qed (simp add: w5(3) l4)
  qed
qed

section \<open>The transactions of a block\<close>

fun txs_move :: "CChainParams \<Rightarrow> int \<Rightarrow> CTransaction list \<Rightarrow> Ledger \<Rightarrow> CTxInUndo list list \<Rightarrow> Ledger \<Rightarrow> bool" where
  "txs_move pr h [] L uss L' \<longleftrightarrow> uss = [] \<and> L' = L"
| "txs_move pr h (tx # txs) L uss L' \<longleftrightarrow> (\<exists>us uss1 L1. uss = us # uss1 \<and> tx_step pr h tx L us L1 \<and> txs_move pr h txs L1 uss1 L')"

lemma txs_move_inv:
  assumes "txs_move pr h txs L uss L'" "chain_inv h (h + getScCoinsMaturity pr) L" "0 < h" "0 \<le> getScCoinsMaturity pr"
  shows "chain_inv h (h + getScCoinsMaturity pr) L' \<and> length uss = length txs \<and> l_best L' = l_best L \<and> l_anchors L' = l_anchors L \<and> l_bestAnchor L' = l_bestAnchor L
    \<and> l_maturing L' = (l_maturing L)(h + getScCoinsMaturity pr := l_maturing L (h + getScCoinsMaturity pr) \<union> \<Union> (sc_targets ` set txs))"
  using assms
proof (induction txs arbitrary: L uss)
  case (Cons tx txs)
  obtain us uss1 L1 where s: "uss = us # uss1" "tx_step pr h tx L us L1" "txs_move pr h txs L1 uss1 L'" using Cons.prems(1) by auto
  note I = tx_step_inv(1) [OF Cons.prems(2) s(2) Cons.prems(3,4)]
  have F: "l_maturing L1 = (l_maturing L)(h + getScCoinsMaturity pr := l_maturing L (h + getScCoinsMaturity pr) \<union> sc_targets tx)"
    "l_best L1 = l_best L" "l_anchors L1 = l_anchors L" "l_bestAnchor L1 = l_bestAnchor L" using tx_step_moves [OF s(2)] by metis+
  note J = Cons.IH [OF s(3) I Cons.prems(3,4)]
  have "l_maturing L' = (l_maturing L)(h + getScCoinsMaturity pr := l_maturing L (h + getScCoinsMaturity pr) \<union> \<Union> (sc_targets ` set (tx # txs)))"
    using J F(1) by (auto simp: fun_eq_iff)
  then show ?case using J F(2-4) s(1) by (simp only: list.size simp_thms)
qed simp

text \<open>The undo data that a transaction has in the block.\<close>

definition undo_of :: "CTransaction \<Rightarrow> CTxInUndo list \<Rightarrow> CTransaction \<times> CTxInUndo list option" where
  "undo_of tx us = (tx, if tx_IsCoinBase tx then None else Some us)"

lemma undo_txs_ok:
  assumes "txs_move pr h txs L uss L'" "chain_inv h (h + getScCoinsMaturity pr) L" "0 < h" "0 \<le> getScCoinsMaturity pr"
    "inv_revert T w" "l_coins (ledger w) = l_coins L'" "l_nf (ledger w) = l_nf L'" "l_csw (ledger w) = l_csw L'" "l_sc (ledger w) = l_sc L'" "l_ceasing (ledger w) = l_ceasing L'"
  shows "\<exists>w'. foldR (disconnect_tx pr h) (w, b) (rev (map2 undo_of txs uss)) = Inr (w', b) \<and> inv_revert T w'
    \<and> ledger w' = (ledger w)\<lparr>l_coins := l_coins L, l_nf := l_nf L, l_csw := l_csw L, l_sc := l_sc L, l_ceasing := l_ceasing L,
       l_maturing := (l_maturing (ledger w))(h + getScCoinsMaturity pr := l_maturing (ledger w) (h + getScCoinsMaturity pr) - \<Union> (sc_targets ` set txs))\<rparr>"
  using assms(1,2)
proof (induction txs arbitrary: L uss)
  case Nil
  have "ledger w = (ledger w)\<lparr>l_coins := l_coins L, l_nf := l_nf L, l_csw := l_csw L, l_sc := l_sc L, l_ceasing := l_ceasing L,
       l_maturing := (l_maturing (ledger w))(h + getScCoinsMaturity pr := l_maturing (ledger w) (h + getScCoinsMaturity pr) - \<Union> (sc_targets ` set []))\<rparr>"
    using Nil assms(6-10) by (simp del: ledger_sel)
  then show ?case using assms(5) by (intro exI [of _ w] conjI) (simp, assumption+)
next
  case (Cons tx txs)
  let ?m = "h + getScCoinsMaturity pr"
  obtain us uss1 L1 where s: "uss = us # uss1" "tx_step pr h tx L us L1" "txs_move pr h txs L1 uss1 L'" using Cons.prems(1) by auto
  note I = tx_step_inv(1) [OF Cons.prems(2) s(2) assms(3,4)]
  obtain w1 where w1: "foldR (disconnect_tx pr h) (w, b) (rev (map2 undo_of txs uss1)) = Inr (w1, b)" "inv_revert T w1"
    "ledger w1 = (ledger w)\<lparr>l_coins := l_coins L1, l_nf := l_nf L1, l_csw := l_csw L1, l_sc := l_sc L1, l_ceasing := l_ceasing L1,
       l_maturing := (l_maturing (ledger w))(?m := l_maturing (ledger w) ?m - \<Union> (sc_targets ` set txs))\<rparr>" using Cons.IH [OF s(3) I] by blast
  have e: "l_coins (ledger w1) = l_coins L1" "l_nf (ledger w1) = l_nf L1" "l_csw (ledger w1) = l_csw L1" "l_sc (ledger w1) = l_sc L1" "l_ceasing (ledger w1) = l_ceasing L1"
    unfolding w1(3) by simp_all
  obtain w2 where w2: "disconnect_tx pr h (w1, b) (undo_of tx us) = Inr (w2, b)" "inv_revert T w2"
    "ledger w2 = (ledger w1)\<lparr>l_coins := l_coins L, l_nf := l_nf L, l_csw := l_csw L, l_sc := l_sc L, l_ceasing := l_ceasing L,
       l_maturing := (l_maturing (ledger w1))(?m := l_maturing (ledger w1) ?m - sc_targets tx)\<rparr>"
    unfolding undo_of_def by (rule undo_tx_ok [OF Cons.prems(2) s(2) w1(2) e])
  have "foldR (disconnect_tx pr h) (w, b) (rev (map2 undo_of (tx # txs) uss)) = Inr (w2, b)" using w1(1) w2(1) s(1) by (simp add: foldR_append)
  moreover have "A - \<Union> (sc_targets ` set txs) - sc_targets tx = A - \<Union> (sc_targets ` set (tx # txs))" for A by auto
  then have "ledger w2 = (ledger w)\<lparr>l_coins := l_coins L, l_nf := l_nf L, l_csw := l_csw L, l_sc := l_sc L, l_ceasing := l_ceasing L,
       l_maturing := (l_maturing (ledger w))(?m := l_maturing (ledger w) ?m - \<Union> (sc_targets ` set (tx # txs)))\<rparr>" unfolding w2(3) w1(3) by simp
  ultimately show ?case using w2(2) by blast
qed

section \<open>Connecting the transactions\<close>

text \<open>What is checked of a transaction before it reaches \<open>ConnectBlock\<close>.\<close>

definition tx_fine :: "CTransaction \<Rightarrow> bool" where
  "tx_fine tx \<longleftrightarrow> valid_outs (tx_vout tx) \<and> pos_tx tx \<and> (tx_IsCoinBase tx \<longrightarrow> no_cross_chain tx)"

lemma connect_tx_step:
  assumes R: "reading_rules (be_rules E)" and i: "inv_block T h (h + getScCoinsMaturity (be_params E)) (cs_view s)"
    and a: "at_height (be_chain E) (h - 1) (ledger (cs_view s))" and f: "tx_fine tx" and n: "new_hash (tx_hash tx) (ledger (cs_view s))" and cb: "tx_IsCoinBase tx \<longleftrightarrow> k = 0"
    and run: "connect_tx E h s (k, tx) = Inr s'"
  obtains us where "tx_step (be_params E) h tx (ledger (cs_view s)) us (ledger (cs_view s'))" "inv_block T h (h + getScCoinsMaturity (be_params E)) (cs_view s')"
    "cs_undo s' = (if k > 0 then (cs_undo s)\<lparr>vtxundo := vtxundo (cs_undo s) @ [us]\<rparr> else cs_undo s)" "append_notes E (cs_tree s) tx = Inr (cs_tree s')"
proof -
  have o: "valid_outs (tx_vout tx)" using f by (simp add: tx_fine_def)
  obtain us where M: "tx_moves (be_params E) h (k = 0) tx (ledger (cs_view s)) us (ledger (cs_view s'))" "inv_block T h (h + getScCoinsMaturity (be_params E)) (cs_view s')"
    "cs_undo s' = (if k > 0 then (cs_undo s)\<lparr>vtxundo := vtxundo (cs_undo s) @ [us]\<rparr> else cs_undo s)" "append_notes E (cs_tree s) tx = Inr (cs_tree s')"
    "\<not> tx_IsCoinBase tx \<Longrightarrow> \<forall>nf \<in> tx_nullifiers tx. \<not> l_nf (ledger (cs_view s)) nf"
    by (rule connect_tx_moves [OF R i refl a o run]) (rule that)
  have "\<forall>nf \<in> tx_nullifiers tx. \<not> l_nf (ledger (cs_view s)) nf" using M(5) f by (cases "tx_IsCoinBase tx") (auto simp: tx_fine_def no_cross_chain_facts simp del: ledger_sel)
  then have "tx_step (be_params E) h tx (ledger (cs_view s)) us (ledger (cs_view s'))" using M(1) f n cb by (simp add: tx_step_def tx_fine_def)
  then show thesis using that M by blast
qed

lemma connect_txs_ok:
  assumes R: "reading_rules (be_rules E)" and h: "0 < h" "0 \<le> getScCoinsMaturity (be_params E)"
    and "foldR (connect_tx E h) s (enumerate k txs) = Inr s'" "inv_block T h (h + getScCoinsMaturity (be_params E)) (cs_view s)"
    "chain_inv h (h + getScCoinsMaturity (be_params E)) (ledger (cs_view s))" "at_height (be_chain E) (h - 1) (ledger (cs_view s))"
    "\<forall>tx \<in> set txs. tx_fine tx \<and> new_hash (tx_hash tx) (ledger (cs_view s)) \<and> \<not> tx_IsCoinBase tx" "distinct (map tx_hash txs)" "0 < k"
  shows "\<exists>uss. txs_move (be_params E) h txs (ledger (cs_view s)) uss (ledger (cs_view s')) \<and> inv_block T h (h + getScCoinsMaturity (be_params E)) (cs_view s')
    \<and> cs_undo s' = (cs_undo s)\<lparr>vtxundo := vtxundo (cs_undo s) @ uss\<rparr> \<and> foldR (append_notes E) (cs_tree s) txs = Inr (cs_tree s')
    \<and> (\<forall>x. new_hash x (ledger (cs_view s)) \<longrightarrow> x \<notin> tx_hash ` set txs \<longrightarrow> new_hash x (ledger (cs_view s')))"
  using assms(4-)
proof (induction txs arbitrary: s k)
  case (Cons tx txs)
  obtain s1 where s1: "connect_tx E h s (k, tx) = Inr s1" "foldR (connect_tx E h) s1 (enumerate (Suc k) txs) = Inr s'" using Cons.prems(1) by (auto split: sum.splits)
  have f: "tx_fine tx" "new_hash (tx_hash tx) (ledger (cs_view s))" "tx_IsCoinBase tx \<longleftrightarrow> k = 0" using Cons.prems(5,7) by auto
  obtain us where S: "tx_step (be_params E) h tx (ledger (cs_view s)) us (ledger (cs_view s1))" "inv_block T h (h + getScCoinsMaturity (be_params E)) (cs_view s1)"
    "cs_undo s1 = (if k > 0 then (cs_undo s)\<lparr>vtxundo := vtxundo (cs_undo s) @ [us]\<rparr> else cs_undo s)" "append_notes E (cs_tree s) tx = Inr (cs_tree s1)"
    by (rule connect_tx_step [OF R Cons.prems(2,4) f s1(1)])
  note I = tx_step_inv [OF Cons.prems(3) S(1) h]
  have "l_best (ledger (cs_view s1)) = l_best (ledger (cs_view s))" by (rule tx_step_moves [OF S(1)]) simp
  then have a: "at_height (be_chain E) (h - 1) (ledger (cs_view s1))" using Cons.prems(4) by (simp add: at_height_def del: ledger_sel)
  have n: "\<forall>t \<in> set txs. tx_fine t \<and> new_hash (tx_hash t) (ledger (cs_view s1)) \<and> \<not> tx_IsCoinBase t"
  proof
    fix t assume t: "t \<in> set txs"
    then have "tx_hash t \<noteq> tx_hash tx" using Cons.prems(6) unfolding list.map distinct.simps set_map by (metis image_eqI)
    then show "tx_fine t \<and> new_hash (tx_hash t) (ledger (cs_view s1)) \<and> \<not> tx_IsCoinBase t" using I(2) Cons.prems(5) t by simp
  qed
  have d: "distinct (map tx_hash txs)" using Cons.prems(6) by simp
  obtain uss where U: "txs_move (be_params E) h txs (ledger (cs_view s1)) uss (ledger (cs_view s'))" "inv_block T h (h + getScCoinsMaturity (be_params E)) (cs_view s')"
    "cs_undo s' = (cs_undo s1)\<lparr>vtxundo := vtxundo (cs_undo s1) @ uss\<rparr>" "foldR (append_notes E) (cs_tree s1) txs = Inr (cs_tree s')"
    "\<forall>x. new_hash x (ledger (cs_view s1)) \<longrightarrow> x \<notin> tx_hash ` set txs \<longrightarrow> new_hash x (ledger (cs_view s'))"
    using Cons.IH [OF s1(2) S(2) I(1) a n d] by auto
  have "txs_move (be_params E) h (tx # txs) (ledger (cs_view s)) (us # uss) (ledger (cs_view s'))" using S(1) U(1) by auto
  moreover have "cs_undo s' = (cs_undo s)\<lparr>vtxundo := vtxundo (cs_undo s) @ (us # uss)\<rparr>" using U(3) S(3) Cons.prems(7) by simp
  moreover have "foldR (append_notes E) (cs_tree s) (tx # txs) = Inr (cs_tree s')" using S(4) U(4) by simp
  moreover have "\<forall>x. new_hash x (ledger (cs_view s)) \<longrightarrow> x \<notin> tx_hash ` set (tx # txs) \<longrightarrow> new_hash x (ledger (cs_view s'))" using I(2) U(5) by auto
  ultimately show ?case using U(2) by blast
qed auto

end
