(* ===== verification/BlockChain.thy ===== *)
theory BlockChain
  imports TxUndo
begin

text \<open>
  Whole blocks: connecting a block preserves the chain invariant, its scheduled events always run through, and disconnecting it with the undo data it has left
  restores the chain state it was connected to.
\<close>

section \<open>Connecting the certificates\<close>

lemma prev_of_local: "S (cert_scId c) = S' (cert_scId c) \<Longrightarrow> prev_of S c = prev_of S' c"
  by (simp add: prev_of_def)

lemma connect_certs_ok:
  assumes R: "reading_rules (be_rules E)" and h: "0 < h"
    and "foldR (connect_cert E h hq) s cs = Inr s'" "inv_block T h m (cs_view s)" "chain_inv h m (ledger (cs_view s))" "at_height (be_chain E) (h - 1) (ledger (cs_view s))"
    "\<forall>c \<in> set cs. cert_fine c \<and> new_hash (cert_hash c) (ledger (cs_view s))" "distinct (map cert_hash cs)"
    "\<forall>c \<in> set cs. \<forall>p. map_of hq (cert_hash c) = Some p \<longrightarrow> map_of (scUndoDatabyScId (cs_undo s)) (cert_scId c) = None \<and> p = prev_of (l_sc (ledger (cs_view s))) c"
    "\<forall>c \<in> set cs. \<forall>d \<in> set cs. map_of hq (cert_hash c) \<noteq> None \<longrightarrow> map_of hq (cert_hash d) \<noteq> None \<longrightarrow> cert_scId c = cert_scId d \<longrightarrow> c = d"
  shows "\<exists>uss. certs_move (be_dataHash E) h (\<lambda>c. map_of hq (cert_hash c)) cs (ledger (cs_view s)) (scUndoDatabyScId (cs_undo s)) uss
      (ledger (cs_view s')) (scUndoDatabyScId (cs_undo s')) \<and> inv_block T h m (cs_view s') \<and> vtxundo (cs_undo s') = vtxundo (cs_undo s) @ uss
    \<and> old_tree_root (cs_undo s') = old_tree_root (cs_undo s) \<and> cs_tree s' = cs_tree s"
  using assms(3-)
proof (induction cs arbitrary: s)
  case (Cons c cs)
  let ?L = "ledger (cs_view s)" and ?um = "scUndoDatabyScId (cs_undo s)"
  obtain s1 where s1: "connect_cert E h hq s c = Inr s1" "foldR (connect_cert E h hq) s1 cs = Inr s'" using Cons.prems(1) by (auto split: sum.splits)
  have f: "cert_fine c" "new_hash (cert_hash c) ?L" using Cons.prems(5) by auto
  have t: "map_of ?um (cert_scId c) = None \<and> p = prev_of (l_sc ?L) c" if "map_of hq (cert_hash c) = Some p" for p using Cons.prems(7) that by simp
  have t': "map_of ?um (cert_scId c) = None \<and> (p = 0 \<or> p = last_cert (l_sc ?L) (cert_scId c))" if "map_of hq (cert_hash c) = Some p" for p
    using t [OF that] prev_of_cases [of "l_sc ?L" c] by (simp del: ledger_sel)
  obtain us where M: "cert_moves (be_dataHash E) h (map_of hq (cert_hash c)) c ?L ?um us (ledger (cs_view s1)) (scUndoDatabyScId (cs_undo s1))" "inv_block T h m (cs_view s1)"
    "vtxundo (cs_undo s1) = vtxundo (cs_undo s) @ [us]" "old_tree_root (cs_undo s1) = old_tree_root (cs_undo s)" "cs_tree s1 = cs_tree s"
    "\<exists>sc. l_sc ?L (cert_scId c) = Some sc \<and> h \<le> GetScheduledCeasingHeight sc"
    by (rule connect_cert_moves [OF R Cons.prems(2-4) f h t' s1(1)])
  have S: "cert_step (be_dataHash E) h (map_of hq (cert_hash c)) c ?L ?um us (ledger (cs_view s1)) (scUndoDatabyScId (cs_undo s1))"
    unfolding cert_step_def using M(1,6) f t by (simp del: ledger_sel)
  note I = cert_step_inv [OF Cons.prems(3) S h]
  have a: "at_height (be_chain E) (h - 1) (ledger (cs_view s1))" using Cons.prems(4) I(7) by (simp add: at_height_def del: ledger_sel)
  have ne: "cert_hash d \<noteq> cert_hash c" if "d \<in> set cs" for d using Cons.prems(6) that unfolding list.map distinct.simps set_map by (metis image_eqI)
  have "\<forall>d \<in> set cs. cert_fine d \<and> new_hash (cert_hash d) (ledger (cs_view s1))" using Cons.prems(5) I(2) ne by simp
  moreover have "\<forall>d \<in> set cs. \<forall>p. map_of hq (cert_hash d) = Some p \<longrightarrow> map_of (scUndoDatabyScId (cs_undo s1)) (cert_scId d) = None \<and> p = prev_of (l_sc (ledger (cs_view s1))) d"
  proof (intro ballI allI impI)
    fix d p assume d: "d \<in> set cs" "map_of hq (cert_hash d) = Some p"
    have "cert_scId d \<noteq> cert_scId c \<or> map_of hq (cert_hash c) = None"
    proof (rule ccontr)
      assume "\<not> (cert_scId d \<noteq> cert_scId c \<or> map_of hq (cert_hash c) = None)"
      then have "d = c" using Cons.prems(8) d by simp
      then show False using ne [OF d(1)] by simp
    qed
    then have k: "l_sc (ledger (cs_view s1)) (cert_scId d) = l_sc ?L (cert_scId d)" "map_of (scUndoDatabyScId (cs_undo s1)) (cert_scId d) = map_of ?um (cert_scId d)"
      using I(3) by blast+
    show "map_of (scUndoDatabyScId (cs_undo s1)) (cert_scId d) = None \<and> p = prev_of (l_sc (ledger (cs_view s1))) d"
      using Cons.prems(7) d k prev_of_local [of "l_sc (ledger (cs_view s1))" d "l_sc ?L", OF k(1)] by (simp del: ledger_sel)
  qed
  moreover have "\<forall>x \<in> set cs. \<forall>y \<in> set cs. map_of hq (cert_hash x) \<noteq> None \<longrightarrow> map_of hq (cert_hash y) \<noteq> None \<longrightarrow> cert_scId x = cert_scId y \<longrightarrow> x = y" using Cons.prems(8) by simp
  moreover have "distinct (map cert_hash cs)" using Cons.prems(6) by simp
  ultimately obtain uss where U: "certs_move (be_dataHash E) h (\<lambda>c. map_of hq (cert_hash c)) cs (ledger (cs_view s1)) (scUndoDatabyScId (cs_undo s1)) uss
      (ledger (cs_view s')) (scUndoDatabyScId (cs_undo s'))" "inv_block T h m (cs_view s')" "vtxundo (cs_undo s') = vtxundo (cs_undo s1) @ uss"
    "old_tree_root (cs_undo s') = old_tree_root (cs_undo s1)" "cs_tree s' = cs_tree s1"
    using Cons.IH [OF s1(2) M(2) I(1) a] by blast
  have "certs_move (be_dataHash E) h (\<lambda>c. map_of hq (cert_hash c)) (c # cs) ?L ?um (us # uss) (ledger (cs_view s')) (scUndoDatabyScId (cs_undo s'))" using S U(1) by auto
  then show ?case using U M(3-5) by (intro exI [of _ "us # uss"]) (simp del: certs_move.simps)
qed simp

section \<open>Blocks that can be connected\<close>

text \<open>
  What has been checked of a block before it is connected, and that hashes are new: they differ from each other, they are not zero and no sidechain has a last
  certificate with one of them.
\<close>

definition block_hashes :: "CBlock \<Rightarrow> uint256 list" where
  "block_hashes block = map tx_hash (vtx block) @ map cert_hash (vcert block)"

definition block_fine :: "CBlock \<Rightarrow> Ledger \<Rightarrow> bool" where
  "block_fine block L \<longleftrightarrow> vtx block \<noteq> [] \<and> tx_IsCoinBase (hd (vtx block)) \<and> (\<forall>tx \<in> set (tl (vtx block)). \<not> tx_IsCoinBase tx)
     \<and> (\<forall>tx \<in> set (vtx block). tx_fine tx) \<and> (\<forall>c \<in> set (vcert block). cert_fine c)
     \<and> distinct (block_hashes block) \<and> (\<forall>x \<in> set (block_hashes block). x \<noteq> 0 \<and> (\<forall>k. last_cert (l_sc L) k \<noteq> x))"

definition connectable :: "BlockEnv \<Rightarrow> (uint256 \<Rightarrow> ZCIncrementalMerkleTree) \<Rightarrow> int \<Rightarrow> CBlock \<Rightarrow> CCoinsViewCache \<Rightarrow> bool" where
  "connectable E T h block v \<longleftrightarrow> reading_rules (be_rules E) \<and> 0 < h \<and> 0 \<le> getScCoinsMaturity (be_params E) \<and> inv_block T h (h + getScCoinsMaturity (be_params E)) v
     \<and> chain_inv h (h + getScCoinsMaturity (be_params E) - 1) (ledger v) \<and> at_height (be_chain E) (h - 1) (ledger v) \<and> block_fine block (ledger v)"

lemma connect_parts_ok:
  assumes c: "connectable E T h block v" and run: "connect_parts E h block v = Inr s"
  obtains L1 us0 uss ussc hq t0 where "txs_move (be_params E) h (vtx block) (ledger v) (us0 # uss) L1"
    "certs_move (be_dataHash E) h (\<lambda>c. map_of hq (cert_hash c)) (vcert block) L1 [] ussc (ledger (cs_view s)) (scUndoDatabyScId (cs_undo s))"
    "vtxundo (cs_undo s) = uss @ ussc" "hq = hq_map (prev_of (l_sc L1)) [] (firsts (\<lambda>_. True) [] (rev (vcert block)))" "inv_block T h (h + getScCoinsMaturity (be_params E)) (cs_view s)"
    "old_tree_root (cs_undo s) = l_bestAnchor (ledger v)" "l_anchors (ledger v) (l_bestAnchor (ledger v)) = Some t0"
    "mt_root (be_hasher E) (be_uncommitted E) INCREMENTAL_MERKLE_TREE_DEPTH [] t0 = l_bestAnchor (ledger v)" "foldR (append_notes E) t0 (vtx block) = Inr (cs_tree s)"
proof -
  let ?pr = "be_params E" and ?L = "ledger v" and ?m = "h + getScCoinsMaturity (be_params E)" and ?txs = "vtx block" and ?cs = "vcert block"
  have C: "reading_rules (be_rules E)" "0 < h" "0 \<le> getScCoinsMaturity ?pr" "inv_block T h ?m v" "chain_inv h ?m ?L" "at_height (be_chain E) (h - 1) ?L" "block_fine block ?L"
    using c chain_inv_mono [of h "?m - 1" ?L ?m] by (simp_all add: connectable_def)
  obtain v1 where r1: "forL (\<lambda>tx. overwrites_nothing (tx_hash tx)) ?txs v = Inr (v1, ())" using run by (auto simp: connect_parts_def bindR_eq_Inr)
  obtain v2 where r2: "forL (\<lambda>cert. overwrites_nothing (cert_hash cert)) ?cs v1 = Inr (v2, ())" using run r1 by (auto simp: connect_parts_def bindR_eq_Inr)
  obtain v3 r0 t0 where r3: "best_tree E v2 = Inr (v3, r0, t0)" using run r1 r2 by (auto simp: connect_parts_def bindR_eq_Inr)
  let ?s0 = "\<lparr>cs_view = v3, cs_undo = \<lparr>vtxundo = [], old_tree_root = r0, scUndoDatabyScId = []\<rparr>, cs_tree = t0, cs_fees = 0, cs_sigops = 0\<rparr>"
  obtain s1 where r4: "foldR (connect_tx E h) ?s0 (enumerate 0 ?txs) = Inr s1" using run r1 r2 r3 by (auto simp: connect_parts_def bindR_eq_Inr)
  obtain v4 hq where r5: "HighQualityCertData_view block (cs_view s1) = Inr (v4, hq)" using run r1 r2 r3 r4 by (auto simp: connect_parts_def bindR_eq_Inr)
  have r6: "foldR (connect_cert E h hq) (s1\<lparr>cs_view := v4\<rparr>) ?cs = Inr s" using run r1 r2 r3 r4 r5 by (simp add: connect_parts_def)
  have "learns (\<lambda>_. True) (forL (\<lambda>tx. overwrites_nothing (tx_hash tx)) ?txs) (\<lambda>L _. \<forall>tx \<in> set ?txs. l_coins L (tx_hash tx) = None)"
    by (rule learns_forL) (rule learns_overwrites)
  from learnsD [OF this inv_blockD(3) [OF C(4)] TrueI r1] have q1: "reads v v1" "\<forall>tx \<in> set ?txs. l_coins ?L (tx_hash tx) = None" by auto
  note i1 = reads_block [OF q1(1) C(4)] and l1 = reads_ledger [OF q1(1)]
  have "learns (\<lambda>_. True) (forL (\<lambda>cert. overwrites_nothing (cert_hash cert)) ?cs) (\<lambda>L _. \<forall>c \<in> set ?cs. l_coins L (cert_hash c) = None)"
    by (rule learns_forL) (rule learns_overwrites)
  from learnsD [OF this inv_blockD(3) [OF i1] TrueI r2] have q2: "reads v1 v2" "\<forall>c \<in> set ?cs. l_coins ?L (cert_hash c) = None" unfolding l1 by auto
  note i2 = reads_block [OF q2(1) i1] and l2 = reads_ledger [OF q2(1), unfolded l1]
  from learnsD [OF learns_best_tree [of "\<lambda>_. True"] inv_blockD(3) [OF i2] TrueI r3]
  have q3: "reads v2 v3" "r0 = l_bestAnchor ?L" "l_anchors ?L r0 = Some t0" "mt_root (be_hasher E) (be_uncommitted E) INCREMENTAL_MERKLE_TREE_DEPTH [] t0 = r0"
    unfolding l2 by (auto simp del: ledger_sel)
  note i3 = reads_block [OF q3(1) i2] and l3 = reads_ledger [OF q3(1), unfolded l2]
  have B: "?txs \<noteq> []" "tx_IsCoinBase (hd ?txs)" "\<forall>tx \<in> set (tl ?txs). \<not> tx_IsCoinBase tx" "\<forall>tx \<in> set ?txs. tx_fine tx" "\<forall>c \<in> set ?cs. cert_fine c" "distinct (block_hashes block)"
    "\<forall>x \<in> set (block_hashes block). x \<noteq> 0 \<and> (\<forall>k. last_cert (l_sc ?L) k \<noteq> x)" using C(7) by (auto simp: block_fine_def)
  have new: "new_hash x ?L" if "x \<in> set (block_hashes block)" for x
    using B(7) q1(2) q2(2) that by (auto simp: new_hash_def block_hashes_def simp del: ledger_sel)
  obtain cb txs where tx: "?txs = cb # txs" using B(1) by (cases ?txs) auto
  obtain s2 where s2: "connect_tx E h ?s0 (0, cb) = Inr s2" "foldR (connect_tx E h) s2 (enumerate 1 txs) = Inr s1" using r4 tx by (auto split: sum.splits)
  let ?L1 = "ledger (cs_view s1)"
  have d: "tx_hash cb \<notin> tx_hash ` set txs" "distinct (map tx_hash txs)" "\<forall>c \<in> set ?cs. cert_hash c \<notin> tx_hash ` set ?txs" "distinct (map cert_hash ?cs)"
    using B(6) tx unfolding block_hashes_def by (auto simp del: list.map(2) simp: image_iff) (auto simp: image_iff)
  have f0: "tx_fine cb" "tx_IsCoinBase cb \<longleftrightarrow> (0::nat) = 0" using B(2,4) tx by auto
  have a3: "inv_block T h ?m (cs_view ?s0)" "at_height (be_chain E) (h - 1) (ledger (cs_view ?s0))" "new_hash (tx_hash cb) (ledger (cs_view ?s0))"
    using i3 C(6) new [of "tx_hash cb"] l3 tx by (simp_all add: block_hashes_def)
  obtain us0 where S0: "tx_step ?pr h cb (ledger (cs_view ?s0)) us0 (ledger (cs_view s2))" "inv_block T h ?m (cs_view s2)"
    "cs_undo s2 = (if (0::nat) > 0 then (cs_undo ?s0)\<lparr>vtxundo := vtxundo (cs_undo ?s0) @ [us0]\<rparr> else cs_undo ?s0)" "append_notes E (cs_tree ?s0) cb = Inr (cs_tree s2)"
    by (rule connect_tx_step [OF C(1) a3(1,2) f0(1) a3(3) f0(2) s2(1)])
  have S1: "tx_step ?pr h cb ?L us0 (ledger (cs_view s2))" using S0(1) l3 by simp
  note I0 = tx_step_inv [OF C(5) S1 C(2,3)]
  have "l_best (ledger (cs_view s2)) = l_best ?L" by (rule tx_step_moves [OF S1]) simp
  then have a2: "at_height (be_chain E) (h - 1) (ledger (cs_view s2))" using C(6) by (simp add: at_height_def del: ledger_sel)
  have n2: "\<forall>t \<in> set txs. tx_fine t \<and> new_hash (tx_hash t) (ledger (cs_view s2)) \<and> \<not> tx_IsCoinBase t"
  proof
    fix t assume t: "t \<in> set txs"
    have "tx_hash t \<noteq> tx_hash cb" using d(1) t by (metis image_eqI)
    moreover have "new_hash (tx_hash t) ?L" using new tx t by (simp add: block_hashes_def)
    ultimately show "tx_fine t \<and> new_hash (tx_hash t) (ledger (cs_view s2)) \<and> \<not> tx_IsCoinBase t" using I0(2) B(3,4) tx t by simp
  qed
  obtain uss where U: "txs_move ?pr h txs (ledger (cs_view s2)) uss ?L1" "inv_block T h ?m (cs_view s1)"
    "cs_undo s1 = (cs_undo s2)\<lparr>vtxundo := vtxundo (cs_undo s2) @ uss\<rparr>" "foldR (append_notes E) (cs_tree s2) txs = Inr (cs_tree s1)"
    "\<forall>x. new_hash x (ledger (cs_view s2)) \<longrightarrow> x \<notin> tx_hash ` set txs \<longrightarrow> new_hash x ?L1"
    using connect_txs_ok [OF C(1-3) s2(2) S0(2) I0(1) a2 n2 d(2)] by auto
  have TX: "txs_move ?pr h ?txs ?L (us0 # uss) ?L1" using S1 U(1) tx by auto
  note I1 = txs_move_inv [OF TX C(5,2,3)]
  have a1: "at_height (be_chain E) (h - 1) ?L1" using I1 C(6) by (simp add: at_height_def del: ledger_sel)
  let ?ts = "firsts (\<lambda>k. l_sc ?L1 k \<noteq> None) [] (rev ?cs)"
  from learnsD [OF learns_high_quality [of "\<lambda>_. True"] inv_blockD(3) [OF U(2)] TrueI r5 [unfolded HighQualityCertData_view_def]]
  have q4: "reads (cs_view s1) v4" "hq = hq_map (prev_of (l_sc ?L1)) [] ?ts" by auto
  note i4 = reads_block [OF q4(1) U(2)] and l4 = reads_ledger [OF q4(1)]
  let ?s4 = "s1\<lparr>cs_view := v4\<rparr>"
  have inj: "inj_on cert_hash (set ?cs)" using d(4) by (simp add: distinct_map)
  have sub: "set ?ts \<subseteq> set ?cs" using firsts_sub [of "\<lambda>k. l_sc ?L1 k \<noteq> None" "[]" "rev ?cs"] by simp
  have topD: "c \<in> set ?ts \<and> p = prev_of (l_sc ?L1) c" if "c \<in> set ?cs" "map_of hq (cert_hash c) = Some p" for c p
  proof -
    have "cert_hash c \<in> cert_hash ` set ?ts" using hq_map_other [of "cert_hash c" ?ts "prev_of (l_sc ?L1)" "[]"] that(2) q4(2) by (cases "cert_hash c \<in> cert_hash ` set ?ts") auto
    then obtain e where "e \<in> set ?ts" "cert_hash c = cert_hash e" by auto
    then have "c \<in> set ?ts" using inj_onD [OF inj, of c e] that(1) sub by auto
    then show ?thesis using hq_map_at [OF _ inj_on_subset [OF inj sub]] that(2) q4(2) by (metis option.inject)
  qed
  have t1: "\<forall>c \<in> set ?cs. \<forall>p. map_of hq (cert_hash c) = Some p \<longrightarrow> map_of (scUndoDatabyScId (cs_undo ?s4)) (cert_scId c) = None \<and> p = prev_of (l_sc (ledger (cs_view ?s4))) c"
    using topD l4 U(3) S0(3) by (simp del: ledger_sel)
  have "inj_on cert_scId (set ?ts)" using firsts_scIds [of "\<lambda>k. l_sc ?L1 k \<noteq> None" "[]" "rev ?cs"] by (simp add: distinct_map)
  then have t2: "\<forall>x \<in> set ?cs. \<forall>y \<in> set ?cs. map_of hq (cert_hash x) \<noteq> None \<longrightarrow> map_of hq (cert_hash y) \<noteq> None \<longrightarrow> cert_scId x = cert_scId y \<longrightarrow> x = y"
    using topD by (blast dest: inj_onD)
  have n4: "\<forall>c \<in> set ?cs. cert_fine c \<and> new_hash (cert_hash c) (ledger (cs_view ?s4))"
  proof
    fix c assume c: "c \<in> set ?cs"
    have "new_hash (cert_hash c) ?L" using new c by (simp add: block_hashes_def)
    moreover have "cert_hash c \<noteq> tx_hash cb" "cert_hash c \<notin> tx_hash ` set txs" using d(3) c tx by auto
    ultimately show "cert_fine c \<and> new_hash (cert_hash c) (ledger (cs_view ?s4))" using I0(2) U(5) B(5) c l4 by simp
  qed
  have x4: "inv_block T h ?m (cs_view ?s4)" "chain_inv h ?m (ledger (cs_view ?s4))" "at_height (be_chain E) (h - 1) (ledger (cs_view ?s4))" using i4 I1 a1 l4 by simp_all
  obtain ussc where V: "certs_move (be_dataHash E) h (\<lambda>c. map_of hq (cert_hash c)) ?cs (ledger (cs_view ?s4)) (scUndoDatabyScId (cs_undo ?s4)) ussc
      (ledger (cs_view s)) (scUndoDatabyScId (cs_undo s))" "inv_block T h ?m (cs_view s)" "vtxundo (cs_undo s) = vtxundo (cs_undo ?s4) @ ussc"
    "old_tree_root (cs_undo s) = old_tree_root (cs_undo ?s4)" "cs_tree s = cs_tree ?s4"
    using connect_certs_ok [OF C(1,2) r6 x4 n4 d(4) t1 t2] by blast
  have um: "scUndoDatabyScId (cs_undo ?s4) = []" "vtxundo (cs_undo ?s4) = uss" "old_tree_root (cs_undo ?s4) = r0" using U(3) S0(3) by simp_all
  have CM: "certs_move (be_dataHash E) h (\<lambda>c. map_of hq (cert_hash c)) ?cs ?L1 [] ussc (ledger (cs_view s)) (scUndoDatabyScId (cs_undo s))" using V(1) um(1) l4 by simp
  have "\<forall>c \<in> set (rev ?cs). l_sc ?L1 (cert_scId c) \<noteq> None" using certs_move_exist [OF CM conjunct1 [OF I1] C(2)] unfolding set_rev .
  then have "?ts = firsts (\<lambda>_. True) [] (rev ?cs)" by (rule firsts_all)
  then have hq': "hq = hq_map (prev_of (l_sc ?L1)) [] (firsts (\<lambda>_. True) [] (rev ?cs))" using q4(2) by simp
  have "foldR (append_notes E) t0 ?txs = Inr (cs_tree s)" using S0(4) U(4) V(5) tx by simp
  then show thesis using that [OF TX CM _ hq' V(2)] V(3,4) um q3 by simp
qed

end
