(* ===== verification/BlockRoundTrip.thy ===== *)
theory BlockRoundTrip
  imports BlockChain
begin

text \<open>
  The theorems on whole blocks, and a concrete block that goes through.
\<close>

section \<open>The note commitment tree\<close>

abbreviation tree_root :: "BlockEnv \<Rightarrow> ZCIncrementalMerkleTree \<Rightarrow> uint256" where
  "tree_root E t \<equiv> mt_root (be_hasher E) (be_uncommitted E) INCREMENTAL_MERKLE_TREE_DEPTH [] t"

text \<open>The root of the tree after the block is not zero, stands for that tree, and is either the old root or not known yet.\<close>

definition new_anchor :: "BlockEnv \<Rightarrow> (uint256 \<Rightarrow> ZCIncrementalMerkleTree) \<Rightarrow> CBlock \<Rightarrow> Ledger \<Rightarrow> bool" where
  "new_anchor E T block L \<longleftrightarrow> (\<forall>t0 t. l_anchors L (l_bestAnchor L) = Some t0 \<longrightarrow> foldR (append_notes E) t0 (vtx block) = Inr t \<longrightarrow>
     tree_root E t \<noteq> 0 \<and> T (tree_root E t) = t \<and> (tree_root E t \<noteq> l_bestAnchor L \<longrightarrow> l_anchors L (tree_root E t) = None))"

lemma mt_append_nonempty: "mt_append cmb D x t = Inr t' \<Longrightarrow> t' \<noteq> mt_empty"
proof -
  assume "mt_append cmb D x t = Inr t'"
  then have "mt_left t' \<noteq> None" by (auto simp: mt_append_def split: if_splits option.splits)
  then show ?thesis by (auto simp: mt_empty_def)
qed

lemma GetBestBlock_ev: "GetBestBlock (vw w) = (CacheView c b, r) \<Longrightarrow> ev_entry (c, b) = ev_entry w"
  by (cases w) (auto simp: ev_entry_def fun_eq_iff split: if_splits prod.splits)

lemma appends_grow: "foldR (\<lambda>t x. mt_append cmb D x t) t xs = Inr t' \<Longrightarrow> t' = t \<or> t' \<noteq> mt_empty"
proof (induction xs arbitrary: t)
  case (Cons x xs)
  then obtain t1 where "mt_append cmb D x t = Inr t1" "foldR (\<lambda>t x. mt_append cmb D x t) t1 xs = Inr t'" by (auto split: sum.splits)
  then show ?case using Cons.IH mt_append_nonempty by metis
qed simp

lemma notes_grow: "foldR (append_notes E) t txs = Inr t' \<Longrightarrow> t' = t \<or> t' \<noteq> mt_empty"
proof (induction txs arbitrary: t)
  case (Cons tx txs)
  then obtain t1 where t1: "append_notes E t tx = Inr t1" "foldR (append_notes E) t1 txs = Inr t'" by (auto split: sum.splits)
  have "t1 = t \<or> t1 \<noteq> mt_empty" using t1(1) unfolding append_notes_def by (rule appends_grow)
  then show ?case using Cons.IH [OF t1(2)] by metis
qed simp

section \<open>What a connected block is\<close>

lemma connectable_reads: "connectable E T h block v \<Longrightarrow> reads v v' \<Longrightarrow> connectable E T h block v'"
  unfolding connectable_def using reads_ledger [of v v'] reads_block [of v v'] by simp

lemma connectable_after:
  assumes c: "connectable E T h block v" and run: "connect_parts E h block v = Inr s"
  shows "chain_inv h (h + getScCoinsMaturity (be_params E)) (ledger (cs_view s))" "inv_block T h (h + getScCoinsMaturity (be_params E)) (cs_view s)"
    "no_events (scUndoDatabyScId (cs_undo s))" "l_anchors (ledger (cs_view s)) = l_anchors (ledger v)" "l_bestAnchor (ledger (cs_view s)) = l_bestAnchor (ledger v)"
proof -
  let ?m = "h + getScCoinsMaturity (be_params E)"
  have C: "0 < h" "0 \<le> getScCoinsMaturity (be_params E)" "chain_inv h ?m (ledger v)"
    using c chain_inv_mono [of h "?m - 1" "ledger v" ?m] by (simp_all add: connectable_def)
  obtain L1 us0 uss ussc hq t0 where P: "txs_move (be_params E) h (vtx block) (ledger v) (us0 # uss) L1"
    "certs_move (be_dataHash E) h (\<lambda>c. map_of hq (cert_hash c)) (vcert block) L1 [] ussc (ledger (cs_view s)) (scUndoDatabyScId (cs_undo s))"
    "inv_block T h ?m (cs_view s)" by (rule connect_parts_ok [OF c run])
  note X = txs_move_inv [OF P(1) C(3,1,2)]
  note Y = certs_move_inv [OF P(2) conjunct1 [OF X] C(1)]
  show "chain_inv h ?m (ledger (cs_view s))" "l_anchors (ledger (cs_view s)) = l_anchors (ledger v)" "l_bestAnchor (ledger (cs_view s)) = l_bestAnchor (ledger v)"
    using X Y by (simp_all add: same_rest_def del: ledger_sel)
  show "inv_block T h ?m (cs_view s)" by (rule P(3))
  have "no_events []" by (simp add: no_events_def distinct_keys_def undo_at_def CSidechainUndoData_new_def has_section_def)
  then show "no_events (scUndoDatabyScId (cs_undo s))" by (rule certs_move_no_events [OF P(2)])
qed

text \<open>What \<open>ConnectBlock\<close> does after the transactions and certificates.\<close>

lemma ConnectBlock_parts:
  assumes c: "connectable E T h block v" and a: "new_anchor E T block (ledger v)" and b: "block_hash block \<noteq> 0" and run: "ConnectBlock E COMPLETE h block v = Inr (v', Some u)"
  obtains v1 s m' where "reads v v1" "hashPrevBlock block = l_best (ledger v)" "connectable E T h block v1" "connect_parts E h block v1 = Inr s"
    "ev_undo h (ledger (cs_view s)) (scUndoDatabyScId (cs_undo s)) m'" "u = (cs_undo s)\<lparr>scUndoDatabyScId := m'\<rparr>"
    "good T (h + 1) v'" "erased_mono (cs_view s) v'"
    "ledger v' = (spec_events h (ledger (cs_view s)))\<lparr>l_anchors := if l_bestAnchor (ledger v) \<noteq> tree_root E (cs_tree s) then (l_anchors (ledger v))(tree_root E (cs_tree s) \<mapsto> cs_tree s) else l_anchors (ledger v),
       l_bestAnchor := tree_root E (cs_tree s), l_best := block_hash block\<rparr>"
proof -
  let ?L = "ledger v"
  obtain c1 b1 where g: "GetBestBlock (vw v) = (CacheView c1 b1, l_best ?L)" "reads v (c1, b1)" using GetBestBlock_reads by blast
  let ?v1 = "(c1, b1)"
  have best: "onView GetBestBlock v = Inr (?v1, l_best ?L)" using g(1) by (simp add: onView_def del: ledger_sel)
  have r0: "CheckBlock (be_rules E) block = Inr ()" using run by (auto simp: ConnectBlock_def bindR_eq_Inr)
  have p: "hashPrevBlock block = l_best ?L" using run r0 best by (simp add: ConnectBlock_def del: ledger_sel split: if_splits)
  have ng: "block_hash block \<noteq> be_genesis E" using run r0 best p by (auto simp: ConnectBlock_def simp del: ledger_sel)
  obtain s where s: "connect_parts E h block ?v1 = Inr s"
    using run r0 best p ng by (cases "connect_parts E h block ?v1") (simp_all add: ConnectBlock_def del: ledger_sel)
  note c1 = connectable_reads [OF c g(2)]
  note A = connectable_after [OF c1 s]
  note i = A(2)
  let ?um = "scUndoDatabyScId (cs_undo s)" and ?Lc = "ledger (cs_view s)" and ?t = "cs_tree s"
  obtain v2 m' where e: "HandleSidechainEvents h (cs_view s) ?um = Inr (v2, m')" "good T (h + 1) v2" "erased_mono (cs_view s) v2" "ledger v2 = spec_events h ?Lc" "ev_undo h ?Lc ?um m'"
    by (rule HandleSidechainEvents_ok [OF inv_blockD(2) [OF i] chain_inv_events(1) [OF A(1)]])
  have r: "v' = SetBestBlock (PushAnchor v2 (tree_root E ?t) ?t) (block_hash block)" "u = (cs_undo s)\<lparr>scUndoDatabyScId := m'\<rparr>"
    using run r0 best p ng s e(1) by (auto simp: ConnectBlock_def Let_def or_reject_def bindR_eq_Inr reject_def simp del: ledger_sel split: if_splits)
  obtain t0 where t0: "l_anchors (ledger ?v1) (l_bestAnchor (ledger ?v1)) = Some t0" "foldR (append_notes E) t0 (vtx block) = Inr ?t"
    by (rule connect_parts_ok [OF c1 s])
  have l1: "ledger ?v1 = ?L" using reads_ledger [OF g(2)] .
  have rt: "tree_root E ?t \<noteq> 0" "T (tree_root E ?t) = ?t" using a t0 l1 unfolding new_anchor_def by (simp_all del: ledger_sel)
  note P = PushAnchor_step [where T = T, OF rt(2) [symmetric] rt(1)] and B = SetBestBlock_step
  have k: "keeps T v2 v'" unfolding r(1) by (rule keeps_trans [OF P(1) B(1)])
  have l: "ledger v' = (spec_events h ?Lc)\<lparr>l_anchors := if l_bestAnchor ?L \<noteq> tree_root E ?t then (l_anchors ?L)(tree_root E ?t \<mapsto> ?t) else l_anchors ?L,
       l_bestAnchor := tree_root E ?t, l_best := block_hash block\<rparr>"
    unfolding r(1) B(2) [OF b] P(2) e(4) using A(4,5) l1 by (simp add: spec_events_def del: ledger_sel)
  show thesis by (rule that [OF g(2) p c1 s e(5) r(2) keeps_good [OF k e(2)] _ l]) (use k e(3) erased_mono_trans in \<open>auto simp: keeps_def\<close>)
qed

section \<open>The chain invariant\<close>

text \<open>C2: connecting a block preserves the invariant of the chain state: after the block at height \<open>h\<close> the coins are well formed, no sidechain has a
  negative balance, every immature amount is positive and still to mature, and the sidechains are scheduled to cease and to mature at exactly the heights their own
  data say, for the block at height \<open>h + 1\<close>.\<close>

theorem connected_block_invariant:
  assumes "connectable E T h block v" and "new_anchor E T block (ledger v)" and "block_hash block \<noteq> 0"
    and "ConnectBlock E COMPLETE h block v = Inr (v', Some u)"
  shows "chain_inv (h + 1) (h + 1 + getScCoinsMaturity (be_params E) - 1) (ledger v') \<and> inv_block T (h + 1) (h + 1 + getScCoinsMaturity (be_params E)) v'
    \<and> l_best (ledger v') = block_hash block"
proof -
  obtain v1 s m' where P: "connectable E T h block v1" "connect_parts E h block v1 = Inr s" "good T (h + 1) v'" "erased_mono (cs_view s) v'"
    "ledger v' = (spec_events h (ledger (cs_view s)))\<lparr>l_anchors := if l_bestAnchor (ledger v) \<noteq> tree_root E (cs_tree s) then (l_anchors (ledger v))(tree_root E (cs_tree s) \<mapsto> cs_tree s) else l_anchors (ledger v),
       l_bestAnchor := tree_root E (cs_tree s), l_best := block_hash block\<rparr>" by (rule ConnectBlock_parts [OF assms])
  note A = connectable_after [OF P(1,2)]
  have "chain_inv (h + 1) (h + getScCoinsMaturity (be_params E)) (ledger v')" using spec_events_chain_inv [OF A(1)] unfolding P(5) by simp
  moreover have "no_erased v'" "\<forall>k. csw_entry v' k \<noteq> Some IM_ERASED" using A(2) P(4) unfolding inv_block_def inv_connect_def no_erased_def erased_mono_def by blast+
  then have "inv_block T (h + 1) (h + 1 + getScCoinsMaturity (be_params E)) v'"
    using P(3) assms(1) by (auto simp: inv_block_def inv_connect_def connectable_def)
  moreover have "l_best (ledger v') = block_hash block" unfolding P(5) by simp
  ultimately show ?thesis by simp
qed

text \<open>C3: the events scheduled for the height of a block never abort and never invalidate it: whatever transactions and certificates the block had, if they
  were connected then \<open>HandleSidechainEvents\<close> succeeds.\<close>

theorem block_events_succeed:
  assumes "connectable E T h block v" and "connect_parts E h block v = Inr s"
  shows "\<exists>v' m'. HandleSidechainEvents h (cs_view s) (scUndoDatabyScId (cs_undo s)) = Inr (v', m') \<and> ledger v' = spec_events h (ledger (cs_view s))"
proof -
  note A = connectable_after [OF assms]
  obtain v' m' where "HandleSidechainEvents h (cs_view s) (scUndoDatabyScId (cs_undo s)) = Inr (v', m')" "ledger v' = spec_events h (ledger (cs_view s))"
    by (rule HandleSidechainEvents_ok [OF inv_blockD(2) [OF A(2)] chain_inv_events(1) [OF A(1)]])
  then show ?thesis by blast
qed

section \<open>Disconnecting a block\<close>

lemma spec_events_other: "spec_events h (L\<lparr>l_anchors := a, l_bestAnchor := r, l_best := b\<rparr>) = (spec_events h L)\<lparr>l_anchors := a, l_bestAnchor := r, l_best := b\<rparr>"
  by (simp add: spec_events_def)

lemma events_other:
  "events_inv h (L\<lparr>l_anchors := a, l_bestAnchor := r, l_best := b\<rparr>) = events_inv h L" "positive_maturing h (L\<lparr>l_anchors := a, l_bestAnchor := r, l_best := b\<rparr>) = positive_maturing h L"
  "ev_undo h (L\<lparr>l_anchors := a, l_bestAnchor := r, l_best := b\<rparr>) m m' = ev_undo h L m m'"
  by (simp_all add: events_inv_def positive_maturing_def ev_undo_def)

lemma undo_of_rest: "\<forall>tx \<in> set txs. \<not> tx_IsCoinBase tx \<Longrightarrow> map2 undo_of txs uss = zip txs (map Some uss)"
proof (induction txs arbitrary: uss)
  case (Cons tx txs)
  then show ?case by (cases uss) (simp_all add: undo_of_def)
qed simp

text \<open>The certificates on top are found again from the undo data.\<close>

lemma top_certs_found:
  assumes fine: "block_fine block L" and M: "certs_move dh h (\<lambda>c. map_of hq (cert_hash c)) (vcert block) L1 [] ussc Lc um"
    and hq: "hq = hq_map (prev_of (l_sc L1)) [] (firsts (\<lambda>_. True) [] (rev (vcert block)))" and i: "chain_inv h m L1" "0 < h" and ev: "ev_undo h Lc um mf"
  shows "HighQualityCertData_undo block (u\<lparr>scUndoDatabyScId := mf\<rparr>) = Inr hq"
proof -
  let ?cs = "vcert block"
  have "\<exists>ud. map_of mf (cert_scId c) = Some ud \<and> prev_in ud c = prev_of (l_sc L1) c" if c: "c \<in> set (firsts (\<lambda>_. True) [] (rev ?cs))" for c
  proof -
    have inj: "inj_on cert_hash (set ?cs)" using fine by (simp add: block_fine_def block_hashes_def distinct_map)
    have sub: "set (firsts (\<lambda>_. True) [] (rev ?cs)) \<subseteq> set ?cs" using firsts_sub [of "\<lambda>_. True" "[]" "rev ?cs"] by simp
    have "map_of hq (cert_hash c) = Some (prev_of (l_sc L1) c)" using hq_map_at [OF c inj_on_subset [OF inj sub]] hq by simp
    then obtain ud where ud: "map_of um (cert_scId c) = Some ud" "prev_in ud c = prev_of (l_sc L1) c" using certs_move_prev [OF M i] c sub by blast
    then show ?thesis using ev_undo_part [OF ev ud(1)] cert_partD(4) by metis
  qed
  then show ?thesis using hq by (simp add: HighQualityCertData_undo_def high_quality_undo_eq)
qed

text \<open>The certificates and then the transactions, from a view that has the state after them with other anchors and another best block.\<close>

lemma undo_parts:
  assumes M: "txs_move pr h (vtx block) L (us0 # uss) L1" "certs_move dh h (\<lambda>c. map_of hq (cert_hash c)) (vcert block) L1 [] ussc Lc um"
    and C: "0 < h" "0 \<le> getScCoinsMaturity pr" "chain_inv h (h + getScCoinsMaturity pr - 1) L" and ev: "ev_undo h Lc um mf"
    and w1: "inv_revert T w1" "ledger w1 = Lc\<lparr>l_anchors := a, l_bestAnchor := r, l_best := b\<rparr>"
  obtains w2 w3 where "foldR (disconnect_cert h hq mf) (w1, True) (rev (zip (vcert block) ussc)) = Inr (w2, True)"
    "foldR (disconnect_tx pr h) (w2, True) (rev (map2 undo_of (vtx block) (us0 # uss))) = Inr (w3, True)" "inv_revert T w3" "ledger w3 = L\<lparr>l_anchors := a, l_bestAnchor := r, l_best := b\<rparr>"
proof -
  let ?m = "h + getScCoinsMaturity pr" and ?txs = "vtx block"
  have i: "chain_inv h ?m L" using C(3) by (rule chain_inv_mono) simp
  note X = txs_move_inv [OF M(1) i C(1,2)]
  note i1 = conjunct1 [OF X] note Y = certs_move_inv [OF M(2) i1 C(1)]
  have part: "\<exists>ud'. map_of mf k = Some ud' \<and> cert_part ud' = cert_part ud" if "map_of um k = Some ud" for k ud by (rule ev_undo_part [OF ev that])
  have e1: "l_coins (ledger w1) = l_coins Lc" "l_sc (ledger w1) = l_sc Lc" "l_ceasing (ledger w1) = l_ceasing Lc" unfolding w1(2) by simp_all
  obtain w2 where w2: "foldR (disconnect_cert h hq mf) (w1, True) (rev (zip (vcert block) ussc)) = Inr (w2, True)" "inv_revert T w2"
    "ledger w2 = (ledger w1)\<lparr>l_coins := l_coins L1, l_sc := l_sc L1, l_ceasing := l_ceasing L1\<rparr>"
    using disconnect_certs_ok [OF M(2) i1 C(1) part w1(1) e1] by blast
  have rest: "l_maturing Lc = l_maturing L1" "l_nf Lc = l_nf L1" "l_csw Lc = l_csw L1" using Y by (simp_all add: same_rest_def)
  have e2: "l_coins (ledger w2) = l_coins L1" "l_nf (ledger w2) = l_nf L1" "l_csw (ledger w2) = l_csw L1" "l_sc (ledger w2) = l_sc L1" "l_ceasing (ledger w2) = l_ceasing L1"
    unfolding w2(3) w1(2) using rest by simp_all
  obtain w3 where w3: "foldR (disconnect_tx pr h) (w2, True) (rev (map2 undo_of ?txs (us0 # uss))) = Inr (w3, True)" "inv_revert T w3"
    "ledger w3 = (ledger w2)\<lparr>l_coins := l_coins L, l_nf := l_nf L, l_csw := l_csw L, l_sc := l_sc L, l_ceasing := l_ceasing L,
       l_maturing := (l_maturing (ledger w2))(?m := l_maturing (ledger w2) ?m - \<Union> (sc_targets ` set ?txs))\<rparr>"
    using undo_txs_ok [OF M(1) i C(1,2) w2(2) e2] by blast
  have "l_maturing L ?m = {}" by (rule chain_inv_new [OF C(3)]) simp
  then have mat: "(l_maturing (ledger w2))(?m := l_maturing (ledger w2) ?m - \<Union> (sc_targets ` set ?txs)) = l_maturing L"
    unfolding w2(3) w1(2) using rest(1) X by (auto simp: fun_eq_iff simp del: ledger_sel)
  have "ledger w3 = L\<lparr>l_anchors := a, l_bestAnchor := r, l_best := b\<rparr>" unfolding w3(3) mat unfolding w2(3) w1(2) by simp
  then show thesis by (rule that [OF w2(1) w3(1,2)])
qed

text \<open>The last steps: the anchor and the best block.\<close>

lemma restore_anchor:
  assumes w: "inv_revert T w" "ledger w = L\<lparr>l_anchors := (if l_bestAnchor L \<noteq> rt then (l_anchors L)(rt \<mapsto> t) else l_anchors L), l_bestAnchor := rt, l_best := b\<rparr>"
    and t: "rt \<noteq> l_bestAnchor L \<Longrightarrow> t \<noteq> mt_empty \<and> l_anchors L rt = None" and t0: "l_anchors L (l_bestAnchor L) = Some t0" and nz: "l_bestAnchor L \<noteq> 0" "p \<noteq> 0" and p: "p = l_best L"
  obtains w' where "PopAnchor w (l_bestAnchor L) = Inr w'" "inv_revert T (SetBestBlock w' p)" "ledger (SetBestBlock w' p) = L"
proof -
  have g: "good T 0 w" using w(1) by (simp add: inv_revert_def)
  have a: "l_anchors (ledger w) (l_bestAnchor (ledger w)) = Some (if rt \<noteq> l_bestAnchor L then t else t0)"
    unfolding w(2) using t0 by (cases "rt = l_bestAnchor L") (simp_all del: ledger_sel)
  obtain w' where w': "PopAnchor w (l_bestAnchor L) = Inr w'" "keeps T w w'"
    "ledger w' = (ledger w)\<lparr>l_anchors := if l_bestAnchor (ledger w) \<noteq> l_bestAnchor L then (l_anchors (ledger w))(l_bestAnchor (ledger w) := None) else l_anchors (ledger w), l_bestAnchor := l_bestAnchor L\<rparr>"
    by (rule PopAnchor_step [OF g a _ nz(1)]) (use t w(2) in auto)
  have "(l_anchors L)(rt := None) = l_anchors L" if "rt \<noteq> l_bestAnchor L" using t [OF that] by auto
  then have l': "ledger w' = L\<lparr>l_best := b\<rparr>" unfolding w'(3) w(2) by (simp del: ledger_sel)
  have "ledger (SetBestBlock w' p) = L" using SetBestBlock_step(2) [OF nz(2), of w'] unfolding l' by (simp add: p del: ledger_sel)
  moreover have "inv_revert T (SetBestBlock w' p)" using keeps_inv(2) [OF keeps_trans [OF w'(2) SetBestBlock_step(1)] w(1)] .
  ultimately show thesis using w'(1) that by blast
qed

text \<open>C1: disconnecting the block that was connected last, on any view that shows the state after it, succeeds, reports a clean undo and restores the whole chain state
  from before the block: coins, nullifiers, withdrawal nullifiers, anchors, sidechains, scheduled events and the best block.\<close>

theorem disconnect_restores:
  assumes "connectable E T h block v" and "new_anchor E T block (ledger v)" and "block_hash block \<noteq> 0" and "hashPrevBlock block \<noteq> 0" and "l_bestAnchor (ledger v) \<noteq> 0"
    and "ConnectBlock E COMPLETE h block v = Inr (v', Some u)" and "inv_revert T w" and "ledger w = ledger v'" and "ev_entry w h = None"
  shows "\<exists>w'. DisconnectBlock E h block u w = Inr (w', True) \<and> inv_revert T w' \<and> ledger w' = ledger v"
proof -
  let ?pr = "be_params E" and ?L = "ledger v" and ?m = "h + getScCoinsMaturity (be_params E)" and ?txs = "vtx block" and ?cs = "vcert block"
  obtain v1 s mf where P: "reads v v1" "hashPrevBlock block = l_best ?L" "connectable E T h block v1" "connect_parts E h block v1 = Inr s"
    "ev_undo h (ledger (cs_view s)) (scUndoDatabyScId (cs_undo s)) mf" "u = (cs_undo s)\<lparr>scUndoDatabyScId := mf\<rparr>"
    "ledger v' = (spec_events h (ledger (cs_view s)))\<lparr>l_anchors := if l_bestAnchor ?L \<noteq> tree_root E (cs_tree s) then (l_anchors ?L)(tree_root E (cs_tree s) \<mapsto> cs_tree s) else l_anchors ?L,
       l_bestAnchor := tree_root E (cs_tree s), l_best := block_hash block\<rparr>" by (rule ConnectBlock_parts [OF assms(1-3,6)])
  let ?Lc = "ledger (cs_view s)" and ?um = "scUndoDatabyScId (cs_undo s)" and ?rt = "tree_root E (cs_tree s)"
  let ?A = "if l_bestAnchor ?L \<noteq> ?rt then (l_anchors ?L)(?rt \<mapsto> cs_tree s) else l_anchors ?L"
  have l1: "ledger v1 = ?L" using reads_ledger [OF P(1)] .
  have C: "0 < h" "0 \<le> getScCoinsMaturity ?pr" "chain_inv h (?m - 1) ?L" "chain_inv h ?m ?L" "block_fine block ?L"
    using assms(1) chain_inv_mono [of h "?m - 1" ?L ?m] by (simp_all add: connectable_def)
  obtain L1 us0 uss ussc hq t0 where M: "txs_move ?pr h ?txs ?L (us0 # uss) L1"
    "certs_move (be_dataHash E) h (\<lambda>c. map_of hq (cert_hash c)) ?cs L1 [] ussc ?Lc ?um" "vtxundo (cs_undo s) = uss @ ussc"
    "hq = hq_map (prev_of (l_sc L1)) [] (firsts (\<lambda>_. True) [] (rev ?cs))" "old_tree_root (cs_undo s) = l_bestAnchor ?L"
    "l_anchors ?L (l_bestAnchor ?L) = Some t0" "tree_root E t0 = l_bestAnchor ?L" "foldR (append_notes E) t0 ?txs = Inr (cs_tree s)"
    by (rule connect_parts_ok [OF P(3,4), unfolded l1])
  note X = txs_move_inv [OF M(1) C(4,1,2)]
  note i1 = conjunct1 [OF X] note Y = certs_move_inv [OF M(2) i1 C(1)]
  note A = connectable_after [OF P(3,4)]
  obtain c0 b0 where g: "GetBestBlock (vw w) = (CacheView c0 b0, l_best (ledger w))" "reads w (c0, b0)" using GetBestBlock_reads by blast
  let ?w0 = "(c0, b0)"
  have lw: "l_best (ledger w) = block_hash block" unfolding assms(8) P(7) by simp
  have best: "onView GetBestBlock w = Inr (?w0, block_hash block)" using g(1) lw by (simp add: onView_def del: ledger_sel)
  have l0: "ledger ?w0 = spec_events h (?Lc\<lparr>l_anchors := ?A, l_bestAnchor := ?rt, l_best := block_hash block\<rparr>)"
    using reads_ledger [OF g(2)] assms(8) P(7) unfolding spec_events_other by simp
  have w0: "inv_revert T ?w0" "ev_entry ?w0 h = None" using keeps_inv(2) [OF reads_keeps [OF g(2)] assms(7)] GetBestBlock_ev [OF g(1)] assms(9) by simp_all
  obtain w1 where w1: "RevertSidechainEvents mf h ?w0 = Inr w1" "inv_revert T w1" "ledger w1 = ?Lc\<lparr>l_anchors := ?A, l_bestAnchor := ?rt, l_best := block_hash block\<rparr>"
    by (rule RevertSidechainEvents_ok [OF _ _ _ A(3) w0(1) l0 w0(2)]) (use chain_inv_events [OF A(1)] P(5) in \<open>simp_all only: events_other\<close>)
  have hqu: "HighQualityCertData_undo block u = Inr hq" unfolding P(6) by (rule top_certs_found [OF C(5) M(2,4) i1 C(1) P(5)])
  obtain w2 w3 where w3: "foldR (disconnect_cert h hq mf) (w1, True) (rev (zip ?cs ussc)) = Inr (w2, True)"
    "foldR (disconnect_tx ?pr h) (w2, True) (rev (map2 undo_of ?txs (us0 # uss))) = Inr (w3, True)" "inv_revert T w3" "ledger w3 = ?L\<lparr>l_anchors := ?A, l_bestAnchor := ?rt, l_best := block_hash block\<rparr>"
    by (rule undo_parts [OF M(1,2) C(1-3) P(5) w1(2,3)])
  have tree: "?rt \<noteq> l_bestAnchor ?L \<Longrightarrow> cs_tree s \<noteq> mt_empty \<and> l_anchors ?L ?rt = None"
    using notes_grow [OF M(8)] M(6-8) assms(2) unfolding new_anchor_def by (auto simp del: ledger_sel)
  obtain w4 where w4: "PopAnchor w3 (l_bestAnchor ?L) = Inr w4" "inv_revert T (SetBestBlock w4 (hashPrevBlock block))" "ledger (SetBestBlock w4 (hashPrevBlock block)) = ?L"
    by (rule restore_anchor [OF w3(3,4) tree M(6) assms(5,4) P(2)])
  have len: "length (vtxundo u) = length ?txs - 1 + length ?cs" "take (length ?txs - 1) (vtxundo u) = uss" "drop (length ?txs - 1) (vtxundo u) = ussc"
    using X Y M(3) P(6) by auto
  have zip: "zip ?txs (None # map Some uss) = map2 undo_of ?txs (us0 # uss)"
    using C(5) undo_of_rest [of "tl ?txs" uss] by (cases ?txs) (simp_all add: block_fine_def undo_of_def)
  have "DisconnectBlock E h block u w = Inr (SetBestBlock w4 (hashPrevBlock block), True)"
    using best len w1(1) hqu w3(1,2) w4(1) zip P(6) M(5) by (simp add: DisconnectBlock_def)
  then show ?thesis using w4(2,3) by blast
qed

section \<open>A concrete block\<close>

text \<open>The block at height 539 of the concrete chain, with a coinbase only: at this height the sidechain without a certificate ceases.\<close>

definition rules_live :: BlockRules where
  "rules_live = \<lparr>CheckBlock = (\<lambda>_. Inr ()), tx_GetLegacySigOpCount = (\<lambda>_. 1), cert_GetLegacySigOpCount = (\<lambda>_. 1), tx_GetP2SHSigOpCount = (\<lambda>_. retL 0),
     cert_GetP2SHSigOpCount = (\<lambda>_. retL 0), LoadDataForCswVerification = (\<lambda>_. retL ()), LoadDataForCertVerification = (\<lambda>_. retL ()),
     ContextualCheckTxInputs = (\<lambda>_. retL ()), ContextualCheckCertInputs = (\<lambda>_. retL ()), commitment_add = (\<lambda>_. retL ()),
     control_Wait = (\<lambda>_. True), commitment_matches = (\<lambda>_. True), BatchVerify = (\<lambda>_. True)\<rparr>"

definition benv_live :: BlockEnv where
  "benv_live = \<lparr>be_params = CMainParams, be_chain = env_live\<lparr>mapBlockIndex := [8 \<mapsto> 538]\<rparr>, be_hasher = (\<lambda>_ _ _. 99), be_uncommitted = 0, be_dataHash = (\<lambda>_ _. [4]), be_genesis = 1,
     be_slowStartInterval = 2, be_halvingInterval = 840000, be_rules = rules_live\<rparr>"

definition cb_live :: CTransaction where
  "cb_live = tx_null\<lparr>tx_hash := 23, tx_vin := [\<lparr>prevout = \<lparr>op_hash = 0, op_n = 4294967295\<rparr>, scriptSig = [], nSequence = 0\<rparr>], tx_vout := [\<lparr>nValue = 50, scriptPubKey = []\<rparr>]\<rparr>"

definition block_live :: CBlock where
  "block_live = \<lparr>block_hash = 30, hashPrevBlock = 8, vtx = [cb_live], vcert = []\<rparr>"

definition view_cb :: CCoinsViewCache where
  "view_cb = (CacheMaps_empty\<lparr>hashBlock := 8, hashAnchor := 99, cacheCoins := [(23, \<lparr>ce_coins = From_tx cb_live 539, ce_dirty = True, ce_fresh = True\<rparr>)],
    cacheAnchors := [(99, \<lparr>ae_entered = True, ae_tree = mt_empty, ae_dirty = False\<rparr>)]\<rparr>, DBView db_live)"

definition view_done :: CCoinsViewCache where
  "view_done = (CacheMaps_empty\<lparr>hashBlock := 30, hashAnchor := 99, cacheCoins := [(23, \<lparr>ce_coins = From_tx cb_live 539, ce_dirty = True, ce_fresh = True\<rparr>)],
    cacheAnchors := [(99, \<lparr>ae_entered = True, ae_tree = mt_empty, ae_dirty = False\<rparr>)],
    cacheSidechains := [(7, \<lparr>me_content = sc_live, me_flag = DEFAULT\<rparr>)],
    cacheSidechainEvents := [(539, \<lparr>me_content = events_null\<lparr>ceasingScs := {7}\<rparr>, me_flag = ERASED\<rparr>)]\<rparr>, DBView db_live)"

definition undo_live :: CBlockUndo where
  "undo_live = \<lparr>vtxundo = [], old_tree_root = 99, scUndoDatabyScId = [(7, add_section CEASED_CERT_DATA CSidechainUndoData_new)]\<rparr>"

text \<open>The database after the block.\<close>

definition db_done :: CCoinsViewDB where
  "db_done = db_live\<lparr>db_coins := (23, From_tx cb_live 539) # db_coins db_live, db_ceasedscs := [], db_bestBlock := Some 30\<rparr>"

definition view_next :: CCoinsViewCache where "view_next = CCoinsViewCache_new (DBView db_done)"

lemma block_live_simps [simp]: "vtx block_live = [cb_live]" "vcert block_live = []" "block_hash block_live = 30" "hashPrevBlock block_live = 8"
  "be_params benv_live = CMainParams" "be_chain benv_live = env_live\<lparr>mapBlockIndex := [8 \<mapsto> 538]\<rparr>" "be_rules benv_live = rules_live" "be_genesis benv_live = 1"
  "be_slowStartInterval benv_live = 2" "be_halvingInterval benv_live = 840000" "be_hasher benv_live = (\<lambda>_ _ _. 99)" "be_uncommitted benv_live = 0"
  by (simp_all add: block_live_def benv_live_def)

lemma cb_live_simps [simp]: "tx_hash cb_live = 23" "tx_IsCoinBase cb_live" "vjoinsplit cb_live = []" "vcsw_ccin cb_live = []" "tx_vout cb_live = [\<lparr>nValue = 50, scriptPubKey = []\<rparr>]"
  "vsc_ccout cb_live = []" "vft_ccout cb_live = []" "vmbtr_out cb_live = []" "tx_nVersion cb_live = tx_nVersion tx_null"
  by (simp_all add: cb_live_def tx_null_def tx_IsCoinBase_def outpoint_IsNull_def)

lemma root_live: "mt_root (\<lambda>_ _ _. 99) 0 INCREMENTAL_MERKLE_TREE_DEPTH [] mt_empty = 99"
  by (simp add: mt_root_def mt_empty_def INCREMENTAL_MERKLE_TREE_DEPTH_def numeral_eq_Suc filler_next_def split: prod.splits)

lemmas look_defs = bindL_def onCache_def onView_def retL_def failL_def liftL_def

lemma From_cb_live: "From_tx cb_live 539 = \<lparr>fCoinBase = True, vout = [\<lparr>nValue = 50, scriptPubKey = []\<rparr>], nHeight = 539, nVersion = tx_nVersion tx_null, nFirstBwtPos = BWT_POS_UNSET, nBwtMaturityHeight = 0\<rparr>"
  by (simp add: From_tx_def ClearUnspendable_def Cleanup_def IsUnspendable_def MAX_SCRIPT_SIZE_def pop_nulls.simps txout_IsNull_def)

lemma parts_live: "connect_parts benv_live 539 block_live (fst view_live\<lparr>hashBlock := b\<rparr>, snd view_live) = Inr \<lparr>cs_view = (fst view_cb\<lparr>hashBlock := b\<rparr>, snd view_cb), cs_undo = \<lparr>vtxundo = [], old_tree_root = 99, scUndoDatabyScId = []\<rparr>,
   cs_tree = mt_empty, cs_fees = wrap64 0, cs_sigops = 1\<rparr>"
  apply (simp add: connect_parts_def overwrites_nothing_def look_defs view_live_def CCoinsViewCache_new_def CacheMaps_empty_def db_live_def AccessCoins_def FetchCoins_def fetch_coins_def
      best_tree_def root_live)
  apply (simp add: connect_tx_def tx_block_checks_def look_defs count_sigops_def MAX_BLOCK_SIGOPS_def rules_live_def UpdateCoins_tx_def set_nullifiers_def append_notes_def
      HighQualityCertData_view_def ModifyCoins_def Let_def)
  apply (simp add: From_cb_live view_cb_def CacheMaps_empty_def db_live_def Cleanup_def IsPruned_def txout_IsNull_def pop_nulls.simps)
  done

lemma events_live: "HandleSidechainEvents 539 (fst view_cb\<lparr>hashBlock := 8\<rparr>, snd view_cb) [] = Inr ((fst view_done\<lparr>hashBlock := 8\<rparr>, snd view_done), scUndoDatabyScId undo_live)"
proof -
  let ?e = "\<lparr>me_content = events_null\<lparr>ceasingScs := {7}\<rparr>, me_flag = DEFAULT\<rparr>"
  let ?v1 = "(fst view_cb\<lparr>cacheSidechainEvents := [(539, ?e)]\<rparr>, DBView db_live)"
  let ?v2 = "(fst view_cb\<lparr>cacheSidechainEvents := [(539, ?e)], cacheSidechains := [(7, \<lparr>me_content = sc_live, me_flag = DEFAULT\<rparr>)]\<rparr>, DBView db_live)"
  note D = view_cb_def CacheMaps_empty_def db_live_def
  have f: "FetchSidechainEvents view_cb 539 = (?v1, Some ?e)" "FetchSidechainEvents ?v1 539 = (?v1, Some ?e)" "FetchSidechainEvents ?v2 539 = (?v2, Some ?e)"
    by (simp_all add: FetchSidechainEvents_def fetch_events_def fetch_mutable_def D Let_def)
  have "cease_step (?v1, []) 7 = Inr (?v2, scUndoDatabyScId undo_live)"
    by (simp add: cease_step_def CacheGetSidechain_def FetchSidechains_def fetch_sidechains_def fetch_mutable_def me_live_def EPOCH_NULL_def Let_def D undo_live_def undo_at_def)
  moreover have "on_events ?v2 539 (me_flag_update (\<lambda>_. ERASED)) = (fst view_done\<lparr>hashBlock := 8\<rparr>, snd view_done)"
    by (simp add: on_events_def ModifySidechainEvents_def modify_mutable_def put_events_def view_done_def D)
  moreover have "set_order {7} = [7]" "set_order {} = []" "maturingScs events_null = {}" by (simp_all add: set_order_def events_null_def)
  moreover have "(fst view_cb\<lparr>hashBlock := 8\<rparr>, snd view_cb) = view_cb" by (simp add: D)
  ultimately show ?thesis
    by (simp add: HandleSidechainEvents_def HaveSidechainEvents_def CacheGetSidechainEvents_def f me_live_def ev_sets_def Let_def)
qed

lemma reward_live: "GetBlockSubsidy 2 840000 539 = Inr 1250000000" "tx_GetValueOut cb_live = Inr 50"
  by (simp_all add: GetBlockSubsidy_def Let_def SubsidySlowStartShift_def sdiv_nonneg tx_GetValueOut_def base_GetValueOut_def add_ranged_def GetValueCcOut_def MoneyRange_def MAX_MONEY_def COIN_def wrap64_def)

lemma push_live: "PushAnchor (fst view_done\<lparr>hashBlock := 8\<rparr>, snd view_done) 99 mt_empty = (fst view_done\<lparr>hashBlock := 8\<rparr>, snd view_done)"
  by (simp add: PushAnchor_def view_done_def CacheMaps_empty_def)

lemma connect_live: "ConnectBlock benv_live COMPLETE 539 block_live view_live = Inr (view_done, Some undo_live)"
proof -
  have "onView GetBestBlock view_live = Inr ((fst view_live\<lparr>hashBlock := 8\<rparr>, snd view_live), 8)"
    by (simp add: look_defs view_live_def CCoinsViewCache_new_def CacheMaps_empty_def db_live_def)
  moreover have "SetBestBlock (fst view_done\<lparr>hashBlock := 8\<rparr>, snd view_done) 30 = view_done" by (simp add: SetBestBlock_def view_done_def CacheMaps_empty_def)
  moreover have "\<lparr>vtxundo = [], old_tree_root = 99, scUndoDatabyScId = scUndoDatabyScId undo_live\<rparr> = undo_live" by (simp add: undo_live_def)
  ultimately show ?thesis
    by (simp add: ConnectBlock_def parts_live events_live or_reject_def push_live root_live reward_live rules_live_def Let_def wrap64_def)
qed

lemma connectable_live: "connectable benv_live (\<lambda>_. mt_empty) 539 block_live view_live"
proof -
  have "reading_rules rules_live" by (simp add: reading_rules_def rules_live_def quiet_basic)
  moreover have "inv_block (\<lambda>_. mt_empty) 539 549 view_live" by (simp add: inv_block_def inv_connect_def view_live_good) (simp add: csw_entry_def view_live_def CCoinsViewCache_new_def CacheMaps_empty_def)
  moreover have "at_height (env_live\<lparr>mapBlockIndex := [8 \<mapsto> 538]\<rparr>) 538 (ledger view_live)" by (simp add: at_height_def)
  moreover have "block_fine block_live (ledger view_live)" 
    by (simp add: block_fine_def block_hashes_def tx_fine_def last_cert_def valid_outs_def pos_tx_def no_cross_chain_def fts_def mbtrs_def)
      (simp add: sc_dead_def CSidechain_null_def)
  moreover have "chain_inv 539 548 (ledger view_live)" 
  proof -
    have c: "l_coins (ledger view_live) = [1 \<mapsto> coin_example 5]"
      by (simp add: view_live_def CCoinsViewCache_new_def CacheMaps_empty_def db_live_def fun_eq_iff normC_def coin_example_def IsPruned_def txout_IsNull_def)
    have "coin_inv (l_coins (ledger view_live))" unfolding c
      by (auto simp: coin_inv_def coins_inv_def coin_example_def clean_coins_def canonical_def txout_IsNull_def IsPruned_def)
    moreover have "sc_inv 539 548 sc_live" "sc_inv 539 548 sc_dead"
      by (simp_all add: sc_inv_def) (simp_all add: sc_live_def sc_dead_def CSidechain_null_def EPOCH_NULL_def)
    moreover have "mImmatureAmounts sc_live = Map.empty" "mImmatureAmounts sc_dead = Map.empty" by (simp_all add: sc_live_def sc_dead_def CSidechain_null_def)
    moreover have "lastTopQualityCertHash sc_dead = 0" by (simp add: sc_dead_def CSidechain_null_def)
    ultimately show ?thesis by (auto simp: chain_inv_def sched_inv_def mature_inv_def certs_inv_def last_cert_def ev_sets_def events_null_def split: if_splits option.splits)
  qed
  ultimately show ?thesis by (simp add: connectable_def)
qed
lemma anchor_live: "new_anchor benv_live (\<lambda>_. mt_empty) block_live (ledger view_live)" "l_bestAnchor (ledger view_live) = 99"
proof -
  show a: "l_bestAnchor (ledger view_live) = 99" by (simp add: view_live_def CCoinsViewCache_new_def CacheMaps_empty_def db_live_def)
  have "l_anchors (ledger view_live) 99 = Some mt_empty" by (simp add: view_live_def CCoinsViewCache_new_def CacheMaps_empty_def db_live_def)
  moreover have "foldR (append_notes benv_live) mt_empty (vtx block_live) = Inr mt_empty" by (simp add: append_notes_def)
  ultimately show "new_anchor benv_live (\<lambda>_. mt_empty) block_live (ledger view_live)" by (simp add: new_anchor_def a root_live del: ledger_sel)
qed

lemma next_live: "inv_revert (\<lambda>_. mt_empty) view_next" "ledger view_next = ledger view_done" "ev_entry view_next 539 = None"
proof -
  show "ev_entry view_next 539 = None" by (simp add: view_next_def CCoinsViewCache_new_def CacheMaps_empty_def ev_entry_def)
  have "wf_view (\<lambda>_. mt_empty) (vw view_next)" by (simp add: view_next_def CCoinsViewCache_new_def CacheMaps_empty_def db_done_def db_live_def wf_cache_def From_cb_live clean_coins_def canonical_def coin_example_def txout_IsNull_def)
  then show "inv_revert (\<lambda>_. mt_empty) view_next" 
    by (simp add: inv_revert_def good_def view_next_def CCoinsViewCache_new_def CacheMaps_empty_def db_done_def db_live_def ev_entry_def)
  show "ledger view_next = ledger view_done"
    by (simp add: ledger_of_def view_next_def view_done_def CCoinsViewCache_new_def CacheMaps_empty_def db_done_def db_live_def fun_eq_iff me_live_def ev_sets_def)
qed
theorem connected_block_invariant_witness:
  "chain_inv 540 549 (ledger view_done) \<and> inv_block (\<lambda>_. mt_empty) 540 550 view_done \<and> l_best (ledger view_done) = 30"
  using connected_block_invariant [OF connectable_live anchor_live(1) _ connect_live] by simp

theorem block_events_succeed_witness: "\<exists>s v' m'. connect_parts benv_live 539 block_live view_live = Inr s
  \<and> HandleSidechainEvents 539 (cs_view s) (scUndoDatabyScId (cs_undo s)) = Inr (v', m') \<and> l_ceasing (ledger v') 539 = {}"
proof -
  have "(fst view_live\<lparr>hashBlock := 0\<rparr>, snd view_live) = view_live" by (simp add: view_live_def CCoinsViewCache_new_def CacheMaps_empty_def)
  then obtain s where s: "connect_parts benv_live 539 block_live view_live = Inr s" using parts_live [of 0] by simp
  obtain v' m' where "HandleSidechainEvents 539 (cs_view s) (scUndoDatabyScId (cs_undo s)) = Inr (v', m')" "ledger v' = spec_events 539 (ledger (cs_view s))"
    using block_events_succeed [OF connectable_live s] by blast
  moreover have "l_ceasing (spec_events 539 (ledger (cs_view s))) 539 = {}" by (simp add: spec_events_def)
  ultimately have "l_ceasing (ledger v') 539 = {}" by metis
  then show ?thesis using s \<open>HandleSidechainEvents 539 (cs_view s) (scUndoDatabyScId (cs_undo s)) = Inr (v', m')\<close> by blast
qed

theorem disconnect_restores_witness: "\<exists>w'. DisconnectBlock benv_live 539 block_live undo_live view_next = Inr (w', True) \<and> ledger w' = ledger view_live"
  using disconnect_restores [OF connectable_live anchor_live(1) _ _ _ connect_live next_live] anchor_live(2) by auto
end
