(* ===== verification/ChainRun.thy ===== *)
theory ChainRun
  imports BlockRoundTrip
begin

text \<open>
  Chains of blocks: what has been scheduled for a sidechain happens when the blocks up to its height are connected. Amounts that were sent to a sidechain reach its
  balance, and a sidechain that gets no certificate ceases.
\<close>

section \<open>Blocks one after the other\<close>

text \<open>The ledgers before and after a list of blocks, each connected in a view of its own over the state that the block before has left.\<close>

inductive chain_run :: "int \<Rightarrow> Ledger \<Rightarrow> (BlockEnv \<times> CBlock) list \<Rightarrow> int \<Rightarrow> Ledger \<Rightarrow> bool" where
  chain_run_Nil: "chain_run h L [] h L"
| chain_run_Cons: "connectable E T h block v \<Longrightarrow> new_anchor E T block (ledger v) \<Longrightarrow> block_hash block \<noteq> 0 \<Longrightarrow> ConnectBlock E COMPLETE h block v = Inr (v', Some u) \<Longrightarrow>
    chain_run (h + 1) (ledger v') bs h' L' \<Longrightarrow> chain_run h (ledger v) ((E, block) # bs) h' L'"

inductive_cases chain_run_NilE: "chain_run h L [] h' L'"
inductive_cases chain_run_ConsE: "chain_run h L (x # bs) h' L'"

definition amount_at :: "CSidechain \<Rightarrow> int \<Rightarrow> CAmount" where
  "amount_at sc H = (case mImmatureAmounts sc H of None \<Rightarrow> 0 | Some a \<Rightarrow> a)"

text \<open>Nothing is taken from the sidechain and it gets no certificate.\<close>

definition left_alone :: "uint256 \<Rightarrow> CBlock \<Rightarrow> bool" where
  "left_alone k block \<longleftrightarrow> (\<forall>tx \<in> set (vtx block). \<forall>w \<in> set (vcsw_ccin tx). csw_scId w \<noteq> k) \<and> (\<forall>c \<in> set (vcert block). cert_scId c \<noteq> k)"

definition grows :: "CSidechain \<Rightarrow> CSidechain \<Rightarrow> bool" where
  "grows sc sc' \<longleftrightarrow> balance sc' = balance sc \<and> GetScheduledCeasingHeight sc' = GetScheduledCeasingHeight sc \<and> isCreationConfirmed sc' = isCreationConfirmed sc
     \<and> (\<forall>H. amount_at sc H \<le> amount_at sc' H)"

lemma grows_refl [simp]: "grows sc sc" by (simp add: grows_def)

lemma grows_trans: "grows a b \<Longrightarrow> grows b c \<Longrightarrow> grows a c"
  by (auto simp: grows_def intro: order_trans)

lemma matured_simps [simp]: "GetScheduledCeasingHeight (matured h sc) = GetScheduledCeasingHeight sc" "isCreationConfirmed (matured h sc) = isCreationConfirmed sc"
  "amount_at (matured h sc) H = (if H = h then 0 else amount_at sc H)" "mImmatureAmounts sc h \<noteq> None \<Longrightarrow> balance (matured h sc) = balance sc + amount_at sc h"
  by (auto simp: matured_def amount_at_def isCreationConfirmed_def epoch_defs GetCertSubmissionWindowLength_def)

lemma grows_add: "0 \<le> a \<Longrightarrow> grows sc (add_immature a mh sc)"
  by (auto simp: grows_def add_immature_def amount_at_def isCreationConfirmed_def epoch_defs GetCertSubmissionWindowLength_def split: option.splits)

definition sc_grows :: "uint256 \<Rightarrow> CSidechain \<Rightarrow> (uint256 \<rightharpoonup> CSidechain) \<Rightarrow> bool" where
  "sc_grows k sc S \<longleftrightarrow> (\<exists>sc'. S k = Some sc' \<and> grows sc sc')"

section \<open>One block\<close>

lemma credit_grows:
  assumes "foldR (spec_credit mh) c xs = Inr c'" "sc_grows k sc (fst c)" "\<forall>x \<in> set xs. 0 < snd x"
  shows "sc_grows k sc (fst c')"
proof (rule foldR_invariant [OF assms(1), of "\<lambda>c. sc_grows k sc (fst c)"])
  fix c x c'
  assume "x \<in> set xs" "sc_grows k sc (fst c)" "spec_credit mh c x = Inr c'"
  moreover obtain S C j a where x: "c = (S, C)" "x = (j, a)" by (cases c, cases x)
  ultimately obtain sc1 sc2 where s: "S j = Some sc2" "c' = (S(j \<mapsto> add_immature a mh sc2), C)" "S k = Some sc1" "grows sc sc1" "0 \<le> a"
    using assms(3) by (fastforce simp: sc_grows_def spec_credit_def spec_sc_Inr)
  then show "sc_grows k sc (fst c')" using grows_trans [OF s(4) grows_add [OF s(5)]] by (auto simp: sc_grows_def)
qed (rule assms(2))

lemma connect_grows:
  assumes "spec_connect pr h c tx = Inr c'" "sc_grows k sc (fst c)" "pos_tx tx" "\<forall>w \<in> set (vcsw_ccin tx). csw_scId w \<noteq> k"
  shows "sc_grows k sc (fst c')"
proof -
  let ?m = "h + getScCoinsMaturity pr"
  obtain c1 c2 c3 where c: "foldR spec_csw c (vcsw_ccin tx) = Inr c1" "foldR (spec_create pr (tx_hash tx) h ?m) c1 (vsc_ccout tx) = Inr c2"
    "foldR (spec_credit ?m) c2 (fts tx) = Inr c3" "foldR (spec_credit ?m) c3 (mbtrs tx) = Inr c'" using assms(1) by (auto simp: spec_connect_def Let_def bindR_eq_Inr)
  have "sc_grows k sc (fst c1)"
  proof (rule foldR_invariant [OF c(1), of "\<lambda>c. sc_grows k sc (fst c)"])
    show "sc_grows k sc (fst t')" if "w \<in> set (vcsw_ccin tx)" "sc_grows k sc (fst t)" "spec_csw t w = Inr t'" for t w t'
      using that assms(4) by (cases t) (auto simp: sc_grows_def spec_csw_def spec_sc_Inr)
  qed (rule assms(2))
  then have "sc_grows k sc (fst c2)"
    by (rule foldR_invariant [OF c(2), of "\<lambda>c. sc_grows k sc (fst c)"]) (auto simp: sc_grows_def spec_create_def bindR_eq_Inr split: prod.splits if_splits)
  then show ?thesis using assms(3) by (intro credit_grows [OF c(4)] credit_grows [OF c(3)]) (auto simp: pos_tx_def)
qed

lemma txs_grow:
  assumes "txs_move pr h txs L uss L'" "sc_grows k sc (l_sc L)" "\<forall>tx \<in> set txs. \<forall>w \<in> set (vcsw_ccin tx). csw_scId w \<noteq> k"
  shows "sc_grows k sc (l_sc L')"
  using assms
proof (induction txs arbitrary: L uss)
  case (Cons tx txs)
  obtain us uss1 L1 where s: "tx_step pr h tx L us L1" "txs_move pr h txs L1 uss1 L'" using Cons.prems(1) by auto
  obtain c where "spec_connect pr h (core_of L) tx = Inr c" "l_sc L1 = fst c" by (rule tx_step_moves [OF s(1)])
  then have "sc_grows k sc (l_sc L1)" using connect_grows [of pr h "core_of L" tx c k sc] Cons.prems(2,3) s(1) by (simp add: core_of_def tx_step_def)
  then show ?case using Cons.IH [OF s(2)] Cons.prems(3) by simp
qed simp

lemma certs_apart:
  assumes "certs_move dh h prev cs L um uss L' um'" "chain_inv h m L" "0 < h" "\<forall>c \<in> set cs. cert_scId c \<noteq> k"
  shows "l_sc L' k = l_sc L k"
  using assms
proof (induction cs arbitrary: L um uss)
  case (Cons c cs)
  obtain us uss1 L1 um1 where s: "cert_step dh h (prev c) c L um us L1 um1" "certs_move dh h prev cs L1 um1 uss1 L' um'" using Cons.prems(1) by auto
  note I = cert_step_inv [OF Cons.prems(2) s(1) Cons.prems(3)]
  have "l_sc L1 k = l_sc L k" using I(3) [of k] Cons.prems(4) by auto
  then show ?case using Cons.IH [OF s(2) I(1) Cons.prems(3)] Cons.prems(4) by simp
qed simp

text \<open>What a block leaves of a sidechain: the amount of its height has moved to the balance.\<close>

lemma block_matures:
  assumes "connectable E T h block v" "new_anchor E T block (ledger v)" "block_hash block \<noteq> 0" "ConnectBlock E COMPLETE h block v = Inr (v', Some u)"
    and k: "l_sc (ledger v) k = Some sc" "left_alone k block"
  obtains sc1 where "l_sc (ledger v') k = Some sc1" "balance sc + amount_at sc h \<le> balance sc1" "\<And>H. H \<noteq> h \<Longrightarrow> amount_at sc H \<le> amount_at sc1 H" "\<And>H. H \<le> h \<Longrightarrow> mImmatureAmounts sc1 H = None"
    "GetScheduledCeasingHeight sc1 = GetScheduledCeasingHeight sc" "isCreationConfirmed sc1 = isCreationConfirmed sc"
proof -
  let ?m = "h + getScCoinsMaturity (be_params E)"
  obtain v1 s m' where P: "reads v v1" "connectable E T h block v1" "connect_parts E h block v1 = Inr s"
    "ledger v' = (spec_events h (ledger (cs_view s)))\<lparr>l_anchors := if l_bestAnchor (ledger v) \<noteq> tree_root E (cs_tree s) then (l_anchors (ledger v))(tree_root E (cs_tree s) \<mapsto> cs_tree s) else l_anchors (ledger v),
       l_bestAnchor := tree_root E (cs_tree s), l_best := block_hash block\<rparr>" by (rule ConnectBlock_parts [OF assms(1-4)])
  note A = connectable_after [OF P(2,3)]
  have C: "0 < h" "0 \<le> getScCoinsMaturity (be_params E)" "chain_inv h ?m (ledger v1)"
    using P(2) chain_inv_mono [of h "?m - 1" "ledger v1" ?m] by (simp_all add: connectable_def)
  obtain L1 us0 uss ussc hq where M: "txs_move (be_params E) h (vtx block) (ledger v1) (us0 # uss) L1"
    "certs_move (be_dataHash E) h (\<lambda>c. map_of hq (cert_hash c)) (vcert block) L1 [] ussc (ledger (cs_view s)) (scUndoDatabyScId (cs_undo s))"
    by (rule connect_parts_ok [OF P(2,3)])
  have "sc_grows k sc (l_sc (ledger v1))" using k(1) unfolding reads_ledger [OF P(1)] sc_grows_def by auto
  then have "sc_grows k sc (l_sc L1)" by (rule txs_grow [OF M(1)]) (use k(2) in \<open>simp add: left_alone_def\<close>)
  moreover have "l_sc (ledger (cs_view s)) k = l_sc L1 k"
    by (rule certs_apart [OF M(2) conjunct1 [OF txs_move_inv [OF M(1) C(3,1,2)]] C(1)]) (use k(2) in \<open>simp add: left_alone_def\<close>)
  ultimately obtain sc2 where sc2: "l_sc (ledger (cs_view s)) k = Some sc2" "grows sc sc2" by (auto simp: sc_grows_def simp del: ledger_sel)
  let ?sc1 = "if k \<in> l_maturing (ledger (cs_view s)) h then matured h sc2 else sc2"
  have sc1: "l_sc (ledger v') k = Some ?sc1" unfolding P(4) using sc2(1) by (simp add: spec_events_def mature_all_def del: ledger_sel)
  have "chain_inv (h + 1) ?m (ledger v')" using spec_events_chain_inv [OF A(1)] unfolding P(4) by simp
  then have "sc_inv (h + 1) ?m ?sc1" using chain_invD(3) sc1 by blast
  then have none: "mImmatureAmounts ?sc1 H = None" if "H \<le> h" for H using that unfolding sc_inv_def by (metis not_None_eq zle_add1_eq_le not_le order_trans)
  have mat: "k \<in> l_maturing (ledger (cs_view s)) h \<longleftrightarrow> mImmatureAmounts sc2 h \<noteq> None"
    using chain_invD(5) [OF A(1)] sc2(1) unfolding mature_inv_def by auto
  have g: "balance sc2 = balance sc" "GetScheduledCeasingHeight sc2 = GetScheduledCeasingHeight sc" "isCreationConfirmed sc2 = isCreationConfirmed sc" "\<And>H. amount_at sc H \<le> amount_at sc2 H"
    using sc2(2) by (simp_all add: grows_def)
  have z: "amount_at sc2 h = 0" if "mImmatureAmounts sc2 h = None" using that by (simp add: amount_at_def)
  show thesis
  proof (rule that [OF sc1])
    show "balance sc + amount_at sc h \<le> balance ?sc1" using g(1) g(4) [of h] mat z by (cases "mImmatureAmounts sc2 h = None") (simp_all del: ledger_sel)
  qed (use none g in \<open>simp_all del: ledger_sel\<close>)
qed

section \<open>What is scheduled happens\<close>

lemma sum_amounts_step:
  fixes h h' :: int
  assumes "h < h'" "\<And>H. H \<noteq> h \<Longrightarrow> amount_at sc H \<le> amount_at sc1 H" "balance sc + amount_at sc h \<le> balance sc1"
  shows "balance sc + (\<Sum>H \<in> {h..<h'}. amount_at sc H) \<le> balance sc1 + (\<Sum>H \<in> {h + 1..<h'}. amount_at sc1 H)"
proof -
  have "{h..<h'} = insert h {h + 1..<h'}" using assms(1) by auto
  then have "(\<Sum>H \<in> {h..<h'}. amount_at sc H) = amount_at sc h + (\<Sum>H \<in> {h + 1..<h'}. amount_at sc H)" by simp
  moreover have "(\<Sum>H \<in> {h + 1..<h'}. amount_at sc H) \<le> (\<Sum>H \<in> {h + 1..<h'}. amount_at sc1 H)" using assms(2) by (intro sum_mono) auto
  ultimately show ?thesis using assms(3) by linarith
qed

lemma chain_run_height: "chain_run h L bs h' L' \<Longrightarrow> h' = h + int (length bs)"
  by (induction rule: chain_run.induct) simp_all

lemma chain_run_matures:
  assumes "chain_run h L bs h' L'" "l_sc L k = Some sc" "\<forall>(E, b) \<in> set bs. left_alone k b"
  shows "\<exists>sc'. l_sc L' k = Some sc' \<and> balance sc + (\<Sum>H \<in> {h..<h'}. amount_at sc H) \<le> balance sc' \<and> (bs \<noteq> [] \<longrightarrow> (\<forall>H<h'. mImmatureAmounts sc' H = None))
    \<and> GetScheduledCeasingHeight sc' = GetScheduledCeasingHeight sc \<and> isCreationConfirmed sc' = isCreationConfirmed sc"
  using assms
proof (induction arbitrary: sc rule: chain_run.induct)
  case (chain_run_Cons E T h block v v' u bs h' L')
  have a: "left_alone k block" using chain_run_Cons.prems(2) by simp
  obtain sc1 where sc1: "l_sc (ledger v') k = Some sc1" "balance sc + amount_at sc h \<le> balance sc1" "\<And>H. H \<noteq> h \<Longrightarrow> amount_at sc H \<le> amount_at sc1 H" "\<And>H. H \<le> h \<Longrightarrow> mImmatureAmounts sc1 H = None"
    "GetScheduledCeasingHeight sc1 = GetScheduledCeasingHeight sc" "isCreationConfirmed sc1 = isCreationConfirmed sc"
    by (rule block_matures [OF chain_run_Cons.hyps(1-4) chain_run_Cons.prems(1) a]) (rule that)
  have h: "h < h'" using chain_run_height [OF chain_run_Cons.hyps(5)] by simp
  obtain sc' where sc': "l_sc L' k = Some sc'" "balance sc1 + (\<Sum>H \<in> {h + 1..<h'}. amount_at sc1 H) \<le> balance sc'" "bs \<noteq> [] \<longrightarrow> (\<forall>H<h'. mImmatureAmounts sc' H = None)"
    "GetScheduledCeasingHeight sc' = GetScheduledCeasingHeight sc1" "isCreationConfirmed sc' = isCreationConfirmed sc1"
    using chain_run_Cons.IH [OF sc1(1)] chain_run_Cons.prems(2) by auto
  have "\<forall>H<h'. mImmatureAmounts sc' H = None"
  proof (cases "bs = []")
    case True
    then have "h' = h + 1" "L' = ledger v'" using chain_run_Cons.hyps(5) by (auto elim: chain_run_NilE)
    then show ?thesis using sc1(1,4) sc'(1) by (auto simp del: ledger_sel)
  qed (use sc'(3) in simp)
  then show ?case using sc' sc1(5,6) sum_amounts_step [OF h sc1(3,2)] by force
qed simp

text \<open>C4: what is scheduled for a sidechain happens. When blocks are connected that take nothing from a sidechain and bring no certificate for it, every amount that was to mature at
  one of their heights is in its balance afterwards and no amount of a height that has passed is left immature; and if its ceasing was scheduled for one of their heights, it has ceased.\<close>

theorem scheduled_events_happen:
  assumes "chain_run h L bs h' L'" and "bs \<noteq> []" and "l_sc L k = Some sc" and "isCreationConfirmed sc" and "\<forall>(E, b) \<in> set bs. left_alone k b"
  shows "\<exists>sc'. l_sc L' k = Some sc' \<and> balance sc + (\<Sum>H \<in> {h..<h'}. amount_at sc H) \<le> balance sc' \<and> (\<forall>H<h'. mImmatureAmounts sc' H = None)
    \<and> (GetScheduledCeasingHeight sc < h' \<longrightarrow> state_of (h' - 1) (l_sc L' k) = CEASED)"
  using chain_run_matures [OF assms(1,3,5)] assms(2,4) by (auto simp: state_of_def)

theorem scheduled_events_happen_witness:
  "\<exists>sc'. l_sc (ledger view_done) 7 = Some sc' \<and> balance sc_live \<le> balance sc' \<and> state_of 539 (l_sc (ledger view_done) 7) = CEASED"
proof -
  have "chain_run 539 (ledger view_live) [(benv_live, block_live)] 540 (ledger view_done)"
    using chain_run_Cons [OF connectable_live anchor_live(1) _ connect_live, of "[]" 540 "ledger view_done"] chain_run_Nil [of 540] by simp
  moreover have "l_sc (ledger view_live) 7 = Some sc_live" by simp
  moreover have "left_alone 7 block_live" by (simp add: left_alone_def)
  moreover have "amount_at sc_live H = 0" for H by (simp add: amount_at_def sc_live_def CSidechain_null_def)
  ultimately show ?thesis using scheduled_events_happen [of 539 "ledger view_live" "[(benv_live, block_live)]" 540 "ledger view_done" 7 sc_live] by auto
qed

end
