(* ===== verification/ScriptNum.thy ===== *)
theory ScriptNum
  imports Bytes
begin

text \<open>
  Script numbers: \<open>CScriptNum\<close> of \<open>script/script.h\<close>. A number is the 64-bit value \<open>m_value\<close>, an \<open>int\<close>; its encoding is a byte string in little-endian
  order whose highest bit is the sign.
\<close>

unbundle bit_operations_syntax

section \<open>Encoding and decoding\<close>

definition INT64_MIN :: int where "INT64_MIN = - (2 ^ 63)"

function abs_bytes :: "uint64 \<Rightarrow> bytes" where
  "abs_bytes absvalue = (if absvalue = 0 then [] else ucast (absvalue AND 0xFF) # abs_bytes (drop_bit 8 absvalue))"
  by pat_completeness auto
termination
proof (relation "measure unat")
  fix x :: uint64
  assume "x \<noteq> 0"
  then show "(drop_bit 8 x, x) \<in> measure unat" using unat_gt_0 [of x] by (simp add: unat_drop_bit_eq) (simp add: drop_bit_eq_div)
qed simp

declare abs_bytes.simps [simp del]

definition serialize :: "int \<Rightarrow> bytes" where
  "serialize value =
     (if value = 0 then []
      else if value = INT64_MIN then [0, 0, 0, 0, 0, 0, 0, 128, 128]
      else let neg = value < 0; absvalue = word_of_int (if neg then - value else value) :: uint64; result = abs_bytes absvalue in
        if last result AND 0x80 \<noteq> 0 then result @ [if neg then 0x80 else 0]
        else if neg then butlast result @ [last result OR 0x80]
        else result)"

definition or_bytes :: "bytes \<Rightarrow> uint64" where
  "or_bytes vch = foldl (\<lambda>result (i, b). result OR push_bit (8 * i) (ucast b)) 0 (enumerate 0 vch)"

definition set_vch :: "bytes \<Rightarrow> int result" where
  "set_vch vch =
     (if vch = [] then Inr 0
      else if vch = [0, 0, 0, 0, 0, 0, 0, 128, 128] then Inr INT64_MIN
      else if length vch > 8 then Inl (Throw ''script number overflow'')
      else let result = or_bytes vch in
        if last vch AND 0x80 \<noteq> 0 then Inr (- sint (result AND NOT (push_bit (8 * (length vch - 1)) 0x80)))
        else Inr (sint result))"

definition nDefaultMaxNumSize :: nat where "nDefaultMaxNumSize = 4"

definition CScriptNum :: "bytes \<Rightarrow> bool \<Rightarrow> nat \<Rightarrow> int result" where
  "CScriptNum vch fRequireMinimal nMaxNumSize =
     (if length vch > nMaxNumSize then Inl (Throw ''script number overflow'')
      else if fRequireMinimal \<and> length vch > 0 \<and> last vch AND 0x7F = 0 \<and> (length vch \<le> 1 \<or> vch ! (length vch - 2) AND 0x80 = 0)
      then Inl (Throw ''non-minimally encoded script number'')
      else set_vch vch)"

definition getint :: "int \<Rightarrow> int" where
  "getint m_value = (if m_value > 2 ^ 31 - 1 then 2 ^ 31 - 1 else if m_value < - (2 ^ 31) then - (2 ^ 31) else m_value)"

section \<open>The value of an encoding\<close>

lemma top_bit: "(b :: byte) AND 0x80 \<noteq> 0 \<longleftrightarrow> 128 \<le> unat b"
proof -
  have "b AND 0x80 \<noteq> 0 \<longleftrightarrow> bit b 7" using and_exp_eq_0_iff_not_bit [of b 7] by simp
  also have "\<dots> \<longleftrightarrow> bit (unat b) 7" by (simp add: bit_unsigned_iff)
  also have "\<dots> \<longleftrightarrow> 128 \<le> unat b"
  proof -
    have "unat b div 128 < 2" using byte_lt [of b] by (simp add: div_less_iff_less_mult)
    then have "unat b div 128 = 0 \<or> unat b div 128 = 1" by linarith
    then have "odd (unat b div 128) \<longleftrightarrow> unat b div 128 = 1" by (elim disjE) simp_all
    also have "\<dots> \<longleftrightarrow> 128 \<le> unat b" using byte_lt [of b] by (auto simp: div_nat_eqI)
    finally show ?thesis by (simp add: bit_iff_odd)
  qed
  finally show ?thesis .
qed

lemma low_bits: "(b :: byte) AND 0x7F = 0 \<longleftrightarrow> unat b mod 128 = 0"
proof -
  have "b AND 0x7F = take_bit 7 b" by (simp add: take_bit_eq_mask mask_eq_exp_minus_1)
  moreover have "unat (take_bit 7 b) = unat b mod 128" by (simp add: unsigned_take_bit_eq) (simp add: take_bit_eq_mod)
  ultimately show ?thesis by (metis unat_eq_zero)
qed

lemma or_push: "x < 2 ^ k \<Longrightarrow> x OR push_bit k y = x + 2 ^ k * y" for x y :: nat
proof -
  assume "x < 2 ^ k"
  then have d: "drop_bit k (x + 2 ^ k * y) = y" "take_bit k (x + 2 ^ k * y) = x" by (simp_all add: drop_bit_eq_div take_bit_eq_mod)
  have "take_bit k a OR push_bit k (drop_bit k a) = a" for a :: nat
  proof (rule bit_eqI)
    show "bit (take_bit k a OR push_bit k (drop_bit k a)) n = bit a n" for n by (cases "n < k") (simp_all add: bit_simps)
  qed
  from this [of "x + 2 ^ k * y"] show ?thesis unfolding d .
qed

lemma or_bytes_snoc: "or_bytes (vch @ [b]) = or_bytes vch OR push_bit (8 * length vch) (ucast b)"
  by (simp add: or_bytes_def enumerate_append_eq)

lemma or_bytes_value: "length vch \<le> 8 \<Longrightarrow> unat (or_bytes vch) = le_value vch"
proof (induction vch rule: rev_induct)
  case (snoc b vch)
  have l: "le_value vch < 2 ^ (8 * length vch)" using le_value_less [of vch] by (simp add: power_mult)
  have "le_value (vch @ [b]) < 2 ^ (8 * 8)" 
    using le_value_less [of "vch @ [b]"] snoc.prems power_increasing [of "length (vch @ [b])" 8 "256 :: nat"] by simp
  then have "2 ^ (8 * length vch) * unat b < 2 ^ 64" unfolding le_value_snoc by (simp add: power_mult)
  then have "unat (push_bit (8 * length vch) (ucast b) :: uint64) = push_bit (8 * length vch) (unat b)"
    by (simp add: unsigned_push_bit_eq unsigned_ucast_eq) (simp add: take_bit_eq_mod push_bit_eq_mult mult.commute mod_mult_right_eq)
  then show ?case using snoc or_push [OF l] by (simp add: or_bytes_snoc unsigned_or_eq le_value_snoc power_mult)
qed (simp add: or_bytes_def)

lemma abs_bytes_value: "le_value (abs_bytes x) = unat x"
proof (induction x rule: abs_bytes.induct)
  case (1 x)
  show ?case
  proof (cases "x = 0")
    case False
    have "x AND 0xFF = take_bit 8 x" by (simp add: take_bit_eq_mask mask_eq_exp_minus_1)
    then have "unat (ucast (x AND 0xFF) :: byte) = unat x mod 256" by (simp add: unsigned_ucast_eq unsigned_take_bit_eq) (simp add: take_bit_eq_mod)
    moreover have "unat (drop_bit 8 x) = unat x div 256" by (simp add: unat_drop_bit_eq) (simp add: drop_bit_eq_div)
    ultimately show ?thesis using 1 [OF False] False by (subst abs_bytes.simps) simp
  qed (simp add: abs_bytes.simps)
qed

text \<open>The value that a non-empty encoding of at most eight bytes stands for.\<close>

lemma low_byte: "unat ((b :: byte) AND 0x7F) = unat b mod 128"
proof -
  have "b AND 0x7F = take_bit 7 b" by (simp add: take_bit_eq_mask mask_eq_exp_minus_1)
  then show ?thesis by (simp add: unsigned_take_bit_eq) (simp add: take_bit_eq_mod)
qed

lemma sint_small: "unat w < 2 ^ 63 \<Longrightarrow> sint (w :: uint64) = int (unat w)"
proof -
  assume "unat w < 2 ^ 63"
  then have "uint w < 2 ^ 63" by (metis of_nat_less_iff of_nat_numeral of_nat_power uint_nat)
  moreover have "- (2 ^ 63) \<le> uint w" by (rule order_trans [OF _ uint_ge_0]) simp
  ultimately show ?thesis using signed_take_bit_int_eq_self [of 63 "uint w"] by (simp add: sint_uint)
qed

lemma clear_sign:
  assumes "length xs \<le> 7"
  shows "or_bytes (xs @ [b]) AND NOT (push_bit (8 * length xs) 0x80) = or_bytes (xs @ [b AND 0x7F])"
proof (rule bit_word_eqI)
  fix n assume n: "n < LENGTH(64)"
  have l: "unat (or_bytes xs) < 2 ^ (8 * length xs)" using le_value_less [of xs] or_bytes_value [of xs] assms by (simp add: power_mult)
  have hi: "\<not> bit (or_bytes xs) m" if "8 * length xs \<le> m" for m
  proof -
    have "unat (or_bytes xs) < 2 ^ m" using l that by (meson less_le_trans one_le_numeral power_increasing)
    then have "\<not> bit (unat (or_bytes xs)) m" by (simp add: bit_iff_odd)
    then show ?thesis by (simp add: bit_unsigned_iff)
  qed
  have "bit (0x7F :: byte) m \<longleftrightarrow> m < 7" for m using bit_mask_iff [where 'a = byte, of 7 m] by (auto simp: mask_eq_exp_minus_1)
  moreover have "bit (0x80 :: uint64) m \<longleftrightarrow> m = 7" for m using bit_exp_iff [where 'a = uint64, of 7 m] by auto
  ultimately show "bit (or_bytes (xs @ [b]) AND NOT (push_bit (8 * length xs) 0x80)) n = bit (or_bytes (xs @ [b AND 0x7F])) n"
    using n hi bit_imp_le_length [of b "n - 8 * length xs"] by (auto simp: or_bytes_snoc bit_simps)
qed

definition num_value :: "bytes \<Rightarrow> byte \<Rightarrow> int" where
  "num_value xs b = (if 128 \<le> unat b then - 1 else 1) * (int (le_value xs) + 256 ^ length xs * int (unat b mod 128))"

lemma num_bound: "le_value xs + 256 ^ length xs * (unat b mod 128) < 256 ^ length xs * 128"
proof -
  have "256 ^ length xs * Suc (unat b mod 128) \<le> 256 ^ length xs * 128" by (intro mult_le_mono2) (simp add: Suc_le_eq)
  then show ?thesis using le_value_less [of xs] unfolding mult_Suc_right by linarith
qed

lemma set_vch_value:
  assumes "length xs \<le> 7"
  shows "set_vch (xs @ [b]) = Inr (num_value xs b)"
proof -
  have p: "(256 :: nat) ^ length xs * 128 \<le> 2 ^ 63" using power_increasing [of "length xs" 7 "256 :: nat"] assms by simp
  have "length (xs @ [b]) \<noteq> length ([0, 0, 0, 0, 0, 0, 0, 128, 128] :: bytes)" using assms by simp
  then have ne: "xs @ [b] \<noteq> [0, 0, 0, 0, 0, 0, 0, 128, 128]" by metis
  have v: "unat (or_bytes (xs @ [c])) = le_value xs + 256 ^ length xs * unat c" for c using or_bytes_value [of "xs @ [c]"] assms by (simp add: le_value_snoc)
  have "sint (or_bytes (xs @ [b AND 0x7F])) = int (le_value xs + 256 ^ length xs * (unat b mod 128))"
    using sint_small [of "or_bytes (xs @ [b AND 0x7F])"] num_bound [of xs b] p by (simp add: v low_byte)
  moreover have "sint (or_bytes (xs @ [b])) = int (le_value xs + 256 ^ length xs * (unat b mod 128))" if "\<not> 128 \<le> unat b"
    using sint_small [of "or_bytes (xs @ [b])"] num_bound [of xs b] p that by (simp add: v)
  ultimately show ?thesis unfolding set_vch_def if_not_P [OF ne] using assms by (simp add: clear_sign top_bit num_value_def Let_def)
qed

section \<open>Minimal encodings\<close>

text \<open>The bytes of a number without leading zeros.\<close>

lemma abs_bytes_last: "abs_bytes x \<noteq> [] \<Longrightarrow> last (abs_bytes x) \<noteq> 0"
proof (induction x rule: abs_bytes.induct)
  case (1 x)
  have x: "x \<noteq> 0" using 1(2) by (auto simp: abs_bytes.simps)
  show ?case
  proof (cases "abs_bytes (drop_bit 8 x) = []")
    case True
    then have "le_value (abs_bytes x) = unat (last (abs_bytes x))" using x by (subst (1 2) abs_bytes.simps) simp
    then show ?thesis using x by (simp add: abs_bytes_value unat_eq_0) (metis unat_eq_zero)
  qed (use 1 x in \<open>subst abs_bytes.simps, simp\<close>)
qed

lemma abs_bytes_length: "length (abs_bytes x) \<le> 8"
proof (cases "abs_bytes x" rule: rev_cases)
  case (snoc ys l)
  have "0 < unat l" using abs_bytes_last [of x] snoc by (simp add: unat_gt_0)
  then have "256 ^ length ys * 1 \<le> le_value (abs_bytes x)" unfolding snoc le_value_snoc by (intro trans_le_add2 mult_le_mono2) simp
  also have "\<dots> < 2 ^ 64" using unsigned_less [of x] by (simp add: abs_bytes_value)
  finally have "(256 :: nat) ^ length ys < 256 ^ 8" by simp
  then show ?thesis using power_less_imp_less_exp [of "256 :: nat" "length ys" 8] snoc by simp
qed simp

lemma serialize_max: "length (serialize n) \<le> 9"
  using abs_bytes_length [of "word_of_int n"] abs_bytes_length [of "- word_of_int n"] by (auto simp: serialize_def Let_def INT64_MIN_def)

lemma le_value_zero: "le_value xs = 0 \<Longrightarrow> xs \<noteq> [] \<Longrightarrow> last xs = 0"
  by (induction xs rule: rev_induct) (auto simp: le_value_snoc unat_eq_0)

lemma le_value_canonical: "le_value xs = le_value ys \<Longrightarrow> (xs \<noteq> [] \<longrightarrow> last xs \<noteq> 0) \<Longrightarrow> (ys \<noteq> [] \<longrightarrow> last ys \<noteq> 0) \<Longrightarrow> xs = ys"
proof (induction xs arbitrary: ys)
  case Nil
  then show ?case using le_value_zero [of ys] by fastforce
next
  case (Cons x xs)
  show ?case
  proof (cases ys)
    case Nil
    then show ?thesis using Cons.prems le_value_zero [of "x # xs"] by fastforce
  next
    case y: (Cons y ys')
    have "unat x mod 256 = unat x" "unat y mod 256 = unat y" using byte_lt [of x] byte_lt [of y] by simp_all
    then have "unat x = unat y" using arg_cong [OF Cons.prems(1), of "\<lambda>n. n mod 256"] y by simp
    moreover then have "le_value xs = le_value ys'" using Cons.prems(1) y by simp
    ultimately show ?thesis using Cons.IH [of ys'] Cons.prems(2,3) y by (auto simp: word_unat_eq_iff split: if_splits)
  qed
qed

lemma set_sign: "128 \<le> unat b \<Longrightarrow> ((b :: byte) AND 0x7F) OR 0x80 = b"
proof (rule bit_word_eqI)
  fix n assume b: "128 \<le> unat b" and n: "n < LENGTH(8)"
  have "bit b 7" using b top_bit [of b] and_exp_eq_0_iff_not_bit [of b 7] by simp
  moreover have "bit (0x7F :: byte) n \<longleftrightarrow> n < 7" "bit (0x80 :: byte) n \<longleftrightarrow> n = 7"
    using bit_mask_iff [where 'a = byte, of 7 n] bit_exp_iff [where 'a = byte, of 7 n] by (auto simp: mask_eq_exp_minus_1)
  ultimately show "bit ((b AND 0x7F) OR 0x80) n = bit b n" using n by (auto simp: bit_simps less_Suc_eq)
qed

text \<open>The two shapes of a minimal encoding: a last byte with low bits, or a last byte that holds only the sign after a byte with its highest bit set.\<close>

lemma serialize_shape:
  assumes n: "n \<noteq> 0" "\<bar>n\<bar> < 2 ^ 63" and xs: "n = num_value xs b"
    and m: "unat b mod 128 \<noteq> 0 \<or> xs \<noteq> [] \<and> 128 \<le> unat (last xs)" "length xs \<le> 7"
  shows "serialize n = xs @ [b]"
proof -
  let ?x = "word_of_int \<bar>n\<bar> :: uint64"
  have a: "(if n < 0 then - n else n) = \<bar>n\<bar>" by simp
  let ?A = "le_value xs + 256 ^ length xs * (unat b mod 128)"
  have A: "n = (if 128 \<le> unat b then - 1 else 1) * int ?A" using xs by (simp add: num_value_def)
  then have sg: "n < 0 \<longleftrightarrow> 128 \<le> unat b" and ab: "\<bar>n\<bar> = int ?A" using n(1) by (auto simp del: of_nat_add of_nat_mult)
  have "?A < 2 ^ 64" using n(2) unfolding ab by (simp del: of_nat_add of_nat_mult)
  then have v: "unat ?x = ?A" unfolding ab by (simp add: unat_of_nat del: of_nat_add of_nat_mult)
  have "n \<noteq> INT64_MIN" using n(2) by (auto simp: INT64_MIN_def)
  then have S: "serialize n = (if last (abs_bytes ?x) AND 0x80 \<noteq> 0 then abs_bytes ?x @ [if n < 0 then 0x80 else 0] else if n < 0 then butlast (abs_bytes ?x) @ [last (abs_bytes ?x) OR 0x80] else abs_bytes ?x)"
    using n(1) unfolding serialize_def a by (simp add: Let_def)
  show ?thesis
  proof (cases "unat b mod 128 = 0")
    case True
    then have "abs_bytes ?x = xs" using v m by (intro le_value_canonical) (auto simp: abs_bytes_value abs_bytes_last)
    moreover have "b = (if n < 0 then 0x80 else 0)" using True sg byte_lt [of b] by (auto simp: word_unat_eq_iff)
    ultimately show ?thesis using True m S by (simp add: top_bit)
  next
    case False
    then have "abs_bytes ?x = xs @ [b AND 0x7F]" using v by (intro le_value_canonical) (auto simp: abs_bytes_value abs_bytes_last le_value_snoc low_byte low_bits)
    moreover have "\<not> 128 \<le> unat (b AND 0x7F)" by (simp add: low_byte not_le)
    moreover have "(b AND 0x7F) OR 0x80 = b" if "128 \<le> unat b" using set_sign [OF that] .
    moreover have "b AND 0x7F = b" if "\<not> 128 \<le> unat b" using that by (simp add: word_unat_eq_iff low_byte)
    ultimately show ?thesis using S sg by (auto simp: top_bit)
  qed
qed

lemma shape_exists:
  assumes n: "n \<noteq> 0" "\<bar>n\<bar> < 256 ^ k * 128" "k \<le> 7"
  obtains xs b where "n = num_value xs b" "unat b mod 128 \<noteq> 0 \<or> xs \<noteq> [] \<and> 128 \<le> unat (last xs)" "length xs \<le> k"
proof -
  let ?x = "word_of_int \<bar>n\<bar> :: uint64" and ?s = "if n < 0 then 0x80 else 0 :: byte"
  have p: "(256 :: int) ^ k * 128 \<le> 2 ^ 63" using power_increasing [of k 7 "256 :: int"] n(3) by simp
  have "\<bar>n\<bar> < 2 ^ 64" using n(2) p by simp
  then have x: "int (unat ?x) = \<bar>n\<bar>" by (simp add: uint_word_of_int)
  have "abs_bytes ?x \<noteq> []"
  proof
    assume "abs_bytes ?x = []"
    then have "int (unat ?x) = 0" using abs_bytes_value [of ?x] by simp
    then show False using x n(1) by linarith
  qed
  then obtain ys l where r: "abs_bytes ?x = ys @ [l]" by (metis rev_exhaust)
  have l: "l \<noteq> 0" using abs_bytes_last [of ?x] r by simp
  have v: "\<bar>n\<bar> = int (le_value ys) + 256 ^ length ys * int (unat l)"
  proof -
    have "int (le_value (abs_bytes ?x)) = \<bar>n\<bar>" using x by (simp only: abs_bytes_value)
    then show ?thesis unfolding r le_value_snoc by (simp only: of_nat_add of_nat_mult of_nat_power of_nat_numeral)
  qed
  have b: "256 ^ length ys * int (unat l) < 256 ^ k * 128" using v n(2) by linarith
  have "0 < unat l" using l by (simp add: unat_gt_0)
  then have "1 \<le> int (unat l)" by linarith
  then have "(256 :: int) ^ length ys * 1 \<le> 256 ^ length ys * int (unat l)" by (intro mult_left_mono) simp_all
  then have "(256 :: int) ^ length ys < 256 ^ Suc k" using b zero_less_power [of "256 :: int" k] unfolding power_Suc mult_1_right by linarith
  then have lk: "length ys \<le> k" using power_less_imp_less_exp [of "256 :: int" "length ys" "Suc k"] by simp
  have sv: "n = (if n < 0 then - 1 else 1) * (int (le_value ys) + 256 ^ length ys * int (unat l))" unfolding v [symmetric] by simp
  show thesis
  proof (cases "128 \<le> unat l")
    case True
    have "length ys \<noteq> k"
    proof
      assume "length ys = k"
      then have "int (unat l) < 128" using b by simp
      then show False using True by linarith
    qed
    moreover have "n = num_value (ys @ [l]) ?s" by (rule trans [OF sv]) (simp add: num_value_def le_value_snoc)
    ultimately show thesis using lk True by (intro that [of "ys @ [l]" ?s]) simp_all
  next
    case False
    let ?b = "if n < 0 then l OR 0x80 else l"
    have "unat (l OR 0x80) = unat l + 128" using False or_push [of "unat l" 7 1] by (simp add: unsigned_or_eq)
    moreover from this have "n = num_value ys ?b" by (intro trans [OF sv]) (use False in \<open>simp add: num_value_def\<close>)
    ultimately show thesis using lk False l by (intro that [of ys ?b]) (auto simp: unat_eq_0)
  qed
qed

lemma serialize_ok:
  assumes "n \<noteq> 0" "\<bar>n\<bar> < 256 ^ k * 128" "k \<le> 7"
  obtains xs b where "serialize n = xs @ [b]" "n = num_value xs b" "unat b mod 128 \<noteq> 0 \<or> xs \<noteq> [] \<and> 128 \<le> unat (last xs)" "length xs \<le> k"
proof -
  obtain xs b where x: "n = num_value xs b" "unat b mod 128 \<noteq> 0 \<or> xs \<noteq> [] \<and> 128 \<le> unat (last xs)" "length xs \<le> k" by (rule shape_exists [OF assms])
  have "(256 :: int) ^ k * 128 \<le> 2 ^ 63" using power_increasing [of k 7 "256 :: int"] assms(3) by simp
  then show thesis using serialize_shape [OF assms(1) _ x(1,2)] assms(2,3) x that by simp
qed

lemma serialize_length: "\<bar>n\<bar> < 256 ^ k * 128 \<Longrightarrow> k \<le> 7 \<Longrightarrow> length (serialize n) \<le> Suc k"
  by (cases "n = 0") (simp add: serialize_def, metis serialize_ok length_append_singleton Suc_le_mono)

lemma CScriptNum_bound: "CScriptNum vch fm k = Inr n \<Longrightarrow> k \<le> 8 \<Longrightarrow> 0 < k \<Longrightarrow> \<bar>n\<bar> < 256 ^ (k - 1) * 128"
proof (cases vch rule: rev_cases)
  case (snoc xs b)
  assume c: "CScriptNum vch fm k = Inr n" and k: "k \<le> 8" "0 < k"
  have l: "length xs \<le> k - 1" using c snoc k by (auto simp: CScriptNum_def split: if_splits)
  then have "n = num_value xs b" using c snoc k set_vch_value [of xs b] by (auto simp: CScriptNum_def split: if_splits)
  then have "\<bar>n\<bar> = int (le_value xs + 256 ^ length xs * (unat b mod 128))" by (simp add: num_value_def abs_mult)
  also have "\<dots> < int (256 ^ length xs * 128)" using num_bound [of xs b] by (simp only: of_nat_less_iff)
  also have "\<dots> \<le> 256 ^ (k - 1) * 128" using power_increasing [OF l, of "256 :: int"] by simp
  finally show ?thesis .
qed (auto simp: CScriptNum_def set_vch_def)

lemma CScriptNum_serialize:
  assumes "\<bar>n\<bar> < 256 ^ k * 128" "k \<le> 7" "Suc k \<le> m"
  shows "CScriptNum (serialize n) fm m = Inr n"
proof (cases "n = 0")
  case False
  obtain xs b where s: "serialize n = xs @ [b]" "n = num_value xs b" "unat b mod 128 \<noteq> 0 \<or> xs \<noteq> [] \<and> 128 \<le> unat (last xs)" "length xs \<le> k"
    by (rule serialize_ok [OF False assms(1,2)])
  then have "\<not> (b AND 0x7F = 0 \<and> (length xs = 0 \<or> last xs AND 0x80 = 0))" using low_bits [of b] top_bit [of "last xs"] by auto
  then have "CScriptNum (xs @ [b]) fm m = set_vch (xs @ [b])" using s(4) assms(3) by (auto simp: CScriptNum_def nth_append last_conv_nth)
  then show ?thesis using set_vch_value [of xs b] s(1,2,4) assms(2) by simp
qed (simp add: serialize_def CScriptNum_def set_vch_def)

text \<open>C29: every 64-bit script number has exactly one minimal encoding, the one \<open>serialize\<close> produces: decoding with the minimality check accepts a byte string as
  the number exactly when it is that encoding.\<close>

theorem script_numbers_canonical:
  assumes "in_int64 n"
  shows "CScriptNum vch True 9 = Inr n \<longleftrightarrow> vch = serialize n"
proof
  assume c: "CScriptNum vch True 9 = Inr n"
  show "vch = serialize n"
  proof (cases "vch = [0, 0, 0, 0, 0, 0, 0, 128, 128]")
    case True
    then show ?thesis using c by (auto simp: CScriptNum_def set_vch_def serialize_def INT64_MIN_def split: if_splits)
  next
    case ne: False
    show ?thesis
    proof (cases vch rule: rev_cases)
      case (snoc xs b)
      have l: "length xs \<le> 7" using c ne unfolding CScriptNum_def set_vch_def if_not_P [OF ne] by (auto simp: snoc split: if_splits)
      have m: "unat b mod 128 \<noteq> 0 \<or> xs \<noteq> [] \<and> 128 \<le> unat (last xs)" using c snoc low_bits [of b] top_bit [of "last xs"]
        by (auto simp: CScriptNum_def nth_append last_conv_nth Suc_le_eq split: if_splits)
      have nv: "n = num_value xs b" using c snoc l set_vch_value [OF l] by (auto simp: CScriptNum_def split: if_splits)
      have "le_value xs + 256 ^ length xs * (unat b mod 128) \<noteq> 0" 
      proof
        assume z: "le_value xs + 256 ^ length xs * (unat b mod 128) = 0"
        then have "unat (last xs) = 0" if "xs \<noteq> []" using le_value_zero [of xs] that by simp
        then show False using m z by auto
      qed
      then have "n \<noteq> 0" unfolding nv num_value_def by (simp add: of_nat_eq_0_iff [where 'a = int, symmetric] del: of_nat_eq_0_iff)
      moreover have "\<bar>n\<bar> < 2 ^ 63" using CScriptNum_bound [of vch True 8 n] c snoc l by (auto simp: CScriptNum_def split: if_splits)
      ultimately show ?thesis using serialize_shape [OF _ _ nv m l] snoc by simp
    qed (use c in \<open>simp add: CScriptNum_def set_vch_def serialize_def\<close>)
  qed
next
  assume v: "vch = serialize n"
  show "CScriptNum vch True 9 = Inr n"
  proof (cases "n = 0 \<or> n = INT64_MIN")
    case True
    then show ?thesis unfolding v by (auto simp: serialize_def CScriptNum_def set_vch_def INT64_MIN_def low_bits)
  next
    case False
    then have "\<bar>n\<bar> < 256 ^ 7 * 128" using assms by (auto simp: in_int64_def INT64_MIN_def)
    then show ?thesis unfolding v by (rule CScriptNum_serialize) simp_all
  qed
qed

theorem script_numbers_canonical_witness: "CScriptNum [0xFF, 0x80] True 9 = Inr (- 255) \<longleftrightarrow> [0xFF, 0x80] = serialize (- 255)"
  by (rule script_numbers_canonical) (simp add: in_int64_def)

end
