(* ===== verification/Script.thy ===== *)
theory Script
  imports ScriptNum TxTypes
begin

text \<open>
  Scripts as byte strings: the opcodes and the members of \<open>CScript\<close> of \<open>script/script.h\<close> and \<open>script/script.cpp\<close>. An opcode is the byte that stands for it.
  An iterator into a script is the list of the bytes from it to the end.
\<close>

unbundle bit_operations_syntax

section \<open>Opcodes\<close>

abbreviation OP_0 :: byte where "OP_0 \<equiv> 0x00"
abbreviation OP_FALSE :: byte where "OP_FALSE \<equiv> 0x00"
abbreviation OP_PUSHDATA1 :: byte where "OP_PUSHDATA1 \<equiv> 0x4C"
abbreviation OP_PUSHDATA2 :: byte where "OP_PUSHDATA2 \<equiv> 0x4D"
abbreviation OP_PUSHDATA4 :: byte where "OP_PUSHDATA4 \<equiv> 0x4E"
abbreviation OP_1NEGATE :: byte where "OP_1NEGATE \<equiv> 0x4F"
abbreviation OP_RESERVED :: byte where "OP_RESERVED \<equiv> 0x50"
abbreviation OP_1 :: byte where "OP_1 \<equiv> 0x51"
abbreviation OP_TRUE :: byte where "OP_TRUE \<equiv> 0x51"
abbreviation OP_2 :: byte where "OP_2 \<equiv> 0x52"
abbreviation OP_3 :: byte where "OP_3 \<equiv> 0x53"
abbreviation OP_4 :: byte where "OP_4 \<equiv> 0x54"
abbreviation OP_5 :: byte where "OP_5 \<equiv> 0x55"
abbreviation OP_6 :: byte where "OP_6 \<equiv> 0x56"
abbreviation OP_7 :: byte where "OP_7 \<equiv> 0x57"
abbreviation OP_8 :: byte where "OP_8 \<equiv> 0x58"
abbreviation OP_9 :: byte where "OP_9 \<equiv> 0x59"
abbreviation OP_10 :: byte where "OP_10 \<equiv> 0x5A"
abbreviation OP_11 :: byte where "OP_11 \<equiv> 0x5B"
abbreviation OP_12 :: byte where "OP_12 \<equiv> 0x5C"
abbreviation OP_13 :: byte where "OP_13 \<equiv> 0x5D"
abbreviation OP_14 :: byte where "OP_14 \<equiv> 0x5E"
abbreviation OP_15 :: byte where "OP_15 \<equiv> 0x5F"
abbreviation OP_16 :: byte where "OP_16 \<equiv> 0x60"
abbreviation OP_NOP :: byte where "OP_NOP \<equiv> 0x61"
abbreviation OP_VER :: byte where "OP_VER \<equiv> 0x62"
abbreviation OP_IF :: byte where "OP_IF \<equiv> 0x63"
abbreviation OP_NOTIF :: byte where "OP_NOTIF \<equiv> 0x64"
abbreviation OP_VERIF :: byte where "OP_VERIF \<equiv> 0x65"
abbreviation OP_VERNOTIF :: byte where "OP_VERNOTIF \<equiv> 0x66"
abbreviation OP_ELSE :: byte where "OP_ELSE \<equiv> 0x67"
abbreviation OP_ENDIF :: byte where "OP_ENDIF \<equiv> 0x68"
abbreviation OP_VERIFY :: byte where "OP_VERIFY \<equiv> 0x69"
abbreviation OP_TOALTSTACK :: byte where "OP_TOALTSTACK \<equiv> 0x6B"
abbreviation OP_FROMALTSTACK :: byte where "OP_FROMALTSTACK \<equiv> 0x6C"
abbreviation OP_2DROP :: byte where "OP_2DROP \<equiv> 0x6D"
abbreviation OP_2DUP :: byte where "OP_2DUP \<equiv> 0x6E"
abbreviation OP_3DUP :: byte where "OP_3DUP \<equiv> 0x6F"
abbreviation OP_2OVER :: byte where "OP_2OVER \<equiv> 0x70"
abbreviation OP_2ROT :: byte where "OP_2ROT \<equiv> 0x71"
abbreviation OP_2SWAP :: byte where "OP_2SWAP \<equiv> 0x72"
abbreviation OP_IFDUP :: byte where "OP_IFDUP \<equiv> 0x73"
abbreviation OP_DEPTH :: byte where "OP_DEPTH \<equiv> 0x74"
abbreviation OP_DROP :: byte where "OP_DROP \<equiv> 0x75"
abbreviation OP_DUP :: byte where "OP_DUP \<equiv> 0x76"
abbreviation OP_NIP :: byte where "OP_NIP \<equiv> 0x77"
abbreviation OP_OVER :: byte where "OP_OVER \<equiv> 0x78"
abbreviation OP_PICK :: byte where "OP_PICK \<equiv> 0x79"
abbreviation OP_ROLL :: byte where "OP_ROLL \<equiv> 0x7A"
abbreviation OP_ROT :: byte where "OP_ROT \<equiv> 0x7B"
abbreviation OP_SWAP :: byte where "OP_SWAP \<equiv> 0x7C"
abbreviation OP_TUCK :: byte where "OP_TUCK \<equiv> 0x7D"
abbreviation OP_CAT :: byte where "OP_CAT \<equiv> 0x7E"
abbreviation OP_SUBSTR :: byte where "OP_SUBSTR \<equiv> 0x7F"
abbreviation OP_LEFT :: byte where "OP_LEFT \<equiv> 0x80"
abbreviation OP_RIGHT :: byte where "OP_RIGHT \<equiv> 0x81"
abbreviation OP_SIZE :: byte where "OP_SIZE \<equiv> 0x82"
abbreviation OP_INVERT :: byte where "OP_INVERT \<equiv> 0x83"
abbreviation OP_AND :: byte where "OP_AND \<equiv> 0x84"
abbreviation OP_OR :: byte where "OP_OR \<equiv> 0x85"
abbreviation OP_XOR :: byte where "OP_XOR \<equiv> 0x86"
abbreviation OP_EQUAL :: byte where "OP_EQUAL \<equiv> 0x87"
abbreviation OP_EQUALVERIFY :: byte where "OP_EQUALVERIFY \<equiv> 0x88"
abbreviation OP_RESERVED1 :: byte where "OP_RESERVED1 \<equiv> 0x89"
abbreviation OP_RESERVED2 :: byte where "OP_RESERVED2 \<equiv> 0x8A"
abbreviation OP_1ADD :: byte where "OP_1ADD \<equiv> 0x8B"
abbreviation OP_1SUB :: byte where "OP_1SUB \<equiv> 0x8C"
abbreviation OP_2MUL :: byte where "OP_2MUL \<equiv> 0x8D"
abbreviation OP_2DIV :: byte where "OP_2DIV \<equiv> 0x8E"
abbreviation OP_NEGATE :: byte where "OP_NEGATE \<equiv> 0x8F"
abbreviation OP_ABS :: byte where "OP_ABS \<equiv> 0x90"
abbreviation OP_NOT :: byte where "OP_NOT \<equiv> 0x91"
abbreviation OP_0NOTEQUAL :: byte where "OP_0NOTEQUAL \<equiv> 0x92"
abbreviation OP_ADD :: byte where "OP_ADD \<equiv> 0x93"
abbreviation OP_SUB :: byte where "OP_SUB \<equiv> 0x94"
abbreviation OP_MUL :: byte where "OP_MUL \<equiv> 0x95"
abbreviation OP_DIV :: byte where "OP_DIV \<equiv> 0x96"
abbreviation OP_MOD :: byte where "OP_MOD \<equiv> 0x97"
abbreviation OP_LSHIFT :: byte where "OP_LSHIFT \<equiv> 0x98"
abbreviation OP_RSHIFT :: byte where "OP_RSHIFT \<equiv> 0x99"
abbreviation OP_BOOLAND :: byte where "OP_BOOLAND \<equiv> 0x9A"
abbreviation OP_BOOLOR :: byte where "OP_BOOLOR \<equiv> 0x9B"
abbreviation OP_NUMEQUAL :: byte where "OP_NUMEQUAL \<equiv> 0x9C"
abbreviation OP_NUMEQUALVERIFY :: byte where "OP_NUMEQUALVERIFY \<equiv> 0x9D"
abbreviation OP_NUMNOTEQUAL :: byte where "OP_NUMNOTEQUAL \<equiv> 0x9E"
abbreviation OP_LESSTHAN :: byte where "OP_LESSTHAN \<equiv> 0x9F"
abbreviation OP_GREATERTHAN :: byte where "OP_GREATERTHAN \<equiv> 0xA0"
abbreviation OP_LESSTHANOREQUAL :: byte where "OP_LESSTHANOREQUAL \<equiv> 0xA1"
abbreviation OP_GREATERTHANOREQUAL :: byte where "OP_GREATERTHANOREQUAL \<equiv> 0xA2"
abbreviation OP_MIN :: byte where "OP_MIN \<equiv> 0xA3"
abbreviation OP_MAX :: byte where "OP_MAX \<equiv> 0xA4"
abbreviation OP_WITHIN :: byte where "OP_WITHIN \<equiv> 0xA5"
abbreviation OP_RIPEMD160 :: byte where "OP_RIPEMD160 \<equiv> 0xA6"
abbreviation OP_SHA1 :: byte where "OP_SHA1 \<equiv> 0xA7"
abbreviation OP_SHA256 :: byte where "OP_SHA256 \<equiv> 0xA8"
abbreviation OP_HASH160 :: byte where "OP_HASH160 \<equiv> 0xA9"
abbreviation OP_HASH256 :: byte where "OP_HASH256 \<equiv> 0xAA"
abbreviation OP_CODESEPARATOR :: byte where "OP_CODESEPARATOR \<equiv> 0xAB"
abbreviation OP_CHECKSIG :: byte where "OP_CHECKSIG \<equiv> 0xAC"
abbreviation OP_CHECKSIGVERIFY :: byte where "OP_CHECKSIGVERIFY \<equiv> 0xAD"
abbreviation OP_CHECKMULTISIG :: byte where "OP_CHECKMULTISIG \<equiv> 0xAE"
abbreviation OP_CHECKMULTISIGVERIFY :: byte where "OP_CHECKMULTISIGVERIFY \<equiv> 0xAF"
abbreviation OP_NOP1 :: byte where "OP_NOP1 \<equiv> 0xB0"
abbreviation OP_NOP2 :: byte where "OP_NOP2 \<equiv> 0xB1"
abbreviation OP_CHECKLOCKTIMEVERIFY :: byte where "OP_CHECKLOCKTIMEVERIFY \<equiv> 0xB1"
abbreviation OP_NOP3 :: byte where "OP_NOP3 \<equiv> 0xB2"
abbreviation OP_NOP4 :: byte where "OP_NOP4 \<equiv> 0xB3"
abbreviation OP_NOP5 :: byte where "OP_NOP5 \<equiv> 0xB4"
abbreviation OP_CHECKBLOCKATHEIGHT :: byte where "OP_CHECKBLOCKATHEIGHT \<equiv> 0xB4"
abbreviation OP_NOP6 :: byte where "OP_NOP6 \<equiv> 0xB5"
abbreviation OP_NOP7 :: byte where "OP_NOP7 \<equiv> 0xB6"
abbreviation OP_NOP8 :: byte where "OP_NOP8 \<equiv> 0xB7"
abbreviation OP_NOP9 :: byte where "OP_NOP9 \<equiv> 0xB8"
abbreviation OP_NOP10 :: byte where "OP_NOP10 \<equiv> 0xB9"
abbreviation OP_SMALLDATA :: byte where "OP_SMALLDATA \<equiv> 0xF9"
abbreviation OP_SMALLINTEGER :: byte where "OP_SMALLINTEGER \<equiv> 0xFA"
abbreviation OP_PUBKEYS :: byte where "OP_PUBKEYS \<equiv> 0xFB"
abbreviation OP_PUBKEYHASH :: byte where "OP_PUBKEYHASH \<equiv> 0xFD"
abbreviation OP_PUBKEY :: byte where "OP_PUBKEY \<equiv> 0xFE"
abbreviation OP_INVALIDOPCODE :: byte where "OP_INVALIDOPCODE \<equiv> 0xFF"

definition DecodeOP_N :: "byte \<Rightarrow> int result" where
  "DecodeOP_N opcode = (if opcode = OP_0 then Inr 0 else if \<not> (opcode \<ge> OP_1 \<and> opcode \<le> OP_16) then Inl Assert else Inr (uint opcode - uint (OP_1 - 1)))"

definition EncodeOP_N :: "int \<Rightarrow> byte result" where
  "EncodeOP_N n = (if \<not> (n \<ge> 0 \<and> n \<le> 16) then Inl Assert else if n = 0 then Inr OP_0 else Inr (OP_1 + word_of_int n - 1))"

section \<open>Writing scripts\<close>

definition push_data :: "bytes \<Rightarrow> CScript" where
  "push_data b =
     (if length b < 0x4C then [word_of_nat (length b)]
      else if length b \<le> 0xFF then [OP_PUSHDATA1, word_of_nat (length b)]
      else if length b \<le> 0xFFFF then OP_PUSHDATA2 # write_le 2 (length b)
      else OP_PUSHDATA4 # write_le 4 (length b)) @ b"

definition push_int64 :: "int \<Rightarrow> CScript" where
  "push_int64 n =
     (if n = - 1 \<or> (n \<ge> 1 \<and> n \<le> 16) then [word_of_int (n + uint (OP_1 - 1))]
      else if n = 0 then [OP_0]
      else push_data (serialize n))"

section \<open>Reading scripts\<close>

definition GetOp2 :: "CScript \<Rightarrow> (byte \<times> bytes \<times> CScript) option" where
  "GetOp2 pc = (case pc of
     [] \<Rightarrow> None
   | opcode # pc \<Rightarrow>
       if opcode \<le> OP_PUSHDATA4 then
         Option.bind
           (if opcode < OP_PUSHDATA1 then Some (unat opcode, pc)
            else if opcode = OP_PUSHDATA1 then if length pc < 1 then None else Some (unat (hd pc), tl pc)
            else if opcode = OP_PUSHDATA2 then if length pc < 2 then None else Some (le_value (take 2 pc), drop 2 pc)
            else if length pc < 4 then None else Some (le_value (take 4 pc), drop 4 pc))
           (\<lambda>(nSize, pc). if length pc < nSize then None else Some (opcode, take nSize pc, drop nSize pc))
       else Some (opcode, [], pc))"

lemma GetOp2_shorter: "GetOp2 pc = Some (opcode, vch, pc') \<Longrightarrow> length pc' < length pc"
  by (auto simp: GetOp2_def bind_eq_Some_conv split: list.splits if_splits)

lemma GetOp2_data_length: "GetOp2 pc = Some (opcode, vch, pc') \<Longrightarrow> length vch \<le> length pc"
  by (auto simp: GetOp2_def bind_eq_Some_conv split: list.splits if_splits)

function sigop_loop :: "bool \<Rightarrow> byte \<Rightarrow> nat \<Rightarrow> CScript \<Rightarrow> nat result" where
  "sigop_loop fAccurate lastOpcode n pc = (case GetOp2 pc of
     None \<Rightarrow> Inr n
   | Some (opcode, _, pc') \<Rightarrow>
       bindR (if opcode = OP_CHECKSIG \<or> opcode = OP_CHECKSIGVERIFY then Inr (n + 1)
              else if opcode = OP_CHECKMULTISIG \<or> opcode = OP_CHECKMULTISIGVERIFY
              then if fAccurate \<and> lastOpcode \<ge> OP_1 \<and> lastOpcode \<le> OP_16 then bindR (DecodeOP_N lastOpcode) (\<lambda>k. Inr (n + nat k)) else Inr (n + 20)
              else Inr n) (\<lambda>n. sigop_loop fAccurate opcode n pc'))"
  by pat_completeness auto
termination
  by (relation "measure (\<lambda>(a, o', n, pc). length pc)") (auto dest: GetOp2_shorter)

declare sigop_loop.simps [simp del]

definition GetSigOpCount :: "bool \<Rightarrow> CScript \<Rightarrow> nat result" where
  "GetSigOpCount fAccurate script = sigop_loop fAccurate OP_INVALIDOPCODE 0 script"

definition IsPayToPublicKeyHash :: "CScript \<Rightarrow> bool" where
  "IsPayToPublicKeyHash s \<longleftrightarrow>
     (length s = 25 \<and> s ! 0 = OP_DUP \<and> s ! 1 = OP_HASH160 \<and> s ! 2 = 0x14 \<and> s ! 23 = OP_EQUALVERIFY \<and> s ! 24 = OP_CHECKSIG)
     \<or> (length s > 25 \<and> length s < 65 \<and> s ! 0 = OP_DUP \<and> s ! 1 = OP_HASH160 \<and> s ! 2 = 0x14 \<and> s ! 23 = OP_EQUALVERIFY \<and> s ! 24 = OP_CHECKSIG
        \<and> s ! (length s - 1) = OP_CHECKBLOCKATHEIGHT)"

definition IsPayToScriptHash :: "CScript \<Rightarrow> bool" where
  "IsPayToScriptHash s \<longleftrightarrow>
     (length s = 23 \<and> s ! 0 = OP_HASH160 \<and> s ! 1 = 0x14 \<and> s ! 22 = OP_EQUAL)
     \<or> (length s > 23 \<and> length s < 63 \<and> s ! 0 = OP_HASH160 \<and> s ! 1 = 0x14 \<and> s ! 22 = OP_EQUAL \<and> s ! (length s - 1) = OP_CHECKBLOCKATHEIGHT)"

text \<open>The last item that a script of pushes leaves: the count is zero when the script does something else.\<close>

function last_push :: "bytes \<Rightarrow> CScript \<Rightarrow> bytes option" where
  "last_push data pc = (if pc = [] then Some data else (case GetOp2 pc of
     None \<Rightarrow> None
   | Some (opcode, data, pc') \<Rightarrow> if opcode > OP_16 then None else last_push data pc'))"
  by pat_completeness auto
termination
  by (relation "measure (\<lambda>(d, pc). length pc)") (auto dest: GetOp2_shorter)

declare last_push.simps [simp del]

definition GetSigOpCount_sig :: "CScript \<Rightarrow> CScript \<Rightarrow> nat result" where
  "GetSigOpCount_sig script sig =
     (if \<not> IsPayToScriptHash script then GetSigOpCount True script
      else (case last_push [] sig of None \<Rightarrow> Inr 0 | Some data \<Rightarrow> GetSigOpCount True data))"

function IsPushOnly :: "CScript \<Rightarrow> bool" where
  "IsPushOnly pc = (if pc = [] then True else (case GetOp2 pc of
     None \<Rightarrow> False
   | Some (opcode, _, pc') \<Rightarrow> if opcode > OP_16 then False else IsPushOnly pc'))"
  by pat_completeness auto
termination
  by (relation "measure length") (auto dest: GetOp2_shorter)

declare IsPushOnly.simps [simp del]

datatype ScriptType = UNKNOWN | P2PKH | P2SH

definition GetType :: "CScript \<Rightarrow> ScriptType" where
  "GetType s = (if IsPayToPublicKeyHash s then P2PKH else if IsPayToScriptHash s then P2SH else UNKNOWN)"

definition AddressHash :: "CScript \<Rightarrow> bytes" where
  "AddressHash s = (if IsPayToPublicKeyHash s then take 20 (drop 3 s) else if IsPayToScriptHash s then take 20 (drop 2 s) else replicate 20 0)"

section \<open>What is pushed is read\<close>

lemma GetOp2_other [simp]: "OP_PUSHDATA4 < opcode \<Longrightarrow> GetOp2 (opcode # pc) = Some (opcode, [], pc)"
proof -
  assume "OP_PUSHDATA4 < opcode"
  then have "\<not> opcode \<le> OP_PUSHDATA4" by (simp only: not_le)
  then show ?thesis by (simp add: GetOp2_def)
qed

text \<open>The opcode of a push.\<close>

definition push_opcode :: "bytes \<Rightarrow> byte" where
  "push_opcode b = (if length b < 0x4C then word_of_nat (length b) else if length b \<le> 0xFF then OP_PUSHDATA1 else if length b \<le> 0xFFFF then OP_PUSHDATA2 else OP_PUSHDATA4)"

lemma GetOp2_push [simp]: "length b < 2 ^ 32 \<Longrightarrow> GetOp2 (push_data b @ pc) = Some (push_opcode b, b, pc)"
proof -
  assume b: "length b < 2 ^ 32"
  consider "length b < 0x4C" | "0x4C \<le> length b" "length b \<le> 0xFF" | "0xFF < length b" "length b \<le> 0xFFFF" | "0xFFFF < length b" by linarith
  then show ?thesis
  proof cases
    case 1
    then have "unat (word_of_nat (length b) :: byte) = length b" by (simp add: unat_of_nat)
    moreover then have "(word_of_nat (length b) :: byte) < OP_PUSHDATA1" "(word_of_nat (length b) :: byte) \<le> OP_PUSHDATA4"
      using 1 by (simp_all add: word_less_nat_alt word_le_nat_alt)
    ultimately show ?thesis using 1 by (simp add: GetOp2_def push_data_def push_opcode_def)
  next
    case 2
    then have "unat (word_of_nat (length b) :: byte) = length b" by (simp add: unat_of_nat)
    then show ?thesis using 2 by (simp add: GetOp2_def push_data_def push_opcode_def)
  next
    case 3
    then show ?thesis by (simp add: GetOp2_def push_data_def push_opcode_def write_le_value del: write_le.simps)
  next
    case 4
    then show ?thesis using b by (simp add: GetOp2_def push_data_def push_opcode_def write_le_value del: write_le.simps)
  qed
qed

lemma push_opcode_le: "push_opcode b \<le> OP_PUSHDATA4"
proof (cases "length b < 0x4C")
  case True
  then have "unat (word_of_nat (length b) :: byte) = length b" by (simp add: unat_of_nat)
  then show ?thesis using True by (simp add: push_opcode_def word_le_nat_alt)
qed (simp add: push_opcode_def)

end
