(* ===== verification/Serialize.thy ===== *)
theory Serialize
  imports Bytes
begin

text \<open>
  The integers of \<open>serialize.h\<close> on a byte stream: fixed-width integers, compact sizes and variable-length integers. A stream that is written is the
  list of the bytes written; a stream that is read is the list of the bytes left.
\<close>

unbundle bit_operations_syntax

section \<open>Integer types\<close>

text \<open>The integer types the serializers are instantiated with, and the conversion of a value to the type. A shift of a signed value out of its range, which
  the language leaves open, is taken to wrap around.\<close>

datatype cint = U32 | I32 | U64

primrec bits_of :: "cint \<Rightarrow> nat" where
  "bits_of U32 = 32" | "bits_of I32 = 32" | "bits_of U64 = 64"

primrec cast_to :: "cint \<Rightarrow> int \<Rightarrow> int" where
  "cast_to U32 x = x mod 2 ^ 32"
| "cast_to I32 x = (x + 2 ^ 31) mod 2 ^ 32 - 2 ^ 31"
| "cast_to U64 x = x mod 2 ^ 64"

definition fits :: "cint \<Rightarrow> int \<Rightarrow> bool" where "fits I x \<longleftrightarrow> cast_to I x = x"

definition ser_uint32 :: "int \<Rightarrow> bytes" where "ser_uint32 x = write_le 4 (nat (x mod 2 ^ 32))"
definition ser_uint64 :: "int \<Rightarrow> bytes" where "ser_uint64 x = write_le 8 (nat (x mod 2 ^ 64))"

definition read_uint8 :: "bytes \<Rightarrow> (byte \<times> bytes) result" where
  "read_uint8 is = bindR (take_bytes 1 is) (\<lambda>(bs, is). Inr (hd bs, is))"
definition read_int32 :: "bytes \<Rightarrow> (int \<times> bytes) result" where
  "read_int32 is = bindR (read_le 4 is) (\<lambda>(x, is). Inr (cast_to I32 (int x), is))"
definition read_int64 :: "bytes \<Rightarrow> (int \<times> bytes) result" where
  "read_int64 is = bindR (read_le 8 is) (\<lambda>(x, is). Inr (wrap64 (int x), is))"

section \<open>Compact sizes\<close>

definition MAX_SERIALIZED_COMPACT_SIZE :: nat where "MAX_SERIALIZED_COMPACT_SIZE = 0x02000000"

definition GetSizeOfCompactSize :: "nat \<Rightarrow> nat" where
  "GetSizeOfCompactSize nSize = (if nSize < 253 then 1 else if nSize \<le> 0xFFFF then 3 else if nSize \<le> 0xFFFFFFFF then 5 else 9)"

definition WriteCompactSize :: "nat \<Rightarrow> bytes" where
  "WriteCompactSize nSize =
     (if nSize < 253 then write_le 1 nSize
      else if nSize \<le> 0xFFFF then write_le 1 253 @ write_le 2 nSize
      else if nSize \<le> 0xFFFFFFFF then write_le 1 254 @ write_le 4 nSize
      else write_le 1 255 @ write_le 8 nSize)"

definition ReadCompactSize :: "bytes \<Rightarrow> (nat \<times> bytes) result" where
  "ReadCompactSize is = bindR (read_le 1 is) (\<lambda>(chSize, is).
     bindR (if chSize < 253 then Inr (chSize, is)
            else if chSize = 253 then bindR (read_le 2 is) (\<lambda>(n, is). if n < 253 then Inl (Throw ''non-canonical ReadCompactSize()'') else Inr (n, is))
            else if chSize = 254 then bindR (read_le 4 is) (\<lambda>(n, is). if n < 0x10000 then Inl (Throw ''non-canonical ReadCompactSize()'') else Inr (n, is))
            else bindR (read_le 8 is) (\<lambda>(n, is). if n < 0x100000000 then Inl (Throw ''non-canonical ReadCompactSize()'') else Inr (n, is))) (\<lambda>(nSizeRet, is).
     if nSizeRet > MAX_SERIALIZED_COMPACT_SIZE then Inl (Throw ''ReadCompactSize(): size too large'') else Inr (nSizeRet, is)))"

section \<open>Variable-length integers\<close>

function GetSizeOfVarInt :: "int \<Rightarrow> nat" where
  "GetSizeOfVarInt n = (if n \<le> 0x7F then 1 else Suc (GetSizeOfVarInt (drop_bit 7 n - 1)))"
  by pat_completeness auto
termination
  by (relation "measure nat") (auto simp: drop_bit_eq_div)

declare GetSizeOfVarInt.simps [simp del]

text \<open>The digits, the lowest first, go to a buffer of fixed size.\<close>

function varint_tmp :: "nat \<Rightarrow> nat \<Rightarrow> int \<Rightarrow> bytes result" where
  "varint_tmp bufsize len n =
     (if len \<ge> bufsize then Inl Undefined
      else let d = word_of_int ((n AND 0x7F) OR (if len \<noteq> 0 then 0x80 else 0x00)) in
        if n \<le> 0x7F then Inr [d]
        else bindR (varint_tmp bufsize (len + 1) (drop_bit 7 n - 1)) (\<lambda>tmp. Inr (d # tmp)))"
  by pat_completeness auto
termination
  by (relation "measure (\<lambda>(bufsize, len, n). nat n)") (auto simp: drop_bit_eq_div)

declare varint_tmp.simps [simp del]

definition WriteVarInt :: "cint \<Rightarrow> int \<Rightarrow> bytes result" where
  "WriteVarInt I n = bindR (varint_tmp ((bits_of I + 6) div 7) 0 n) (\<lambda>tmp. Inr (rev tmp))"

fun read_varint :: "cint \<Rightarrow> int \<Rightarrow> bytes \<Rightarrow> (int \<times> bytes) result" where
  "read_varint I n [] = Inl (Throw ''end of data'')"
| "read_varint I n (chData # is) =
     (let n = cast_to I (push_bit 7 n OR uint (chData AND 0x7F)) in
      if chData AND 0x80 \<noteq> 0 then read_varint I (cast_to I (n + 1)) is else Inr (n, is))"

definition ReadVarInt :: "cint \<Rightarrow> bytes \<Rightarrow> (int \<times> bytes) result" where
  "ReadVarInt I is = read_varint I 0 is"

section \<open>Round trips\<close>

lemma read_uint8_Cons [simp]: "read_uint8 (b # is) = Inr (b, is)"
  by (simp add: read_uint8_def take_bytes_def)

lemma read_ser_uint32: "fits I32 x \<Longrightarrow> read_int32 (ser_uint32 x @ is) = Inr (x, is)"
proof -
  assume x: "fits I32 x"
  have "nat (x mod 2 ^ 32) < 256 ^ 4" by (simp add: nat_less_iff)
  then show ?thesis using x by (simp add: read_int32_def ser_uint32_def fits_def mod_simps)
qed

lemma read_ser_uint64: "in_int64 x \<Longrightarrow> read_int64 (ser_uint64 x @ is) = Inr (x, is)"
proof -
  assume x: "in_int64 x"
  have "nat (x mod 2 ^ 64) < 256 ^ 8" by (simp add: nat_less_iff)
  moreover have "wrap64 (x mod 2 ^ 64) = wrap64 x" by (simp add: wrap64_def mod_simps)
  ultimately show ?thesis using wrap64_id [OF x] by (simp add: read_int64_def ser_uint64_def)
qed

lemma ReadWriteCompactSize: "n \<le> MAX_SERIALIZED_COMPACT_SIZE \<Longrightarrow> ReadCompactSize (WriteCompactSize n @ is) = Inr (n, is)"
  by (auto simp: ReadCompactSize_def WriteCompactSize_def MAX_SERIALIZED_COMPACT_SIZE_def simp del: write_le.simps)

lemma WriteCompactSize_length: "length (WriteCompactSize n) = GetSizeOfCompactSize n"
  by (simp add: WriteCompactSize_def GetSizeOfCompactSize_def)

text \<open>Only what the writer produces is accepted.\<close>

lemma ReadCompactSize_canonical: "ReadCompactSize is = Inr (n, is') \<Longrightarrow> is = WriteCompactSize n @ is' \<and> n \<le> MAX_SERIALIZED_COMPACT_SIZE"
  by (auto simp: ReadCompactSize_def WriteCompactSize_def bindR_eq_Inr read_le_Inr MAX_SERIALIZED_COMPACT_SIZE_def simp del: write_le.simps split: if_splits)

lemma GetSizeOfVarInt_le: "n < 128 ^ Suc k \<Longrightarrow> GetSizeOfVarInt n \<le> Suc k"
proof (induction k arbitrary: n)
  case (Suc k)
  have "128 * (n div 128) \<le> n" using mult_div_mod_eq [of 128 n] pos_mod_sign [of 128 n] by linarith
  then have "n div 128 - 1 < 128 ^ Suc k" using Suc.prems by simp
  then show ?case using Suc.IH [of "n div 128 - 1"] by (subst GetSizeOfVarInt.simps) (simp add: drop_bit_eq_div)
qed (simp add: GetSizeOfVarInt.simps)

lemma GetSizeOfVarInt_pos: "0 < GetSizeOfVarInt n"
  by (subst GetSizeOfVarInt.simps) simp

lemma fits_down: "fits I y \<Longrightarrow> 0 \<le> x \<Longrightarrow> x \<le> y \<Longrightarrow> fits I x"
proof (cases I)
  case I32
  assume "fits I y" "0 \<le> x" "x \<le> y"
  then have "x + 2 ^ 31 < 2 ^ 32" using I32 pos_mod_bound [of "2 ^ 32" "y + 2 ^ 31"] by (simp add: fits_def)
  then show ?thesis using \<open>0 \<le> x\<close> I32 by (simp add: fits_def)
qed (auto simp: fits_def mod_pos_pos_trivial zmod_trivial_iff)

lemma cont_byte: fixes d :: int assumes "0 \<le> d" "d < 128"
  shows "uint ((word_of_int (d OR 0x80) :: byte) AND 0x7F) = d" "(word_of_int (d OR 0x80) :: byte) AND 0x80 \<noteq> 0"
    "uint ((word_of_int d :: byte) AND 0x7F) = d" "(word_of_int d :: byte) AND 0x80 = 0"
proof -
  have m: "(0x7F :: byte) = mask 7" "(0x80 :: byte) = 2 ^ 7" by (simp_all add: mask_eq_exp_minus_1)
  have t: "take_bit 7 d = d" using assms by (simp add: take_bit_eq_mod)
  have b: "bit d n \<Longrightarrow> n < 7" for n using arg_cong [OF t, of "\<lambda>x. bit x n"] by (simp add: bit_simps)
  have c: "bit (0x80 :: int) n \<longleftrightarrow> n = 7" "bit (0x80 :: byte) n \<longleftrightarrow> n = 7" for n using bit_exp_iff [where 'a = int, of 7 n] bit_exp_iff [where 'a = byte, of 7 n] by auto
  have w: "(word_of_int (d OR 0x80) :: byte) AND 0x7F = word_of_int d" unfolding m(1) by (rule bit_word_eqI) (use b in \<open>auto simp: bit_simps c\<close>)
  have v: "(word_of_int d :: byte) AND 0x7F = word_of_int d" unfolding m by (rule bit_word_eqI) (use b in \<open>auto simp: bit_simps\<close>)
  have u: "uint (word_of_int d :: byte) = d" using assms by (simp add: uint_word_of_int)
  show "uint ((word_of_int (d OR 0x80) :: byte) AND 0x7F) = d" "uint ((word_of_int d :: byte) AND 0x7F) = d" unfolding w v u by simp_all
  have "bit ((word_of_int (d OR 0x80) :: byte) AND 0x80) 7" unfolding m(2) by (simp add: bit_simps c)
  then show "(word_of_int (d OR 0x80) :: byte) AND 0x80 \<noteq> 0" by (metis bit_0_eq bot_apply bot_bool_def)
  show "(word_of_int d :: byte) AND 0x80 = 0" by (rule bit_word_eqI) (use b in \<open>auto simp: bit_simps c\<close>)
qed

lemma varint_tmp_ok:
  assumes "0 \<le> n" "GetSizeOfVarInt n + len \<le> bufsize"
  shows "\<exists>tmp. varint_tmp bufsize len n = Inr tmp \<and> length tmp = GetSizeOfVarInt n
    \<and> (\<forall>I is. fits I n \<longrightarrow> read_varint I 0 (rev tmp @ is) = (if len = 0 then Inr (n, is) else read_varint I (cast_to I (n + 1)) is))"
  using assms
proof (induction n arbitrary: len rule: GetSizeOfVarInt.induct)
  case (1 n)
  let ?d = "n AND 0x7F" and ?m = "drop_bit 7 n - 1"
  have dt: "?d = take_bit 7 n" by (simp add: take_bit_eq_mask mask_eq_exp_minus_1)
  then have d: "0 \<le> ?d" "?d < 128" "?d = n mod 128" by (simp_all add: take_bit_eq_mod)
  have len: "len < bufsize" using 1(3) GetSizeOfVarInt_pos [of n] by linarith
  show ?case
  proof (cases "n \<le> 0x7F")
    case True
    then have "?d = n" using d(3) 1(2) by simp
    then show ?thesis using True len cont_byte [OF d(1,2)]
      by (subst varint_tmp.simps, subst GetSizeOfVarInt.simps) (auto simp: Let_def fits_def)
  next
    case False
    have m: "0 \<le> ?m" "?m + 1 = drop_bit 7 n" "drop_bit 7 n \<le> n" using False by (simp_all add: drop_bit_eq_div)
    have "GetSizeOfVarInt ?m + (len + 1) \<le> bufsize" using 1(3) False by (subst (asm) GetSizeOfVarInt.simps) simp
    then obtain tmp where t: "varint_tmp bufsize (len + 1) ?m = Inr tmp" "length tmp = GetSizeOfVarInt ?m"
      "\<And>I is. fits I ?m \<Longrightarrow> read_varint I 0 (rev tmp @ is) = read_varint I (cast_to I (?m + 1)) is"
      using 1(1) [OF False m(1), of "len + 1"] by auto
    have "push_bit 7 (drop_bit 7 n) OR ?d = n" unfolding dt by (rule bit_eqI) (auto simp: bit_simps)
    moreover have "fits I (drop_bit 7 n)" "fits I ?m" if "fits I n" for I using fits_down [OF that] m by auto
    ultimately have "read_varint I 0 (rev tmp @ word_of_int ((n AND 0x7F) OR (if len \<noteq> 0 then 0x80 else 0x00)) # rs) =
        (if len = 0 then Inr (n, rs) else read_varint I (cast_to I (n + 1)) rs)" if "fits I n" for I rs
      using that t(3) [of I] m(2) cont_byte [OF d(1,2)] by (simp add: fits_def Let_def)
    then show ?thesis using t(1,2) len False by (subst varint_tmp.simps, subst GetSizeOfVarInt.simps) (simp add: Let_def)
  qed
qed

lemma fits_bound: "fits I n \<Longrightarrow> n < 128 ^ ((bits_of I + 6) div 7)"
  using pos_mod_bound [of "2 ^ 32" n] pos_mod_bound [of "2 ^ 64" n] pos_mod_bound [of "2 ^ 32" "n + 2 ^ 31"] by (cases I) (auto simp: fits_def)

lemma WriteVarInt_ok:
  assumes "0 \<le> n" "fits I n"
  obtains bs where "WriteVarInt I n = Inr bs" "length bs = GetSizeOfVarInt n" "length bs \<le> (bits_of I + 6) div 7" "\<And>is. ReadVarInt I (bs @ is) = Inr (n, is)"
proof -
  let ?k = "(bits_of I + 6) div 7"
  have "Suc (?k - 1) = ?k" by (cases I) simp_all
  then have k: "GetSizeOfVarInt n \<le> ?k" using GetSizeOfVarInt_le [of n "?k - 1"] fits_bound [OF assms(2)] by simp
  then obtain tmp where "varint_tmp ?k 0 n = Inr tmp" "length tmp = GetSizeOfVarInt n" "\<And>is. read_varint I 0 (rev tmp @ is) = Inr (n, is)"
    using varint_tmp_ok [OF assms(1), of 0 ?k] assms(2) by auto
  then show thesis using k by (intro that [of "rev tmp"]) (simp_all add: WriteVarInt_def ReadVarInt_def)
qed

text \<open>A negative value is cut to its lowest seven bits.\<close>

lemma WriteVarInt_neg:
  assumes "n < 0" shows "WriteVarInt I n = Inr [word_of_int (n AND 0x7F)]" "ReadVarInt I (word_of_int (n AND 0x7F) # is) = Inr (n AND 0x7F, is)"
proof -
  let ?d = "n AND 0x7F"
  have dt: "?d = take_bit 7 n" by (simp add: take_bit_eq_mask mask_eq_exp_minus_1)
  then have d: "0 \<le> ?d" "?d < 128" by (simp_all add: take_bit_eq_mod)
  show "WriteVarInt I n = Inr [word_of_int ?d]" using assms by (cases I) (simp_all add: WriteVarInt_def varint_tmp.simps)
  have "cast_to I ?d = ?d" using d by (cases I) simp_all
  then show "ReadVarInt I (word_of_int ?d # is) = Inr (?d, is)" using cont_byte [OF d] by (simp add: ReadVarInt_def)
qed

text \<open>C30: writing a variable-length integer of any of the types ends within the buffer of one byte per seven bits, after as many bytes as announced, and reading
  gives the value back and leaves the rest of the stream.\<close>

theorem varint_written_and_read:
  assumes "0 \<le> n" and "fits I n"
  shows "\<exists>bs. WriteVarInt I n = Inr bs \<and> length bs = GetSizeOfVarInt n \<and> length bs \<le> (bits_of I + 6) div 7 \<and> ReadVarInt I (bs @ is) = Inr (n, is)"
  using WriteVarInt_ok [OF assms] by metis

theorem varint_written_and_read_witness: "\<exists>bs. WriteVarInt U64 (2 ^ 32) = Inr bs \<and> length bs = 5 \<and> ReadVarInt U64 (bs @ [7]) = Inr (2 ^ 32, [7])"
proof -
  have "GetSizeOfVarInt (2 ^ 32) = 5" by (simp add: GetSizeOfVarInt.simps)
  then show ?thesis using varint_written_and_read [of "2 ^ 32" U64 "[7]"] by (auto simp: fits_def)
qed



end
