(* ===== verification/Interpreter.thy ===== *)
theory Interpreter
  imports Script Serialize "HOL-Library.Sublist"
begin

text \<open>
  The script interpreter: \<open>script/interpreter.cpp\<close>. A stack is the list of its elements, the top first, so that \<open>stacktop(-1)\<close> is the head. The signature
  checker, which the source passes as a virtual class, and the hash functions are fields of \<open>ScriptEnv\<close>.
\<close>

unbundle bit_operations_syntax

section \<open>Errors, flags and environment\<close>

datatype ScriptError =
    SCRIPT_ERR_OK | SCRIPT_ERR_UNKNOWN_ERROR | SCRIPT_ERR_EVAL_FALSE | SCRIPT_ERR_OP_RETURN
  | SCRIPT_ERR_SCRIPT_SIZE | SCRIPT_ERR_PUSH_SIZE | SCRIPT_ERR_OP_COUNT | SCRIPT_ERR_STACK_SIZE | SCRIPT_ERR_SIG_COUNT | SCRIPT_ERR_PUBKEY_COUNT
  | SCRIPT_ERR_VERIFY | SCRIPT_ERR_EQUALVERIFY | SCRIPT_ERR_CHECKMULTISIGVERIFY | SCRIPT_ERR_CHECKSIGVERIFY | SCRIPT_ERR_NUMEQUALVERIFY
  | SCRIPT_ERR_BAD_OPCODE | SCRIPT_ERR_DISABLED_OPCODE | SCRIPT_ERR_INVALID_STACK_OPERATION | SCRIPT_ERR_INVALID_ALTSTACK_OPERATION | SCRIPT_ERR_UNBALANCED_CONDITIONAL
  | SCRIPT_ERR_NEGATIVE_LOCKTIME | SCRIPT_ERR_UNSATISFIED_LOCKTIME
  | SCRIPT_ERR_SIG_HASHTYPE | SCRIPT_ERR_SIG_DER | SCRIPT_ERR_MINIMALDATA | SCRIPT_ERR_SIG_PUSHONLY | SCRIPT_ERR_SIG_HIGH_S | SCRIPT_ERR_SIG_NULLDUMMY | SCRIPT_ERR_PUBKEYTYPE | SCRIPT_ERR_CLEANSTACK
  | SCRIPT_ERR_DISCOURAGE_UPGRADABLE_NOPS | SCRIPT_ERR_CHECKBLOCKATHEIGHT | SCRIPT_ERR_CHECKBLOCKATHEIGHT_UNVERIFIED | SCRIPT_ERR_NOT_FINAL | SCRIPT_ERR_ERROR_COUNT

text \<open>How an evaluation stops early: \<open>return set_error(serror, e)\<close>, an exception, or a failed \<open>assert\<close>.\<close>

datatype script_exit = SetError ScriptError | Exception | Abort

type_synonym 'a eval = "script_exit + 'a"
type_synonym stack = "bytes list"

abbreviation fails :: "ScriptError \<Rightarrow> 'a eval" where "fails e \<equiv> Inl (SetError e)"

abbreviation SCRIPT_VERIFY_P2SH :: uint32 where "SCRIPT_VERIFY_P2SH \<equiv> 0x1"
abbreviation SCRIPT_VERIFY_STRICTENC :: uint32 where "SCRIPT_VERIFY_STRICTENC \<equiv> 0x2"
abbreviation SCRIPT_VERIFY_LOW_S :: uint32 where "SCRIPT_VERIFY_LOW_S \<equiv> 0x8"
abbreviation SCRIPT_VERIFY_NULLDUMMY :: uint32 where "SCRIPT_VERIFY_NULLDUMMY \<equiv> 0x10"
abbreviation SCRIPT_VERIFY_SIGPUSHONLY :: uint32 where "SCRIPT_VERIFY_SIGPUSHONLY \<equiv> 0x20"
abbreviation SCRIPT_VERIFY_MINIMALDATA :: uint32 where "SCRIPT_VERIFY_MINIMALDATA \<equiv> 0x40"
abbreviation SCRIPT_VERIFY_DISCOURAGE_UPGRADABLE_NOPS :: uint32 where "SCRIPT_VERIFY_DISCOURAGE_UPGRADABLE_NOPS \<equiv> 0x80"
abbreviation SCRIPT_VERIFY_CLEANSTACK :: uint32 where "SCRIPT_VERIFY_CLEANSTACK \<equiv> 0x100"
abbreviation SCRIPT_VERIFY_CHECKLOCKTIMEVERIFY :: uint32 where "SCRIPT_VERIFY_CHECKLOCKTIMEVERIFY \<equiv> 0x200"
abbreviation SCRIPT_VERIFY_CHECKBLOCKATHEIGHT :: uint32 where "SCRIPT_VERIFY_CHECKBLOCKATHEIGHT \<equiv> 0x400"

definition has_flag :: "uint32 \<Rightarrow> uint32 \<Rightarrow> bool" where "has_flag flags f \<longleftrightarrow> flags AND f \<noteq> 0"

definition MAX_SCRIPT_ELEMENT_SIZE :: nat where "MAX_SCRIPT_ELEMENT_SIZE = 520"

text \<open>\<open>CheckSig\<close>, \<open>CheckLockTime\<close> and \<open>CheckBlockHash\<close> are those of the checker; \<open>CheckLowS\<close> is \<open>CPubKey::CheckLowS\<close>.\<close>

record ScriptEnv =
  CheckSig :: "bytes \<Rightarrow> bytes \<Rightarrow> CScript \<Rightarrow> bool"
  CheckLockTime :: "int \<Rightarrow> bool"
  CheckBlockHash :: "int \<Rightarrow> bytes \<Rightarrow> bool"
  CheckLowS :: "bytes \<Rightarrow> bool"
  CRIPEMD160 :: "bytes \<Rightarrow> uint160"
  CSHA1 :: "bytes \<Rightarrow> uint160"
  CSHA256 :: "bytes \<Rightarrow> uint256"
  CHash160 :: "bytes \<Rightarrow> uint160"
  CHash256 :: "bytes \<Rightarrow> uint256"

section \<open>Values and encodings\<close>

fun CastToBool :: "bytes \<Rightarrow> bool" where
  "CastToBool [] = False"
| "CastToBool (b # vch) = (if b \<noteq> 0 then \<not> (vch = [] \<and> b = 0x80) else CastToBool vch)"

definition bool_vch :: "bool \<Rightarrow> bytes" where "bool_vch f = (if f then [1] else [])"

definition script_num :: "bytes \<Rightarrow> bool \<Rightarrow> nat \<Rightarrow> int eval" where
  "script_num vch fRequireMinimal nMaxNumSize = (case CScriptNum vch fRequireMinimal nMaxNumSize of Inl _ \<Rightarrow> Inl Exception | Inr n \<Rightarrow> Inr n)"

definition IsCompressedOrUncompressedPubKey :: "bytes \<Rightarrow> bool" where
  "IsCompressedOrUncompressedPubKey vchPubKey \<longleftrightarrow>
     (if length vchPubKey < 33 then False
      else if vchPubKey ! 0 = 0x04 then length vchPubKey = 65
      else if vchPubKey ! 0 = 0x02 \<or> vchPubKey ! 0 = 0x03 then length vchPubKey = 33
      else False)"

definition IsValidSignatureEncoding :: "bytes \<Rightarrow> bool" where
  "IsValidSignatureEncoding sig \<longleftrightarrow>
     (if length sig < 9 then False
      else if length sig > 73 then False
      else if sig ! 0 \<noteq> 0x30 then False
      else if unat (sig ! 1) \<noteq> length sig - 3 then False
      else let lenR = unat (sig ! 3) in
        if 5 + lenR \<ge> length sig then False
        else let lenS = unat (sig ! (5 + lenR)) in
          if lenR + lenS + 7 \<noteq> length sig then False
          else if sig ! 2 \<noteq> 0x02 then False
          else if lenR = 0 then False
          else if sig ! 4 AND 0x80 \<noteq> 0 then False
          else if lenR > 1 \<and> sig ! 4 = 0x00 \<and> \<not> (sig ! 5 AND 0x80 \<noteq> 0) then False
          else if sig ! (lenR + 4) \<noteq> 0x02 then False
          else if lenS = 0 then False
          else if sig ! (lenR + 6) AND 0x80 \<noteq> 0 then False
          else if lenS > 1 \<and> sig ! (lenR + 6) = 0x00 \<and> \<not> (sig ! (lenR + 7) AND 0x80 \<noteq> 0) then False
          else True)"

text \<open>A failed \<open>CheckLowS\<close> sets no error: the one set at the start of the evaluation stays.\<close>

definition IsLowDERSignature :: "ScriptEnv \<Rightarrow> bytes \<Rightarrow> unit eval" where
  "IsLowDERSignature E vchSig =
     (if \<not> IsValidSignatureEncoding vchSig then fails SCRIPT_ERR_SIG_DER
      else if CheckLowS E (take (length vchSig - 1) vchSig) then Inr () else fails SCRIPT_ERR_UNKNOWN_ERROR)"

definition IsDefinedHashtypeSignature :: "bytes \<Rightarrow> bool" where
  "IsDefinedHashtypeSignature vchSig \<longleftrightarrow>
     (if length vchSig = 0 then False
      else let nHashType = last vchSig AND NOT 0x80 in \<not> (nHashType < 1 \<or> nHashType > 3))"

definition CheckSignatureEncoding :: "ScriptEnv \<Rightarrow> bytes \<Rightarrow> uint32 \<Rightarrow> unit eval" where
  "CheckSignatureEncoding E vchSig flags =
     (if length vchSig = 0 then Inr ()
      else if \<not> IsValidSignatureEncoding vchSig then fails SCRIPT_ERR_SIG_DER
      else bindR (if has_flag flags SCRIPT_VERIFY_LOW_S then IsLowDERSignature E vchSig else Inr ()) (\<lambda>_.
        if has_flag flags SCRIPT_VERIFY_STRICTENC \<and> \<not> IsDefinedHashtypeSignature vchSig then fails SCRIPT_ERR_SIG_HASHTYPE else Inr ()))"

definition CheckPubKeyEncoding :: "bytes \<Rightarrow> uint32 \<Rightarrow> unit eval" where
  "CheckPubKeyEncoding vchPubKey flags =
     (if has_flag flags SCRIPT_VERIFY_STRICTENC \<and> \<not> IsCompressedOrUncompressedPubKey vchPubKey then fails SCRIPT_ERR_PUBKEYTYPE else Inr ())"

definition CheckMinimalPush :: "bytes \<Rightarrow> byte \<Rightarrow> bool" where
  "CheckMinimalPush data opcode \<longleftrightarrow>
     (if length data = 0 then opcode = OP_0
      else if length data = 1 \<and> data ! 0 \<ge> 1 \<and> data ! 0 \<le> 16 then opcode = OP_1 + (data ! 0 - 1)
      else if length data = 1 \<and> data ! 0 = 0x81 then opcode = OP_1NEGATE
      else if length data \<le> 75 then unat opcode = length data
      else if length data \<le> 255 then opcode = OP_PUSHDATA1
      else if length data \<le> 65535 then opcode = OP_PUSHDATA2
      else True)"

section \<open>Stack and numeric operations\<close>

definition stack_op :: "bool \<Rightarrow> byte \<Rightarrow> stack \<Rightarrow> stack eval" where
  "stack_op fRequireMinimal opcode st =
     (let bad = fails SCRIPT_ERR_INVALID_STACK_OPERATION in
      if opcode = OP_2DROP then case st of x2 # x1 # r \<Rightarrow> Inr r | _ \<Rightarrow> bad
      else if opcode = OP_2DUP then case st of x2 # x1 # r \<Rightarrow> Inr (x2 # x1 # x2 # x1 # r) | _ \<Rightarrow> bad
      else if opcode = OP_3DUP then case st of x3 # x2 # x1 # r \<Rightarrow> Inr (x3 # x2 # x1 # x3 # x2 # x1 # r) | _ \<Rightarrow> bad
      else if opcode = OP_2OVER then case st of x4 # x3 # x2 # x1 # r \<Rightarrow> Inr (x2 # x1 # x4 # x3 # x2 # x1 # r) | _ \<Rightarrow> bad
      else if opcode = OP_2ROT then case st of x6 # x5 # x4 # x3 # x2 # x1 # r \<Rightarrow> Inr (x2 # x1 # x6 # x5 # x4 # x3 # r) | _ \<Rightarrow> bad
      else if opcode = OP_2SWAP then case st of x4 # x3 # x2 # x1 # r \<Rightarrow> Inr (x2 # x1 # x4 # x3 # r) | _ \<Rightarrow> bad
      else if opcode = OP_IFDUP then case st of x # r \<Rightarrow> Inr (if CastToBool x then x # x # r else x # r) | _ \<Rightarrow> bad
      else if opcode = OP_DEPTH then Inr (serialize (int (length st)) # st)
      else if opcode = OP_DROP then case st of x # r \<Rightarrow> Inr r | _ \<Rightarrow> bad
      else if opcode = OP_DUP then case st of x # r \<Rightarrow> Inr (x # x # r) | _ \<Rightarrow> bad
      else if opcode = OP_NIP then case st of x2 # x1 # r \<Rightarrow> Inr (x2 # r) | _ \<Rightarrow> bad
      else if opcode = OP_OVER then case st of x2 # x1 # r \<Rightarrow> Inr (x1 # x2 # x1 # r) | _ \<Rightarrow> bad
      else if opcode = OP_PICK \<or> opcode = OP_ROLL then
        if length st < 2 then bad
        else bindR (script_num (hd st) fRequireMinimal nDefaultMaxNumSize) (\<lambda>bn.
          let n = getint bn; st = tl st in
          if n < 0 \<or> n \<ge> int (length st) then bad
          else let vch = st ! nat n in Inr (vch # (if opcode = OP_ROLL then take (nat n) st @ drop (Suc (nat n)) st else st)))
      else if opcode = OP_ROT then case st of x3 # x2 # x1 # r \<Rightarrow> Inr (x1 # x3 # x2 # r) | _ \<Rightarrow> bad
      else if opcode = OP_SWAP then case st of x2 # x1 # r \<Rightarrow> Inr (x1 # x2 # r) | _ \<Rightarrow> bad
      else if opcode = OP_TUCK then case st of x2 # x1 # r \<Rightarrow> Inr (x2 # x1 # x2 # r) | _ \<Rightarrow> bad
      else if opcode = OP_SIZE then case st of x # r \<Rightarrow> Inr (serialize (int (length x)) # x # r) | _ \<Rightarrow> bad
      else fails SCRIPT_ERR_BAD_OPCODE)"

definition equal_op :: "byte \<Rightarrow> stack \<Rightarrow> stack eval" where
  "equal_op opcode st = (case st of
     vch2 # vch1 # r \<Rightarrow>
       let fEqual = (vch1 = vch2) in
       if opcode = OP_EQUALVERIFY then if fEqual then Inr r else fails SCRIPT_ERR_EQUALVERIFY
       else Inr (bool_vch fEqual # r)
   | _ \<Rightarrow> fails SCRIPT_ERR_INVALID_STACK_OPERATION)"

text \<open>The operators of \<open>CScriptNum\<close> with their assertions.\<close>

definition num_add :: "int \<Rightarrow> int \<Rightarrow> int eval" where
  "num_add m_value rhs =
     (if \<not> (rhs = 0 \<or> (rhs > 0 \<and> m_value \<le> 2 ^ 63 - 1 - rhs) \<or> (rhs < 0 \<and> m_value \<ge> - (2 ^ 63) - rhs)) then Inl Abort else Inr (m_value + rhs))"

definition num_sub :: "int \<Rightarrow> int \<Rightarrow> int eval" where
  "num_sub m_value rhs =
     (if \<not> (rhs = 0 \<or> (rhs > 0 \<and> m_value \<ge> - (2 ^ 63) + rhs) \<or> (rhs < 0 \<and> m_value \<le> 2 ^ 63 - 1 + rhs)) then Inl Abort else Inr (m_value - rhs))"

definition num_neg :: "int \<Rightarrow> int eval" where
  "num_neg m_value = (if m_value = - (2 ^ 63) then Inl Abort else Inr (- m_value))"

definition unary_num :: "byte \<Rightarrow> int \<Rightarrow> int eval" where
  "unary_num opcode bn =
     (if opcode = OP_1ADD then num_add bn 1
      else if opcode = OP_1SUB then num_sub bn 1
      else if opcode = OP_NEGATE then num_neg bn
      else if opcode = OP_ABS then if bn < 0 then num_neg bn else Inr bn
      else if opcode = OP_NOT then Inr (of_bool (bn = 0))
      else if opcode = OP_0NOTEQUAL then Inr (of_bool (bn \<noteq> 0))
      else Inl Abort)"

definition unary_op :: "bool \<Rightarrow> byte \<Rightarrow> stack \<Rightarrow> stack eval" where
  "unary_op fRequireMinimal opcode st = (case st of
     x # r \<Rightarrow> bindR (script_num x fRequireMinimal nDefaultMaxNumSize) (\<lambda>bn. bindR (unary_num opcode bn) (\<lambda>bn. Inr (serialize bn # r)))
   | _ \<Rightarrow> fails SCRIPT_ERR_INVALID_STACK_OPERATION)"

definition binary_num :: "byte \<Rightarrow> int \<Rightarrow> int \<Rightarrow> int eval" where
  "binary_num opcode bn1 bn2 =
     (if opcode = OP_ADD then Inr (wrap64 (bn1 + bn2))
      else if opcode = OP_SUB then Inr (wrap64 (bn1 - bn2))
      else if opcode = OP_BOOLAND then Inr (of_bool (bn1 \<noteq> 0 \<and> bn2 \<noteq> 0))
      else if opcode = OP_BOOLOR then Inr (of_bool (bn1 \<noteq> 0 \<or> bn2 \<noteq> 0))
      else if opcode = OP_NUMEQUAL \<or> opcode = OP_NUMEQUALVERIFY then Inr (of_bool (bn1 = bn2))
      else if opcode = OP_NUMNOTEQUAL then Inr (of_bool (bn1 \<noteq> bn2))
      else if opcode = OP_LESSTHAN then Inr (of_bool (bn1 < bn2))
      else if opcode = OP_GREATERTHAN then Inr (of_bool (bn1 > bn2))
      else if opcode = OP_LESSTHANOREQUAL then Inr (of_bool (bn1 \<le> bn2))
      else if opcode = OP_GREATERTHANOREQUAL then Inr (of_bool (bn1 \<ge> bn2))
      else if opcode = OP_MIN then Inr (if bn1 < bn2 then bn1 else bn2)
      else if opcode = OP_MAX then Inr (if bn1 > bn2 then bn1 else bn2)
      else Inl Abort)"

definition binary_op :: "bool \<Rightarrow> byte \<Rightarrow> stack \<Rightarrow> stack eval" where
  "binary_op fRequireMinimal opcode st = (case st of
     x2 # x1 # r \<Rightarrow>
       bindR (script_num x1 fRequireMinimal nDefaultMaxNumSize) (\<lambda>bn1.
       bindR (script_num x2 fRequireMinimal nDefaultMaxNumSize) (\<lambda>bn2.
       bindR (binary_num opcode bn1 bn2) (\<lambda>bn.
         if opcode = OP_NUMEQUALVERIFY then if CastToBool (serialize bn) then Inr r else fails SCRIPT_ERR_NUMEQUALVERIFY
         else Inr (serialize bn # r))))
   | _ \<Rightarrow> fails SCRIPT_ERR_INVALID_STACK_OPERATION)"

definition within_op :: "bool \<Rightarrow> stack \<Rightarrow> stack eval" where
  "within_op fRequireMinimal st = (case st of
     x3 # x2 # x1 # r \<Rightarrow>
       bindR (script_num x1 fRequireMinimal nDefaultMaxNumSize) (\<lambda>bn1.
       bindR (script_num x2 fRequireMinimal nDefaultMaxNumSize) (\<lambda>bn2.
       bindR (script_num x3 fRequireMinimal nDefaultMaxNumSize) (\<lambda>bn3.
         Inr (bool_vch (bn2 \<le> bn1 \<and> bn1 < bn3) # r))))
   | _ \<Rightarrow> fails SCRIPT_ERR_INVALID_STACK_OPERATION)"

section \<open>Hashes and signatures\<close>

definition vch20 :: "uint160 \<Rightarrow> bytes" where "vch20 h = write_le 20 (unat h)"
definition vch32 :: "uint256 \<Rightarrow> bytes" where "vch32 h = write_le 32 (unat h)"

definition hash_op :: "ScriptEnv \<Rightarrow> byte \<Rightarrow> stack \<Rightarrow> stack eval" where
  "hash_op E opcode st = (case st of
     vch # r \<Rightarrow> Inr ((if opcode = OP_RIPEMD160 then vch20 (CRIPEMD160 E vch)
                     else if opcode = OP_SHA1 then vch20 (CSHA1 E vch)
                     else if opcode = OP_SHA256 then vch32 (CSHA256 E vch)
                     else if opcode = OP_HASH160 then vch20 (CHash160 E vch)
                     else vch32 (CHash256 E vch)) # r)
   | _ \<Rightarrow> fails SCRIPT_ERR_INVALID_STACK_OPERATION)"

definition checksig_op :: "ScriptEnv \<Rightarrow> uint32 \<Rightarrow> CScript \<Rightarrow> byte \<Rightarrow> stack \<Rightarrow> stack eval" where
  "checksig_op E flags script opcode st = (case st of
     vchPubKey # vchSig # r \<Rightarrow>
       bindR (CheckSignatureEncoding E vchSig flags) (\<lambda>_.
       bindR (CheckPubKeyEncoding vchPubKey flags) (\<lambda>_.
         let fSuccess = CheckSig E vchSig vchPubKey script in
         if opcode = OP_CHECKSIGVERIFY then if fSuccess then Inr r else fails SCRIPT_ERR_CHECKSIGVERIFY
         else Inr (bool_vch fSuccess # r)))
   | _ \<Rightarrow> fails SCRIPT_ERR_INVALID_STACK_OPERATION)"

text \<open>The signatures and keys that are left, the ones \<open>isig\<close> and \<open>ikey\<close> point at first. With more signatures than keys the loop has ended.\<close>

fun multisig_loop :: "ScriptEnv \<Rightarrow> uint32 \<Rightarrow> CScript \<Rightarrow> bytes list \<Rightarrow> bytes list \<Rightarrow> bool eval" where
  "multisig_loop E flags script [] keys = Inr True"
| "multisig_loop E flags script (vchSig # sigs) [] = Inr False"
| "multisig_loop E flags script (vchSig # sigs) (vchPubKey # keys) =
     bindR (CheckSignatureEncoding E vchSig flags) (\<lambda>_.
     bindR (CheckPubKeyEncoding vchPubKey flags) (\<lambda>_.
       let sigs' = (if CheckSig E vchSig vchPubKey script then sigs else vchSig # sigs) in
       if length sigs' > length keys then Inr False else multisig_loop E flags script sigs' keys))"

text \<open>What is left after the arguments are popped, with the one extra element on top.\<close>

definition multisig_result :: "uint32 \<Rightarrow> byte \<Rightarrow> bool \<Rightarrow> stack \<Rightarrow> stack eval" where
  "multisig_result flags opcode fSuccess st = (case st of
     [] \<Rightarrow> fails SCRIPT_ERR_INVALID_STACK_OPERATION
   | dummy # r \<Rightarrow>
       if has_flag flags SCRIPT_VERIFY_NULLDUMMY \<and> length dummy \<noteq> 0 then fails SCRIPT_ERR_SIG_NULLDUMMY
       else if opcode = OP_CHECKMULTISIGVERIFY then if fSuccess then Inr r else fails SCRIPT_ERR_CHECKMULTISIGVERIFY
       else Inr (bool_vch fSuccess # r))"

definition multisig_op :: "ScriptEnv \<Rightarrow> uint32 \<Rightarrow> CScript \<Rightarrow> byte \<Rightarrow> stack \<Rightarrow> int \<Rightarrow> (stack \<times> int) eval" where
  "multisig_op E flags script opcode st nOpCount =
     (let fRequireMinimal = has_flag flags SCRIPT_VERIFY_MINIMALDATA; bad = fails SCRIPT_ERR_INVALID_STACK_OPERATION in
      if length st < 1 then bad
      else bindR (script_num (st ! 0) fRequireMinimal nDefaultMaxNumSize) (\<lambda>bn.
      let nKeysCount = getint bn in
      if nKeysCount < 0 \<or> nKeysCount > 20 then fails SCRIPT_ERR_PUBKEY_COUNT
      else let nOpCount = nOpCount + nKeysCount; nKeys = nat nKeysCount in
      if nOpCount > 201 then fails SCRIPT_ERR_OP_COUNT
      else if length st < 2 + nKeys then bad
      else bindR (script_num (st ! (1 + nKeys)) fRequireMinimal nDefaultMaxNumSize) (\<lambda>bn.
      let nSigsCount = getint bn in
      if nSigsCount < 0 \<or> nSigsCount > nKeysCount then fails SCRIPT_ERR_SIG_COUNT
      else let nSigs = nat nSigsCount; i = 3 + nKeys + nSigs in
      if length st < i then bad
      else bindR (multisig_loop E flags script (take nSigs (drop (2 + nKeys) st)) (take nKeys (drop 1 st))) (\<lambda>fSuccess.
      bindR (multisig_result flags opcode fSuccess (drop (i - 1) st)) (\<lambda>st. Inr (st, nOpCount))))))"

section \<open>Control\<close>

definition locktime_op :: "ScriptEnv \<Rightarrow> uint32 \<Rightarrow> stack \<Rightarrow> stack eval" where
  "locktime_op E flags st =
     (if \<not> has_flag flags SCRIPT_VERIFY_CHECKLOCKTIMEVERIFY
      then if has_flag flags SCRIPT_VERIFY_DISCOURAGE_UPGRADABLE_NOPS then fails SCRIPT_ERR_DISCOURAGE_UPGRADABLE_NOPS else Inr st
      else (case st of
          [] \<Rightarrow> fails SCRIPT_ERR_INVALID_STACK_OPERATION
        | x # _ \<Rightarrow> bindR (script_num x (has_flag flags SCRIPT_VERIFY_MINIMALDATA) 5) (\<lambda>nLockTime.
            if nLockTime < 0 then fails SCRIPT_ERR_NEGATIVE_LOCKTIME
            else if \<not> CheckLockTime E nLockTime then fails SCRIPT_ERR_UNSATISFIED_LOCKTIME
            else Inr st)))"

definition blockatheight_op :: "ScriptEnv \<Rightarrow> uint32 \<Rightarrow> stack \<Rightarrow> stack eval" where
  "blockatheight_op E flags st = (case st of
     vchBlockIndex # vchBlockHash # r \<Rightarrow>
       if \<not> has_flag flags SCRIPT_VERIFY_CHECKBLOCKATHEIGHT then Inr r
       else if length vchBlockIndex > 4 \<or> length vchBlockHash > 32 then fails SCRIPT_ERR_CHECKBLOCKATHEIGHT
       else bindR (script_num vchBlockIndex True 4) (\<lambda>bn.
         let nHeight = getint bn in
         if nHeight < 0 \<or> \<not> CheckBlockHash E nHeight vchBlockHash then fails SCRIPT_ERR_NOT_FINAL else Inr r)
   | _ \<Rightarrow> fails SCRIPT_ERR_INVALID_STACK_OPERATION)"

text \<open>\<open>vfExec\<close> has its back first.\<close>

record EvalState =
  st_stack :: stack
  altstack :: stack
  vfExec :: "bool list"
  nOpCount :: int

definition if_op :: "byte \<Rightarrow> EvalState \<Rightarrow> EvalState eval" where
  "if_op opcode s =
     (if opcode = OP_IF \<or> opcode = OP_NOTIF then
        if list_all id (vfExec s) then (case st_stack s of
            [] \<Rightarrow> fails SCRIPT_ERR_UNBALANCED_CONDITIONAL
          | vch # r \<Rightarrow> Inr (s\<lparr>st_stack := r, vfExec := (if opcode = OP_NOTIF then \<not> CastToBool vch else CastToBool vch) # vfExec s\<rparr>))
        else Inr (s\<lparr>vfExec := False # vfExec s\<rparr>)
      else if opcode = OP_ELSE then (case vfExec s of [] \<Rightarrow> fails SCRIPT_ERR_UNBALANCED_CONDITIONAL | f # fs \<Rightarrow> Inr (s\<lparr>vfExec := (\<not> f) # fs\<rparr>))
      else if opcode = OP_ENDIF then (case vfExec s of [] \<Rightarrow> fails SCRIPT_ERR_UNBALANCED_CONDITIONAL | f # fs \<Rightarrow> Inr (s\<lparr>vfExec := fs\<rparr>))
      else fails SCRIPT_ERR_BAD_OPCODE)"

definition upgradable_nops :: "byte set" where
  "upgradable_nops = {OP_NOP1, OP_NOP3, OP_NOP4, OP_NOP6, OP_NOP7, OP_NOP8, OP_NOP9, OP_NOP10}"

definition control_op :: "ScriptEnv \<Rightarrow> uint32 \<Rightarrow> byte \<Rightarrow> EvalState \<Rightarrow> EvalState eval" where
  "control_op E flags opcode s =
     (if opcode = OP_NOP then Inr s
      else if opcode = OP_CHECKLOCKTIMEVERIFY then bindR (locktime_op E flags (st_stack s)) (\<lambda>st. Inr (s\<lparr>st_stack := st\<rparr>))
      else if opcode = OP_CHECKBLOCKATHEIGHT then bindR (blockatheight_op E flags (st_stack s)) (\<lambda>st. Inr (s\<lparr>st_stack := st\<rparr>))
      else if opcode \<in> upgradable_nops then
        if has_flag flags SCRIPT_VERIFY_DISCOURAGE_UPGRADABLE_NOPS then fails SCRIPT_ERR_DISCOURAGE_UPGRADABLE_NOPS else Inr s
      else if opcode = OP_VERIFY then (case st_stack s of
          [] \<Rightarrow> fails SCRIPT_ERR_INVALID_STACK_OPERATION
        | x # r \<Rightarrow> if CastToBool x then Inr (s\<lparr>st_stack := r\<rparr>) else fails SCRIPT_ERR_VERIFY)
      else if opcode = OP_RETURN then fails SCRIPT_ERR_OP_RETURN
      else if opcode = OP_TOALTSTACK then (case st_stack s of
          [] \<Rightarrow> fails SCRIPT_ERR_INVALID_STACK_OPERATION
        | x # r \<Rightarrow> Inr (s\<lparr>st_stack := r, altstack := x # altstack s\<rparr>))
      else if opcode = OP_FROMALTSTACK then (case altstack s of
          [] \<Rightarrow> fails SCRIPT_ERR_INVALID_ALTSTACK_OPERATION
        | x # r \<Rightarrow> Inr (s\<lparr>st_stack := x # st_stack s, altstack := r\<rparr>))
      else fails SCRIPT_ERR_BAD_OPCODE)"

section \<open>Evaluation\<close>

text \<open>The opcodes of each group.\<close>

definition numeric1 :: "byte set" where "numeric1 = {OP_1ADD, OP_1SUB, OP_NEGATE, OP_ABS, OP_NOT, OP_0NOTEQUAL}"

definition numeric2 :: "byte set" where
  "numeric2 = {OP_ADD, OP_SUB, OP_BOOLAND, OP_BOOLOR, OP_NUMEQUAL, OP_NUMEQUALVERIFY, OP_NUMNOTEQUAL, OP_LESSTHAN, OP_GREATERTHAN, OP_LESSTHANOREQUAL,
     OP_GREATERTHANOREQUAL, OP_MIN, OP_MAX}"

definition hash_ops :: "byte set" where "hash_ops = {OP_RIPEMD160, OP_SHA1, OP_SHA256, OP_HASH160, OP_HASH256}"

definition stack_ops :: "byte set" where
  "stack_ops = {OP_2DROP, OP_2DUP, OP_3DUP, OP_2OVER, OP_2ROT, OP_2SWAP, OP_IFDUP, OP_DEPTH, OP_DROP, OP_DUP, OP_NIP, OP_OVER, OP_PICK, OP_ROLL, OP_ROT, OP_SWAP,
     OP_TUCK, OP_SIZE}"

definition disabled_ops :: "byte set" where
  "disabled_ops = {OP_CAT, OP_SUBSTR, OP_LEFT, OP_RIGHT, OP_INVERT, OP_AND, OP_OR, OP_XOR, OP_2MUL, OP_2DIV, OP_MUL, OP_DIV, OP_MOD, OP_LSHIFT, OP_RSHIFT, OP_CODESEPARATOR}"

definition switch_op :: "ScriptEnv \<Rightarrow> uint32 \<Rightarrow> CScript \<Rightarrow> byte \<Rightarrow> EvalState \<Rightarrow> EvalState eval" where
  "switch_op E flags script opcode s =
     (let fRequireMinimal = has_flag flags SCRIPT_VERIFY_MINIMALDATA; on_stack = (\<lambda>r. bindR r (\<lambda>st. Inr (s\<lparr>st_stack := st\<rparr>))) in
      if opcode = OP_1NEGATE \<or> (OP_1 \<le> opcode \<and> opcode \<le> OP_16) then Inr (s\<lparr>st_stack := serialize (uint opcode - uint (OP_1 - 1)) # st_stack s\<rparr>)
      else if OP_IF \<le> opcode \<and> opcode \<le> OP_ENDIF then if_op opcode s
      else if opcode \<in> stack_ops then on_stack (stack_op fRequireMinimal opcode (st_stack s))
      else if opcode = OP_EQUAL \<or> opcode = OP_EQUALVERIFY then on_stack (equal_op opcode (st_stack s))
      else if opcode \<in> numeric1 then on_stack (unary_op fRequireMinimal opcode (st_stack s))
      else if opcode \<in> numeric2 then on_stack (binary_op fRequireMinimal opcode (st_stack s))
      else if opcode = OP_WITHIN then on_stack (within_op fRequireMinimal (st_stack s))
      else if opcode \<in> hash_ops then on_stack (hash_op E opcode (st_stack s))
      else if opcode = OP_CHECKSIG \<or> opcode = OP_CHECKSIGVERIFY then on_stack (checksig_op E flags script opcode (st_stack s))
      else if opcode = OP_CHECKMULTISIG \<or> opcode = OP_CHECKMULTISIGVERIFY
      then bindR (multisig_op E flags script opcode (st_stack s) (nOpCount s)) (\<lambda>(st, n). Inr (s\<lparr>st_stack := st, nOpCount := n\<rparr>))
      else control_op E flags opcode s)"

definition exec_op :: "ScriptEnv \<Rightarrow> uint32 \<Rightarrow> CScript \<Rightarrow> bool \<Rightarrow> byte \<Rightarrow> bytes \<Rightarrow> EvalState \<Rightarrow> EvalState eval" where
  "exec_op E flags script fExec opcode vchPushValue s =
     (if fExec \<and> opcode \<le> OP_PUSHDATA4 then
        if has_flag flags SCRIPT_VERIFY_MINIMALDATA \<and> \<not> CheckMinimalPush vchPushValue opcode then fails SCRIPT_ERR_MINIMALDATA
        else Inr (s\<lparr>st_stack := vchPushValue # st_stack s\<rparr>)
      else if fExec \<or> (OP_IF \<le> opcode \<and> opcode \<le> OP_ENDIF) then switch_op E flags script opcode s
      else Inr s)"

definition eval_step :: "ScriptEnv \<Rightarrow> uint32 \<Rightarrow> CScript \<Rightarrow> EvalState \<Rightarrow> CScript \<Rightarrow> (EvalState \<times> CScript) eval" where
  "eval_step E flags script s pc =
     (let fExec = list_all id (vfExec s) in
      case GetOp2 pc of
        None \<Rightarrow> fails SCRIPT_ERR_BAD_OPCODE
      | Some (opcode, vchPushValue, pc) \<Rightarrow>
          if length vchPushValue > MAX_SCRIPT_ELEMENT_SIZE then fails SCRIPT_ERR_PUSH_SIZE
          else let s = (if opcode > OP_16 then s\<lparr>nOpCount := nOpCount s + 1\<rparr> else s) in
          if opcode > OP_16 \<and> nOpCount s > 201 then fails SCRIPT_ERR_OP_COUNT
          else if opcode \<in> disabled_ops then fails SCRIPT_ERR_DISABLED_OPCODE
          else bindR (exec_op E flags script fExec opcode vchPushValue s) (\<lambda>s.
          if length (st_stack s) + length (altstack s) > 1000 then fails SCRIPT_ERR_STACK_SIZE else Inr (s, pc)))"

lemma eval_step_shorter: "eval_step E flags script s pc = Inr (s', pc') \<Longrightarrow> length pc' < length pc"
  by (auto simp: eval_step_def Let_def bindR_eq_Inr split: option.splits if_splits dest: GetOp2_shorter)

function eval_loop :: "ScriptEnv \<Rightarrow> uint32 \<Rightarrow> CScript \<Rightarrow> EvalState \<Rightarrow> CScript \<Rightarrow> EvalState eval" where
  "eval_loop E flags script s pc =
     (if pc = [] then Inr s
      else case eval_step E flags script s pc of Inl e \<Rightarrow> Inl e | Inr (s', pc') \<Rightarrow> eval_loop E flags script s' pc')"
  by pat_completeness auto
termination
  by (relation "measure (\<lambda>(E, flags, script, s, pc). length pc)") (auto dest: eval_step_shorter)

declare eval_loop.simps [simp del]

text \<open>An exception is caught and gives \<open>SCRIPT_ERR_UNKNOWN_ERROR\<close>.\<close>

definition EvalScript :: "ScriptEnv \<Rightarrow> stack \<Rightarrow> CScript \<Rightarrow> uint32 \<Rightarrow> stack eval" where
  "EvalScript E st script flags =
     (if length script > MAX_SCRIPT_SIZE then fails SCRIPT_ERR_SCRIPT_SIZE
      else (case eval_loop E flags script \<lparr>st_stack = st, altstack = [], vfExec = [], nOpCount = 0\<rparr> script of
          Inl Exception \<Rightarrow> fails SCRIPT_ERR_UNKNOWN_ERROR
        | Inl e \<Rightarrow> Inl e
        | Inr s \<Rightarrow> if vfExec s \<noteq> [] then fails SCRIPT_ERR_UNBALANCED_CONDITIONAL else Inr (st_stack s)))"

text \<open>The evaluation of the two scripts, and of the script that a pay-to-script-hash output commits to. The stack that is left is part of the result.\<close>

definition top_true :: "stack \<Rightarrow> unit eval" where
  "top_true st = (if st = [] \<or> \<not> CastToBool (hd st) then fails SCRIPT_ERR_EVAL_FALSE else Inr ())"

definition VerifyScript :: "ScriptEnv \<Rightarrow> CScript \<Rightarrow> CScript \<Rightarrow> uint32 \<Rightarrow> unit eval" where
  "VerifyScript E sig script flags =
     (if has_flag flags SCRIPT_VERIFY_SIGPUSHONLY \<and> \<not> IsPushOnly sig then fails SCRIPT_ERR_SIG_PUSHONLY
      else bindR (EvalScript E [] sig flags) (\<lambda>stackCopy.
      bindR (EvalScript E stackCopy script flags) (\<lambda>st.
      bindR (top_true st) (\<lambda>_.
      bindR (if has_flag flags SCRIPT_VERIFY_P2SH \<and> IsPayToScriptHash script
             then if \<not> IsPushOnly sig then fails SCRIPT_ERR_SIG_PUSHONLY
                  else (case stackCopy of
                      [] \<Rightarrow> Inl Abort
                    | pubKeySerialized # st \<Rightarrow> bindR (EvalScript E st pubKeySerialized flags) (\<lambda>st. bindR (top_true st) (\<lambda>_. Inr st)))
             else Inr st) (\<lambda>st.
      if has_flag flags SCRIPT_VERIFY_CLEANSTACK
      then if \<not> has_flag flags SCRIPT_VERIFY_P2SH then Inl Abort
           else if length st \<noteq> 1 then fails SCRIPT_ERR_CLEANSTACK else Inr ()
      else Inr ())))))"

end
