(* ===== verification/ScriptSafety.thy ===== *)
theory ScriptSafety
  imports Interpreter
begin

text \<open>
  What holds of every evaluation of a script: it stops without an assertion failing, the stacks hold at most 1000 elements of at most 520 bytes, and at most 201
  operations are counted.
\<close>

unbundle bit_operations_syntax

section \<open>Bounds\<close>

definition small :: "stack \<Rightarrow> bool" where "small st \<longleftrightarrow> (\<forall>x \<in> set st. length x \<le> MAX_SCRIPT_ELEMENT_SIZE)"

lemma small_simps [simp]: "small []" "small (x # st) \<longleftrightarrow> length x \<le> MAX_SCRIPT_ELEMENT_SIZE \<and> small st"
  by (auto simp: small_def)

lemma small_parts: "small st \<Longrightarrow> small (take n st)" "small st \<Longrightarrow> small (drop n st)" "small (xs @ ys) \<longleftrightarrow> small xs \<and> small ys" "small st \<Longrightarrow> small (tl st)"
  by (auto simp: small_def dest: in_set_takeD in_set_dropD list.set_sel(2) [rotated]) (metis list.sel(2) list.set_sel(2))

lemma small_nth: "small st \<Longrightarrow> n < length st \<Longrightarrow> length (st ! n) \<le> MAX_SCRIPT_ELEMENT_SIZE"
  by (simp add: small_def)

lemma small_values [simp]: "length (serialize n) \<le> MAX_SCRIPT_ELEMENT_SIZE" "length (bool_vch b) \<le> MAX_SCRIPT_ELEMENT_SIZE"
  "length (vch20 h) \<le> MAX_SCRIPT_ELEMENT_SIZE" "length (vch32 g) \<le> MAX_SCRIPT_ELEMENT_SIZE"
  using serialize_max [of n] by (simp_all add: MAX_SCRIPT_ELEMENT_SIZE_def bool_vch_def vch20_def vch32_def)

lemma script_num_Inr: "script_num vch fm k = Inr n \<longleftrightarrow> CScriptNum vch fm k = Inr n"
  by (simp add: script_num_def split: sum.splits)

lemma script_num_no_abort [simp]: "script_num vch fm k \<noteq> Inl Abort"
  by (simp add: script_num_def split: sum.splits)

lemma bindR_no_abort: "bindR m f \<noteq> Inl Abort \<longleftrightarrow> m \<noteq> Inl Abort \<and> (\<forall>x. m = Inr x \<longrightarrow> f x \<noteq> Inl Abort)"
  by (cases m) simp_all

named_theorems small_ops \<open>what the operations keep of the size of the elements\<close>
named_theorems no_abort \<open>the assertions of the operations hold\<close>

lemma stack_op_small [small_ops]: "stack_op fm opcode st = Inr st' \<Longrightarrow> small st \<Longrightarrow> small st'"
proof -
  assume r: "stack_op fm opcode st = Inr st'" and s: "small st"
  have "length (tl st ! nat n) \<le> MAX_SCRIPT_ELEMENT_SIZE" if "\<not> n < 0" "\<not> int (length st) - 1 \<le> n" for n
    using that by (intro small_nth small_parts(4) s) auto
  then show ?thesis using r s unfolding stack_op_def Let_def
    by (simp split: if_splits list.splits add: bindR_eq_Inr) (auto simp: small_parts)
qed

lemma stack_op_no_abort [no_abort]: "stack_op fm opcode st \<noteq> Inl Abort"
  unfolding stack_op_def Let_def by (simp add: bindR_no_abort split: list.splits)

lemma equal_op_small [small_ops]: "equal_op opcode st = Inr st' \<Longrightarrow> small st \<Longrightarrow> small st'"
  by (auto simp: equal_op_def Let_def split: list.splits if_splits)

lemma equal_op_no_abort [no_abort]: "equal_op opcode st \<noteq> Inl Abort"
  by (auto simp: equal_op_def Let_def split: list.splits)

lemma unary_op_small [small_ops]: "unary_op fm opcode st = Inr st' \<Longrightarrow> small st \<Longrightarrow> small st'"
  by (auto simp: unary_op_def bindR_eq_Inr split: list.splits)

text \<open>An operand has at most four bytes, so that no operator runs out of the 64 bits.\<close>

lemma unary_op_no_abort [no_abort]:
  assumes "opcode \<in> numeric1" shows "unary_op fm opcode st \<noteq> Inl Abort"
proof -
  have "unary_num opcode bn \<noteq> Inl Abort" if "script_num vch fm nDefaultMaxNumSize = Inr bn" for vch bn
    using CScriptNum_bound [of vch fm 4 bn] that assms
    by (auto simp: script_num_Inr nDefaultMaxNumSize_def numeric1_def unary_num_def num_add_def num_sub_def num_neg_def)
  then show ?thesis by (auto simp: unary_op_def bindR_no_abort split: list.splits)
qed

lemma binary_op_small [small_ops]: "binary_op fm opcode st = Inr st' \<Longrightarrow> small st \<Longrightarrow> small st'"
  by (auto simp: binary_op_def bindR_eq_Inr split: list.splits if_splits)

lemma binary_op_no_abort [no_abort]: "opcode \<in> numeric2 \<Longrightarrow> binary_op fm opcode st \<noteq> Inl Abort"
  by (auto simp: binary_op_def binary_num_def numeric2_def bindR_no_abort split: list.splits)

lemma within_op_small [small_ops]: "within_op fm st = Inr st' \<Longrightarrow> small st \<Longrightarrow> small st'"
  by (auto simp: within_op_def bindR_eq_Inr split: list.splits)

lemma within_op_no_abort [no_abort]: "within_op fm st \<noteq> Inl Abort"
  by (auto simp: within_op_def bindR_no_abort split: list.splits)

lemma hash_op_small [small_ops]: "hash_op E opcode st = Inr st' \<Longrightarrow> small st \<Longrightarrow> small st'"
  by (auto simp: hash_op_def split: list.splits)

lemma hash_op_no_abort [no_abort]: "hash_op E opcode st \<noteq> Inl Abort"
  by (auto simp: hash_op_def split: list.splits)

lemma encodings_no_abort [simp]: "CheckSignatureEncoding E vch flags \<noteq> Inl Abort" "CheckPubKeyEncoding vch flags \<noteq> Inl Abort"
  by (auto simp: CheckSignatureEncoding_def CheckPubKeyEncoding_def IsLowDERSignature_def bindR_no_abort)

lemma checksig_op_small [small_ops]: "checksig_op E flags script opcode st = Inr st' \<Longrightarrow> small st \<Longrightarrow> small st'"
  by (auto simp: checksig_op_def bindR_eq_Inr Let_def split: list.splits if_splits)

lemma checksig_op_no_abort [no_abort]: "checksig_op E flags script opcode st \<noteq> Inl Abort"
  by (auto simp: checksig_op_def bindR_no_abort Let_def split: list.splits)

lemma multisig_loop_no_abort [simp]: "multisig_loop E flags script sigs keys \<noteq> Inl Abort"
  by (induction E flags script sigs keys rule: multisig_loop.induct) (auto simp: bindR_no_abort Let_def)

lemma multisig_result_small: "multisig_result flags opcode f st = Inr st' \<Longrightarrow> small st \<Longrightarrow> small st'"
  by (auto simp: multisig_result_def split: list.splits if_splits)

lemma multisig_op_small [small_ops]: "multisig_op E flags script opcode st n = Inr (st', n') \<Longrightarrow> small st \<Longrightarrow> small st' \<and> n' \<le> 201"
  by (auto simp: multisig_op_def Let_def bindR_eq_Inr small_parts dest!: multisig_result_small split: if_splits)

lemma multisig_op_no_abort [no_abort]: "multisig_op E flags script opcode st n \<noteq> Inl Abort"
  by (auto simp: multisig_op_def multisig_result_def bindR_no_abort Let_def split: list.splits)

lemma locktime_op_same: "locktime_op E flags st = Inr st' \<Longrightarrow> st' = st"
  by (auto simp: locktime_op_def bindR_eq_Inr split: list.splits if_splits)

lemma blockatheight_op_small [small_ops]: "blockatheight_op E flags st = Inr st' \<Longrightarrow> small st \<Longrightarrow> small st'"
  by (auto simp: blockatheight_op_def bindR_eq_Inr Let_def split: list.splits if_splits)

definition small_state :: "EvalState \<Rightarrow> bool" where
  "small_state s \<longleftrightarrow> small (st_stack s) \<and> small (altstack s) \<and> nOpCount s \<le> 201"

lemma if_op_small [small_ops]: "if_op opcode s = Inr s' \<Longrightarrow> small_state s \<Longrightarrow> small_state s'"
  by (auto simp: if_op_def small_state_def split: list.splits if_splits)

lemma control_op_small [small_ops]: "control_op E flags opcode s = Inr s' \<Longrightarrow> small_state s \<Longrightarrow> small_state s'"
  by (auto simp: control_op_def small_state_def bindR_eq_Inr dest: locktime_op_same blockatheight_op_small split: list.splits if_splits)

lemma switch_op_small [small_ops]:
  assumes "switch_op E flags script opcode s = Inr s'" "small_state s" shows "small_state s'"
  using assms unfolding switch_op_def Let_def small_state_def
  by (auto simp: bindR_eq_Inr split: if_splits intro: small_ops [unfolded small_state_def] dest: small_ops [unfolded small_state_def])

lemma switch_op_no_abort [no_abort]: "switch_op E flags script opcode s \<noteq> Inl Abort"
  by (simp add: switch_op_def Let_def bindR_no_abort no_abort) (simp add: if_op_def control_op_def locktime_op_def blockatheight_op_def Let_def bindR_no_abort split: list.splits)

section \<open>Evaluations\<close>

definition bounded_state :: "EvalState \<Rightarrow> bool" where
  "bounded_state s \<longleftrightarrow> small_state s \<and> length (st_stack s) + length (altstack s) \<le> 1000"

lemma exec_op_small: "exec_op E flags script fExec opcode vch s = Inr s' \<Longrightarrow> small_state s \<Longrightarrow> length vch \<le> MAX_SCRIPT_ELEMENT_SIZE \<Longrightarrow> small_state s'"
  unfolding exec_op_def by (auto split: if_splits dest: switch_op_small simp: small_state_def)

lemma exec_op_no_abort: "exec_op E flags script fExec opcode vch s \<noteq> Inl Abort"
  by (simp add: exec_op_def no_abort)

lemma eval_step_bounded:
  assumes "eval_step E flags script s pc = Inr (s', pc')" "small_state s" shows "bounded_state s'"
  using assms unfolding eval_step_def Let_def
  by (auto simp: bindR_eq_Inr bounded_state_def split: option.splits if_splits dest!: exec_op_small) (auto simp: small_state_def)

lemma eval_step_no_abort: "eval_step E flags script s pc \<noteq> Inl Abort"
  by (simp add: eval_step_def Let_def bindR_no_abort exec_op_no_abort split: option.splits)

lemma eval_loop_bounded: "eval_loop E flags script s pc = Inr s' \<Longrightarrow> bounded_state s \<Longrightarrow> bounded_state s'"
proof (induction E flags script s pc rule: eval_loop.induct)
  case (1 E flags script s pc)
  show ?case
  proof (cases "pc = []")
    case False
    then obtain t pc' where t: "eval_step E flags script s pc = Inr (t, pc')" "eval_loop E flags script t pc' = Inr s'"
      using 1(2) by (subst (asm) eval_loop.simps) (auto split: sum.splits)
    then show ?thesis using 1(1) [OF False t(1)] eval_step_bounded [OF t(1)] 1(3) by (simp add: bounded_state_def)
  qed (use 1 in \<open>simp add: eval_loop.simps\<close>)
qed

lemma eval_loop_no_abort: "eval_loop E flags script s pc \<noteq> Inl Abort"
proof (induction E flags script s pc rule: eval_loop.induct)
  case (1 E flags script s pc)
  then show ?case using eval_step_no_abort [of E flags script s pc] by (subst eval_loop.simps) (auto split: sum.splits)
qed

lemma EvalScript_stops: "EvalScript E st script flags \<noteq> Inl Abort" "EvalScript E st script flags \<noteq> Inl Exception"
  using eval_loop_no_abort by (auto simp: EvalScript_def split: sum.splits script_exit.splits)

text \<open>A pay-to-script-hash script fails on the empty stack.\<close>

lemma p2sh_needs_argument: "IsPayToScriptHash script \<Longrightarrow> EvalScript E [] script flags \<noteq> Inr st"
proof -
  assume p: "IsPayToScriptHash script"
  then obtain r where r: "script = OP_HASH160 # r" "length r < 62" by (cases script) (auto simp: IsPayToScriptHash_def)
  have "eval_step E flags script \<lparr>st_stack = [], altstack = [], vfExec = [], nOpCount = 0\<rparr> script = fails SCRIPT_ERR_INVALID_STACK_OPERATION"
    unfolding r by (simp add: eval_step_def exec_op_def MAX_SCRIPT_ELEMENT_SIZE_def disabled_ops_def switch_op_def stack_ops_def numeric1_def numeric2_def hash_ops_def hash_op_def)
  then show ?thesis using r by (simp add: EvalScript_def MAX_SCRIPT_SIZE_def eval_loop.simps)
qed

text \<open>Results that are a success or a script error.\<close>

definition soft :: "'a eval \<Rightarrow> bool" where "soft r \<longleftrightarrow> r \<noteq> Inl Abort \<and> r \<noteq> Inl Exception"

lemma soft_bind: "soft m \<Longrightarrow> (\<And>x. m = Inr x \<Longrightarrow> soft (f x)) \<Longrightarrow> soft (bindR m f)"
  by (cases m) (auto simp: soft_def)

lemma soft_simps [simp]: "soft (Inr x)" "soft (fails e)" "soft (EvalScript E st script flags)" "soft (top_true st)"
  using EvalScript_stops by (auto simp: soft_def top_true_def)

text \<open>C24: no evaluation of a script fails an assertion or leaks an exception: verifying a script ends with success or with one of the script errors, as long as a clean
  stack is only asked for together with pay-to-script-hash.\<close>

theorem script_verification_stops:
  assumes "has_flag flags SCRIPT_VERIFY_CLEANSTACK \<Longrightarrow> has_flag flags SCRIPT_VERIFY_P2SH"
  shows "VerifyScript E sig script flags = Inr () \<or> (\<exists>e. VerifyScript E sig script flags = fails e)"
proof -
  have "soft (VerifyScript E sig script flags)" unfolding VerifyScript_def
    by (auto intro!: soft_bind split: list.split simp: assms dest: p2sh_needs_argument)
  then show ?thesis by (cases "VerifyScript E sig script flags") (auto simp: soft_def intro: script_exit.exhaust)
qed

text \<open>A concrete checker: a signature is good for the key whose first byte it ends with.\<close>

definition env_script :: ScriptEnv where
  "env_script = \<lparr>CheckSig = (\<lambda>vchSig vchPubKey script. vchSig \<noteq> [] \<and> vchPubKey \<noteq> [] \<and> last vchSig = hd vchPubKey), CheckLockTime = (\<lambda>n. n \<le> 100),
     CheckBlockHash = (\<lambda>h vch. h \<le> 500 \<and> vch \<noteq> []), CheckLowS = (\<lambda>_. True), CRIPEMD160 = (\<lambda>vch. word_of_nat (le_value vch)), CSHA1 = (\<lambda>vch. word_of_nat (le_value vch)),
     CSHA256 = (\<lambda>vch. word_of_nat (le_value vch)), CHash160 = (\<lambda>vch. word_of_nat (le_value vch)), CHash256 = (\<lambda>vch. word_of_nat (le_value vch))\<rparr>"

theorem script_verification_stops_witness:
  "VerifyScript env_script [OP_1] [OP_1, OP_EQUAL] 0x101 = Inr () \<or> (\<exists>e. VerifyScript env_script [OP_1] [OP_1, OP_EQUAL] 0x101 = fails e)"
  using script_verification_stops [of "0x101" env_script "[OP_1]" "[OP_1, OP_EQUAL]"] by (simp add: has_flag_def)

text \<open>C25: an evaluation leaves at most 1000 elements on the two stacks, none longer than 520 bytes, and counts at most 201 operations.\<close>

theorem evaluation_bounded:
  assumes "eval_loop E flags script \<lparr>st_stack = st, altstack = [], vfExec = [], nOpCount = 0\<rparr> script = Inr s" and "length st \<le> 1000" and "\<forall>x \<in> set st. length x \<le> 520"
  shows "length (st_stack s) + length (altstack s) \<le> 1000 \<and> (\<forall>x \<in> set (st_stack s) \<union> set (altstack s). length x \<le> 520) \<and> nOpCount s \<le> 201"
proof -
  have "bounded_state \<lparr>st_stack = st, altstack = [], vfExec = [], nOpCount = 0\<rparr>" using assms(2,3) by (simp add: bounded_state_def small_state_def small_def MAX_SCRIPT_ELEMENT_SIZE_def)
  then have "bounded_state s" by (rule eval_loop_bounded [OF assms(1)])
  then show ?thesis by (auto simp: bounded_state_def small_state_def small_def MAX_SCRIPT_ELEMENT_SIZE_def)
qed

theorem evaluation_bounded_witness:
  "\<exists>s. eval_loop env_script 0 [OP_1, OP_DUP] \<lparr>st_stack = [[5]], altstack = [], vfExec = [], nOpCount = 0\<rparr> [OP_1, OP_DUP] = Inr s \<and> length (st_stack s) + length (altstack s) \<le> 1000"
proof -
  let ?s = "\<lparr>st_stack = [[1], [1], [5]], altstack = [], vfExec = [], nOpCount = 1\<rparr> :: EvalState"
  have n: "serialize 1 = [1]" by (simp add: serialize_def INT64_MIN_def abs_bytes.simps)
  have "eval_loop env_script 0 [OP_1, OP_DUP] \<lparr>st_stack = [[5]], altstack = [], vfExec = [], nOpCount = 0\<rparr> [OP_1, OP_DUP] = Inr ?s"
    by (simp add: eval_loop.simps eval_step_def exec_op_def switch_op_def stack_ops_def stack_op_def disabled_ops_def MAX_SCRIPT_ELEMENT_SIZE_def GetOp2_def n)
  then show ?thesis using evaluation_bounded [of env_script 0 "[OP_1, OP_DUP]" "[[5]]" ?s] by auto
qed

end
