(* ===== verification/ScriptSpend.thy ===== *)
theory ScriptSpend
  imports ScriptSafety
begin

text \<open>
  The signature checkers of \<open>script/interpreter.cpp\<close>, the scripts that \<open>script/standard.cpp\<close> makes for a destination, and what it takes to spend them. An active chain is
  the list of its block hashes from the genesis block. Signature verification and the hash of a transaction being signed are parameters.
\<close>

unbundle bit_operations_syntax

section \<open>Signature checkers\<close>

definition pubkey_GetLen :: "byte \<Rightarrow> nat" where
  "pubkey_GetLen chHeader = (if chHeader = 2 \<or> chHeader = 3 then 33 else if chHeader = 4 \<or> chHeader = 6 \<or> chHeader = 7 then 65 else 0)"

definition pubkey_IsValid :: "bytes \<Rightarrow> bool" where
  "pubkey_IsValid vch \<longleftrightarrow> vch \<noteq> [] \<and> pubkey_GetLen (hd vch) \<noteq> 0 \<and> pubkey_GetLen (hd vch) = length vch"

definition NOT_AN_INPUT :: nat where "NOT_AN_INPUT = 4294967295"

text \<open>\<open>serializer\<close> is the hash of what \<open>CTransactionSignatureSerializer\<close> writes.\<close>

definition SignatureHash_tx :: "(CScript \<Rightarrow> CTransaction \<Rightarrow> nat \<Rightarrow> byte \<Rightarrow> uint256) \<Rightarrow> CScript \<Rightarrow> CTransaction \<Rightarrow> nat \<Rightarrow> byte \<Rightarrow> uint256 result" where
  "SignatureHash_tx serializer scriptCode txTo nIn nHashType =
     (let nTotalInputs = (if IsScVersion txTo then length (tx_vin txTo) + length (vcsw_ccin txTo) else length (tx_vin txTo)) in
      if nIn \<ge> nTotalInputs \<and> nIn \<noteq> NOT_AN_INPUT then Inl (Throw ''input index is out of range'')
      else if nHashType AND 0x1F = 3 \<and> nIn \<ge> length (tx_vout txTo) then Inl (Throw ''no matching output for SIGHASH_SINGLE'')
      else Inr (serializer scriptCode txTo nIn nHashType))"

definition SignatureHash_cert :: "(CScript \<Rightarrow> CScCertificate \<Rightarrow> nat \<Rightarrow> byte \<Rightarrow> uint256) \<Rightarrow> CScript \<Rightarrow> CScCertificate \<Rightarrow> nat \<Rightarrow> byte \<Rightarrow> uint256 result" where
  "SignatureHash_cert serializer scriptCode certTo nIn nHashType =
     (if nIn \<ge> length (cert_vin certTo) \<and> nIn \<noteq> NOT_AN_INPUT then Inl (Throw ''input index is out of range'')
      else if nHashType AND 0x1F = 3 \<and> int nIn \<ge> cert_nFirstBwtPos certTo mod 2 ^ 32 then Inl (Throw ''no matching output for SIGHASH_SINGLE'')
      else Inr (serializer scriptCode certTo nIn nHashType))"

definition tx_CheckSig ::
  "(uint256 \<Rightarrow> bytes \<Rightarrow> bytes \<Rightarrow> bool) \<Rightarrow> (CScript \<Rightarrow> CTransaction \<Rightarrow> nat \<Rightarrow> byte \<Rightarrow> uint256) \<Rightarrow> CTransaction \<Rightarrow> nat \<Rightarrow> bytes \<Rightarrow> bytes \<Rightarrow> CScript \<Rightarrow> bool" where
  "tx_CheckSig Verify serializer txTo nIn vchSigIn vchPubKey scriptCode =
     (if \<not> pubkey_IsValid vchPubKey then False
      else if vchSigIn = [] then False
      else (case SignatureHash_tx serializer scriptCode txTo nIn (last vchSigIn) of
          Inl _ \<Rightarrow> False
        | Inr sighash \<Rightarrow> Verify sighash (butlast vchSigIn) vchPubKey))"

definition cert_CheckSig ::
  "(uint256 \<Rightarrow> bytes \<Rightarrow> bytes \<Rightarrow> bool) \<Rightarrow> (CScript \<Rightarrow> CScCertificate \<Rightarrow> nat \<Rightarrow> byte \<Rightarrow> uint256) \<Rightarrow> CScCertificate \<Rightarrow> nat \<Rightarrow> bytes \<Rightarrow> bytes \<Rightarrow> CScript \<Rightarrow> bool" where
  "cert_CheckSig Verify serializer certTo nIn vchSigIn vchPubKey scriptCode =
     (if \<not> pubkey_IsValid vchPubKey then False
      else if vchSigIn = [] then False
      else if last vchSigIn \<noteq> 1 then False
      else (case SignatureHash_cert serializer scriptCode certTo nIn (last vchSigIn) of
          Inl _ \<Rightarrow> False
        | Inr sighash \<Rightarrow> Verify sighash (butlast vchSigIn) vchPubKey))"

definition LOCKTIME_THRESHOLD :: int where "LOCKTIME_THRESHOLD = 500000000"

definition tx_CheckLockTime :: "CTransaction \<Rightarrow> nat \<Rightarrow> int \<Rightarrow> bool" where
  "tx_CheckLockTime txTo nIn lockTime =
     (let txLockTime = uint (nLockTime txTo) in
      if \<not> ((txLockTime < LOCKTIME_THRESHOLD \<and> lockTime < LOCKTIME_THRESHOLD) \<or> (txLockTime \<ge> LOCKTIME_THRESHOLD \<and> lockTime \<ge> LOCKTIME_THRESHOLD)) then False
      else if lockTime > txLockTime then False
      else if nIn < length (tx_vin txTo) \<and> nSequence (tx_vin txTo ! nIn) = - 1 then False
      else True)"

definition chain_Height :: "uint256 list \<Rightarrow> int" where "chain_Height chain = int (length chain) - 1"

text \<open>A block of a negative height is dereferenced as a null pointer.\<close>

definition CheckReplayProtectionData :: "int \<Rightarrow> uint256 list option \<Rightarrow> int \<Rightarrow> bytes \<Rightarrow> bool result" where
  "CheckReplayProtectionData safeDepth chainIn nHeight vchCompareTo = (case chainIn of
     None \<Rightarrow> Inr False
   | Some chain \<Rightarrow>
       if nHeight > chain_Height chain then Inr False
       else if nHeight \<le> chain_Height chain - safeDepth then Inr True
       else if nHeight < 0 then Inl Undefined
       else let vchBlockHash = vch32 (chain ! nat nHeight) in
         if vchBlockHash = [] \<or> vchCompareTo = [] then Inr False else Inr (vchCompareTo = vchBlockHash))"

text \<open>The checkers of a transaction and of a certificate: the hash functions of \<open>H\<close> with the methods of the class. A certificate has no lock time.\<close>

definition tx_checker ::
  "ScriptEnv \<Rightarrow> (uint256 \<Rightarrow> bytes \<Rightarrow> bytes \<Rightarrow> bool) \<Rightarrow> (CScript \<Rightarrow> CTransaction \<Rightarrow> nat \<Rightarrow> byte \<Rightarrow> uint256) \<Rightarrow> int \<Rightarrow> CTransaction \<Rightarrow> nat \<Rightarrow> uint256 list option \<Rightarrow> ScriptEnv" where
  "tx_checker H Verify serializer safeDepth txTo nIn chain = H\<lparr>CheckSig := tx_CheckSig Verify serializer txTo nIn, CheckLockTime := tx_CheckLockTime txTo nIn,
     CheckBlockHash := (\<lambda>nHeight vch. CheckReplayProtectionData safeDepth chain nHeight vch = Inr True)\<rparr>"

definition cert_checker ::
  "ScriptEnv \<Rightarrow> (uint256 \<Rightarrow> bytes \<Rightarrow> bytes \<Rightarrow> bool) \<Rightarrow> (CScript \<Rightarrow> CScCertificate \<Rightarrow> nat \<Rightarrow> byte \<Rightarrow> uint256) \<Rightarrow> int \<Rightarrow> CScCertificate \<Rightarrow> nat \<Rightarrow> uint256 list option \<Rightarrow> ScriptEnv" where
  "cert_checker H Verify serializer safeDepth certTo nIn chain = H\<lparr>CheckSig := cert_CheckSig Verify serializer certTo nIn, CheckLockTime := (\<lambda>_. True),
     CheckBlockHash := (\<lambda>nHeight vch. CheckReplayProtectionData safeDepth chain nHeight vch = Inr True)\<rparr>"

section \<open>Scripts for destinations\<close>

datatype CTxDestination = CNoDestination | CKeyID uint160 | CScriptID uint160

definition CBH_DELTA_HEIGHT :: int where "CBH_DELTA_HEIGHT = 300"

definition replay_suffix :: "uint256 list \<Rightarrow> bool \<Rightarrow> CScript" where
  "replay_suffix chainActive withCheckBlockAtHeight =
     (if chainActive = [] \<or> \<not> withCheckBlockAtHeight then []
      else let blockIndex = chain_Height chainActive - CBH_DELTA_HEIGHT; blockIndex = (if blockIndex < 0 then 0 else blockIndex) in
        push_data (vch32 (chainActive ! nat blockIndex)) @ push_int64 blockIndex @ [OP_CHECKBLOCKATHEIGHT])"

definition GetScriptForDestination :: "uint256 list \<Rightarrow> CTxDestination \<Rightarrow> bool \<Rightarrow> CScript" where
  "GetScriptForDestination chainActive dest withCheckBlockAtHeight = (case dest of
     CNoDestination \<Rightarrow> []
   | CKeyID keyID \<Rightarrow> [OP_DUP, OP_HASH160] @ push_data (vch20 keyID) @ [OP_EQUALVERIFY, OP_CHECKSIG] @ replay_suffix chainActive withCheckBlockAtHeight
   | CScriptID scriptID \<Rightarrow> [OP_HASH160] @ push_data (vch20 scriptID) @ [OP_EQUAL] @ replay_suffix chainActive withCheckBlockAtHeight)"

definition GetScriptForMultisig :: "int \<Rightarrow> bytes list \<Rightarrow> CScript result" where
  "GetScriptForMultisig nRequired keys =
     bindR (EncodeOP_N nRequired) (\<lambda>m. bindR (EncodeOP_N (int (length keys))) (\<lambda>n.
       Inr (m # concat (map push_data keys) @ [n, OP_CHECKMULTISIG])))"

section \<open>Steps of an evaluation\<close>

lemma eval_loop_Nil [simp]: "eval_loop E flags script s [] = Inr s"
  by (simp add: eval_loop.simps)

text \<open>One instruction that is executed.\<close>

lemma eval_loop_op:
  assumes "OP_PUSHDATA4 < opcode" "opcode \<notin> disabled_ops" "list_all id (vfExec s)" "opcode > OP_16 \<Longrightarrow> nOpCount s < 201"
    "switch_op E flags script opcode (if opcode > OP_16 then s\<lparr>nOpCount := nOpCount s + 1\<rparr> else s) = Inr s'" "length (st_stack s') + length (altstack s') \<le> 1000"
  shows "eval_loop E flags script s (opcode # pc) = eval_loop E flags script s' pc"
proof -
  have n: "\<not> opcode \<le> OP_PUSHDATA4" using assms(1) by (simp only: not_le)
  have "eval_step E flags script s (opcode # pc) = Inr (s', pc)"
    using assms n by (auto simp: eval_step_def exec_op_def MAX_SCRIPT_ELEMENT_SIZE_def Let_def)
  then show ?thesis by (subst eval_loop.simps) simp
qed

lemma eval_loop_op_fails:
  assumes "OP_PUSHDATA4 < opcode" "opcode \<notin> disabled_ops" "list_all id (vfExec s)" "opcode > OP_16 \<Longrightarrow> nOpCount s < 201"
    "switch_op E flags script opcode (if opcode > OP_16 then s\<lparr>nOpCount := nOpCount s + 1\<rparr> else s) = Inl e"
  shows "eval_loop E flags script s (opcode # pc) = Inl e"
proof -
  have n: "\<not> opcode \<le> OP_PUSHDATA4" using assms(1) by (simp only: not_le)
  have "eval_step E flags script s (opcode # pc) = Inl e"
    using assms n by (auto simp: eval_step_def exec_op_def MAX_SCRIPT_ELEMENT_SIZE_def Let_def)
  then show ?thesis by (subst eval_loop.simps) simp
qed

lemma push_minimal: "2 \<le> length b \<Longrightarrow> length b \<le> MAX_SCRIPT_ELEMENT_SIZE \<Longrightarrow> CheckMinimalPush b (push_opcode b)"
  by (auto simp: CheckMinimalPush_def push_opcode_def MAX_SCRIPT_ELEMENT_SIZE_def unat_of_nat)

lemma eval_loop_push:
  assumes "length b \<le> MAX_SCRIPT_ELEMENT_SIZE" "list_all id (vfExec s)" "CheckMinimalPush b (push_opcode b)" "length (st_stack s) + length (altstack s) < 1000"
  shows "eval_loop E flags script s (push_data b @ pc) = eval_loop E flags script (s\<lparr>st_stack := b # st_stack s\<rparr>) pc"
proof -
  have l: "length b < 2 ^ 32" using assms(1) by (simp add: MAX_SCRIPT_ELEMENT_SIZE_def)
  have p: "push_opcode b \<le> OP_PUSHDATA4" by (rule push_opcode_le)
  then have "\<not> push_opcode b > OP_16" "push_opcode b \<notin> disabled_ops" by (auto simp: disabled_ops_def not_less elim: order_trans)
  then have "eval_step E flags script s (push_data b @ pc) = Inr (s\<lparr>st_stack := b # st_stack s\<rparr>, pc)"
    using assms l p by (simp add: eval_step_def exec_op_def Let_def)
  moreover have ne: "push_data b @ pc \<noteq> []" by (simp add: push_data_def)
  ultimately show ?thesis by (subst eval_loop.simps) (simp only: if_not_P [OF ne] sum.case prod.case if_False)
qed

text \<open>A number that is pushed is its encoding on the stack.\<close>

lemma serialize_small: "0 < n \<Longrightarrow> n < 128 \<Longrightarrow> serialize n = [word_of_int n]"
proof -
  assume n: "0 < n" "n < 128"
  then have u: "unat (word_of_int n :: byte) = nat n" by (simp only: unat_eq_nat_uint uint_word_of_int) simp
  then have "n = num_value [] (word_of_int n)" using n by (simp add: num_value_def)
  then show ?thesis using serialize_shape [of n "[]" "word_of_int n"] n u by simp
qed

lemma eval_loop_push_int:
  assumes "0 \<le> n" "n < 2 ^ 31" "list_all id (vfExec s)" "length (st_stack s) + length (altstack s) < 1000"
  shows "eval_loop E flags script s (push_int64 n @ pc) = eval_loop E flags script (s\<lparr>st_stack := serialize n # st_stack s\<rparr>) pc"
proof -
  consider "n = 0" | "1 \<le> n" "n \<le> 16" | "16 < n" using assms(1) by linarith
  then show ?thesis
  proof cases
    case 1
    have "push_int64 n = push_data []" "serialize n = []" using 1 by (simp_all add: push_int64_def push_data_def serialize_def)
    then show ?thesis using eval_loop_push [of "[]" s E flags script pc] assms by (simp add: CheckMinimalPush_def push_opcode_def)
  next
    case 2
    define op where "op = (word_of_int (n + 80) :: byte)"
    have u: "uint op = n + 80" unfolding op_def using 2 by (simp only: uint_word_of_int) simp
    have o: "OP_1 \<le> op" "op \<le> OP_16" "OP_PUSHDATA4 < op" "\<not> OP_16 < op" using 2 by (simp_all add: word_le_def word_less_def u)
    then have "op \<notin> disabled_ops" by (auto simp: disabled_ops_def not_less)
    moreover have "switch_op E flags script op s = Inr (s\<lparr>st_stack := serialize n # st_stack s\<rparr>)" using o by (simp add: switch_op_def u)
    moreover have "push_int64 n = [op]" using 2 by (simp add: push_int64_def op_def)
    ultimately show ?thesis using eval_loop_op [of op s E flags script "s\<lparr>st_stack := serialize n # st_stack s\<rparr>" pc] o assms by simp
  next
    case 3
    have "CheckMinimalPush (serialize n) (push_opcode (serialize n))"
    proof (cases "n < 128")
      case True
      have u: "uint (word_of_int n :: byte) = n" using 3 True by (simp add: uint_word_of_int)
      then have "\<not> (word_of_int n :: byte) \<le> 16" "(word_of_int n :: byte) \<noteq> 0x81" using 3 True by (auto simp: word_le_def word_uint_eq_iff)
      then show ?thesis using serialize_small [of n] 3 True by (simp add: CheckMinimalPush_def push_opcode_def)
    next
      case False
      obtain xs b where x: "serialize n = xs @ [b]" "n = num_value xs b" by (rule serialize_ok [of n 3]) (use 3 assms(2) in auto)
      define m where "m = int (unat b mod 128)"
      have "num_value [] b = m \<or> num_value [] b = - m" by (simp add: num_value_def m_def)
      moreover have "0 \<le> m" "m < 128" by (simp_all add: m_def zmod_int)
      ultimately have "num_value [] b < 128" by linarith
      then have "xs \<noteq> []" using x(2) False by auto
      then have "2 \<le> length (serialize n)" unfolding x(1) by (cases xs) simp_all
      then show ?thesis by (intro push_minimal) simp_all
    qed
    moreover have "push_int64 n = push_data (serialize n)" using 3 by (simp add: push_int64_def)
    ultimately show ?thesis using eval_loop_push [of "serialize n" s] assms by simp
  qed
qed

section \<open>Spending an output to a key\<close>

abbreviation state0 :: "stack \<Rightarrow> EvalState" where "state0 st \<equiv> \<lparr>st_stack = st, altstack = [], vfExec = [], nOpCount = 0\<rparr>"

lemma vch_lengths [simp]: "length (vch20 h) = 20" "length (vch32 g) = 32"
  by (simp_all add: vch20_def vch32_def)

lemma EvalScript_two_pushes:
  assumes "2 \<le> length a" "length a \<le> MAX_SCRIPT_ELEMENT_SIZE" "2 \<le> length b" "length b \<le> MAX_SCRIPT_ELEMENT_SIZE"
  shows "EvalScript E [] (push_data a @ push_data b) flags = Inr [b, a]"
proof -
  have "length (push_data a @ push_data b) \<le> MAX_SCRIPT_SIZE" using assms by (simp add: push_data_def MAX_SCRIPT_SIZE_def MAX_SCRIPT_ELEMENT_SIZE_def)
  moreover have "eval_loop E flags script (state0 []) (push_data a @ push_data b) = Inr (state0 [b, a])" for script
    using eval_loop_push [of a "state0 []" E flags script "push_data b"] eval_loop_push [of b "state0 [a]" E flags script "[]"] assms
    by (simp add: push_minimal MAX_SCRIPT_ELEMENT_SIZE_def)
  ultimately show ?thesis by (simp add: EvalScript_def)
qed

lemma IsPushOnly_pushes: "length a < 2 ^ 32 \<Longrightarrow> IsPushOnly pc \<Longrightarrow> IsPushOnly (push_data a @ pc)"
proof -
  assume a: "length a < 2 ^ 32" "IsPushOnly pc"
  have "\<not> push_opcode a > OP_16" using push_opcode_le [of a] by (auto simp: not_less elim: order_trans)
  moreover have ne: "push_data a @ pc \<noteq> []" by (simp add: push_data_def)
  ultimately show ?thesis using a by (subst IsPushOnly.simps) (simp only: if_not_P [OF ne] GetOp2_push option.case prod.case if_False)
qed

text \<open>The conditions an input must meet: the hash of the key, the encodings, the signature.\<close>

definition signed_by :: "ScriptEnv \<Rightarrow> uint32 \<Rightarrow> uint160 \<Rightarrow> CScript \<Rightarrow> bytes \<Rightarrow> bytes \<Rightarrow> bool" where
  "signed_by E flags keyID script vchSig vchPubKey \<longleftrightarrow> vch20 (CHash160 E vchPubKey) = vch20 keyID \<and> CheckSignatureEncoding E vchSig flags = Inr ()
     \<and> CheckPubKeyEncoding vchPubKey flags = Inr () \<and> CheckSig E vchSig vchPubKey script"

lemma eval_key_hash:
  assumes "length vchPubKey \<le> MAX_SCRIPT_ELEMENT_SIZE" "n \<le> 100"
  shows "eval_loop E flags script \<lparr>st_stack = [vchPubKey, vchSig], altstack = [], vfExec = [], nOpCount = n\<rparr> ([OP_DUP, OP_HASH160] @ push_data (vch20 keyID) @ [OP_EQUALVERIFY, OP_CHECKSIG] @ pc) =
    (if vch20 (CHash160 E vchPubKey) \<noteq> vch20 keyID then fails SCRIPT_ERR_EQUALVERIFY
     else bindR (CheckSignatureEncoding E vchSig flags) (\<lambda>_. bindR (CheckPubKeyEncoding vchPubKey flags) (\<lambda>_.
       eval_loop E flags script \<lparr>st_stack = [bool_vch (CheckSig E vchSig vchPubKey script)], altstack = [], vfExec = [], nOpCount = n + 4\<rparr> pc)))"
proof -
  note D = disabled_ops_def switch_op_def stack_ops_def numeric1_def numeric2_def hash_ops_def
  let ?h = "vch20 (CHash160 E vchPubKey)" and ?k = "vch20 keyID"
  let ?s = "\<lambda>st n. \<lparr>st_stack = st, altstack = [], vfExec = [], nOpCount = n\<rparr>"
  have 1: "eval_loop E flags script (?s [vchPubKey, vchSig] n) (OP_DUP # q) = eval_loop E flags script (?s [vchPubKey, vchPubKey, vchSig] (n + 1)) q" for q
    by (rule eval_loop_op) (use assms(2) in \<open>simp_all add: D stack_op_def\<close>)
  have 2: "eval_loop E flags script (?s [vchPubKey, vchPubKey, vchSig] (n + 1)) (OP_HASH160 # q) = eval_loop E flags script (?s [?h, vchPubKey, vchSig] (n + 2)) q" for q
    by (rule eval_loop_op) (use assms(2) in \<open>simp_all add: D hash_op_def\<close>)
  have 3: "eval_loop E flags script (?s [?h, vchPubKey, vchSig] (n + 2)) (push_data ?k @ q) = eval_loop E flags script (?s [?k, ?h, vchPubKey, vchSig] (n + 2)) q" for q
    by (subst eval_loop_push) (simp_all add: push_minimal MAX_SCRIPT_ELEMENT_SIZE_def)
  have 4: "eval_loop E flags script (?s [?k, ?h, vchPubKey, vchSig] (n + 2)) (OP_EQUALVERIFY # q) = eval_loop E flags script (?s [vchPubKey, vchSig] (n + 3)) q" if "?h = ?k" for q
    by (rule eval_loop_op) (use assms(2) in \<open>simp_all add: D equal_op_def that\<close>)
  have 5: "eval_loop E flags script (?s [?k, ?h, vchPubKey, vchSig] (n + 2)) (OP_EQUALVERIFY # q) = fails SCRIPT_ERR_EQUALVERIFY" if "?h \<noteq> ?k" for q
    by (rule eval_loop_op_fails) (use assms(2) in \<open>simp_all add: D equal_op_def that\<close>)
  have 6: "eval_loop E flags script (?s [vchPubKey, vchSig] (n + 3)) (OP_CHECKSIG # q) =
    bindR (CheckSignatureEncoding E vchSig flags) (\<lambda>_. bindR (CheckPubKeyEncoding vchPubKey flags) (\<lambda>_. eval_loop E flags script (?s [bool_vch (CheckSig E vchSig vchPubKey script)] (n + 4)) q))" for q
  proof (cases "CheckSignatureEncoding E vchSig flags")
    case (Inl e)
    then show ?thesis using assms(2) by (simp add: eval_loop_op_fails D checksig_op_def)
  next
    case s: (Inr x)
    show ?thesis
    proof (cases "CheckPubKeyEncoding vchPubKey flags")
      case (Inl e)
      then show ?thesis using s assms(2) by (simp add: eval_loop_op_fails D checksig_op_def)
    next
      case (Inr y)
      then show ?thesis using s assms(2) by simp (rule eval_loop_op, simp_all add: D checksig_op_def)
    qed
  qed
  show ?thesis
  proof (cases "?h = ?k")
    case True
    then show ?thesis unfolding append_Cons append_Nil 1 2 3 4 [OF True] 6 by simp
  next
    case False
    then show ?thesis unfolding append_Cons append_Nil 1 2 3 5 [OF False] by simp
  qed
qed

text \<open>The block that an output built on a chain refers to, and whether another chain accepts the reference.\<close>

definition referenced_height :: "uint256 list \<Rightarrow> int" where
  "referenced_height chain = max 0 (chain_Height chain - CBH_DELTA_HEIGHT)"

definition same_history :: "int \<Rightarrow> uint256 list \<Rightarrow> uint256 list \<Rightarrow> bool" where
  "same_history safeDepth chain chain' \<longleftrightarrow> referenced_height chain \<le> chain_Height chain' \<and>
     (referenced_height chain \<le> chain_Height chain' - safeDepth \<or> chain' ! nat (referenced_height chain) = chain ! nat (referenced_height chain))"

definition on_chain :: "int \<Rightarrow> uint256 list \<Rightarrow> ScriptEnv \<Rightarrow> bool" where
  "on_chain safeDepth chain E \<longleftrightarrow> CheckBlockHash E = (\<lambda>nHeight vch. CheckReplayProtectionData safeDepth (Some chain) nHeight vch = Inr True)"

lemma vch32_inj [simp]: "vch32 a = vch32 b \<longleftrightarrow> a = b"
proof
  assume "vch32 a = vch32 b"
  then have "le_value (vch32 a) = le_value (vch32 b)" by simp
  moreover have "unat a < 2 ^ 256" "unat b < 2 ^ 256" using unsigned_less [of a] unsigned_less [of b] by simp_all
  ultimately show "a = b" by (simp add: vch32_def write_le_value word_unat_eq_iff)
qed simp

lemma reference_accepted:
  assumes "on_chain safeDepth chain' E" "chain \<noteq> []"
  shows "CheckBlockHash E (referenced_height chain) (vch32 (chain ! nat (referenced_height chain))) \<longleftrightarrow> same_history safeDepth chain chain'"
proof -
  have "vch32 g \<noteq> []" for g by (metis vch_lengths(2) list.size(3) zero_neq_numeral)
  then show ?thesis using assms by (auto simp: on_chain_def CheckReplayProtectionData_def same_history_def referenced_height_def Let_def)
qed

lemma eval_replay_suffix:
  assumes E: "on_chain safeDepth chain' E" and c: "chain \<noteq> []" "length chain < 2 ^ 31"
  shows "eval_loop E flags script \<lparr>st_stack = [x], altstack = [], vfExec = [], nOpCount = 4\<rparr> (replay_suffix chain True) =
    (if has_flag flags SCRIPT_VERIFY_CHECKBLOCKATHEIGHT \<and> \<not> same_history safeDepth chain chain' then fails SCRIPT_ERR_NOT_FINAL
     else Inr \<lparr>st_stack = [x], altstack = [], vfExec = [], nOpCount = 5\<rparr>)"
proof -
  let ?r = "referenced_height chain" and ?s = "\<lambda>st n. \<lparr>st_stack = st, altstack = [], vfExec = [], nOpCount = n\<rparr>"
  let ?h = "vch32 (chain ! nat ?r)"
  note D = disabled_ops_def switch_op_def stack_ops_def numeric1_def numeric2_def hash_ops_def control_op_def blockatheight_op_def
  have r: "0 \<le> ?r" "?r < 2 ^ 31" using c by (auto simp: referenced_height_def chain_Height_def CBH_DELTA_HEIGHT_def)
  have suf: "replay_suffix chain True = push_data ?h @ push_int64 ?r @ [OP_CHECKBLOCKATHEIGHT]"
    using c by (simp add: replay_suffix_def referenced_height_def Let_def max_def)
  have n: "script_num (serialize ?r) True 4 = Inr ?r" "getint ?r = ?r" using CScriptNum_serialize [of ?r 3 4 True] r by (simp_all add: script_num_def getint_def)
  have "length (serialize ?r) \<le> 4" using serialize_length [of ?r 3] r by simp
  have "eval_loop E flags script (?s [x] 4) (replay_suffix chain True) = eval_loop E flags script (?s [serialize ?r, ?h, x] 4) [OP_CHECKBLOCKATHEIGHT]"
    unfolding suf using r by (simp add: eval_loop_push push_minimal eval_loop_push_int MAX_SCRIPT_ELEMENT_SIZE_def)
  also have "\<dots> = (if has_flag flags SCRIPT_VERIFY_CHECKBLOCKATHEIGHT \<and> \<not> same_history safeDepth chain chain' then fails SCRIPT_ERR_NOT_FINAL else Inr (?s [x] 5))"
  proof (cases "has_flag flags SCRIPT_VERIFY_CHECKBLOCKATHEIGHT \<and> \<not> same_history safeDepth chain chain'")
    case True
    then show ?thesis using n reference_accepted [OF E c(1)] r \<open>length (serialize ?r) \<le> 4\<close> by (simp add: eval_loop_op_fails D)
  next
    case False
    have "eval_loop E flags script (?s [serialize ?r, ?h, x] 4) [OP_CHECKBLOCKATHEIGHT] = eval_loop E flags script (?s [x] 5) []"
      by (rule eval_loop_op) (use False n reference_accepted [OF E c(1)] r \<open>length (serialize ?r) \<le> 4\<close> in \<open>auto simp: D upgradable_nops_def\<close>)
    then show ?thesis using False by simp
  qed
  finally show ?thesis .
qed

lemma push_lengths: "length (push_data b) \<le> length b + 5" "length (push_int64 n) \<le> 14"
proof -
  show d: "length (push_data b) \<le> length b + 5" for b by (simp add: push_data_def)
  show "length (push_int64 n) \<le> 14" using d [of "serialize n"] serialize_max [of n] by (simp add: push_int64_def)
qed

lemma replay_suffix_length: "length (replay_suffix chain w) \<le> 60"
  using push_lengths(1) [of "vch32 (chain ! nat (chain_Height chain - CBH_DELTA_HEIGHT))"] push_lengths(1) [of "vch32 (chain ! 0)"]
    push_lengths(2) [of "chain_Height chain - CBH_DELTA_HEIGHT"] push_lengths(2) [of 0]
  by (simp add: replay_suffix_def Let_def)

lemma encodings_soft: "CheckSignatureEncoding E vch flags \<noteq> Inl Exception" "CheckPubKeyEncoding vch flags \<noteq> Inl Exception"
  by (auto simp: CheckSignatureEncoding_def CheckPubKeyEncoding_def IsLowDERSignature_def)

lemma bool_vch_inj [simp]: "bool_vch f = bool_vch g \<longleftrightarrow> f = g" by (simp add: bool_vch_def)

text \<open>Two values are pushed and a script that is not a pay-to-script-hash one leaves a truth value.\<close>

lemma VerifyScript_two_pushes:
  assumes "2 \<le> length a" "length a \<le> 520" "2 \<le> length b" "length b \<le> 520" "\<not> IsPayToScriptHash script"
    "has_flag flags SCRIPT_VERIFY_CLEANSTACK \<Longrightarrow> has_flag flags SCRIPT_VERIFY_P2SH" "(\<exists>e. EvalScript E [b, a] script flags = Inl e) \<or> EvalScript E [b, a] script flags = Inr [bool_vch f]"
  shows "VerifyScript E (push_data a @ push_data b) script flags = Inr () \<longleftrightarrow> EvalScript E [b, a] script flags = Inr [bool_vch True]"
proof -
  let ?sig = "push_data a @ push_data b"
  have "IsPushOnly ?sig" using IsPushOnly_pushes [OF _ IsPushOnly_pushes [of b "[]"], of a] assms(2,4) by (simp add: IsPushOnly.simps)
  moreover have "EvalScript E [] ?sig flags = Inr [b, a]" using assms(1-4) by (intro EvalScript_two_pushes) (simp_all add: MAX_SCRIPT_ELEMENT_SIZE_def)
  ultimately show ?thesis using assms(5-7) by (cases f) (auto simp: VerifyScript_def top_true_def bool_vch_def)
qed

text \<open>C26: an output that was made for a key on one chain is spent by a signature and a key on another chain exactly when the key hashes to the key id, the signature and
  the key are well encoded, the signature is good, and the other chain has the block the output refers to (or it is old enough).\<close>

theorem key_output_spent:
  assumes "on_chain safeDepth chain' E" and "chain \<noteq> []" and "length chain < 2 ^ 31"
    and "2 \<le> length vchSig" and "length vchSig \<le> 520" and "2 \<le> length vchPubKey" and "length vchPubKey \<le> 520"
    and "has_flag flags SCRIPT_VERIFY_CLEANSTACK \<Longrightarrow> has_flag flags SCRIPT_VERIFY_P2SH" and "script = GetScriptForDestination chain (CKeyID keyID) True"
  shows "VerifyScript E (push_data vchSig @ push_data vchPubKey) script flags = Inr () \<longleftrightarrow>
    signed_by E flags keyID script vchSig vchPubKey \<and> (has_flag flags SCRIPT_VERIFY_CHECKBLOCKATHEIGHT \<longrightarrow> same_history safeDepth chain chain')"
proof -
  let ?suf = "replay_suffix chain True" and ?r = "EvalScript E [vchPubKey, vchSig] script flags"
  have sc: "script = [OP_DUP, OP_HASH160] @ push_data (vch20 keyID) @ [OP_EQUALVERIFY, OP_CHECKSIG] @ ?suf" using assms(9) by (simp add: GetScriptForDestination_def)
  have "length script \<le> MAX_SCRIPT_SIZE" using replay_suffix_length [of chain True] push_lengths(1) [of "vch20 keyID"] by (simp add: sc MAX_SCRIPT_SIZE_def)
  moreover have "eval_loop E flags script (state0 [vchPubKey, vchSig]) script = (if vch20 (CHash160 E vchPubKey) \<noteq> vch20 keyID then fails SCRIPT_ERR_EQUALVERIFY
     else bindR (CheckSignatureEncoding E vchSig flags) (\<lambda>_. bindR (CheckPubKeyEncoding vchPubKey flags) (\<lambda>_.
       eval_loop E flags script \<lparr>st_stack = [bool_vch (CheckSig E vchSig vchPubKey script)], altstack = [], vfExec = [], nOpCount = 4\<rparr> ?suf)))"
    using eval_key_hash [of vchPubKey 0 E flags script vchSig keyID ?suf] assms(7) by (subst (2) sc) (simp add: MAX_SCRIPT_ELEMENT_SIZE_def)
  ultimately have "?r = (if vch20 (CHash160 E vchPubKey) \<noteq> vch20 keyID then fails SCRIPT_ERR_EQUALVERIFY
     else bindR (CheckSignatureEncoding E vchSig flags) (\<lambda>_. bindR (CheckPubKeyEncoding vchPubKey flags) (\<lambda>_.
       if has_flag flags SCRIPT_VERIFY_CHECKBLOCKATHEIGHT \<and> \<not> same_history safeDepth chain chain' then fails SCRIPT_ERR_NOT_FINAL else Inr [bool_vch (CheckSig E vchSig vchPubKey script)])))"
    using encodings_soft(1) [of E vchSig flags] encodings_soft(2) [of vchPubKey flags]
    by (cases "CheckSignatureEncoding E vchSig flags"; cases "CheckPubKeyEncoding vchPubKey flags")
      (auto simp: EvalScript_def eval_replay_suffix [OF assms(1-3)] split: script_exit.splits)
  moreover from this have "(\<exists>e. ?r = Inl e) \<or> ?r = Inr [bool_vch (CheckSig E vchSig vchPubKey script)]"
    by (cases "CheckSignatureEncoding E vchSig flags"; cases "CheckPubKeyEncoding vchPubKey flags") auto
  moreover have "\<not> IsPayToScriptHash script" by (simp add: sc IsPayToScriptHash_def)
  ultimately show ?thesis using VerifyScript_two_pushes [OF assms(4-7) _ assms(8)]
    by (cases "CheckSignatureEncoding E vchSig flags"; cases "CheckPubKeyEncoding vchPubKey flags") (auto simp: signed_by_def)
qed

text \<open>A signature with the hash type \<open>SIGHASH_ALL\<close>, a compressed key, and a transaction and a certificate with one input.\<close>

definition sig_example :: bytes where "sig_example = [0x30, 6, 2, 1, 1, 2, 1, 1, 1]"

definition key_example :: bytes where "key_example = 2 # replicate 32 0"

definition input_example :: CTxIn where "input_example = \<lparr>prevout = \<lparr>op_hash = 5, op_n = 0\<rparr>, scriptSig = [], nSequence = 0\<rparr>"

definition tx_spend :: CTransaction where "tx_spend = tx_null\<lparr>tx_vin := [input_example], nLockTime := 100\<rparr>"

definition cert_spend :: CScCertificate where "cert_spend = cert_null\<lparr>cert_vin := [input_example]\<rparr>"

lemma le_value_zeros: "le_value (replicate n 0) = 0"
  by (induction n) simp_all

theorem key_output_spent_witness:
  "VerifyScript (tx_checker env_script (\<lambda>_ _ _. True) (\<lambda>_ _ _ _. 0) 52596 tx_spend 0 (Some [11, 12, 13])) (push_data sig_example @ push_data key_example)
     (GetScriptForDestination [11, 12] (CKeyID 2) True) 0x400 = Inr ()"
proof -
  let ?E = "tx_checker env_script (\<lambda>_ _ _. True) (\<lambda>_ _ _ _. 0) 52596 tx_spend 0 (Some [11, 12, 13])"
  have "on_chain 52596 [11, 12, 13] ?E" by (simp add: on_chain_def tx_checker_def)
  moreover have "signed_by ?E 0x400 2 script sig_example key_example" for script
    by (simp add: signed_by_def tx_checker_def env_script_def sig_example_def CheckSignatureEncoding_def CheckPubKeyEncoding_def IsValidSignatureEncoding_def has_flag_def
        key_example_def tx_CheckSig_def pubkey_IsValid_def pubkey_GetLen_def SignatureHash_tx_def tx_spend_def le_value_zeros)
  moreover have "same_history 52596 [11, 12] [11, 12, 13]" by (simp add: same_history_def referenced_height_def chain_Height_def CBH_DELTA_HEIGHT_def)
  ultimately show ?thesis using key_output_spent [of 52596 "[11, 12, 13]" ?E "[11, 12]" sig_example key_example "0x400" _ 2]
    by (simp add: sig_example_def key_example_def has_flag_def)
qed

section \<open>Outputs that are locked until a time\<close>

text \<open>The output script that a key may spend from the lock time on.\<close>

definition locked_script :: "int \<Rightarrow> uint160 \<Rightarrow> CScript" where
  "locked_script t keyID = push_int64 t @ [OP_CHECKLOCKTIMEVERIFY, OP_DROP] @ GetScriptForDestination [] (CKeyID keyID) False"

lemma eval_locked:
  assumes "0 \<le> t" "t < 2 ^ 31" "has_flag flags SCRIPT_VERIFY_CHECKLOCKTIMEVERIFY"
  shows "eval_loop E flags script (state0 [b, a]) (push_int64 t @ [OP_CHECKLOCKTIMEVERIFY, OP_DROP] @ pc) =
    (if CheckLockTime E t then eval_loop E flags script \<lparr>st_stack = [b, a], altstack = [], vfExec = [], nOpCount = 2\<rparr> pc else fails SCRIPT_ERR_UNSATISFIED_LOCKTIME)"
proof -
  note D = disabled_ops_def switch_op_def stack_ops_def numeric1_def numeric2_def hash_ops_def control_op_def locktime_op_def stack_op_def
  let ?s = "\<lambda>st n. \<lparr>st_stack = st, altstack = [], vfExec = [], nOpCount = n\<rparr>"
  have n: "script_num (serialize t) fm 5 = Inr t" for fm using CScriptNum_serialize [of t 3 5 fm] assms(1,2) by (simp add: script_num_def)
  have 1: "eval_loop E flags script (state0 [b, a]) (push_int64 t @ [OP_CHECKLOCKTIMEVERIFY, OP_DROP] @ pc) = eval_loop E flags script (?s [serialize t, b, a] 0) ([OP_CHECKLOCKTIMEVERIFY, OP_DROP] @ pc)"
    using assms(1,2) by (simp add: eval_loop_push_int)
  have 2: "eval_loop E flags script (?s [serialize t, b, a] 0) (OP_CHECKLOCKTIMEVERIFY # q) = fails SCRIPT_ERR_UNSATISFIED_LOCKTIME" if "\<not> CheckLockTime E t" for q
    by (rule eval_loop_op_fails) (use that n assms in \<open>simp_all add: D\<close>)
  have 3: "eval_loop E flags script (?s [serialize t, b, a] 0) (OP_CHECKLOCKTIMEVERIFY # q) = eval_loop E flags script (?s [serialize t, b, a] 1) q" if "CheckLockTime E t" for q
    by (rule eval_loop_op) (use that n assms in \<open>simp_all add: D\<close>)
  have 4: "eval_loop E flags script (?s [serialize t, b, a] 1) (OP_DROP # q) = eval_loop E flags script (?s [b, a] 2) q" for q
    by (rule eval_loop_op) (simp_all add: D)
  show ?thesis using 1 2 3 4 by simp
qed

lemma push_int64_first: "push_int64 t ! 0 \<noteq> OP_HASH160" "push_int64 t \<noteq> []"
proof -
  have "word_of_int (t + 80) \<noteq> OP_HASH160" if "t = - 1 \<or> 1 \<le> t \<and> t \<le> 16"
  proof -
    have "uint (word_of_int (t + 80) :: byte) = t + 80" using that by (simp only: uint_word_of_int) auto
    then show ?thesis using that by (auto simp: word_uint_eq_iff)
  qed
  moreover have "push_data (serialize t) ! 0 \<noteq> OP_HASH160"
    using serialize_max [of t] by (auto simp: push_data_def word_uint_eq_iff uint_word_of_int unsigned_of_nat take_bit_eq_mod)
  ultimately show "push_int64 t ! 0 \<noteq> OP_HASH160" by (auto simp: push_int64_def)
  show "push_int64 t \<noteq> []" by (simp add: push_int64_def push_data_def)
qed

lemma locked_output_spent:
  assumes "0 \<le> t" "t < 2 ^ 31" "has_flag flags SCRIPT_VERIFY_CHECKLOCKTIMEVERIFY" "2 \<le> length vchSig" "length vchSig \<le> 520" "2 \<le> length vchPubKey" "length vchPubKey \<le> 520"
    "has_flag flags SCRIPT_VERIFY_CLEANSTACK \<Longrightarrow> has_flag flags SCRIPT_VERIFY_P2SH" "script = locked_script t keyID"
  shows "VerifyScript E (push_data vchSig @ push_data vchPubKey) script flags = Inr () \<longleftrightarrow> CheckLockTime E t \<and> signed_by E flags keyID script vchSig vchPubKey"
proof -
  let ?r = "EvalScript E [vchPubKey, vchSig] script flags"
  have sc: "script = push_int64 t @ [OP_CHECKLOCKTIMEVERIFY, OP_DROP] @ [OP_DUP, OP_HASH160] @ push_data (vch20 keyID) @ [OP_EQUALVERIFY, OP_CHECKSIG] @ []"
    using assms(9) by (simp add: locked_script_def GetScriptForDestination_def replay_suffix_def)
  have "length script \<le> MAX_SCRIPT_SIZE" using push_lengths(2) [of t] push_lengths(1) [of "vch20 keyID"] by (simp add: sc MAX_SCRIPT_SIZE_def)
  moreover have "eval_loop E flags script (state0 [vchPubKey, vchSig]) script = (if CheckLockTime E t then if vch20 (CHash160 E vchPubKey) \<noteq> vch20 keyID then fails SCRIPT_ERR_EQUALVERIFY
     else bindR (CheckSignatureEncoding E vchSig flags) (\<lambda>_. bindR (CheckPubKeyEncoding vchPubKey flags) (\<lambda>_.
       Inr \<lparr>st_stack = [bool_vch (CheckSig E vchSig vchPubKey script)], altstack = [], vfExec = [], nOpCount = 6\<rparr>)) else fails SCRIPT_ERR_UNSATISFIED_LOCKTIME)"
    using eval_key_hash [of vchPubKey 2 E flags script vchSig keyID "[]"] assms(7) by (subst (2) sc) (simp only: eval_locked [OF assms(1-3)], simp add: MAX_SCRIPT_ELEMENT_SIZE_def)
  ultimately have "?r = (if CheckLockTime E t then if vch20 (CHash160 E vchPubKey) \<noteq> vch20 keyID then fails SCRIPT_ERR_EQUALVERIFY
     else bindR (CheckSignatureEncoding E vchSig flags) (\<lambda>_. bindR (CheckPubKeyEncoding vchPubKey flags) (\<lambda>_.
       Inr [bool_vch (CheckSig E vchSig vchPubKey script)])) else fails SCRIPT_ERR_UNSATISFIED_LOCKTIME)"
    using encodings_soft(1) [of E vchSig flags] encodings_soft(2) [of vchPubKey flags]
    by (cases "CheckSignatureEncoding E vchSig flags"; cases "CheckPubKeyEncoding vchPubKey flags") (auto simp: EvalScript_def split: script_exit.splits)
  moreover from this have "(\<exists>e. ?r = Inl e) \<or> ?r = Inr [bool_vch (CheckSig E vchSig vchPubKey script)]"
    by (cases "CheckSignatureEncoding E vchSig flags"; cases "CheckPubKeyEncoding vchPubKey flags") auto
  moreover have "\<not> IsPayToScriptHash script" using push_int64_first [of t] by (simp add: sc IsPayToScriptHash_def nth_append)
  ultimately show ?thesis using VerifyScript_two_pushes [OF assms(4-7) _ assms(8)]
    by (cases "CheckSignatureEncoding E vchSig flags"; cases "CheckPubKeyEncoding vchPubKey flags") (auto simp: signed_by_def)
qed

text \<open>C27: an output that is locked until a time is spent by a transaction exactly when its lock time has reached that time and the key signs; a certificate that the key signs
  spends it whatever the time is.\<close>

theorem certificates_ignore_lock_time:
  assumes "0 \<le> t" and "t < 2 ^ 31" and "has_flag flags SCRIPT_VERIFY_CHECKLOCKTIMEVERIFY"
    and "2 \<le> length vchSig" and "length vchSig \<le> 520" and "2 \<le> length vchPubKey" and "length vchPubKey \<le> 520"
    and "has_flag flags SCRIPT_VERIFY_CLEANSTACK \<Longrightarrow> has_flag flags SCRIPT_VERIFY_P2SH" and "script = locked_script t keyID"
  shows "(VerifyScript (tx_checker H Verify S safeDepth txTo nIn chain) (push_data vchSig @ push_data vchPubKey) script flags = Inr () \<longleftrightarrow>
      tx_CheckLockTime txTo nIn t \<and> signed_by (tx_checker H Verify S safeDepth txTo nIn chain) flags keyID script vchSig vchPubKey)
    \<and> (VerifyScript (cert_checker H Verify S' safeDepth certTo nIn chain) (push_data vchSig @ push_data vchPubKey) script flags = Inr () \<longleftrightarrow>
      signed_by (cert_checker H Verify S' safeDepth certTo nIn chain) flags keyID script vchSig vchPubKey)"
  using locked_output_spent [OF assms, of "tx_checker H Verify S safeDepth txTo nIn chain"] locked_output_spent [OF assms, of "cert_checker H Verify S' safeDepth certTo nIn chain"]
  by (simp add: tx_checker_def cert_checker_def)

theorem certificates_ignore_lock_time_witness:
  "VerifyScript (cert_checker env_script (\<lambda>_ _ _. True) (\<lambda>_ _ _ _. 0) 52596 cert_spend 0 None) (push_data sig_example @ push_data key_example) (locked_script 1000 2) 0x201 = Inr ()
   \<and> VerifyScript (tx_checker env_script (\<lambda>_ _ _. True) (\<lambda>_ _ _ _. 0) 52596 tx_spend 0 None) (push_data sig_example @ push_data key_example) (locked_script 1000 2) 0x201 \<noteq> Inr ()"
proof -
  have "\<not> tx_CheckLockTime tx_spend 0 1000" by (simp add: tx_CheckLockTime_def tx_spend_def tx_null_def LOCKTIME_THRESHOLD_def)
  moreover have "signed_by (cert_checker env_script (\<lambda>_ _ _. True) (\<lambda>_ _ _ _. 0) 52596 cert_spend 0 None) 0x201 2 script sig_example key_example" for script
    by (simp add: signed_by_def cert_checker_def env_script_def sig_example_def CheckSignatureEncoding_def CheckPubKeyEncoding_def IsValidSignatureEncoding_def has_flag_def
        key_example_def cert_CheckSig_def pubkey_IsValid_def pubkey_GetLen_def SignatureHash_cert_def cert_spend_def le_value_zeros)
  ultimately show ?thesis
    using certificates_ignore_lock_time [of 1000 "0x201" sig_example key_example _ 2 env_script "\<lambda>_ _ _. True" "\<lambda>_ _ _ _. 0" 52596 tx_spend 0 None "\<lambda>_ _ _ _. 0" cert_spend]
    by (simp add: sig_example_def key_example_def has_flag_def)
qed

section \<open>Multiple signatures\<close>

text \<open>The keys that the signatures are matched with, in order.\<close>

definition matched :: "ScriptEnv \<Rightarrow> CScript \<Rightarrow> bytes list \<Rightarrow> bytes list \<Rightarrow> bool" where
  "matched E script sigs keys \<longleftrightarrow> (\<exists>ks. subseq ks keys \<and> list_all2 (\<lambda>vchSig vchPubKey. CheckSig E vchSig vchPubKey script) sigs ks)"

lemma matched_length: "matched E script sigs keys \<Longrightarrow> length sigs \<le> length keys"
  unfolding matched_def using list_all2_lengthD list_emb_length by metis

lemma matched_simps: "matched E script [] keys" "\<not> matched E script (s # sigs) []"
  "matched E script (s # sigs) (k # keys) \<longleftrightarrow> (if CheckSig E s k script then matched E script sigs keys else matched E script (s # sigs) keys)"
proof -
  show "matched E script [] keys" "\<not> matched E script (s # sigs) []" by (auto simp: matched_def list_all2_Cons1)
  show "matched E script (s # sigs) (k # keys) \<longleftrightarrow> (if CheckSig E s k script then matched E script sigs keys else matched E script (s # sigs) keys)"
  proof (cases "CheckSig E s k script")
    case True
    have "matched E script sigs keys" if "subseq ks (k # keys)" "list_all2 (\<lambda>s k. CheckSig E s k script) (s # sigs) ks" for ks
    proof -
      note sub = that
      obtain k' ks' where "ks = k' # ks'" "list_all2 (\<lambda>s k. CheckSig E s k script) sigs ks'" using sub(2) by (auto simp: list_all2_Cons1)
      moreover then have "subseq ks' keys" using sub(1) by (metis subseq_Cons2_iff subseq_Cons')
      ultimately show ?thesis by (auto simp: matched_def)
    qed
    moreover have "matched E script (s # sigs) (k # keys)" if "matched E script sigs keys"
      using that True unfolding matched_def by (metis list_all2_Cons subseq_Cons2)
    ultimately show ?thesis using True by (auto simp: matched_def)
  next
    case False
    have "subseq ks keys" if "subseq ks (k # keys)" "list_all2 (\<lambda>s k. CheckSig E s k script) (s # sigs) ks" for ks
      using that False by (auto simp: list_all2_Cons1 elim!: list_emb.cases)
    then show ?thesis using False unfolding matched_def by (auto intro: list_emb_Cons)
  qed
qed

lemma multisig_loop_matched:
  assumes "\<forall>s \<in> set sigs. CheckSignatureEncoding E s flags = Inr ()" "\<forall>k \<in> set keys. CheckPubKeyEncoding k flags = Inr ()"
  shows "multisig_loop E flags script sigs keys = Inr (matched E script sigs keys)"
  using assms
proof (induction E flags script sigs keys rule: multisig_loop.induct)
  case (3 E flags script s sigs k keys)
  then show ?case using matched_length [of E script sigs keys] matched_length [of E script "s # sigs" keys]
    by (auto simp: Let_def matched_simps)
qed (simp_all add: matched_simps)

text \<open>C28: checking several signatures against several keys succeeds exactly when the signatures are good for a subsequence of the keys: the greedy pass over the keys
  misses no assignment that keeps the order.\<close>

theorem multisig_finds_assignment:
  assumes "length keys \<le> 20" and "length sigs \<le> length keys" and "n + int (length keys) \<le> 201"
    and "\<forall>s \<in> set sigs. CheckSignatureEncoding E s flags = Inr ()" and "\<forall>k \<in> set keys. CheckPubKeyEncoding k flags = Inr ()"
    and "has_flag flags SCRIPT_VERIFY_NULLDUMMY \<Longrightarrow> dummy = []"
  shows "multisig_op E flags script OP_CHECKMULTISIG (serialize (int (length keys)) # keys @ serialize (int (length sigs)) # sigs @ dummy # st) n =
    Inr (bool_vch (\<exists>ks. subseq ks keys \<and> list_all2 (\<lambda>vchSig vchPubKey. CheckSig E vchSig vchPubKey script) sigs ks) # st, n + int (length keys))"
proof -
  have num: "script_num (serialize (int k)) fm nDefaultMaxNumSize = Inr (int k)" "getint (int k) = int k" if "k \<le> 20" for k fm
    using CScriptNum_serialize [of "int k" 3 4 fm] that by (simp_all add: script_num_def nDefaultMaxNumSize_def getint_def)
  have "length sigs \<le> 20" using assms(1,2) by simp
  then show ?thesis using assms num [of "length keys"] num [of "length sigs"] multisig_loop_matched [OF assms(4,5), of script]
    by (simp add: multisig_op_def multisig_result_def Let_def nth_append matched_def)
qed

theorem multisig_finds_assignment_witness:
  "multisig_op env_script 0 [] OP_CHECKMULTISIG (serialize 2 # [[1, 5], [2, 5]] @ serialize 1 # [sig_example] @ [] # []) 1 = Inr ([[1]], 3)"
proof -
  have "CheckSignatureEncoding env_script sig_example 0 = Inr ()" "CheckPubKeyEncoding k 0 = Inr ()" for k
    by (simp_all add: env_script_def sig_example_def CheckSignatureEncoding_def CheckPubKeyEncoding_def IsValidSignatureEncoding_def has_flag_def)
  moreover have "\<exists>ks. subseq ks [[1, 5], [2, 5]] \<and> list_all2 (\<lambda>vchSig vchPubKey. CheckSig env_script vchSig vchPubKey []) [sig_example] ks"
    by (intro exI [of _ "[[1, 5]]"]) (simp add: env_script_def sig_example_def)
  ultimately show ?thesis using multisig_finds_assignment [of "[[1, 5], [2, 5]]" "[sig_example]" 1 env_script 0 "[]" "[]" "[]"] by (simp add: bool_vch_def)
qed

end
