(* ===== verification/ArithUint.thy ===== *)
theory ArithUint
  imports Prelude
begin

text \<open>
  The 256-bit numbers of \<open>arith_uint256.h\<close> and \<open>arith_uint256.cpp\<close>: \<open>base_uint\<close> keeps eight 32-bit limbs, least significant first, and works on them with school
  arithmetic. The operations here work on any number of limbs; \<open>num\<close> is the number that limbs stand for, and each operation is arithmetic modulo a power of two on it.
\<close>

unbundle bit_operations_syntax

section \<open>Limbs\<close>

type_synonym limbs = "uint32 list"

definition WIDTH :: nat where "WIDTH = 8"

fun num :: "limbs \<Rightarrow> nat" where
  "num [] = 0"
| "num (x # xs) = unat x + 2 ^ 32 * num xs"

definition of_uint64 :: "uint64 \<Rightarrow> limbs" where
  "of_uint64 b = [ucast b, ucast (drop_bit 32 b)] @ replicate (WIDTH - 2) 0"

fun add_loop :: "uint64 \<Rightarrow> limbs \<Rightarrow> limbs \<Rightarrow> limbs" where
  "add_loop carry (x # xs) (y # ys) = (let n = carry + ucast x + ucast y in ucast (n AND 0xFFFFFFFF) # add_loop (drop_bit 32 n) xs ys)"
| "add_loop carry _ _ = []"

definition add_assign :: "limbs \<Rightarrow> limbs \<Rightarrow> limbs" where "add_assign a b = add_loop 0 a b"

definition complement :: "limbs \<Rightarrow> limbs" where "complement a = map NOT a"

fun increment :: "limbs \<Rightarrow> limbs" where
  "increment [] = []"
| "increment (x # xs) = (if x + 1 = 0 \<and> xs \<noteq> [] then 0 # increment xs else (x + 1) # xs)"

definition negate :: "limbs \<Rightarrow> limbs" where "negate a = increment (complement a)"

definition sub_assign :: "limbs \<Rightarrow> limbs \<Rightarrow> limbs" where "sub_assign a b = add_assign a (negate b)"

fun mul32_loop :: "uint64 \<Rightarrow> uint32 \<Rightarrow> limbs \<Rightarrow> limbs" where
  "mul32_loop carry b32 [] = []"
| "mul32_loop carry b32 (x # xs) = (let n = carry + ucast b32 * ucast x in ucast (n AND 0xFFFFFFFF) # mul32_loop (drop_bit 32 n) b32 xs)"

definition mul32_assign :: "limbs \<Rightarrow> uint32 \<Rightarrow> limbs" where "mul32_assign a b32 = mul32_loop 0 b32 a"

text \<open>One pass of the outer loop, on the limbs from the position \<open>j\<close> on.\<close>

fun mul_row :: "uint64 \<Rightarrow> uint32 \<Rightarrow> limbs \<Rightarrow> limbs \<Rightarrow> limbs" where
  "mul_row carry aj (p # ps) (b # bs) = (let n = carry + ucast p + ucast aj * ucast b in ucast (n AND 0xFFFFFFFF) # mul_row (drop_bit 32 n) aj ps bs)"
| "mul_row carry aj _ _ = []"

definition mul_assign :: "limbs \<Rightarrow> limbs \<Rightarrow> limbs" where
  "mul_assign a b = foldl (\<lambda>pn j. take j pn @ mul_row 0 (a ! j) (drop j pn) b) (replicate (length a) 0) [0..<length a]"

definition shl_step :: "nat \<Rightarrow> nat \<Rightarrow> limbs \<Rightarrow> limbs \<Rightarrow> nat \<Rightarrow> limbs" where
  "shl_step k shift a pn i =
     (let pn = (if i + k + 1 < length a \<and> shift \<noteq> 0 then pn[i + k + 1 := pn ! (i + k + 1) OR drop_bit (32 - shift) (a ! i)] else pn) in
      if i + k < length a then pn[i + k := pn ! (i + k) OR push_bit shift (a ! i)] else pn)"

definition shl_assign :: "limbs \<Rightarrow> nat \<Rightarrow> limbs" where
  "shl_assign a shift = foldl (shl_step (shift div 32) (shift mod 32) a) (replicate (length a) 0) [0..<length a]"

definition shr_step :: "nat \<Rightarrow> nat \<Rightarrow> limbs \<Rightarrow> limbs \<Rightarrow> nat \<Rightarrow> limbs" where
  "shr_step k shift a pn i =
     (let pn = (if i \<ge> k + 1 \<and> shift \<noteq> 0 then pn[i - k - 1 := pn ! (i - k - 1) OR push_bit (32 - shift) (a ! i)] else pn) in
      if i \<ge> k then pn[i - k := pn ! (i - k) OR drop_bit shift (a ! i)] else pn)"

definition shr_assign :: "limbs \<Rightarrow> nat \<Rightarrow> limbs" where
  "shr_assign a shift = foldl (shr_step (shift div 32) (shift mod 32) a) (replicate (length a) 0) [0..<length a]"

text \<open>From the most significant limb down.\<close>

fun compare_loop :: "limbs \<Rightarrow> limbs \<Rightarrow> int" where
  "compare_loop (x # xs) (y # ys) = (if x < y then - 1 else if x > y then 1 else compare_loop xs ys)"
| "compare_loop _ _ = 0"

definition CompareTo :: "limbs \<Rightarrow> limbs \<Rightarrow> int" where "CompareTo a b = compare_loop (rev a) (rev b)"

fun top_bit :: "uint32 \<Rightarrow> nat \<Rightarrow> nat" where
  "top_bit x 0 = 1"
| "top_bit x (Suc b) = (if x AND push_bit (Suc b) 1 \<noteq> 0 then Suc b + 1 else top_bit x b)"

fun bits_loop :: "limbs \<Rightarrow> nat" where
  "bits_loop [] = 0"
| "bits_loop (x # xs) = (if x \<noteq> 0 then 32 * length xs + top_bit x 31 else bits_loop xs)"

definition arith_bits :: "limbs \<Rightarrow> nat" where "arith_bits a = bits_loop (rev a)"

text \<open>The loop runs for the shifts from \<open>s - 1\<close> down to 0.\<close>

primrec div_loop :: "nat \<Rightarrow> limbs \<Rightarrow> limbs \<Rightarrow> limbs \<Rightarrow> limbs" where
  "div_loop 0 n d q = q"
| "div_loop (Suc s) n d q =
     (if CompareTo n d \<ge> 0 then div_loop s (sub_assign n d) (shr_assign d 1) (q[s div 32 := q ! (s div 32) OR push_bit (s mod 32) 1])
      else div_loop s n (shr_assign d 1) q)"

definition div_assign :: "limbs \<Rightarrow> limbs \<Rightarrow> limbs result" where
  "div_assign a b =
     (let num_bits = arith_bits a; div_bits = arith_bits b; q = replicate (length a) 0 in
      if div_bits = 0 then Inl (Throw ''Division by zero'')
      else if div_bits > num_bits then Inr q
      else let shift = num_bits - div_bits in Inr (div_loop (shift + 1) a (shl_assign b shift) q))"

definition GetLow64 :: "limbs \<Rightarrow> uint64" where
  "GetLow64 a = ucast (a ! 0) OR push_bit 32 (ucast (a ! 1))"

text \<open>A \<open>uint256\<close> keeps its 32 bytes least significant first, so that it is the word its limbs stand for.\<close>

definition UintToArith256 :: "uint256 \<Rightarrow> limbs" where
  "UintToArith256 a = map (\<lambda>x. ucast (drop_bit (32 * x) a)) [0..<WIDTH]"

section \<open>Numbers\<close>

lemma limb_less: "unat (x :: uint32) < 2 ^ 32"
  using unsigned_less [of x, where ?'a = nat] by simp

lemma num_less: "num xs < 2 ^ (32 * length xs)"
proof (induction xs)
  case (Cons x xs)
  have "unat x < 2 ^ 32" by (rule limb_less)
  moreover have "2 ^ 32 * num xs + 2 ^ 32 \<le> 2 ^ 32 * 2 ^ (32 * length xs)" using Cons.IH by (metis Suc_leI distrib_left mult.right_neutral mult_le_mono2 add.commute plus_1_eq_Suc)
  ultimately show ?case by (simp add: power_add)
qed simp

lemma num_append: "num (xs @ ys) = num xs + 2 ^ (32 * length xs) * num ys"
  by (induction xs) (simp_all add: power_add algebra_simps)

lemma num_zeros [simp]: "num (replicate n 0) = 0"
  by (induction n) simp_all

lemma num_inj: "length xs = length ys \<Longrightarrow> num xs = num ys \<Longrightarrow> xs = ys"
proof (induction xs ys rule: list_induct2)
  case (Cons x xs y ys)
  have "unat x < 2 ^ 32" "unat y < 2 ^ 32" by (rule limb_less)+
  then have "unat x = num (x # xs) mod 2 ^ 32" "unat y = num (y # ys) mod 2 ^ 32" "num xs = num (x # xs) div 2 ^ 32" "num ys = num (y # ys) div 2 ^ 32" by simp_all
  then show ?case using Cons.prems Cons.IH by (metis word_unat_eq_iff)
qed simp

text \<open>A 64-bit sum that does not overflow is split into a limb and a carry.\<close>

lemma unat_up [simp]: "unat (ucast (x :: uint32) :: uint64) = unat x"
  using limb_less [of x] by (simp add: unsigned_ucast_eq) (simp add: take_bit_nat_eq_self)

lemma limb_bound: "unat (x :: uint32) \<le> 2 ^ 32 - 1"
  using limb_less [of x] by simp

lemma split64: "unat (ucast (n AND 0xFFFFFFFF :: uint64) :: uint32) = unat n mod 2 ^ 32" "unat (drop_bit 32 n :: uint64) = unat n div 2 ^ 32"
proof -
  have "n AND 0xFFFFFFFF = take_bit 32 n" by (simp add: take_bit_eq_mask mask_eq_exp_minus_1)
  then show "unat (ucast (n AND 0xFFFFFFFF :: uint64) :: uint32) = unat n mod 2 ^ 32" by (simp add: unsigned_ucast_eq unsigned_take_bit_eq) (simp add: take_bit_eq_mod)
  show "unat (drop_bit 32 n :: uint64) = unat n div 2 ^ 32" using unsigned_less [of n, where ?'a = nat] by (simp add: unsigned_drop_bit_eq take_bit_nat_eq_self) (simp add: drop_bit_eq_div)
qed

lemma unat_add64: "unat (a :: uint64) + unat b < 2 ^ 64 \<Longrightarrow> unat (a + b) = unat a + unat b"
  by (simp add: unsigned_word_eqI unat_word_ariths)

lemma unat_mul64: "unat (a :: uint64) * unat b < 2 ^ 64 \<Longrightarrow> unat (a * b) = unat a * unat b"
  by (simp add: unat_word_ariths)

text \<open>The step of a loop with a carry: the limb that is written and the carry that is passed on, where the 64-bit sum is exact.\<close>

lemma carry_step:
  assumes "unat n = c + s" and "num r + 2 ^ l * k = unat (drop_bit 32 n :: uint64) + t"
  shows "num (ucast (n AND 0xFFFFFFFF) # r) + 2 ^ (32 + l) * k = c + s + 2 ^ 32 * t"
proof -
  have "num (ucast (n AND 0xFFFFFFFF) # r) + 2 ^ (32 + l) * k = unat n mod 2 ^ 32 + 2 ^ 32 * (num r + 2 ^ l * k)"
    by (simp only: num.simps split64 power_add algebra_simps)
  also have "\<dots> = unat n mod 2 ^ 32 + 2 ^ 32 * (unat n div 2 ^ 32) + 2 ^ 32 * t" by (simp only: assms(2) split64 distrib_left add.assoc)
  finally show ?thesis by (simp add: assms(1))
qed

lemma add_loop_num:
  assumes "length xs = length ys" and "unat c \<le> 1"
  shows "\<exists>k. num (add_loop c xs ys) + 2 ^ (32 * length xs) * k = unat c + num xs + num ys"
  using assms
proof (induction xs ys arbitrary: c rule: list_induct2)
  case (Cons x xs y ys)
  define n where "n = c + ucast x + ucast y"
  have "unat (c + ucast x) = unat c + unat x" using Cons.prems limb_bound [of x] by (subst unat_add64) simp_all
  then have n: "unat n = unat c + (unat x + unat y)" using Cons.prems limb_bound [of x] limb_bound [of y] unfolding n_def by (subst unat_add64) simp_all
  then have "unat (drop_bit 32 n) \<le> 1" using Cons.prems limb_bound [of x] limb_bound [of y] by (simp only: split64) simp
  from Cons.IH [OF this] obtain k where "num (add_loop (drop_bit 32 n) xs ys) + 2 ^ (32 * length xs) * k = unat (drop_bit 32 n) + (num xs + num ys)" by (auto simp: add.assoc)
  note step = carry_step [OF n this]
  have "add_loop c (x # xs) (y # ys) = ucast (n AND 0xFFFFFFFF) # add_loop (drop_bit 32 n) xs ys" by (simp add: n_def Let_def)
  then show ?case using step by (intro exI [of _ k]) (simp add: algebra_simps)
qed simp

lemma length_add_loop [simp]: "length (add_loop c xs ys) = min (length xs) (length ys)"
  by (induction c xs ys rule: add_loop.induct) (simp_all add: Let_def)

lemma num_mod: "num xs + 2 ^ (32 * length xs) * k = n \<Longrightarrow> num xs = n mod 2 ^ (32 * length xs)"
  using num_less [of xs] by (metis mod_less mod_mult_self2)

lemma add_assign_num:
  assumes "length a = length b"
  shows "num (add_assign a b) = (num a + num b) mod 2 ^ (32 * length a)"
proof -
  obtain k where "num (add_loop 0 a b) + 2 ^ (32 * length a) * k = unat (0 :: uint64) + num a + num b" using add_loop_num [OF assms, of 0] by auto
  then show ?thesis using num_mod [of "add_loop 0 a b" k] assms by (simp add: add_assign_def)
qed

lemma length_add_assign [simp]: "length (add_assign a b) = min (length a) (length b)"
  by (simp add: add_assign_def)

lemma unat_NOT: "unat (NOT x) = 2 ^ 32 - 1 - unat (x :: uint32)"
proof -
  have "NOT x = - 1 - x" using minus_eq_not_plus_1 [of x] by (simp add: algebra_simps)
  then show ?thesis by (simp only: unat_sub word_order.extremum) (simp add: unsigned_minus_1_eq_mask mask_eq_exp_minus_1)
qed

lemma complement_num: "num (complement a) + num a + 1 = 2 ^ (32 * length a)"
proof (induction a)
  case (Cons x xs)
  have "unat (NOT x) + unat x + 1 = 2 ^ 32" using limb_less [of x] by (simp add: unat_NOT)
  moreover have "num (complement (x # xs)) + num (x # xs) + 1 = (unat (NOT x) + unat x + 1) + 2 ^ 32 * (num (complement xs) + num xs)"
    by (simp add: complement_def algebra_simps)
  ultimately have "num (complement (x # xs)) + num (x # xs) + 1 = 2 ^ 32 * (num (complement xs) + num xs + 1)" by (simp add: algebra_simps)
  then show ?case by (simp only: Cons.IH) (simp add: power_add)
qed (simp add: complement_def)

lemma length_increment [simp]: "length (increment a) = length a"
  by (induction a rule: increment.induct) simp_all

lemma unat_inc: "x + 1 \<noteq> 0 \<Longrightarrow> unat (x + 1 :: uint32) = unat x + 1" "x + 1 = (0 :: uint32) \<Longrightarrow> unat x + 1 = 2 ^ 32"
  by (simp add: unat_eq_0 add.commute unatSuc) (simp add: eq_neg_iff_add_eq_0 [symmetric] unsigned_minus_1_eq_mask mask_eq_exp_minus_1)

lemma increment_num: "num (increment a) = (num a + 1) mod 2 ^ (32 * length a)"
proof (induction a)
  case (Cons x xs)
  consider "x + 1 \<noteq> 0" | "x + 1 = 0" "xs = []" | "x + 1 = 0" "xs \<noteq> []" by blast
  then show ?case
  proof cases
    case 1
    then have "num (increment (x # xs)) = num (x # xs) + 1" by (simp add: unat_inc)
    then show ?thesis using num_less [of "increment (x # xs)"] by (metis length_increment mod_less)
  next
    case 2
    then show ?thesis using unat_inc(2) [of x] by simp
  next
    case 3
    then have "num (x # xs) + 1 = 2 ^ 32 * (num xs + 1)" using unat_inc(2) [of x] by (simp add: algebra_simps)
    then have "(num (x # xs) + 1) mod 2 ^ (32 * length (x # xs)) = 2 ^ 32 * ((num xs + 1) mod 2 ^ (32 * length xs))" by (simp only: length_Cons mult_Suc_right power_add mod_mult_mult1)
    then show ?thesis using 3 Cons.IH by simp
  qed
qed simp

lemma negate_num: "num (negate a) = (2 ^ (32 * length a) - num a) mod 2 ^ (32 * length a)"
proof -
  have "num (complement a) + 1 = 2 ^ (32 * length a) - num a" using complement_num [of a] by linarith
  then show ?thesis by (simp only: negate_def increment_num) (simp add: complement_def)
qed

lemma length_negate [simp]: "length (negate a) = length a"
  by (simp add: negate_def complement_def)

lemma length_sub_assign [simp]: "length (sub_assign a b) = min (length a) (length b)"
  by (simp add: sub_assign_def)

lemma sub_assign_num:
  assumes "length a = length b"
  shows "num (sub_assign a b) = (2 ^ (32 * length a) + num a - num b) mod 2 ^ (32 * length a)"
proof -
  have "num a + (2 ^ (32 * length a) - num b) = 2 ^ (32 * length a) + num a - num b" using num_less [of b] assms by simp
  then show ?thesis using assms by (simp add: sub_assign_def add_assign_num negate_num mod_add_right_eq)
qed

lemma sub_assign_exact: "length a = length b \<Longrightarrow> num b \<le> num a \<Longrightarrow> num (sub_assign a b) = num a - num b"
  using num_less [of a] by (simp add: sub_assign_num) (metis add_diff_assoc mod_add_self1 mod_less less_imp_diff_less)

section \<open>Products\<close>

lemma mul_row_num:
  assumes "length ps \<le> length bs" and "unat c < 2 ^ 32"
  shows "\<exists>k. num (mul_row c aj ps bs) + 2 ^ (32 * length ps) * k = unat c + (num ps + unat aj * num bs)"
  using assms
proof (induction c aj ps bs rule: mul_row.induct)
  case (1 c aj p ps b bs)
  define n where "n = c + ucast p + ucast aj * ucast b"
  have "unat aj * unat b \<le> (2 ^ 32 - 1) * (2 ^ 32 - 1)" by (intro mult_le_mono limb_bound)
  then have b: "unat c + unat p + unat aj * unat b < 2 ^ 64" using "1.prems" limb_bound [of p] by simp
  then have "unat (ucast aj * ucast b :: uint64) = unat aj * unat b" by (subst unat_mul64) simp_all
  moreover have "unat (c + ucast p) = unat c + unat p" using b by (subst unat_add64) simp_all
  ultimately have n: "unat n = unat c + (unat p + unat aj * unat b)" using b unfolding n_def by (subst unat_add64) simp_all
  have "unat (drop_bit 32 n) < 2 ^ 32" using b by (simp add: split64 n)
  then obtain k where "num (mul_row (drop_bit 32 n) aj ps bs) + 2 ^ (32 * length ps) * k = unat (drop_bit 32 n) + (num ps + unat aj * num bs)"
    using "1.IH" [OF n_def] "1.prems" by auto
  note step = carry_step [OF n this]
  have "mul_row c aj (p # ps) (b # bs) = ucast (n AND 0xFFFFFFFF) # mul_row (drop_bit 32 n) aj ps bs" by (simp add: n_def Let_def)
  then show ?case using step by (intro exI [of _ k]) (simp add: algebra_simps)
qed simp_all

lemma length_mul_row [simp]: "length (mul_row c aj ps bs) = min (length ps) (length bs)"
  by (induction c aj ps bs rule: mul_row.induct) (simp_all add: Let_def)

lemma num_take_Suc: "j < length a \<Longrightarrow> num (take (Suc j) a) = num (take j a) + 2 ^ (32 * j) * unat (a ! j)"
  by (simp add: take_Suc_conv_app_nth num_append)

lemma mul_step_num:
  assumes "length pn = length b" and "j \<le> length b"
  shows "\<exists>k. num (take j pn @ mul_row 0 x (drop j pn) b) + 2 ^ (32 * length b) * k = num pn + 2 ^ (32 * j) * (unat x * num b)"
proof -
  obtain k where k: "num (mul_row 0 x (drop j pn) b) + 2 ^ (32 * length (drop j pn)) * k = num (drop j pn) + unat x * num b"
    using mul_row_num [of "drop j pn" b 0 x] assms by auto
  have e: "(2 :: nat) ^ (32 * length b) = 2 ^ (32 * j) * 2 ^ (32 * length (drop j pn))" using assms by (simp add: power_add [symmetric] algebra_simps)
  have "num (take j pn @ mul_row 0 x (drop j pn) b) + 2 ^ (32 * length b) * k
      = num (take j pn) + 2 ^ (32 * j) * (num (mul_row 0 x (drop j pn) b) + 2 ^ (32 * length (drop j pn)) * k)"
    unfolding e num_append using assms by (simp add: algebra_simps)
  also have "\<dots> = (num (take j pn) + 2 ^ (32 * j) * num (drop j pn)) + 2 ^ (32 * j) * (unat x * num b)" unfolding k by (simp add: algebra_simps)
  also have "num (take j pn) + 2 ^ (32 * j) * num (drop j pn) = num pn" using num_append [of "take j pn" "drop j pn"] assms by simp
  finally show ?thesis by blast
qed

lemma mul_loop_num:
  assumes "length a = length b" and "n \<le> length b"
  defines "pn \<equiv> foldl (\<lambda>pn j. take j pn @ mul_row 0 (a ! j) (drop j pn) b) (replicate (length b) 0) [0..<n]"
  shows "length pn = length b \<and> (\<exists>k. num pn + 2 ^ (32 * length b) * k = num (take n a) * num b)"
  using assms(2) unfolding pn_def
proof (induction n)
  case (Suc n)
  let ?p = "foldl (\<lambda>pn j. take j pn @ mul_row 0 (a ! j) (drop j pn) b) (replicate (length b) 0) [0..<n]"
  obtain k where l: "length ?p = length b" and k: "num ?p + 2 ^ (32 * length b) * k = num (take n a) * num b" using Suc by auto
  obtain k' where "num (take n ?p @ mul_row 0 (a ! n) (drop n ?p) b) + 2 ^ (32 * length b) * k' = num ?p + 2 ^ (32 * n) * (unat (a ! n) * num b)"
    using mul_step_num [OF l] Suc.prems by (meson Suc_leD)
  then have "num (take n ?p @ mul_row 0 (a ! n) (drop n ?p) b) + 2 ^ (32 * length b) * (k' + k) = num (take (Suc n) a) * num b"
    using k Suc.prems assms(1) by (simp add: num_take_Suc algebra_simps)
  then show ?case using l Suc.prems by auto
qed simp

lemma mul_assign_num:
  assumes "length a = length b"
  shows "length (mul_assign a b) = length a" "num (mul_assign a b) = (num a * num b) mod 2 ^ (32 * length a)"
proof -
  from mul_loop_num [OF assms order_refl] assms show l: "length (mul_assign a b) = length a" by (simp add: mul_assign_def)
  obtain k where "num (mul_assign a b) + 2 ^ (32 * length (mul_assign a b)) * k = num a * num b"
    using mul_loop_num [OF assms order_refl] assms by (auto simp: mul_assign_def)
  from num_mod [OF this] show "num (mul_assign a b) = (num a * num b) mod 2 ^ (32 * length a)" by (simp add: l)
qed

lemma mul32_loop_num:
  assumes "unat c < 2 ^ 32"
  shows "\<exists>k. num (mul32_loop c b xs) + 2 ^ (32 * length xs) * k = unat c + unat b * num xs"
  using assms
proof (induction c b xs rule: mul32_loop.induct)
  case (2 c b x xs)
  define n where "n = c + ucast b * ucast x"
  have "unat b * unat x \<le> (2 ^ 32 - 1) * (2 ^ 32 - 1)" by (intro mult_le_mono limb_bound)
  then have b: "unat c + unat b * unat x < 2 ^ 64" using "2.prems" by simp
  then have "unat (ucast b * ucast x :: uint64) = unat b * unat x" by (subst unat_mul64) simp_all
  then have n: "unat n = unat c + unat b * unat x" using b unfolding n_def by (subst unat_add64) simp_all
  have "unat (drop_bit 32 n) < 2 ^ 32" using b by (simp add: split64 n)
  then obtain k where "num (mul32_loop (drop_bit 32 n) b xs) + 2 ^ (32 * length xs) * k = unat (drop_bit 32 n) + unat b * num xs"
    using "2.IH" [OF n_def] by auto
  note step = carry_step [OF n this]
  have "mul32_loop c b (x # xs) = ucast (n AND 0xFFFFFFFF) # mul32_loop (drop_bit 32 n) b xs" by (simp add: n_def Let_def)
  then show ?case using step by (intro exI [of _ k]) (simp add: algebra_simps)
qed simp

lemma length_mul32_loop [simp]: "length (mul32_loop c b xs) = length xs"
  by (induction c b xs rule: mul32_loop.induct) (simp_all add: Let_def)

lemma mul32_assign_num: "num (mul32_assign a b) = (num a * unat b) mod 2 ^ (32 * length a)"
proof -
  obtain k where "num (mul32_loop 0 b a) + 2 ^ (32 * length a) * k = unat (0 :: uint64) + unat b * num a" using mul32_loop_num [of 0] by auto
  then show ?thesis using num_mod [of "mul32_loop 0 b a" k] by (simp add: mul32_assign_def mult.commute)
qed

section \<open>Shifts\<close>

lemma bit_num: "bit (num xs) j \<longleftrightarrow> j div 32 < length xs \<and> bit (xs ! (j div 32)) (j mod 32)"
proof (induction xs arbitrary: j)
  case (Cons x xs)
  have "bit (num (x # xs)) j = (if j < 32 then bit x j else bit (num xs) (j - 32))"
  proof -
    have "num (x # xs) = unat x + 2 ^ 32 * num xs" by simp
    then have "drop_bit 32 (num (x # xs)) = num xs" "take_bit 32 (num (x # xs)) = unat x" using limb_less [of x] by (simp_all add: drop_bit_eq_div take_bit_eq_mod)
    moreover have "bit (num (x # xs)) j = (if j < 32 then bit (take_bit 32 (num (x # xs))) j else bit (drop_bit 32 (num (x # xs))) (j - 32))"
      by (simp add: bit_take_bit_iff bit_drop_bit_eq)
    ultimately show ?thesis by (simp add: bit_unsigned_iff)
  qed
  then show ?case by (cases "j < 32") (simp_all add: Cons.IH nth_Cons' le_div_geq le_mod_geq)
qed simp

lemma length_shl_step [simp]: "length (shl_step k r a pn i) = length pn"
  by (simp add: shl_step_def Let_def)

lemma shl_step_nth:
  assumes "length pn = length a" and "m < length a"
  shows "shl_step k r a pn i ! m = (if m = i + k then pn ! m OR push_bit r (a ! i) else if m = i + k + 1 \<and> r \<noteq> 0 then pn ! m OR drop_bit (32 - r) (a ! i) else pn ! m)"
  using assms by (simp add: shl_step_def Let_def nth_list_update)

lemma shl_loop:
  fixes k r :: nat
  assumes "n \<le> length a"
  defines "pn \<equiv> foldl (shl_step k r a) (replicate (length a) 0) [0..<n]"
  shows "length pn = length a \<and> (\<forall>m<length a. pn ! m = (if k \<le> m \<and> m - k < n then push_bit r (a ! (m - k)) else 0)
      OR (if k + 1 \<le> m \<and> m - k - 1 < n \<and> r \<noteq> 0 then drop_bit (32 - r) (a ! (m - k - 1)) else 0))"
  using assms(1) unfolding pn_def
proof (induction n)
  case (Suc n)
  let ?p = "foldl (shl_step k r a) (replicate (length a) 0) [0..<n]"
  have l: "length ?p = length a" and v: "\<And>m. m < length a \<Longrightarrow> ?p ! m = (if k \<le> m \<and> m - k < n then push_bit r (a ! (m - k)) else 0)
      OR (if k + 1 \<le> m \<and> m - k - 1 < n \<and> r \<noteq> 0 then drop_bit (32 - r) (a ! (m - k - 1)) else 0)" using Suc by auto
  have "shl_step k r a ?p n ! m = (if k \<le> m \<and> m - k < Suc n then push_bit r (a ! (m - k)) else 0)
      OR (if k + 1 \<le> m \<and> m - k - 1 < Suc n \<and> r \<noteq> 0 then drop_bit (32 - r) (a ! (m - k - 1)) else 0)" if m: "m < length a" for m
  proof -
    consider "m = n + k" | "m = n + k + 1" | "m \<noteq> n + k" "m \<noteq> n + k + 1" by blast
    then show ?thesis
    proof cases
      case 1
      then show ?thesis unfolding shl_step_nth [OF l m] v [OF m] by (cases n) (simp_all add: or.commute)
    next
      case 2
      then show ?thesis unfolding shl_step_nth [OF l m] v [OF m] by simp
    next
      case 3
      then have "(k \<le> m \<and> m - k < Suc n) = (k \<le> m \<and> m - k < n)" "(k + 1 \<le> m \<and> m - k - 1 < Suc n) = (k + 1 \<le> m \<and> m - k - 1 < n)" by linarith+
      then show ?thesis using 3 by (simp only: shl_step_nth [OF l m] v [OF m] conj_assoc [symmetric]) simp
    qed
  qed
  then show ?case by (simp add: l)
qed simp

lemma length_shl_assign [simp]: "length (shl_assign a n) = length a"
  using shl_loop [OF order_refl] by (simp add: shl_assign_def)

text \<open>Bit positions, as limb and bit in the limb, below a shift.\<close>

lemma position: "x < 32 \<Longrightarrow> n = 32 * K + x \<Longrightarrow> n div 32 = K \<and> n mod 32 = x" for K x n :: nat
  by simp

lemma diff_position:
  fixes J S r q :: nat
  assumes "32 * S + q \<le> 32 * J + r" and "r < 32" and "q < 32"
  shows "(32 * J + r - (32 * S + q)) div 32 = (if q \<le> r then J - S else J - S - 1) \<and> (32 * J + r - (32 * S + q)) mod 32 = (if q \<le> r then r - q else r + 32 - q)"
proof (cases "q \<le> r")
  case True
  then have "32 * J + r - (32 * S + q) = 32 * (J - S) + (r - q)" "r - q < 32" using assms by linarith+
  then show ?thesis using position [of "r - q" "32 * J + r - (32 * S + q)" "J - S"] True by metis
next
  case False
  then have "32 * J + r - (32 * S + q) = 32 * (J - S - 1) + (r + 32 - q)" "r + 32 - q < 32" using assms by linarith+
  then show ?thesis using position [of "r + 32 - q" "32 * J + r - (32 * S + q)" "J - S - 1"] False by metis
qed

lemma sum_position:
  fixes J S r q :: nat
  assumes "r < 32" and "q < 32"
  shows "(32 * J + r + (32 * S + q)) div 32 = (if r + q < 32 then J + S else J + S + 1) \<and> (32 * J + r + (32 * S + q)) mod 32 = (if r + q < 32 then r + q else r + q - 32)"
proof (cases "r + q < 32")
  case True
  then show ?thesis using position [OF True, of "32 * J + r + (32 * S + q)" "J + S"] by simp
next
  case False
  then have "32 * J + r + (32 * S + q) = 32 * (J + S + 1) + (r + q - 32)" "r + q - 32 < 32" using assms by simp_all
  then show ?thesis using position [of "r + q - 32" "32 * J + r + (32 * S + q)" "J + S + 1"] False by metis
qed

lemma split_position:
  fixes j s :: nat
  assumes "s \<le> j"
  shows "(j - s) div 32 = (if s mod 32 \<le> j mod 32 then j div 32 - s div 32 else j div 32 - s div 32 - 1)"
    "(j - s) mod 32 = (if s mod 32 \<le> j mod 32 then j mod 32 - s mod 32 else j mod 32 + 32 - s mod 32)"
  using diff_position [of "s div 32" "s mod 32" "j div 32" "j mod 32"] assms by simp_all

lemma shl_assign_num: "num (shl_assign a s) = (num a * 2 ^ s) mod 2 ^ (32 * length a)"
proof -
  have "bit (num (shl_assign a s)) j = bit (take_bit (32 * length a) (push_bit s (num a))) j" for j
  proof (cases "j div 32 < length a")
    case True
    have "shl_assign a s ! (j div 32) = (if s div 32 \<le> j div 32 then push_bit (s mod 32) (a ! (j div 32 - s div 32)) else 0)
        OR (if s div 32 + 1 \<le> j div 32 \<and> s mod 32 \<noteq> 0 then drop_bit (32 - s mod 32) (a ! (j div 32 - s div 32 - 1)) else 0)"
      using shl_loop [OF order_refl, of "s div 32" "s mod 32" a] True by (auto simp: shl_assign_def)
    then have B: "bit (num (shl_assign a s)) j \<longleftrightarrow> s div 32 \<le> j div 32 \<and> s mod 32 \<le> j mod 32 \<and> bit (a ! (j div 32 - s div 32)) (j mod 32 - s mod 32)
        \<or> s div 32 + 1 \<le> j div 32 \<and> s mod 32 \<noteq> 0 \<and> bit (a ! (j div 32 - s div 32 - 1)) (j mod 32 + 32 - s mod 32)"
      using True by (auto simp: bit_num bit_simps add.commute)
    have over: "\<not> bit (x :: uint32) (j mod 32 + 32 - s mod 32)" if "s mod 32 \<le> j mod 32" for x using that bit_imp_le_length [of x "j mod 32 + 32 - s mod 32"] by auto
    have R: "bit (take_bit (32 * length a) (push_bit s (num a))) j \<longleftrightarrow> s \<le> j \<and> bit (a ! ((j - s) div 32)) ((j - s) mod 32)"
      using True by (auto simp: bit_take_bit_iff bit_push_bit_iff bit_num div_less_iff_less_mult mult.commute)
    consider "s \<le> j" "s mod 32 \<le> j mod 32" | "s \<le> j" "\<not> s mod 32 \<le> j mod 32" | "j < s" by linarith
    then show ?thesis
    proof cases
      case 1
      then show ?thesis using over by (simp add: B R split_position div_le_mono)
    next
      case 2
      then have "s div 32 + 1 \<le> j div 32" using mult_div_mod_eq [of 32 s] mult_div_mod_eq [of 32 j] by linarith
      then show ?thesis using 2 by (simp add: B R split_position)
    next
      case 3
      then have "\<not> (s div 32 \<le> j div 32 \<and> s mod 32 \<le> j mod 32)" "\<not> s div 32 + 1 \<le> j div 32"
        using mult_div_mod_eq [of 32 s] mult_div_mod_eq [of 32 j] mod_less_divisor [of 32 j] by linarith+
      then show ?thesis using 3 by (auto simp: B R)
    qed
  next
    case False
    then have "\<not> j < 32 * length a" using less_mult_imp_div_less [of j "length a" 32] by (auto simp: mult.commute)
    then show ?thesis using False by (simp add: bit_num bit_take_bit_iff)
  qed
  then have "num (shl_assign a s) = take_bit (32 * length a) (push_bit s (num a))" by (intro bit_eqI) simp
  then show ?thesis by (simp add: push_bit_eq_mult take_bit_eq_mod)
qed

lemma length_shr_step [simp]: "length (shr_step k r a pn i) = length pn"
  by (simp add: shr_step_def Let_def)

lemma shr_step_nth:
  assumes "length pn = length a" and "m < length a" and "i < length a"
  shows "shr_step k r a pn i ! m = (if i = m + k then pn ! m OR drop_bit r (a ! i) else if i = m + k + 1 \<and> r \<noteq> 0 then pn ! m OR push_bit (32 - r) (a ! i) else pn ! m)"
  using assms by (auto simp: shr_step_def Let_def nth_list_update)

lemma shr_loop:
  fixes k r :: nat
  assumes "n \<le> length a"
  defines "pn \<equiv> foldl (shr_step k r a) (replicate (length a) 0) [0..<n]"
  shows "length pn = length a \<and> (\<forall>m<length a. pn ! m = (if m + k < n then drop_bit r (a ! (m + k)) else 0)
      OR (if m + k + 1 < n \<and> r \<noteq> 0 then push_bit (32 - r) (a ! (m + k + 1)) else 0))"
  using assms(1) unfolding pn_def
proof (induction n)
  case (Suc n)
  let ?p = "foldl (shr_step k r a) (replicate (length a) 0) [0..<n]"
  have l: "length ?p = length a" and v: "\<And>m. m < length a \<Longrightarrow> ?p ! m = (if m + k < n then drop_bit r (a ! (m + k)) else 0)
      OR (if m + k + 1 < n \<and> r \<noteq> 0 then push_bit (32 - r) (a ! (m + k + 1)) else 0)" using Suc by auto
  have "shr_step k r a ?p n ! m = (if m + k < Suc n then drop_bit r (a ! (m + k)) else 0)
      OR (if m + k + 1 < Suc n \<and> r \<noteq> 0 then push_bit (32 - r) (a ! (m + k + 1)) else 0)" if m: "m < length a" for m
  proof -
    have n: "n < length a" using Suc.prems by simp
    consider "n = m + k" | "n = m + k + 1" | "n \<noteq> m + k" "n \<noteq> m + k + 1" by blast
    then show ?thesis
    proof cases
      case 1
      then show ?thesis unfolding shr_step_nth [OF l m n] v [OF m] by simp
    next
      case 2
      then show ?thesis unfolding shr_step_nth [OF l m n] v [OF m] by simp
    next
      case 3
      then have "(m + k < Suc n) = (m + k < n)" "(m + k + 1 < Suc n) = (m + k + 1 < n)" by linarith+
      then show ?thesis using 3 unfolding shr_step_nth [OF l m n] v [OF m] by simp
    qed
  qed
  then show ?case by (simp add: l)
qed simp

lemma length_shr_assign [simp]: "length (shr_assign a n) = length a"
  using shr_loop [OF order_refl] by (simp add: shr_assign_def)

lemma shr_assign_num: "num (shr_assign a s) = num a div 2 ^ s"
proof -
  have "bit (num (shr_assign a s)) j = bit (drop_bit s (num a)) j" for j
  proof (cases "j div 32 < length a")
    case True
    have "shr_assign a s ! (j div 32) = (if j div 32 + s div 32 < length a then drop_bit (s mod 32) (a ! (j div 32 + s div 32)) else 0)
        OR (if j div 32 + s div 32 + 1 < length a \<and> s mod 32 \<noteq> 0 then push_bit (32 - s mod 32) (a ! (j div 32 + s div 32 + 1)) else 0)"
      using shr_loop [OF order_refl, of "s div 32" "s mod 32" a] True by (auto simp: shr_assign_def)
    then have B: "bit (num (shr_assign a s)) j \<longleftrightarrow> j div 32 + s div 32 < length a \<and> bit (a ! (j div 32 + s div 32)) (j mod 32 + s mod 32)
        \<or> j div 32 + s div 32 + 1 < length a \<and> s mod 32 \<noteq> 0 \<and> 32 \<le> j mod 32 + s mod 32 \<and> bit (a ! (j div 32 + s div 32 + 1)) (j mod 32 + s mod 32 - 32)"
      using True by (auto simp: bit_num bit_simps add.commute)
    have over: "\<not> bit (x :: uint32) (j mod 32 + s mod 32)" if "32 \<le> j mod 32 + s mod 32" for x using that bit_imp_le_length [of x] by fastforce
    have p: "(s + j) div 32 = (if j mod 32 + s mod 32 < 32 then j div 32 + s div 32 else j div 32 + s div 32 + 1)"
      "(s + j) mod 32 = (if j mod 32 + s mod 32 < 32 then j mod 32 + s mod 32 else j mod 32 + s mod 32 - 32)"
      using sum_position [of "j mod 32" "s mod 32" "j div 32" "s div 32"] by (simp_all add: add.commute)
    show ?thesis
    proof (cases "j mod 32 + s mod 32 < 32")
      case True
      then show ?thesis unfolding B by (simp add: bit_drop_bit_eq bit_num p)
    next
      case False
      then have "s mod 32 \<noteq> 0" using mod_less_divisor [of 32 j] by linarith
      then show ?thesis using False over unfolding B by (simp add: bit_drop_bit_eq bit_num p)
    qed
  next
    case False
    then have "\<not> (s + j) div 32 < length a" using div_le_mono [of j "s + j" 32] by simp
    then show ?thesis using False by (simp add: bit_num bit_drop_bit_eq)
  qed
  then have "num (shr_assign a s) = drop_bit s (num a)" by (intro bit_eqI) simp
  then show ?thesis by (simp add: drop_bit_eq_div)
qed

section \<open>Comparison, bit length and quotients\<close>

lemma compare_loop_num: "length p = length q \<Longrightarrow> compare_loop p q = sgn (int (num (rev p)) - int (num (rev q)))"
proof (induction p q rule: list_induct2)
  case (Cons x p y q)
  let ?w = "2 ^ (32 * length p) :: nat"
  have n: "num (rev (x # p)) = num (rev p) + ?w * unat x" "num (rev (y # q)) = num (rev q) + ?w * unat y" using Cons.hyps by (simp_all add: num_append)
  have less: "num (rev p) < ?w" "num (rev q) < ?w" using num_less [of "rev p"] num_less [of "rev q"] Cons.hyps by simp_all
  consider "x = y" | "x < y" | "y < x" by (rule linorder_cases [of x y]) auto
  then show ?case
  proof cases
    case 1
    then have "int (num (rev (x # p))) - int (num (rev (y # q))) = int (num (rev p)) - int (num (rev q))" unfolding n by simp
    then show ?thesis using Cons.IH 1 by (simp only: compare_loop.simps less_irrefl if_False)
  next
    case 2
    then have "?w * (unat x + 1) \<le> ?w * unat y" by (intro mult_le_mono2) (simp add: word_less_nat_alt)
    then have "num (rev (x # p)) < num (rev (y # q))" unfolding n using less(1) by simp
    then show ?thesis using 2 by simp
  next
    case 3
    then have "?w * (unat y + 1) \<le> ?w * unat x" by (intro mult_le_mono2) (simp add: word_less_nat_alt)
    then have "num (rev (y # q)) < num (rev (x # p))" unfolding n using less(2) by simp
    then show ?thesis using 3 by simp
  qed
qed simp

lemma CompareTo_num: "length a = length b \<Longrightarrow> CompareTo a b = sgn (int (num a) - int (num b))"
  using compare_loop_num [of "rev a" "rev b"] by (simp add: CompareTo_def)

lemma top_bit_num:
  assumes "x \<noteq> 0" and "unat x < 2 ^ (b + 1)"
  shows "0 < top_bit x b \<and> unat x < 2 ^ top_bit x b \<and> 2 ^ (top_bit x b - 1) \<le> unat x"
  using assms(2)
proof (induction b)
  case 0
  then show ?case using assms(1) by (simp add: unat_gt_0 Suc_leI)
next
  case (Suc b)
  have "(x AND push_bit (Suc b) 1 \<noteq> 0) = bit x (Suc b)" by (simp only: bit_iff_and_push_bit_not_eq_0)
  also have "\<dots> = bit (unat x) (Suc b)" by (simp add: bit_unsigned_iff)
  also have "\<dots> = odd (unat x div 2 ^ Suc b)" by (rule bit_iff_odd)
  also have "\<dots> = (2 ^ Suc b \<le> unat x)"
  proof -
    have "unat x div 2 ^ Suc b < 2" using Suc.prems by (simp add: div_less_iff_less_mult)
    then have "odd (unat x div 2 ^ Suc b) = (0 < unat x div 2 ^ Suc b)" by (auto simp: less_2_cases_iff)
    then show ?thesis by (simp add: div_greater_zero_iff)
  qed
  finally show ?case using Suc by simp
qed

lemma bits_loop_num: "if num (rev p) = 0 then bits_loop p = 0 else 0 < bits_loop p \<and> num (rev p) < 2 ^ bits_loop p \<and> 2 ^ (bits_loop p - 1) \<le> num (rev p)"
proof (induction p)
  case (Cons x p)
  let ?w = "2 ^ (32 * length p) :: nat"
  have n: "num (rev (x # p)) = num (rev p) + ?w * unat x" by (simp add: num_append)
  show ?case
  proof (cases "x = 0")
    case True
    then have "num (rev (x # p)) = num (rev p)" unfolding n by simp
    then show ?thesis using Cons.IH True by (simp only: bits_loop.simps simp_thms if_False)
  next
    case False
    let ?t = "top_bit x 31"
    have t: "0 < ?t" "unat x + 1 \<le> 2 ^ ?t" "2 ^ (?t - 1) \<le> unat x" using top_bit_num [OF False, of 31] limb_less [of x] by simp_all
    have p: "num (rev p) < ?w" using num_less [of "rev p"] by simp
    have "?w * unat x + ?w \<le> ?w * 2 ^ ?t" using mult_le_mono2 [OF t(2), of ?w] by (simp add: distrib_left)
    then have "num (rev (x # p)) < 2 ^ (32 * length p + ?t)" unfolding n power_add using p by linarith
    moreover have "2 ^ (32 * length p + ?t - 1) = ?w * 2 ^ (?t - 1)" using t(1) by (simp add: power_add [symmetric])
    then have "2 ^ (32 * length p + ?t - 1) \<le> num (rev (x # p))" unfolding n using mult_le_mono2 [OF t(3), of ?w] by linarith
    moreover have "num (rev (x # p)) \<noteq> 0" unfolding n using False by (simp add: unat_eq_0)
    ultimately show ?thesis using False t(1) by simp
  qed
qed simp

lemma arith_bits_num:
  "num a = 0 \<Longrightarrow> arith_bits a = 0"
  "num a \<noteq> 0 \<Longrightarrow> 0 < arith_bits a \<and> num a < 2 ^ arith_bits a \<and> 2 ^ (arith_bits a - 1) \<le> num a"
  using bits_loop_num [of "rev a"] by (simp_all add: arith_bits_def split: if_splits)

lemma arith_bits_le: "arith_bits a \<le> 32 * length a"
proof (cases "num a = 0")
  case False
  then have "(2 :: nat) ^ (arith_bits a - 1) < 2 ^ (32 * length a)" using arith_bits_num(2) [OF False] num_less [of a] by linarith
  then have "arith_bits a - 1 < 32 * length a" by (simp only: power_strict_increasing_iff)
  then show ?thesis by simp
qed (simp add: arith_bits_num)

lemma set_limb_bit:
  assumes "s div 32 < length q" and "2 ^ Suc s dvd num q"
  shows "num (q[s div 32 := q ! (s div 32) OR push_bit (s mod 32) 1]) = num q + 2 ^ s"
proof -
  have "bit (num (q[s div 32 := q ! (s div 32) OR push_bit (s mod 32) 1])) j = bit (set_bit s (num q)) j" for j
  proof (cases "j div 32 = s div 32")
    case True
    then have "(j mod 32 = s mod 32) = (j = s)" by (metis div_mult_mod_eq)
    then show ?thesis using True assms(1) by (auto simp: bit_num bit_simps)
  next
    case False
    then show ?thesis using assms(1) by (auto simp: bit_num bit_set_bit_iff)
  qed
  then have "num (q[s div 32 := q ! (s div 32) OR push_bit (s mod 32) 1]) = set_bit s (num q)" by (intro bit_eqI) simp
  moreover obtain k where "num q = 2 ^ s * (2 * k)" using assms(2) by (auto elim: dvdE)
  then have "\<not> bit (num q) s" by (simp add: bit_iff_odd)
  ultimately show ?thesis by (simp add: set_bit_eq)
qed

lemma div_loop_num:
  assumes "length n = length q" and "length dd = length q" and "c \<le> 32 * length q" and "\<And>s. c = Suc s \<Longrightarrow> num dd = d * 2 ^ s" and "num n < d * 2 ^ c" and "2 ^ c dvd num q"
  shows "length (div_loop c n dd q) = length q \<and> num (div_loop c n dd q) = num q + num n div d"
  using assms
proof (induction c arbitrary: n dd q)
  case (Suc s)
  have dd: "num dd = d * 2 ^ s" using Suc.prems(4) by simp
  have half: "num (shr_assign dd 1) = d * 2 ^ r" if "s = Suc r" for r using that by (simp add: shr_assign_num dd)
  have s: "s div 32 < length q" using Suc.prems(3) by (simp add: div_less_iff_less_mult mult.commute)
  show ?case
  proof (cases "CompareTo n dd \<ge> 0")
    case True
    then have "num dd \<le> num n" using Suc.prems(1,2) by (simp add: CompareTo_num sgn_if split: if_splits)
    then have ge: "d * 2 ^ s \<le> num n" by (simp only: dd)
    let ?q = "q[s div 32 := q ! (s div 32) OR push_bit (s mod 32) 1]"
    have q: "num ?q = num q + 2 ^ s" by (rule set_limb_bit [OF s Suc.prems(6)])
    have n: "num (sub_assign n dd) = num n - d * 2 ^ s" using Suc.prems(1,2) ge by (simp add: sub_assign_exact dd)
    have "2 ^ s dvd num ?q" unfolding q using Suc.prems(6) by (meson dvd_add dvd_refl dvd_trans le_imp_power_dvd lessI less_imp_le)
    then have "length (div_loop s (sub_assign n dd) (shr_assign dd 1) ?q) = length ?q
        \<and> num (div_loop s (sub_assign n dd) (shr_assign dd 1) ?q) = num ?q + num (sub_assign n dd) div d"
      using Suc.prems ge half by (intro Suc.IH) (simp_all add: n algebra_simps)
    moreover have "num n div d = 2 ^ s + (num n - d * 2 ^ s) div d"
      using ge Suc.prems(5) by (metis add.commute add_diff_inverse_nat div_mult_self2 linorder_not_le mult_is_0 not_less_zero)
    ultimately show ?thesis using True q n by simp
  next
    case False
    then have "num n < num dd" using Suc.prems(1,2) by (simp add: CompareTo_num sgn_if split: if_splits)
    then have "num n < d * 2 ^ s" by (simp only: dd)
    moreover have "2 ^ s dvd num q" using Suc.prems(6) by (meson dvd_trans le_imp_power_dvd lessI less_imp_le)
    ultimately show ?thesis using False Suc.prems half Suc.IH [of n q "shr_assign dd 1"] by simp
  qed
qed simp

lemma div_assign_num:
  assumes "length a = length b" and "num b \<noteq> 0"
  shows "\<exists>q. div_assign a b = Inr q \<and> length q = length a \<and> num q = num a div num b"
proof (cases "arith_bits b > arith_bits a")
  case True
  have "num a < num b"
  proof (cases "num a = 0")
    case False
    have "num a < 2 ^ arith_bits a" using arith_bits_num(2) [OF False] by blast
    also have "\<dots> \<le> 2 ^ (arith_bits b - 1)" using True by (intro power_increasing) simp_all
    also have "\<dots> \<le> num b" using arith_bits_num(2) [OF assms(2)] by blast
    finally show ?thesis .
  qed (use assms(2) in simp)
  then show ?thesis using True by (simp add: div_assign_def Let_def)
next
  case False
  define sh where "sh = arith_bits a - arith_bits b"
  have b: "0 < arith_bits b" "num b < 2 ^ arith_bits b" "2 ^ (arith_bits b - 1) \<le> num b" using arith_bits_num(2) [OF assms(2)] by blast+
  have e: "arith_bits b + sh = arith_bits a" "arith_bits b - 1 + (sh + 1) = arith_bits a" using False b(1) by (simp_all add: sh_def)
  have "num b * 2 ^ sh < 2 ^ (arith_bits b + sh)" using b(2) by (simp add: power_add)
  also have "\<dots> \<le> 2 ^ (32 * length b)" unfolding e using arith_bits_le [of a] assms(1) by (intro power_increasing) simp_all
  finally have d: "num (shl_assign b sh) = num b * 2 ^ sh" by (simp add: shl_assign_num)
  have "num a \<noteq> 0" using False b(1) arith_bits_num(1) [of a] by fastforce
  then have "num a < 2 ^ (arith_bits b - 1 + (sh + 1))" unfolding e using arith_bits_num(2) by blast
  also have "\<dots> \<le> num b * 2 ^ (sh + 1)" unfolding power_add using b(3) by (intro mult_le_mono1)
  finally have n: "num a < num b * 2 ^ (sh + 1)" .
  have "sh + 1 \<le> 32 * length a" using arith_bits_le [of a] e b(1) by linarith
  then have "length (div_loop (sh + 1) a (shl_assign b sh) (replicate (length a) 0)) = length a \<and> num (div_loop (sh + 1) a (shl_assign b sh) (replicate (length a) 0)) = num a div num b"
    using div_loop_num [of a "replicate (length a) 0" "shl_assign b sh" "sh + 1" "num b"] n d assms(1) by simp
  then show ?thesis using False b(1) by (simp add: div_assign_def Let_def sh_def)
qed

section \<open>Refinement of 256-bit words\<close>

definition arith_word :: "limbs \<Rightarrow> uint256" where "arith_word a = of_nat (num a)"

lemma unat_arith_word: "length a = WIDTH \<Longrightarrow> unat (arith_word a) = num a"
  using num_less [of a] by (simp add: arith_word_def WIDTH_def unat_of_nat take_bit_nat_eq_self)

lemma arith_word_eqI: "length a = WIDTH \<Longrightarrow> num a = n mod 2 ^ 256 \<Longrightarrow> unat w = n mod 2 ^ 256 \<Longrightarrow> arith_word a = w"
  by (simp add: word_unat_eq_iff unat_arith_word)

lemma arith_word_add: "length a = WIDTH \<Longrightarrow> length b = WIDTH \<Longrightarrow> arith_word (add_assign a b) = arith_word a + arith_word b"
  by (rule arith_word_eqI [of _ "num a + num b"]) (simp_all add: add_assign_num unat_word_ariths unat_arith_word, simp add: WIDTH_def)

lemma arith_word_negate:
  assumes "length a = WIDTH"
  shows "arith_word (negate a) = - arith_word a"
proof -
  have "num (add_assign (negate a) a) = (2 ^ (32 * length a) - num a + num a) mod 2 ^ (32 * length a)" by (simp add: add_assign_num negate_num mod_add_left_eq)
  also have "\<dots> = 0" using num_less [of a] by simp
  finally have "arith_word (add_assign (negate a) a) = 0" by (simp add: arith_word_def)
  then show ?thesis using assms by (simp add: arith_word_add eq_neg_iff_add_eq_0)
qed

lemma arith_word_sub: "length a = WIDTH \<Longrightarrow> length b = WIDTH \<Longrightarrow> arith_word (sub_assign a b) = arith_word a - arith_word b"
  by (simp add: sub_assign_def arith_word_add arith_word_negate)

lemma arith_word_mul: "length a = WIDTH \<Longrightarrow> length b = WIDTH \<Longrightarrow> arith_word (mul_assign a b) = arith_word a * arith_word b"
  by (rule arith_word_eqI [of _ "num a * num b"]) (simp_all add: mul_assign_num unat_word_ariths unat_arith_word, simp add: WIDTH_def)

lemma arith_word_shl: "length a = WIDTH \<Longrightarrow> arith_word (shl_assign a n) = push_bit n (arith_word a)"
  by (rule arith_word_eqI [of _ "num a * 2 ^ n"])
    (simp_all add: shl_assign_num unsigned_push_bit_eq unat_arith_word, simp_all add: WIDTH_def push_bit_eq_mult take_bit_eq_mod)

lemma arith_word_shr: "length a = WIDTH \<Longrightarrow> arith_word (shr_assign a n) = drop_bit n (arith_word a)"
  using num_less [of a] by (simp add: word_unat_eq_iff unat_arith_word shr_assign_num unsigned_drop_bit_eq WIDTH_def take_bit_nat_eq_self) (simp add: drop_bit_eq_div)

lemma arith_word_compare:
  assumes "length a = WIDTH" and "length b = WIDTH"
  shows "CompareTo a b < 0 \<longleftrightarrow> arith_word a < arith_word b" "CompareTo a b = 0 \<longleftrightarrow> arith_word a = arith_word b"
proof -
  have "unat (arith_word a) = num a" "unat (arith_word b) = num b" using assms by (simp_all add: unat_arith_word)
  then show "CompareTo a b < 0 \<longleftrightarrow> arith_word a < arith_word b" "CompareTo a b = 0 \<longleftrightarrow> arith_word a = arith_word b"
    using assms by (simp_all add: CompareTo_num word_less_nat_alt word_unat_eq_iff sgn_eq_0_iff)
qed

lemma arith_word_div:
  assumes "length a = WIDTH" and "length b = WIDTH"
  shows "div_assign a b = Inl (Throw ''Division by zero'') \<and> arith_word b = 0 \<or> (\<exists>q. div_assign a b = Inr q \<and> length q = WIDTH \<and> arith_word q = arith_word a div arith_word b \<and> arith_word b \<noteq> 0)"
proof (cases "num b = 0")
  case True
  then show ?thesis by (simp add: div_assign_def Let_def arith_bits_num arith_word_def)
next
  case False
  then obtain q where q: "div_assign a b = Inr q" "length q = WIDTH" "num q = num a div num b" using div_assign_num [of a b] assms by auto
  then have "arith_word q = arith_word a div arith_word b" using assms by (simp add: word_unat_eq_iff unat_arith_word unat_div_distrib)
  moreover have "arith_word b \<noteq> 0" using False unat_arith_word [OF assms(2)] by auto
  ultimately show ?thesis using q by blast
qed

lemma arith_word_inj: "length a = WIDTH \<Longrightarrow> length b = WIDTH \<Longrightarrow> arith_word a = arith_word b \<Longrightarrow> a = b"
  by (metis num_inj unat_arith_word)

lemma UintToArith256: "length (UintToArith256 w) = WIDTH" "num (UintToArith256 w) = unat w" "arith_word (UintToArith256 w) = w"
proof -
  show l: "length (UintToArith256 w) = WIDTH" by (simp add: UintToArith256_def)
  have "bit (num (UintToArith256 w)) j = bit (unat w) j" for j
  proof (cases "j div 32 < 8")
    case True
    then show ?thesis by (simp add: bit_num UintToArith256_def WIDTH_def bit_simps)
  next
    case False
    then have "\<not> bit w j" using bit_imp_le_length [of w j] by auto
    then show ?thesis using False by (simp add: bit_num l WIDTH_def bit_simps)
  qed
  then show "num (UintToArith256 w) = unat w" by (intro bit_eqI) simp
  then show "arith_word (UintToArith256 w) = w" by (simp add: arith_word_def)
qed

lemma GetLow64_word:
  assumes "length a = WIDTH"
  shows "GetLow64 a = ucast (arith_word a)"
proof (rule bit_word_eqI)
  fix j
  assume j: "j < LENGTH(64)"
  have "bit (arith_word a) j = bit (num a) j" using j by (simp add: arith_word_def bit_simps)
  moreover have "j div 32 < 8" using j less_mult_imp_div_less [of j 8 32] by simp
  ultimately have r: "bit (ucast (arith_word a) :: uint64) j = bit (a ! (j div 32)) (j mod 32)" using j assms by (simp add: bit_simps bit_num WIDTH_def)
  show "bit (GetLow64 a) j = bit (ucast (arith_word a) :: uint64) j"
  proof (cases "j < 32")
    case True
    then show ?thesis unfolding r by (simp add: GetLow64_def bit_simps)
  next
    case False
    then have "j div 32 = 1" "j mod 32 = j - 32" using j by (simp_all add: le_mod_geq)
    moreover have "\<not> bit (a ! 0) j" using False bit_imp_le_length [of "a ! 0" j] by auto
    ultimately show ?thesis unfolding r using False j by (auto simp: GetLow64_def bit_simps)
  qed
qed

text \<open>C32: the limb arithmetic of 256-bit numbers refines 256-bit words: sum, difference, product, quotient, shifts and comparison of eight limbs are
  those of the words the limbs stand for, and a division throws exactly when the divisor is zero.\<close>

theorem limb_arithmetic_refines_words:
  assumes "length a = WIDTH" and "length b = WIDTH"
  shows "arith_word (add_assign a b) = arith_word a + arith_word b \<and> arith_word (sub_assign a b) = arith_word a - arith_word b
    \<and> arith_word (mul_assign a b) = arith_word a * arith_word b \<and> arith_word (shl_assign a n) = push_bit n (arith_word a) \<and> arith_word (shr_assign a n) = drop_bit n (arith_word a)
    \<and> (case div_assign a b of Inl e \<Rightarrow> arith_word b = 0 \<and> e = Throw ''Division by zero'' | Inr q \<Rightarrow> arith_word b \<noteq> 0 \<and> arith_word q = arith_word a div arith_word b)
    \<and> (CompareTo a b < 0 \<longleftrightarrow> arith_word a < arith_word b) \<and> (CompareTo a b = 0 \<longleftrightarrow> arith_word a = arith_word b)"
  using arith_word_add [OF assms] arith_word_sub [OF assms] arith_word_mul [OF assms] arith_word_shl [OF assms(1)] arith_word_shr [OF assms(1)] arith_word_compare [OF assms]
    arith_word_div [OF assms] by auto

theorem limb_arithmetic_refines_words_witness:
  "arith_word (mul_assign [0xFFFFFFFF, 1, 0, 0, 0, 0, 0, 0] [0xFFFFFFFF, 2, 0, 0, 0, 0, 0, 0]) = 0x1FFFFFFFF * 0x2FFFFFFFF
    \<and> (\<exists>q. div_assign [0xFFFFFFFF, 1, 0, 0, 0, 0, 0, 0] [7, 0, 0, 0, 0, 0, 0, 0] = Inr q \<and> arith_word q = 0x1FFFFFFFF div 7)"
proof -
  have w: "arith_word [0xFFFFFFFF, 1, 0, 0, 0, 0, 0, 0] = 0x1FFFFFFFF" "arith_word [0xFFFFFFFF, 2, 0, 0, 0, 0, 0, 0] = 0x2FFFFFFFF" "arith_word [7, 0, 0, 0, 0, 0, 0, 0] = 7"
    by (simp_all add: arith_word_def)
  have "arith_word (mul_assign [0xFFFFFFFF, 1, 0, 0, 0, 0, 0, 0] [0xFFFFFFFF, 2, 0, 0, 0, 0, 0, 0]) = 0x1FFFFFFFF * 0x2FFFFFFFF"
    using limb_arithmetic_refines_words [of "[0xFFFFFFFF, 1, 0, 0, 0, 0, 0, 0]" "[0xFFFFFFFF, 2, 0, 0, 0, 0, 0, 0]" 0] unfolding w by (simp add: WIDTH_def)
  moreover have "\<exists>q. div_assign [0xFFFFFFFF, 1, 0, 0, 0, 0, 0, 0] [7, 0, 0, 0, 0, 0, 0, 0] = Inr q \<and> arith_word q = 0x1FFFFFFFF div 7"
    using limb_arithmetic_refines_words [of "[0xFFFFFFFF, 1, 0, 0, 0, 0, 0, 0]" "[7, 0, 0, 0, 0, 0, 0, 0]" 0] unfolding w by (simp add: WIDTH_def split: sum.splits) 
  ultimately show ?thesis ..
qed

end
