(* ===== verification/Pow.thy ===== *)
theory Pow
  imports ArithUint "HOL-Library.Signed_Division"
begin

text \<open>
  Proof of work: the compact form of targets (\<open>arith_uint256.cpp\<close>), and the adjustment of the target, the check of a proof and the work of a block (\<open>pow.cpp\<close>).
  256-bit numbers are words; \<open>ArithUint\<close> shows that the limbs of the code compute on words.
\<close>

unbundle bit_operations_syntax

section \<open>Compact numbers\<close>

definition SetCompact :: "uint32 \<Rightarrow> uint256 \<times> bool \<times> bool" where
  "SetCompact nCompact =
     (let nSize = unat (drop_bit 24 nCompact);
          nWord = nCompact AND 0x007FFFFF;
          (nWord, target) = (if nSize \<le> 3 then (let nWord = drop_bit (8 * (3 - nSize)) nWord in (nWord, ucast nWord))
                             else (nWord, push_bit (8 * (nSize - 3)) (ucast nWord))) in
      (target, nWord \<noteq> 0 \<and> nCompact AND 0x00800000 \<noteq> 0,
       nWord \<noteq> 0 \<and> (nSize > 34 \<or> nWord > 0xFF \<and> nSize > 33 \<or> nWord > 0xFFFF \<and> nSize > 32)))"

definition bits256 :: "uint256 \<Rightarrow> nat" where "bits256 w = arith_bits (UintToArith256 w)"

definition GetCompact :: "uint256 \<Rightarrow> bool \<Rightarrow> uint32 result" where
  "GetCompact w fNegative =
     (let nSize = (bits256 w + 7) div 8;
          nCompact = (if nSize \<le> 3 then ucast (push_bit (8 * (3 - nSize)) (ucast w :: uint64)) else ucast (ucast (drop_bit (8 * (nSize - 3)) w) :: uint64)) :: uint32;
          (nCompact, nSize) = (if nCompact AND 0x00800000 \<noteq> 0 then (drop_bit 8 nCompact, nSize + 1) else (nCompact, nSize)) in
      if nCompact AND NOT 0x007FFFFF \<noteq> 0 then Inl Assert
      else if \<not> nSize < 256 then Inl Assert
      else let nCompact = nCompact OR push_bit 24 (of_nat nSize) in
        Inr (nCompact OR (if fNegative \<and> nCompact AND 0x007FFFFF \<noteq> 0 then 0x00800000 else 0)))"

section \<open>Targets and work\<close>

record PowParams =
  powLimit :: uint256
  nPowAveragingWindow :: int
  nPowMaxAdjustDown :: int
  nPowMaxAdjustUp :: int
  nPowTargetSpacing :: int

definition AveragingWindowTimespan :: "PowParams \<Rightarrow> int" where
  "AveragingWindowTimespan p = nPowAveragingWindow p * nPowTargetSpacing p"

definition MinActualTimespan :: "PowParams \<Rightarrow> int" where
  "MinActualTimespan p = (AveragingWindowTimespan p * (100 - nPowMaxAdjustUp p)) sdiv 100"

definition MaxActualTimespan :: "PowParams \<Rightarrow> int" where
  "MaxActualTimespan p = (AveragingWindowTimespan p * (100 + nPowMaxAdjustDown p)) sdiv 100"

definition main_pow :: PowParams where
  "main_pow = \<lparr> powLimit = 0x0007FFFFFFFFFFFFFFFFFFFFFFFFFFFFFFFFFFFFFFFFFFFFFFFFFFFFFFFFFFFF, nPowAveragingWindow = 17, nPowMaxAdjustDown = 32, nPowMaxAdjustUp = 16, nPowTargetSpacing = 150 \<rparr>"

definition test_pow :: PowParams where
  "test_pow = main_pow\<lparr> powLimit := 0x07FFFFFFFFFFFFFFFFFFFFFFFFFFFFFFFFFFFFFFFFFFFFFFFFFFFFFFFFFFFFFF \<rparr>"

definition reg_pow :: PowParams where
  "reg_pow = test_pow\<lparr> powLimit := 0x0F0F0F0F0F0F0F0F0F0F0F0F0F0F0F0F0F0F0F0F0F0F0F0F0F0F0F0F0F0F0F0F, nPowMaxAdjustDown := 0, nPowMaxAdjustUp := 0 \<rparr>"

text \<open>The timespan that the new target is computed with.\<close>

definition bounded_timespan :: "int \<Rightarrow> int \<Rightarrow> PowParams \<Rightarrow> int" where
  "bounded_timespan nLastBlockTime nFirstBlockTime p =
     (let nActualTimespan = nLastBlockTime - nFirstBlockTime;
          nActualTimespan = AveragingWindowTimespan p + (nActualTimespan - AveragingWindowTimespan p) sdiv 4;
          nActualTimespan = (if nActualTimespan < MinActualTimespan p then MinActualTimespan p else nActualTimespan) in
      if nActualTimespan > MaxActualTimespan p then MaxActualTimespan p else nActualTimespan)"

text \<open>The product takes the timespan as a 32-bit number; the quotient takes it as a 64-bit number.\<close>

definition new_target :: "uint256 \<Rightarrow> int \<Rightarrow> PowParams \<Rightarrow> uint256 result" where
  "new_target bnAvg nActualTimespan p =
     (let d = ucast (of_int (AveragingWindowTimespan p) :: uint64) :: uint256 in
      if d = 0 then Inl (Throw ''Division by zero'')
      else let bnNew = bnAvg div d * ucast (of_int nActualTimespan :: uint32) in
        Inr (if bnNew > powLimit p then powLimit p else bnNew))"

definition CalculateNextWorkRequired :: "uint256 \<Rightarrow> int \<Rightarrow> int \<Rightarrow> PowParams \<Rightarrow> uint32 result" where
  "CalculateNextWorkRequired bnAvg nLastBlockTime nFirstBlockTime p =
     bindR (new_target bnAvg (bounded_timespan nLastBlockTime nFirstBlockTime p) p) (\<lambda>bnNew. GetCompact bnNew False)"

definition CheckProofOfWork :: "uint256 \<Rightarrow> uint32 \<Rightarrow> PowParams \<Rightarrow> bool" where
  "CheckProofOfWork hash nBits p =
     (let (bnTarget, fNegative, fOverflow) = SetCompact nBits in
      if fNegative \<or> bnTarget = 0 \<or> fOverflow \<or> bnTarget > powLimit p then False
      else if hash > bnTarget then False
      else True)"

definition GetBlockProof :: "uint32 \<Rightarrow> uint256 result" where
  "GetBlockProof nBits =
     (let (bnTarget, fNegative, fOverflow) = SetCompact nBits in
      if fNegative \<or> fOverflow \<or> bnTarget = 0 then Inr 0
      else if bnTarget + 1 = 0 then Inl (Throw ''Division by zero'')
      else Inr (NOT bnTarget div (bnTarget + 1) + 1))"

definition GetBlockProofEquivalentTime :: "uint256 \<Rightarrow> uint256 \<Rightarrow> uint32 \<Rightarrow> PowParams \<Rightarrow> int result" where
  "GetBlockProofEquivalentTime to_work from_work tip_nBits p =
     (let (r, sign) = (if to_work > from_work then (to_work - from_work, 1) else (from_work - to_work, - 1)) in
      bindR (GetBlockProof tip_nBits) (\<lambda>proof.
        if proof = 0 then Inl (Throw ''Division by zero'')
        else let r = r * ucast (of_int (nPowTargetSpacing p) :: uint64) div proof in
          if bits256 r > 63 then Inr (sign * (2 ^ 63 - 1)) else Inr (sign * uint (ucast r :: uint64))))"

section \<open>What a compact number stands for\<close>

lemma nat_split:
  fixes c :: uint32
  shows "unat (drop_bit 24 c) = unat c div 2 ^ 24" "unat (c AND 0x007FFFFF) = unat c mod 2 ^ 23"
proof -
  show "unat (drop_bit 24 c) = unat c div 2 ^ 24" using limb_less [of c] by (simp add: unsigned_drop_bit_eq take_bit_nat_eq_self) (simp add: drop_bit_eq_div)
  have "c AND 0x007FFFFF = take_bit 23 c" by (simp add: take_bit_eq_mask mask_eq_exp_minus_1)
  then show "unat (c AND 0x007FFFFF) = unat c mod 2 ^ 23" by (simp add: unsigned_take_bit_eq) (simp add: take_bit_eq_mod)
qed

text \<open>The number that a mantissa and an exponent denote, when it has no sign.\<close>

definition compact_value :: "uint32 \<Rightarrow> nat" where
  "compact_value c = unat c mod 2 ^ 23 * 256 ^ (unat c div 2 ^ 24) div 256 ^ 3"

lemma compact_value_small:
  fixes m s :: nat
  assumes "s \<le> 3"
  shows "m * 256 ^ s div 256 ^ 3 = m div 2 ^ (8 * (3 - s))"
proof -
  have "(256 :: nat) ^ 3 = 256 ^ s * 256 ^ (3 - s)" unfolding power_add [symmetric] using assms by simp
  then have "m * 256 ^ s div 256 ^ 3 = m * 256 ^ s div (256 ^ s * 256 ^ (3 - s))" by (simp only:)
  also have "\<dots> = m div 256 ^ (3 - s)" by (simp add: div_mult2_eq)
  finally show ?thesis by (simp add: power_mult)
qed

lemma compact_value_large:
  fixes m s :: nat
  assumes "3 < s"
  shows "m * 256 ^ s div 256 ^ 3 = m * 2 ^ (8 * (s - 3))"
proof -
  have "m * 256 ^ s = m * 256 ^ (s - 3) * 256 ^ 3" unfolding mult.assoc power_add [symmetric] using assms by simp
  then show ?thesis by (simp only: nonzero_mult_div_cancel_right) (simp add: power_mult)
qed

lemma compact_overflow:
  fixes m s :: nat
  assumes "3 < s" and "m < 2 ^ 23"
  shows "(m \<noteq> 0 \<and> (s > 34 \<or> m > 0xFF \<and> s > 33 \<or> m > 0xFFFF \<and> s > 32)) = (2 ^ 256 \<le> m * 2 ^ (8 * (s - 3)))"
proof -
  consider "s \<le> 32" | "s = 33" | "s = 34" | "34 < s" by linarith
  then show ?thesis
  proof cases
    case 1
    have "m * 2 ^ (8 * (s - 3)) \<le> m * 2 ^ (8 * 29)" using 1 by (intro mult_le_mono2 power_increasing) simp_all
    also have "\<dots> < 2 ^ 23 * 2 ^ (8 * 29)" using assms(2) by (intro mult_strict_right_mono) simp_all
    finally have "m * 2 ^ (8 * (s - 3)) < 2 ^ 256" by simp
    then show ?thesis using 1 by simp
  next
    case 4
    have "2 ^ 256 \<le> m * 2 ^ (8 * (s - 3))" if "m \<noteq> 0"
    proof -
      have "(2 :: nat) ^ 256 \<le> 2 ^ (8 * (s - 3))" using 4 by (intro power_increasing) simp_all
      also have "\<dots> \<le> m * 2 ^ (8 * (s - 3))" using that by simp
      finally show ?thesis .
    qed
    then show ?thesis using 4 by (cases "m = 0") simp_all
  qed auto
qed

lemma compact_sign: "(c AND 0x00800000 \<noteq> 0) = bit (c :: uint32) 23"
  by (simp add: bit_iff_and_push_bit_not_eq_0)

lemma SetCompact_value: "SetCompact c = (of_nat (compact_value c), compact_value c \<noteq> 0 \<and> bit c 23, 2 ^ 256 \<le> compact_value c)"
proof -
  define s m where "s = unat (drop_bit 24 c)" and "m = c AND 0x007FFFFF"
  have m: "unat m < 2 ^ 23" by (simp add: m_def nat_split)
  have v: "compact_value c = unat m * 256 ^ s div 256 ^ 3" by (simp only: compact_value_def s_def m_def nat_split)
  show ?thesis
  proof (cases "s \<le> 3")
    case True
    let ?w = "drop_bit (8 * (3 - s)) m"
    have w: "unat ?w = compact_value c" unfolding v compact_value_small [OF True] using limb_less [of m]
      by (simp add: unsigned_drop_bit_eq take_bit_nat_eq_self) (simp add: drop_bit_eq_div)
    have "SetCompact c = (ucast ?w, ?w \<noteq> 0 \<and> bit c 23, False)" using True by (simp add: SetCompact_def Let_def s_def [symmetric] m_def [symmetric] compact_sign)
    moreover have "compact_value c < 2 ^ 256" using limb_less [of ?w] unfolding w by simp
    moreover have "ucast ?w = (of_nat (compact_value c) :: uint256)" unfolding w [symmetric] by simp
    ultimately show ?thesis using w by (simp add: unat_eq_0 [symmetric])
  next
    case False
    then have v': "compact_value c = unat m * 2 ^ (8 * (s - 3))" unfolding v by (intro compact_value_large) simp
    have "SetCompact c = (push_bit (8 * (s - 3)) (ucast m), m \<noteq> 0 \<and> bit c 23, unat m \<noteq> 0 \<and> (s > 34 \<or> unat m > 0xFF \<and> s > 33 \<or> unat m > 0xFFFF \<and> s > 32))"
      using False by (simp add: SetCompact_def s_def [symmetric] m_def [symmetric] compact_sign word_less_nat_alt unat_eq_0)
    moreover have "push_bit (8 * (s - 3)) (ucast m) = (of_nat (compact_value c) :: uint256)" unfolding v' by (simp add: push_bit_eq_mult)
    ultimately show ?thesis using compact_overflow [of s "unat m"] False m v' by (simp add: unat_eq_0)
  qed
qed

text \<open>C1: a compact number stands for its 23-bit mantissa times 256 to the exponent less 3, rounded down; \<open>SetCompact\<close> gives this number modulo 2 to the 256 and
  reports an overflow exactly when it does not fit, and a sign exactly when it is not zero and has the sign bit.\<close>

theorem compact_number_read: "SetCompact c = (of_nat (compact_value c), compact_value c \<noteq> 0 \<and> bit c 23, 2 ^ 256 \<le> compact_value c)"
  by (rule SetCompact_value)

section \<open>Writing a compact number\<close>

lemma bits256_bounds:
  assumes "w \<noteq> 0"
  shows "0 < bits256 w" "unat w < 2 ^ bits256 w" "2 ^ (bits256 w - 1) \<le> unat w" "bits256 w \<le> 256"
proof -
  have "num (UintToArith256 w) \<noteq> 0" using assms by (simp add: UintToArith256 unat_eq_0)
  from arith_bits_num(2) [OF this] show "0 < bits256 w" "unat w < 2 ^ bits256 w" "2 ^ (bits256 w - 1) \<le> unat w" by (simp_all add: bits256_def UintToArith256)
  show "bits256 w \<le> 256" using arith_bits_le [of "UintToArith256 w"] by (simp add: bits256_def UintToArith256 WIDTH_def)
qed

lemma bits256_0 [simp]: "bits256 0 = 0"
  by (simp add: bits256_def arith_bits_num UintToArith256)

lemma size256:
  assumes "w \<noteq> 0"
  defines "S \<equiv> (bits256 w + 7) div 8"
  shows "1 \<le> S" "S \<le> 32" "256 ^ (S - 1) \<le> unat w" "unat w < 256 ^ S"
proof -
  note b = bits256_bounds [OF assms(1)]
  have S: "8 * (S - 1) \<le> bits256 w - 1" "bits256 w \<le> 8 * S" using b(1) unfolding S_def by linarith+
  show "1 \<le> S" "S \<le> 32" using b(1,4) unfolding S_def by linarith+
  have "(256 :: nat) ^ (S - 1) = 2 ^ (8 * (S - 1))" by (simp add: power_mult)
  also have "\<dots> \<le> 2 ^ (bits256 w - 1)" using S(1) by (intro power_increasing) simp_all
  finally show "256 ^ (S - 1) \<le> unat w" using b(3) by linarith
  have "unat w < 2 ^ (8 * S)" using b(2) S(2) by (meson less_le_trans one_le_numeral power_increasing)
  then show "unat w < 256 ^ S" by (simp add: power_mult)
qed

text \<open>The mantissa before its sign bit is cleared.\<close>

lemma raw_mantissa:
  fixes w :: uint256
  assumes "unat w < 256 ^ S"
  shows "unat (if S \<le> 3 then ucast (push_bit (8 * (3 - S)) (ucast w :: uint64)) else ucast (ucast (drop_bit (8 * (S - 3)) w) :: uint64) :: uint32) = unat w * 256 ^ 3 div 256 ^ S"
proof (cases "S \<le> 3")
  case True
  have e: "(256 :: nat) ^ 3 = 2 ^ (8 * (3 - S)) * 256 ^ S" using True by (simp add: power_mult power_add [symmetric])
  have "unat w * 2 ^ (8 * (3 - S)) * 256 ^ S < 256 ^ S * 256 ^ 3" using assms unfolding e by simp
  then have b: "unat w * 2 ^ (8 * (3 - S)) < 2 ^ 24" by simp
  moreover have "unat w \<le> unat w * 2 ^ (8 * (3 - S))" by simp
  ultimately have "unat w < 2 ^ 24" by linarith
  then have "unat (ucast w :: uint64) = unat w" by (simp add: unsigned_ucast_eq take_bit_nat_eq_self)
  then have "unat (push_bit (8 * (3 - S)) (ucast w :: uint64)) = unat w * 2 ^ (8 * (3 - S))" using b
    by (simp only: unsigned_push_bit_eq) (simp add: push_bit_eq_mult take_bit_nat_eq_self)
  then have "unat (ucast (push_bit (8 * (3 - S)) (ucast w :: uint64)) :: uint32) = unat w * 2 ^ (8 * (3 - S))" using b by (simp add: unsigned_ucast_eq take_bit_nat_eq_self)
  moreover have "unat w * 256 ^ 3 div 256 ^ S = unat w * 2 ^ (8 * (3 - S))" unfolding e by simp
  ultimately show ?thesis using True by simp
next
  case False
  have "(256 :: nat) ^ S = 256 ^ 3 * 256 ^ (S - 3)" unfolding power_add [symmetric] using False by simp
  then have e: "(256 :: nat) ^ S = 256 ^ 3 * 2 ^ (8 * (S - 3))" by (simp add: power_mult)
  have d: "unat (drop_bit (8 * (S - 3)) w) = unat w div 2 ^ (8 * (S - 3))"
    using unsigned_less [of w, where ?'a = nat] by (simp add: unsigned_drop_bit_eq take_bit_nat_eq_self) (simp add: drop_bit_eq_div)
  have b: "unat w div 2 ^ (8 * (S - 3)) < 2 ^ 24" using assms unfolding e by (simp add: div_less_iff_less_mult mult.commute)
  have u: "unat (ucast (drop_bit (8 * (S - 3)) w) :: uint64) = unat w div 2 ^ (8 * (S - 3))" using b unfolding unsigned_ucast_eq d by (simp add: take_bit_nat_eq_self)
  have "unat (ucast (ucast (drop_bit (8 * (S - 3)) w) :: uint64) :: uint32) = unat w div 2 ^ (8 * (S - 3))"
    using b unfolding unsigned_ucast_eq [of "ucast (drop_bit (8 * (S - 3)) w) :: uint64"] u by (simp add: take_bit_nat_eq_self)
  moreover have "unat w * 256 ^ 3 div 256 ^ S = unat w div 2 ^ (8 * (S - 3))" unfolding e by (simp only: mult.commute [of "unat w"] div_mult_mult1_if) simp
  ultimately show ?thesis using False by simp
qed

text \<open>The mantissa and the size that the compact form of a number has.\<close>

definition compact_form :: "nat \<Rightarrow> nat \<Rightarrow> nat \<Rightarrow> bool" where
  "compact_form n m s \<longleftrightarrow> m = n * 256 ^ 3 div 256 ^ s \<and> 2 ^ 15 \<le> m \<and> m < 2 ^ 23"

lemma compact_form_unique:
  assumes "compact_form n m s" and "compact_form n m' s'"
  shows "m = m' \<and> s = s'"
proof -
  have le: "s' \<le> s" if "compact_form n m s" and "compact_form n m' s'" for m s m' s'
  proof (rule ccontr)
    assume "\<not> s' \<le> s"
    then obtain d where d: "s' = s + 1 + d" using less_iff_Suc_add [of s s'] by auto
    have "m' = n * 256 ^ 3 div 256 ^ s div 256 div 256 ^ d" using that(2) unfolding compact_form_def d power_add by (simp add: div_mult2_eq)
    also have "\<dots> = m div 256 div 256 ^ d" using that(1) by (simp add: compact_form_def)
    also have "\<dots> \<le> m div 256" by simp
    also have "m div 256 < 2 ^ 15" using that(1) by (intro less_mult_imp_div_less) (simp add: compact_form_def)
    finally show False using that(2) by (simp add: compact_form_def)
  qed
  have "s = s'" using le [OF assms] le [OF assms(2,1)] by simp
  then show ?thesis using assms by (simp add: compact_form_def)
qed

lemma sign_bit: "unat (m :: uint32) < 2 ^ 24 \<Longrightarrow> bit m 23 \<longleftrightarrow> 2 ^ 23 \<le> unat m"
proof -
  assume m: "unat m < 2 ^ 24"
  have "bit m 23 = bit (unat m) 23" by (simp add: bit_unsigned_iff)
  also have "\<dots> = odd (unat m div 2 ^ 23)" by (rule bit_iff_odd)
  also have "\<dots> = (0 < unat m div 2 ^ 23)"
  proof -
    have "unat m div 2 ^ 23 < 2" using m by (simp add: div_less_iff_less_mult)
    then show ?thesis by (auto simp: less_2_cases_iff)
  qed
  finally show ?thesis by (simp add: div_greater_zero_iff)
qed

lemma pack_compact:
  fixes m :: uint32
  assumes "unat m < 2 ^ 23" and "s \<le> 33"
  shows "m AND NOT 0x007FFFFF = 0" "unat (m OR push_bit 24 (of_nat s)) = unat m + 2 ^ 24 * s"
proof -
  have high: "\<not> bit m j" if "23 \<le> j" for j
  proof -
    have "bit m j \<longrightarrow> bit (unat m) j" by (simp add: bit_unsigned_iff)
    moreover have "unat m < 2 ^ j" using assms(1) that by (meson less_le_trans one_le_numeral power_increasing)
    ultimately show ?thesis by (simp add: bit_iff_odd)
  qed
  have "take_bit 23 m = m" by (rule bit_word_eqI) (use high in \<open>auto simp: bit_take_bit_iff not_less\<close>, meson not_less)
  moreover have "(0x007FFFFF :: uint32) = mask 23" by (simp add: mask_eq_exp_minus_1)
  ultimately show "m AND NOT 0x007FFFFF = 0" by (metis and.assoc and.right_neutral bit.conj_cancel_right take_bit_eq_mask and_zero_eq)
  have "m AND push_bit 24 (of_nat s) = 0" by (rule bit_word_eqI) (auto simp: bit_and_iff bit_push_bit_iff high)
  then have "m OR push_bit 24 (of_nat s) = m + push_bit 24 (of_nat s)" by (simp add: disjunctive_add_eq_or)
  also have "\<dots> = of_nat (unat m + 2 ^ 24 * s)" by (simp add: push_bit_eq_mult)
  finally have "unat (m OR push_bit 24 (of_nat s)) = (unat m + 2 ^ 24 * s) mod 2 ^ 32" by (simp only: unat_of_nat) (simp add: take_bit_eq_mod)
  moreover have "unat m + 2 ^ 24 * s < 2 ^ 32" using assms by simp
  ultimately show "unat (m OR push_bit 24 (of_nat s)) = unat m + 2 ^ 24 * s" by (simp only: mod_less)
qed

lemma GetCompact_form:
  assumes "w \<noteq> 0"
  shows "\<exists>c m s. GetCompact w False = Inr c \<and> compact_form (unat w) m s \<and> s \<le> 33 \<and> unat c = m + 2 ^ 24 * s"
proof -
  define S where "S = (bits256 w + 7) div 8"
  define M where "M = (if S \<le> 3 then ucast (push_bit (8 * (3 - S)) (ucast w :: uint64)) else ucast (ucast (drop_bit (8 * (S - 3)) w) :: uint64) :: uint32)"
  note S = size256 [OF assms, folded S_def]
  have M: "unat M = unat w * 256 ^ 3 div 256 ^ S" unfolding M_def by (rule raw_mantissa [OF S(4)])
  have "unat w * 256 ^ 3 < 256 ^ S * 2 ^ 24" using S(4) by simp
  then have up: "unat M < 2 ^ 24" unfolding M by (simp add: div_less_iff_less_mult mult.commute)
  have "256 ^ S * 2 ^ 16 = 256 ^ (S - 1) * (256 :: nat) ^ 3" using S(1) by (cases S) simp_all
  also have "\<dots> \<le> unat w * 256 ^ 3" using S(3) by (rule mult_le_mono1)
  finally have low: "2 ^ 16 \<le> unat M" unfolding M by (simp add: less_eq_div_iff_mult_less_eq mult.commute)
  define m s where "m = (if bit M 23 then drop_bit 8 M else M)" and "s = (if bit M 23 then S + 1 else S)"
  have "unat (drop_bit 8 M) = unat M div 256" using limb_less [of M] by (simp add: unsigned_drop_bit_eq take_bit_nat_eq_self) (simp add: drop_bit_eq_div)
  then have um: "unat m = (if bit M 23 then unat M div 256 else unat M)" by (simp add: m_def)
  have f: "compact_form (unat w) (unat m) s"
  proof (cases "bit M 23")
    case True
    have "2 ^ 15 \<le> unat M div 256" "unat M div 256 < 2 ^ 23" using True sign_bit [OF up] up by simp_all
    moreover have "unat M div 256 = unat w * 256 ^ 3 div 256 ^ (S + 1)" unfolding M by (simp only: power_add power_one_right div_mult2_eq)
    ultimately show ?thesis using True by (simp add: compact_form_def um s_def)
  next
    case False
    then show ?thesis using sign_bit [OF up] up low M by (simp add: compact_form_def um s_def)
  qed
  have le: "s \<le> 33" using S(2) by (simp add: s_def)
  note pk = pack_compact [OF _ le, of m]
  have "GetCompact w False = Inr (m OR push_bit 24 (of_nat s))"
    using pk(1) f le by (simp add: GetCompact_def Let_def S_def [symmetric] M_def [symmetric] compact_sign m_def s_def compact_form_def split: if_splits)
  then show ?thesis using f le pk(2) by (auto simp: compact_form_def)
qed

lemma compact_value_form:
  assumes "unat c = m + 2 ^ 24 * s" and "m < 2 ^ 23"
  shows "compact_value c = m * 256 ^ s div 256 ^ 3" "\<not> bit c 23"
proof -
  have "unat c div 2 ^ 24 = s" "unat c mod 2 ^ 24 = m" using assms by simp_all
  moreover have "m mod 2 ^ 23 = m" using assms(2) by simp
  moreover have "unat c mod 2 ^ 23 = unat c mod 2 ^ 24 mod 2 ^ 23" by (simp add: mod_mod_cancel)
  ultimately show "compact_value c = m * 256 ^ s div 256 ^ 3" by (simp only: compact_value_def)
  have "unat c div 2 ^ 23 = 2 * s" using assms by simp
  then have "\<not> bit (unat c) 23" by (simp add: bit_iff_odd)
  then show "\<not> bit c 23" by (simp add: bit_unsigned_iff)
qed

text \<open>The number that is read back from a compact form: the form is its own, and it falls short of the number by less than one part in 32768.\<close>

lemma compact_form_read:
  assumes "compact_form n m s"
  defines "t \<equiv> m * 256 ^ s div 256 ^ 3"
  shows "compact_form t m s" "t \<le> n" "(n - t) * 2 ^ 15 \<le> n"
proof -
  have m: "m = n * 256 ^ 3 div 256 ^ s" "2 ^ 15 \<le> m" "m < 2 ^ 23" using assms(1) by (simp_all add: compact_form_def)
  have "t = n \<or> 3 < s \<and> t = m * 256 ^ (s - 3) \<and> m = n div 256 ^ (s - 3)"
  proof (cases "s \<le> 3")
    case True
    have e: "(256 :: nat) ^ 3 = 256 ^ (3 - s) * 256 ^ s" unfolding power_add [symmetric] using True by simp
    have "m = n * 256 ^ (3 - s)" unfolding m(1) e by (simp add: mult.assoc [symmetric])
    then have "t = n * 256 ^ 3 div 256 ^ 3" unfolding t_def e by (simp only: mult.assoc)
    then show ?thesis by simp
  next
    case False
    have e: "(256 :: nat) ^ s = 256 ^ 3 * 256 ^ (s - 3)" unfolding power_add [symmetric] using False by simp
    have "m = n div 256 ^ (s - 3)" unfolding m(1) e by (simp add: mult.commute [of n])
    moreover have "t = m * 256 ^ (s - 3)" unfolding t_def e by simp
    ultimately show ?thesis using False by simp
  qed
  then consider "t = n" | "3 < s" "t = m * 256 ^ (s - 3)" "m = n div 256 ^ (s - 3)" by blast
  then have "compact_form t m s \<and> t \<le> n \<and> (n - t) * 2 ^ 15 \<le> n"
  proof cases
    case 1
    then show ?thesis using assms(1) by simp
  next
    case 2
    have e: "(256 :: nat) ^ s = 256 ^ 3 * 256 ^ (s - 3)" unfolding power_add [symmetric] using 2(1) by simp
    have "t * 256 ^ 3 div 256 ^ s = m" unfolding e 2(2) by simp
    moreover have "n - t = n mod 256 ^ (s - 3)" unfolding 2(2,3) by (simp add: minus_div_mult_eq_mod)
    then have "(n - t) * 2 ^ 15 \<le> 256 ^ (s - 3) * m" using m(2) by (intro mult_le_mono) (simp_all add: less_imp_le)
    moreover have "256 ^ (s - 3) * m \<le> n" unfolding 2(3) by simp
    ultimately show ?thesis using m 2 by (simp add: compact_form_def mult.commute)
  qed
  then show "compact_form t m s" "t \<le> n" "(n - t) * 2 ^ 15 \<le> n" by blast+
qed

lemma GetCompact_0: "GetCompact 0 False = Inr 0"
  by (simp add: GetCompact_def)

lemma GetCompact_round_trip:
  "\<exists>c. GetCompact w False = Inr c \<and> compact_value c \<le> unat w \<and> (unat w - compact_value c) * 2 ^ 15 \<le> unat w \<and> \<not> bit c 23 \<and> GetCompact (of_nat (compact_value c)) False = Inr c"
proof (cases "w = 0")
  case True
  then show ?thesis by (simp add: GetCompact_0 compact_value_def)
next
  case False
  then obtain c m s where c: "GetCompact w False = Inr c" "compact_form (unat w) m s" "unat c = m + 2 ^ 24 * s" using GetCompact_form by blast
  then have "m < 2 ^ 23" by (simp add: compact_form_def)
  note v = compact_value_form [OF c(3) this]
  note r = compact_form_read [OF c(2), folded v(1)]
  let ?t = "of_nat (compact_value c) :: uint256"
  have "compact_value c < 2 ^ 256" using r(2) unsigned_less [of w, where ?'a = nat] by simp
  then have t: "unat ?t = compact_value c" by (simp add: unat_of_nat take_bit_nat_eq_self)
  have "compact_value c \<noteq> 0" using r(1) by (cases "compact_value c = 0") (auto simp: compact_form_def)
  then have "?t \<noteq> 0" using t by (metis unsigned_0)
  then obtain c' m' s' where c': "GetCompact ?t False = Inr c'" "compact_form (compact_value c) m' s'" "unat c' = m' + 2 ^ 24 * s'" using GetCompact_form t by metis
  then have "c' = c" using compact_form_unique [OF c'(2) r(1)] c(3) by (simp add: word_unat_eq_iff)
  then show ?thesis using c(1) c'(1) r v(2) by blast
qed

text \<open>The compact form of a target never fails an assertion; reading it back gives a number without sign or overflow that is at most the target, falls
  short of it by at most one part in 32768, and has the same compact form.\<close>

lemma compact_round_trip:
  "\<exists>c t. GetCompact w False = Inr c \<and> SetCompact c = (t, False, False) \<and> t \<le> w \<and> unat (w - t) * 2 ^ 15 \<le> unat w \<and> GetCompact t False = Inr c"
proof -
  obtain c where c: "GetCompact w False = Inr c" "compact_value c \<le> unat w" "(unat w - compact_value c) * 2 ^ 15 \<le> unat w" "\<not> bit c 23"
    "GetCompact (of_nat (compact_value c)) False = Inr c" using GetCompact_round_trip by blast
  let ?t = "of_nat (compact_value c) :: uint256"
  have less: "compact_value c < 2 ^ 256" using c(2) unsigned_less [of w, where ?'a = nat] by simp
  then have t: "unat ?t = compact_value c" by (simp add: unat_of_nat take_bit_nat_eq_self)
  then have le: "?t \<le> w" using c(2) by (simp add: word_le_nat_alt)
  then have "unat (w - ?t) * 2 ^ 15 \<le> unat w" using c(3) t by (simp only: unat_sub)
  moreover have "SetCompact c = (?t, False, False)" using c(4) less by (simp add: SetCompact_value)
  ultimately show ?thesis using c(1,5) le by blast
qed

section \<open>The work of a block\<close>

lemma target_not_all_ones: "fst (SetCompact c) + 1 \<noteq> 0"
proof
  assume "fst (SetCompact c) + 1 = 0"
  then have ones: "bit (fst (SetCompact c)) j" if "j < 256" for j using that by (simp add: eq_neg_iff_add_eq_0 [symmetric])
  define s m where "s = unat (drop_bit 24 c)" and "m = c AND 0x007FFFFF"
  show False
  proof (cases "s \<le> 3")
    case True
    then have "fst (SetCompact c) = ucast (drop_bit (8 * (3 - s)) m)" by (simp add: SetCompact_def Let_def s_def [symmetric] m_def [symmetric])
    moreover have "\<not> bit (drop_bit (8 * (3 - s)) m) 100" using bit_imp_le_length [of "drop_bit (8 * (3 - s)) m" 100] by auto
    ultimately show False using ones [of 100] by (simp add: bit_ucast_iff)
  next
    case False
    then have "fst (SetCompact c) = push_bit (8 * (s - 3)) (ucast m)" by (simp add: SetCompact_def Let_def s_def [symmetric] m_def [symmetric])
    then show False using ones [of 0] False by (simp add: bit_push_bit_iff)
  qed
qed

lemma quotient_of_complement:
  fixes t :: uint256
  assumes "t + 1 \<noteq> 0" and "t \<noteq> 0"
  shows "unat (NOT t div (t + 1) + 1) = 2 ^ 256 div (unat t + 1)"
proof -
  have less: "unat t < 2 ^ 256" using unsigned_less [of t, where ?'a = nat] by simp
  have "NOT t = - 1 - t" using minus_eq_not_plus_1 [of t] by (simp add: algebra_simps)
  then have n: "unat (NOT t) = 2 ^ 256 - 1 - unat t" by (simp only: unat_sub word_order.extremum) (simp add: unsigned_minus_1_eq_mask mask_eq_exp_minus_1)
  have p: "unat (t + 1) = unat t + 1" using assms(1) by (simp add: add.commute unatSuc)
  have "2 ^ 256 - 1 - unat t = 2 ^ 256 - (unat t + 1)" by simp
  moreover have "(2 ^ 256 - (unat t + 1)) div (unat t + 1) + 1 = 2 ^ 256 div (unat t + 1)" using less le_div_geq [of "unat t + 1" "2 ^ 256"] by simp
  ultimately have q: "unat (NOT t div (t + 1)) + 1 = 2 ^ 256 div (unat t + 1)" by (simp only: unat_div_distrib n p)
  have "0 < unat t" using assms(2) by (simp add: unat_gt_0)
  then have "2 ^ 256 div (unat t + 1) < 2 ^ 256" by (intro div_less_dividend) simp_all
  then have "unat (NOT t div (t + 1)) + 1 < 2 ^ 256" by (simp only: q)
  then show ?thesis unfolding q [symmetric] by (simp add: unat_word_ariths)
qed

lemma GetBlockProof_value:
  "\<exists>p. GetBlockProof c = Inr p \<and> unat p = (if compact_value c = 0 \<or> bit c 23 \<or> 2 ^ 256 \<le> compact_value c then 0 else 2 ^ 256 div (compact_value c + 1))"
proof -
  let ?t = "of_nat (compact_value c) :: uint256"
  have ne: "?t + 1 \<noteq> 0" using target_not_all_ones [of c] by (simp add: SetCompact_value)
  have t: "unat ?t = compact_value c" if "\<not> 2 ^ 256 \<le> compact_value c" using that by (simp add: unat_of_nat take_bit_nat_eq_self)
  show ?thesis
  proof (cases "compact_value c = 0 \<or> bit c 23 \<or> 2 ^ 256 \<le> compact_value c")
    case True
    then have "GetBlockProof c = Inr 0" by (cases "compact_value c = 0") (auto simp: GetBlockProof_def SetCompact_value)
    then show ?thesis using True by simp
  next
    case False
    then have "?t \<noteq> 0" using t by (metis unsigned_0)
    then show ?thesis using False ne t quotient_of_complement [of ?t] by (simp add: GetBlockProof_def SetCompact_value)
  qed
qed

text \<open>C33: the work of a block never divides by zero; it is 2 to the 256 divided by its target plus one, rounded down, and zero when the target is zero, negative or too large.\<close>

theorem block_work:
  "\<exists>p. GetBlockProof c = Inr p \<and> unat p = (case SetCompact c of (t, neg, over) \<Rightarrow> if neg \<or> over \<or> t = 0 then 0 else 2 ^ 256 div (unat t + 1))"
proof -
  obtain p where p: "GetBlockProof c = Inr p" "unat p = (if compact_value c = 0 \<or> bit c 23 \<or> 2 ^ 256 \<le> compact_value c then 0 else 2 ^ 256 div (compact_value c + 1))"
    using GetBlockProof_value by blast
  let ?t = "of_nat (compact_value c) :: uint256"
  have t: "unat ?t = compact_value c" if "\<not> 2 ^ 256 \<le> compact_value c" using that by (simp add: unat_of_nat take_bit_nat_eq_self)
  have "?t = 0 \<longleftrightarrow> compact_value c = 0" if "\<not> 2 ^ 256 \<le> compact_value c"
    using t [OF that] unat_eq_0 [of ?t] by simp
  then have "unat p = (if (compact_value c \<noteq> 0 \<and> bit c 23) \<or> 2 ^ 256 \<le> compact_value c \<or> ?t = 0 then 0 else 2 ^ 256 div (unat ?t + 1))"
    using p(2) t by (cases "2 ^ 256 \<le> compact_value c"; cases "compact_value c = 0") auto
  then show ?thesis using p(1) by (simp only: SetCompact_value prod.case) blast
qed

section \<open>The adjustment of the target\<close>

text \<open>What the parameters of the networks have in common: the numbers fit, and no product with a timespan overflows.\<close>

definition pow_ok :: "PowParams \<Rightarrow> bool" where
  "pow_ok p \<longleftrightarrow> 0 < AveragingWindowTimespan p \<and> AveragingWindowTimespan p < 2 ^ 32 \<and> 0 \<le> MinActualTimespan p \<and> MinActualTimespan p \<le> MaxActualTimespan p
     \<and> MaxActualTimespan p < 2 ^ 32 \<and> unat (powLimit p) div nat (AveragingWindowTimespan p) * nat (MaxActualTimespan p) < 2 ^ 256"

lemma networks_pow_ok: "pow_ok main_pow" "pow_ok test_pow" "pow_ok reg_pow"
  by (simp_all add: pow_ok_def main_pow_def test_pow_def reg_pow_def AveragingWindowTimespan_def MinActualTimespan_def MaxActualTimespan_def signed_divide_int_def)

lemma bounded_timespan_bounds: "MinActualTimespan p \<le> MaxActualTimespan p \<Longrightarrow> bounded_timespan l f p \<in> {MinActualTimespan p..MaxActualTimespan p}"
  by (simp add: bounded_timespan_def Let_def)

lemma unat_ucast_of_int:
  fixes x :: int
  assumes "0 \<le> x" and "x < 2 ^ 32"
  shows "unat (ucast (of_int x :: uint64) :: uint256) = nat x" "unat (ucast (of_int x :: uint32) :: uint256) = nat x"
proof -
  obtain n where x: "x = int n" using assms(1) zero_le_imp_eq_int by blast
  then have n: "n < 2 ^ 32" using assms(2) by simp
  then have "n < 2 ^ 64" by simp
  then have "unat (of_int x :: uint64) = n" "unat (of_int x :: uint32) = n" using n by (simp_all only: x of_int_of_nat_eq unat_of_nat) (simp_all add: take_bit_nat_eq_self)
  moreover have "n < 2 ^ 256" using n by simp
  ultimately show "unat (ucast (of_int x :: uint64) :: uint256) = nat x" "unat (ucast (of_int x :: uint32) :: uint256) = nat x"
    by (simp_all only: unsigned_ucast_eq) (simp_all add: take_bit_nat_eq_self x)
qed

lemma new_target_value:
  assumes "pow_ok p" and "avg \<le> powLimit p" and "ts \<in> {MinActualTimespan p..MaxActualTimespan p}"
  shows "\<exists>t. new_target avg ts p = Inr t \<and> unat t = min (unat (powLimit p)) (unat avg div nat (AveragingWindowTimespan p) * nat ts)"
proof -
  define W where "W = AveragingWindowTimespan p"
  have W: "0 < W" "W < 2 ^ 32" and ts: "0 \<le> ts" "ts < 2 ^ 32" using assms(1,3) by (auto simp: pow_ok_def W_def)
  define d m where "d = (ucast (of_int W :: uint64) :: uint256)" and "m = (ucast (of_int ts :: uint32) :: uint256)"
  have d: "unat d = nat W" and m: "unat m = nat ts" using unat_ucast_of_int [of W] unat_ucast_of_int [of ts] W ts by (simp_all add: d_def m_def)
  have "unat avg div nat W * nat ts \<le> unat (powLimit p) div nat W * nat (MaxActualTimespan p)"
    using assms(2,3) by (intro mult_le_mono div_le_mono) (simp_all add: word_le_nat_alt nat_mono)
  also have "\<dots> < 2 ^ 256" using assms(1) by (simp add: pow_ok_def W_def)
  finally have less: "unat avg div nat W * nat ts < 2 ^ 256" .
  have "unat (x * y) = unat x * unat y mod 2 ^ 256" for x y :: uint256 by (simp add: unat_word_ariths)
  then have prod: "unat (avg div d * m) = unat avg div nat W * nat ts" using less by (simp only: unat_div_distrib d m mod_less)
  have "d \<noteq> 0" using d W(1) by auto
  then have "new_target avg ts p = Inr (if avg div d * m > powLimit p then powLimit p else avg div d * m)"
    by (simp add: new_target_def Let_def W_def [symmetric] d_def [symmetric] m_def [symmetric])
  then show ?thesis using prod by (simp add: word_less_nat_alt W_def)
qed

lemma retarget:
  assumes "pow_ok p" and "avg \<le> powLimit p"
  defines "W \<equiv> nat (AveragingWindowTimespan p)"
  shows "\<exists>c t. CalculateNextWorkRequired avg l f p = Inr c \<and> SetCompact c = (t, False, False) \<and> t \<le> powLimit p \<and> unat t \<le> unat avg div W * nat (MaxActualTimespan p)
    \<and> (2 ^ 15 - 1) * min (unat (powLimit p)) (unat avg div W * nat (MinActualTimespan p)) \<le> 2 ^ 15 * unat t"
proof -
  define ts where "ts = bounded_timespan l f p"
  have "MinActualTimespan p \<le> MaxActualTimespan p" using assms(1) by (simp add: pow_ok_def)
  then have ts: "ts \<in> {MinActualTimespan p..MaxActualTimespan p}" unfolding ts_def by (rule bounded_timespan_bounds)
  obtain n where n: "new_target avg ts p = Inr n" "unat n = min (unat (powLimit p)) (unat avg div W * nat ts)" using new_target_value [OF assms(1,2) ts] W_def by blast
  obtain c where c: "GetCompact n False = Inr c" "compact_value c \<le> unat n" "(unat n - compact_value c) * 2 ^ 15 \<le> unat n" "\<not> bit c 23" using GetCompact_round_trip by blast
  let ?t = "of_nat (compact_value c) :: uint256"
  have less: "compact_value c < 2 ^ 256" using c(2) unsigned_less [of n, where ?'a = nat] by simp
  then have t: "unat ?t = compact_value c" by (simp add: unat_of_nat take_bit_nat_eq_self)
  have "SetCompact c = (?t, False, False)" using c(4) less by (simp add: SetCompact_value)
  moreover have "CalculateNextWorkRequired avg l f p = Inr c" using n(1) c(1) by (simp add: CalculateNextWorkRequired_def ts_def)
  moreover have "?t \<le> powLimit p" using n(2) c(2) t by (simp add: word_le_nat_alt)
  moreover have "unat ?t \<le> unat avg div W * nat (MaxActualTimespan p)"
  proof -
    have "unat avg div W * nat ts \<le> unat avg div W * nat (MaxActualTimespan p)" using ts by (intro mult_le_mono2) (simp add: nat_mono)
    then show ?thesis using n(2) c(2) t by linarith
  qed
  moreover have "(2 ^ 15 - 1) * min (unat (powLimit p)) (unat avg div W * nat (MinActualTimespan p)) \<le> 2 ^ 15 * unat ?t"
  proof -
    have "unat avg div W * nat (MinActualTimespan p) \<le> unat avg div W * nat ts" using ts by (intro mult_le_mono2) (simp add: nat_mono)
    then have "min (unat (powLimit p)) (unat avg div W * nat (MinActualTimespan p)) \<le> unat n" using n(2) by linarith
    then have "(2 ^ 15 - 1) * min (unat (powLimit p)) (unat avg div W * nat (MinActualTimespan p)) \<le> (2 ^ 15 - 1) * unat n" by (rule mult_le_mono2)
    also have "\<dots> \<le> 2 ^ 15 * compact_value c" using c(2,3) by (simp add: diff_mult_distrib)
    finally show ?thesis by (simp only: t)
  qed
  ultimately show ?thesis by blast
qed

text \<open>C34: whatever the time stamps are, the next target is a proper compact number within the limit of the network, it exceeds the average target at most by the
  largest adjustment and falls short of it at most by the smallest one and the rounding, and a hash proves work for it exactly when it does not exceed it.\<close>

theorem next_work_in_range:
  assumes "pow_ok p" and "avg \<le> powLimit p"
  shows "\<exists>c t. CalculateNextWorkRequired avg l f p = Inr c \<and> SetCompact c = (t, False, False) \<and> t \<le> powLimit p
    \<and> unat t \<le> unat avg div nat (AveragingWindowTimespan p) * nat (MaxActualTimespan p)
    \<and> (2 ^ 15 - 1) * min (unat (powLimit p)) (unat avg div nat (AveragingWindowTimespan p) * nat (MinActualTimespan p)) \<le> 2 ^ 15 * unat t
    \<and> (\<forall>hash. CheckProofOfWork hash c p \<longleftrightarrow> t \<noteq> 0 \<and> hash \<le> t)"
proof -
  obtain c t where "CalculateNextWorkRequired avg l f p = Inr c" "SetCompact c = (t, False, False)" "t \<le> powLimit p"
    "unat t \<le> unat avg div nat (AveragingWindowTimespan p) * nat (MaxActualTimespan p)"
    "(2 ^ 15 - 1) * min (unat (powLimit p)) (unat avg div nat (AveragingWindowTimespan p) * nat (MinActualTimespan p)) \<le> 2 ^ 15 * unat t"
    using retarget [OF assms] by blast
  moreover from this have "\<forall>hash. CheckProofOfWork hash c p \<longleftrightarrow> t \<noteq> 0 \<and> hash \<le> t" by (auto simp: CheckProofOfWork_def)
  ultimately show ?thesis by blast
qed

theorem next_work_in_range_witness:
  "\<exists>c t. CalculateNextWorkRequired (2 ^ 240) 5000 1000 main_pow = Inr c \<and> SetCompact c = (t, False, False) \<and> 0 < t \<and> t \<le> powLimit main_pow \<and> CheckProofOfWork 1 c main_pow"
proof -
  have "(2 ^ 240 :: uint256) \<le> powLimit main_pow" by (simp add: main_pow_def)
  from next_work_in_range [OF networks_pow_ok(1) this, of 5000 1000]
  obtain c t where c: "CalculateNextWorkRequired (2 ^ 240) 5000 1000 main_pow = Inr c" "SetCompact c = (t, False, False)" "t \<le> powLimit main_pow"
    "(2 ^ 15 - 1) * min (unat (powLimit main_pow)) (unat (2 ^ 240 :: uint256) div nat (AveragingWindowTimespan main_pow) * nat (MinActualTimespan main_pow)) \<le> 2 ^ 15 * unat t"
    "\<forall>hash. CheckProofOfWork hash c main_pow \<longleftrightarrow> t \<noteq> 0 \<and> hash \<le> t" by blast
  have "t \<noteq> 0" using c(4) by (auto simp: main_pow_def AveragingWindowTimespan_def MinActualTimespan_def signed_divide_int_def)
  then have "0 < t" "1 \<le> t" by (simp_all add: word_neq_0_conv word_le_nat_alt unat_gt_0 Suc_leI)
  then show ?thesis using c by auto
qed

end
