(* ===== verification/BlockIndex.thy ===== *)
theory BlockIndex
  imports Pow ScTypes
begin

text \<open>
  The tree of block indexes of \<open>chain.h\<close> and \<open>chain.cpp\<close>, with the entry of a new header (\<open>AddToBlockIndex\<close> of \<open>main.cpp\<close>), the delay of late blocks
  (\<open>zen/delay.cpp\<close>) and the next target (\<open>pow.cpp\<close>). A pointer to an index is the hash it is filed under in \<open>mapBlockIndex\<close>; following a pointer that is not there is undefined.
\<close>

unbundle bit_operations_syntax

section \<open>Headers and indexes\<close>

record CBlockHeader =
  hd_nVersion :: int
  hd_hashPrevBlock :: uint256
  hd_hashMerkleRoot :: uint256
  hd_hashScTxsCommitment :: uint256
  hd_nTime :: uint32
  hd_nBits :: uint32
  hd_nNonce :: uint256
  hd_nSolution :: bytes

record CBlockIndex =
  pprev :: "uint256 option"
  pskip :: "uint256 option"
  bi_nHeight :: int
  nChainWork :: uint256
  nChainDelay :: int
  scCumTreeHash :: CFieldElement
  nTx :: nat
  nChainTx :: nat
  nStatus :: uint32
  bi_nVersion :: int
  bi_hashMerkleRoot :: uint256
  bi_hashScTxsCommitment :: uint256
  bi_nTime :: uint32
  bi_nBits :: uint32
  bi_nNonce :: uint256
  bi_nSolution :: bytes
  nSequenceId :: nat

type_synonym BlockMap = "uint256 \<Rightarrow> CBlockIndex option"

definition BLOCK_VALID_TREE :: uint32 where "BLOCK_VALID_TREE = 2"
definition BLOCK_VALID_TRANSACTIONS :: uint32 where "BLOCK_VALID_TRANSACTIONS = 3"
definition BLOCK_VALID_MASK :: uint32 where "BLOCK_VALID_MASK = 7"
definition BLOCK_HAVE_DATA :: uint32 where "BLOCK_HAVE_DATA = 8"
definition BLOCK_FAILED_VALID :: uint32 where "BLOCK_FAILED_VALID = 32"
definition BLOCK_FAILED_CHILD :: uint32 where "BLOCK_FAILED_CHILD = 64"
definition BLOCK_FAILED_MASK :: uint32 where "BLOCK_FAILED_MASK = 96"
definition BLOCK_VERSION_SC_SUPPORT :: int where "BLOCK_VERSION_SC_SUPPORT = 3"

lemmas block_status_defs = BLOCK_VALID_TREE_def BLOCK_VALID_TRANSACTIONS_def BLOCK_VALID_MASK_def BLOCK_HAVE_DATA_def BLOCK_FAILED_VALID_def BLOCK_FAILED_CHILD_def BLOCK_FAILED_MASK_def

definition CBlockIndex_of :: "CBlockHeader \<Rightarrow> CBlockIndex" where
  "CBlockIndex_of block = \<lparr> pprev = None, pskip = None, bi_nHeight = 0, nChainWork = 0, nChainDelay = 0, scCumTreeHash = [], nTx = 0, nChainTx = 0, nStatus = 0,
     bi_nVersion = hd_nVersion block, bi_hashMerkleRoot = hd_hashMerkleRoot block, bi_hashScTxsCommitment = hd_hashScTxsCommitment block,
     bi_nTime = hd_nTime block, bi_nBits = hd_nBits block, bi_nNonce = hd_nNonce block, bi_nSolution = hd_nSolution block, nSequenceId = 0 \<rparr>"

definition GetBlockHeader :: "CBlockIndex \<Rightarrow> CBlockHeader" where
  "GetBlockHeader b = \<lparr> hd_nVersion = bi_nVersion b, hd_hashPrevBlock = (case pprev b of Some p \<Rightarrow> p | None \<Rightarrow> 0), hd_hashMerkleRoot = bi_hashMerkleRoot b,
     hd_hashScTxsCommitment = bi_hashScTxsCommitment b, hd_nTime = bi_nTime b, hd_nBits = bi_nBits b, hd_nNonce = bi_nNonce b, hd_nSolution = bi_nSolution b \<rparr>"

definition bi_IsValid :: "CBlockIndex \<Rightarrow> uint32 \<Rightarrow> bool result" where
  "bi_IsValid b nUpTo =
     (if nUpTo AND NOT BLOCK_VALID_MASK \<noteq> 0 then Inl Assert
      else if nStatus b AND BLOCK_FAILED_MASK \<noteq> 0 then Inr False
      else Inr (nStatus b AND BLOCK_VALID_MASK \<ge> nUpTo))"

definition RaiseValidity :: "CBlockIndex \<Rightarrow> uint32 \<Rightarrow> (CBlockIndex \<times> bool) result" where
  "RaiseValidity b nUpTo =
     (if nUpTo AND NOT BLOCK_VALID_MASK \<noteq> 0 then Inl Assert
      else if nStatus b AND BLOCK_FAILED_MASK \<noteq> 0 then Inr (b, False)
      else if nStatus b AND BLOCK_VALID_MASK < nUpTo then Inr (b\<lparr>nStatus := (nStatus b AND NOT BLOCK_VALID_MASK) OR nUpTo\<rparr>, True)
      else Inr (b, False))"

definition deref :: "BlockMap \<Rightarrow> uint256 \<Rightarrow> CBlockIndex result" where
  "deref m p = (case m p of None \<Rightarrow> Inl Undefined | Some b \<Rightarrow> Inr b)"

section \<open>Skip pointers\<close>

definition InvertLowestOne :: "int \<Rightarrow> int" where "InvertLowestOne n = n AND (n - 1)"

definition GetSkipHeight :: "int \<Rightarrow> int" where
  "GetSkipHeight height =
     (if height < 2 then 0
      else if height AND 1 \<noteq> 0 then InvertLowestOne (InvertLowestOne (height - 1)) + 1 else InvertLowestOne height)"

lemma InvertLowestOne_bounds: "1 \<le> n \<Longrightarrow> 0 \<le> InvertLowestOne n \<and> InvertLowestOne n < n"
  using AND_upper2 [of "n - 1" n] by (simp add: InvertLowestOne_def)

lemma GetSkipHeight_bounds: "1 \<le> h \<Longrightarrow> 0 \<le> GetSkipHeight h \<and> GetSkipHeight h < h"
proof -
  assume h: "1 \<le> h"
  have "(2 :: int) AND 1 = 0" by simp
  then consider "h < 2" | "2 \<le> h" "h AND 1 = 0" | "3 \<le> h" "h AND 1 \<noteq> 0" by (metis int_one_le_iff_zero_less linorder_not_le one_add_one add1_zle_eq numeral_Bit1 numeral_One order_le_less)
  then show ?thesis
  proof cases
    case 2
    then show ?thesis using InvertLowestOne_bounds [of h] by (simp add: GetSkipHeight_def)
  next
    case 3
    have "0 \<le> InvertLowestOne (InvertLowestOne (h - 1)) \<and> InvertLowestOne (InvertLowestOne (h - 1)) \<le> InvertLowestOne (h - 1)"
      using InvertLowestOne_bounds [of "h - 1"] InvertLowestOne_bounds [of "InvertLowestOne (h - 1)"] 3 by (cases "InvertLowestOne (h - 1) = 0") (auto simp: InvertLowestOne_def)
    then show ?thesis using InvertLowestOne_bounds [of "h - 1"] 3 by (simp add: GetSkipHeight_def)
  qed (use h in \<open>simp add: GetSkipHeight_def\<close>)
qed

function ancestor_loop :: "BlockMap \<Rightarrow> nat \<Rightarrow> uint256 option \<Rightarrow> int \<Rightarrow> uint256 option result" where
  "ancestor_loop m height pindexWalk heightWalk =
     (if heightWalk > int height then
        case pindexWalk of None \<Rightarrow> Inl Undefined
        | Some p \<Rightarrow> (case m p of None \<Rightarrow> Inl Undefined
          | Some b \<Rightarrow>
              (let heightSkip = GetSkipHeight heightWalk; heightSkipPrev = GetSkipHeight (heightWalk - 1) in
               if pskip b \<noteq> None \<and> (heightSkip = int height \<or> (heightSkip > int height \<and> \<not> (heightSkipPrev < heightSkip - 2 \<and> heightSkipPrev \<ge> int height)))
               then ancestor_loop m height (pskip b) heightSkip
               else ancestor_loop m height (pprev b) (heightWalk - 1)))
      else Inr pindexWalk)"
  by pat_completeness auto

termination
  by (relation "measure (\<lambda>(m, height, p, hw). nat hw)") (use GetSkipHeight_bounds in \<open>fastforce+\<close>)

declare ancestor_loop.simps [simp del]

definition GetAncestor :: "BlockMap \<Rightarrow> uint256 \<Rightarrow> int \<Rightarrow> uint256 option result" where
  "GetAncestor m p height =
     bindR (deref m p) (\<lambda>b.
       if height > bi_nHeight b \<or> height < 0 then Inr None
       else ancestor_loop m (nat height) (Some p) (bi_nHeight b))"

definition BuildSkip :: "BlockMap \<Rightarrow> CBlockIndex \<Rightarrow> CBlockIndex result" where
  "BuildSkip m b = (case pprev b of None \<Rightarrow> Inr b
     | Some p \<Rightarrow> bindR (GetAncestor m p (GetSkipHeight (bi_nHeight b))) (\<lambda>s. Inr (b\<lparr>pskip := s\<rparr>)))"

section \<open>New headers\<close>

definition PENALTY_THRESHOLD :: int where "PENALTY_THRESHOLD = 5"

definition GetBlockDelay :: "CBlockIndex \<Rightarrow> CBlockIndex \<Rightarrow> int \<Rightarrow> bool \<Rightarrow> int" where
  "GetBlockDelay newBlock prevBlock activeChainHeight isStartupSyncing =
     (if isStartupSyncing then 0
      else if nChainDelay prevBlock > 0 then
        (if activeChainHeight \<ge> bi_nHeight newBlock then activeChainHeight - bi_nHeight newBlock else - 1)
      else if activeChainHeight - bi_nHeight newBlock > PENALTY_THRESHOLD then activeChainHeight - bi_nHeight newBlock
      else 0)"

definition CFieldElement_of_uint256 :: "uint256 \<Rightarrow> CFieldElement" where
  "CFieldElement_of_uint256 value = write_le SC_FE_SIZE_IN_BYTES (unat value)"

text \<open>The hash of a header and of field elements, the clock, and whether the node is still catching up.\<close>

record IndexEnv =
  ie_GetHash :: "CBlockHeader \<Rightarrow> uint256"
  ie_ComputeHash :: "CFieldElement \<Rightarrow> CFieldElement \<Rightarrow> CFieldElement"
  ie_GetPhantomHash :: CFieldElement
  ie_GetTime :: int
  ie_fIsStartupSyncing :: bool

record BlockTree =
  mapBlockIndex :: BlockMap
  vChain :: "uint256 option list"
  pindexBestHeader :: "uint256 option"
  setDirtyBlockIndex :: "uint256 set"
  mGlobalForkTips :: "uint256 \<Rightarrow> int option"

definition CChain_Height :: "uint256 option list \<Rightarrow> int" where "CChain_Height vs = int (length vs) - 1"

definition addToGlobalForkTips :: "IndexEnv \<Rightarrow> BlockTree \<Rightarrow> uint256 \<Rightarrow> CBlockIndex \<Rightarrow> BlockTree" where
  "addToGlobalForkTips E t hash b =
     (let tips = (case pprev b of None \<Rightarrow> mGlobalForkTips t | Some p \<Rightarrow> (mGlobalForkTips t)(p := None)) in
      t\<lparr>mGlobalForkTips := (case tips hash of None \<Rightarrow> tips(hash \<mapsto> ie_GetTime E) | Some _ \<Rightarrow> tips)\<rparr>)"

text \<open>The index of a new header, once it is filed in the map.\<close>

definition fill_index :: "IndexEnv \<Rightarrow> BlockMap \<Rightarrow> int \<Rightarrow> CBlockHeader \<Rightarrow> CBlockIndex \<Rightarrow> CBlockIndex result" where
  "fill_index E m activeHeight block b =
     bindR (case m (hd_hashPrevBlock block) of None \<Rightarrow> Inr b
            | Some pb \<Rightarrow> BuildSkip m (b\<lparr>pprev := Some (hd_hashPrevBlock block), bi_nHeight := bi_nHeight pb + 1\<rparr>)) (\<lambda>b.
     let prev = (case pprev b of None \<Rightarrow> None | Some p \<Rightarrow> m p) in
     bindR (GetBlockProof (bi_nBits b)) (\<lambda>work.
     let b = b\<lparr>nChainWork := (case prev of None \<Rightarrow> 0 | Some pb \<Rightarrow> nChainWork pb) + work\<rparr>;
         b = b\<lparr>nChainDelay := (case prev of None \<Rightarrow> 0 | Some pb \<Rightarrow> nChainDelay pb + GetBlockDelay b pb activeHeight (ie_fIsStartupSyncing E))\<rparr>;
         b = (case prev of None \<Rightarrow> b | Some pb \<Rightarrow>
                if bi_nVersion b = BLOCK_VERSION_SC_SUPPORT
                then b\<lparr>scCumTreeHash := ie_ComputeHash E (if bi_nVersion pb = BLOCK_VERSION_SC_SUPPORT then scCumTreeHash pb else ie_GetPhantomHash E)
                         (CFieldElement_of_uint256 (hd_hashScTxsCommitment block))\<rparr>
                else b) in
     bindR (RaiseValidity b BLOCK_VALID_TREE) (\<lambda>(b, _). Inr b)))"

definition AddToBlockIndex :: "IndexEnv \<Rightarrow> BlockTree \<Rightarrow> CBlockHeader \<Rightarrow> (BlockTree \<times> uint256) result" where
  "AddToBlockIndex E t block =
     (let hash = ie_GetHash E block in
      case mapBlockIndex t hash of Some _ \<Rightarrow> Inr (t, hash)
      | None \<Rightarrow>
          bindR (fill_index E ((mapBlockIndex t)(hash \<mapsto> CBlockIndex_of block)) (CChain_Height (vChain t)) block (CBlockIndex_of block)) (\<lambda>b.
          let m = (mapBlockIndex t)(hash \<mapsto> b) in
          bindR (case pindexBestHeader t of None \<Rightarrow> Inr (Some hash)
                 | Some best \<Rightarrow> bindR (deref m best) (\<lambda>bb. Inr (if nChainWork bb < nChainWork b \<and> nChainDelay b = 0 then Some hash else Some best))) (\<lambda>best.
          Inr (addToGlobalForkTips E (t\<lparr>mapBlockIndex := m, pindexBestHeader := best, setDirtyBlockIndex := insert hash (setDirtyBlockIndex t)\<rparr>) hash b, hash))))"

section \<open>Ancestors\<close>

text \<open>The block that is \<open>n\<close> predecessors back.\<close>

primrec up :: "BlockMap \<Rightarrow> nat \<Rightarrow> uint256 \<Rightarrow> uint256 option" where
  "up m 0 p = Some p"
| "up m (Suc n) p = (case m p of None \<Rightarrow> None | Some b \<Rightarrow> (case pprev b of None \<Rightarrow> None | Some q \<Rightarrow> up m n q))"

text \<open>An entry of the index: its height is one more than that of its predecessor and its skip pointer is an ancestor. The work is the work of the block on top of
  the work of the predecessor.\<close>

definition link_ok :: "BlockMap \<Rightarrow> uint256 \<Rightarrow> CBlockIndex \<Rightarrow> bool" where
  "link_ok m p b \<longleftrightarrow>
     (case pprev b of None \<Rightarrow> bi_nHeight b = 0
      | Some q \<Rightarrow> (\<exists>pb. m q = Some pb \<and> bi_nHeight b = bi_nHeight pb + 1) \<and> pskip b = up m (nat (bi_nHeight b - GetSkipHeight (bi_nHeight b))) p)
     \<and> 0 \<le> bi_nHeight b"

definition index_ok :: "BlockMap \<Rightarrow> bool" where
  "index_ok m \<longleftrightarrow> (\<forall>p b. m p = Some b \<longrightarrow> link_ok m p b)"

definition work_ok :: "BlockMap \<Rightarrow> CBlockIndex \<Rightarrow> bool" where
  "work_ok m b \<longleftrightarrow> GetBlockProof (bi_nBits b) = Inr (nChainWork b - (case pprev b of None \<Rightarrow> 0 | Some q \<Rightarrow> (case m q of None \<Rightarrow> 0 | Some pb \<Rightarrow> nChainWork pb))) \<and> 0 \<le> nChainDelay b"

lemma up_add: "up m (a + n) p = (case up m a p of None \<Rightarrow> None | Some q \<Rightarrow> up m n q)"
  by (induction a arbitrary: p) (auto split: option.splits)

lemma index_link: "index_ok m \<Longrightarrow> m p = Some b \<Longrightarrow> link_ok m p b"
  by (simp add: index_ok_def)

lemma index_step:
  assumes "index_ok m" and "m p = Some b" and "0 < bi_nHeight b"
  obtains q pb where "pprev b = Some q" and "m q = Some pb" and "bi_nHeight pb = bi_nHeight b - 1"
  using index_link [OF assms(1,2)] assms(3) by (auto simp: link_ok_def split: option.splits)

lemma up_exists:
  assumes "index_ok m" and "m p = Some b" and "int n \<le> bi_nHeight b"
  shows "\<exists>q c. up m n p = Some q \<and> m q = Some c \<and> bi_nHeight c = bi_nHeight b - int n"
  using assms(2,3)
proof (induction n arbitrary: p b)
  case (Suc n)
  obtain q pb where q: "pprev b = Some q" "m q = Some pb" "bi_nHeight pb = bi_nHeight b - 1" using index_step [OF assms(1) Suc.prems(1)] Suc.prems(2) by auto
  then obtain r c where "up m n q = Some r" "m r = Some c" "bi_nHeight c = bi_nHeight pb - int n" using Suc.IH [OF q(2)] Suc.prems(2) by auto
  then show ?case using q Suc.prems(1) by simp
qed simp

lemma ancestor_loop_up:
  assumes "index_ok m" and "m p = Some b" and "hw = bi_nHeight b" and "int height \<le> hw"
  shows "ancestor_loop m height (Some p) hw = Inr (up m (nat (hw - int height)) p)"
  using assms(2-4)
proof (induction "nat hw" arbitrary: p b hw rule: less_induct)
  case less
  show ?case
  proof (cases "hw > int height")
    case False
    then show ?thesis using less.prems(3) by (subst ancestor_loop.simps) simp
  next
    case True
    let ?hs = "GetSkipHeight hw"
    have hw: "1 \<le> hw" "0 < bi_nHeight b" using True less.prems(2) by auto
    note skip = GetSkipHeight_bounds [OF hw(1)]
    obtain q pb where q: "pprev b = Some q" "m q = Some pb" "bi_nHeight pb = hw - 1" using index_step [OF assms(1) less.prems(1) hw(2)] less.prems(2) by auto
    have sk: "pskip b = up m (nat (hw - ?hs)) p" using index_link [OF assms(1) less.prems(1)] less.prems(2) q(1) by (simp add: link_ok_def)
    obtain s c where s: "up m (nat (hw - ?hs)) p = Some s" "m s = Some c" "bi_nHeight c = ?hs" using up_exists [OF assms(1) less.prems(1), of "nat (hw - ?hs)"] skip less.prems(2) by auto
    show ?thesis
    proof (cases "pskip b \<noteq> None \<and> (?hs = int height \<or> (?hs > int height \<and> \<not> (GetSkipHeight (hw - 1) < ?hs - 2 \<and> GetSkipHeight (hw - 1) \<ge> int height)))")
      case cond: True
      then have "ancestor_loop m height (Some p) hw = ancestor_loop m height (Some s) ?hs" using True less.prems(1) sk s(1) by (subst ancestor_loop.simps) (simp add: Let_def)
      also have "\<dots> = Inr (up m (nat (?hs - int height)) s)" using cond skip s(2,3) by (intro less.hyps) auto
      also have "up m (nat (?hs - int height)) s = up m (nat (hw - ?hs) + nat (?hs - int height)) p" by (simp add: up_add s(1))
      also have "nat (hw - ?hs) + nat (?hs - int height) = nat (hw - int height)" using cond skip by auto
      finally show ?thesis .
    next
      case cond: False
      then have "ancestor_loop m height (Some p) hw = ancestor_loop m height (Some q) (hw - 1)" using True less.prems(1) q(1) by (subst ancestor_loop.simps) (auto simp: Let_def)
      also have "\<dots> = Inr (up m (nat (hw - 1 - int height)) q)" using True q(2,3) by (intro less.hyps) auto
      also have "up m (nat (hw - 1 - int height)) q = up m (Suc (nat (hw - 1 - int height))) p" using less.prems(1) q(1) by simp
      also have "Suc (nat (hw - 1 - int height)) = nat (hw - int height)" using True by simp
      finally show ?thesis .
    qed
  qed
qed

lemma GetAncestor_up:
  assumes "index_ok m" and "m p = Some b"
  shows "GetAncestor m p height = Inr (if 0 \<le> height \<and> height \<le> bi_nHeight b then up m (nat (bi_nHeight b - height)) p else None)"
  using ancestor_loop_up [OF assms refl, of "nat height"] assms(2) by (auto simp: GetAncestor_def deref_def)

section \<open>Entering a header\<close>

lemma up_mono: "m \<subseteq>\<^sub>m m' \<Longrightarrow> up m n p = Some r \<Longrightarrow> up m' n p = Some r"
proof (induction n arbitrary: p)
  case (Suc n)
  then obtain b q where b: "m p = Some b" "pprev b = Some q" "up m n q = Some r" by (auto split: option.splits)
  then have "m' p = Some b" using Suc.prems(1) by (metis domI map_le_def)
  then show ?case using Suc.IH [OF Suc.prems(1) b(3)] b(2) by simp
qed simp

lemma fresh_le: "m p = None \<Longrightarrow> m \<subseteq>\<^sub>m m(p \<mapsto> b)"
  by (auto simp: map_le_def)

lemma link_ok_mono:
  assumes "index_ok m" and "m p = Some b" and "m \<subseteq>\<^sub>m m'"
  shows "link_ok m' p b"
proof (cases "pprev b")
  case None
  then show ?thesis using index_link [OF assms(1,2)] by (simp add: link_ok_def)
next
  case (Some q)
  have l: "link_ok m p b" by (rule index_link [OF assms(1,2)])
  then obtain pb where pb: "m q = Some pb" "bi_nHeight b = bi_nHeight pb + 1" using Some by (auto simp: link_ok_def)
  then have "link_ok m q pb" using index_link [OF assms(1)] by blast
  then have "1 \<le> bi_nHeight b" using pb(2) by (simp add: link_ok_def)
  then obtain r where "up m (nat (bi_nHeight b - GetSkipHeight (bi_nHeight b))) p = Some r"
    using up_exists [OF assms(1,2), of "nat (bi_nHeight b - GetSkipHeight (bi_nHeight b))"] GetSkipHeight_bounds [of "bi_nHeight b"] by auto
  moreover from up_mono [OF assms(3) this] have "up m' (nat (bi_nHeight b - GetSkipHeight (bi_nHeight b))) p = Some r" .
  moreover have "m' q = Some pb" using assms(3) pb(1) by (metis domI map_le_def)
  ultimately show ?thesis using l Some pb by (simp add: link_ok_def)
qed

definition is_tip :: "BlockMap \<Rightarrow> uint256 \<Rightarrow> bool" where
  "is_tip m p \<longleftrightarrow> m p \<noteq> None \<and> (\<forall>q b. m q = Some b \<longrightarrow> pprev b \<noteq> Some p)"

text \<open>What \<open>AddToBlockIndex\<close> relies on and keeps: the index is consistent, the global fork tips are the blocks without successors, and the best header
  has the most work among the blocks without delay.\<close>

definition tree_ok :: "BlockTree \<Rightarrow> bool" where
  "tree_ok t \<longleftrightarrow> (let m = mapBlockIndex t in
     index_ok m \<and> (\<forall>p b. m p = Some b \<longrightarrow> work_ok m b)
     \<and> (\<forall>p. mGlobalForkTips t p \<noteq> None \<longleftrightarrow> is_tip m p)
     \<and> (case pindexBestHeader t of None \<Rightarrow> m = Map.empty
        | Some best \<Rightarrow> (\<exists>bb. m best = Some bb \<and> nChainDelay bb = 0 \<and> (\<forall>p b. m p = Some b \<and> nChainDelay b = 0 \<longrightarrow> nChainWork b \<le> nChainWork bb))))"

definition fresh_header :: "IndexEnv \<Rightarrow> CBlockHeader \<Rightarrow> bool" where
  "fresh_header E block \<longleftrightarrow> ie_GetHash E block \<noteq> hd_hashPrevBlock block"

lemma GetBlockProof_total: "\<exists>w. GetBlockProof c = Inr w"
  using GetBlockProof_value by blast

lemma CBlockIndex_of_sel [simp]:
  "pprev (CBlockIndex_of x) = None" "pskip (CBlockIndex_of x) = None" "bi_nHeight (CBlockIndex_of x) = 0" "nChainWork (CBlockIndex_of x) = 0" "nChainDelay (CBlockIndex_of x) = 0"
  "nStatus (CBlockIndex_of x) = 0" "bi_nBits (CBlockIndex_of x) = hd_nBits x" "bi_nVersion (CBlockIndex_of x) = hd_nVersion x"
  by (simp_all add: CBlockIndex_of_def)

lemma RaiseValidity_new: "nStatus b = 0 \<Longrightarrow> RaiseValidity b BLOCK_VALID_TREE = Inr (b\<lparr>nStatus := 2\<rparr>, True)"
  by (simp add: RaiseValidity_def block_status_defs)

text \<open>The index that a header gets.\<close>

lemma fill_index_ok:
  assumes "index_ok m" and "m hash = None" and "hd_hashPrevBlock block \<noteq> hash" and w: "GetBlockProof (hd_nBits block) = Inr work"
  defines "prev \<equiv> hd_hashPrevBlock block"
  shows "\<exists>b. fill_index E (m(hash \<mapsto> CBlockIndex_of block)) H block (CBlockIndex_of block) = Inr b \<and> bi_nBits b = hd_nBits block
    \<and> pprev b = (if m prev = None then None else Some prev)
    \<and> (case m prev of None \<Rightarrow> bi_nHeight b = 0 \<and> nChainWork b = work \<and> nChainDelay b = 0
       | Some pb \<Rightarrow> bi_nHeight b = bi_nHeight pb + 1 \<and> nChainWork b = nChainWork pb + work
          \<and> (\<exists>b'. bi_nHeight b' = bi_nHeight b \<and> nChainDelay b = nChainDelay pb + GetBlockDelay b' pb H (ie_fIsStartupSyncing E))
          \<and> pskip b = up m (nat (bi_nHeight pb - GetSkipHeight (bi_nHeight b))) prev)"
proof -
  let ?raw = "CBlockIndex_of block"
  define M where "M = m(hash \<mapsto> ?raw)"
  have le: "m \<subseteq>\<^sub>m M" unfolding M_def using assms(2) by (rule fresh_le)
  have "link_ok M hash ?raw" by (simp add: link_ok_def)
  then have ok: "index_ok M" using link_ok_mono [OF assms(1) _ le] by (auto simp: index_ok_def M_def)
  have mp: "M prev = m prev" using assms(3) by (simp add: prev_def M_def)
  show ?thesis
  proof (cases "m prev")
    case None
    then show ?thesis using mp w by (simp add: fill_index_def prev_def [symmetric] M_def [symmetric] Let_def RaiseValidity_new)
  next
    case (Some pb)
    let ?h = "bi_nHeight pb + 1"
    have pb: "M prev = Some pb" "0 \<le> bi_nHeight pb" using Some mp index_link [OF assms(1)] by (auto simp: link_ok_def)
    have sk: "0 \<le> GetSkipHeight ?h" "GetSkipHeight ?h \<le> bi_nHeight pb" using GetSkipHeight_bounds [of ?h] pb(2) by simp_all
    then obtain r where r: "up m (nat (bi_nHeight pb - GetSkipHeight ?h)) prev = Some r" using up_exists [OF assms(1) Some, of "nat (bi_nHeight pb - GetSkipHeight ?h)"] by auto
    have "GetAncestor M prev (GetSkipHeight ?h) = Inr (Some r)" using GetAncestor_up [OF ok pb(1)] sk up_mono [OF le r] by simp
    then show ?thesis using Some pb(1) w r
      by (simp add: fill_index_def prev_def [symmetric] M_def [symmetric] Let_def RaiseValidity_new BuildSkip_def) (rule exI [where x = "CBlockIndex_of block\<lparr>bi_nHeight := ?h\<rparr>"], simp add: GetBlockDelay_def)
  qed
qed

lemma delay_nonneg: "0 \<le> nChainDelay pb \<Longrightarrow> 0 \<le> nChainDelay pb + GetBlockDelay b pb H sync"
  by (auto simp: GetBlockDelay_def PENALTY_THRESHOLD_def)

text \<open>What is known of an entry that is added on top of a consistent index.\<close>

definition new_entry :: "BlockMap \<Rightarrow> uint256 \<Rightarrow> CBlockHeader \<Rightarrow> CBlockIndex \<Rightarrow> bool" where
  "new_entry m hash block b \<longleftrightarrow> m hash = None \<and> hd_hashPrevBlock block \<noteq> hash \<and> pprev b = (if m (hd_hashPrevBlock block) = None then None else Some (hd_hashPrevBlock block))
     \<and> link_ok (m(hash \<mapsto> b)) hash b \<and> work_ok m b \<and> (pprev b = None \<longrightarrow> nChainDelay b = 0) \<and> bi_nBits b = hd_nBits block"

lemma fill_index_entry:
  assumes "index_ok m" and "\<forall>p b. m p = Some b \<longrightarrow> work_ok m b" and "m hash = None" and "hd_hashPrevBlock block \<noteq> hash"
  shows "\<exists>b. fill_index E (m(hash \<mapsto> CBlockIndex_of block)) H block (CBlockIndex_of block) = Inr b \<and> new_entry m hash block b"
proof -
  let ?prev = "hd_hashPrevBlock block"
  obtain work where w: "GetBlockProof (hd_nBits block) = Inr work" using GetBlockProof_total by blast
  obtain b where b: "fill_index E (m(hash \<mapsto> CBlockIndex_of block)) H block (CBlockIndex_of block) = Inr b" "bi_nBits b = hd_nBits block"
    "pprev b = (if m ?prev = None then None else Some ?prev)"
    and c: "case m ?prev of None \<Rightarrow> bi_nHeight b = 0 \<and> nChainWork b = work \<and> nChainDelay b = 0
       | Some pb \<Rightarrow> bi_nHeight b = bi_nHeight pb + 1 \<and> nChainWork b = nChainWork pb + work
          \<and> (\<exists>b'. bi_nHeight b' = bi_nHeight b \<and> nChainDelay b = nChainDelay pb + GetBlockDelay b' pb H (ie_fIsStartupSyncing E))
          \<and> pskip b = up m (nat (bi_nHeight pb - GetSkipHeight (bi_nHeight b))) ?prev"
    using fill_index_ok [OF assms(1,3,4) w, of E H] by blast
  have "link_ok (m(hash \<mapsto> b)) hash b \<and> work_ok m b \<and> (pprev b = None \<longrightarrow> nChainDelay b = 0)"
  proof (cases "m ?prev")
    case None
    then show ?thesis using b(2,3) c w by (simp add: link_ok_def work_ok_def)
  next
    case (Some pb)
    have c: "bi_nHeight b = bi_nHeight pb + 1" "nChainWork b = nChainWork pb + work" "\<exists>b'. nChainDelay b = nChainDelay pb + GetBlockDelay b' pb H (ie_fIsStartupSyncing E)"
      "pskip b = up m (nat (bi_nHeight pb - GetSkipHeight (bi_nHeight b))) ?prev" using c Some by auto
    have pb: "0 \<le> bi_nHeight pb" using index_link [OF assms(1) Some] by (simp add: link_ok_def)
    let ?k = "nat (bi_nHeight pb - GetSkipHeight (bi_nHeight b))"
    have sk: "0 \<le> GetSkipHeight (bi_nHeight b)" "GetSkipHeight (bi_nHeight b) \<le> bi_nHeight pb" using GetSkipHeight_bounds [of "bi_nHeight b"] pb c(1) by simp_all
    then obtain r where r: "up m ?k ?prev = Some r" using up_exists [OF assms(1) Some, of ?k] by auto
    have "nat (bi_nHeight b - GetSkipHeight (bi_nHeight b)) = Suc ?k" using sk c(1) by simp
    then have "up (m(hash \<mapsto> b)) (nat (bi_nHeight b - GetSkipHeight (bi_nHeight b))) hash = Some r"
      using up_mono [OF fresh_le [of m hash b, OF assms(3)] r] b(3) Some by simp
    then have "link_ok (m(hash \<mapsto> b)) hash b" using b(3) c(1,4) r Some pb assms(4) by (simp add: link_ok_def)
    moreover have "0 \<le> nChainDelay b" using c(3) delay_nonneg assms(2) Some by (auto simp: work_ok_def)
    then have "work_ok m b" using b(2,3) c(2) w Some by (simp add: work_ok_def)
    ultimately show ?thesis using b(3) Some by simp
  qed
  then show ?thesis using b assms(3,4) by (auto simp: new_entry_def)
qed

lemma new_entry_index_ok: "index_ok m \<Longrightarrow> new_entry m hash block b \<Longrightarrow> index_ok (m(hash \<mapsto> b))"
  using link_ok_mono [OF _ _ fresh_le] unfolding index_ok_def new_entry_def by (metis fun_upd_apply option.inject)

lemma work_ok_new:
  assumes "index_ok m" and "new_entry m hash block b" and "(m(hash \<mapsto> b)) p = Some c" and "p \<noteq> hash \<Longrightarrow> work_ok m c"
  shows "work_ok (m(hash \<mapsto> b)) c"
proof -
  have "pprev c \<noteq> Some hash"
  proof (cases "p = hash")
    case True
    then show ?thesis using assms(2,3) by (auto simp: new_entry_def)
  next
    case False
    then have "link_ok m p c" using assms(1,3) index_link by simp
    then show ?thesis using assms(2) by (auto simp: link_ok_def new_entry_def split: option.splits)
  qed
  moreover have "work_ok m c" using assms by (cases "p = hash") (auto simp: new_entry_def)
  ultimately show ?thesis by (auto simp: work_ok_def split: option.splits if_splits)
qed

lemma new_entry_no_child: "index_ok m \<Longrightarrow> m hash = None \<Longrightarrow> m q = Some c \<Longrightarrow> pprev c \<noteq> Some hash"
  using index_link [of m q c] by (auto simp: link_ok_def split: option.splits)

lemma all_entries_upd:
  assumes "m k = None"
  shows "(\<forall>q c. (m(k \<mapsto> b)) q = Some c \<longrightarrow> P c) \<longleftrightarrow> (\<forall>q c. m q = Some c \<longrightarrow> P c) \<and> P b"
proof
  assume a: "\<forall>q c. (m(k \<mapsto> b)) q = Some c \<longrightarrow> P c"
  have "P c" if "m q = Some c" for q c
  proof -
    have "q \<noteq> k" using assms that by auto
    then show ?thesis using a that by (simp add: fun_upd_def) metis
  qed
  moreover have "P b" using a by (auto dest: spec [of _ k])
  ultimately show "(\<forall>q c. m q = Some c \<longrightarrow> P c) \<and> P b" by blast
qed auto

lemma is_tip_new:
  assumes "index_ok m" and "new_entry m hash block b"
  shows "is_tip (m(hash \<mapsto> b)) p \<longleftrightarrow> p = hash \<or> (is_tip m p \<and> pprev b \<noteq> Some p)"
proof (cases "p = hash")
  case True
  have "pprev b \<noteq> Some hash" "m hash = None" using assms(2) by (auto simp: new_entry_def)
  then show ?thesis using True new_entry_no_child [OF assms(1)] by (auto simp: is_tip_def)
next
  case False
  have "m hash = None" using assms(2) by (simp add: new_entry_def)
  then have "(\<forall>q c. (m(hash \<mapsto> b)) q = Some c \<longrightarrow> pprev c \<noteq> Some p) \<longleftrightarrow> (\<forall>q c. m q = Some c \<longrightarrow> pprev c \<noteq> Some p) \<and> pprev b \<noteq> Some p"
    by (rule all_entries_upd)
  then show ?thesis using False by (simp add: is_tip_def)
qed

lemma best_header_kept:
  fixes b :: CBlockIndex
  assumes "m best = Some bb" and "nChainDelay bb = 0" and "\<forall>p c. m p = Some c \<and> nChainDelay c = 0 \<longrightarrow> nChainWork c \<le> nChainWork bb" and "m hash = None"
  defines "best' \<equiv> (if nChainWork bb < nChainWork b \<and> nChainDelay b = 0 then hash else best)"
  shows "\<exists>bb. (m(hash \<mapsto> b)) best' = Some bb \<and> nChainDelay bb = 0 \<and> (\<forall>p c. (m(hash \<mapsto> b)) p = Some c \<and> nChainDelay c = 0 \<longrightarrow> nChainWork c \<le> nChainWork bb)"
proof (cases "nChainWork bb < nChainWork b \<and> nChainDelay b = 0")
  case True
  then show ?thesis using assms(3) by (fastforce simp: best'_def)
next
  case False
  have "best \<noteq> hash" using assms(1,4) by auto
  then show ?thesis using False assms(1-3) by (auto simp: best'_def)
qed

lemma AddToBlockIndex_tree_ok:
  assumes "tree_ok t" and "fresh_header E block"
  shows "\<exists>t'. AddToBlockIndex E t block = Inr (t', ie_GetHash E block) \<and> tree_ok t' \<and> mapBlockIndex t' (ie_GetHash E block) \<noteq> None \<and> mapBlockIndex t \<subseteq>\<^sub>m mapBlockIndex t'
    \<and> (\<forall>p b. mapBlockIndex t' p = Some b \<longrightarrow> mapBlockIndex t p = Some b \<or> bi_nBits b = hd_nBits block)"
proof (cases "mapBlockIndex t (ie_GetHash E block)")
  case (Some b)
  then show ?thesis using assms(1) by (simp add: AddToBlockIndex_def)
next
  case None
  define m hash where "m = mapBlockIndex t" and "hash = ie_GetHash E block"
  have ok: "index_ok m" "\<forall>p b. m p = Some b \<longrightarrow> work_ok m b" "\<And>p. mGlobalForkTips t p \<noteq> None \<longleftrightarrow> is_tip m p"
    and best: "case pindexBestHeader t of None \<Rightarrow> m = Map.empty
        | Some best \<Rightarrow> (\<exists>bb. m best = Some bb \<and> nChainDelay bb = 0 \<and> (\<forall>p b. m p = Some b \<and> nChainDelay b = 0 \<longrightarrow> nChainWork b \<le> nChainWork bb))"
    using assms(1) unfolding m_def tree_ok_def Let_def by simp_all
  have fresh: "m hash = None" "hd_hashPrevBlock block \<noteq> hash" using None assms(2) by (auto simp: m_def hash_def fresh_header_def)
  obtain b where b: "fill_index E (m(hash \<mapsto> CBlockIndex_of block)) (CChain_Height (vChain t)) block (CBlockIndex_of block) = Inr b" "new_entry m hash block b"
    using fill_index_entry [OF ok(1,2) fresh] by blast
  define M where "M = m(hash \<mapsto> b)"
  have "work_ok M c" if "M p = Some c" for p c
    unfolding M_def by (rule work_ok_new [OF ok(1) b(2) that [unfolded M_def]]) (use that ok(2) in \<open>auto simp: M_def\<close>)
  then have M: "index_ok M" "\<And>p c. M p = Some c \<Longrightarrow> work_ok M c" using new_entry_index_ok [OF ok(1) b(2)] by (auto simp: M_def)
  obtain best' where best': "(case pindexBestHeader t of None \<Rightarrow> Inr (Some hash)
      | Some best \<Rightarrow> bindR (deref M best) (\<lambda>bb. Inr (if nChainWork bb < nChainWork b \<and> nChainDelay b = 0 then Some hash else Some best))) = Inr (Some best')"
    and top: "\<exists>bb. M best' = Some bb \<and> nChainDelay bb = 0 \<and> (\<forall>p c. M p = Some c \<and> nChainDelay c = 0 \<longrightarrow> nChainWork c \<le> nChainWork bb)"
  proof (cases "pindexBestHeader t")
    case None
    then have "m = Map.empty" using best by simp
    then have "nChainDelay b = 0" using b(2) by (simp add: new_entry_def)
    then show ?thesis using that [of hash] None \<open>m = Map.empty\<close> by (simp add: M_def)
  next
    case (Some x)
    then obtain bb where bb: "m x = Some bb" "nChainDelay bb = 0" "\<forall>p c. m p = Some c \<and> nChainDelay c = 0 \<longrightarrow> nChainWork c \<le> nChainWork bb" using best by auto
    then have "deref M x = Inr bb" using fresh(1) by (auto simp: M_def deref_def)
    then show ?thesis using that best_header_kept [of m x bb hash b, OF bb fresh(1), folded M_def] Some by (auto split: if_splits)
  qed
  define t' where "t' = addToGlobalForkTips E (t\<lparr>mapBlockIndex := M, pindexBestHeader := Some best', setDirtyBlockIndex := insert hash (setDirtyBlockIndex t)\<rparr>) hash b"
  have a: "AddToBlockIndex E t block = Inr (t', hash)"
    unfolding AddToBlockIndex_def Let_def hash_def [symmetric] m_def [symmetric] using fresh(1) b(1) best' [unfolded M_def] by (simp add: M_def t'_def)
  have tips: "mGlobalForkTips t' p \<noteq> None \<longleftrightarrow> is_tip M p" for p
  proof -
    have "mGlobalForkTips t hash = None" using ok(3) [of hash] fresh(1) by (simp add: is_tip_def)
    then show ?thesis unfolding M_def is_tip_new [OF ok(1) b(2)] ok(3) [symmetric] by (auto simp: t'_def addToGlobalForkTips_def Let_def split: option.splits)
  qed
  have sel: "mapBlockIndex t' = M" "pindexBestHeader t' = Some best'" "vChain t' = vChain t" by (simp_all add: t'_def addToGlobalForkTips_def Let_def)
  then have "tree_ok t'" using M tips top by (simp add: tree_ok_def)
  moreover have "m \<subseteq>\<^sub>m M" unfolding M_def using fresh(1) by (rule fresh_le)
  moreover have "m p = Some c \<or> bi_nBits c = hd_nBits block" if "M p = Some c" for p c using that b(2) by (auto simp: M_def new_entry_def split: if_splits)
  ultimately show ?thesis using a sel by (auto simp: m_def hash_def M_def)
qed

definition empty_tree :: BlockTree where
  "empty_tree = \<lparr> mapBlockIndex = Map.empty, vChain = [], pindexBestHeader = None, setDirtyBlockIndex = {}, mGlobalForkTips = Map.empty \<rparr>"

lemma empty_tree_ok: "tree_ok empty_tree"
  by (simp add: empty_tree_def tree_ok_def index_ok_def is_tip_def)

definition AddHeaders :: "IndexEnv \<Rightarrow> CBlockHeader list \<Rightarrow> BlockTree result" where
  "AddHeaders E blocks = foldR (\<lambda>t block. bindR (AddToBlockIndex E t block) (\<lambda>(t, _). Inr t)) empty_tree blocks"

lemma AddHeaders_ok:
  assumes "\<forall>block \<in> set blocks. fresh_header E block"
  shows "\<exists>t. AddHeaders E blocks = Inr t \<and> tree_ok t \<and> (\<forall>block \<in> set blocks. mapBlockIndex t (ie_GetHash E block) \<noteq> None)"
proof -
  have "\<exists>t'. foldR (\<lambda>t block. bindR (AddToBlockIndex E t block) (\<lambda>(t, _). Inr t)) t blocks = Inr t' \<and> tree_ok t' \<and> mapBlockIndex t \<subseteq>\<^sub>m mapBlockIndex t'
      \<and> (\<forall>block \<in> set blocks. mapBlockIndex t' (ie_GetHash E block) \<noteq> None)" if "tree_ok t" for t
    using assms that
  proof (induction blocks arbitrary: t)
    case (Cons block blocks)
    obtain t1 where t1: "AddToBlockIndex E t block = Inr (t1, ie_GetHash E block)" "tree_ok t1" "mapBlockIndex t1 (ie_GetHash E block) \<noteq> None" "mapBlockIndex t \<subseteq>\<^sub>m mapBlockIndex t1"
      using AddToBlockIndex_tree_ok [OF Cons.prems(2), of E block] Cons.prems(1) by auto
    then obtain t2 where t2: "foldR (\<lambda>t block. bindR (AddToBlockIndex E t block) (\<lambda>(t, _). Inr t)) t1 blocks = Inr t2" "tree_ok t2" "mapBlockIndex t1 \<subseteq>\<^sub>m mapBlockIndex t2"
      "\<forall>block \<in> set blocks. mapBlockIndex t2 (ie_GetHash E block) \<noteq> None" using Cons.IH [of t1] Cons.prems(1) by auto
    have "mapBlockIndex t2 (ie_GetHash E block) \<noteq> None" using t1(3) t2(3) by (metis domIff map_le_implies_dom_le subsetD)
    then show ?case using t1 t2 map_le_trans by fastforce
  qed simp
  then show ?thesis unfolding AddHeaders_def using empty_tree_ok by blast
qed

lemma AddHeaders_bits:
  assumes "\<forall>block \<in> set blocks. fresh_header E block" and "AddHeaders E blocks = Inr t" and "mapBlockIndex t p = Some b"
  shows "bi_nBits b \<in> hd_nBits ` set blocks"
proof -
  have "bi_nBits b \<in> hd_nBits ` set blocks \<or> mapBlockIndex t0 p = Some b"
    if "tree_ok t0" and "foldR (\<lambda>t block. bindR (AddToBlockIndex E t block) (\<lambda>(t, _). Inr t)) t0 blocks = Inr t" for t0
    using assms(1) that
  proof (induction blocks arbitrary: t0)
    case (Cons block blocks)
    obtain t1 where t1: "AddToBlockIndex E t0 block = Inr (t1, ie_GetHash E block)" "tree_ok t1" "\<forall>p b. mapBlockIndex t1 p = Some b \<longrightarrow> mapBlockIndex t0 p = Some b \<or> bi_nBits b = hd_nBits block"
      using AddToBlockIndex_tree_ok [OF Cons.prems(2), of E block] Cons.prems(1) by auto
    then show ?case using Cons.IH [of t1] Cons.prems(1,3) by auto
  qed (use assms(3) in simp)
  from this [OF empty_tree_ok] show ?thesis using assms(2) by (simp add: AddHeaders_def empty_tree_def)
qed

text \<open>Four headers: a block, two blocks on top of it, and a block on top of the second of them.\<close>

definition sample_header :: "uint256 \<Rightarrow> uint256 \<Rightarrow> CBlockHeader" where
  "sample_header prev nonce = \<lparr> hd_nVersion = 3, hd_hashPrevBlock = prev, hd_hashMerkleRoot = 0, hd_hashScTxsCommitment = 0, hd_nTime = 100, hd_nBits = 0x2007FFFF,
     hd_nNonce = nonce, hd_nSolution = [] \<rparr>"

definition sample_index_env :: IndexEnv where
  "sample_index_env = \<lparr> ie_GetHash = hd_nNonce, ie_ComputeHash = (\<lambda>a b. a), ie_GetPhantomHash = replicate 32 0, ie_GetTime = 1000, ie_fIsStartupSyncing = False \<rparr>"

definition sample_headers :: "CBlockHeader list" where "sample_headers = [sample_header 0 1, sample_header 1 2, sample_header 1 3, sample_header 3 4]"

lemma sample_headers_fresh: "\<forall>block \<in> set sample_headers. fresh_header sample_index_env block"
  by (simp add: sample_headers_def sample_header_def fresh_header_def sample_index_env_def)

lemma sample_index:
  "\<exists>t b c. AddHeaders sample_index_env sample_headers = Inr t \<and> tree_ok t \<and> mapBlockIndex t 4 = Some b \<and> mapBlockIndex t 2 = Some c"
proof -
  have "sample_header 3 4 \<in> set sample_headers" "ie_GetHash sample_index_env (sample_header 3 4) = 4" "sample_header 1 2 \<in> set sample_headers" "ie_GetHash sample_index_env (sample_header 1 2) = 2"
    by (simp_all add: sample_headers_def sample_index_env_def sample_header_def)
  then show ?thesis using AddHeaders_ok [OF sample_headers_fresh] by (metis not_None_eq)
qed



text \<open>C35: in the index of any sequence of headers, \<open>GetAncestor\<close> with its skip pointers stops and gives the block that walking from predecessor to predecessor down to the asked height gives,
  or no block when the height is negative or above the block.\<close>

theorem skip_list_finds_ancestor:
  assumes "\<forall>block \<in> set blocks. fresh_header E block" and "AddHeaders E blocks = Inr t" and "mapBlockIndex t p = Some b"
  shows "GetAncestor (mapBlockIndex t) p height = Inr (if 0 \<le> height \<and> height \<le> bi_nHeight b then up (mapBlockIndex t) (nat (bi_nHeight b - height)) p else None)
    \<and> (0 \<le> height \<and> height \<le> bi_nHeight b \<longrightarrow> (\<exists>q c. GetAncestor (mapBlockIndex t) p height = Inr (Some q) \<and> mapBlockIndex t q = Some c \<and> bi_nHeight c = height))"
proof -
  have ok: "index_ok (mapBlockIndex t)" using AddHeaders_ok [OF assms(1)] assms(2) by (auto simp: tree_ok_def Let_def)
  show ?thesis using GetAncestor_up [OF ok assms(3)] up_exists [OF ok assms(3), of "nat (bi_nHeight b - height)"] by auto
qed

theorem skip_list_finds_ancestor_witness:
  "\<exists>t b. AddHeaders sample_index_env sample_headers = Inr t \<and> mapBlockIndex t 4 = Some b \<and> GetAncestor (mapBlockIndex t) 4 0 = Inr (up (mapBlockIndex t) (nat (bi_nHeight b)) 4)"
proof -
  obtain t b where t: "AddHeaders sample_index_env sample_headers = Inr t" "tree_ok t" "mapBlockIndex t 4 = Some b" using sample_index by blast
  then have "0 \<le> bi_nHeight b" using index_link by (auto simp: tree_ok_def Let_def link_ok_def)
  then show ?thesis using skip_list_finds_ancestor [OF sample_headers_fresh t(1,3), of 0] t(1,3) by auto
qed

end
