(* ===== verification/NextWork.thy ===== *)
theory NextWork
  imports BlockIndex
begin

text \<open>
  The target that the next block must have (\<open>GetNextWorkRequired\<close> of \<open>pow.cpp\<close>), from the targets and the median times of the blocks before it (\<open>chain.h\<close>).
\<close>

section \<open>Median times and the averaging window\<close>

definition nMedianTimeSpan :: nat where "nMedianTimeSpan = 11"

primrec median_loop :: "BlockMap \<Rightarrow> nat \<Rightarrow> uint256 option \<Rightarrow> int list \<Rightarrow> int list result" where
  "median_loop m 0 pindex pmedian = Inr pmedian"
| "median_loop m (Suc n) pindex pmedian =
     (case pindex of None \<Rightarrow> Inr pmedian
      | Some p \<Rightarrow> bindR (deref m p) (\<lambda>b. median_loop m n (pprev b) (uint (bi_nTime b) # pmedian)))"

definition GetMedianTimePast :: "BlockMap \<Rightarrow> uint256 \<Rightarrow> int result" where
  "GetMedianTimePast m p = bindR (median_loop m nMedianTimeSpan (Some p) []) (\<lambda>pmedian. let pmedian = sort pmedian in Inr (pmedian ! (length pmedian div 2)))"

primrec window_loop :: "BlockMap \<Rightarrow> nat \<Rightarrow> uint256 option \<Rightarrow> uint256 \<Rightarrow> (uint256 option \<times> uint256) result" where
  "window_loop m 0 pindexFirst bnTot = Inr (pindexFirst, bnTot)"
| "window_loop m (Suc n) pindexFirst bnTot =
     (case pindexFirst of None \<Rightarrow> Inr (None, bnTot)
      | Some p \<Rightarrow> bindR (deref m p) (\<lambda>b. window_loop m n (pprev b) (bnTot + fst (SetCompact (bi_nBits b)))))"

definition GetNextWorkRequired :: "BlockMap \<Rightarrow> uint256 option \<Rightarrow> PowParams \<Rightarrow> uint32 result" where
  "GetNextWorkRequired m pindexLast P =
     bindR (GetCompact (powLimit P) False) (\<lambda>nProofOfWorkLimit.
     case pindexLast of None \<Rightarrow> Inr nProofOfWorkLimit
     | Some p \<Rightarrow>
         bindR (window_loop m (nat (nPowAveragingWindow P)) (Some p) 0) (\<lambda>(pindexFirst, bnTot).
         case pindexFirst of None \<Rightarrow> Inr nProofOfWorkLimit
         | Some first \<Rightarrow>
             (let d = ucast (of_int (nPowAveragingWindow P) :: uint64) in
              if d = 0 then Inl (Throw ''Division by zero'')
              else bindR (GetMedianTimePast m p) (\<lambda>nLastBlockTime.
                   bindR (GetMedianTimePast m first) (\<lambda>nFirstBlockTime.
                   CalculateNextWorkRequired (bnTot div d) nLastBlockTime nFirstBlockTime P)))))"

section \<open>Targets stay within the limit\<close>

text \<open>An index whose pointers lead to entries.\<close>

lemma median_loop_total:
  assumes "index_ok m" and "pindex = None \<or> (\<exists>b. m (the pindex) = Some b)"
  shows "\<exists>ts. median_loop m n pindex ps = Inr ts"
  using assms(2)
proof (induction n arbitrary: pindex ps)
  case (Suc n)
  show ?case
  proof (cases pindex)
    case (Some p)
    then obtain b where b: "m p = Some b" using Suc.prems by auto
    have "pprev b = None \<or> (\<exists>c. m (the (pprev b)) = Some c)" using index_link [OF assms(1) b] by (auto simp: link_ok_def split: option.splits)
    then show ?thesis using Suc.IH Some b by (simp add: deref_def)
  qed simp
qed simp

definition targets_ok :: "BlockMap \<Rightarrow> PowParams \<Rightarrow> bool" where
  "targets_ok m P \<longleftrightarrow> (\<forall>p b. m p = Some b \<longrightarrow> fst (SetCompact (bi_nBits b)) \<le> powLimit P)"

lemma window_loop_bound:
  assumes "index_ok m" and "targets_ok m P" and "pindex = None \<or> (\<exists>b. m (the pindex) = Some b)" and "unat tot + n * unat (powLimit P) < 2 ^ 256"
  shows "\<exists>first tot'. window_loop m n pindex tot = Inr (first, tot') \<and> unat tot' \<le> unat tot + n * unat (powLimit P) \<and> (first = None \<or> (\<exists>b. m (the first) = Some b))"
  using assms(3,4)
proof (induction n arbitrary: pindex tot)
  case (Suc n)
  show ?case
  proof (cases pindex)
    case (Some p)
    then obtain b where b: "m p = Some b" using Suc.prems by auto
    let ?t = "fst (SetCompact (bi_nBits b))"
    have t: "unat ?t \<le> unat (powLimit P)" using assms(2) b by (simp add: targets_ok_def word_le_nat_alt)
    then have "unat tot + unat ?t < 2 ^ 256" using Suc.prems(2) by simp
    then have s: "unat (tot + ?t) = unat tot + unat ?t" by (simp add: unat_word_ariths)
    have "pprev b = None \<or> (\<exists>c. m (the (pprev b)) = Some c)" using index_link [OF assms(1) b] by (auto simp: link_ok_def split: option.splits)
    moreover have "unat (tot + ?t) + n * unat (powLimit P) < 2 ^ 256" using Suc.prems(2) t s by simp
    ultimately obtain first tot' where "window_loop m n (pprev b) (tot + ?t) = Inr (first, tot')" "unat tot' \<le> unat (tot + ?t) + n * unat (powLimit P)"
      "first = None \<or> (\<exists>b. m (the first) = Some b)" using Suc.IH by blast
    then show ?thesis using Some b t s by (simp add: deref_def)
  qed auto
qed simp

text \<open>What the parameters of the networks also have: the window is positive and the sum of its targets fits.\<close>

definition window_ok :: "PowParams \<Rightarrow> bool" where
  "window_ok P \<longleftrightarrow> 0 < nPowAveragingWindow P \<and> nPowAveragingWindow P < 2 ^ 32 \<and> nat (nPowAveragingWindow P) * unat (powLimit P) < 2 ^ 256"

lemma networks_window_ok: "window_ok main_pow" "window_ok test_pow" "window_ok reg_pow"
  by (simp_all add: window_ok_def main_pow_def test_pow_def reg_pow_def)

lemma limit_compact: "\<exists>c t. GetCompact w False = Inr c \<and> SetCompact c = (t, False, False) \<and> t \<le> w"
proof -
  obtain c where c: "GetCompact w False = Inr c" "compact_value c \<le> unat w" "\<not> bit c 23" using GetCompact_round_trip by blast
  have less: "compact_value c < 2 ^ 256" using c(2) unsigned_less [of w, where ?'a = nat] by simp
  then have "unat (of_nat (compact_value c) :: uint256) = compact_value c" by (simp add: unat_of_nat take_bit_nat_eq_self)
  then show ?thesis using c less by (auto simp: SetCompact_value word_le_nat_alt)
qed



end
