(* ===== verification/ActiveChain.thy ===== *)
theory ActiveChain
  imports BlockIndex
begin

text \<open>
  The active chain \<open>CChain\<close> of \<open>chain.h\<close> and \<open>chain.cpp\<close>: a vector with one block index per height. Its loops follow predecessors, so that they
  are partial functions whose value is \<open>None\<close> when they do not stop; on a consistent index they all stop.
\<close>

section \<open>Operations\<close>

definition CChain_at :: "uint256 option list \<Rightarrow> int \<Rightarrow> uint256 option" where
  "CChain_at vs nHeight = (if nHeight < 0 \<or> nHeight > CChain_Height vs then None else vs ! nat nHeight)"

definition CChain_Genesis :: "uint256 option list \<Rightarrow> uint256 option" where "CChain_Genesis vs = CChain_at vs 0"

definition CChain_Tip :: "uint256 option list \<Rightarrow> uint256 option" where
  "CChain_Tip vs = (let nHeight = CChain_Height vs in if nHeight \<ge> 0 then CChain_at vs nHeight else None)"

definition CChain_Contains :: "BlockMap \<Rightarrow> uint256 option list \<Rightarrow> uint256 \<Rightarrow> bool result" where
  "CChain_Contains m vs p = bindR (deref m p) (\<lambda>b. Inr (CChain_at vs (bi_nHeight b) = Some p))"

definition CChain_Next :: "BlockMap \<Rightarrow> uint256 option list \<Rightarrow> uint256 \<Rightarrow> uint256 option result" where
  "CChain_Next m vs p =
     bindR (deref m p) (\<lambda>b.
     bindR (CChain_Contains m vs p) (\<lambda>c. Inr (if c then CChain_at vs (bi_nHeight b + 1) else None)))"

definition vector_resize :: "'a option list \<Rightarrow> nat \<Rightarrow> 'a option list" where
  "vector_resize vs n = take n vs @ replicate (n - length vs) None"

partial_function (option) set_tip_loop :: "BlockMap \<Rightarrow> uint256 option list \<Rightarrow> uint256 option \<Rightarrow> uint256 option list result option" where
  "set_tip_loop m vs pindex =
     (case pindex of None \<Rightarrow> Some (Inr vs)
      | Some p \<Rightarrow> (case m p of None \<Rightarrow> Some (Inl Undefined)
        | Some b \<Rightarrow>
            if bi_nHeight b < 0 \<or> bi_nHeight b \<ge> int (length vs) then Some (Inl Undefined)
            else if vs ! nat (bi_nHeight b) = Some p then Some (Inr vs)
            else set_tip_loop m (vs[nat (bi_nHeight b) := Some p]) (pprev b)))"

definition CChain_SetTip :: "BlockMap \<Rightarrow> uint256 option list \<Rightarrow> uint256 option \<Rightarrow> uint256 option list result option" where
  "CChain_SetTip m vs pindex =
     (case pindex of None \<Rightarrow> Some (Inr [])
      | Some p \<Rightarrow> (case deref m p of Inl e \<Rightarrow> Some (Inl e)
        | Inr b \<Rightarrow> set_tip_loop m (vector_resize vs (nat (bi_nHeight b + 1))) (Some p)))"

partial_function (option) fork_loop :: "BlockMap \<Rightarrow> uint256 option list \<Rightarrow> uint256 option \<Rightarrow> uint256 option result option" where
  "fork_loop m vs pindex =
     (case pindex of None \<Rightarrow> Some (Inr None)
      | Some p \<Rightarrow> (case m p of None \<Rightarrow> Some (Inl Undefined)
        | Some b \<Rightarrow> if CChain_at vs (bi_nHeight b) = Some p then Some (Inr (Some p)) else fork_loop m vs (pprev b)))"

definition CChain_FindFork :: "BlockMap \<Rightarrow> uint256 option list \<Rightarrow> uint256 \<Rightarrow> uint256 option result option" where
  "CChain_FindFork m vs p =
     (case deref m p of Inl e \<Rightarrow> Some (Inl e)
      | Inr b \<Rightarrow>
          if bi_nHeight b > CChain_Height vs
          then (case GetAncestor m p (CChain_Height vs) of Inl e \<Rightarrow> Some (Inl e) | Inr q \<Rightarrow> fork_loop m vs q)
          else fork_loop m vs (Some p))"

partial_function (option) locator_loop :: "BlockMap \<Rightarrow> uint256 option list \<Rightarrow> uint256 list \<Rightarrow> int \<Rightarrow> uint256 option \<Rightarrow> uint256 list result option" where
  "locator_loop m vs vHave nStep pindex =
     (case pindex of None \<Rightarrow> Some (Inr vHave)
      | Some p \<Rightarrow> (case m p of None \<Rightarrow> Some (Inl Undefined)
        | Some b \<Rightarrow>
            if bi_nHeight b = 0 then Some (Inr (vHave @ [p]))
            else (case (if CChain_at vs (bi_nHeight b) = Some p then Inr (CChain_at vs (max (bi_nHeight b - nStep) 0))
                        else GetAncestor m p (max (bi_nHeight b - nStep) 0)) of
                    Inl e \<Rightarrow> Some (Inl e)
                  | Inr q \<Rightarrow> locator_loop m vs (vHave @ [p]) (if length (vHave @ [p]) > 10 then nStep * 2 else nStep) q)))"

definition CChain_GetLocator :: "BlockMap \<Rightarrow> uint256 option list \<Rightarrow> uint256 option \<Rightarrow> uint256 list result option" where
  "CChain_GetLocator m vs pindex = locator_loop m vs [] 1 (case pindex of None \<Rightarrow> CChain_Tip vs | Some p \<Rightarrow> Some p)"

section \<open>Chains\<close>

text \<open>A vector in which every entry has its height and follows the entry below it; a chain has an entry at every height.\<close>

definition links_ok :: "BlockMap \<Rightarrow> uint256 option list \<Rightarrow> bool" where
  "links_ok m vs \<longleftrightarrow> (\<forall>k p. k < length vs \<and> vs ! k = Some p \<longrightarrow> (\<exists>b. m p = Some b \<and> bi_nHeight b = int k \<and> (0 < k \<longrightarrow> vs ! (k - 1) = pprev b)))"

definition chain_ok :: "BlockMap \<Rightarrow> uint256 option list \<Rightarrow> bool" where
  "chain_ok m vs \<longleftrightarrow> links_ok m vs \<and> None \<notin> set vs"

lemma links_at:
  assumes "links_ok m vs" and "k < length vs" and "vs ! k = Some p"
  obtains b where "m p = Some b" and "bi_nHeight b = int k" and "0 < k \<Longrightarrow> vs ! (k - 1) = pprev b"
  using assms by (auto simp: links_ok_def)

lemma links_up:
  assumes "index_ok m" and "links_ok m vs" and "h < length vs" and "vs ! h = Some p" and "k \<le> h"
  shows "vs ! k = up m (h - k) p"
  using assms(3-5)
proof (induction h arbitrary: p)
  case (Suc h)
  obtain b where b: "m p = Some b" "bi_nHeight b = int (Suc h)" "vs ! h = pprev b" by (rule links_at [OF assms(2) Suc.prems(1,2)]) auto
  obtain q where q: "pprev b = Some q" by (rule index_step [OF assms(1) b(1)]) (use b(2) in auto)
  show ?case using Suc.IH [of q] Suc.prems b q by (cases "k = Suc h") (simp_all add: Suc_diff_le)
qed simp

lemma chain_height: "CChain_Height vs = int (length vs) - 1"
  by (simp add: CChain_Height_def)

lemma chain_at: "k < length vs \<Longrightarrow> CChain_at vs (int k) = vs ! k" "length vs \<le> k \<Longrightarrow> CChain_at vs (int k) = None"
  by (simp_all add: CChain_at_def chain_height)

lemma height_zero: "index_ok m \<Longrightarrow> m p = Some b \<Longrightarrow> bi_nHeight b = 0 \<Longrightarrow> pprev b = None"
proof (rule ccontr)
  assume a: "index_ok m" "m p = Some b" "bi_nHeight b = 0" "pprev b \<noteq> None"
  then obtain q pb where "m q = Some pb" "bi_nHeight b = bi_nHeight pb + 1" using index_link [OF a(1,2)] by (auto simp: link_ok_def)
  then show False using index_link [OF a(1)] a(3) by (fastforce simp: link_ok_def)
qed

section \<open>Setting the tip\<close>

lemma links_take:
  assumes "links_ok m vs"
  shows "links_ok m (take n vs)"
  unfolding links_ok_def
proof (intro allI impI)
  fix k p
  assume "k < length (take n vs) \<and> take n vs ! k = Some p"
  then have k: "k < length vs" "vs ! k = Some p" "k < n" by auto
  show "\<exists>b. m p = Some b \<and> bi_nHeight b = int k \<and> (0 < k \<longrightarrow> take n vs ! (k - 1) = pprev b)"
    by (rule links_at [OF assms k(1,2)]) (use k(3) in auto)
qed

lemma set_tip_loop_up:
  assumes "index_ok m" and "m p = Some b" and "bi_nHeight b = int h" and "h < length vs" and "links_ok m (take (Suc h) vs)"
  shows "\<exists>ws. set_tip_loop m vs (Some p) = Some (Inr ws) \<and> length ws = length vs \<and> (\<forall>k \<le> h. ws ! k = up m (h - k) p) \<and> (\<forall>k < length vs. h < k \<longrightarrow> ws ! k = vs ! k)"
  using assms(2-5)
proof (induction h arbitrary: p b vs)
  case (0 p b vs)
  have pv: "pprev b = None" using height_zero [OF assms(1) "0.prems"(1)] "0.prems"(2) by simp
  show ?case
  proof (cases "vs ! 0 = Some p")
    case True
    then show ?thesis using "0.prems" by (subst set_tip_loop.simps) simp
  next
    case False
    have "set_tip_loop m vs (Some p) = Some (Inr (vs[0 := Some p]))"
      using "0.prems" False pv by (subst set_tip_loop.simps) (simp, subst set_tip_loop.simps, simp)
    then show ?thesis using "0.prems" by simp
  qed
next
  case (Suc h p b vs)
  obtain q pb where q: "pprev b = Some q" "m q = Some pb" "bi_nHeight pb = int h" by (rule index_step [OF assms(1) Suc.prems(1)]) (use Suc.prems(2) in auto)
  show ?case
  proof (cases "vs ! Suc h = Some p")
    case True
    have "(take (Suc (Suc h)) vs) ! k = up m (Suc h - k) p" if "k \<le> Suc h" for k
      by (rule links_up [OF assms(1) Suc.prems(4)]) (use True Suc.prems(3) that in auto)
    then show ?thesis using Suc.prems True by (subst set_tip_loop.simps) auto
  next
    case False
    let ?vs = "vs[Suc h := Some p]"
    have step: "set_tip_loop m vs (Some p) = set_tip_loop m ?vs (Some q)" using Suc.prems False q(1) by (subst set_tip_loop.simps) (simp add: nat_add_distrib)
    have "links_ok m (take (Suc h) ?vs)" using links_take [OF Suc.prems(4), of "Suc h"] by simp
    then obtain ws where ws: "set_tip_loop m ?vs (Some q) = Some (Inr ws)" "length ws = length ?vs" "\<forall>k \<le> h. ws ! k = up m (h - k) q" "\<forall>k < length ?vs. h < k \<longrightarrow> ws ! k = ?vs ! k"
      using Suc.IH [OF q(2,3), of ?vs] Suc.prems(3) by auto
    have "ws ! k = up m (Suc h - k) p" if "k \<le> Suc h" for k
      using that ws(3,4) Suc.prems(1,3) q(1) by (cases "k = Suc h") (simp_all add: Suc_diff_le)
    then show ?thesis using step ws Suc.prems(3) by auto
  qed
qed

lemma links_resize: "links_ok m vs \<Longrightarrow> links_ok m (vector_resize vs n)"
  unfolding links_ok_def
proof (intro allI impI)
  fix k p
  assume l: "\<forall>k p. k < length vs \<and> vs ! k = Some p \<longrightarrow> (\<exists>b. m p = Some b \<and> bi_nHeight b = int k \<and> (0 < k \<longrightarrow> vs ! (k - 1) = pprev b))"
    and k: "k < length (vector_resize vs n) \<and> vector_resize vs n ! k = Some p"
  then have "k < length vs" "k < n" by (auto simp: vector_resize_def nth_append split: if_splits)
  then have "vs ! k = Some p" "0 < k \<longrightarrow> vector_resize vs n ! (k - 1) = vs ! (k - 1)" using k by (auto simp: vector_resize_def nth_append)
  then show "\<exists>b. m p = Some b \<and> bi_nHeight b = int k \<and> (0 < k \<longrightarrow> vector_resize vs n ! (k - 1) = pprev b)" using l \<open>k < length vs\<close> by fastforce
qed

definition path :: "BlockMap \<Rightarrow> uint256 \<Rightarrow> nat \<Rightarrow> uint256 option list" where
  "path m p h = map (\<lambda>k. up m (h - k) p) [0..<Suc h]"

lemma SetTip_path:
  assumes "index_ok m" and "links_ok m vs" and "m p = Some b"
  shows "CChain_SetTip m vs (Some p) = Some (Inr (path m p (nat (bi_nHeight b))))"
proof -
  define h where "h = nat (bi_nHeight b)"
  have h: "bi_nHeight b = int h" using index_link [OF assms(1,3)] by (simp add: link_ok_def h_def)
  let ?vs = "vector_resize vs (Suc h)"
  have l: "length ?vs = Suc h" by (simp add: vector_resize_def)
  then have "links_ok m (take (Suc h) ?vs)" using links_resize [OF assms(2)] by simp
  then obtain ws where ws: "set_tip_loop m ?vs (Some p) = Some (Inr ws)" "length ws = Suc h" "\<forall>k \<le> h. ws ! k = up m (h - k) p"
    using set_tip_loop_up [OF assms(1,3) h, of ?vs] l by auto
  then have "ws = path m p h" by (intro nth_equalityI) (simp_all add: path_def del: upt_Suc)
  then show ?thesis using ws(1) assms(3) h by (simp add: CChain_SetTip_def deref_def nat_add_distrib)
qed

lemma path_chain_ok:
  assumes "index_ok m" and "m p = Some b" and "bi_nHeight b = int h"
  shows "chain_ok m (path m p h)"
proof -
  have at: "\<exists>q c. path m p h ! k = Some q \<and> m q = Some c \<and> bi_nHeight c = int k \<and> (0 < k \<longrightarrow> path m p h ! (k - 1) = pprev c)" if k: "k \<le> h" for k
  proof -
    obtain q c where q: "up m (h - k) p = Some q" "m q = Some c" "bi_nHeight c = int k" using up_exists [OF assms(1,2), of "h - k"] assms(3) k by (auto simp: of_nat_diff)
    have "up m (h - (k - 1)) p = pprev c" if "0 < k"
    proof -
      have "h - (k - 1) = (h - k) + 1" using that k by simp
      then have "up m (h - (k - 1)) p = up m 1 q" by (simp only: up_add q(1) option.case)
      then show ?thesis using q(2) by (simp split: option.splits)
    qed
    then show ?thesis using q k by (auto simp: path_def simp del: upt_Suc)
  qed
  have "length (path m p h) = Suc h" by (simp add: path_def)
  then have l: "k < length (path m p h) \<Longrightarrow> k \<le> h" for k by simp
  have "links_ok m (path m p h)" unfolding links_ok_def
  proof (intro allI impI)
    fix k q
    assume "k < length (path m p h) \<and> path m p h ! k = Some q"
    then show "\<exists>b. m q = Some b \<and> bi_nHeight b = int k \<and> (0 < k \<longrightarrow> path m p h ! (k - 1) = pprev b)" using at [OF l [of k]] by auto
  qed
  moreover have "None \<notin> set (path m p h)" using at [OF l] by (fastforce simp: in_set_conv_nth)
  ultimately show ?thesis by (simp add: chain_ok_def)
qed

section \<open>The fork\<close>

lemma up_lower: "index_ok m \<Longrightarrow> m p = Some b \<Longrightarrow> up m n p = Some q \<Longrightarrow> \<exists>c. m q = Some c \<and> bi_nHeight c = bi_nHeight b - int n"
proof (induction n arbitrary: p b)
  case (Suc n)
  then obtain r where r: "pprev b = Some r" "up m n r = Some q" by (auto split: option.splits)
  then obtain rb where "m r = Some rb" "bi_nHeight b = bi_nHeight rb + 1" using index_link [OF Suc.prems(1,2)] by (auto simp: link_ok_def)
  then show ?case using Suc.IH [OF Suc.prems(1) _ r(2)] by auto
qed simp

text \<open>The last block of the chain among a block and its ancestors.\<close>

definition last_common :: "BlockMap \<Rightarrow> uint256 option list \<Rightarrow> uint256 \<Rightarrow> uint256 option \<Rightarrow> bool" where
  "last_common m vs p r \<longleftrightarrow> (case r of None \<Rightarrow> \<forall>n q. up m n p = Some q \<longrightarrow> Some q \<notin> set vs
     | Some q \<Rightarrow> Some q \<in> set vs \<and> (\<exists>n. up m n p = Some q \<and> (\<forall>k q'. up m k p = Some q' \<and> Some q' \<in> set vs \<longrightarrow> n \<le> k)))"

lemma chain_member:
  assumes "links_ok m vs" and "m p = Some b"
  shows "Some p \<in> set vs \<longleftrightarrow> CChain_at vs (bi_nHeight b) = Some p"
proof
  assume "Some p \<in> set vs"
  then obtain k where k: "k < length vs" "vs ! k = Some p" by (auto simp: in_set_conv_nth)
  obtain c where "m p = Some c" "bi_nHeight c = int k" by (rule links_at [OF assms(1) k])
  then have "bi_nHeight b = int k" using assms(2) by simp
  then show "CChain_at vs (bi_nHeight b) = Some p" using k by (simp add: chain_at)
next
  assume "CChain_at vs (bi_nHeight b) = Some p"
  then have "vs ! nat (bi_nHeight b) = Some p" "nat (bi_nHeight b) < length vs" by (auto simp: CChain_at_def chain_height split: if_splits)
  then show "Some p \<in> set vs" by (metis nth_mem)
qed

lemma last_common_step:
  assumes "m p = Some b" and "Some p \<notin> set vs" and "case pprev b of None \<Rightarrow> r = None | Some q \<Rightarrow> last_common m vs q r"
  shows "last_common m vs p r"
proof -
  have up: "up m k p = Some q' \<longleftrightarrow> (k = 0 \<and> q' = p) \<or> (\<exists>j q. k = Suc j \<and> pprev b = Some q \<and> up m j q = Some q')" for k q'
    using assms(1) by (cases k) (auto split: option.splits)
  show ?thesis
  proof (cases "pprev b")
    case None
    then show ?thesis using assms(2,3) up by (auto simp: last_common_def)
  next
    case (Some q)
    show ?thesis
    proof (cases r)
      case None
      then show ?thesis using assms(2,3) up Some by (auto simp: last_common_def)
    next
      case r: (Some s)
      then obtain n where n: "Some s \<in> set vs" "up m n q = Some s" "\<And>k q'. up m k q = Some q' \<Longrightarrow> Some q' \<in> set vs \<Longrightarrow> n \<le> k" using assms(3) Some by (auto simp: last_common_def)
      have "Suc n \<le> k" if "up m k p = Some q'" "Some q' \<in> set vs" for k q' using that assms(2) n(3) up Some by auto
      moreover have "up m (Suc n) p = Some s" using up Some n(2) by blast
      ultimately have "\<exists>n. up m n p = Some s \<and> (\<forall>k q'. up m k p = Some q' \<and> Some q' \<in> set vs \<longrightarrow> n \<le> k)" by blast
      then show ?thesis using r n(1) by (simp only: last_common_def option.case)
    qed
  qed
qed

lemma fork_loop_last:
  assumes "index_ok m" and "links_ok m vs" and "m p = Some b" and "bi_nHeight b = int h"
  shows "\<exists>r. fork_loop m vs (Some p) = Some (Inr r) \<and> last_common m vs p r"
  using assms(3,4)
proof (induction h arbitrary: p b rule: less_induct)
  case (less h p b)
  show ?case
  proof (cases "Some p \<in> set vs")
    case True
    then have "fork_loop m vs (Some p) = Some (Inr (Some p))" using chain_member [OF assms(2) less.prems(1)] less.prems(1) by (subst fork_loop.simps) simp
    moreover have "last_common m vs p (Some p)" using True unfolding last_common_def by (auto intro: exI [of _ 0])
    ultimately show ?thesis by blast
  next
    case False
    then have step: "fork_loop m vs (Some p) = fork_loop m vs (pprev b)" using chain_member [OF assms(2) less.prems(1)] less.prems(1) by (subst fork_loop.simps) simp
    show ?thesis
    proof (cases "pprev b")
      case None
      then have "fork_loop m vs (Some p) = Some (Inr None)" unfolding step by (subst fork_loop.simps) simp
      then show ?thesis using last_common_step [of m p b vs None, OF less.prems(1) False] None by auto
    next
      case (Some q)
      then obtain pb where pb: "m q = Some pb" "bi_nHeight b = bi_nHeight pb + 1" using index_link [OF assms(1) less.prems(1)] by (auto simp: link_ok_def)
      then have "0 \<le> bi_nHeight pb" using index_link [OF assms(1)] by (auto simp: link_ok_def)
      then have "bi_nHeight pb = int (h - 1)" "h - 1 < h" using pb(2) less.prems(2) by auto
      then obtain r where "fork_loop m vs (Some q) = Some (Inr r)" "last_common m vs q r" using less.IH [OF _ pb(1)] by blast
      then show ?thesis using step Some last_common_step [of m p b vs r, OF less.prems(1) False] by auto
    qed
  qed
qed

lemma last_common_skip:
  assumes "up m n p = Some q" and "\<And>k q'. k < n \<Longrightarrow> up m k p = Some q' \<Longrightarrow> Some q' \<notin> set vs" and "last_common m vs q r"
  shows "last_common m vs p r"
  using assms
proof (induction n arbitrary: p)
  case (Suc n)
  then obtain b s where b: "m p = Some b" "pprev b = Some s" "up m n s = Some q" by (auto split: option.splits)
  have "Some p \<notin> set vs" using Suc.prems(2) [of 0 p] by simp
  moreover have "last_common m vs s r"
  proof (rule Suc.IH [OF b(3) _ Suc.prems(3)])
    show "Some q' \<notin> set vs" if "k < n" "up m k s = Some q'" for k q' using Suc.prems(2) [of "Suc k" q'] that b by simp
  qed
  ultimately show ?case using last_common_step [of m p b vs r, OF b(1)] b(2) by simp
qed simp

lemma FindFork_last:
  assumes "index_ok m" and "links_ok m vs" and "m p = Some b"
  shows "\<exists>r. CChain_FindFork m vs p = Some (Inr r) \<and> last_common m vs p r"
proof -
  have h0: "0 \<le> bi_nHeight b" using index_link [OF assms(1,3)] by (simp add: link_ok_def)
  show ?thesis
  proof (cases "bi_nHeight b > CChain_Height vs")
    case False
    obtain r where "fork_loop m vs (Some p) = Some (Inr r)" "last_common m vs p r"
      using fork_loop_last [OF assms, of "nat (bi_nHeight b)"] h0 by auto
    then show ?thesis using False assms(3) by (auto simp: CChain_FindFork_def deref_def)
  next
    case True
    show ?thesis
    proof (cases "vs = []")
      case empty: True
      then have "CChain_FindFork m vs p = fork_loop m vs None" using True assms(3) GetAncestor_up [OF assms(1,3)] by (simp add: CChain_FindFork_def deref_def chain_height)
      also have "\<dots> = Some (Inr None)" by (subst fork_loop.simps) simp
      finally show ?thesis using empty by (auto simp: last_common_def)
    next
      case False
      let ?n = "nat (bi_nHeight b - CChain_Height vs)"
      have H: "0 \<le> CChain_Height vs" using False by (cases vs) (simp_all add: chain_height)
      obtain q c where q: "up m ?n p = Some q" "m q = Some c" "bi_nHeight c = CChain_Height vs" using up_exists [OF assms(1,3), of ?n] True H by auto
      then obtain r where r: "fork_loop m vs (Some q) = Some (Inr r)" "last_common m vs q r" using fork_loop_last [OF assms(1,2) q(2), of "nat (CChain_Height vs)"] H by auto
      have "Some q' \<notin> set vs" if "k < ?n" "up m k p = Some q'" for k q'
      proof -
        note u = up_lower [OF assms(1,3) that(2)]
        then obtain c' where c': "m q' = Some c'" "bi_nHeight c' = bi_nHeight b - int k" by auto
        then have "CChain_Height vs < bi_nHeight c'" using that(1) by linarith
        then have "CChain_at vs (bi_nHeight c') = None" by (simp add: CChain_at_def)
        then show ?thesis using chain_member [OF assms(2) c'(1)] by simp
      qed
      then have "last_common m vs p r" using last_common_skip [OF q(1) _ r(2)] by blast
      moreover have "CChain_FindFork m vs p = fork_loop m vs (Some q)"
        using True H q(1) assms(3) GetAncestor_up [OF assms(1,3)] by (simp add: CChain_FindFork_def deref_def)
      ultimately show ?thesis using r(1) by auto
    qed
  qed
qed

section \<open>Locators\<close>

text \<open>A list of blocks, each a proper ancestor of the one before, that ends with a block without predecessor.\<close>

fun descends :: "BlockMap \<Rightarrow> uint256 list \<Rightarrow> bool" where
  "descends m [] \<longleftrightarrow> False"
| "descends m [p] \<longleftrightarrow> (\<exists>b. m p = Some b \<and> bi_nHeight b = 0)"
| "descends m (p # q # ps) \<longleftrightarrow> (\<exists>n. up m (Suc n) p = Some q) \<and> descends m (q # ps)"

lemma locator_step:
  assumes "index_ok m" and "chain_ok m vs" and "m p = Some b" and "0 < bi_nHeight b" and "1 \<le> nStep"
  defines "H \<equiv> max (bi_nHeight b - nStep) 0"
  shows "\<exists>q c n. (if CChain_at vs (bi_nHeight b) = Some p then Inr (CChain_at vs H) else GetAncestor m p H) = Inr (Some q) \<and> m q = Some c \<and> bi_nHeight c = H \<and> up m (Suc n) p = Some q"
proof -
  have H: "0 \<le> H" "H < bi_nHeight b" using assms(4,5) by (auto simp: H_def)
  define n where "n = nat (bi_nHeight b - H) - 1"
  have n: "nat (bi_nHeight b - H) = Suc n" using H by (simp add: n_def)
  have "int (Suc n) = bi_nHeight b - H" using n H by linarith
  then obtain q c where q: "up m (Suc n) p = Some q" "m q = Some c" "bi_nHeight c = H" using up_exists [OF assms(1,3), of "Suc n"] H by (auto simp del: up.simps of_nat_Suc)
  have "(if CChain_at vs (bi_nHeight b) = Some p then Inr (CChain_at vs H) else GetAncestor m p H) = Inr (Some q)"
  proof (cases "CChain_at vs (bi_nHeight b) = Some p")
    case True
    let ?h = "nat (bi_nHeight b)"
    have h: "?h < length vs" "vs ! ?h = Some p" using True by (auto simp: CChain_at_def chain_height split: if_splits)
    have "vs ! nat H = up m (?h - nat H) p" by (rule links_up [OF assms(1) _ h]) (use assms(2) H in \<open>auto simp: chain_ok_def\<close>)
    moreover have "?h - nat H = Suc n" using n H by (simp add: nat_diff_distrib)
    ultimately show ?thesis using True q(1) h(1) H by (simp add: CChain_at_def chain_height)
  next
    case False
    then show ?thesis using GetAncestor_up [OF assms(1,3), of H] H n q(1) by simp
  qed
  then show ?thesis using q by blast
qed

lemma locator_loop_descends:
  assumes "index_ok m" and "chain_ok m vs" and "m p = Some b" and "1 \<le> nStep"
  shows "\<exists>ps. locator_loop m vs vHave nStep (Some p) = Some (Inr (vHave @ p # ps)) \<and> descends m (p # ps)"
  using assms(3,4)
proof (induction "nat (bi_nHeight b)" arbitrary: p b nStep vHave rule: less_induct)
  case less
  show ?case
  proof (cases "bi_nHeight b = 0")
    case True
    then show ?thesis using less.prems(1) by (subst locator_loop.simps) simp
  next
    case False
    then have pos: "0 < bi_nHeight b" using index_link [OF assms(1) less.prems(1)] by (simp add: link_ok_def)
    obtain q c n where q: "(if CChain_at vs (bi_nHeight b) = Some p then Inr (CChain_at vs (max (bi_nHeight b - nStep) 0)) else GetAncestor m p (max (bi_nHeight b - nStep) 0)) = Inr (Some q)"
      "m q = Some c" "bi_nHeight c = max (bi_nHeight b - nStep) 0" "up m (Suc n) p = Some q" using locator_step [OF assms(1,2) less.prems(1) pos less.prems(2)] by blast
    let ?step = "if length (vHave @ [p]) > 10 then nStep * 2 else nStep"
    have "nat (bi_nHeight c) < nat (bi_nHeight b)" "1 \<le> ?step" using q(3) pos less.prems(2) by auto
    then obtain ps where ps: "locator_loop m vs (vHave @ [p]) ?step (Some q) = Some (Inr ((vHave @ [p]) @ q # ps))" "descends m (q # ps)" using less.hyps [OF _ q(2)] by blast
    have "locator_loop m vs vHave nStep (Some p) = Some (Inr (vHave @ p # q # ps))" using less.prems(1) False q(1) ps(1) by (subst locator_loop.simps) simp
    moreover have "descends m (p # q # ps)" using q(4) ps(2) by (auto simp del: up.simps)
    ultimately show ?thesis by blast
  qed
qed

section \<open>The active chain\<close>

lemma AddHeaders_index_ok: "\<forall>block \<in> set blocks. fresh_header E block \<Longrightarrow> AddHeaders E blocks = Inr t \<Longrightarrow> index_ok (mapBlockIndex t)"
  using AddHeaders_ok by (fastforce simp: tree_ok_def Let_def)

text \<open>C37: setting the tip of the active chain always stops; whatever chain was active, the new one has exactly the ancestors of the tip, one at each height, and the tip on top.\<close>

theorem active_chain_follows_tip:
  assumes "\<forall>block \<in> set blocks. fresh_header E block" and "AddHeaders E blocks = Inr t" and "chain_ok (mapBlockIndex t) vs" and "mapBlockIndex t p = Some b"
  shows "\<exists>ws. CChain_SetTip (mapBlockIndex t) vs (Some p) = Some (Inr ws) \<and> chain_ok (mapBlockIndex t) ws \<and> CChain_Height ws = bi_nHeight b \<and> CChain_Tip ws = Some p
    \<and> (\<forall>h. GetAncestor (mapBlockIndex t) p h = Inr (CChain_at ws h))"
proof -
  note ok = AddHeaders_index_ok [OF assms(1,2)]
  define h where "h = nat (bi_nHeight b)"
  have h: "bi_nHeight b = int h" using index_link [OF ok assms(4)] by (simp add: link_ok_def h_def)
  let ?ws = "path (mapBlockIndex t) p h"
  have l: "length ?ws = Suc h" by (simp add: path_def)
  have at: "?ws ! k = up (mapBlockIndex t) (h - k) p" if "k \<le> h" for k using that by (simp add: path_def del: upt_Suc)
  have "CChain_SetTip (mapBlockIndex t) vs (Some p) = Some (Inr ?ws)" using SetTip_path [OF ok _ assms(4)] assms(3) by (simp add: chain_ok_def h_def)
  moreover have "GetAncestor (mapBlockIndex t) p k = Inr (CChain_at ?ws k)" for k
    using GetAncestor_up [OF ok assms(4), of k] at [of "nat k"] by (auto simp: CChain_at_def chain_height l h nat_diff_distrib)
  moreover have "CChain_Tip ?ws = Some p" using at [of h] l by (simp add: CChain_Tip_def CChain_at_def chain_height)
  ultimately show ?thesis using path_chain_ok [OF ok assms(4) h] l h by (auto simp: chain_height)
qed

theorem active_chain_follows_tip_witness:
  "\<exists>t b ws. AddHeaders sample_index_env sample_headers = Inr t \<and> mapBlockIndex t 4 = Some b \<and> CChain_SetTip (mapBlockIndex t) [] (Some 4) = Some (Inr ws) \<and> CChain_Tip ws = Some 4"
proof -
  obtain t b where t: "AddHeaders sample_index_env sample_headers = Inr t" "mapBlockIndex t 4 = Some b" using sample_index by blast
  then show ?thesis using active_chain_follows_tip [OF sample_headers_fresh t(1) _ t(2), of "[]"] by (auto simp: chain_ok_def links_ok_def)
qed

text \<open>C38: the search for the fork always stops and gives the last block that is both in the active chain and the block itself or one of its ancestors, or none when there is no such block.\<close>

theorem fork_is_last_common_block:
  assumes "\<forall>block \<in> set blocks. fresh_header E block" and "AddHeaders E blocks = Inr t" and "chain_ok (mapBlockIndex t) vs" and "mapBlockIndex t p = Some b"
  shows "\<exists>r. CChain_FindFork (mapBlockIndex t) vs p = Some (Inr r) \<and> last_common (mapBlockIndex t) vs p r"
  using FindFork_last [OF AddHeaders_index_ok [OF assms(1,2)] _ assms(4)] assms(3) by (simp add: chain_ok_def)

theorem fork_is_last_common_block_witness:
  "\<exists>t r ws. AddHeaders sample_index_env sample_headers = Inr t \<and> CChain_SetTip (mapBlockIndex t) [] (Some 2) = Some (Inr ws)
    \<and> CChain_FindFork (mapBlockIndex t) ws 4 = Some (Inr r) \<and> last_common (mapBlockIndex t) ws 4 r"
proof -
  obtain t b c where t: "AddHeaders sample_index_env sample_headers = Inr t" "mapBlockIndex t 4 = Some b" "mapBlockIndex t 2 = Some c" using sample_index by blast
  note ok = AddHeaders_index_ok [OF sample_headers_fresh t(1)]
  have h: "bi_nHeight c = int (nat (bi_nHeight c))" using index_link [OF ok t(3)] by (simp add: link_ok_def)
  let ?ws = "path (mapBlockIndex t) 2 (nat (bi_nHeight c))"
  have "CChain_SetTip (mapBlockIndex t) [] (Some 2) = Some (Inr ?ws)" by (rule SetTip_path [OF ok _ t(3)]) (simp add: links_ok_def)
  moreover have "chain_ok (mapBlockIndex t) ?ws" by (rule path_chain_ok [OF ok t(3) h])
  ultimately show ?thesis using fork_is_last_common_block [OF sample_headers_fresh t(1) _ t(2), of ?ws] t(1) by blast
qed

text \<open>The locator of a block starts with the block, goes down from ancestor to ancestor and ends with the first block.\<close>

lemma locator_descends:
  assumes "\<forall>block \<in> set blocks. fresh_header E block" and "AddHeaders E blocks = Inr t" and "chain_ok (mapBlockIndex t) vs" and "mapBlockIndex t p = Some b"
  shows "\<exists>ps. CChain_GetLocator (mapBlockIndex t) vs (Some p) = Some (Inr (p # ps)) \<and> descends (mapBlockIndex t) (p # ps)"
  using locator_loop_descends [OF AddHeaders_index_ok [OF assms(1,2)] assms(3,4), of 1 "[]"] by (simp add: CChain_GetLocator_def)

end
