(* ===== verification/BestChain.thy ===== *)
theory BestChain
  imports ActiveChain "HOL-Library.Product_Lexorder"
begin

text \<open>
  The choice of the chain to activate (\<open>main.cpp\<close>): the order of candidates by delay, work, time of arrival and address, the set of candidates in that order,
  \<open>FindMostWorkChain\<close> and \<open>PruneBlockIndexCandidates\<close>. The address of an index is a parameter.
\<close>

unbundle bit_operations_syntax

section \<open>The order of candidates\<close>

definition CBlockIndexWorkComparator :: "nat \<times> CBlockIndex \<Rightarrow> nat \<times> CBlockIndex \<Rightarrow> bool" where
  "CBlockIndexWorkComparator = (\<lambda>(pa, a) (pb, b).
     if nChainDelay a < nChainDelay b then False
     else if nChainDelay a > nChainDelay b then True
     else if nChainWork a > nChainWork b then False
     else if nChainWork a < nChainWork b then True
     else if nSequenceId a < nSequenceId b then False
     else if nSequenceId a > nSequenceId b then True
     else if pa < pb then False
     else if pa > pb then True
     else False)"

definition CBlockIndexRealWorkComparator :: "nat \<times> CBlockIndex \<Rightarrow> nat \<times> CBlockIndex \<Rightarrow> bool" where
  "CBlockIndexRealWorkComparator = (\<lambda>(pa, a) (pb, b).
     if nChainWork a > nChainWork b then False
     else if nChainWork a < nChainWork b then True
     else if nSequenceId a < nSequenceId b then False
     else if nSequenceId a > nSequenceId b then True
     else if pa < pb then False
     else if pa > pb then True
     else False)"

text \<open>The candidates are kept from the worst to the best, as the ordered set of the code is traversed.\<close>

record Candidates =
  cs_map :: BlockMap
  cs_chain :: "uint256 option list"
  setBlockIndexCandidates :: "uint256 list"
  mapBlocksUnlinked :: "(uint256 option \<times> uint256) list"
  pindexBestInvalid :: "uint256 option"

section \<open>The best usable candidate\<close>

text \<open>The walk from a candidate down to the active chain: the first block that failed or has no data, with the two flags, or none.\<close>

partial_function (option) test_loop :: "BlockMap \<Rightarrow> uint256 option list \<Rightarrow> uint256 option \<Rightarrow> (uint256 \<times> bool \<times> bool) option result option" where
  "test_loop m vs pindexTest =
     (case pindexTest of None \<Rightarrow> Some (Inr None)
      | Some p \<Rightarrow> (case m p of None \<Rightarrow> Some (Inl Undefined)
        | Some b \<Rightarrow>
            if CChain_at vs (bi_nHeight b) = Some p then Some (Inr None)
            else if \<not> (nChainTx b \<noteq> 0 \<or> bi_nHeight b = 0) then Some (Inl Assert)
            else if nStatus b AND BLOCK_FAILED_MASK \<noteq> 0 \<or> nStatus b AND BLOCK_HAVE_DATA = 0
              then Some (Inr (Some (p, nStatus b AND BLOCK_FAILED_MASK \<noteq> 0, nStatus b AND BLOCK_HAVE_DATA = 0)))
            else test_loop m vs (pprev b)))"

definition erase_candidate :: "uint256 \<Rightarrow> Candidates \<Rightarrow> Candidates" where
  "erase_candidate p s = s\<lparr>setBlockIndexCandidates := filter (\<lambda>q. q \<noteq> p) (setBlockIndexCandidates s)\<rparr>"

partial_function (option) remove_loop :: "uint256 \<Rightarrow> bool \<Rightarrow> bool \<Rightarrow> uint256 option \<Rightarrow> Candidates \<Rightarrow> Candidates result option" where
  "remove_loop pindexTest fFailedChain fMissingData pindexFailed s =
     (case pindexFailed of None \<Rightarrow> Some (Inl Undefined)
      | Some p \<Rightarrow>
          if p = pindexTest then Some (Inr s)
          else (case cs_map s p of None \<Rightarrow> Some (Inl Undefined)
            | Some b \<Rightarrow>
                remove_loop pindexTest fFailedChain fMissingData (pprev b)
                  (erase_candidate p
                    (if fFailedChain then s\<lparr>cs_map := (cs_map s)(p \<mapsto> b\<lparr>nStatus := nStatus b OR BLOCK_FAILED_CHILD\<rparr>)\<rparr>
                     else if fMissingData then s\<lparr>mapBlocksUnlinked := mapBlocksUnlinked s @ [(pprev b, p)]\<rparr>
                     else s))))"

definition mark_best_invalid :: "bool \<Rightarrow> uint256 \<Rightarrow> Candidates \<Rightarrow> Candidates result" where
  "mark_best_invalid fFailedChain pindexNew s =
     (if \<not> fFailedChain then Inr s
      else case pindexBestInvalid s of None \<Rightarrow> Inr (s\<lparr>pindexBestInvalid := Some pindexNew\<rparr>)
      | Some q \<Rightarrow> bindR (deref (cs_map s) pindexNew) (\<lambda>b. bindR (deref (cs_map s) q) (\<lambda>c.
          Inr (if nChainWork b > nChainWork c then s\<lparr>pindexBestInvalid := Some pindexNew\<rparr> else s))))"

partial_function (option) FindMostWorkChain :: "Candidates \<Rightarrow> (uint256 option \<times> Candidates) result option" where
  "FindMostWorkChain s =
     (if setBlockIndexCandidates s = [] then Some (Inr (None, s))
      else Option.bind (test_loop (cs_map s) (cs_chain s) (Some (last (setBlockIndexCandidates s)))) (\<lambda>t.
        case t of Inl e \<Rightarrow> Some (Inl e)
        | Inr None \<Rightarrow> Some (Inr (Some (last (setBlockIndexCandidates s)), s))
        | Inr (Some (pindexTest, fFailedChain, fMissingData)) \<Rightarrow>
            (case mark_best_invalid fFailedChain (last (setBlockIndexCandidates s)) s of Inl e \<Rightarrow> Some (Inl e)
             | Inr s1 \<Rightarrow> Option.bind (remove_loop pindexTest fFailedChain fMissingData (Some (last (setBlockIndexCandidates s))) s1) (\<lambda>r.
                 case r of Inl e \<Rightarrow> Some (Inl e)
                 | Inr s2 \<Rightarrow> FindMostWorkChain (erase_candidate pindexTest s2)))))"

definition PruneBlockIndexCandidates :: "(uint256 \<Rightarrow> nat) \<Rightarrow> Candidates \<Rightarrow> Candidates result" where
  "PruneBlockIndexCandidates addr s =
     (case CChain_Tip (cs_chain s) of None \<Rightarrow> Inl Undefined
      | Some tip \<Rightarrow>
          bindR (deref (cs_map s) tip) (\<lambda>tb.
          let left = dropWhile (\<lambda>p. CBlockIndexWorkComparator (addr p, the (cs_map s p)) (addr tip, tb)) (setBlockIndexCandidates s) in
          if left = [] then Inl Assert else Inr (s\<lparr>setBlockIndexCandidates := left\<rparr>)))"

section \<open>The order is linear\<close>

definition work_key :: "nat \<times> CBlockIndex \<Rightarrow> int \<times> nat \<times> int \<times> int" where
  "work_key = (\<lambda>(p, b). (- nChainDelay b, unat (nChainWork b), - int (nSequenceId b), - int p))"

lemma comparator_key: "CBlockIndexWorkComparator x y \<longleftrightarrow> work_key x < work_key y"
  by (cases x; cases y) (auto simp: CBlockIndexWorkComparator_def work_key_def less_prod_simp word_less_nat_alt word_unat_eq_iff)

section \<open>Usable candidates\<close>

definition usable :: "CBlockIndex \<Rightarrow> bool" where
  "usable b \<longleftrightarrow> nStatus b AND BLOCK_FAILED_MASK = 0 \<and> nStatus b AND BLOCK_HAVE_DATA \<noteq> 0"

text \<open>A block from which every block down to the active chain has data and has not failed.\<close>

inductive clean :: "BlockMap \<Rightarrow> uint256 option list \<Rightarrow> uint256 \<Rightarrow> bool" for m vs where
  in_chain: "m p = Some b \<Longrightarrow> CChain_at vs (bi_nHeight b) = Some p \<Longrightarrow> clean m vs p"
| first_block: "m p = Some b \<Longrightarrow> usable b \<Longrightarrow> pprev b = None \<Longrightarrow> clean m vs p"
| on_clean: "m p = Some b \<Longrightarrow> usable b \<Longrightarrow> pprev b = Some q \<Longrightarrow> clean m vs q \<Longrightarrow> clean m vs p"

text \<open>The blocks that are met on the way from a block to the active chain.\<close>

inductive leads :: "BlockMap \<Rightarrow> uint256 option list \<Rightarrow> uint256 \<Rightarrow> uint256 \<Rightarrow> bool" for m vs where
  leads_here: "m p = Some b \<Longrightarrow> CChain_at vs (bi_nHeight b) \<noteq> Some p \<Longrightarrow> leads m vs p p"
| leads_up: "m p = Some b \<Longrightarrow> CChain_at vs (bi_nHeight b) \<noteq> Some p \<Longrightarrow> pprev b = Some q \<Longrightarrow> leads m vs q x \<Longrightarrow> leads m vs p x"

inductive_cases cleanE: "clean m vs p"
inductive_cases leadsE: "leads m vs p x"

lemma leads_first: "leads m vs p x \<Longrightarrow> \<exists>b. m p = Some b \<and> CChain_at vs (bi_nHeight b) \<noteq> Some p"
  by (erule leadsE) auto

lemma leads_to_bad:
  assumes "leads m vs p x" and "m x = Some c" and "\<not> usable c"
  shows "\<not> clean m vs p"
  using assms
proof (induction rule: leads.induct)
  case (leads_here p b)
  then show ?case by (auto elim: cleanE)
next
  case (leads_up p b q x)
  show ?case
  proof
    assume "clean m vs p"
    then show False using leads_up by (auto elim: cleanE)
  qed
qed

definition txs_ok :: "BlockMap \<Rightarrow> uint256 option list \<Rightarrow> uint256 \<Rightarrow> bool" where
  "txs_ok m vs p \<longleftrightarrow> (\<forall>q c. leads m vs p q \<and> m q = Some c \<longrightarrow> nChainTx c \<noteq> 0 \<or> bi_nHeight c = 0)"

lemma test_loop_result:
  assumes "index_ok m" and "m p = Some b" and "txs_ok m vs p"
  shows "test_loop m vs (Some p) = Some (Inr None) \<and> clean m vs p
    \<or> (\<exists>x c. test_loop m vs (Some p) = Some (Inr (Some (x, nStatus c AND BLOCK_FAILED_MASK \<noteq> 0, nStatus c AND BLOCK_HAVE_DATA = 0))) \<and> leads m vs p x \<and> m x = Some c \<and> \<not> usable c)"
  using assms(2,3)
proof (induction "nat (bi_nHeight b)" arbitrary: p b rule: less_induct)
  case less
  show ?case
  proof (cases "CChain_at vs (bi_nHeight b) = Some p")
    case True
    then have "test_loop m vs (Some p) = Some (Inr None)" using less.prems(1) by (subst test_loop.simps) simp
    then show ?thesis using clean.in_chain [of m p b vs, OF less.prems(1) True] by simp
  next
    case False
    have here: "leads m vs p p" using less.prems(1) False by (rule leads_here)
    then have tx: "nChainTx b \<noteq> 0 \<or> bi_nHeight b = 0" using less.prems by (auto simp: txs_ok_def)
    show ?thesis
    proof (cases "usable b")
      case bad: False
      then have "test_loop m vs (Some p) = Some (Inr (Some (p, nStatus b AND BLOCK_FAILED_MASK \<noteq> 0, nStatus b AND BLOCK_HAVE_DATA = 0)))"
        using less.prems(1) False tx by (subst test_loop.simps) (auto simp: usable_def)
      then show ?thesis using here less.prems(1) bad by blast
    next
      case good: True
      then have step: "test_loop m vs (Some p) = test_loop m vs (pprev b)" using less.prems(1) False tx by (subst test_loop.simps) (auto simp: usable_def)
      show ?thesis
      proof (cases "pprev b")
        case None
        then have "test_loop m vs (Some p) = Some (Inr None)" unfolding step by (subst test_loop.simps) simp
        then show ?thesis using clean.first_block [of m p b vs, OF less.prems(1) good None] by simp
      next
        case (Some q)
        obtain pb where pb: "m q = Some pb" "bi_nHeight b = bi_nHeight pb + 1" using index_link [OF assms(1) less.prems(1)] Some by (auto simp: link_ok_def)
        have "0 \<le> bi_nHeight pb" using index_link [OF assms(1) pb(1)] by (simp add: link_ok_def)
        then have "nat (bi_nHeight pb) < nat (bi_nHeight b)" using pb(2) by simp
        moreover have up: "leads m vs p x" if "leads m vs q x" for x using leads.leads_up [of m p b vs q x, OF less.prems(1) False Some that] .
        then have "txs_ok m vs q" using less.prems(2) by (auto simp: txs_ok_def)
        ultimately show ?thesis using less.hyps [OF _ pb(1)] clean.on_clean [of m p b q vs, OF less.prems(1) good Some] up step Some by auto
      qed
    qed
  qed
qed

section \<open>Removing a chain of candidates\<close>

text \<open>The index after blocks that lead to \<open>x\<close> have been marked as descendants of a failed block.\<close>

definition marked :: "BlockMap \<Rightarrow> uint256 option list \<Rightarrow> uint256 \<Rightarrow> BlockMap \<Rightarrow> bool" where
  "marked m vs x m' \<longleftrightarrow> (\<forall>q. m q = None \<and> m' q = None
     \<or> (\<exists>b s. m q = Some b \<and> m' q = Some (b\<lparr>nStatus := s\<rparr>) \<and> (s = nStatus b \<or> leads m vs q x \<and> s = nStatus b OR BLOCK_FAILED_CHILD)))"

lemma marked_refl: "marked m vs x m"
  unfolding marked_def
proof
  fix q
  show "m q = None \<and> m q = None \<or> (\<exists>b s. m q = Some b \<and> m q = Some (b\<lparr>nStatus := s\<rparr>) \<and> (s = nStatus b \<or> leads m vs q x \<and> s = nStatus b OR BLOCK_FAILED_CHILD))"
    by (cases "m q") (auto intro!: exI)
qed

lemma markedD:
  assumes "marked m vs x m'"
  shows "m q = None \<and> m' q = None \<or> (\<exists>b s. m q = Some b \<and> m' q = Some (b\<lparr>nStatus := s\<rparr>) \<and> (s = nStatus b \<or> leads m vs q x \<and> s = nStatus b OR BLOCK_FAILED_CHILD))"
  using assms unfolding marked_def by blast

lemma marked_at:
  assumes "marked m vs x m'" and "m q = Some b"
  shows "\<exists>s. m' q = Some (b\<lparr>nStatus := s\<rparr>) \<and> (s = nStatus b \<or> leads m vs q x \<and> s = nStatus b OR BLOCK_FAILED_CHILD)"
  using markedD [OF assms(1), of q] assms(2) by auto

lemma marked_at': "marked m vs x m' \<Longrightarrow> m' q = Some b' \<Longrightarrow> \<exists>b s. m q = Some b \<and> b' = b\<lparr>nStatus := s\<rparr> \<and> (s = nStatus b \<or> leads m vs q x \<and> s = nStatus b OR BLOCK_FAILED_CHILD)"
  using markedD [of m vs x m' q] by auto

lemma marked_mark:
  assumes "marked m vs x m'" and "leads m vs p x" and "m' p = Some b'"
  shows "marked m vs x (m'(p \<mapsto> b'\<lparr>nStatus := nStatus b' OR BLOCK_FAILED_CHILD\<rparr>))"
  unfolding marked_def
proof
  fix q
  let ?m = "m'(p \<mapsto> b'\<lparr>nStatus := nStatus b' OR BLOCK_FAILED_CHILD\<rparr>)"
  show "m q = None \<and> ?m q = None \<or> (\<exists>b s. m q = Some b \<and> ?m q = Some (b\<lparr>nStatus := s\<rparr>) \<and> (s = nStatus b \<or> leads m vs q x \<and> s = nStatus b OR BLOCK_FAILED_CHILD))"
  proof (cases "q = p")
    case True
    obtain b s where b: "m p = Some b" "b' = b\<lparr>nStatus := s\<rparr>" "s = nStatus b \<or> s = nStatus b OR BLOCK_FAILED_CHILD" using marked_at' [OF assms(1,3)] by blast
    then have "nStatus b' OR BLOCK_FAILED_CHILD = nStatus b OR BLOCK_FAILED_CHILD" by (auto simp: or.assoc)
    then show ?thesis using True b(1,2) assms(2) by auto
  next
    case False
    then show ?thesis using markedD [OF assms(1), of q] by simp
  qed
qed

lemma erase_sel [simp]: "cs_map (erase_candidate p s) = cs_map s" "cs_chain (erase_candidate p s) = cs_chain s" "pindexBestInvalid (erase_candidate p s) = pindexBestInvalid s"
  "setBlockIndexCandidates (erase_candidate p s) = filter (\<lambda>q. q \<noteq> p) (setBlockIndexCandidates s)"
  by (simp_all add: erase_candidate_def)

lemma remove_loop_result:
  assumes "leads m vs p x" and "marked m vs x (cs_map s)"
  shows "\<exists>s' P. remove_loop x f g (Some p) s = Some (Inr s') \<and> marked m vs x (cs_map s') \<and> cs_chain s' = cs_chain s \<and> pindexBestInvalid s' = pindexBestInvalid s
    \<and> (\<forall>q \<in> P. leads m vs q x) \<and> setBlockIndexCandidates s' = filter (\<lambda>q. q \<notin> P) (setBlockIndexCandidates s) \<and> (p = x \<or> p \<in> P)"
  using assms
proof (induction arbitrary: s rule: leads.induct)
  case (leads_here p b)
  have "remove_loop p f g (Some p) s = Some (Inr s)" by (subst remove_loop.simps) simp
  then show ?case using leads_here by (intro exI [of _ s] exI [of _ "{}"]) simp
next
  case (leads_up p b q x)
  show ?case
  proof (cases "p = x")
    case True
    have "remove_loop x f g (Some p) s = Some (Inr s)" using True by (subst remove_loop.simps) simp
    then show ?thesis using leads_up.prems True by (intro exI [of _ s] exI [of _ "{}"]) simp
  next
    case False
    have l: "leads m vs p x" using leads.leads_up [of m p b vs q x] leads_up.hyps by simp
    obtain st where b': "cs_map s p = Some (b\<lparr>nStatus := st\<rparr>)" using marked_at [OF leads_up.prems] leads_up.hyps(1) by blast
    let ?b = "b\<lparr>nStatus := st\<rparr>"
    define s1 where "s1 = erase_candidate p (if f then s\<lparr>cs_map := (cs_map s)(p \<mapsto> ?b\<lparr>nStatus := nStatus ?b OR BLOCK_FAILED_CHILD\<rparr>)\<rparr>
       else if g then s\<lparr>mapBlocksUnlinked := mapBlocksUnlinked s @ [(pprev ?b, p)]\<rparr> else s)"
    have step: "remove_loop x f g (Some p) s = remove_loop x f g (Some q) s1" using False b' leads_up.hyps(3) by (subst remove_loop.simps) (simp add: s1_def)
    have "marked m vs x (cs_map s1)" using leads_up.prems marked_mark [OF leads_up.prems l b'] by (simp add: s1_def)
    then obtain s' P where s': "remove_loop x f g (Some q) s1 = Some (Inr s')" "marked m vs x (cs_map s')" "cs_chain s' = cs_chain s1" "pindexBestInvalid s' = pindexBestInvalid s1"
      "\<forall>r \<in> P. leads m vs r x" "setBlockIndexCandidates s' = filter (\<lambda>r. r \<notin> P) (setBlockIndexCandidates s1)" using leads_up.IH by blast
    have "setBlockIndexCandidates s' = filter (\<lambda>r. r \<notin> insert p P) (setBlockIndexCandidates s)" unfolding s'(6) s1_def by (auto intro: filter_cong)
    then show ?thesis using s' l step by (intro exI [of _ s'] exI [of _ "insert p P"]) (simp add: s1_def)
  qed
qed

text \<open>Two indexes that differ in the status of blocks only.\<close>

definition same_links :: "BlockMap \<Rightarrow> BlockMap \<Rightarrow> bool" where
  "same_links m m' \<longleftrightarrow> (\<forall>q. map_option (\<lambda>b. b\<lparr>nStatus := 0\<rparr>) (m q) = map_option (\<lambda>b. b\<lparr>nStatus := 0\<rparr>) (m' q))"

lemma same_links_sym: "same_links m m' \<Longrightarrow> same_links m' m"
  by (simp add: same_links_def)

lemma same_links_at:
  assumes "same_links m m'" and "m q = Some b"
  shows "\<exists>s. m' q = Some (b\<lparr>nStatus := s\<rparr>)"
proof -
  have "map_option (\<lambda>b. b\<lparr>nStatus := 0\<rparr>) (m' q) = Some (b\<lparr>nStatus := 0\<rparr>)" using assms unfolding same_links_def by (metis option.simps(9))
  then obtain b' where b': "m' q = Some b'" "b'\<lparr>nStatus := 0\<rparr> = b\<lparr>nStatus := 0\<rparr>" by auto
  then have "b' = b\<lparr>nStatus := nStatus b'\<rparr>" by (cases b; cases b') simp
  then show ?thesis using b'(1) by metis
qed

lemma same_links_up: "same_links m m' \<Longrightarrow> up m' n p = up m n p"
proof (induction n arbitrary: p)
  case (Suc n)
  show ?case
  proof (cases "m p")
    case None
    then have "m' p = None" using same_links_at [OF same_links_sym [OF Suc.prems], of p] by (cases "m' p") auto
    then show ?thesis using None by simp
  next
    case (Some b)
    then show ?thesis using same_links_at [OF Suc.prems Some] Suc by (auto split: option.splits)
  qed
qed simp

lemma same_links_index_ok:
  assumes "same_links m m'" and "index_ok m"
  shows "index_ok m'"
  unfolding index_ok_def
proof (intro allI impI)
  fix p b'
  assume "m' p = Some b'"
  then obtain s where b: "m p = Some (b'\<lparr>nStatus := s\<rparr>)" using same_links_at [OF same_links_sym [OF assms(1)]] by blast
  then have "link_ok m p (b'\<lparr>nStatus := s\<rparr>)" by (rule index_link [OF assms(2)])
  moreover have "\<exists>c'. m' q = Some c' \<and> bi_nHeight c' = bi_nHeight c" if "m q = Some c" for q c using same_links_at [OF assms(1) that] by auto
  ultimately show "link_ok m' p b'" by (fastforce simp: link_ok_def same_links_up [OF assms(1)] split: option.splits)
qed

lemma same_links_leads:
  assumes "same_links m m'" and "leads m vs p q"
  shows "leads m' vs p q"
  using assms(2)
proof (induction rule: leads.induct)
  case (leads_here p b)
  then show ?case using same_links_at [OF assms(1) leads_here(1)] by (auto intro: leads.leads_here)
next
  case (leads_up p b q x)
  then show ?case using same_links_at [OF assms(1) leads_up(1)] by (auto intro: leads.leads_up)
qed

lemma same_links_txs_ok:
  assumes "same_links m m'" and "txs_ok m vs p"
  shows "txs_ok m' vs p"
  unfolding txs_ok_def
proof (intro allI impI)
  fix q c
  assume a: "leads m' vs p q \<and> m' q = Some c"
  then have l: "leads m vs p q" using same_links_leads [OF same_links_sym [OF assms(1)]] by blast
  obtain s where "m q = Some (c\<lparr>nStatus := s\<rparr>)" using same_links_at [OF same_links_sym [OF assms(1)]] a by blast
  then show "nChainTx c \<noteq> 0 \<or> bi_nHeight c = 0" using assms(2) l by (fastforce simp: txs_ok_def)
qed

lemma marked_same_links: "marked m vs x m' \<Longrightarrow> same_links m m'"
  unfolding same_links_def
proof
  fix q
  assume "marked m vs x m'"
  then show "map_option (\<lambda>b. b\<lparr>nStatus := 0\<rparr>) (m q) = map_option (\<lambda>b. b\<lparr>nStatus := 0\<rparr>) (m' q)" using markedD [of m vs x m' q] by auto
qed

lemma usable_marked: "usable (b\<lparr>nStatus := nStatus b OR BLOCK_FAILED_CHILD\<rparr>) \<Longrightarrow> usable b"
proof -
  have "bit ((nStatus b OR BLOCK_FAILED_CHILD) AND BLOCK_FAILED_MASK) 6" by (simp add: block_status_defs bit_and_iff bit_or_iff)
  then have "(nStatus b OR BLOCK_FAILED_CHILD) AND BLOCK_FAILED_MASK \<noteq> 0" by auto
  then show "usable (b\<lparr>nStatus := nStatus b OR BLOCK_FAILED_CHILD\<rparr>) \<Longrightarrow> usable b" by (simp add: usable_def)
qed

lemma clean_marked:
  assumes "marked m vs x m'" and "m x = Some c" and "\<not> usable c"
  shows "clean m' vs p \<longleftrightarrow> clean m vs p"
proof
  assume "clean m' vs p"
  then show "clean m vs p"
  proof (induction rule: clean.induct)
    case (in_chain p b)
    then show ?case using marked_at' [OF assms(1)] by (fastforce intro: clean.in_chain)
  next
    case (first_block p b)
    then obtain b0 s where "m p = Some b0" "b = b0\<lparr>nStatus := s\<rparr>" "s = nStatus b0 \<or> s = nStatus b0 OR BLOCK_FAILED_CHILD" using marked_at' [OF assms(1)] by blast
    then show ?case using first_block usable_marked by (auto intro: clean.first_block)
  next
    case (on_clean p b q)
    then obtain b0 s where "m p = Some b0" "b = b0\<lparr>nStatus := s\<rparr>" "s = nStatus b0 \<or> s = nStatus b0 OR BLOCK_FAILED_CHILD" using marked_at' [OF assms(1)] by blast
    then show ?case using on_clean usable_marked by (auto intro: clean.on_clean)
  qed
next
  have same: "m' p = Some b" if "clean m vs p" "m p = Some b" "CChain_at vs (bi_nHeight b) \<noteq> Some p" for p b
    using marked_at [OF assms(1) that(2)] leads_to_bad [of m vs p x c] assms(2,3) that(1) by auto
  have chain: "clean m' vs p" if "m p = Some b" "CChain_at vs (bi_nHeight b) = Some p" for p b
    using marked_at [OF assms(1) that(1)] that(2) by (auto intro: clean.in_chain)
  assume "clean m vs p"
  then show "clean m' vs p"
  proof (induction rule: clean.induct)
    case (in_chain p b)
    then show ?case by (rule chain)
  next
    case (first_block p b)
    have "clean m vs p" by (rule clean.first_block [of m p b vs, OF first_block])
    then show ?case using same [OF _ first_block(1)] chain [OF first_block(1)] first_block by (cases "CChain_at vs (bi_nHeight b) = Some p") (auto intro: clean.first_block)
  next
    case (on_clean p b q)
    have "clean m vs p" by (rule clean.on_clean [of m p b q vs, OF on_clean(1-4)])
    then show ?case using same [OF _ on_clean(1)] chain [OF on_clean(1)] on_clean by (cases "CChain_at vs (bi_nHeight b) = Some p") (auto intro: clean.on_clean)
  qed
qed

section \<open>The chain with the most work\<close>

definition candidates_ok :: "Candidates \<Rightarrow> bool" where
  "candidates_ok s \<longleftrightarrow> index_ok (cs_map s) \<and> (\<forall>p \<in> set (setBlockIndexCandidates s). cs_map s p \<noteq> None \<and> txs_ok (cs_map s) (cs_chain s) p)
     \<and> (\<forall>q. pindexBestInvalid s = Some q \<longrightarrow> cs_map s q \<noteq> None)"

lemma mark_best_invalid_result:
  assumes "candidates_ok s" and "cs_map s p \<noteq> None"
  shows "\<exists>q. mark_best_invalid f p s = Inr (s\<lparr>pindexBestInvalid := q\<rparr>) \<and> (\<forall>r. q = Some r \<longrightarrow> cs_map s r \<noteq> None)"
proof (cases "f \<and> pindexBestInvalid s \<noteq> None")
  case True
  then obtain q where q: "pindexBestInvalid s = Some q" by auto
  then obtain b c where "cs_map s p = Some b" "cs_map s q = Some c" using assms by (auto simp: candidates_ok_def)
  then show ?thesis using True q assms(2) by (cases "nChainWork b > nChainWork c") (auto simp: mark_best_invalid_def deref_def intro: exI [of _ "pindexBestInvalid s"] exI [of _ "Some p"])
next
  case False
  then show ?thesis using assms by (cases f) (auto simp: mark_best_invalid_def candidates_ok_def split: option.splits intro: exI [of _ "pindexBestInvalid s"])
qed

lemma last_greatest: "sorted_wrt R xs \<Longrightarrow> xs \<noteq> [] \<Longrightarrow> q \<in> set xs \<Longrightarrow> q = last xs \<or> R q (last xs)"
  by (cases xs rule: rev_cases) (auto simp: sorted_wrt_append)

lemma leads_last: "leads m vs p x \<Longrightarrow> leads m vs x x"
  by (induction rule: leads.induct) (auto intro: leads.leads_here)

text \<open>What one pass over an unusable candidate does.\<close>

lemma skip_candidate:
  assumes "candidates_ok s" and "setBlockIndexCandidates s \<noteq> []"
    and test: "test_loop (cs_map s) (cs_chain s) (Some (last (setBlockIndexCandidates s))) = Some (Inr (Some (x, nStatus c AND BLOCK_FAILED_MASK \<noteq> 0, nStatus c AND BLOCK_HAVE_DATA = 0)))"
    and "leads (cs_map s) (cs_chain s) (last (setBlockIndexCandidates s)) x" and "cs_map s x = Some c" and "\<not> usable c"
  shows "\<exists>s'. FindMostWorkChain s = FindMostWorkChain s' \<and> candidates_ok s' \<and> cs_chain s' = cs_chain s \<and> (\<forall>q. clean (cs_map s') (cs_chain s) q \<longleftrightarrow> clean (cs_map s) (cs_chain s) q)
    \<and> (\<exists>Q. setBlockIndexCandidates s' = filter (\<lambda>q. q \<notin> Q) (setBlockIndexCandidates s) \<and> last (setBlockIndexCandidates s) \<in> Q \<and> (\<forall>q \<in> Q. \<not> clean (cs_map s) (cs_chain s) q))"
proof -
  let ?p = "last (setBlockIndexCandidates s)"
  let ?m = "cs_map s"
  let ?vs = "cs_chain s"
  define f g where "f = (nStatus c AND BLOCK_FAILED_MASK \<noteq> 0)" and "g = (nStatus c AND BLOCK_HAVE_DATA = 0)"
  have "?m ?p \<noteq> None" using leads_first [OF assms(4)] by auto
  then obtain bi where bi: "mark_best_invalid f ?p s = Inr (s\<lparr>pindexBestInvalid := bi\<rparr>)" "\<forall>r. bi = Some r \<longrightarrow> ?m r \<noteq> None" using mark_best_invalid_result [OF assms(1)] by blast
  obtain s2 P where s2: "remove_loop x f g (Some ?p) (s\<lparr>pindexBestInvalid := bi\<rparr>) = Some (Inr s2)" "marked ?m ?vs x (cs_map s2)" "cs_chain s2 = ?vs" "pindexBestInvalid s2 = bi"
    "\<forall>q \<in> P. leads ?m ?vs q x" "setBlockIndexCandidates s2 = filter (\<lambda>q. q \<notin> P) (setBlockIndexCandidates s)" "?p = x \<or> ?p \<in> P"
    using remove_loop_result [OF assms(4), of "s\<lparr>pindexBestInvalid := bi\<rparr>" f g] marked_refl by auto
  let ?s = "erase_candidate x s2"
  have "FindMostWorkChain s = FindMostWorkChain ?s" using assms(2) test bi(1) s2(1) by (subst FindMostWorkChain.simps) (simp add: f_def g_def)
  moreover note same = marked_same_links [OF s2(2)]
  have ok: "candidates_ok ?s" using assms(1) bi(2) s2(3,4,6) same_links_index_ok [OF same] same_links_txs_ok [OF same] same_links_at [OF same]
    unfolding candidates_ok_def by (fastforce simp del: not_None_eq simp: not_None_eq)
  moreover have "clean (cs_map ?s) ?vs q \<longleftrightarrow> clean ?m ?vs q" for q using clean_marked [OF s2(2) assms(5,6)] by simp
  moreover have "setBlockIndexCandidates ?s = filter (\<lambda>q. q \<notin> insert x P) (setBlockIndexCandidates s)" using s2(6) by (auto intro: filter_cong)
  moreover have "\<not> clean ?m ?vs q" if "q \<in> insert x P" for q using that s2(5) leads_last [OF assms(4)] leads_to_bad [of ?m ?vs q x c] assms(5,6) by auto
  ultimately show ?thesis using s2(3,7) by (intro exI [of _ ?s]) (auto intro!: exI [of _ "insert x P"])
qed

lemma FindMostWorkChain_result:
  assumes "candidates_ok s" and "sorted_wrt R (setBlockIndexCandidates s)"
  defines "good p \<equiv> clean (cs_map s) (cs_chain s) p"
  shows "\<exists>r s'. FindMostWorkChain s = Some (Inr (r, s')) \<and> (case r of None \<Rightarrow> \<forall>q \<in> set (setBlockIndexCandidates s). \<not> good q
    | Some p \<Rightarrow> p \<in> set (setBlockIndexCandidates s) \<and> good p \<and> (\<forall>q \<in> set (setBlockIndexCandidates s). good q \<longrightarrow> q = p \<or> R q p))"
  using assms(1,2) unfolding good_def
proof (induction "length (setBlockIndexCandidates s)" arbitrary: s rule: less_induct)
  case less
  let ?cs = "setBlockIndexCandidates s"
  let ?m = "cs_map s"
  let ?vs = "cs_chain s"
  show ?case
  proof (cases "?cs = []")
    case True
    then show ?thesis by (subst FindMostWorkChain.simps) simp
  next
    case False
    let ?p = "last ?cs"
    have p: "?p \<in> set ?cs" using False by simp
    then obtain b where b: "?m ?p = Some b" and tx: "txs_ok ?m ?vs ?p" using less.prems(1) by (auto simp: candidates_ok_def)
    have ok: "index_ok ?m" using less.prems(1) by (simp add: candidates_ok_def)
    consider "test_loop ?m ?vs (Some ?p) = Some (Inr None)" "clean ?m ?vs ?p"
      | x c where "test_loop ?m ?vs (Some ?p) = Some (Inr (Some (x, nStatus c AND BLOCK_FAILED_MASK \<noteq> 0, nStatus c AND BLOCK_HAVE_DATA = 0)))"
          "leads ?m ?vs ?p x" "?m x = Some c" "\<not> usable c"
      using test_loop_result [OF ok b tx] by blast
    then show ?thesis
    proof cases
      case 1
      then show ?thesis using False p last_greatest [OF less.prems(2) False] by (subst FindMostWorkChain.simps) auto
    next
      case (2 x c)
      obtain s3 where s3: "FindMostWorkChain s = FindMostWorkChain s3" "candidates_ok s3" "cs_chain s3 = ?vs" "\<And>q. clean (cs_map s3) ?vs q \<longleftrightarrow> clean ?m ?vs q"
        "\<exists>Q. setBlockIndexCandidates s3 = filter (\<lambda>q. q \<notin> Q) ?cs \<and> ?p \<in> Q \<and> (\<forall>q \<in> Q. \<not> clean ?m ?vs q)"
        using skip_candidate [OF less.prems(1) False 2] by blast
      then obtain Q where Q: "setBlockIndexCandidates s3 = filter (\<lambda>q. q \<notin> Q) ?cs" "?p \<in> Q" "\<forall>q \<in> Q. \<not> clean ?m ?vs q" by blast
      have less_length: "length (setBlockIndexCandidates s3) < length ?cs" unfolding Q(1) using p Q(2) by (intro length_filter_less) auto
      have "sorted_wrt R (setBlockIndexCandidates s3)" unfolding Q(1) using less.prems(2) by (rule sorted_wrt_filter)
      then obtain r s' where r: "FindMostWorkChain s3 = Some (Inr (r, s'))" "case r of None \<Rightarrow> \<forall>q \<in> set (setBlockIndexCandidates s3). \<not> clean ?m ?vs q
          | Some p \<Rightarrow> p \<in> set (setBlockIndexCandidates s3) \<and> clean ?m ?vs p \<and> (\<forall>q \<in> set (setBlockIndexCandidates s3). clean ?m ?vs q \<longrightarrow> q = p \<or> R q p)"
        using less.hyps [OF less_length s3(2)] unfolding s3(3,4) by blast
      then show ?thesis using s3(1) Q by (intro exI [of _ r] exI [of _ s']) (auto split: option.splits)
    qed
  qed
qed

text \<open>Pruning drops exactly the candidates that are worse than the tip.\<close>

lemma Prune_keeps_better:
  assumes "CChain_Tip (cs_chain s) = Some tip" and "cs_map s tip = Some tb"
    and sorted: "sorted_wrt (\<lambda>p q. CBlockIndexWorkComparator (addr p, the (cs_map s p)) (addr q, the (cs_map s q))) (setBlockIndexCandidates s)"
    and "PruneBlockIndexCandidates addr s = Inr s'"
  shows "set (setBlockIndexCandidates s') = {p \<in> set (setBlockIndexCandidates s). \<not> CBlockIndexWorkComparator (addr p, the (cs_map s p)) (addr tip, tb)}"
proof -
  have "set (dropWhile (\<lambda>p. CBlockIndexWorkComparator (addr p, the (cs_map s p)) (addr tip, tb)) xs) = {p \<in> set xs. \<not> CBlockIndexWorkComparator (addr p, the (cs_map s p)) (addr tip, tb)}"
    if "sorted_wrt (\<lambda>p q. CBlockIndexWorkComparator (addr p, the (cs_map s p)) (addr q, the (cs_map s q))) xs" for xs
    using that
  proof (induction xs)
    case (Cons x xs)
    show ?case
    proof (cases "CBlockIndexWorkComparator (addr x, the (cs_map s x)) (addr tip, tb)")
      case False
      then have "\<not> CBlockIndexWorkComparator (addr p, the (cs_map s p)) (addr tip, tb)" if "p \<in> set xs" for p
        using Cons.prems that unfolding comparator_key by (auto dest: order_less_trans)
      then show ?thesis using False by auto
    qed (use Cons in auto)
  qed simp
  then show ?thesis using assms by (auto simp: PruneBlockIndexCandidates_def deref_def Let_def split: if_splits)
qed

text \<open>C40: the search for the chain to activate always stops without a failed assertion; it gives the best candidate, by delay, then work, then arrival, among those whose blocks
  down to the active chain all have data and have not failed, and gives none only when there is no such candidate.\<close>

theorem best_usable_chain_found:
  assumes "candidates_ok s" and "sorted_wrt (\<lambda>p q. CBlockIndexWorkComparator (addr p, the (cs_map s p)) (addr q, the (cs_map s q))) (setBlockIndexCandidates s)"
  shows "\<exists>r s'. FindMostWorkChain s = Some (Inr (r, s')) \<and> (case r of None \<Rightarrow> \<forall>q \<in> set (setBlockIndexCandidates s). \<not> clean (cs_map s) (cs_chain s) q
    | Some p \<Rightarrow> p \<in> set (setBlockIndexCandidates s) \<and> clean (cs_map s) (cs_chain s) p
        \<and> (\<forall>q \<in> set (setBlockIndexCandidates s). clean (cs_map s) (cs_chain s) q \<longrightarrow> q = p \<or> CBlockIndexWorkComparator (addr q, the (cs_map s q)) (addr p, the (cs_map s p))))"
  by (rule FindMostWorkChain_result [OF assms])

text \<open>A first block that is active, and two blocks on top of it: the one with more work has failed.\<close>

definition sample_block :: "uint256 option \<Rightarrow> int \<Rightarrow> uint32 \<Rightarrow> uint256 \<Rightarrow> CBlockIndex" where
  "sample_block prev h status work = (CBlockIndex_of (sample_header 0 0))\<lparr>pprev := prev, pskip := prev, bi_nHeight := h, nStatus := status, nChainWork := work, nChainTx := 1\<rparr>"

definition sample_candidates :: Candidates where
  "sample_candidates = \<lparr> cs_map = [1 \<mapsto> sample_block None 0 11 1, 2 \<mapsto> sample_block (Some 1) 1 11 2, 3 \<mapsto> sample_block (Some 1) 1 43 3], cs_chain = [Some 1],
     setBlockIndexCandidates = [2, 3], mapBlocksUnlinked = [], pindexBestInvalid = None \<rparr>"

lemma sample_candidates_ok: "candidates_ok sample_candidates"
proof -
  have "index_ok (cs_map sample_candidates)"
    by (auto simp: index_ok_def sample_candidates_def link_ok_def sample_block_def GetSkipHeight_def split: if_splits)
  then show ?thesis by (auto simp: candidates_ok_def sample_candidates_def txs_ok_def sample_block_def split: if_splits)
qed

theorem best_usable_chain_found_witness:
  "\<exists>s'. FindMostWorkChain sample_candidates = Some (Inr (Some 2, s'))"
proof -
  have "sorted_wrt (\<lambda>p q. CBlockIndexWorkComparator (unat p, the (cs_map sample_candidates p)) (unat q, the (cs_map sample_candidates q))) (setBlockIndexCandidates sample_candidates)"
    by (simp add: sample_candidates_def CBlockIndexWorkComparator_def sample_block_def)
  from best_usable_chain_found [OF sample_candidates_ok this]
  obtain r s' where r: "FindMostWorkChain sample_candidates = Some (Inr (r, s'))" "case r of None \<Rightarrow> \<forall>q \<in> set (setBlockIndexCandidates sample_candidates). \<not> clean (cs_map sample_candidates) (cs_chain sample_candidates) q
    | Some p \<Rightarrow> p \<in> set (setBlockIndexCandidates sample_candidates) \<and> clean (cs_map sample_candidates) (cs_chain sample_candidates) p" by (auto split: option.splits)
  have c1: "clean (cs_map sample_candidates) (cs_chain sample_candidates) 1" by (rule clean.in_chain [where b = "sample_block None 0 11 1"]) (simp_all add: sample_candidates_def sample_block_def CChain_at_def CChain_Height_def)
  have c2: "clean (cs_map sample_candidates) (cs_chain sample_candidates) 2"
    by (rule clean.on_clean [where b = "sample_block (Some 1) 1 11 2", OF _ _ _ c1]) (simp_all add: sample_candidates_def sample_block_def usable_def block_status_defs)
  have c3: "\<not> clean (cs_map sample_candidates) (cs_chain sample_candidates) 3"
    by (rule leads_to_bad [where x = 3 and c = "sample_block (Some 1) 1 43 3"], rule leads.leads_here [where b = "sample_block (Some 1) 1 43 3"])
      (simp_all add: sample_candidates_def sample_block_def usable_def block_status_defs CChain_at_def CChain_Height_def)
  show ?thesis using r c2 c3 by (auto simp: sample_candidates_def split: option.splits)
qed

end
