(* ===== verification/Compressor.thy ===== *)
theory Compressor
  imports Serialize Coins Script
begin

text \<open>
  The compact forms of amounts and scripts in which coins are stored (\<open>compressor.h\<close>, \<open>compressor.cpp\<close>). The validity of public keys and their decompression,
  which the elliptic curve library computes, are parameters.
\<close>

unbundle bit_operations_syntax

section \<open>Scripts\<close>

record PubKeyLib =
  pk_IsFullyValid :: "bytes \<Rightarrow> bool"
  pk_Decompress :: "bytes \<Rightarrow> bytes option"

definition nSpecialScripts :: int where "nSpecialScripts = 6"

definition IsToKeyID :: "bytes \<Rightarrow> bytes option" where
  "IsToKeyID s =
     (if length s = 25 \<and> s ! 0 = OP_DUP \<and> s ! 1 = OP_HASH160 \<and> s ! 2 = 20 \<and> s ! 23 = OP_EQUALVERIFY \<and> s ! 24 = OP_CHECKSIG
      then Some (take 20 (drop 3 s)) else None)"

definition IsToScriptID :: "bytes \<Rightarrow> bytes option" where
  "IsToScriptID s =
     (if length s = 23 \<and> s ! 0 = OP_HASH160 \<and> s ! 1 = 20 \<and> s ! 22 = OP_EQUAL then Some (take 20 (drop 2 s)) else None)"

definition IsToPubKey :: "PubKeyLib \<Rightarrow> bytes \<Rightarrow> bytes option" where
  "IsToPubKey lib s =
     (if length s = 35 \<and> s ! 0 = 33 \<and> s ! 34 = OP_CHECKSIG \<and> (s ! 1 = 0x02 \<or> s ! 1 = 0x03) then Some (take 33 (drop 1 s))
      else if length s = 67 \<and> s ! 0 = 65 \<and> s ! 66 = OP_CHECKSIG \<and> s ! 1 = 0x04
        then (let pubkey = take 65 (drop 1 s) in if pk_IsFullyValid lib pubkey then Some pubkey else None)
      else None)"

definition Compress :: "PubKeyLib \<Rightarrow> bytes \<Rightarrow> bytes option" where
  "Compress lib s =
     (case IsToKeyID s of Some keyID \<Rightarrow> Some (0x00 # keyID)
      | None \<Rightarrow> (case IsToScriptID s of Some scriptID \<Rightarrow> Some (0x01 # scriptID)
        | None \<Rightarrow> (case IsToPubKey lib s of None \<Rightarrow> None
          | Some pubkey \<Rightarrow>
              if pubkey ! 0 = 0x02 \<or> pubkey ! 0 = 0x03 then Some (pubkey ! 0 # take 32 (drop 1 pubkey))
              else if pubkey ! 0 = 0x04 then Some ((0x04 OR (pubkey ! 64 AND 0x01)) # take 32 (drop 1 pubkey))
              else None)))"

definition GetSpecialSize :: "int \<Rightarrow> nat" where
  "GetSpecialSize nSize = (if nSize = 0 \<or> nSize = 1 then 20 else if nSize = 2 \<or> nSize = 3 \<or> nSize = 4 \<or> nSize = 5 then 32 else 0)"

text \<open>The answer and the script, which is left as it is when the answer is no.\<close>

definition Decompress :: "PubKeyLib \<Rightarrow> int \<Rightarrow> bytes \<Rightarrow> bytes \<Rightarrow> (bool \<times> bytes) result" where
  "Decompress lib nSize inp script =
     (if nSize = 0 then Inr (True, [OP_DUP, OP_HASH160, 20] @ take 20 inp @ [OP_EQUALVERIFY, OP_CHECKSIG])
      else if nSize = 1 then Inr (True, [OP_HASH160, 20] @ take 20 inp @ [OP_EQUAL])
      else if nSize = 2 \<or> nSize = 3 then Inr (True, [33, word_of_int nSize] @ take 32 inp @ [OP_CHECKSIG])
      else if nSize = 4 \<or> nSize = 5 then
        (case pk_Decompress lib (word_of_int (nSize - 2) # take 32 inp) of None \<Rightarrow> Inr (False, script)
         | Some pubkey \<Rightarrow> if length pubkey \<noteq> 65 then Inl Assert else Inr (True, [65] @ pubkey @ [OP_CHECKSIG]))
      else Inr (False, script))"

definition script_Serialize :: "PubKeyLib \<Rightarrow> bytes \<Rightarrow> bytes result" where
  "script_Serialize lib script =
     (case Compress lib script of Some compr \<Rightarrow> Inr compr
      | None \<Rightarrow> bindR (WriteVarInt U32 ((int (length script) + nSpecialScripts) mod 2 ^ 32)) (\<lambda>nSize. Inr (nSize @ script)))"

definition script_GetSerializeSize :: "PubKeyLib \<Rightarrow> bytes \<Rightarrow> nat" where
  "script_GetSerializeSize lib script =
     (case Compress lib script of Some compr \<Rightarrow> length compr
      | None \<Rightarrow> length script + GetSizeOfVarInt ((int (length script) + nSpecialScripts) mod 2 ^ 32))"

definition script_Unserialize :: "PubKeyLib \<Rightarrow> bytes \<Rightarrow> bytes \<Rightarrow> (bytes \<times> bytes) result" where
  "script_Unserialize lib script is =
     bindR (ReadVarInt U32 is) (\<lambda>(nSize, is).
     if nSize < nSpecialScripts then
       bindR (take_bytes (GetSpecialSize nSize) is) (\<lambda>(vch, is).
       bindR (Decompress lib nSize vch script) (\<lambda>(_, script). Inr (script, is)))
     else let nSize = nSize - nSpecialScripts in
       bindR (take_bytes (nat nSize) is) (\<lambda>(bs, is).
       if nSize > int MAX_SCRIPT_SIZE then Inr (script @ [OP_RETURN], is) else Inr (bs, is)))"

section \<open>Amounts\<close>

function strip_zeros :: "nat \<Rightarrow> nat \<Rightarrow> nat \<times> nat" where
  "strip_zeros n e = (if n mod 10 = 0 \<and> e < 9 then strip_zeros (n div 10) (e + 1) else (n, e))"
  by pat_completeness auto
termination
  by (relation "measure (\<lambda>(n, e). 9 - e)") auto

declare strip_zeros.simps [simp del]

definition CompressAmount :: "nat \<Rightarrow> nat result" where
  "CompressAmount n =
     (if n = 0 then Inr 0
      else let (n, e) = strip_zeros n 0 in
        if e < 9 then
          (let d = n mod 10 in
           if \<not> (d \<ge> 1 \<and> d \<le> 9) then Inl Assert
           else let n = n div 10 in Inr ((1 + (n * 9 + d - 1) * 10 + e) mod 2 ^ 64))
        else Inr ((1 + (n - 1) * 10 + 9) mod 2 ^ 64))"

primrec add_zeros :: "nat \<Rightarrow> nat \<Rightarrow> nat" where
  "add_zeros 0 n = n"
| "add_zeros (Suc e) n = add_zeros e (n * 10 mod 2 ^ 64)"

definition DecompressAmount :: "nat \<Rightarrow> nat" where
  "DecompressAmount x =
     (if x = 0 then 0
      else let x = x - 1; e = x mod 10; x = x div 10;
               n = (if e < 9 then (let d = x mod 9 + 1; x = x div 9 in (x * 10 + d) mod 2 ^ 64) else (x + 1) mod 2 ^ 64) in
        add_zeros e n)"

definition txout_Serialize :: "PubKeyLib \<Rightarrow> CTxOut \<Rightarrow> bytes result" where
  "txout_Serialize lib txout =
     bindR (CompressAmount (nat (nValue txout mod 2 ^ 64))) (\<lambda>nVal.
     bindR (WriteVarInt U64 (int nVal)) (\<lambda>v.
     bindR (script_Serialize lib (scriptPubKey txout)) (\<lambda>s. Inr (v @ s))))"

definition txout_Unserialize :: "PubKeyLib \<Rightarrow> CTxOut \<Rightarrow> bytes \<Rightarrow> (CTxOut \<times> bytes) result" where
  "txout_Unserialize lib txout is =
     bindR (ReadVarInt U64 is) (\<lambda>(nVal, is).
     bindR (script_Unserialize lib (scriptPubKey txout) is) (\<lambda>(s, is).
     Inr (txout\<lparr>nValue := wrap64 (int (DecompressAmount (nat nVal))), scriptPubKey := s\<rparr>, is)))"

section \<open>Round trip of scripts\<close>

text \<open>What the curve library promises: the compressed form of a valid key, its first coordinate with the parity of the second, is decompressed to the key.\<close>

definition pubkeys_ok :: "PubKeyLib \<Rightarrow> bool" where
  "pubkeys_ok lib \<longleftrightarrow> (\<forall>k. length k = 65 \<and> k ! 0 = 0x04 \<and> pk_IsFullyValid lib k \<longrightarrow> pk_Decompress lib ((0x02 OR (k ! 64 AND 0x01)) # take 32 (drop 1 k)) = Some k)"

lemma first_bytes: "1 \<le> length s \<Longrightarrow> take 1 s = [s ! 0]" "2 \<le> length s \<Longrightarrow> take 2 s = [s ! 0, s ! 1]" "3 \<le> length s \<Longrightarrow> take 3 s = [s ! 0, s ! 1, s ! 2]"
  by (cases s; auto simp: numeral_eq_Suc Suc_le_length_iff)+

lemma last_bytes: "length s = Suc n \<Longrightarrow> drop n s = [s ! n]" "length s = Suc (Suc n) \<Longrightarrow> drop n s = [s ! n, s ! Suc n]"
  by (simp_all add: Cons_nth_drop_Suc [symmetric])

lemma split_script: "s = take a s @ take n (drop a s) @ drop (a + n) s"
  by (metis append_take_drop_id drop_drop add.commute)

lemma IsToKeyID_script:
  assumes "IsToKeyID s = Some h"
  shows "length h = 20 \<and> s = [OP_DUP, OP_HASH160, 20] @ h @ [OP_EQUALVERIFY, OP_CHECKSIG]"
proof -
  have l: "length s = 25" "s ! 0 = OP_DUP" "s ! 1 = OP_HASH160" "s ! 2 = 20" "s ! 23 = OP_EQUALVERIFY" "s ! 24 = OP_CHECKSIG" "h = take 20 (drop 3 s)"
    using assms by (auto simp: IsToKeyID_def split: if_splits)
  then have "s = take 3 s @ h @ drop 23 s" using split_script [of s 3 20] by simp
  then show ?thesis using l first_bytes(3) [of s] last_bytes(2) [of s 23] by simp
qed

lemma IsToScriptID_script:
  assumes "IsToScriptID s = Some h"
  shows "length h = 20 \<and> s = [OP_HASH160, 20] @ h @ [OP_EQUAL]"
proof -
  have l: "length s = 23" "s ! 0 = OP_HASH160" "s ! 1 = 20" "s ! 22 = OP_EQUAL" "h = take 20 (drop 2 s)" using assms by (auto simp: IsToScriptID_def split: if_splits)
  then have "s = take 2 s @ h @ drop 22 s" using split_script [of s 2 20] by simp
  then show ?thesis using l first_bytes(2) [of s] last_bytes(1) [of s 22] by simp
qed

lemma IsToPubKey_script:
  assumes "IsToPubKey lib s = Some k"
  shows "length k = 33 \<and> (k ! 0 = 2 \<or> k ! 0 = 3) \<and> s = [33] @ k @ [OP_CHECKSIG] \<or> length k = 65 \<and> k ! 0 = 4 \<and> pk_IsFullyValid lib k \<and> s = [65] @ k @ [OP_CHECKSIG]"
proof -
  consider "length s = 35" "s ! 0 = 33" "s ! 34 = OP_CHECKSIG" "s ! 1 = 0x02 \<or> s ! 1 = 0x03" "k = take 33 (drop 1 s)"
    | "length s = 67" "s ! 0 = 65" "s ! 66 = OP_CHECKSIG" "s ! 1 = 0x04" "k = take 65 (drop 1 s)" "pk_IsFullyValid lib k"
    using assms by (auto simp: IsToPubKey_def Let_def split: if_splits)
  then show ?thesis
  proof cases
    case 1
    then have "s = take 1 s @ k @ drop 34 s" using split_script [of s 1 33] by simp
    then show ?thesis using 1 first_bytes(1) [of s] last_bytes(1) [of s 34] by simp
  next
    case 2
    then have "s = take 1 s @ k @ drop 66 s" using split_script [of s 1 65] by simp
    then show ?thesis using 2 first_bytes(1) [of s] last_bytes(1) [of s 66] by simp
  qed
qed

lemma read_small_varint: "uint b < 0x80 \<Longrightarrow> ReadVarInt U32 (b # is) = Inr (uint b, is)"
proof -
  assume b: "uint b < 0x80"
  have "b = word_of_int (uint b)" by simp
  then show ?thesis using cont_byte [of "uint b"] b by (simp add: ReadVarInt_def) 
qed

lemma parity_byte: "b AND 1 = 0 \<or> b AND 1 = (1 :: byte)"
  by (simp add: and_one_eq mod_2_eq_odd)

lemma first_and_rest: "length k = Suc n \<Longrightarrow> k = k ! 0 # take n (drop 1 k)"
  by (cases k) simp_all

lemma script_round_trip_compressed:
  assumes "pubkeys_ok lib" and "Compress lib s = Some c"
  shows "script_Unserialize lib script (c @ is) = Inr (s, is)"
proof (cases "IsToKeyID s")
  case (Some h)
  then have c: "c = 0 # h" using assms(2) by (simp add: Compress_def)
  then show ?thesis using IsToKeyID_script [OF Some] by (simp add: script_Unserialize_def read_small_varint nSpecialScripts_def GetSpecialSize_def Decompress_def)
next
  case None
  show ?thesis
  proof (cases "IsToScriptID s")
    case (Some h)
    then have c: "c = 1 # h" using assms(2) None by (simp add: Compress_def)
    then show ?thesis using IsToScriptID_script [OF Some] by (simp add: script_Unserialize_def read_small_varint nSpecialScripts_def GetSpecialSize_def Decompress_def)
  next
    case noid: None
    then obtain k where k: "IsToPubKey lib s = Some k" using assms(2) None by (auto simp: Compress_def split: option.splits)
    from IsToPubKey_script [OF k] show ?thesis
    proof
      assume a: "length k = 33 \<and> (k ! 0 = 2 \<or> k ! 0 = 3) \<and> s = [33] @ k @ [OP_CHECKSIG]"
      then have c: "c = k ! 0 # take 32 (drop 1 k)" using assms(2) None noid k by (auto simp: Compress_def)
      obtain x xs where kx: "k = x # xs" "length xs = 32" using a by (cases k) auto
      show ?thesis using a c kx by (auto simp: script_Unserialize_def read_small_varint nSpecialScripts_def GetSpecialSize_def Decompress_def)
    next
      assume a: "length k = 65 \<and> k ! 0 = 4 \<and> pk_IsFullyValid lib k \<and> s = [65] @ k @ [OP_CHECKSIG]"
      then have c: "c = (0x04 OR (k ! 64 AND 0x01)) # take 32 (drop 1 k)" using assms(2) None noid k by (simp add: Compress_def)
      have d: "pk_Decompress lib ((0x02 OR (k ! 64 AND 0x01)) # take 32 (drop 1 k)) = Some k" using assms(1) a by (simp add: pubkeys_ok_def)
      show ?thesis using a c d parity_byte [of "k ! 64"] by (auto simp: script_Unserialize_def read_small_varint nSpecialScripts_def GetSpecialSize_def Decompress_def)
    qed
  qed
qed

lemma script_round_trip:
  assumes "pubkeys_ok lib" and "length s \<le> MAX_SCRIPT_SIZE"
  shows "\<exists>bs. script_Serialize lib s = Inr bs \<and> length bs = script_GetSerializeSize lib s \<and> (\<forall>script is. script_Unserialize lib script (bs @ is) = Inr (s, is))"
proof (cases "Compress lib s")
  case (Some c)
  then show ?thesis using script_round_trip_compressed [OF assms(1) Some] by (simp add: script_Serialize_def script_GetSerializeSize_def)
next
  case None
  have "int (length s) \<le> 10000" using assms(2) by (simp add: MAX_SCRIPT_SIZE_def)
  then have "fits U32 (int (length s) + nSpecialScripts)" by (simp add: fits_def nSpecialScripts_def)
  then obtain v where "WriteVarInt U32 (int (length s) + nSpecialScripts) = Inr v" "length v = GetSizeOfVarInt (int (length s) + nSpecialScripts)"
    "\<And>is. ReadVarInt U32 (v @ is) = Inr (int (length s) + nSpecialScripts, is)" by (rule WriteVarInt_ok [rotated]) (simp_all add: nSpecialScripts_def)
  moreover have "(int (length s) + nSpecialScripts) mod 2 ^ 32 = int (length s) + nSpecialScripts" using \<open>int (length s) \<le> 10000\<close> by (simp add: nSpecialScripts_def)
  ultimately show ?thesis using None assms(2) by (simp add: script_Serialize_def script_GetSerializeSize_def script_Unserialize_def)
qed

section \<open>Round trip of amounts and outputs\<close>

lemma strip_zeros_spec:
  "strip_zeros n e = (m, f) \<Longrightarrow> e \<le> 9 \<Longrightarrow> f \<le> 9 \<and> e \<le> f \<and> n = m * 10 ^ (f - e) \<and> (f < 9 \<longrightarrow> m mod 10 \<noteq> 0)"
proof (induction n e rule: strip_zeros.induct)
  case (1 n e)
  show ?case
  proof (cases "n mod 10 = 0 \<and> e < 9")
    case True
    then have s: "strip_zeros (n div 10) (e + 1) = (m, f)" using 1(2) strip_zeros.simps [of n e] by simp
    have ih: "f \<le> 9" "e + 1 \<le> f" "n div 10 = m * 10 ^ (f - (e + 1))" "f < 9 \<longrightarrow> m mod 10 \<noteq> 0" using 1(1) [OF True s] True by simp_all
    have "f - e = Suc (f - (e + 1))" using ih(2) by simp
    then have "m * 10 ^ (f - e) = 10 * (n div 10)" using ih(3) by simp
    moreover have "10 * (n div 10) = n" using True by (metis dvd_mult_div_cancel mod_eq_0_iff_dvd)
    ultimately have "n = m * 10 ^ (f - e)" by linarith
    then show ?thesis using ih by (meson Suc_leD add_leD1)
  next
    case False
    then show ?thesis using 1(2,3) strip_zeros.simps [of n e] by auto
  qed
qed

lemma add_zeros_eq: "n < 2 ^ 64 \<Longrightarrow> add_zeros e n = n * 10 ^ e mod 2 ^ 64"
proof (induction e arbitrary: n)
  case (Suc e)
  have "add_zeros (Suc e) n = n * 10 mod 2 ^ 64 * 10 ^ e mod 2 ^ 64" using Suc by simp
  also have "\<dots> = n * 10 * 10 ^ e mod 2 ^ 64" by (rule mod_mult_left_eq)
  finally show ?case by (simp add: ac_simps)
qed simp

lemma digits_decoded:
  fixes q d e :: nat
  assumes "d < 9" "e < 9"
  shows "DecompressAmount (1 + (q * 9 + Suc d - 1) * 10 + e) = add_zeros e ((q * 10 + Suc d) mod 2 ^ 64)"
proof -
  have "((q * 9 + d) * 10 + e) mod 10 = e" "((q * 9 + d) * 10 + e) div 10 = q * 9 + d" "(q * 9 + d) mod 9 = d" "(q * 9 + d) div 9 = q"
    using assms by (simp_all del: distrib_right_numeral)
  then show ?thesis using assms by (simp add: DecompressAmount_def Let_def)
qed

lemma amount_round_trip:
  assumes "9 * n + 10 < 2 ^ 64"
  shows "\<exists>x < 2 ^ 64. CompressAmount n = Inr x \<and> DecompressAmount x = n"
proof (cases "n = 0")
  case False
  obtain m e where s: "strip_zeros n 0 = (m, e)" by (metis surj_pair)
  have sp: "e \<le> 9" "n = m * 10 ^ e" "e < 9 \<longrightarrow> m mod 10 \<noteq> 0" using strip_zeros_spec [OF s] by simp_all
  have m: "m \<noteq> 0" "m \<le> n" using False sp(2) by simp_all
  have z: "add_zeros e m = n" using assms m(2) add_zeros_eq [of m e] unfolding sp(2) [symmetric] by simp
  show ?thesis
  proof (cases "e < 9")
    case True
    define q d where "q = m div 10" and "d = m mod 10"
    have d: "1 \<le> d" "d \<le> 9" "m = q * 10 + d" using sp(3) True by (auto simp: q_def d_def)
    define x where "x = 1 + (q * 9 + d - 1) * 10 + e"
    have b: "x < 2 ^ 64" using assms m(2) d True by (simp add: x_def)
    then have c: "CompressAmount n = Inr x" using False s d(1,2) True by (simp add: CompressAmount_def q_def d_def x_def)
    have "DecompressAmount x = add_zeros e ((q * 10 + d) mod 2 ^ 64)"
      using digits_decoded [of "d - 1" e q] d(1,2) True by (simp add: x_def)
    then show ?thesis using b c z d(3) m(2) assms by auto
  next
    case False2: False
    then have e: "e = 9" using sp(1) by simp
    define x where "x = 1 + (m - 1) * 10 + 9"
    have b: "x < 2 ^ 64" using assms m(1) sp(2) e by (simp add: x_def)
    then have c: "CompressAmount n = Inr x" using False s e by (simp add: CompressAmount_def x_def)
    have "(x - 1) mod 10 = 9" "(x - 1) div 10 = m - 1" by (simp_all add: x_def)
    then have "DecompressAmount x = add_zeros 9 (m mod 2 ^ 64)" using m(1) by (simp add: DecompressAmount_def Let_def x_def)
    then show ?thesis using b c z e m(2) assms by auto
  qed
qed (simp add: CompressAmount_def DecompressAmount_def)

lemma amount_bound: "0 \<le> v \<Longrightarrow> v \<le> 2100000000000000 \<Longrightarrow> 9 * nat v + 10 < 2 ^ 64"
  by simp

lemma txout_round_trip:
  assumes "pubkeys_ok lib" and "length (scriptPubKey t) \<le> MAX_SCRIPT_SIZE" and "MoneyRange (nValue t)"
  shows "\<exists>bs. txout_Serialize lib t = Inr bs \<and> (\<forall>t0 is. txout_Unserialize lib t0 (bs @ is) = Inr (t0\<lparr>nValue := nValue t, scriptPubKey := scriptPubKey t\<rparr>, is))"
proof -
  have v: "0 \<le> nValue t" "nValue t \<le> 2100000000000000" using assms(3) by (simp_all add: MoneyRange_def MAX_MONEY_def COIN_def)
  then obtain x where x: "x < 2 ^ 64" "CompressAmount (nat (nValue t)) = Inr x" "DecompressAmount x = nat (nValue t)"
    using amount_round_trip [of "nat (nValue t)"] by (metis amount_bound)
  have "fits U64 (int x)" using x(1) by (simp add: fits_def)
  then obtain w where w: "WriteVarInt U64 (int x) = Inr w" "\<And>is. ReadVarInt U64 (w @ is) = Inr (int x, is)" by (rule WriteVarInt_ok [rotated]) simp_all
  obtain s where s: "script_Serialize lib (scriptPubKey t) = Inr s" "\<And>script is. script_Unserialize lib script (s @ is) = Inr (scriptPubKey t, is)"
    using script_round_trip [OF assms(1,2)] by blast
  have "nValue t mod 2 ^ 64 = nValue t" "wrap64 (nValue t) = nValue t" using v by (simp_all add: wrap64_def)
  then show ?thesis using x w s v by (simp add: txout_Serialize_def txout_Unserialize_def)
qed

section \<open>A library with one valid key\<close>

definition one_pubkey :: PubKeyLib where
  "one_pubkey = \<lparr>pk_IsFullyValid = (\<lambda>k. k = 4 # replicate 64 7), pk_Decompress = (\<lambda>k. Some (4 # replicate 64 7))\<rparr>"

lemma one_pubkey_ok: "pubkeys_ok one_pubkey"
  by (simp add: pubkeys_ok_def one_pubkey_def)

end
