(* ===== verification/CoinsStore.thy ===== *)
theory CoinsStore
  imports Compressor
begin

text \<open>
  The form in which a \<open>CCoins\<close> is kept in the database (\<open>coins.h\<close>, \<open>coins.cpp\<close>): the version, a code with the coinbase flag and the first two outputs,
  a bit mask of the other unspent outputs, the unspent outputs, the height and, for coins of certificates, the positions of the backward transfers.
  The record is read back as it was written, except that a negative version keeps its lowest seven bits only.
\<close>

unbundle bit_operations_syntax

section \<open>Operations\<close>

text \<open>Positions are natural numbers; \<open>IsAvailable\<close> is the test of a position against the size and the null output that the loops repeat.\<close>

definition byte_used :: "CCoins \<Rightarrow> nat \<Rightarrow> bool" where
  "byte_used c b = list_ex (\<lambda>i. IsAvailable c (2 + b * 8 + i)) [0..<8]"

function mask_loop :: "CCoins \<Rightarrow> nat \<Rightarrow> nat \<Rightarrow> nat \<Rightarrow> nat \<times> nat" where
  "mask_loop c b nLastUsedByte nNonzeroBytes =
     (if 2 + b * 8 < length (vout c)
      then if byte_used c b then mask_loop c (b + 1) (b + 1) (nNonzeroBytes + 1) else mask_loop c (b + 1) nLastUsedByte nNonzeroBytes
      else (nLastUsedByte, nNonzeroBytes))"
  by pat_completeness auto
termination
  by (relation "measure (\<lambda>(c, b, _). length (vout c) - b)") auto

declare mask_loop.simps [simp del]

definition CalcMaskSize :: "CCoins \<Rightarrow> nat \<times> nat" where
  "CalcMaskSize c = mask_loop c 0 0 0"

definition chAvail :: "CCoins \<Rightarrow> nat \<Rightarrow> byte" where
  "chAvail c b = foldl (\<lambda>ch i. if IsAvailable c (2 + b * 8 + i) then ch OR push_bit i 1 else ch) 0 [0..<8]"

definition coins_code :: "CCoins \<Rightarrow> nat \<Rightarrow> nat" where
  "coins_code c nMaskCode =
     (let fFirst = IsAvailable c 0; fSecond = IsAvailable c 1 in
      (8 * (nMaskCode - (if fFirst \<or> fSecond then 0 else 1)) + (if fCoinBase c then 1 else 0) + (if fFirst then 2 else 0) + (if fSecond then 4 else 0)) mod 2 ^ 32)"

primrec outs_Serialize :: "PubKeyLib \<Rightarrow> CTxOut list \<Rightarrow> bytes result" where
  "outs_Serialize lib [] = Inr []"
| "outs_Serialize lib (t # ts) =
     (if txout_IsNull t then outs_Serialize lib ts
      else bindR (txout_Serialize lib t) (\<lambda>bs. bindR (outs_Serialize lib ts) (\<lambda>cs. Inr (bs @ cs))))"

definition CCoins_Serialize :: "PubKeyLib \<Rightarrow> CCoins \<Rightarrow> bytes result" where
  "CCoins_Serialize lib c =
     (let (nMaskSize, nMaskCode) = CalcMaskSize c in
      if \<not> (IsAvailable c 0 \<or> IsAvailable c 1 \<or> nMaskCode \<noteq> 0) then Inl Assert
      else bindR (WriteVarInt I32 (nVersion c)) (\<lambda>version.
        bindR (WriteVarInt U32 (int (coins_code c nMaskCode))) (\<lambda>code.
        bindR (outs_Serialize lib (vout c)) (\<lambda>outs.
        bindR (WriteVarInt I32 (nHeight c)) (\<lambda>height.
        Inr (version @ code @ map (chAvail c) [0..<nMaskSize] @ outs @ height @
             (if IsFromCert c then ser_uint32 (nFirstBwtPos c) @ ser_uint32 (nBwtMaturityHeight c) else [])))))))"

primrec read_mask :: "bytes \<Rightarrow> nat \<Rightarrow> bool list \<Rightarrow> (bool list \<times> bytes) result" where
  "read_mask [] nMaskCode vAvail = (if nMaskCode > 0 then Inl (Throw ''end of data'') else Inr (vAvail, []))"
| "read_mask (ch # is) nMaskCode vAvail =
     (if nMaskCode > 0
      then read_mask is (if ch \<noteq> 0 then nMaskCode - 1 else nMaskCode) (vAvail @ map (\<lambda>p. ch AND push_bit p 1 \<noteq> 0) [0..<8])
      else Inr (vAvail, ch # is))"

primrec outs_Unserialize :: "PubKeyLib \<Rightarrow> bool list \<Rightarrow> bytes \<Rightarrow> (CTxOut list \<times> bytes) result" where
  "outs_Unserialize lib [] is = Inr ([], is)"
| "outs_Unserialize lib (a # as) is =
     bindR (if a then txout_Unserialize lib txout_SetNull is else Inr (txout_SetNull, is)) (\<lambda>(t, is).
     bindR (outs_Unserialize lib as is) (\<lambda>(ts, is). Inr (t # ts, is)))"

definition CCoins_Unserialize :: "PubKeyLib \<Rightarrow> CCoins \<Rightarrow> bytes \<Rightarrow> (CCoins \<times> bytes) result" where
  "CCoins_Unserialize lib c is =
     bindR (ReadVarInt I32 is) (\<lambda>(version, is).
     bindR (ReadVarInt U32 is) (\<lambda>(nCode, is).
     let nMaskCode = nat (nCode div 8) + (if nCode AND 6 \<noteq> 0 then 0 else 1) in
     bindR (read_mask is nMaskCode [nCode AND 2 \<noteq> 0, nCode AND 4 \<noteq> 0]) (\<lambda>(vAvail, is).
     bindR (outs_Unserialize lib vAvail is) (\<lambda>(outs, is).
     bindR (ReadVarInt I32 is) (\<lambda>(height, is).
     let c = c\<lparr>nVersion := version, fCoinBase := nCode AND 1 \<noteq> 0, vout := outs, nHeight := height, nFirstBwtPos := BWT_POS_UNSET\<rparr> in
     if IsFromCert c then
       bindR (read_int32 is) (\<lambda>(pos, is).
       bindR (read_int32 is) (\<lambda>(mat, is). Inr (Cleanup (c\<lparr>nFirstBwtPos := pos, nBwtMaturityHeight := mat\<rparr>), is)))
     else Inr (Cleanup c, is))))))"

section \<open>The bit mask\<close>

lemma byte_used_iff: "byte_used c b \<longleftrightarrow> (\<exists>i < 8. IsAvailable c (2 + b * 8 + i))"
  by (auto simp: byte_used_def list_ex_iff)

lemma IsAvailable_length: "IsAvailable c i \<Longrightarrow> i < length (vout c)"
  by (simp add: IsAvailable_def)

lemma mask_loop_spec:
  "mask_loop c b l n = (l', n') \<Longrightarrow>
     n' = n + length (filter (byte_used c) [b..<(length (vout c) + 5) div 8]) \<and>
     l' = (if filter (byte_used c) [b..<(length (vout c) + 5) div 8] = [] then l else last (filter (byte_used c) [b..<(length (vout c) + 5) div 8]) + 1)"
proof (induction c b l n rule: mask_loop.induct)
  case (1 c b l n)
  let ?m = "(length (vout c) + 5) div 8"
  show ?case
  proof (cases "2 + b * 8 < length (vout c)")
    case True
    then have "b < ?m" by (simp add: less_eq_div_iff_mult_less_eq Suc_le_eq [symmetric])
    then have u: "[b..<?m] = b # [Suc b..<?m]" by (rule upt_conv_Cons)
    show ?thesis
    proof (cases "byte_used c b")
      case used: True
      then have "mask_loop c (b + 1) (b + 1) (n + 1) = (l', n')" using 1(3) True mask_loop.simps [of c b l n] by simp
      from 1(1) [OF True used this] show ?thesis using used u by (auto split: if_splits)
    next
      case False
      then have "mask_loop c (b + 1) l n = (l', n')" using 1(3) True mask_loop.simps [of c b l n] by simp
      from 1(2) [OF True False this] show ?thesis using False u by (auto split: if_splits)
    qed
  next
    case False
    then have "?m \<le> b" by simp
    then show ?thesis using 1(3) False mask_loop.simps [of c b l n] by simp
  qed
qed

lemma last_byte_used:
  assumes "canonical c" "2 < length (vout c)"
  shows "\<exists>m. (length (vout c) + 5) div 8 = Suc m \<and> byte_used c m"
proof -
  let ?n = "length (vout c)"
  define m where "m = (?n - 3) div 8"
  have "vout c \<noteq> []" using assms(2) by auto
  then have a: "IsAvailable c (?n - 1)" using assms by (simp add: canonical_def IsAvailable_def last_conv_nth)
  have "?n - 1 = 2 + m * 8 + (?n - 3) mod 8" using assms(2) by (simp add: m_def)
  then have "byte_used c m" using a by (auto simp: byte_used_iff intro!: exI [of _ "(?n - 3) mod 8"])
  moreover have "(?n + 5) div 8 = Suc m"
  proof -
    have "?n + 5 = 8 + (?n - 3)" using assms(2) by simp
    then show ?thesis by (simp add: m_def div_add_self1)
  qed
  ultimately show ?thesis by blast
qed

lemma CalcMaskSize_canonical:
  assumes "canonical c"
  shows "CalcMaskSize c = ((length (vout c) + 5) div 8, length (filter (byte_used c) [0..<(length (vout c) + 5) div 8]))"
proof -
  obtain l n where m: "CalcMaskSize c = (l, n)" by fastforce
  note s = mask_loop_spec [OF m [unfolded CalcMaskSize_def]]
  show ?thesis
  proof (cases "2 < length (vout c)")
    case True
    then obtain k where "(length (vout c) + 5) div 8 = Suc k" "byte_used c k" using last_byte_used assms by blast
    then show ?thesis using m s by simp
  next
    case False
    then have "(length (vout c) + 5) div 8 = 0" by simp
    then show ?thesis using m s by simp
  qed
qed

lemma chAvail_bits_aux:
  "bit (foldl (\<lambda>ch i. if P i then ch OR push_bit i 1 else ch) (0 :: byte) [0..<k]) p \<longleftrightarrow> p < k \<and> p < 8 \<and> P p"
proof (induction k)
  case (Suc k)
  have "bit (push_bit k 1 :: byte) p \<longleftrightarrow> p = k \<and> p < 8" by (auto simp: bit_push_bit_iff bit_1_iff simp del: push_bit_of_1)
  then show ?case using Suc by (auto simp: bit_or_iff less_Suc_eq simp del: push_bit_of_1)
qed simp

lemma test_bit: "(ch :: byte) AND push_bit p 1 \<noteq> 0 \<longleftrightarrow> bit ch p"
  by (metis and_exp_eq_0_iff_not_bit push_bit_of_1)

lemma chAvail_bits: "bit (chAvail c b) p \<longleftrightarrow> p < 8 \<and> IsAvailable c (2 + b * 8 + p)"
  unfolding chAvail_def chAvail_bits_aux [of "\<lambda>i. IsAvailable c (2 + b * 8 + i)" 8] by simp

lemma chAvail_zero: "chAvail c b = 0 \<longleftrightarrow> \<not> byte_used c b"
proof -
  have "chAvail c b = 0 \<longleftrightarrow> (\<forall>p. \<not> bit (chAvail c b) p)" by (metis bit_0_eq bot_apply bot_bool_def bit_eq_iff)
  then show ?thesis unfolding chAvail_bits byte_used_iff by blast
qed

lemma byte_positions: "map (\<lambda>p. chAvail c b AND push_bit p 1 \<noteq> 0) [0..<8] = map (IsAvailable c) [2 + b * 8..<2 + Suc b * 8]"
proof -
  have "[2 + b * 8..<2 + Suc b * 8] = map (\<lambda>p. 2 + b * 8 + p) [0..<8]" 
    by (intro nth_equalityI) simp_all
  then show ?thesis unfolding test_bit chAvail_bits by simp
qed

lemma read_mask_zero [simp]: "read_mask is 0 vAvail = Inr (vAvail, is)"
  by (cases "is") simp_all

text \<open>The mask is read to its last byte, which is not zero, and gives the unspent positions.\<close>

lemma read_mask_written:
  assumes "byte_used c m" "b \<le> m"
  shows "read_mask (map (chAvail c) [b..<Suc m] @ is) (length (filter (byte_used c) [b..<Suc m])) vAvail
       = Inr (vAvail @ map (IsAvailable c) [2 + b * 8..<2 + Suc m * 8], is)"
  using assms(2)
proof (induction "m - b" arbitrary: b vAvail)
  case 0
  then have "b = m" by simp
  moreover have "[m..<Suc m] = [m]" by simp
  ultimately show ?case using assms(1) by (simp add: chAvail_zero byte_positions del: upt_Suc push_bit_of_1)
next
  case (Suc k)
  have bm: "b < m" using Suc(2) by simp
  have u: "[b..<Suc m] = b # [Suc b..<Suc m]" using bm by (simp add: upt_conv_Cons del: upt_Suc)
  have p: "0 < length (filter (byte_used c) [Suc b..<Suc m])" using assms(1) bm by simp
  have ih: "read_mask (map (chAvail c) [Suc b..<Suc m] @ is) (length (filter (byte_used c) [Suc b..<Suc m])) (vAvail @ map (IsAvailable c) [2 + b * 8..<2 + Suc b * 8])
     = Inr ((vAvail @ map (IsAvailable c) [2 + b * 8..<2 + Suc b * 8]) @ map (IsAvailable c) [2 + Suc b * 8..<2 + Suc m * 8], is)"
    using Suc(1) [of "Suc b"] Suc(2) bm by simp
  have j: "[2 + b * 8..<2 + Suc m * 8] = [2 + b * 8..<2 + Suc b * 8] @ [2 + Suc b * 8..<2 + Suc m * 8]" 
    using upt_add_eq_append [of "2 + b * 8" "2 + Suc b * 8" "(m - b) * 8"] bm by (simp add: diff_mult_distrib)
  show ?case unfolding u j using ih p by (auto simp: chAvail_zero byte_positions simp del: upt_Suc push_bit_of_1)
qed

section \<open>The code\<close>

lemma code_low_bits: "take_bit 3 m = m \<Longrightarrow> (x :: int) AND m = (x mod 8) AND m"
proof -
  assume m: "take_bit 3 m = m"
  have "x AND m = take_bit 3 (x AND m)" using m by (metis and.assoc take_bit_eq_mask)
  also have "\<dots> = take_bit 3 x AND m" by (simp only: take_bit_and m)
  finally show ?thesis by (simp add: take_bit_eq_mod)
qed

lemma code_fields:
  fixes k :: nat
  defines "code a f s \<equiv> int (8 * k + (if a then 1 else 0) + (if f then 2 else 0) + (if s then 4 else 0))"
  shows "nat (code a f s div 8) = k" "code a f s AND 1 \<noteq> 0 \<longleftrightarrow> a" "code a f s AND 2 \<noteq> 0 \<longleftrightarrow> f" "code a f s AND 4 \<noteq> 0 \<longleftrightarrow> s" "code a f s AND 6 \<noteq> 0 \<longleftrightarrow> f \<or> s"
proof -
  have "code a f s div 8 = int k" by (simp add: code_def)
  then show "nat (code a f s div 8) = k" by simp
  have m: "code a f s mod 8 = (if a then 1 else 0) + (if f then 2 else 0) + (if s then 4 else 0)" by (simp add: code_def)
  have t: "take_bit 3 1 = (1 :: int)" "take_bit 3 2 = (2 :: int)" "take_bit 3 4 = (4 :: int)" "take_bit 3 6 = (6 :: int)" by simp_all
  show "code a f s AND 1 \<noteq> 0 \<longleftrightarrow> a" unfolding code_low_bits [OF t(1), of "code a f s"] m by simp
  show "code a f s AND 2 \<noteq> 0 \<longleftrightarrow> f" unfolding code_low_bits [OF t(2), of "code a f s"] m by simp
  show "code a f s AND 4 \<noteq> 0 \<longleftrightarrow> s" unfolding code_low_bits [OF t(3), of "code a f s"] m by simp
  show "code a f s AND 6 \<noteq> 0 \<longleftrightarrow> f \<or> s" unfolding code_low_bits [OF t(4), of "code a f s"] m by simp
qed

section \<open>Outputs\<close>

definition storable_out :: "CTxOut \<Rightarrow> bool" where
  "storable_out t \<longleftrightarrow> t = txout_SetNull \<or> MoneyRange (nValue t) \<and> length (scriptPubKey t) \<le> MAX_SCRIPT_SIZE"

lemma storable_out_null: "storable_out t \<Longrightarrow> txout_IsNull t \<longleftrightarrow> t = txout_SetNull"
  by (auto simp: storable_out_def txout_IsNull_def txout_SetNull_def MoneyRange_def)

lemma nulls_read: "outs_Unserialize lib (replicate k False) is = Inr (replicate k txout_SetNull, is)"
  by (induction k) simp_all

lemma outs_round_trip:
  assumes "pubkeys_ok lib"
  shows "list_all storable_out ts \<Longrightarrow> \<exists>bs. outs_Serialize lib ts = Inr bs \<and>
    (\<forall>is. outs_Unserialize lib (map (\<lambda>t. \<not> txout_IsNull t) ts @ replicate k False) (bs @ is) = Inr (ts @ replicate k txout_SetNull, is))"
proof (induction ts)
  case Nil
  show ?case by (simp add: nulls_read)
next
  case (Cons t ts)
  then obtain cs where cs: "outs_Serialize lib ts = Inr cs"
    "\<And>is. outs_Unserialize lib (map (\<lambda>t. \<not> txout_IsNull t) ts @ replicate k False) (cs @ is) = Inr (ts @ replicate k txout_SetNull, is)" by auto
  show ?case
  proof (cases "txout_IsNull t")
    case True
    then show ?thesis using cs storable_out_null [of t] Cons(2) by simp
  next
    case False
    then have "MoneyRange (nValue t)" "length (scriptPubKey t) \<le> MAX_SCRIPT_SIZE" using Cons(2) storable_out_null [of t] by (auto simp: storable_out_def)
    then obtain bs where "txout_Serialize lib t = Inr bs" "\<And>t0 is. txout_Unserialize lib t0 (bs @ is) = Inr (t0\<lparr>nValue := nValue t, scriptPubKey := scriptPubKey t\<rparr>, is)"
      using txout_round_trip [OF assms] by blast
    moreover have "txout_SetNull\<lparr>nValue := nValue t, scriptPubKey := scriptPubKey t\<rparr> = t" by (simp add: txout_SetNull_def)
    ultimately show ?thesis using cs False by simp
  qed
qed

section \<open>Round trip\<close>

text \<open>The version as it is read back.\<close>

definition stored_version :: "int \<Rightarrow> int" where
  "stored_version v = (if v < 0 then v AND 0x7F else v)"

lemma stored_version_cert: "stored_version v AND 0x7F = v AND 0x7F"
  by (simp add: stored_version_def and.assoc)

lemma version_round_trip:
  assumes "fits I32 v"
  obtains bs where "WriteVarInt I32 v = Inr bs" "\<And>is. ReadVarInt I32 (bs @ is) = Inr (stored_version v, is)"
proof (cases "v < 0")
  case True
  then show ?thesis using WriteVarInt_neg [of v] that [of "[word_of_int (v AND 0x7F)]"] by (simp add: stored_version_def)
next
  case False
  then show ?thesis using WriteVarInt_ok [of v I32] assms that by (auto simp: stored_version_def)
qed

definition storable :: "CCoins \<Rightarrow> bool" where
  "storable c \<longleftrightarrow> canonical c \<and> length (vout c) < 2 ^ 31 \<and> list_all storable_out (vout c) \<and>
     0 \<le> nHeight c \<and> fits I32 (nHeight c) \<and> fits I32 (nVersion c) \<and> fits I32 (nFirstBwtPos c) \<and> fits I32 (nBwtMaturityHeight c) \<and>
     (\<not> IsFromCert c \<longrightarrow> nFirstBwtPos c = BWT_POS_UNSET \<and> nBwtMaturityHeight c = 0)"

lemma avail_of_outs: "length (vout c) \<le> n \<Longrightarrow> map (IsAvailable c) [0..<n] = map (\<lambda>t. \<not> txout_IsNull t) (vout c) @ replicate (n - length (vout c)) False"
  by (intro nth_equalityI) (auto simp: IsAvailable_def nth_append)

lemma pop_nulls_canonical: "canonical c \<Longrightarrow> pop_nulls (vout c @ replicate k txout_SetNull) = vout c"
proof (induction k)
  case 0
  then show ?case using pop_nulls.simps [of "vout c"] by (auto simp: canonical_def)
next
  case (Suc k)
  have r: "vout c @ replicate (Suc k) txout_SetNull = (vout c @ replicate k txout_SetNull) @ [txout_SetNull]" by (simp add: replicate_append_same)
  have "pop_nulls (vout c @ replicate (Suc k) txout_SetNull) = pop_nulls (vout c @ replicate k txout_SetNull)"
    unfolding r pop_nulls.simps [of "(vout c @ replicate k txout_SetNull) @ [txout_SetNull]"]
    by (simp add: butlast_append)
  then show ?case using Suc by simp
qed

lemma mask_round_trip:
  assumes "canonical c" "CalcMaskSize c = (M, N)"
  shows "read_mask (map (chAvail c) [0..<M] @ is) N [IsAvailable c 0, IsAvailable c 1] = Inr (map (IsAvailable c) [0..<2 + M * 8], is)"
    and "length (vout c) \<le> 2 + M * 8" and "8 * N \<le> length (vout c) + 5"
proof -
  have M: "M = (length (vout c) + 5) div 8" and N: "N = length (filter (byte_used c) [0..<M])" using CalcMaskSize_canonical [OF assms(1)] assms(2) by simp_all
  show "length (vout c) \<le> 2 + M * 8" unfolding M by linarith
  have "N \<le> M" using N length_filter_le [of "byte_used c" "[0..<M]"] by simp
  then show "8 * N \<le> length (vout c) + 5" unfolding M by linarith
  have first: "[IsAvailable c 0, IsAvailable c 1] @ map (IsAvailable c) [2..<2 + M * 8] = map (IsAvailable c) [0..<2 + M * 8]"
    using upt_add_eq_append [of 0 2 "M * 8"] by (simp add: numeral_2_eq_2)
  show "read_mask (map (chAvail c) [0..<M] @ is) N [IsAvailable c 0, IsAvailable c 1] = Inr (map (IsAvailable c) [0..<2 + M * 8], is)"
  proof (cases "2 < length (vout c)")
    case True
    then obtain m where m: "M = Suc m" "byte_used c m" using last_byte_used [OF assms(1)] M by auto
    then show ?thesis using read_mask_written [OF m(2), of 0 "is" "[IsAvailable c 0, IsAvailable c 1]"] first unfolding N m(1) by (simp del: upt_Suc)
  next
    case False
    then have "M = 0" unfolding M by simp
    then show ?thesis using N first by (simp add: numeral_2_eq_2)
  qed
qed

lemma not_pruned_code:
  assumes "canonical c" "\<not> IsPruned c" "CalcMaskSize c = (M, N)"
  shows "IsAvailable c 0 \<or> IsAvailable c 1 \<or> N \<noteq> 0"
proof (rule ccontr)
  assume a: "\<not> ?thesis"
  have M: "M = (length (vout c) + 5) div 8" and N: "N = length (filter (byte_used c) [0..<M])" using CalcMaskSize_canonical [OF assms(1)] assms(3) by simp_all
  have "length (vout c) \<le> 2"
  proof (rule ccontr)
    assume "\<not> length (vout c) \<le> 2"
    then obtain m where "M = Suc m" "byte_used c m" using last_byte_used [OF assms(1)] M by auto
    then show False using a N by simp
  qed
  then have "vout c = [] \<or> IsAvailable c 0 \<or> IsAvailable c 1" using assms(1)
    by (cases "vout c" rule: rev_cases) (auto simp: canonical_def IsAvailable_def nth_append le_Suc_eq numeral_2_eq_2)
  then show False using a assms(2) by (auto simp: IsPruned_def)
qed

lemma code_read:
  assumes "IsAvailable c 0 \<or> IsAvailable c 1 \<or> N \<noteq> 0" "8 * N + 8 < 2 ^ 32"
  defines "code \<equiv> int (coins_code c N)"
  shows "nat (code div 8) + (if code AND 6 \<noteq> 0 then 0 else 1) = N" "code AND 1 \<noteq> 0 \<longleftrightarrow> fCoinBase c"
    "code AND 2 \<noteq> 0 \<longleftrightarrow> IsAvailable c 0" "code AND 4 \<noteq> 0 \<longleftrightarrow> IsAvailable c 1" "0 \<le> code" "fits U32 code"
proof -
  let ?k = "N - (if IsAvailable c 0 \<or> IsAvailable c 1 then 0 else 1)"
  let ?code = "8 * ?k + (if fCoinBase c then 1 else 0) + (if IsAvailable c 0 then 2 else 0) + (if IsAvailable c 1 then 4 else 0)"
  have "8 * ?k \<le> 8 * N" "?code \<le> 8 * ?k + 7" by simp_all
  then have b: "?code < 2 ^ 32" using assms(2) by linarith
  then have e: "code = int ?code" unfolding code_def coins_code_def Let_def by (metis mod_less)
  note f = code_fields [of ?k "fCoinBase c" "IsAvailable c 0" "IsAvailable c 1", folded e]
  show "code AND 1 \<noteq> 0 \<longleftrightarrow> fCoinBase c" "code AND 2 \<noteq> 0 \<longleftrightarrow> IsAvailable c 0" "code AND 4 \<noteq> 0 \<longleftrightarrow> IsAvailable c 1" by (rule f)+
  show "nat (code div 8) + (if code AND 6 \<noteq> 0 then 0 else 1) = N" unfolding f(1) f(5) using assms(1) by (cases N) auto
  show "0 \<le> code" by (simp add: code_def)
  show "fits U32 code" using b unfolding e fits_def by simp
qed

text \<open>C11: coins with an unspent output that are written to the database are read back as they were, with a negative version replaced by its lowest seven bits, and leave the
  rest of the stream; the bit mask ends at its last byte that is not zero, so the reader stops where the writer did.\<close>

theorem coins_stored_and_read:
  assumes lib: "pubkeys_ok lib" and c: "storable c" and p: "\<not> IsPruned c"
  shows "\<exists>bs. CCoins_Serialize lib c = Inr bs \<and> (\<forall>is. CCoins_Unserialize lib CCoins_new (bs @ is) = Inr (c\<lparr>nVersion := stored_version (nVersion c)\<rparr>, is))"
proof -
  have s: "canonical c" "length (vout c) < 2 ^ 31" "list_all storable_out (vout c)" "0 \<le> nHeight c" "fits I32 (nHeight c)" "fits I32 (nVersion c)"
    "fits I32 (nFirstBwtPos c)" "fits I32 (nBwtMaturityHeight c)" "\<not> IsFromCert c \<longrightarrow> nFirstBwtPos c = BWT_POS_UNSET \<and> nBwtMaturityHeight c = 0"
    using c by (simp_all add: storable_def)
  obtain M N where mn: "CalcMaskSize c = (M, N)" by fastforce
  note m = mask_round_trip [OF s(1) mn]
  have a: "IsAvailable c 0 \<or> IsAvailable c 1 \<or> N \<noteq> 0" by (rule not_pruned_code [OF s(1) p mn])
  have "8 * N + 8 < 2 ^ 32" using m(3) s(2) by simp
  note cr = code_read [OF a this]
  obtain v where v: "WriteVarInt I32 (nVersion c) = Inr v" "\<And>is. ReadVarInt I32 (v @ is) = Inr (stored_version (nVersion c), is)" using version_round_trip [OF s(6)] by blast
  obtain k where k: "WriteVarInt U32 (int (coins_code c N)) = Inr k" "\<And>is. ReadVarInt U32 (k @ is) = Inr (int (coins_code c N), is)" using WriteVarInt_ok [OF cr(5,6)] by blast
  obtain h where h: "WriteVarInt I32 (nHeight c) = Inr h" "\<And>is. ReadVarInt I32 (h @ is) = Inr (nHeight c, is)" using WriteVarInt_ok [OF s(4,5)] by blast
  let ?r = "2 + M * 8 - length (vout c)"
  obtain os where o: "outs_Serialize lib (vout c) = Inr os"
    "\<And>is. outs_Unserialize lib (map (IsAvailable c) [0..<2 + M * 8]) (os @ is) = Inr (vout c @ replicate ?r txout_SetNull, is)"
    using outs_round_trip [OF lib s(3), of ?r] unfolding avail_of_outs [OF m(2)] by blast
  let ?t = "if IsFromCert c then ser_uint32 (nFirstBwtPos c) @ ser_uint32 (nBwtMaturityHeight c) else []"
  have w: "CCoins_Serialize lib c = Inr (v @ k @ map (chAvail c) [0..<M] @ os @ h @ ?t)"
    unfolding CCoins_Serialize_def mn using a v(1) k(1) h(1) o(1) by simp
  have "CCoins_Unserialize lib CCoins_new ((v @ k @ map (chAvail c) [0..<M] @ os @ h @ ?t) @ is) = Inr (c\<lparr>nVersion := stored_version (nVersion c)\<rparr>, is)" for "is"
    unfolding CCoins_Unserialize_def append_assoc v(2) bindR_simps k(2) prod.case Let_def cr(1-4) m(1) o(2) h(2)
    using s(7-9) pop_nulls_canonical [OF s(1), of ?r] stored_version_cert [of "nVersion c"]
    by (simp add: IsFromCert_def read_ser_uint32 Cleanup_def CCoins_new_def)
  then show ?thesis using w by blast
qed

theorem coins_stored_and_read_witness:
  "let c = \<lparr>fCoinBase = False, vout = [txout_SetNull, \<lparr>nValue = 5, scriptPubKey = [65, 4] @ replicate 64 7 @ [OP_CHECKSIG]\<rparr>, txout_SetNull, \<lparr>nValue = 30000, scriptPubKey = []\<rparr>],
             nHeight = 10, nVersion = - 5, nFirstBwtPos = 1, nBwtMaturityHeight = 20\<rparr> in
   \<exists>bs. CCoins_Serialize one_pubkey c = Inr bs \<and> CCoins_Unserialize one_pubkey CCoins_new (bs @ [1]) = Inr (c\<lparr>nVersion := 123\<rparr>, [1])"
proof -
  let ?c = "\<lparr>fCoinBase = False, vout = [txout_SetNull, \<lparr>nValue = 5, scriptPubKey = [65, 4] @ replicate 64 7 @ [OP_CHECKSIG]\<rparr>, txout_SetNull, \<lparr>nValue = 30000, scriptPubKey = []\<rparr>],
             nHeight = 10, nVersion = - 5, nFirstBwtPos = 1, nBwtMaturityHeight = 20\<rparr>"
  have "storable ?c" by (simp add: storable_def canonical_def storable_out_def txout_IsNull_def fits_def MoneyRange_def MAX_MONEY_def COIN_def MAX_SCRIPT_SIZE_def IsFromCert_def SC_CERT_VERSION_def)
  moreover have "\<not> IsPruned ?c" by (simp add: IsPruned_def txout_IsNull_def)
  ultimately show ?thesis using coins_stored_and_read [OF one_pubkey_ok, of ?c] by (auto simp: stored_version_def Let_def)
qed

section \<open>The coins of the chain state can be stored\<close>

lemma ClearUnspendable_outs:
  assumes "length (vout c) < 2 ^ 31" "\<forall>t \<in> set (vout c). t = txout_SetNull \<or> MoneyRange (nValue t)"
  shows "list_all storable_out (vout (ClearUnspendable c)) \<and> length (vout (ClearUnspendable c)) < 2 ^ 31"
proof -
  let ?f = "\<lambda>t. if IsUnspendable (scriptPubKey t) then txout_SetNull else t"
  have "vout (ClearUnspendable c) = pop_nulls (map ?f (vout c))" by (simp add: ClearUnspendable_def Cleanup_def)
  moreover have "storable_out (?f t)" if "t \<in> set (vout c)" for t using assms(2) that by (auto simp: storable_out_def IsUnspendable_def)
  ultimately show ?thesis using assms(1) pop_nulls_set [of "map ?f (vout c)"] pop_nulls_length [of "map ?f (vout c)"] by (fastforce simp: list_all_iff)
qed

lemma From_tx_storable:
  assumes "\<forall>t \<in> set (tx_vout tx). MoneyRange (nValue t)" "length (tx_vout tx) < 2 ^ 31" "fits I32 (tx_nVersion tx)" "0 \<le> h" "fits I32 h"
    "tx_nVersion tx AND 0x7F \<noteq> SC_CERT_VERSION AND 0x7F"
  shows "storable (From_tx tx h)"
  using assms ClearUnspendable_outs [of "\<lparr>fCoinBase = tx_IsCoinBase tx, vout = tx_vout tx, nHeight = h, nVersion = tx_nVersion tx, nFirstBwtPos = BWT_POS_UNSET, nBwtMaturityHeight = 0\<rparr>"]
    ClearUnspendable_canonical [of "\<lparr>fCoinBase = tx_IsCoinBase tx, vout = tx_vout tx, nHeight = h, nVersion = tx_nVersion tx, nFirstBwtPos = BWT_POS_UNSET, nBwtMaturityHeight = 0\<rparr>"]
  by (auto simp: storable_def From_tx_def ClearUnspendable_def Cleanup_def IsFromCert_def fits_def BWT_POS_UNSET_def)

lemma Spend_storable:
  assumes "storable c" shows "storable (fst (Spend n c))"
proof (cases "IsAvailable c n")
  case True
  let ?c = "Cleanup (c\<lparr>vout := (vout c)[n := txout_SetNull]\<rparr>)"
  have e: "fst (Spend n c) = ?c" using True by (auto simp: Spend_def IsAvailable_def)
  have "set (vout ?c) \<subseteq> insert txout_SetNull (set (vout c))" using pop_nulls_set set_update_subset_insert by (fastforce simp: Cleanup_def)
  moreover have "length (vout ?c) < 2 ^ 31" using assms pop_nulls_length [of "(vout c)[n := txout_SetNull]"] by (simp add: storable_def Cleanup_def)
  ultimately show ?thesis unfolding e using assms Cleanup_canonical [of "c\<lparr>vout := (vout c)[n := txout_SetNull]\<rparr>"]
    by (auto simp: storable_def Cleanup_def IsFromCert_def list_all_iff storable_out_def)
next
  case False
  then have "Spend n c = (c, False)" by (auto simp: Spend_def IsAvailable_def)
  then show ?thesis using assms by simp
qed

lemma spend_from_outs:
  "set (vout (spend_from p c)) \<subseteq> insert txout_SetNull (set (vout c)) \<and> length (vout (spend_from p c)) \<le> length (vout c)"
proof (induction p c rule: spend_from.induct)
  case (1 p c)
  have s: "set (vout (fst (Spend p c))) \<subseteq> insert txout_SetNull (set (vout c))"
    using pop_nulls_set [of "(vout c)[p := txout_SetNull]"] set_update_subset_insert [of "vout c" p txout_SetNull] by (auto simp: Spend_def Cleanup_def)
  show ?case
  proof (cases "p < length (vout c)")
    case True
    then have "spend_from p c = spend_from (p + 1) (fst (Spend p c))" by (simp add: spend_from.simps [of p c])
    then show ?thesis using 1 [OF True] s Spend_length [of p c] by auto
  next
    case False
    then show ?thesis by (simp add: spend_from.simps [of p c] subset_insertI)
  qed
qed

lemma spend_from_fields:
  "nHeight (spend_from p c) = nHeight c \<and> nVersion (spend_from p c) = nVersion c \<and> nFirstBwtPos (spend_from p c) = nFirstBwtPos c \<and> nBwtMaturityHeight (spend_from p c) = nBwtMaturityHeight c"
proof (induction p c rule: spend_from.induct)
  case (1 p c)
  then show ?case by (cases "p < length (vout c)") (simp_all add: spend_from.simps [of p c])
qed

lemma From_cert_storable:
  assumes o: "\<forall>t \<in> set (cert_vout cert). MoneyRange (nValue t)" "length (cert_vout cert) < 2 ^ 31"
    and f: "fits I32 (cert_nVersion cert)" "0 \<le> h" "fits I32 h" "fits I32 m" "fits I32 (cert_nFirstBwtPos cert)" "cert_nVersion cert AND 0x7F = SC_CERT_VERSION AND 0x7F"
  shows "storable (From_cert cert h m top)"
proof -
  let ?c = "\<lparr>fCoinBase = False, vout = cert_vout cert, nHeight = h, nVersion = cert_nVersion cert, nFirstBwtPos = cert_nFirstBwtPos cert, nBwtMaturityHeight = m\<rparr>"
  let ?d = "if \<not> top then spend_from (to_u32 (nFirstBwtPos ?c)) ?c else ?c"
  have e: "From_cert cert h m top = ClearUnspendable ?d" by (simp add: From_cert_def Let_def)
  have "length (vout ?d) < 2 ^ 31" "\<forall>t \<in> set (vout ?d). t = txout_SetNull \<or> MoneyRange (nValue t)" using o spend_from_outs [of "to_u32 (nFirstBwtPos ?c)" ?c] by auto
  from ClearUnspendable_outs [OF this] show ?thesis
    using f ClearUnspendable_canonical [of ?d] spend_from_fields [of "to_u32 (nFirstBwtPos ?c)" ?c]
    unfolding e storable_def IsFromCert_def by (auto simp: ClearUnspendable_def Cleanup_def)
qed

lemma pruned_not_stored: "canonical c \<Longrightarrow> IsPruned c \<Longrightarrow> CCoins_Serialize lib c = Inl Assert"
proof -
  assume c: "canonical c" "IsPruned c"
  then have "vout c = []" by (metis canonical_def IsPruned_def list_all_iff last_in_set)
  then show ?thesis by (simp add: CCoins_Serialize_def CalcMaskSize_def mask_loop.simps IsAvailable_def)
qed

end
