(* ===== verification/UndoStore.thy ===== *)
theory UndoStore
  imports CoinsStore BlockOps Interpreter "HOL-Library.List_Lexorder"
begin

text \<open>
  The undo data of blocks on disk: the serialization of vectors and maps (\<open>serialize.h\<close>), of \<open>CTxInUndo\<close>, \<open>CSidechainUndoData\<close> and \<open>CBlockUndo\<close>
  (\<open>undo.h\<close>), and \<open>UndoWriteToDisk\<close> and \<open>UndoReadFromDisk\<close> (\<open>main.cpp\<close>). What is written for a block is read back for it, and the checksum that
  binds it to the block is accepted.
\<close>

section \<open>Vectors and maps\<close>

primrec entries_Serialize :: "('a \<Rightarrow> bytes result) \<Rightarrow> 'a list \<Rightarrow> bytes result" where
  "entries_Serialize ser [] = Inr []"
| "entries_Serialize ser (x # xs) = bindR (ser x) (\<lambda>bs. bindR (entries_Serialize ser xs) (\<lambda>cs. Inr (bs @ cs)))"

definition vec_Serialize :: "('a \<Rightarrow> bytes result) \<Rightarrow> 'a list \<Rightarrow> bytes result" where
  "vec_Serialize ser v = bindR (entries_Serialize ser v) (\<lambda>bs. Inr (WriteCompactSize (length v) @ bs))"

text \<open>The entries are read one after the other into new objects; the source grows the vector in steps, which bounds the memory a wrong size can take.\<close>

primrec AddEntriesInVector :: "(bytes \<Rightarrow> ('a \<times> bytes) result) \<Rightarrow> nat \<Rightarrow> bytes \<Rightarrow> ('a list \<times> bytes) result" where
  "AddEntriesInVector rd 0 is = Inr ([], is)"
| "AddEntriesInVector rd (Suc n) is = bindR (rd is) (\<lambda>(x, is). bindR (AddEntriesInVector rd n is) (\<lambda>(xs, is). Inr (x # xs, is)))"

definition vec_Unserialize :: "(bytes \<Rightarrow> ('a \<times> bytes) result) \<Rightarrow> bytes \<Rightarrow> ('a list \<times> bytes) result" where
  "vec_Unserialize rd is = bindR (ReadCompactSize is) (\<lambda>(nSize, is). AddEntriesInVector rd nSize is)"

definition bytes_Serialize :: "bytes \<Rightarrow> bytes" where
  "bytes_Serialize v = WriteCompactSize (length v) @ v"

definition bytes_Unserialize :: "bytes \<Rightarrow> (bytes \<times> bytes) result" where
  "bytes_Unserialize is = bindR (ReadCompactSize is) (\<lambda>(nSize, is). take_bytes nSize is)"

definition read_uint256 :: "bytes \<Rightarrow> (uint256 \<times> bytes) result" where
  "read_uint256 is = bindR (read_le 32 is) (\<lambda>(n, is). Inr (word_of_nat n, is))"

text \<open>A \<open>std::map\<close> keyed by hashes is iterated in the order of the keys, which compares their bytes; inserting an entry whose key is there changes nothing.\<close>

definition map_Serialize :: "('a \<Rightarrow> bytes result) \<Rightarrow> (uint256 \<times> 'a) list \<Rightarrow> bytes result" where
  "map_Serialize ser m = vec_Serialize (\<lambda>(k, x). bindR (ser x) (\<lambda>bs. Inr (vch32 k @ bs))) (sort_key (\<lambda>(k, x). vch32 k) m)"

definition map_Unserialize :: "(bytes \<Rightarrow> ('a \<times> bytes) result) \<Rightarrow> bytes \<Rightarrow> ((uint256 \<times> 'a) list \<times> bytes) result" where
  "map_Unserialize rd is =
     bindR (vec_Unserialize (\<lambda>is. bindR (read_uint256 is) (\<lambda>(k, is). bindR (rd is) (\<lambda>(x, is). Inr ((k, x), is)))) is) (\<lambda>(items, is).
     Inr (foldl (\<lambda>m (k, x). if k \<in> fst ` set m then m else m @ [(k, x)]) [] items, is))"

section \<open>Undo data\<close>

definition CTxInUndo_Serialize :: "PubKeyLib \<Rightarrow> CTxInUndo \<Rightarrow> bytes result" where
  "CTxInUndo_Serialize lib u =
     bindR (WriteVarInt U32 ((u_nHeight u * 2 + (if u_fCoinBase u then 1 else 0)) mod 2 ^ 32)) (\<lambda>code.
     bindR (if u_nHeight u > 0 then WriteVarInt I32 (u_nVersion u) else Inr []) (\<lambda>version.
     bindR (txout_Serialize lib (u_txout u)) (\<lambda>txout.
     Inr (code @ version @ txout @
          (if u_nHeight u > 0 \<and> u_nVersion u AND 0x7F = SC_CERT_VERSION AND 0x7F
           then ser_uint32 (u_nFirstBwtPos u) @ ser_uint32 (u_nBwtMaturityHeight u) else [])))))"

definition CTxInUndo_Unserialize :: "PubKeyLib \<Rightarrow> CTxInUndo \<Rightarrow> bytes \<Rightarrow> (CTxInUndo \<times> bytes) result" where
  "CTxInUndo_Unserialize lib u is =
     bindR (ReadVarInt U32 is) (\<lambda>(nCode, is).
     let u = u\<lparr>u_nHeight := nCode div 2, u_fCoinBase := nCode AND 1 \<noteq> 0\<rparr> in
     bindR (if u_nHeight u > 0 then ReadVarInt I32 is else Inr (u_nVersion u, is)) (\<lambda>(version, is).
     bindR (txout_Unserialize lib (u_txout u) is) (\<lambda>(txout, is).
     let u = u\<lparr>u_nVersion := version, u_txout := txout\<rparr> in
     if u_nHeight u > 0 \<and> u_nVersion u AND 0x7F = SC_CERT_VERSION AND 0x7F then
       bindR (read_int32 is) (\<lambda>(pos, is).
       bindR (read_int32 is) (\<lambda>(mat, is). Inr (u\<lparr>u_nFirstBwtPos := pos, u_nBwtMaturityHeight := mat\<rparr>, is)))
     else Inr (u, is))))"

definition certView_Serialize :: "CScCertificateView \<Rightarrow> bytes" where
  "certView_Serialize w = bytes_Serialize (certDataHash w) @ ser_uint64 (view_forwardTransferScFee w) @ ser_uint64 (view_mbtrScFee w)"

definition certView_Unserialize :: "bytes \<Rightarrow> (CScCertificateView \<times> bytes) result" where
  "certView_Unserialize is =
     bindR (bytes_Unserialize is) (\<lambda>(h, is). bindR (read_int64 is) (\<lambda>(ft, is). bindR (read_int64 is) (\<lambda>(mbtr, is).
     Inr (\<lparr>certDataHash = h, view_forwardTransferScFee = ft, view_mbtrScFee = mbtr\<rparr>, is))))"

definition ScFeeData_Serialize :: "ScFeeData \<Rightarrow> bytes result" where
  "ScFeeData_Serialize d = Inr (ser_uint64 (forwardTxScFee d) @ ser_uint64 (mbtrTxScFee d))"

definition ScFeeData_Unserialize :: "bytes \<Rightarrow> (ScFeeData \<times> bytes) result" where
  "ScFeeData_Unserialize is = bindR (read_int64 is) (\<lambda>(f, is). bindR (read_int64 is) (\<lambda>(m, is). Inr (\<lparr>forwardTxScFee = f, mbtrTxScFee = m\<rparr>, is)))"

definition CSidechainUndoData_Serialize :: "PubKeyLib \<Rightarrow> CSidechainUndoData \<Rightarrow> bytes result" where
  "CSidechainUndoData_Serialize lib ud =
     bindR (if has_section ud CROSS_EPOCH_CERT_DATA
            then bindR (vec_Serialize ScFeeData_Serialize (ud_scFees ud)) (\<lambda>fees. Inr (certView_Serialize (ud_pastEpochTopQualityCertView ud) @ fees)) else Inr []) (\<lambda>cross.
     bindR (if has_section ud SUPERSEDED_CERT_DATA then vec_Serialize (CTxInUndo_Serialize lib) (lowQualityBwts ud) else Inr []) (\<lambda>low.
     bindR (if has_section ud CEASED_CERT_DATA then vec_Serialize (CTxInUndo_Serialize lib) (ceasedBwts ud) else Inr []) (\<lambda>ceased.
     Inr (ser_uint32 (uint (sidechainUndoDataVersion ud)) @ [contentBitMask ud] @
          (if has_section ud MATURED_AMOUNTS then ser_uint64 (appliedMaturedAmount ud) else []) @
          cross @
          (if has_section ud ANY_EPOCH_CERT_DATA
           then vch32 (prevTopCommittedCertHash ud) @ ser_uint32 (prevTopCommittedCertReferencedEpoch ud) @ ser_uint64 (prevTopCommittedCertQuality ud) @
             ser_uint64 (prevTopCommittedCertBwtAmount ud) @ certView_Serialize (ud_lastTopQualityCertView ud) else []) @
          low @ ceased))))"

definition CTxInUndo_new :: CTxInUndo where "CTxInUndo_new = CTxInUndo_of txout_SetNull"

definition CSidechainUndoData_Unserialize :: "PubKeyLib \<Rightarrow> CSidechainUndoData \<Rightarrow> bytes \<Rightarrow> (CSidechainUndoData \<times> bytes) result" where
  "CSidechainUndoData_Unserialize lib ud is =
     bindR (read_le 4 is) (\<lambda>(version, is).
     bindR (read_uint8 is) (\<lambda>(mask, is).
     let ud = ud\<lparr>sidechainUndoDataVersion := word_of_nat version, contentBitMask := mask\<rparr> in
     bindR (if has_section ud MATURED_AMOUNTS then bindR (read_int64 is) (\<lambda>(a, is). Inr (ud\<lparr>appliedMaturedAmount := a\<rparr>, is)) else Inr (ud, is)) (\<lambda>(ud, is).
     bindR (if has_section ud CROSS_EPOCH_CERT_DATA
            then bindR (certView_Unserialize is) (\<lambda>(w, is). bindR (vec_Unserialize ScFeeData_Unserialize is) (\<lambda>(fees, is).
              Inr (ud\<lparr>ud_pastEpochTopQualityCertView := w, ud_scFees := fees\<rparr>, is))) else Inr (ud, is)) (\<lambda>(ud, is).
     bindR (if has_section ud ANY_EPOCH_CERT_DATA
            then bindR (read_uint256 is) (\<lambda>(h, is). bindR (read_int32 is) (\<lambda>(epoch, is). bindR (read_int64 is) (\<lambda>(quality, is).
              bindR (read_int64 is) (\<lambda>(amount, is). bindR (certView_Unserialize is) (\<lambda>(w, is).
              Inr (ud\<lparr>prevTopCommittedCertHash := h, prevTopCommittedCertReferencedEpoch := epoch, prevTopCommittedCertQuality := quality,
                      prevTopCommittedCertBwtAmount := amount, ud_lastTopQualityCertView := w\<rparr>, is)))))) else Inr (ud, is)) (\<lambda>(ud, is).
     bindR (if has_section ud SUPERSEDED_CERT_DATA
            then bindR (vec_Unserialize (CTxInUndo_Unserialize lib CTxInUndo_new) is) (\<lambda>(us, is). Inr (ud\<lparr>lowQualityBwts := us\<rparr>, is)) else Inr (ud, is)) (\<lambda>(ud, is).
     if has_section ud CEASED_CERT_DATA
     then bindR (vec_Unserialize (CTxInUndo_Unserialize lib CTxInUndo_new) is) (\<lambda>(us, is). Inr (ud\<lparr>ceasedBwts := us\<rparr>, is)) else Inr (ud, is)))))))"

section \<open>Block undo data and its file\<close>

text \<open>The flag \<open>includesSidechainAttributes\<close>, which is in memory only, is an argument of the writer and a result of the reader.\<close>

definition undo_marker :: nat where "undo_marker = 0xffff"

definition CBlockUndo_Serialize :: "PubKeyLib \<Rightarrow> bool \<Rightarrow> CBlockUndo \<Rightarrow> bytes result" where
  "CBlockUndo_Serialize lib includesSidechainAttributes bu =
     bindR (vec_Serialize (vec_Serialize (CTxInUndo_Serialize lib)) (vtxundo bu)) (\<lambda>txs.
     if includesSidechainAttributes then
       bindR (map_Serialize (CSidechainUndoData_Serialize lib) (scUndoDatabyScId bu)) (\<lambda>scs.
       Inr (WriteCompactSize undo_marker @ txs @ vch32 (old_tree_root bu) @ scs))
     else Inr (txs @ vch32 (old_tree_root bu)))"

definition CBlockUndo_Unserialize :: "PubKeyLib \<Rightarrow> CBlockUndo \<Rightarrow> bytes \<Rightarrow> ((CBlockUndo \<times> bool) \<times> bytes) result" where
  "CBlockUndo_Unserialize lib bu is =
     bindR (ReadCompactSize is) (\<lambda>(nSize, is).
     if nSize = undo_marker then
       bindR (vec_Unserialize (vec_Unserialize (CTxInUndo_Unserialize lib CTxInUndo_new)) is) (\<lambda>(txs, is).
       bindR (read_uint256 is) (\<lambda>(root, is).
       bindR (map_Unserialize (CSidechainUndoData_Unserialize lib CSidechainUndoData_new) is) (\<lambda>(scs, is).
       Inr ((bu\<lparr>vtxundo := txs, old_tree_root := root, scUndoDatabyScId := scs\<rparr>, True), is))))
     else
       bindR (AddEntriesInVector (vec_Unserialize (CTxInUndo_Unserialize lib CTxInUndo_new)) nSize is) (\<lambda>(txs, is).
       bindR (read_uint256 is) (\<lambda>(root, is).
       Inr ((bu\<lparr>vtxundo := txs, old_tree_root := root\<rparr>, False), is))))"

text \<open>A file is its bytes; writing at a position keeps what is before it and what is after the new bytes.\<close>

definition write_at :: "nat \<Rightarrow> bytes \<Rightarrow> bytes \<Rightarrow> bytes" where
  "write_at pos bs file = take pos file @ replicate (pos - length file) 0 @ bs @ drop (pos + length bs) file"

definition UndoWriteToDisk :: "PubKeyLib \<Rightarrow> (bytes \<Rightarrow> uint256) \<Rightarrow> bytes \<Rightarrow> bool \<Rightarrow> CBlockUndo \<Rightarrow> nat \<Rightarrow> uint256 \<Rightarrow> bytes \<Rightarrow> (nat \<times> bytes) result" where
  "UndoWriteToDisk lib Hash messageStart includesSidechainAttributes blockundo pos hashOfBlock file =
     bindR (CBlockUndo_Serialize lib includesSidechainAttributes blockundo) (\<lambda>data.
     let header = messageStart @ ser_uint32 (int (length data)) in
     Inr (pos + length header, write_at pos (header @ data @ vch32 (Hash (vch32 hashOfBlock @ data))) file))"

definition UndoReadFromDisk :: "PubKeyLib \<Rightarrow> (bytes \<Rightarrow> uint256) \<Rightarrow> CBlockUndo \<Rightarrow> nat \<Rightarrow> uint256 \<Rightarrow> bytes \<Rightarrow> (CBlockUndo \<times> bool) result" where
  "UndoReadFromDisk lib Hash blockundo pos hashOfBlock file =
     (case bindR (CBlockUndo_Unserialize lib blockundo (drop pos file)) (\<lambda>(r, is). bindR (read_uint256 is) (\<lambda>(hashChecksum, is). Inr (r, hashChecksum))) of
        Inl (Throw e) \<Rightarrow> Inl RetFalse
      | Inl e \<Rightarrow> Inl e
      | Inr ((blockundo, includesSidechainAttributes), hashChecksum) \<Rightarrow>
          bindR (CBlockUndo_Serialize lib includesSidechainAttributes blockundo) (\<lambda>data.
          if hashChecksum \<noteq> Hash (vch32 hashOfBlock @ data) then Inl RetFalse else Inr (blockundo, includesSidechainAttributes)))"

section \<open>Codecs\<close>

text \<open>What a pair of a writer and a reader promises: the values of a domain can be written, are read back up to a normal form, and the normal form is written the same.\<close>

locale codec =
  fixes ser :: "'a \<Rightarrow> bytes result" and rd :: "bytes \<Rightarrow> ('a \<times> bytes) result" and ok :: "'a \<Rightarrow> bool" and norm :: "'a \<Rightarrow> 'a"
  assumes written: "ok x \<Longrightarrow> \<exists>bs. ser x = Inr bs \<and> (\<forall>is. rd (bs @ is) = Inr (norm x, is))"
    and again: "ok x \<Longrightarrow> ser (norm x) = ser x"
begin

lemma entries_written:
  "list_all ok xs \<Longrightarrow> \<exists>bs. entries_Serialize ser xs = Inr bs \<and> (\<forall>is. AddEntriesInVector rd (length xs) (bs @ is) = Inr (map norm xs, is))"
proof (induction xs)
  case (Cons x xs)
  then obtain cs where "entries_Serialize ser xs = Inr cs" "\<And>is. AddEntriesInVector rd (length xs) (cs @ is) = Inr (map norm xs, is)" by auto
  moreover obtain bs where "ser x = Inr bs" "\<And>is. rd (bs @ is) = Inr (norm x, is)" using written [of x] Cons(2) by auto
  ultimately show ?case by simp
qed simp

lemma entries_again: "list_all ok xs \<Longrightarrow> entries_Serialize ser (map norm xs) = entries_Serialize ser xs"
  by (induction xs) (simp_all add: again)

lemma vector_codec: "codec (vec_Serialize ser) (vec_Unserialize rd) (\<lambda>v. list_all ok v \<and> length v \<le> MAX_SERIALIZED_COMPACT_SIZE) (map norm)"
proof
  fix v assume v: "list_all ok v \<and> length v \<le> MAX_SERIALIZED_COMPACT_SIZE"
  then obtain bs where "entries_Serialize ser v = Inr bs" "\<And>is. AddEntriesInVector rd (length v) (bs @ is) = Inr (map norm v, is)" using entries_written by blast
  then show "\<exists>bs. vec_Serialize ser v = Inr bs \<and> (\<forall>is. vec_Unserialize rd (bs @ is) = Inr (map norm v, is))"
    using v by (simp add: vec_Serialize_def vec_Unserialize_def ReadWriteCompactSize)
  show "vec_Serialize ser (map norm v) = vec_Serialize ser v" using v by (simp add: vec_Serialize_def entries_again)
qed

end

lemma read_vch32 [simp]: "read_uint256 (vch32 h @ is) = Inr (h, is)"
proof -
  have "unat h < 256 ^ 32" using unsigned_less [of h, where ?'a = nat] by simp
  then show ?thesis by (simp add: read_uint256_def vch32_def)
qed

lemma keyed_codec:
  assumes "codec ser rd ok norm"
  shows "codec (\<lambda>(k, x). bindR (ser x) (\<lambda>bs. Inr (vch32 k @ bs))) (\<lambda>is. bindR (read_uint256 is) (\<lambda>(k, is). bindR (rd is) (\<lambda>(x, is). Inr ((k, x), is))))
    (\<lambda>(k, x). ok x) (\<lambda>(k, x). (k, norm x))"
proof
  fix p assume p: "(\<lambda>(k, x). ok x) (p :: uint256 \<times> 'a)"
  obtain k x where kx: "p = (k, x)" by fastforce
  obtain bs where "ser x = Inr bs" "\<And>is. rd (bs @ is) = Inr (norm x, is)" using codec.written [OF assms, of x] p kx by auto
  then show "\<exists>bs. (\<lambda>(k, x). bindR (ser x) (\<lambda>bs. Inr (vch32 k @ bs))) p = Inr bs \<and>
      (\<forall>is. bindR (read_uint256 (bs @ is)) (\<lambda>(k, is). bindR (rd is) (\<lambda>(x, is). Inr ((k, x), is))) = Inr ((\<lambda>(k, x). (k, norm x)) p, is))" by (simp add: kx)
  show "(\<lambda>(k, x). bindR (ser x) (\<lambda>bs. Inr (vch32 k @ bs))) ((\<lambda>(k, x). (k, norm x)) p) = (\<lambda>(k, x). bindR (ser x) (\<lambda>bs. Inr (vch32 k @ bs))) p"
    using codec.again [OF assms, of x] p by (simp add: kx)
qed

lemma insert_all: "distinct (map fst (m @ items)) \<Longrightarrow> foldl (\<lambda>m (k, x). if k \<in> fst ` set m then m else m @ [(k, x)]) m items = m @ items"
proof (induction items arbitrary: m)
  case (Cons i items)
  obtain k x where "i = (k, x)" by fastforce
  then show ?case using Cons(1) [of "m @ [(k, x)]"] Cons(2) by auto
qed simp

definition map_norm :: "('a \<Rightarrow> 'a) \<Rightarrow> (uint256 \<times> 'a) list \<Rightarrow> (uint256 \<times> 'a) list" where
  "map_norm norm m = map (\<lambda>(k, x). (k, norm x)) (sort_key (\<lambda>(k, x). vch32 k) m)"

lemma map_norm_map_of: "distinct (map fst m) \<Longrightarrow> map_of (map_norm norm m) k = map_option norm (map_of m k)"
proof -
  assume d: "distinct (map fst m)"
  have "map_of (sort_key (\<lambda>(k, x). vch32 k) m) = map_of m" using d by (intro map_of_inject_set [THEN iffD2]) (simp_all add: distinct_map)
  then show ?thesis by (simp add: map_norm_def map_of_map)
qed

lemma map_codec:
  assumes "codec ser rd ok norm"
  shows "codec (map_Serialize ser) (map_Unserialize rd) (\<lambda>m. list_all (\<lambda>(k, x). ok x) m \<and> length m \<le> MAX_SERIALIZED_COMPACT_SIZE \<and> distinct (map fst m)) (map_norm norm)"
proof
  fix m :: "(uint256 \<times> 'a) list"
  assume m: "list_all (\<lambda>(k, x). ok x) m \<and> length m \<le> MAX_SERIALIZED_COMPACT_SIZE \<and> distinct (map fst m)"
  let ?s = "sort_key (\<lambda>(k, x). vch32 k) m"
  note v = codec.vector_codec [OF keyed_codec [OF assms]]
  have s: "list_all (\<lambda>(k, x). ok x) ?s \<and> length ?s \<le> MAX_SERIALIZED_COMPACT_SIZE" using m by (simp add: list_all_iff)
  have d: "distinct (map fst (map_norm norm m))" using m by (simp add: map_norm_def comp_def case_prod_beta distinct_map)
  from codec.written [OF v s] obtain bs where "map_Serialize ser m = Inr bs"
    "\<And>is. vec_Unserialize (\<lambda>is. bindR (read_uint256 is) (\<lambda>(k, is). bindR (rd is) (\<lambda>(x, is). Inr ((k, x), is)))) (bs @ is) = Inr (map_norm norm m, is)"
    unfolding map_Serialize_def map_norm_def by blast
  then show "\<exists>bs. map_Serialize ser m = Inr bs \<and> (\<forall>is. map_Unserialize rd (bs @ is) = Inr (map_norm norm m, is))"
    using insert_all [of "[]" "map_norm norm m"] d by (simp add: map_Unserialize_def)
  have "(\<lambda>(k, x). vch32 k) \<circ> (\<lambda>(k, x). (k, norm x)) = (\<lambda>(k, x). vch32 k)" by auto
  then have "sorted (map (\<lambda>(k, x). vch32 k) (map_norm norm m))" using sorted_sort_key [of "\<lambda>(k, x). vch32 k" m] by (simp add: map_norm_def)
  then have "sort_key (\<lambda>(k, x). vch32 k) (map_norm norm m) = map_norm norm m" by (rule sort_key_id_if_sorted)
  then show "map_Serialize ser (map_norm norm m) = map_Serialize ser m" using codec.again [OF v s] by (simp add: map_Serialize_def map_norm_def)
qed

section \<open>Codecs of the undo data\<close>

definition storable_undo :: "CTxInUndo \<Rightarrow> bool" where
  "storable_undo u \<longleftrightarrow> MoneyRange (nValue (u_txout u)) \<and> length (scriptPubKey (u_txout u)) \<le> MAX_SCRIPT_SIZE \<and>
     0 \<le> u_nHeight u \<and> u_nHeight u < 2 ^ 31 \<and> fits I32 (u_nVersion u) \<and> fits I32 (u_nFirstBwtPos u) \<and> fits I32 (u_nBwtMaturityHeight u) \<and>
     (u_nHeight u = 0 \<longrightarrow> u_nVersion u = 0) \<and>
     (u_nVersion u AND 0x7F \<noteq> SC_CERT_VERSION AND 0x7F \<longrightarrow> u_nFirstBwtPos u = BWT_POS_UNSET \<and> u_nBwtMaturityHeight u = 0)"

definition stored_undo :: "CTxInUndo \<Rightarrow> CTxInUndo" where
  "stored_undo u = u\<lparr>u_nVersion := stored_version (u_nVersion u)\<rparr>"

lemma stored_version_again: "WriteVarInt I32 (stored_version v) = WriteVarInt I32 v"
proof (cases "v < 0")
  case True
  have "v AND 0x7F = take_bit 7 v" by (simp add: take_bit_eq_mask mask_eq_exp_minus_1)
  then have "v AND 0x7F \<le> 0x7F" by (simp add: take_bit_eq_mod)
  then have "WriteVarInt I32 (v AND 0x7F) = Inr [word_of_int (v AND 0x7F)]" by (simp add: WriteVarInt_def varint_tmp.simps and.assoc)
  then show ?thesis using WriteVarInt_neg(1) [OF True, of I32] True by (simp add: stored_version_def)
qed (simp add: stored_version_def)

lemma undo_code:
  fixes b :: bool
  assumes "0 \<le> h" "h < 2 ^ 31"
  defines "code \<equiv> (h * 2 + (if b then 1 else 0)) mod 2 ^ 32"
  shows "code div 2 = h" "code AND 1 \<noteq> 0 \<longleftrightarrow> b" "0 \<le> code" "fits U32 code"
proof -
  have "code = h * 2 + (if b then 1 else 0)" using assms(1,2) unfolding code_def by (intro mod_pos_pos_trivial) simp_all
  then show "code div 2 = h" "code AND 1 \<noteq> 0 \<longleftrightarrow> b" by (simp_all add: and_one_eq)
  show "0 \<le> code" "fits U32 code" by (simp_all add: code_def fits_def)
qed

lemma read_version_word: "read_le 4 (ser_uint32 (uint (w :: uint32)) @ is) = Inr (unat w, is)"
proof -
  have w: "uint w mod 2 ^ 32 = uint w" using unsigned_less [of w, where ?'a = int] by simp
  have "unat w < 256 ^ 4" using unsigned_less [of w, where ?'a = nat] by simp
  then show ?thesis unfolding ser_uint32_def w by (simp add: nat_uint_eq)
qed

lemma bytes_round_trip: "length v \<le> MAX_SERIALIZED_COMPACT_SIZE \<Longrightarrow> bytes_Unserialize (bytes_Serialize v @ is) = Inr (v, is)"
  by (simp add: bytes_Unserialize_def bytes_Serialize_def ReadWriteCompactSize)

definition storable_view :: "CScCertificateView \<Rightarrow> bool" where
  "storable_view w \<longleftrightarrow> length (certDataHash w) \<le> MAX_SERIALIZED_COMPACT_SIZE \<and> in_int64 (view_forwardTransferScFee w) \<and> in_int64 (view_mbtrScFee w)"

lemma view_round_trip: "storable_view w \<Longrightarrow> certView_Unserialize (certView_Serialize w @ is) = Inr (w, is)"
  by (simp add: certView_Unserialize_def certView_Serialize_def storable_view_def bytes_round_trip read_ser_uint64)

interpretation fee_codec: codec ScFeeData_Serialize ScFeeData_Unserialize "\<lambda>d. in_int64 (forwardTxScFee d) \<and> in_int64 (mbtrTxScFee d)" "\<lambda>d. d"
  by unfold_locales (simp_all add: ScFeeData_Serialize_def ScFeeData_Unserialize_def read_ser_uint64)

lemma undo_written:
  assumes "pubkeys_ok lib" "storable_undo u"
  shows "\<exists>bs. CTxInUndo_Serialize lib u = Inr bs \<and> (\<forall>is. CTxInUndo_Unserialize lib CTxInUndo_new (bs @ is) = Inr (stored_undo u, is))"
proof -
  have u: "MoneyRange (nValue (u_txout u))" "length (scriptPubKey (u_txout u)) \<le> MAX_SCRIPT_SIZE" "0 \<le> u_nHeight u" "u_nHeight u < 2 ^ 31" "fits I32 (u_nVersion u)"
    "fits I32 (u_nFirstBwtPos u)" "fits I32 (u_nBwtMaturityHeight u)" "u_nHeight u = 0 \<longrightarrow> u_nVersion u = 0"
    "u_nVersion u AND 0x7F \<noteq> SC_CERT_VERSION AND 0x7F \<longrightarrow> u_nFirstBwtPos u = BWT_POS_UNSET \<and> u_nBwtMaturityHeight u = 0"
    using assms(2) by (simp_all add: storable_undo_def)
  let ?code = "(u_nHeight u * 2 + (if u_fCoinBase u then 1 else 0)) mod 2 ^ 32"
  note k = undo_code [OF u(3,4), of "u_fCoinBase u"]
  obtain c where c: "WriteVarInt U32 ?code = Inr c" "\<And>is. ReadVarInt U32 (c @ is) = Inr (?code, is)" using WriteVarInt_ok [OF k(3,4)] by blast
  obtain v where v: "WriteVarInt I32 (u_nVersion u) = Inr v" "\<And>is. ReadVarInt I32 (v @ is) = Inr (stored_version (u_nVersion u), is)" using version_round_trip [OF u(5)] by blast
  obtain t where t: "txout_Serialize lib (u_txout u) = Inr t" "\<And>t0 is. txout_Unserialize lib t0 (t @ is) = Inr (t0\<lparr>nValue := nValue (u_txout u), scriptPubKey := scriptPubKey (u_txout u)\<rparr>, is)"
    using txout_round_trip [OF assms(1) u(2,1)] by blast
  have n: "txout_SetNull\<lparr>nValue := nValue (u_txout u), scriptPubKey := scriptPubKey (u_txout u)\<rparr> = u_txout u" by (simp add: txout_SetNull_def)
  let ?v = "if u_nHeight u > 0 then v else []"
  let ?t = "if u_nHeight u > 0 \<and> u_nVersion u AND 0x7F = SC_CERT_VERSION AND 0x7F then ser_uint32 (u_nFirstBwtPos u) @ ser_uint32 (u_nBwtMaturityHeight u) else []"
  have w: "CTxInUndo_Serialize lib u = Inr (c @ ?v @ t @ ?t)" unfolding CTxInUndo_Serialize_def c(1) using v(1) t(1) by simp
  have z: "stored_version 0 = 0" "(0 :: int) AND 0x7F \<noteq> SC_CERT_VERSION AND 0x7F" by (simp_all add: stored_version_def SC_CERT_VERSION_def)
  have "CTxInUndo_Unserialize lib CTxInUndo_new ((c @ ?v @ t @ ?t) @ is) = Inr (stored_undo u, is)" for "is"
  proof (cases "u_nHeight u > 0")
    case True
    then show ?thesis
      unfolding CTxInUndo_Unserialize_def append_assoc c(2) bindR_simps prod.case Let_def
      using k(1,2) v(2) t(2) n u(6,7,9) stored_version_cert [of "u_nVersion u"]
      by (simp add: read_ser_uint32 CTxInUndo_new_def CTxInUndo_of_def stored_undo_def)
  next
    case False
    then have h: "u_nHeight u = 0" using u(3) by simp
    then show ?thesis
      unfolding CTxInUndo_Unserialize_def append_assoc c(2) bindR_simps prod.case Let_def
      using k(1,2) t(2) n u(8,9) z by (simp add: CTxInUndo_new_def CTxInUndo_of_def stored_undo_def)
  qed
  then show ?thesis using w by blast
qed

interpretation undo_codec: codec "CTxInUndo_Serialize lib" "CTxInUndo_Unserialize lib CTxInUndo_new" "\<lambda>u. pubkeys_ok lib \<and> storable_undo u" stored_undo for lib
proof
  fix u assume "pubkeys_ok lib \<and> storable_undo u"
  then show "\<exists>bs. CTxInUndo_Serialize lib u = Inr bs \<and> (\<forall>is. CTxInUndo_Unserialize lib CTxInUndo_new (bs @ is) = Inr (stored_undo u, is))" using undo_written by blast
  show "CTxInUndo_Serialize lib (stored_undo u) = CTxInUndo_Serialize lib u"
    by (simp add: CTxInUndo_Serialize_def stored_undo_def stored_version_again stored_version_cert)
qed

definition storable_undos :: "CTxInUndo list \<Rightarrow> bool" where
  "storable_undos us \<longleftrightarrow> list_all storable_undo us \<and> length us \<le> MAX_SERIALIZED_COMPACT_SIZE"

interpretation undos_codec: codec "vec_Serialize (CTxInUndo_Serialize lib)" "vec_Unserialize (CTxInUndo_Unserialize lib CTxInUndo_new)" "\<lambda>us. pubkeys_ok lib \<and> storable_undos us" "map stored_undo" for lib
  using codec.written [OF undo_codec.vector_codec [of lib]] codec.again [OF undo_codec.vector_codec [of lib]]
  by unfold_locales (auto simp: storable_undos_def list_all_iff)

interpretation fees_codec: codec "vec_Serialize ScFeeData_Serialize" "vec_Unserialize ScFeeData_Unserialize"
  "\<lambda>ds. list_all (\<lambda>d. in_int64 (forwardTxScFee d) \<and> in_int64 (mbtrTxScFee d)) ds \<and> length ds \<le> MAX_SERIALIZED_COMPACT_SIZE" "\<lambda>ds. ds"
  using codec.written [OF fee_codec.vector_codec] by unfold_locales auto

definition storable_scundo :: "CSidechainUndoData \<Rightarrow> bool" where
  "storable_scundo ud \<longleftrightarrow>
     (if has_section ud MATURED_AMOUNTS then in_int64 (appliedMaturedAmount ud) else appliedMaturedAmount ud = 0) \<and>
     (if has_section ud CROSS_EPOCH_CERT_DATA
      then storable_view (ud_pastEpochTopQualityCertView ud) \<and> list_all (\<lambda>d. in_int64 (forwardTxScFee d) \<and> in_int64 (mbtrTxScFee d)) (ud_scFees ud) \<and> length (ud_scFees ud) \<le> MAX_SERIALIZED_COMPACT_SIZE
      else ud_pastEpochTopQualityCertView ud = certView_null \<and> ud_scFees ud = []) \<and>
     (if has_section ud ANY_EPOCH_CERT_DATA
      then fits I32 (prevTopCommittedCertReferencedEpoch ud) \<and> in_int64 (prevTopCommittedCertQuality ud) \<and> in_int64 (prevTopCommittedCertBwtAmount ud) \<and> storable_view (ud_lastTopQualityCertView ud)
      else prevTopCommittedCertHash ud = 0 \<and> prevTopCommittedCertReferencedEpoch ud = EPOCH_NULL \<and> prevTopCommittedCertQuality ud = QUALITY_NULL \<and>
        prevTopCommittedCertBwtAmount ud = 0 \<and> ud_lastTopQualityCertView ud = certView_null) \<and>
     (if has_section ud SUPERSEDED_CERT_DATA then storable_undos (lowQualityBwts ud) else lowQualityBwts ud = []) \<and>
     (if has_section ud CEASED_CERT_DATA then storable_undos (ceasedBwts ud) else ceasedBwts ud = [])"

definition stored_scundo :: "CSidechainUndoData \<Rightarrow> CSidechainUndoData" where
  "stored_scundo ud = ud\<lparr>lowQualityBwts := map stored_undo (lowQualityBwts ud), ceasedBwts := map stored_undo (ceasedBwts ud)\<rparr>"

lemma undos_section:
  assumes "pubkeys_ok lib" "if b then storable_undos us else us = []"
  obtains bs where "(if b then vec_Serialize (CTxInUndo_Serialize lib) us else Inr []) = Inr bs" "\<not> b \<Longrightarrow> bs = []"
    "\<And>is. b \<Longrightarrow> vec_Unserialize (CTxInUndo_Unserialize lib CTxInUndo_new) (bs @ is) = Inr (map stored_undo us, is)"
proof (cases b)
  case True
  then obtain bs where "vec_Serialize (CTxInUndo_Serialize lib) us = Inr bs" "\<And>is. vec_Unserialize (CTxInUndo_Unserialize lib CTxInUndo_new) (bs @ is) = Inr (map stored_undo us, is)"
    using undos_codec.written [of lib us] assms by auto
  then show ?thesis using that [of bs] True by simp
qed (use that [of "[]"] in simp)

lemma fees_section:
  assumes "if b then storable_view w \<and> list_all (\<lambda>d. in_int64 (forwardTxScFee d) \<and> in_int64 (mbtrTxScFee d)) ds \<and> length ds \<le> MAX_SERIALIZED_COMPACT_SIZE else w = certView_null \<and> ds = []"
  obtains bs fees where "(if b then bindR (vec_Serialize ScFeeData_Serialize ds) (\<lambda>fees. Inr (certView_Serialize w @ fees)) else Inr []) = Inr bs"
    "bs = (if b then certView_Serialize w @ fees else [])" "\<And>is. b \<Longrightarrow> vec_Unserialize ScFeeData_Unserialize (fees @ is) = Inr (ds, is)"
    "\<And>is. b \<Longrightarrow> certView_Unserialize (certView_Serialize w @ is) = Inr (w, is)"
proof (cases b)
  case True
  then obtain fees where "vec_Serialize ScFeeData_Serialize ds = Inr fees" "\<And>is. vec_Unserialize ScFeeData_Unserialize (fees @ is) = Inr (ds, is)"
    using fees_codec.written [of ds] assms by auto
  then show ?thesis using that [of "certView_Serialize w @ fees" fees] True assms view_round_trip by simp
qed (use that [of "[]" "[]"] in simp)

lemma scundo_read:
  assumes ud: "storable_scundo ud"
    and x: "cross = (if has_section ud CROSS_EPOCH_CERT_DATA then certView_Serialize (ud_pastEpochTopQualityCertView ud) @ fees else [])"
      "\<And>is. has_section ud CROSS_EPOCH_CERT_DATA \<Longrightarrow> vec_Unserialize ScFeeData_Unserialize (fees @ is) = Inr (ud_scFees ud, is)"
      "\<And>is. has_section ud CROSS_EPOCH_CERT_DATA \<Longrightarrow> certView_Unserialize (certView_Serialize (ud_pastEpochTopQualityCertView ud) @ is) = Inr (ud_pastEpochTopQualityCertView ud, is)"
    and l: "\<not> has_section ud SUPERSEDED_CERT_DATA \<Longrightarrow> low = []"
      "\<And>is. has_section ud SUPERSEDED_CERT_DATA \<Longrightarrow> vec_Unserialize (CTxInUndo_Unserialize lib CTxInUndo_new) (low @ is) = Inr (map stored_undo (lowQualityBwts ud), is)"
    and c: "\<not> has_section ud CEASED_CERT_DATA \<Longrightarrow> ceased = []"
      "\<And>is. has_section ud CEASED_CERT_DATA \<Longrightarrow> vec_Unserialize (CTxInUndo_Unserialize lib CTxInUndo_new) (ceased @ is) = Inr (map stored_undo (ceasedBwts ud), is)"
  shows "CSidechainUndoData_Unserialize lib CSidechainUndoData_new ((ser_uint32 (uint (sidechainUndoDataVersion ud)) @ [contentBitMask ud] @ (if has_section ud MATURED_AMOUNTS then ser_uint64 (appliedMaturedAmount ud) else []) @ cross @
    (if has_section ud ANY_EPOCH_CERT_DATA then vch32 (prevTopCommittedCertHash ud) @ ser_uint32 (prevTopCommittedCertReferencedEpoch ud) @ ser_uint64 (prevTopCommittedCertQuality ud) @
        ser_uint64 (prevTopCommittedCertBwtAmount ud) @ certView_Serialize (ud_lastTopQualityCertView ud) else []) @ low @ ceased) @ is) = Inr (stored_scundo ud, is)"
proof -
  let ?S = "has_section ud"
  note s = ud [unfolded storable_scundo_def]
  let ?mat = "if ?S MATURED_AMOUNTS then ser_uint64 (appliedMaturedAmount ud) else []"
  let ?any = "if ?S ANY_EPOCH_CERT_DATA then vch32 (prevTopCommittedCertHash ud) @ ser_uint32 (prevTopCommittedCertReferencedEpoch ud) @ ser_uint64 (prevTopCommittedCertQuality ud) @
        ser_uint64 (prevTopCommittedCertBwtAmount ud) @ certView_Serialize (ud_lastTopQualityCertView ud) else []"
  define u0 where "u0 = CSidechainUndoData_new\<lparr>sidechainUndoDataVersion := sidechainUndoDataVersion ud, contentBitMask := contentBitMask ud\<rparr>"
  define u1 where "u1 = u0\<lparr>appliedMaturedAmount := appliedMaturedAmount ud\<rparr>"
  define u2 where "u2 = u1\<lparr>ud_pastEpochTopQualityCertView := ud_pastEpochTopQualityCertView ud, ud_scFees := ud_scFees ud\<rparr>"
  define u3 where "u3 = u2\<lparr>prevTopCommittedCertHash := prevTopCommittedCertHash ud, prevTopCommittedCertReferencedEpoch := prevTopCommittedCertReferencedEpoch ud, prevTopCommittedCertQuality := prevTopCommittedCertQuality ud,
     prevTopCommittedCertBwtAmount := prevTopCommittedCertBwtAmount ud, ud_lastTopQualityCertView := ud_lastTopQualityCertView ud\<rparr>"
  define u4 where "u4 = u3\<lparr>lowQualityBwts := map stored_undo (lowQualityBwts ud)\<rparr>"
  note ds = CSidechainUndoData_new_def u0_def u1_def u2_def u3_def u4_def
  have hs: "has_section u0 = ?S" "has_section u1 = ?S" "has_section u2 = ?S" "has_section u3 = ?S" "has_section u4 = ?S" by (simp_all add: has_section_def fun_eq_iff ds)
  have e1: "(if has_section u0 MATURED_AMOUNTS then bindR (read_int64 (?mat @ is)) (\<lambda>(a, is). Inr (u0\<lparr>appliedMaturedAmount := a\<rparr>, is)) else Inr (u0, ?mat @ is)) = Inr (u1, is)" for "is"
    unfolding hs using s by (cases "?S MATURED_AMOUNTS") (simp_all add: read_ser_uint64 ds)
  have e2: "(if has_section u1 CROSS_EPOCH_CERT_DATA
            then bindR (certView_Unserialize (cross @ is)) (\<lambda>(w, is). bindR (vec_Unserialize ScFeeData_Unserialize is) (\<lambda>(fees, is).
              Inr (u1\<lparr>ud_pastEpochTopQualityCertView := w, ud_scFees := fees\<rparr>, is))) else Inr (u1, cross @ is)) = Inr (u2, is)" for "is"
    unfolding hs using s x by (cases "?S CROSS_EPOCH_CERT_DATA") (simp_all add: ds)
  have e3: "(if has_section u2 ANY_EPOCH_CERT_DATA
            then bindR (read_uint256 (?any @ is)) (\<lambda>(h, is). bindR (read_int32 is) (\<lambda>(epoch, is). bindR (read_int64 is) (\<lambda>(quality, is).
              bindR (read_int64 is) (\<lambda>(amount, is). bindR (certView_Unserialize is) (\<lambda>(w, is).
              Inr (u2\<lparr>prevTopCommittedCertHash := h, prevTopCommittedCertReferencedEpoch := epoch, prevTopCommittedCertQuality := quality,
                      prevTopCommittedCertBwtAmount := amount, ud_lastTopQualityCertView := w\<rparr>, is)))))) else Inr (u2, ?any @ is)) = Inr (u3, is)" for "is"
    unfolding hs using s by (cases "?S ANY_EPOCH_CERT_DATA") (simp_all add: read_ser_uint64 read_ser_uint32 view_round_trip ds)
  have e4: "(if has_section u3 SUPERSEDED_CERT_DATA
            then bindR (vec_Unserialize (CTxInUndo_Unserialize lib CTxInUndo_new) (low @ is)) (\<lambda>(us, is). Inr (u3\<lparr>lowQualityBwts := us\<rparr>, is)) else Inr (u3, low @ is)) = Inr (u4, is)" for "is"
    unfolding hs using s l by (cases "?S SUPERSEDED_CERT_DATA") (simp_all add: ds)
  have e5: "(if has_section u4 CEASED_CERT_DATA
     then bindR (vec_Unserialize (CTxInUndo_Unserialize lib CTxInUndo_new) (ceased @ is)) (\<lambda>(us, is). Inr (u4\<lparr>ceasedBwts := us\<rparr>, is)) else Inr (u4, ceased @ is)) = Inr (stored_scundo ud, is)" for "is"
    unfolding hs using s c by (cases "?S CEASED_CERT_DATA") (simp_all add: ds stored_scundo_def)
  have r: "word_of_nat (unat (sidechainUndoDataVersion ud)) = sidechainUndoDataVersion ud" by simp
  show ?thesis
    unfolding CSidechainUndoData_Unserialize_def append_assoc read_version_word bindR_simps prod.case append_Cons append_Nil read_uint8_Cons Let_def r u0_def [symmetric]
    by (simp only: e1 e2 e3 e4 e5 bindR_simps prod.case)
qed

lemma scundo_written:
  assumes lib: "pubkeys_ok lib" and ud: "storable_scundo ud"
  shows "\<exists>bs. CSidechainUndoData_Serialize lib ud = Inr bs \<and> (\<forall>is. CSidechainUndoData_Unserialize lib CSidechainUndoData_new (bs @ is) = Inr (stored_scundo ud, is))"
proof -
  let ?S = "has_section ud"
  note s = ud [unfolded storable_scundo_def]
  obtain cross fees where x: "(if ?S CROSS_EPOCH_CERT_DATA then bindR (vec_Serialize ScFeeData_Serialize (ud_scFees ud)) (\<lambda>fees. Inr (certView_Serialize (ud_pastEpochTopQualityCertView ud) @ fees)) else Inr []) = Inr cross"
    "cross = (if ?S CROSS_EPOCH_CERT_DATA then certView_Serialize (ud_pastEpochTopQualityCertView ud) @ fees else [])"
    "\<And>is. ?S CROSS_EPOCH_CERT_DATA \<Longrightarrow> vec_Unserialize ScFeeData_Unserialize (fees @ is) = Inr (ud_scFees ud, is)"
    "\<And>is. ?S CROSS_EPOCH_CERT_DATA \<Longrightarrow> certView_Unserialize (certView_Serialize (ud_pastEpochTopQualityCertView ud) @ is) = Inr (ud_pastEpochTopQualityCertView ud, is)"
    by (rule fees_section [OF s [THEN conjunct2, THEN conjunct1]]) blast
  obtain low where l: "(if ?S SUPERSEDED_CERT_DATA then vec_Serialize (CTxInUndo_Serialize lib) (lowQualityBwts ud) else Inr []) = Inr low" "\<not> ?S SUPERSEDED_CERT_DATA \<Longrightarrow> low = []"
    "\<And>is. ?S SUPERSEDED_CERT_DATA \<Longrightarrow> vec_Unserialize (CTxInUndo_Unserialize lib CTxInUndo_new) (low @ is) = Inr (map stored_undo (lowQualityBwts ud), is)"
    by (rule undos_section [OF lib s [THEN conjunct2, THEN conjunct2, THEN conjunct2, THEN conjunct1]]) blast
  obtain ceased where c: "(if ?S CEASED_CERT_DATA then vec_Serialize (CTxInUndo_Serialize lib) (ceasedBwts ud) else Inr []) = Inr ceased" "\<not> ?S CEASED_CERT_DATA \<Longrightarrow> ceased = []"
    "\<And>is. ?S CEASED_CERT_DATA \<Longrightarrow> vec_Unserialize (CTxInUndo_Unserialize lib CTxInUndo_new) (ceased @ is) = Inr (map stored_undo (ceasedBwts ud), is)"
    by (rule undos_section [OF lib s [THEN conjunct2, THEN conjunct2, THEN conjunct2, THEN conjunct2]]) blast
  have "CSidechainUndoData_Serialize lib ud = Inr (ser_uint32 (uint (sidechainUndoDataVersion ud)) @ [contentBitMask ud] @ (if has_section ud MATURED_AMOUNTS then ser_uint64 (appliedMaturedAmount ud) else []) @ cross @
    (if has_section ud ANY_EPOCH_CERT_DATA then vch32 (prevTopCommittedCertHash ud) @ ser_uint32 (prevTopCommittedCertReferencedEpoch ud) @ ser_uint64 (prevTopCommittedCertQuality ud) @
        ser_uint64 (prevTopCommittedCertBwtAmount ud) @ certView_Serialize (ud_lastTopQualityCertView ud) else []) @ low @ ceased)"
    unfolding CSidechainUndoData_Serialize_def x(1) l(1) c(1) by simp
  moreover note scundo_read [where lib = lib, OF ud x(2-4) l(2,3) c(2,3)]
  ultimately show ?thesis by blast
qed

interpretation scundo_codec: codec "CSidechainUndoData_Serialize lib" "CSidechainUndoData_Unserialize lib CSidechainUndoData_new" "\<lambda>ud. pubkeys_ok lib \<and> storable_scundo ud" stored_scundo for lib
proof
  fix ud assume a: "pubkeys_ok lib \<and> storable_scundo ud"
  then show "\<exists>bs. CSidechainUndoData_Serialize lib ud = Inr bs \<and> (\<forall>is. CSidechainUndoData_Unserialize lib CSidechainUndoData_new (bs @ is) = Inr (stored_scundo ud, is))"
    using scundo_written by blast
  have h: "has_section (stored_scundo ud) = has_section ud" by (simp add: has_section_def stored_scundo_def fun_eq_iff)
  have e: "(if has_section ud SUPERSEDED_CERT_DATA then vec_Serialize (CTxInUndo_Serialize lib) (map stored_undo (lowQualityBwts ud)) else Inr []) =
      (if has_section ud SUPERSEDED_CERT_DATA then vec_Serialize (CTxInUndo_Serialize lib) (lowQualityBwts ud) else Inr [])"
    "(if has_section ud CEASED_CERT_DATA then vec_Serialize (CTxInUndo_Serialize lib) (map stored_undo (ceasedBwts ud)) else Inr []) =
      (if has_section ud CEASED_CERT_DATA then vec_Serialize (CTxInUndo_Serialize lib) (ceasedBwts ud) else Inr [])"
    using a undos_codec.again [of lib] by (simp_all add: storable_scundo_def)
  have f: "ud_scFees (stored_scundo ud) = ud_scFees ud" "ud_pastEpochTopQualityCertView (stored_scundo ud) = ud_pastEpochTopQualityCertView ud"
    "sidechainUndoDataVersion (stored_scundo ud) = sidechainUndoDataVersion ud" "contentBitMask (stored_scundo ud) = contentBitMask ud"
    "appliedMaturedAmount (stored_scundo ud) = appliedMaturedAmount ud" "prevTopCommittedCertHash (stored_scundo ud) = prevTopCommittedCertHash ud"
    "prevTopCommittedCertReferencedEpoch (stored_scundo ud) = prevTopCommittedCertReferencedEpoch ud" "prevTopCommittedCertQuality (stored_scundo ud) = prevTopCommittedCertQuality ud"
    "prevTopCommittedCertBwtAmount (stored_scundo ud) = prevTopCommittedCertBwtAmount ud" "ud_lastTopQualityCertView (stored_scundo ud) = ud_lastTopQualityCertView ud"
    "lowQualityBwts (stored_scundo ud) = map stored_undo (lowQualityBwts ud)" "ceasedBwts (stored_scundo ud) = map stored_undo (ceasedBwts ud)" by (simp_all add: stored_scundo_def)
  show "CSidechainUndoData_Serialize lib (stored_scundo ud) = CSidechainUndoData_Serialize lib ud"
    unfolding CSidechainUndoData_Serialize_def h f e by (rule refl)
qed

interpretation txundos_codec: codec "vec_Serialize (vec_Serialize (CTxInUndo_Serialize lib))" "vec_Unserialize (vec_Unserialize (CTxInUndo_Unserialize lib CTxInUndo_new))"
  "\<lambda>v. list_all (\<lambda>us. pubkeys_ok lib \<and> storable_undos us) v \<and> length v \<le> MAX_SERIALIZED_COMPACT_SIZE" "map (map stored_undo)" for lib
  by (rule undos_codec.vector_codec)

interpretation scmap_codec: codec "map_Serialize (CSidechainUndoData_Serialize lib)" "map_Unserialize (CSidechainUndoData_Unserialize lib CSidechainUndoData_new)"
  "\<lambda>m. list_all (\<lambda>(k, ud). pubkeys_ok lib \<and> storable_scundo ud) m \<and> length m \<le> MAX_SERIALIZED_COMPACT_SIZE \<and> distinct (map fst m)" "map_norm stored_scundo" for lib
  by (rule map_codec) unfold_locales

section \<open>The undo data of a block on disk\<close>

definition storable_blockundo :: "bool \<Rightarrow> CBlockUndo \<Rightarrow> bool" where
  "storable_blockundo includesSidechainAttributes bu \<longleftrightarrow>
     list_all storable_undos (vtxundo bu) \<and> length (vtxundo bu) < undo_marker \<and>
     (if includesSidechainAttributes
      then list_all (\<lambda>(k, ud). storable_scundo ud) (scUndoDatabyScId bu) \<and> length (scUndoDatabyScId bu) \<le> MAX_SERIALIZED_COMPACT_SIZE \<and> distinct (map fst (scUndoDatabyScId bu))
      else scUndoDatabyScId bu = [])"

definition stored_blockundo :: "CBlockUndo \<Rightarrow> CBlockUndo" where
  "stored_blockundo bu = bu\<lparr>vtxundo := map (map stored_undo) (vtxundo bu), scUndoDatabyScId := map_norm stored_scundo (scUndoDatabyScId bu)\<rparr>"

definition CBlockUndo_new :: CBlockUndo where
  "CBlockUndo_new = \<lparr>vtxundo = [], old_tree_root = 0, scUndoDatabyScId = []\<rparr>"

lemma blockundo_written:
  assumes lib: "pubkeys_ok lib" and bu: "storable_blockundo inc bu"
  shows "\<exists>bs. CBlockUndo_Serialize lib inc bu = Inr bs \<and> CBlockUndo_Serialize lib inc (stored_blockundo bu) = Inr bs \<and>
     (\<forall>is. CBlockUndo_Unserialize lib CBlockUndo_new (bs @ is) = Inr ((stored_blockundo bu, inc), is))"
proof -
  have m: "undo_marker \<le> MAX_SERIALIZED_COMPACT_SIZE" by (simp add: undo_marker_def MAX_SERIALIZED_COMPACT_SIZE_def)
  have v: "list_all (\<lambda>us. pubkeys_ok lib \<and> storable_undos us) (vtxundo bu) \<and> length (vtxundo bu) \<le> MAX_SERIALIZED_COMPACT_SIZE" "length (vtxundo bu) \<noteq> undo_marker"
    using bu lib m by (auto simp: storable_blockundo_def list_all_iff)
  obtain t where t: "vec_Serialize (vec_Serialize (CTxInUndo_Serialize lib)) (vtxundo bu) = Inr t"
    "\<And>is. vec_Unserialize (vec_Unserialize (CTxInUndo_Unserialize lib CTxInUndo_new)) (t @ is) = Inr (map (map stored_undo) (vtxundo bu), is)"
    using txundos_codec.written [OF v(1)] by blast
  note ta = txundos_codec.again [OF v(1)]
  show ?thesis
  proof (cases inc)
    case True
    then have s: "list_all (\<lambda>(k, ud). pubkeys_ok lib \<and> storable_scundo ud) (scUndoDatabyScId bu) \<and> length (scUndoDatabyScId bu) \<le> MAX_SERIALIZED_COMPACT_SIZE \<and> distinct (map fst (scUndoDatabyScId bu))"
      using bu lib by (auto simp: storable_blockundo_def list_all_iff)
    obtain w where "map_Serialize (CSidechainUndoData_Serialize lib) (scUndoDatabyScId bu) = Inr w"
      "\<And>is. map_Unserialize (CSidechainUndoData_Unserialize lib CSidechainUndoData_new) (w @ is) = Inr (map_norm stored_scundo (scUndoDatabyScId bu), is)"
      using scmap_codec.written [OF s] by blast
    then show ?thesis using True t ta m scmap_codec.again [OF s]
      by (simp add: CBlockUndo_Serialize_def CBlockUndo_Unserialize_def ReadWriteCompactSize stored_blockundo_def CBlockUndo_new_def)
  next
    case False
    then have e: "scUndoDatabyScId bu = []" using bu by (simp add: storable_blockundo_def)
    obtain n where n: "t = WriteCompactSize (length (vtxundo bu)) @ n" using t(1) by (auto simp: vec_Serialize_def bindR_eq_Inr)
    have "AddEntriesInVector (vec_Unserialize (CTxInUndo_Unserialize lib CTxInUndo_new)) (length (vtxundo bu)) (n @ is) = Inr (map (map stored_undo) (vtxundo bu), is)" for "is"
      using t(2) [of "is"] v(1) by (simp add: n vec_Unserialize_def ReadWriteCompactSize)
    then show ?thesis using False t(1) ta v n e
      by (simp add: CBlockUndo_Serialize_def CBlockUndo_Unserialize_def ReadWriteCompactSize stored_blockundo_def CBlockUndo_new_def map_norm_def)
  qed
qed

lemma drop_write_at: "drop pos (write_at pos bs file) = bs @ drop (pos + length bs) file"
  by (simp add: write_at_def)

lemma take_write_at: "pos \<le> length file \<Longrightarrow> take pos (write_at pos bs file) = take pos file"
  by (simp add: write_at_def)

section \<open>Spending and restoring through the disk\<close>

lemma fits_I32: "fits I32 x \<Longrightarrow> x < 2 ^ 31"
proof -
  assume "fits I32 x"
  then have "x = (x + 2147483648) mod 4294967296 - 2147483648" by (simp add: fits_def)
  also have "\<dots> < 2 ^ 31" using pos_mod_bound [of 4294967296 "x + 2147483648"] by simp
  finally show ?thesis .
qed

lemma storable_clean: "storable c \<Longrightarrow> clean_coins c"
  by (auto simp: storable_def clean_coins_def list_all_iff storable_out_null)

lemma spend_undo_storable:
  assumes c: "storable c" "nHeight c \<noteq> 0" and p: "IsAvailable c p" and s: "spend_with_undo p c = (c1, u)"
  shows "storable_undo u"
proof -
  have "vout c ! p \<in> set (vout c)" "\<not> txout_IsNull (vout c ! p)" using p by (auto simp: IsAvailable_def)
  then have o: "MoneyRange (nValue (vout c ! p))" "length (scriptPubKey (vout c ! p)) \<le> MAX_SCRIPT_SIZE" using c(1) by (auto simp: storable_def list_all_iff storable_out_def)
  have z: "(0 :: int) AND 0x7F \<noteq> SC_CERT_VERSION AND 0x7F" by (simp add: SC_CERT_VERSION_def)
  have h: "0 \<le> nHeight c" "nHeight c < 2 ^ 31" using c(1) fits_I32 by (simp_all add: storable_def)
  consider "u = with_metadata (fst (Spend p c)) (CTxInUndo_of (vout c ! p))" | "u = CTxInUndo_of (vout c ! p)" using s by (auto simp: spend_with_undo_def Let_def split: if_splits)
  then show ?thesis
  proof cases
    case 1
    then show ?thesis using c o h by (simp add: storable_undo_def with_metadata_def CTxInUndo_of_def storable_def IsFromCert_def)
  next
    case 2
    then show ?thesis using o z by (simp add: storable_undo_def CTxInUndo_of_def fits_def BWT_POS_UNSET_def)
  qed
qed

lemma put_back_stored:
  "put_back (stored_undo u) n d = (put_back u n d)\<lparr>nVersion := (if u_nHeight u \<noteq> 0 then stored_version (u_nVersion u) else nVersion d)\<rparr>"
  by (simp add: put_back_def stored_undo_def restore_metadata_def resize_vout_def Let_def)

lemma Cleanup_version: "Cleanup (c\<lparr>nVersion := v\<rparr>) = (Cleanup c)\<lparr>nVersion := v\<rparr>"
  by (simp add: Cleanup_def)

text \<open>C12: an output that is spent, whose undo record goes to disk, is read back and is applied when the block is disconnected, is unspent again: the coins are what they were, except
  that a negative version that had to be restored from the record keeps its lowest seven bits only.\<close>

theorem spent_output_restored_from_disk:
  assumes "pubkeys_ok lib" and "storable c" and "nHeight c \<noteq> 0" and "IsAvailable c (unat n)" and "spend_with_undo (unat n) c = (c1, u)"
  shows "\<exists>bs u' d. CTxInUndo_Serialize lib u = Inr bs \<and> CTxInUndo_Unserialize lib CTxInUndo_new (bs @ is) = Inr (u', is) \<and> apply_undo u' n c1 = Inr (d, True) \<and>
    Cleanup d = c\<lparr>nVersion := (if vout c1 = [] then stored_version (nVersion c) else nVersion c)\<rparr>"
proof -
  obtain bs where bs: "CTxInUndo_Serialize lib u = Inr bs" "CTxInUndo_Unserialize lib CTxInUndo_new (bs @ is) = Inr (stored_undo u, is)"
    using undo_written [OF assms(1) spend_undo_storable [OF assms(2-5)]] by blast
  note S = spend_with_undo_split [OF assms(5)]
  have c: "clean_coins c" "unat n < length (vout c)" using storable_clean [OF assms(2)] assms(4) by (simp_all add: IsAvailable_def)
  have "clean_coins c1" using c(1) S(1) by (simp add: Spend_clean)
  then have "same_coin c1 c1" using pop_nulls_canonical [of c1 0] by (simp add: same_coin_def clean_coins_def Cleanup_def)
  note pb = put_back_spend [OF c(1) assms(3) c(2) assms(5) this]
  have "unat n + 1 < 2 ^ 32" using c(2) assms(2) by (simp add: storable_def)
  from apply_undo_put_back [OF this, of "stored_undo u" c1] have a: "apply_undo (stored_undo u) n c1 = Inr (put_back (stored_undo u) (unat n) c1, True)"
    using pb(4,5) by (simp add: stored_undo_def)
  have "nVersion c1 = nVersion c" "vout c1 = [] \<Longrightarrow> u_nHeight u \<noteq> 0 \<and> u_nVersion u = nVersion c" "vout c1 \<noteq> [] \<Longrightarrow> u_nHeight u = 0"
    using S assms(3) by (simp_all add: with_metadata_def)
  then have "Cleanup (put_back (stored_undo u) (unat n) c1) = c\<lparr>nVersion := (if vout c1 = [] then stored_version (nVersion c) else nVersion c)\<rparr>"
    unfolding put_back_stored Cleanup_version pb(1) by auto
  then show ?thesis using bs a by blast
qed

theorem spent_output_restored_from_disk_witness:
  "let c = \<lparr>fCoinBase = False, vout = [\<lparr>nValue = 5, scriptPubKey = [OP_DUP]\<rparr>], nHeight = 10, nVersion = - 5, nFirstBwtPos = 0, nBwtMaturityHeight = 20\<rparr> in
   \<exists>bs u' d. CTxInUndo_Serialize one_pubkey (snd (spend_with_undo 0 c)) = Inr bs \<and> CTxInUndo_Unserialize one_pubkey CTxInUndo_new (bs @ [1]) = Inr (u', [1]) \<and>
     apply_undo u' 0 (fst (spend_with_undo 0 c)) = Inr (d, True) \<and> Cleanup d = c\<lparr>nVersion := 123\<rparr>"
proof -
  let ?c = "\<lparr>fCoinBase = False, vout = [\<lparr>nValue = 5, scriptPubKey = [OP_DUP]\<rparr>], nHeight = 10, nVersion = - 5, nFirstBwtPos = 0, nBwtMaturityHeight = 20\<rparr>"
  have c: "storable ?c" by (simp add: storable_def canonical_def storable_out_def txout_IsNull_def fits_def MoneyRange_def MAX_MONEY_def COIN_def MAX_SCRIPT_SIZE_def IsFromCert_def SC_CERT_VERSION_def)
  have v: "vout (fst (spend_with_undo 0 ?c)) = []" by (simp add: spend_with_undo_def Spend_def Cleanup_def pop_nulls.simps txout_IsNull_def txout_SetNull_def Let_def)
  show ?thesis
    using spent_output_restored_from_disk [OF one_pubkey_ok c, of 0 "fst (spend_with_undo 0 ?c)" "snd (spend_with_undo 0 ?c)" "[1]"] v
    by (simp add: IsAvailable_def txout_IsNull_def stored_version_def Let_def)
qed

text \<open>C13: the undo data of a block that is written to disk is read back for that block: the same outputs with their heights and positions, the same commitment tree root
  and the same data of each sidechain, with a negative version replaced by its lowest seven bits, and the checksum, which is computed again over what was read, is accepted.
  For another block it is refused unless the hashes collide. The file is not changed before the position of the record.\<close>

theorem undo_data_survives_disk:
  assumes "pubkeys_ok lib" and "storable_blockundo inc bu"
  shows "\<exists>data pos' file'. CBlockUndo_Serialize lib inc bu = Inr data \<and> UndoWriteToDisk lib Hash messageStart inc bu pos h file = Inr (pos', file') \<and>
    UndoReadFromDisk lib Hash CBlockUndo_new pos' h file' = Inr (stored_blockundo bu, inc) \<and>
    (\<forall>h'. UndoReadFromDisk lib Hash CBlockUndo_new pos' h' file' = (if Hash (vch32 h' @ data) = Hash (vch32 h @ data) then Inr (stored_blockundo bu, inc) else Inl RetFalse)) \<and>
    (pos \<le> length file \<longrightarrow> take pos file' = take pos file)"
proof -
  obtain data where d: "CBlockUndo_Serialize lib inc bu = Inr data" "CBlockUndo_Serialize lib inc (stored_blockundo bu) = Inr data"
    "\<And>is. CBlockUndo_Unserialize lib CBlockUndo_new (data @ is) = Inr ((stored_blockundo bu, inc), is)" using blockundo_written [OF assms] by blast
  define hd where "hd = messageStart @ ser_uint32 (int (length data))"
  define file' where "file' = write_at pos (hd @ data @ vch32 (Hash (vch32 h @ data))) file"
  have w: "UndoWriteToDisk lib Hash messageStart inc bu pos h file = Inr (pos + length hd, file')" by (simp add: UndoWriteToDisk_def d(1) hd_def file'_def Let_def)
  have "drop (pos + length hd) file' = data @ vch32 (Hash (vch32 h @ data)) @ drop (pos + length (hd @ data @ vch32 (Hash (vch32 h @ data)))) file"
  proof -
    have "drop (pos + length hd) file' = drop (length hd) (drop pos file')" by (simp add: add.commute)
    then show ?thesis unfolding file'_def drop_write_at by simp
  qed
  then have r: "UndoReadFromDisk lib Hash CBlockUndo_new (pos + length hd) h' file' = (if Hash (vch32 h' @ data) = Hash (vch32 h @ data) then Inr (stored_blockundo bu, inc) else Inl RetFalse)" for h'
    using d(2,3) by (auto simp: UndoReadFromDisk_def)
  have "pos \<le> length file \<longrightarrow> take pos file' = take pos file" by (simp add: file'_def take_write_at)
  then show ?thesis using d(1) w r by auto
qed

theorem undo_data_survives_disk_witness:
  "let bu = \<lparr>vtxundo = [[CTxInUndo_of \<lparr>nValue = 5, scriptPubKey = [OP_DUP]\<rparr>], []], old_tree_root = 3,
             scUndoDatabyScId = [(9, CSidechainUndoData_new), (2, CSidechainUndoData_new\<lparr>contentBitMask := MATURED_AMOUNTS, appliedMaturedAmount := 7\<rparr>)]\<rparr> in
   \<exists>pos' file'. UndoWriteToDisk one_pubkey (\<lambda>bs. word_of_nat (length bs)) [1, 2, 3, 4] True bu 1 8 [0] = Inr (pos', file') \<and>
     UndoReadFromDisk one_pubkey (\<lambda>bs. word_of_nat (length bs)) CBlockUndo_new pos' 8 file' = Inr (stored_blockundo bu, True)"
proof -
  let ?bu = "\<lparr>vtxundo = [[CTxInUndo_of \<lparr>nValue = 5, scriptPubKey = [OP_DUP]\<rparr>], []], old_tree_root = 3,
             scUndoDatabyScId = [(9, CSidechainUndoData_new), (2, CSidechainUndoData_new\<lparr>contentBitMask := MATURED_AMOUNTS, appliedMaturedAmount := 7\<rparr>)]\<rparr>"
  have "storable_undo (CTxInUndo_of \<lparr>nValue = 5, scriptPubKey = [OP_DUP]\<rparr>)"
    by (simp add: storable_undo_def CTxInUndo_of_def MoneyRange_def MAX_MONEY_def COIN_def MAX_SCRIPT_SIZE_def fits_def BWT_POS_UNSET_def SC_CERT_VERSION_def)
  moreover have "storable_scundo CSidechainUndoData_new" "storable_scundo (CSidechainUndoData_new\<lparr>contentBitMask := MATURED_AMOUNTS, appliedMaturedAmount := 7\<rparr>)"
    by (simp_all add: storable_scundo_def CSidechainUndoData_new_def has_section_def section_defs in_int64_def)
  ultimately have "storable_blockundo True ?bu"
    by (simp add: storable_blockundo_def storable_undos_def undo_marker_def MAX_SERIALIZED_COMPACT_SIZE_def)
  from undo_data_survives_disk [OF one_pubkey_ok this, of "\<lambda>bs. word_of_nat (length bs)" "[1, 2, 3, 4]" 1 8 "[0]"] show ?thesis by (auto simp: Let_def)
qed

end
