(* ===== verification/Spec2Isabelle.thy ===== *)
theory Spec2Isabelle
  imports ChainRun ScriptSpend NextWork BestChain UndoStore
begin

text \<open>
  A verification library for \<open>zend\<close>, the node of the Horizen block chain: a descendant of Bitcoin and Zcash whose main chain
  carries sidechains. The library models the part of the node that decides what the chain state is: the data of transactions and
  certificates, the checks they pass, the records of coins and sidechains with the caches and the database that hold them, the connection and
  disconnection of blocks, and the scripts that guard coins. Source files are named relative to the directory \<open>src\<close> of the sources.

  \<^bold>\<open>How the parts interact.\<close> A transaction sends coins to a sidechain (creations, forward transfers, fees of backward transfer requests)
  or takes coins from one that has ceased (ceased sidechain withdrawals); a certificate takes coins from a live sidechain by backward transfers.
  A block is connected in a cache over the view of the chain state: its transactions and certificates are checked against that view, then the
  view is changed, then the events scheduled for its height run: immature amounts mature, and a sidechain without a certificate in its submission window
  ceases. All that is needed to undo the block is kept in its undo data. The cache is written to the cache below it or to the database
  when it is flushed.

  \<^bold>\<open>Conventions.\<close> A function that may fail has a value of \<open>'a result\<close>, whose left values are the ways a C++ function gives up: a failed
  assertion, an exception, \<open>return false\<close>, a rejection with its score, code and reason, undefined behaviour. Amounts are integers, with
  \<open>wrap64\<close> where the code may leave 64 bits; hashes, bytes and flags are words. A class is a record; a method that changes its
  object returns the changed record. A \<open>std::map\<close> or the database is an association list with distinct keys. What is not under \<open>src\<close> or is
  cryptographic (hash functions, signature verification, the proof system) is a parameter.

  \<^bold>\<open>Theories.\<close>

  \<^item> \<open>Prelude\<close>: scalar types, the error values, sequencing of fallible steps, signed 64-bit arithmetic.
  \<^item> \<open>TxTypes\<close>: the data of \<open>primitives/transaction.h\<close>, \<open>primitives/certificate.h\<close> and
    \<open>sc/sidechaintypes.h\<close>, one record per class.
  \<^item> \<open>Sidechain\<close>: \<open>CSidechain\<close> of \<open>sc/sidechain.cpp\<close>: epochs, submission windows, ceasing and maturity
    heights, the buffer of fees.
  \<^item> \<open>Bytes\<close>: byte strings as numbers, little-endian reads and writes of \<open>crypto/common.h\<close> and
    \<open>serialize.h\<close>.
  \<^item> \<open>ScTypes\<close>: validity of the objects of \<open>sc/sidechaintypes.cpp\<close> and the semantic checks of
    \<open>sc/sidechain.cpp\<close>.
  \<^item> \<open>TxChecks\<close>: the context-free checks of transactions and certificates in \<open>primitives/\<close> and
    \<open>main.cpp\<close>.
  \<^item> \<open>Coins\<close>: \<open>CCoins\<close> of \<open>coins.h\<close>: the outputs of one transaction, spending, pruning.
  \<^item> \<open>MerkleTree\<close>: the note commitment tree of \<open>zcash/IncrementalMerkleTree.cpp\<close>, against a perfect binary tree.
  \<^item> \<open>CoinsView\<close>: the stack of views of \<open>coins.cpp\<close> and \<open>txdb.cpp\<close>: lookups that fill the cache,
    modifications.
  \<^item> \<open>ViewObs\<close>: what a stack of views stands for, and its invariant. The locale \<open>pure_lookup\<close> is the contract of a
    cached lookup.
  \<^item> \<open>ViewFlush\<close>: \<open>BatchWrite\<close> and \<open>Flush\<close>; the locale \<open>entry_writer\<close> is the contract of
    writing back one kind of entry, interpreted for each kind.
  \<^item> \<open>Ledger\<close>: the abstract chain state that a view stands for, and the steps of the cache on it.
  \<^item> \<open>ScUpdate, ScRoundTrip\<close>: \<open>UpdateSidechain(tx)\<close>, \<open>RevertTxOutputs\<close> and their specification on the
    ledger; refinement and round trip. The locales \<open>core_step\<close> and \<open>exact_step\<close> are the contract of one update of a
    sidechain.
  \<^item> \<open>CacheSteps, CoinOps, CoinUndo\<close>: spending and restoring outputs: \<open>UpdateCoins\<close>, \<open>ApplyTxInUndo\<close> of
    \<open>main.cpp\<close>.
  \<^item> \<open>CertUpdate\<close>: \<open>UpdateSidechain(cert)\<close>, \<open>RestoreSidechain\<close>, nullification and restoration of backward
    transfers.
  \<^item> \<open>ScEvents\<close>: \<open>HandleSidechainEvents\<close> and \<open>RevertSidechainEvents\<close>.
  \<^item> \<open>Applicability, Acceptance\<close>: \<open>IsCertApplicableToState\<close>, \<open>IsScTxApplicableToState\<close> and what their
    acceptance means.
  \<^item> \<open>BlockOps\<close>: \<open>ConnectBlock\<close> and \<open>DisconnectBlock\<close> of \<open>main.cpp\<close> with the undo data of
    \<open>undo.h\<close>.
  \<^item> \<open>BlockReads, ChainInv, BlockSteps, CertSteps, TopCerts, CertUndo, TxUndo, BlockChain, BlockRoundTrip\<close>: what the checks of a
    block establish, the invariant of the chain state, what each step does to the ledger and its undoing, and the theorems on whole blocks.
  \<^item> \<open>ChainRun\<close>: chains of connected blocks, and what they do to a sidechain that nobody uses.
  \<^item> \<open>ArithUint, Pow\<close>: 256-bit numbers on limbs against words, the compact form of targets, and the proof of work of
    \<open>pow.cpp\<close>.
  \<^item> \<open>BlockIndex, ActiveChain, NextWork\<close>: the index of blocks with its skip pointers, the entry of headers, the active chain, forks
    and locators, the next target (\<open>chain.cpp\<close>, \<open>main.cpp\<close>, \<open>zen/delay.cpp\<close>, \<open>pow.cpp\<close>).
  \<^item> \<open>BestChain\<close>: the order of candidate chains and the search for the one to activate (\<open>main.cpp\<close>).
  \<^item> \<open>Serialize\<close>: fixed-width integers, compact sizes and variable-length integers of \<open>serialize.h\<close>.
  \<^item> \<open>Compressor, CoinsStore\<close>: the compact forms of amounts and scripts (\<open>compressor.cpp\<close>), and \<open>CCoins\<close>
    in the database (\<open>coins.h\<close>).
  \<^item> \<open>UndoStore\<close>: vectors and maps of \<open>serialize.h\<close>, the undo data of \<open>undo.h\<close> on disk,
    \<open>UndoWriteToDisk\<close> and \<open>UndoReadFromDisk\<close> of \<open>main.cpp\<close>. The locale \<open>codec\<close> is the contract of
    a writer and a reader, interpreted for every kind of undo record.
  \<^item> \<open>ScriptNum, Script\<close>: script numbers, instructions and the members of \<open>CScript\<close> of \<open>script/script.h\<close>.
  \<^item> \<open>Interpreter\<close>: \<open>EvalScript\<close> with every opcode and \<open>VerifyScript\<close> of
    \<open>script/interpreter.cpp\<close>.
  \<^item> \<open>ScriptSafety, ScriptSpend\<close>: bounds of an evaluation, the signature checkers, the scripts of
    \<open>script/standard.cpp\<close> and what it takes to spend them.

  \<^bold>\<open>What the theorems show.\<close>

  \<^item> Blocks: connecting keeps the invariant of the chain state, the events of a block never fail, and disconnecting with the undo data restores
    the whole chain state.
  \<^item> Sidechains: the code refines the specification on the ledger, funds are conserved, certificates and transactions that are accepted apply
    without error and leave no negative balance; epochs and windows partition the heights.
  \<^item> Liveness: along any chain of connected blocks every scheduled amount is credited and a sidechain without certificates ceases at its height.
  \<^item> Views: flushing a cache makes the base show exactly what the cache showed.
  \<^item> Storage: coins and undo data survive the database and the disk, up to the version, of which a negative one keeps seven bits; a spent output
    is restored from its stored undo record; undo data is refused for another block.
  \<^item> Checks: no sum of amounts wraps; the checks accept exactly the inputs their purpose names.
  \<^item> Proof of work: the limb arithmetic is that of 256-bit words, targets survive their compact form, the next target stays within its limits,
    and the work of a block is the expected number of tries.
  \<^item> Block index: skip pointers find the ancestors that walking finds, the index stays consistent under any headers, the active chain is the
    path to its tip, forks are last common blocks, and the best usable candidate is found.
  \<^item> Scripts: verification always ends with success or a script error, within the limits of the stack; what it takes to spend an output; which
    numbers and sizes have which encodings.
  \<^item> Flaws: fees of zero make a block that cannot be disconnected, or stop the node at the next block; certificates ignore lock times.

  \<^bold>\<open>Bounds and termination.\<close> No fuel is used: every loop is structural recursion, has a measure (the rest of the stream or of the script, the value
  of the number that is written, a height), or is a partial function of the option monad that is shown to return (the loops that follow pointers in the index). Heights and epochs are integers without the 32-bit bound of the code, and the theorems on
  blocks ask only that the chain is at the height of the block. Amounts that the code adds in 64 bits wrap in the model; where the
  sum is shown to be exact, that is a theorem.

  \<^bold>\<open>Hypotheses on blocks.\<close> The theorems on whole blocks assume that the chain state meets its invariant, that the hashes of the block are new, that no
  backward transfer request has fee zero (the two theorems on fees of zero show why), and that the parameters that only read the view do only that.

  \<^bold>\<open>Not modelled.\<close>

  \<^item> The memory pool, the miner, the wallet: clients of the chain state with clocks, locks and databases of their own.
  \<^item> The network, the RPC and REST servers, TLS and websockets, start-up: input and output.
  \<^item> The cryptographic libraries (secp256k1, libsnark, cctp) and leveldb: libraries the sources only call.
  \<^item> \<open>CheckBlock\<close>, the script checks and the proof verification inside \<open>ConnectBlock\<close> are parameters of the model of a
    block (\<open>BlockRules\<close>); the explorer indexes are left out.
\<close>

end
